(* ===== verification/LDB_Prelude.thy ===== *)
theory LDB_Prelude
  imports Main "HOL-Library.Word"
begin

text \<open>
  Shared vocabulary of the development: the machine types the C++ sources use, the
  \<^theory_text>\<open>named_theorems\<close> collections, and the list and word lemmas that several
  components rely on.  A \<open>Slice\<close>, a \<open>std::string\<close> and a
  \<open>[p, limit)\<close> pointer pair are all modelled by the bytes they denote.
\<close>

unbundle bit_operations_syntax

type_synonym byte = "8 word"
type_synonym u16 = "16 word"
type_synonym u32 = "32 word"
type_synonym u64 = "64 word"
type_synonym slice = "byte list"

named_theorems coding_simps \<open>round-trip equations of the byte encodings\<close>
named_theorems cmp_simps \<open>facts about three-way comparison\<close>

section \<open>Lists\<close>

lemma take_drop_split: "n \<le> length xs \<Longrightarrow> \<exists>a b. xs = a @ b \<and> length a = n"
  by (metis append_take_drop_id length_take min.absorb2)

lemma take_append_exact [simp]: "length a = n \<Longrightarrow> take n (a @ b) = a"
  by simp

lemma drop_append_exact [simp]: "length a = n \<Longrightarrow> drop n (a @ b) = b"
  by simp

section \<open>Words\<close>

lemma of_nat_unat_small:
  assumes "n < 2 ^ LENGTH('a)"
  shows "unat (of_nat n :: 'a::len word) = n"
  using assms by (simp add: unat_of_nat take_bit_nat_eq_self)

lemma unat_u32_of_nat [simp]: "n < 2 ^ 32 \<Longrightarrow> unat (of_nat n :: u32) = n"
  by (rule of_nat_unat_small) simp

lemma unat_u64_of_nat [simp]: "n < 2 ^ 64 \<Longrightarrow> unat (of_nat n :: u64) = n"
  by (rule of_nat_unat_small) simp

lemma bit_above_width: "n \<ge> LENGTH('a) \<Longrightarrow> \<not> bit (w :: 'a::len word) n"
  by (meson bit_imp_le_length not_less)

lemma word_lt_2p_not_bit:
  fixes v :: "'a::len word"
  assumes "unat v < 2 ^ k" "k \<le> n"
  shows "\<not> bit v n"
proof -
  have "unat v < 2 ^ n"
    using assms by (meson le_trans less_le_trans one_le_numeral power_increasing)
  then have "\<not> bit (unat v) n"
    by (simp add: bit_iff_odd)
  then show ?thesis
    by (simp add: bit_unsigned_iff)
qed

lemma unat_drop_bit: "unat (drop_bit k (v :: 'a::len word)) = unat v div 2 ^ k"
  by (metis drop_bit_eq_div unat_drop_bit_eq)

lemma unat_drop_bit_less:
  fixes v :: "'a::len word"
  assumes "0 < k" "v \<noteq> 0"
  shows "unat (drop_bit k v) < unat v"
proof -
  have "unat v div 2 ^ k < unat v"
    using assms by (intro div_less_dividend) (simp_all add: unat_gt_0 one_less_power [of 2] del: One_nat_def)
  then show ?thesis by (simp add: unat_drop_bit)
qed

lemma unat_power: "k < LENGTH('a) \<Longrightarrow> unat (2 ^ k :: 'a::len word) = 2 ^ k"
  by (metis of_nat_numeral of_nat_power of_nat_unat_small one_less_numeral_iff
      power_strict_increasing semiring_norm(76))

lemma unat_ucast_up:
  fixes v :: "'a::len word"
  assumes "LENGTH('a) \<le> LENGTH('b::len)"
  shows "unat (ucast v :: 'b word) = unat v"
  using assms by (simp add: unsigned_ucast_eq take_bit_nat_eq_self_iff)
    (meson less_le_trans one_le_numeral power_increasing unsigned_less)

lemma ucast_up_down:
  fixes v :: "'a::len word"
  assumes "LENGTH('a) \<le> LENGTH('b::len)"
  shows "ucast (ucast v :: 'b word) = v"
  using assms by (intro bit_word_eqI) (simp add: bit_simps)

text \<open>A byte cut out of a word at bit \<open>k\<close>, moved back to bit \<open>k\<close>.\<close>

lemma bit_byte_at:
  fixes v :: "'a::len word"
  assumes "8 \<le> LENGTH('a)"
  shows "bit (push_bit k (ucast (ucast (drop_bit k v) :: byte) :: 'a word)) n
         \<longleftrightarrow> k \<le> n \<and> n < k + 8 \<and> bit v n"
  using assms by (auto simp: bit_simps dest: bit_imp_le_length)

lemma bit_byte_at0:
  fixes v :: "'a::len word"
  assumes "8 \<le> LENGTH('a)"
  shows "bit (ucast (ucast v :: byte) :: 'a word) n \<longleftrightarrow> n < 8 \<and> bit v n"
  using bit_byte_at [OF assms, of 0 v n] by simp

end
