(* ===== verification/Coding.thy ===== *)
theory Coding
  imports LDB_Prelude
begin

text \<open>
  \<open>util/coding.h\<close> and \<open>util/coding.cc\<close>: little-endian fixed-width integers and the
  base-128 varints.
\<close>

section \<open>Definitions\<close>

definition EncodeFixed32 :: "u32 \<Rightarrow> slice" where
  "EncodeFixed32 value =
     [ucast value, ucast (drop_bit 8 value), ucast (drop_bit 16 value), ucast (drop_bit 24 value)]"

definition EncodeFixed64 :: "u64 \<Rightarrow> slice" where
  "EncodeFixed64 value =
     [ucast value, ucast (drop_bit 8 value), ucast (drop_bit 16 value), ucast (drop_bit 24 value),
      ucast (drop_bit 32 value), ucast (drop_bit 40 value), ucast (drop_bit 48 value),
      ucast (drop_bit 56 value)]"

text \<open>The decoders read a fixed number of bytes with no bounds check; the callers supply them.\<close>

definition DecodeFixed32 :: "slice \<Rightarrow> u32" where
  "DecodeFixed32 buffer =
     (ucast (buffer ! 0) :: u32) OR push_bit 8 (ucast (buffer ! 1)) OR
     push_bit 16 (ucast (buffer ! 2)) OR push_bit 24 (ucast (buffer ! 3))"

definition DecodeFixed64 :: "slice \<Rightarrow> u64" where
  "DecodeFixed64 buffer =
     (ucast (buffer ! 0) :: u64) OR push_bit 8 (ucast (buffer ! 1)) OR
     push_bit 16 (ucast (buffer ! 2)) OR push_bit 24 (ucast (buffer ! 3)) OR
     push_bit 32 (ucast (buffer ! 4)) OR push_bit 40 (ucast (buffer ! 5)) OR
     push_bit 48 (ucast (buffer ! 6)) OR push_bit 56 (ucast (buffer ! 7))"

definition PutFixed32 :: "slice \<Rightarrow> u32 \<Rightarrow> slice" where
  "PutFixed32 dst value = dst @ EncodeFixed32 value"

definition PutFixed64 :: "slice \<Rightarrow> u64 \<Rightarrow> slice" where
  "PutFixed64 dst value = dst @ EncodeFixed64 value"

definition EncodeVarint32 :: "u32 \<Rightarrow> slice" where
  "EncodeVarint32 v =
     (let B = 128 in
      if v < push_bit 7 1 then [ucast v]
      else if v < push_bit 14 1 then [ucast (v OR B), ucast (drop_bit 7 v)]
      else if v < push_bit 21 1 then
        [ucast (v OR B), ucast (drop_bit 7 v OR B), ucast (drop_bit 14 v)]
      else if v < push_bit 28 1 then
        [ucast (v OR B), ucast (drop_bit 7 v OR B), ucast (drop_bit 14 v OR B),
         ucast (drop_bit 21 v)]
      else
        [ucast (v OR B), ucast (drop_bit 7 v OR B), ucast (drop_bit 14 v OR B),
         ucast (drop_bit 21 v OR B), ucast (drop_bit 28 v)])"

definition PutVarint32 :: "slice \<Rightarrow> u32 \<Rightarrow> slice" where
  "PutVarint32 dst v = dst @ EncodeVarint32 v"

function EncodeVarint64 :: "u64 \<Rightarrow> slice" where
  "EncodeVarint64 v =
     (if v \<ge> 128 then ucast (v OR 128) # EncodeVarint64 (drop_bit 7 v) else [ucast v])"
  by pat_completeness auto
termination
  by (relation "measure unat") (auto intro!: unat_drop_bit_less)

definition PutVarint64 :: "slice \<Rightarrow> u64 \<Rightarrow> slice" where
  "PutVarint64 dst v = dst @ EncodeVarint64 v"

text \<open>The length argument is converted to \<open>uint32_t\<close>, as the C++ call does.\<close>

definition PutLengthPrefixedSlice :: "slice \<Rightarrow> slice \<Rightarrow> slice" where
  "PutLengthPrefixedSlice dst value = PutVarint32 dst (of_nat (length value)) @ value"

function VarintLength :: "u64 \<Rightarrow> nat" where
  "VarintLength v = (if v \<ge> 128 then Suc (VarintLength (drop_bit 7 v)) else 1)"
  by pat_completeness auto
termination
  by (relation "measure unat") (auto intro!: unat_drop_bit_less)

text \<open>
  The common loop of \<open>GetVarint32PtrFallback\<close> (last shift 28, 32-bit result) and
  \<open>GetVarint64Ptr\<close> (last shift 63, 64-bit result).  The slice is \<open>[p, limit)\<close>; the result
  is the value and the bytes from the returned pointer on, \<^const>\<open>None\<close> for \<open>nullptr\<close>.
\<close>

fun GetVarintLoop :: "nat \<Rightarrow> nat \<Rightarrow> 'a::len word \<Rightarrow> slice \<Rightarrow> ('a word \<times> slice) option" where
  "GetVarintLoop last_shift shift result [] = None"
| "GetVarintLoop last_shift shift result (b # p) =
     (if shift \<le> last_shift then
        (let byte = ucast b in
         if byte AND 128 \<noteq> 0
         then GetVarintLoop last_shift (shift + 7) (result OR push_bit shift (byte AND 127)) p
         else Some (result OR push_bit shift byte, p))
      else None)"

definition GetVarint32PtrFallback :: "slice \<Rightarrow> (u32 \<times> slice) option" where
  "GetVarint32PtrFallback p = GetVarintLoop 28 0 0 p"

definition GetVarint32Ptr :: "slice \<Rightarrow> (u32 \<times> slice) option" where
  "GetVarint32Ptr p =
     (case p of
        b # q \<Rightarrow> (let result = (ucast b :: u32) in
                  if result AND 128 = 0 then Some (result, q) else GetVarint32PtrFallback p)
      | [] \<Rightarrow> GetVarint32PtrFallback p)"

definition GetVarint32 :: "slice \<Rightarrow> (u32 \<times> slice) option" where
  "GetVarint32 input = GetVarint32Ptr input"

definition GetVarint64Ptr :: "slice \<Rightarrow> (u64 \<times> slice) option" where
  "GetVarint64Ptr p = GetVarintLoop 63 0 0 p"

definition GetVarint64 :: "slice \<Rightarrow> (u64 \<times> slice) option" where
  "GetVarint64 input = GetVarint64Ptr input"

definition GetLengthPrefixedSlice :: "slice \<Rightarrow> (slice \<times> slice) option" where
  "GetLengthPrefixedSlice input =
     (case GetVarint32 input of
        Some (len, rest) \<Rightarrow>
          if length rest \<ge> unat len then Some (take (unat len) rest, drop (unat len) rest) else None
      | None \<Rightarrow> None)"

declare EncodeVarint64.simps [simp del] VarintLength.simps [simp del]

section \<open>Fixed-width integers\<close>

lemma length_EncodeFixed32 [simp]: "length (EncodeFixed32 v) = 4"
  by (simp add: EncodeFixed32_def)

lemma length_EncodeFixed64 [simp]: "length (EncodeFixed64 v) = 8"
  by (simp add: EncodeFixed64_def)

lemma DecodeFixed32_append [coding_simps]: "DecodeFixed32 (EncodeFixed32 v @ rest) = v"
proof (rule bit_word_eqI)
  fix n assume "n < LENGTH(32)"
  then show "bit (DecodeFixed32 (EncodeFixed32 v @ rest)) n = bit v n"
    by (simp add: DecodeFixed32_def EncodeFixed32_def bit_or_iff bit_byte_at bit_byte_at0) auto
qed

lemma DecodeFixed64_append [coding_simps]: "DecodeFixed64 (EncodeFixed64 v @ rest) = v"
proof (rule bit_word_eqI)
  fix n assume "n < LENGTH(64)"
  then show "bit (DecodeFixed64 (EncodeFixed64 v @ rest)) n = bit v n"
    by (simp add: DecodeFixed64_def EncodeFixed64_def bit_or_iff bit_byte_at bit_byte_at0) auto
qed

lemma EncodeFixed64_DecodeFixed64:
  assumes "length b = 8"
  shows "EncodeFixed64 (DecodeFixed64 b) = b"
proof -
  from assms obtain b0 b1 b2 b3 b4 b5 b6 b7 where b: "b = [b0, b1, b2, b3, b4, b5, b6, b7]"
    by (auto simp: length_Suc_conv numeral_eq_Suc)
  have lt: "\<not> bit (x :: byte) n" if "8 \<le> n" for x n
    using that by (intro bit_above_width) simp
  show ?thesis
    unfolding b EncodeFixed64_def list.inject
    by (intro conjI refl bit_word_eqI) (auto simp: DecodeFixed64_def bit_simps lt)
qed

lemma EncodeFixed32_inj: "EncodeFixed32 a = EncodeFixed32 b \<longleftrightarrow> a = b"
  by (metis DecodeFixed32_append append_Nil2)

text \<open>Arrays of 32-bit integers.\<close>

lemma concat_Fixed32_nth:
  "i < length xs \<Longrightarrow> \<exists>t. drop (i * 4) (concat (map (\<lambda>e. EncodeFixed32 (f e)) xs) @ z) = EncodeFixed32 (f (xs ! i)) @ t"
proof (induction xs arbitrary: i)
  case (Cons x xs)
  then show ?case by (cases i) auto
qed simp

lemma fold_PutFixed32: "fold (\<lambda>r buf. PutFixed32 buf r) rs buf = buf @ concat (map EncodeFixed32 rs)"
  by (induction rs arbitrary: buf) (simp_all add: PutFixed32_def)

lemma length_concat_Fixed32: "length (concat (map (\<lambda>e. EncodeFixed32 (f e)) xs)) = length xs * 4"
  by (induction xs) auto

section \<open>Varints\<close>

text \<open>A continuation byte carries the low seven bits and has its top bit set.\<close>

lemma bit_128 [simp]: "bit (128 :: int) n \<longleftrightarrow> n = 7"
proof -
  have "(128 :: int) = 2 ^ 7" by simp
  then show ?thesis by (simp only: bit_exp_iff) auto
qed

lemma bit_127 [simp]: "bit (127 :: int) n \<longleftrightarrow> n < 7"
proof -
  have "(127 :: int) = mask 7" by (simp add: mask_eq_exp_minus_1)
  then show ?thesis by (simp only: bit_mask_iff) auto
qed

lemma and_128_zero: "(w :: 'a::len word) AND 128 = 0 \<longleftrightarrow> \<not> bit w 7"
proof
  assume "w AND 128 = 0"
  then have "\<not> bit (w AND 128) 7" by simp
  then show "\<not> bit w 7" by (auto simp: bit_and_iff dest: bit_imp_le_length)
next
  assume "\<not> bit w 7"
  then show "w AND 128 = 0" by (intro bit_word_eqI) (auto simp: bit_and_iff)
qed

lemma cont_byte_top:
  fixes v :: "'b::len word"
  assumes "7 < LENGTH('b)" "7 < LENGTH('a::len)"
  shows "(ucast (ucast (v OR 128) :: byte) :: 'a word) AND 128 \<noteq> 0"
  using assms by (simp add: and_128_zero bit_simps)

lemma last_byte_top:
  fixes v :: "'b::len word"
  assumes "v < 128" "7 < LENGTH('b)" "7 < LENGTH('a::len)"
  shows "(ucast (ucast v :: byte) :: 'a word) AND 128 = 0"
proof -
  have "(2::nat) ^ 7 < 2 ^ LENGTH('b)" using assms(2) by (intro power_strict_increasing) auto
  then have "unat v < 2 ^ 7" using assms(1) by (simp add: word_less_nat_alt unat_numeral take_bit_nat_eq_self)
  then have "\<not> bit v 7" by (rule word_lt_2p_not_bit) simp
  then show ?thesis using assms by (simp add: and_128_zero bit_simps)
qed

lemma varint_split:
  fixes v :: u64
  assumes "8 \<le> LENGTH('a::len)" "LENGTH('a) \<le> 64"
  shows "push_bit s (ucast (ucast (v OR 128) :: byte) AND 127) OR
           push_bit (s + 7) (ucast (drop_bit 7 v) :: 'a word) = push_bit s (ucast v)"
proof (rule bit_word_eqI)
  fix n assume "n < LENGTH('a)"
  moreover have "7 + (n - (s + 7)) = n - s \<or> n - s < 7" by linarith
  ultimately show "bit (push_bit s (ucast (ucast (v OR 128) :: byte) AND 127) OR
           push_bit (s + 7) (ucast (drop_bit 7 v) :: 'a word)) n = bit (push_bit s (ucast v :: 'a word)) n"
    using assms by (auto simp: bit_simps bit_above_width)
qed

lemma unat_drop_bit_bound:
  fixes v :: u64
  assumes "unat v < 2 ^ m"
  shows "unat (drop_bit 7 v) < 2 ^ (m - 7)"
proof -
  have "unat (drop_bit 7 v) = unat v div 2 ^ 7"
    by (rule unat_drop_bit)
  also have "\<dots> < 2 ^ (m - 7)"
  proof (cases "7 \<le> m")
    case True
    then have "(2::nat) ^ m = 2 ^ (m - 7) * 2 ^ 7" 
      by (metis le_add_diff_inverse2 power_add)
    with assms show ?thesis by (simp add: less_mult_imp_div_less)
  next
    case False
    then have "(2::nat) ^ m \<le> 2 ^ 7" by (intro power_increasing) auto
    with assms have "unat v < 2 ^ 7" by simp
    then show ?thesis by simp
  qed
  finally show ?thesis .
qed

text \<open>
  One induction serves both widths: decoding the bytes of \<open>v\<close> at shift \<open>7k\<close> ors
  \<open>v\<close>, shifted into place, into the partial result and stops right behind the encoding.
\<close>

lemma GetVarintLoop_Encode:
  fixes v :: u64 and r :: "'a::len word"
  assumes "8 \<le> LENGTH('a)" "LENGTH('a) \<le> 64"
    and enough: "\<And>i. 7 * i < LENGTH('a) \<Longrightarrow> 7 * i \<le> last_shift"
    and "7 * k < LENGTH('a)" "unat v < 2 ^ (LENGTH('a) - 7 * k)"
  shows "GetVarintLoop last_shift (7 * k) r (EncodeVarint64 v @ rest)
           = Some (r OR push_bit (7 * k) (ucast v), rest)"
  using assms(4,5)
proof (induction v arbitrary: k r rule: EncodeVarint64.induct)
  case (1 v)
  have le: "7 * k \<le> last_shift" using enough "1.prems"(1) .
  show ?case
  proof (cases "v \<ge> 128")
    case True
    then have "unat v \<ge> 2 ^ 7" by (simp add: word_le_nat_alt)
    with "1.prems"(2) have "(2::nat) ^ 7 < 2 ^ (LENGTH('a) - 7 * k)" by linarith
    then have "7 < LENGTH('a) - 7 * k" by (rule power_less_imp_less_exp [rotated]) simp
    then have k: "7 * Suc k < LENGTH('a)" by simp
    have v: "unat (drop_bit 7 v) < 2 ^ (LENGTH('a) - 7 * Suc k)"
      using unat_drop_bit_bound [OF "1.prems"(2)] by (simp add: algebra_simps)
    have top: "(ucast (ucast (v OR 128) :: byte) :: 'a word) AND 128 \<noteq> 0"
      using assms(1) by (intro cont_byte_top) auto
    have "(r OR push_bit (7 * k) (ucast (ucast (v OR 128) :: byte) AND 127)) OR
        push_bit (7 * Suc k) (ucast (drop_bit 7 v)) = r OR push_bit (7 * k) (ucast v :: 'a word)"
      using varint_split [OF assms(1,2), of "7 * k" v] by (simp only: or.assoc mult_Suc_right add.commute)
    moreover have "7 * k + 7 = 7 * Suc k" by simp
    ultimately show ?thesis using True le top
      by (simp only: EncodeVarint64.simps [of v] append_Cons GetVarintLoop.simps if_True Let_def
          "1.IH" [OF True k v] simp_thms)
  next
    case False
    then have "(ucast (ucast v :: byte) :: 'a word) AND 128 = 0"
      using assms(1) by (intro last_byte_top) auto
    moreover have "ucast (ucast v :: byte) = (ucast v :: 'a word)"
    proof (rule bit_word_eqI)
      fix n assume "n < LENGTH('a)"
      have "unat v < 2 ^ 8" using False by (simp add: word_less_nat_alt not_le)
      then show "bit (ucast (ucast v :: byte) :: 'a word) n = bit (ucast v :: 'a word) n"
        using word_lt_2p_not_bit [of v 8 n] by (cases "n < 8") (auto simp: bit_simps)
    qed
    ultimately show ?thesis using False le
      by (simp add: EncodeVarint64.simps [of v])
  qed
qed

lemma EncodeVarint64_drop:
  fixes v :: u32
  shows "EncodeVarint64 (drop_bit k (ucast v)) =
     (if 2 ^ (k + 7) \<le> unat v
      then ucast (drop_bit k v OR 128) # EncodeVarint64 (drop_bit (k + 7) (ucast v))
      else [ucast (drop_bit k v)])"
proof -
  have "unat (drop_bit k (ucast v :: u64)) = unat v div 2 ^ k"
    by (simp add: unat_drop_bit unat_ucast_up)
  then have "128 \<le> drop_bit k (ucast v :: u64) \<longleftrightarrow> 2 ^ 7 \<le> unat v div 2 ^ k"
    by (simp add: word_le_nat_alt)
  also have "\<dots> \<longleftrightarrow> 2 ^ (k + 7) \<le> unat v"
    by (simp add: less_eq_div_iff_mult_less_eq power_add mult.commute)
  finally have c: "128 \<le> drop_bit k (ucast v :: u64) \<longleftrightarrow> 2 ^ (k + 7) \<le> unat v" .
  have "m < 64" if "bit v m" for m using bit_imp_le_length [OF that] by simp
  then have "(ucast (drop_bit k (ucast v :: u64) OR 128) :: byte) = ucast (drop_bit k v OR 128)"
    "(ucast (drop_bit k (ucast v :: u64)) :: byte) = ucast (drop_bit k v)"
    by (auto intro!: bit_word_eqI simp: bit_simps)
  with c show ?thesis
    by (simp add: EncodeVarint64.simps [of "drop_bit k (ucast v)"] add.commute)
qed

text \<open>The unrolled 32-bit encoder is the loop of the 64-bit one.\<close>

lemma EncodeVarint32_eq_64: "EncodeVarint32 v = EncodeVarint64 (ucast v)"
proof -
  have "unat v < 2 ^ 35" using unsigned_less [of v, where ?'a = nat] by simp
  then show ?thesis
    using EncodeVarint64_drop [of 0 v] EncodeVarint64_drop [of 7 v] EncodeVarint64_drop [of 14 v]
      EncodeVarint64_drop [of 21 v] EncodeVarint64_drop [of 28 v]
    by (simp add: EncodeVarint32_def Let_def word_less_nat_alt not_less not_le)
qed

lemma EncodeVarint64_nonempty [simp]: "EncodeVarint64 v \<noteq> []"
  by (subst EncodeVarint64.simps) simp

lemma EncodeVarint32_nonempty [simp]: "EncodeVarint32 v \<noteq> []"
  by (simp add: EncodeVarint32_eq_64)

lemma length_EncodeVarint64: "length (EncodeVarint64 v) = VarintLength v"
  by (induction v rule: EncodeVarint64.induct)
     (subst EncodeVarint64.simps, subst VarintLength.simps, simp)

lemma VarintLength_bound:
  assumes "unat v < 2 ^ (7 * n)" "0 < n"
  shows "VarintLength v \<le> n"
  using assms
proof (induction n arbitrary: v)
  case (Suc n)
  show ?case
  proof (cases "v \<ge> 128")
    case True
    then have "unat v \<ge> 2 ^ 7" by (simp add: word_le_nat_alt)
    with Suc.prems(1) have "n \<noteq> 0" by (cases n) auto
    moreover have "unat (drop_bit 7 v) < 2 ^ (7 * n)"
      using unat_drop_bit_bound [OF Suc.prems(1)] by simp
    ultimately show ?thesis using True Suc.IH by (subst VarintLength.simps) simp
  qed (subst VarintLength.simps, simp)
qed simp

lemma VarintLength_pos [simp]: "0 < VarintLength v"
  by (subst VarintLength.simps) simp

lemma length_EncodeVarint32_le: "length (EncodeVarint32 v) \<le> 5"
  by (simp add: EncodeVarint32_def Let_def)

text \<open>The inline fast path of \<open>GetVarint32Ptr\<close> never changes the result.\<close>

lemma GetVarint32Ptr_eq: "GetVarint32Ptr p = GetVarintLoop 28 0 0 p"
  by (cases p) (auto simp: GetVarint32Ptr_def GetVarint32PtrFallback_def Let_def)

lemma GetVarint32_Encode [coding_simps]: "GetVarint32 (EncodeVarint32 v @ rest) = Some (v, rest)"
proof -
  have "unat (ucast v :: u64) < 2 ^ (32 - 7 * 0)"
    using unsigned_less [of v, where ?'a = nat] by (simp add: unat_ucast_up)
  then have "GetVarintLoop 28 (7 * 0) (0 :: u32) (EncodeVarint64 (ucast v) @ rest)
      = Some (0 OR push_bit (7 * 0) (ucast (ucast v :: u64)), rest)"
    by (intro GetVarintLoop_Encode) auto
  then show ?thesis
    by (simp add: GetVarint32_def GetVarint32Ptr_eq EncodeVarint32_eq_64 ucast_up_down)
qed

lemma GetVarint64_Encode [coding_simps]: "GetVarint64 (EncodeVarint64 v @ rest) = Some (v, rest)"
proof -
  have "unat v < 2 ^ (64 - 7 * 0)" using unsigned_less [of v, where ?'a = nat] by simp
  then have "GetVarintLoop 63 (7 * 0) (0 :: u64) (EncodeVarint64 v @ rest)
      = Some (0 OR push_bit (7 * 0) (ucast v), rest)"
    by (intro GetVarintLoop_Encode) auto
  then show ?thesis by (simp add: GetVarint64_def GetVarint64Ptr_def)
qed

lemma GetLengthPrefixedSlice_Put [coding_simps]:
  assumes "length s < 2 ^ 32"
  shows "GetLengthPrefixedSlice (EncodeVarint32 (of_nat (length s)) @ s @ rest) = Some (s, rest)"
  using assms by (simp add: GetLengthPrefixedSlice_def coding_simps)

text \<open>What a successful decode consumed: a non-empty prefix of bounded length.\<close>

lemma GetVarintLoop_consumes:
  assumes "GetVarintLoop last_shift shift r p = Some (v, q)"
  shows "\<exists>used. p = used @ q \<and> used \<noteq> [] \<and> shift + 7 * (length used - 1) \<le> last_shift"
  using assms
proof (induction last_shift shift r p rule: GetVarintLoop.induct)
  case (2 last_shift shift r b p)
  show ?case
  proof (cases "(ucast b :: 'a word) AND 128 = 0")
    case True
    with "2.prems" have "shift \<le> last_shift" "q = p"
      by (auto simp: Let_def split: if_splits)
    then show ?thesis by (intro exI [of _ "[b]"]) simp
  next
    case False
    with "2.prems" have le: "shift \<le> last_shift"
      and rec: "GetVarintLoop last_shift (shift + 7) (r OR push_bit shift (ucast b AND 127)) p = Some (v, q)"
      by (auto simp: Let_def split: if_splits)
    from "2.IH" [OF le refl False rec] obtain used where
      "p = used @ q" "used \<noteq> []" "shift + 7 + 7 * (length used - 1) \<le> last_shift" by auto
    then show ?thesis by (intro exI [of _ "b # used"]) (cases used, auto)
  qed
qed simp

lemma GetVarint32_consumes:
  assumes "GetVarint32 p = Some (v, q)"
  shows "\<exists>used. p = used @ q \<and> used \<noteq> [] \<and> length used \<le> 5"
  using GetVarintLoop_consumes [of 28 0 0 p v q] assms
  by (auto simp: GetVarint32_def GetVarint32Ptr_eq)

lemma GetVarint64_consumes:
  assumes "GetVarint64 p = Some (v, q)"
  shows "\<exists>used. p = used @ q \<and> used \<noteq> [] \<and> length used \<le> 10"
  using GetVarintLoop_consumes [of 63 0 0 p v q] assms
  by (auto simp: GetVarint64_def GetVarint64Ptr_def)

lemma GetVarint32_shorter: "GetVarint32 p = Some (v, q) \<Longrightarrow> length q < length p"
  by (drule GetVarint32_consumes) auto

lemma GetVarint64_shorter: "GetVarint64 p = Some (v, q) \<Longrightarrow> length q < length p"
  by (drule GetVarint64_consumes) auto

lemma GetLengthPrefixedSlice_shorter:
  "GetLengthPrefixedSlice p = Some (s, q) \<Longrightarrow> length q < length p"
  by (fastforce simp: GetLengthPrefixedSlice_def split: option.splits if_splits dest: GetVarint32_shorter)

end
