(* ===== verification/Crc32c.thy ===== *)
theory Crc32c
  imports Crc32cTables
begin

text \<open>
  \<open>util/crc32c.cc\<close> and \<open>util/crc32c.h\<close>: the portable four-stride \<open>Extend\<close> with its alignment
  prologue and its tail, and the masking of stored checksums.  \<open>Extend\<close> is shown to compute the
  bit-at-a-time reference from every start address.
\<close>

section \<open>Definitions\<close>

definition kCRC32Xor :: u32 where
  "kCRC32Xor = 0xffffffff"

definition ReadUint32LE :: "slice \<Rightarrow> u32" where
  "ReadUint32LE buffer = DecodeFixed32 buffer"

text \<open>Pointers are addresses; \<open>(p + 3) & ~3\<close> clears the two low bits.\<close>

definition RoundUp4 :: "nat \<Rightarrow> nat" where
  "RoundUp4 pointer = (pointer + 3) - (pointer + 3) mod 4"

definition AcceleratedCRC32C :: "bool \<Rightarrow> (u32 \<Rightarrow> slice \<Rightarrow> u32) \<Rightarrow> u32 \<Rightarrow> slice \<Rightarrow> u32" where
  "AcceleratedCRC32C HAVE_CRC32C lib_extend crc buf = (if HAVE_CRC32C then lib_extend crc buf else 0)"

definition kTestCRCBuffer :: slice where
  "kTestCRCBuffer = [84, 101, 115, 116, 67, 82, 67, 66, 117, 102, 102, 101, 114]"

definition CanAccelerateCRC32C :: "bool \<Rightarrow> (u32 \<Rightarrow> slice \<Rightarrow> u32) \<Rightarrow> bool" where
  "CanAccelerateCRC32C HAVE_CRC32C lib_extend =
     (AcceleratedCRC32C HAVE_CRC32C lib_extend 0 kTestCRCBuffer = 0xdcbc59fa)"

text \<open>The macros of \<open>Extend\<close>.\<close>

definition STEP1 :: "u32 \<Rightarrow> byte \<Rightarrow> u32" where
  "STEP1 l b =
     (let c = (l AND 0xff) XOR ucast b in kByteExtensionTable ! unat c XOR drop_bit 8 l)"

definition STEP4 :: "u32 \<Rightarrow> u32 \<Rightarrow> u32" where
  "STEP4 crc word =
     word XOR kStrideExtensionTable3 ! unat (crc AND 0xff) XOR
       kStrideExtensionTable2 ! unat (drop_bit 8 crc AND 0xff) XOR
       kStrideExtensionTable1 ! unat (drop_bit 16 crc AND 0xff) XOR
       kStrideExtensionTable0 ! unat (drop_bit 24 crc)"

definition STEP4W_round :: "u32 \<Rightarrow> u32" where
  "STEP4W_round w = drop_bit 8 w XOR kByteExtensionTable ! unat (w AND 0xff)"

definition STEP4W :: "u32 \<Rightarrow> u32 \<Rightarrow> u32" where
  "STEP4W w l =
     STEP4W_round (STEP4W_round (STEP4W_round (STEP4W_round (w XOR l))))"

type_synonym strides = "u32 \<times> u32 \<times> u32 \<times> u32"

text \<open>\<open>STEP16\<close>, repeated while at least sixteen bytes are left.\<close>

function Extend_swaths :: "strides \<Rightarrow> slice \<Rightarrow> strides \<times> slice" where
  "Extend_swaths crcs p =
     (if length p \<ge> 16 then
        (case crcs of (crc0, crc1, crc2, crc3) \<Rightarrow>
           Extend_swaths
             (STEP4 crc0 (ReadUint32LE p), STEP4 crc1 (ReadUint32LE (drop 4 p)),
              STEP4 crc2 (ReadUint32LE (drop 8 p)), STEP4 crc3 (ReadUint32LE (drop 12 p)))
             (drop 16 p))
      else (crcs, p))"
  by pat_completeness auto
termination
  by (relation "measure (\<lambda>(_, p). length p)") auto

text \<open>One word at a time, rotating the four partial results.\<close>

function Extend_words :: "strides \<Rightarrow> slice \<Rightarrow> strides \<times> slice" where
  "Extend_words crcs p =
     (if length p \<ge> 4 then
        (case crcs of (crc0, crc1, crc2, crc3) \<Rightarrow>
           Extend_words (crc1, crc2, crc3, STEP4 crc0 (ReadUint32LE p)) (drop 4 p))
      else (crcs, p))"
  by pat_completeness auto
termination
  by (relation "measure (\<lambda>(_, p). length p)") auto

definition Extend_strides :: "u32 \<Rightarrow> slice \<Rightarrow> u32 \<times> slice" where
  "Extend_strides l p =
     (if length p \<ge> 16 then
        (let crcs = (ReadUint32LE p XOR l, ReadUint32LE (drop 4 p),
                     ReadUint32LE (drop 8 p), ReadUint32LE (drop 12 p));
             (crcs, p) = Extend_swaths crcs (drop 16 p);
             ((crc0, crc1, crc2, crc3), p) = Extend_words crcs p;
             l = STEP4W crc3 (STEP4W crc2 (STEP4W crc1 (STEP4W crc0 0)))
         in (l, p))
      else (l, p))"

text \<open>
  \<open>Extend\<close> on a buffer at address \<open>addr\<close>.  The one static choice is whether the external
  crc32c library is built in and passes the self test.
\<close>

definition ExtendAt :: "bool \<Rightarrow> (u32 \<Rightarrow> slice \<Rightarrow> u32) \<Rightarrow> nat \<Rightarrow> u32 \<Rightarrow> slice \<Rightarrow> u32" where
  "ExtendAt HAVE_CRC32C lib_extend addr crc data =
     (if CanAccelerateCRC32C HAVE_CRC32C lib_extend
      then AcceleratedCRC32C HAVE_CRC32C lib_extend crc data
      else
        (let l = crc XOR kCRC32Xor;
             x = RoundUp4 addr;
             k = (if x \<le> addr + length data then x - addr else 0);
             l = foldl STEP1 l (take k data);
             p = drop k data;
             (l, p) = Extend_strides l p;
             l = foldl STEP1 l p
         in l XOR kCRC32Xor))"

text \<open>The build without the external library, on an aligned buffer; the clients below use it.\<close>

definition Extend :: "u32 \<Rightarrow> slice \<Rightarrow> u32" where
  "Extend crc data = ExtendAt False (\<lambda>_ _. 0) 0 crc data"

definition Value :: "slice \<Rightarrow> u32" where
  "Value data = Extend 0 data"

definition kMaskDelta :: u32 where
  "kMaskDelta = 0xa282ead8"

definition Mask :: "u32 \<Rightarrow> u32" where
  "Mask crc = (drop_bit 15 crc OR push_bit 17 crc) + kMaskDelta"

definition Unmask :: "u32 \<Rightarrow> u32" where
  "Unmask masked_crc =
     (let rot = masked_crc - kMaskDelta in drop_bit 17 rot OR push_bit 15 rot)"

text \<open>The reference: one input byte is xored in and followed by eight polynomial steps.\<close>

definition crc_step :: "u32 \<Rightarrow> byte \<Rightarrow> u32" where
  "crc_step l b = crc_zero (l XOR ucast b)"

definition crc_ref :: "u32 \<Rightarrow> slice \<Rightarrow> u32" where
  "crc_ref crc data = foldl crc_step (crc XOR 0xffffffff) data XOR 0xffffffff"

text \<open>The bytewise loop and the combination of the partial results, named for the proofs.\<close>

definition crc_bytes :: "u32 \<Rightarrow> slice \<Rightarrow> u32" where
  "crc_bytes l p = foldl STEP1 l p"

definition crc_combine :: "strides \<Rightarrow> u32" where
  "crc_combine crcs =
     (case crcs of (c0, c1, c2, c3) \<Rightarrow> STEP4W c3 (STEP4W c2 (STEP4W c1 (STEP4W c0 0))))"

declare Extend_swaths.simps [simp del] Extend_words.simps [simp del]

section \<open>The steps\<close>

lemma split_low_byte: "(w :: u32) = take_bit 8 w XOR push_bit 8 (drop_bit 8 w)"
  by (rule bit_word_eqI) (auto simp: bit_simps)

lemma crc_zero_table: "crc_zero w = kByteExtensionTable ! unat (take_bit 8 w) XOR drop_bit 8 w"
proof -
  have "crc_zero w = crc_zero (take_bit 8 w) XOR crc_zero (push_bit 8 (drop_bit 8 w))"
    by (metis crc_zero_xor split_low_byte)
  also have "crc_zero (push_bit 8 (drop_bit 8 w)) = drop_bit 8 w"
    unfolding crc_zero_push by (rule bit_word_eqI) (auto simp: bit_simps dest: bit_imp_le_length)
  finally show ?thesis by (simp add: byte_table_nth)
qed

lemma STEP4W_round_eq: "STEP4W_round w = crc_zero w"
  by (simp add: STEP4W_round_def and_255_eq_mask crc_zero_table xor.commute)

lemma STEP4W_eq: "STEP4W w l = crc_zero4 (w XOR l)"
  by (simp add: STEP4W_def STEP4W_round_eq crc_zero4_def)

lemma STEP1_eq: "STEP1 l b = crc_zero (l XOR ucast b)"
proof -
  have byte: "n < 8" if "bit b n" for n using bit_imp_le_length [OF that] by simp
  have "take_bit 8 l XOR ucast b = take_bit 8 (l XOR ucast b :: u32)"
    by (rule bit_word_eqI) (auto simp: bit_simps dest: byte)
  moreover have "drop_bit 8 l = drop_bit 8 (l XOR ucast b :: u32)"
    by (rule bit_word_eqI) (auto simp: bit_simps dest: byte)
  ultimately show ?thesis
    by (simp add: STEP1_def Let_def and_255_eq_mask crc_zero_table)
qed

lemma split_bytes:
  "(w :: u32) = take_bit 8 w XOR push_bit 8 (take_bit 8 (drop_bit 8 w)) XOR
     push_bit 16 (take_bit 8 (drop_bit 16 w)) XOR push_bit 24 (take_bit 8 (drop_bit 24 w))"
proof (rule bit_word_eqI)
  fix n assume "n < LENGTH(32)"
  then consider "n < 8" | "8 \<le> n" "n < 16" | "16 \<le> n" "n < 24" | "24 \<le> n" "n < 32" by fastforce
  then show "bit w n = bit (take_bit 8 w XOR push_bit 8 (take_bit 8 (drop_bit 8 w)) XOR
     push_bit 16 (take_bit 8 (drop_bit 16 w)) XOR push_bit 24 (take_bit 8 (drop_bit 24 w))) n"
    by cases (auto simp: bit_simps)
qed

lemma STEP4_eq: "STEP4 crc w = w XOR crc_zero16 crc"
proof -
  have "drop_bit 24 crc = take_bit 8 (drop_bit 24 crc)"
    by (rule bit_word_eqI) (auto simp: bit_simps dest: bit_imp_le_length)
  then have "STEP4 crc w = w XOR crc_zero16 (take_bit 8 crc) XOR
       crc_zero16 (push_bit 8 (take_bit 8 (drop_bit 8 crc))) XOR
       crc_zero16 (push_bit 16 (take_bit 8 (drop_bit 16 crc))) XOR
       crc_zero16 (push_bit 24 (take_bit 8 (drop_bit 24 crc)))"
    by (metis STEP4_def and_255_eq_mask stride0_nth stride1_nth stride2_nth stride3_nth)
  also have "\<dots> = w XOR crc_zero16 crc"
    by (subst (5) split_bytes) (simp only: crc_zero16_xor xor.assoc)
  finally show ?thesis .
qed

section \<open>Words of four bytes and the strides\<close>

lemma DecodeFixed32_xor:
  "DecodeFixed32 [b0, b1, b2, b3] =
     ucast b0 XOR push_bit 8 (ucast b1) XOR push_bit 16 (ucast b2) XOR push_bit 24 (ucast b3)"
  unfolding DecodeFixed32_def
  by (rule bit_word_eqI) (auto simp: bit_simps nth_Cons' dest: bit_imp_le_length)

lemma crc_zero_push_byte:
  "crc_zero (push_bit 8 (ucast (b :: byte))) = ucast b"
  "crc_zero (push_bit 16 (ucast (b :: byte))) = push_bit 8 (ucast b)"
  "crc_zero (push_bit 24 (ucast (b :: byte))) = push_bit 16 (ucast b)"
proof -
  have byte: "n < 8" if "bit b n" for n using bit_imp_le_length [OF that] by simp
  show "crc_zero (push_bit 8 (ucast b)) = ucast b"
    unfolding crc_zero_push by (rule bit_word_eqI) (auto simp: bit_simps dest: byte)
  have "push_bit 16 (ucast b :: u32) = push_bit 8 (push_bit 8 (ucast b))" by simp
  then show "crc_zero (push_bit 16 (ucast b)) = push_bit 8 (ucast b)"
    by (simp only: crc_zero_push) (rule bit_word_eqI, auto simp: bit_simps dest: byte)
  have "push_bit 24 (ucast b :: u32) = push_bit 8 (push_bit 16 (ucast b))" by simp
  then show "crc_zero (push_bit 24 (ucast b)) = push_bit 16 (ucast b)"
    by (simp only: crc_zero_push) (rule bit_word_eqI, auto simp: bit_simps dest: byte)
qed

lemma crc_bytes_simps [simp]:
  "crc_bytes l [] = l" "crc_bytes l (p @ q) = crc_bytes (crc_bytes l p) q"
  by (simp_all add: crc_bytes_def)

lemma crc_bytes_word:
  assumes "length p \<ge> 4"
  shows "crc_bytes l p = crc_bytes (crc_zero4 (l XOR ReadUint32LE p)) (drop 4 p)"
proof -
  obtain b0 b1 b2 b3 q where p: "p = b0 # b1 # b2 # b3 # q"
    using assms by (auto simp: Suc_le_length_iff numeral_eq_Suc)
  have "DecodeFixed32 p = DecodeFixed32 [b0, b1, b2, b3]"
    by (simp add: p DecodeFixed32_def)
  then show ?thesis
    by (simp add: p crc_bytes_def STEP1_eq ReadUint32LE_def DecodeFixed32_xor crc_zero4_def
        crc_zero_xor crc_zero_push_byte xor.assoc)
qed

text \<open>Rotating a word into the strides is extending the combined checksum by it.\<close>

lemma crc_combine_rotate:
  "crc_combine (c1, c2, c3, STEP4 c0 w) = crc_zero4 (crc_combine (c0, c1, c2, c3) XOR w)"
  by (simp add: crc_combine_def STEP4W_eq STEP4_eq crc_zero4_xor crc_zero16_def ac_simps)

lemma Extend_words_correct:
  "Extend_words crcs p = (crcs', p') \<Longrightarrow>
   crc_bytes (crc_combine crcs') p' = crc_bytes (crc_combine crcs) p"
proof (induction crcs p rule: Extend_words.induct)
  case (1 crcs p)
  obtain c0 c1 c2 c3 where crcs: "crcs = (c0, c1, c2, c3)" by (cases crcs)
  show ?case
  proof (cases "length p \<ge> 4")
    case True
    with 1 crcs show ?thesis
      by (simp add: Extend_words.simps [of _ p] crc_combine_rotate crc_bytes_word [of p])
  qed (use 1 in \<open>simp add: Extend_words.simps [of _ p]\<close>)
qed

lemma Extend_swath_step:
  assumes "length p \<ge> 16"
  shows "crc_bytes (crc_combine
           (STEP4 c0 (ReadUint32LE p), STEP4 c1 (ReadUint32LE (drop 4 p)),
            STEP4 c2 (ReadUint32LE (drop 8 p)), STEP4 c3 (ReadUint32LE (drop 12 p)))) (drop 16 p)
         = crc_bytes (crc_combine (c0, c1, c2, c3)) p"
  using assms
  by (simp add: crc_combine_rotate crc_bytes_word [of p] crc_bytes_word [of "drop 4 p"]
      crc_bytes_word [of "drop 8 p"] crc_bytes_word [of "drop 12 p"])

lemma Extend_swaths_correct:
  "Extend_swaths crcs p = (crcs', p') \<Longrightarrow>
   crc_bytes (crc_combine crcs') p' = crc_bytes (crc_combine crcs) p"
proof (induction crcs p rule: Extend_swaths.induct)
  case (1 crcs p)
  obtain c0 c1 c2 c3 where crcs: "crcs = (c0, c1, c2, c3)" by (cases crcs)
  show ?case
  proof (cases "length p \<ge> 16")
    case True
    with 1 crcs show ?thesis
      by (simp add: Extend_swaths.simps [of _ p] Extend_swath_step)
  qed (use 1 in \<open>simp add: Extend_swaths.simps [of _ p]\<close>)
qed

lemma crc_combine_start:
  assumes "length p \<ge> 16"
  shows "crc_bytes (crc_combine (ReadUint32LE p XOR l, ReadUint32LE (drop 4 p),
           ReadUint32LE (drop 8 p), ReadUint32LE (drop 12 p))) (drop 16 p) = crc_bytes l p"
  using assms
  by (simp add: crc_combine_def STEP4W_eq crc_bytes_word [of p] crc_bytes_word [of "drop 4 p"]
      crc_bytes_word [of "drop 8 p"] crc_bytes_word [of "drop 12 p"] xor.commute)

lemma Extend_strides_correct:
  "Extend_strides l p = (l', p') \<Longrightarrow> crc_bytes l' p' = crc_bytes l p"
proof (cases "length p \<ge> 16")
  case True
  assume e: "Extend_strides l p = (l', p')"
  define c where "c = (ReadUint32LE p XOR l, ReadUint32LE (drop 4 p),
                     ReadUint32LE (drop 8 p), ReadUint32LE (drop 12 p))"
  obtain c1 p1 where s: "Extend_swaths c (drop 16 p) = (c1, p1)" by fastforce
  obtain c2 p2 where w: "Extend_words c1 p1 = (c2, p2)" by fastforce
  from e True s w have "l' = crc_combine c2" "p' = p2"
    by (auto simp: Extend_strides_def crc_combine_def Let_def c_def split: prod.splits)
  then show ?thesis
    using Extend_words_correct [OF w] Extend_swaths_correct [OF s] crc_combine_start [OF True, of l]
    by (simp add: c_def)
qed (simp add: Extend_strides_def)

section \<open>Extend\<close>

lemma crc_bytes_ref: "crc_bytes l p = foldl crc_step l p"
  by (induction p arbitrary: l) (simp_all add: crc_bytes_def STEP1_eq crc_step_def)

lemma ExtendAt_portable:
  assumes "\<not> CanAccelerateCRC32C HAVE_CRC32C lib_extend"
  shows "ExtendAt HAVE_CRC32C lib_extend addr crc data = crc_ref crc data"
proof -
  define k where "k = (if RoundUp4 addr \<le> addr + length data then RoundUp4 addr - addr else 0)"
  define l where "l = crc XOR kCRC32Xor"
  obtain l' p' where s: "Extend_strides (crc_bytes l (take k data)) (drop k data) = (l', p')"
    by fastforce
  have "ExtendAt HAVE_CRC32C lib_extend addr crc data = crc_bytes l' p' XOR kCRC32Xor"
    using assms s by (simp add: ExtendAt_def Let_def k_def l_def crc_bytes_def)
  also have "crc_bytes l' p' = crc_bytes l (take k data @ drop k data)"
    using Extend_strides_correct [OF s] by (simp only: crc_bytes_simps)
  finally show ?thesis
    by (simp add: l_def crc_ref_def crc_bytes_ref kCRC32Xor_def)
qed

lemma no_library: "\<not> CanAccelerateCRC32C False lib_extend"
  by (simp add: CanAccelerateCRC32C_def AcceleratedCRC32C_def)

lemma Extend_eq_ref: "Extend crc data = crc_ref crc data"
  by (simp add: Extend_def ExtendAt_portable no_library)

text \<open>
  The contract the log and table formats rely on: extending is compositional, so a checksum
  may be continued from a stored prefix.
\<close>

locale checksum =
  fixes extend :: "u32 \<Rightarrow> slice \<Rightarrow> u32"
  assumes extend_append: "extend (extend crc a) b = extend crc (a @ b)"
    and extend_nil: "extend crc [] = crc"
begin

lemma extend_cons: "extend (extend crc [x]) xs = extend crc (x # xs)"
  by (simp add: extend_append)

lemma extend_snoc: "extend (extend crc xs) [x] = extend crc (xs @ [x])"
  by (simp add: extend_append)

end

interpretation crc: checksum Extend
proof unfold_locales
  fix c a b
  show "Extend (Extend c a) b = Extend c (a @ b)"
    by (simp add: Extend_eq_ref crc_ref_def xor.assoc)
  show "Extend c [] = c"
    by (simp add: Extend_eq_ref crc_ref_def xor.assoc)
qed

lemma rotate_or:
  fixes x :: u32
  assumes "m + n = 32"
  shows "drop_bit n (drop_bit m x OR push_bit n x) OR push_bit m (drop_bit m x OR push_bit n x) = x"
proof (rule bit_word_eqI)
  fix i assume "i < LENGTH(32)"
  then show "bit (drop_bit n (drop_bit m x OR push_bit n x) OR
      push_bit m (drop_bit m x OR push_bit n x)) i = bit x i"
    using assms by (cases "m \<le> i") (auto simp: bit_simps dest: bit_imp_le_length)
qed

lemma Unmask_Mask [simp]: "Unmask (Mask crc) = crc"
  using rotate_or [of 15 17 crc] unfolding Unmask_def Mask_def Let_def by simp

lemma Mask_Unmask [simp]: "Mask (Unmask m) = m"
  using rotate_or [of 17 15 "m - kMaskDelta"] unfolding Unmask_def Mask_def Let_def by simp

section \<open>Properties\<close>

text \<open>
  C10: Without hardware or library acceleration, \<open>Extend\<close> (alignment prologue, sixteen-byte
  swaths over four strides, word rotation, recombination and byte tail over the five lookup
  tables) returns the bit-at-a-time CRC32C of the data, whatever the buffer's start address.
\<close>

theorem crc32c_Extend_is_CRC32C:
  assumes "\<not> CanAccelerateCRC32C HAVE_CRC32C lib_extend"
  shows "ExtendAt HAVE_CRC32C lib_extend addr crc data = crc_ref crc data"
  using assms by (rule ExtendAt_portable)

theorem crc32c_Extend_is_CRC32C_witness:
  "\<not> CanAccelerateCRC32C True (\<lambda>_ _. 0) \<and>
   ExtendAt True (\<lambda>_ _. 0) 3 0 [1, 2] = crc_ref 0 [1, 2] \<and> crc_ref 0 [1, 2] = 0x03f89f52"
proof -
  have h: "\<not> CanAccelerateCRC32C True (\<lambda>_ _. 0)"
    by (simp add: CanAccelerateCRC32C_def AcceleratedCRC32C_def)
  show ?thesis
    using h crc32c_Extend_is_CRC32C [OF h, of 3 0 "[1, 2]"]
    by (simp add: crc_ref_def crc_step_def crc_zero_def crc_bit_def)
qed

text \<open>
  Masking a checksum for storage loses nothing: \<open>Unmask\<close> undoes \<open>Mask\<close> and conversely,
  for every 32-bit value, wrap-around included.
\<close>

theorem crc32c_mask_bijection: "Unmask (Mask crc) = crc \<and> Mask (Unmask crc) = crc"
  by simp

end
