(* ===== verification/Slice.thy ===== *)
theory Slice
  imports LDB_Prelude
begin

text \<open>
  \<open>include/leveldb/slice.h\<close> (comparison and prefix tests) and \<open>include/leveldb/status.h\<close>,
  \<open>util/status.cc\<close> (the result of fallible operations).
\<close>

section \<open>Definitions\<close>

text \<open>\<open>memcmp\<close> of the C library: the sign of the first difference among \<open>n\<close> unsigned bytes.\<close>

fun memcmp :: "slice \<Rightarrow> slice \<Rightarrow> nat \<Rightarrow> int" where
  "memcmp (x # a) (y # b) (Suc n) =
     (if x < y then -1 else if y < x then 1 else memcmp a b n)"
| "memcmp a b n = 0"

definition Slice_compare :: "slice \<Rightarrow> slice \<Rightarrow> int" where
  "Slice_compare a b =
     (let min_len = (if length a < length b then length a else length b);
          r = memcmp a b min_len
      in if r = 0
         then (if length a < length b then -1 else if length a > length b then 1 else r)
         else r)"

definition Slice_eq :: "slice \<Rightarrow> slice \<Rightarrow> bool" where
  "Slice_eq x y = (length x = length y \<and> memcmp x y (length x) = 0)"

definition starts_with :: "slice \<Rightarrow> slice \<Rightarrow> bool" where
  "starts_with s x = (length s \<ge> length x \<and> memcmp s x (length x) = 0)"

definition remove_prefix :: "slice \<Rightarrow> nat \<Rightarrow> slice" where
  "remove_prefix s n = drop n s"

text \<open>The bytes of an ASCII literal.\<close>

definition ascii :: "string \<Rightarrow> slice" where
  "ascii s = map (\<lambda>c. of_nat (of_char c)) s"

datatype Code = kNotFound | kCorruption | kNotSupported | kInvalidArgument | kIOError

text \<open>A null \<open>state_\<close> is \<open>OK\<close>; otherwise \<open>state_\<close> holds the code and the message.\<close>

datatype Status = OK | Error (code: Code) (msg: slice)

definition Status_new :: "Code \<Rightarrow> slice \<Rightarrow> slice \<Rightarrow> Status" where
  "Status_new c m msg2 = Error c (m @ (if msg2 \<noteq> [] then [58, 32] @ msg2 else []))"

definition Corruption :: "slice \<Rightarrow> slice \<Rightarrow> Status" where
  "Corruption m msg2 = Status_new kCorruption m msg2"

definition NotFound :: "slice \<Rightarrow> slice \<Rightarrow> Status" where
  "NotFound m msg2 = Status_new kNotFound m msg2"

definition InvalidArgument :: "slice \<Rightarrow> slice \<Rightarrow> Status" where
  "InvalidArgument m msg2 = Status_new kInvalidArgument m msg2"

definition IOError :: "slice \<Rightarrow> slice \<Rightarrow> Status" where
  "IOError m msg2 = Status_new kIOError m msg2"

definition ok :: "Status \<Rightarrow> bool" where
  "ok s = (case s of OK \<Rightarrow> True | Error _ _ \<Rightarrow> False)"

definition IsNotFound :: "Status \<Rightarrow> bool" where
  "IsNotFound s = (case s of OK \<Rightarrow> False | Error c _ \<Rightarrow> c = kNotFound)"

definition IsCorruption :: "Status \<Rightarrow> bool" where
  "IsCorruption s = (case s of OK \<Rightarrow> False | Error c _ \<Rightarrow> c = kCorruption)"

definition Status_ToString :: "Status \<Rightarrow> slice" where
  "Status_ToString s =
     (case s of
        OK \<Rightarrow> ascii ''OK''
      | Error c m \<Rightarrow>
          (case c of
             kNotFound \<Rightarrow> ascii ''NotFound: ''
           | kCorruption \<Rightarrow> ascii ''Corruption: ''
           | kNotSupported \<Rightarrow> ascii ''Not implemented: ''
           | kInvalidArgument \<Rightarrow> ascii ''Invalid argument: ''
           | kIOError \<Rightarrow> ascii ''IO error: '') @ m)"

section \<open>Comparison\<close>

lemma Slice_compare_simps [simp]:
  "Slice_compare [] [] = 0"
  "Slice_compare [] (y # b) = -1"
  "Slice_compare (x # a) [] = 1"
  "Slice_compare (x # a) (y # b) =
     (if x < y then -1 else if y < x then 1 else Slice_compare a b)"
  by (auto simp: Slice_compare_def Let_def)

lemma Slice_compare_refl [simp]: "Slice_compare a a = 0"
  by (induction a) auto

lemma Slice_compare_eq_0 [simp]: "Slice_compare a b = 0 \<longleftrightarrow> a = b"
proof (induction a arbitrary: b)
  case (Cons x a)
  then show ?case by (cases b) auto
qed (case_tac b; simp)

lemma Slice_compare_swap: "Slice_compare b a = - Slice_compare a b"
proof (induction a arbitrary: b)
  case (Cons x a)
  then show ?case by (cases b) auto
qed (case_tac b; simp)

lemma Slice_compare_trans:
  "Slice_compare a b \<le> 0 \<Longrightarrow> Slice_compare b c \<le> 0 \<Longrightarrow> Slice_compare a c \<le> 0"
proof (induction a arbitrary: b c)
  case Nil
  then show ?case by (cases c) auto
next
  case (Cons x a)
  then obtain y b' z c' where "b = y # b'" "c = z # c'"
    by (cases b; cases c) auto
  with Cons show ?case by (auto split: if_splits)
qed

lemma Slice_compare_prefix [simp]: "Slice_compare (p @ a) (p @ b) = Slice_compare a b"
  by (induction p) auto

lemma memcmp_eq_0: "memcmp a b n = 0 \<longleftrightarrow> take n a = take n b \<or> \<not> (n \<le> length a \<and> n \<le> length b) \<and>
    take (min (length a) (length b)) (take n a) = take (min (length a) (length b)) (take n b)"
  by (induction a b n rule: memcmp.induct) auto

lemma Slice_eq_iff [simp]: "Slice_eq x y \<longleftrightarrow> x = y"
  by (auto simp: Slice_eq_def memcmp_eq_0)

lemma starts_with_iff: "starts_with s x \<longleftrightarrow> (\<exists>rest. s = x @ rest)"
  by (auto simp: starts_with_def memcmp_eq_0) (metis append_take_drop_id)

lemma ok_simps [simp]:
  "ok OK" "\<not> ok (Error c m)" "\<not> ok (Status_new c m m2)" "\<not> ok (Corruption m m2)"
  "\<not> ok (NotFound m m2)" "\<not> ok (InvalidArgument m m2)" "\<not> ok (IOError m m2)"
  by (simp_all add: ok_def Status_new_def Corruption_def NotFound_def InvalidArgument_def IOError_def)

lemma ok_iff: "ok s \<longleftrightarrow> s = OK"
  by (cases s) auto

end
