(* ===== verification/Env.thy ===== *)
theory Env
  imports Slice
begin

text \<open>
  The file classes of \<open>include/leveldb/env.h\<close>.  Each is a record of its virtual functions over
  the state of an open file, and a locale with the behaviour its documentation promises while no
  error occurs.  Positions and sizes are natural numbers.
\<close>

section \<open>Definitions\<close>

record 'f SequentialFile =
  SF_Read :: "'f \<Rightarrow> nat \<Rightarrow> Status \<times> slice \<times> 'f"
  SF_Skip :: "'f \<Rightarrow> nat \<Rightarrow> Status \<times> 'f"

record 'r RandomAccessFile =
  RA_Read :: "'r \<Rightarrow> nat \<Rightarrow> nat \<Rightarrow> Status \<times> slice"

record 'w WritableFile =
  WF_Append :: "'w \<Rightarrow> slice \<Rightarrow> Status \<times> 'w"
  WF_Close :: "'w \<Rightarrow> Status \<times> 'w"
  WF_Flush :: "'w \<Rightarrow> Status \<times> 'w"
  WF_Sync :: "'w \<Rightarrow> Status \<times> 'w"

section \<open>Contracts\<close>

text \<open>\<open>left f\<close> is what remains to be read.\<close>

locale sequential_file =
  fixes F :: "'f SequentialFile" and left :: "'f \<Rightarrow> slice" and good :: "'f \<Rightarrow> bool"
  assumes read: "good f \<Longrightarrow> \<exists>f'. SF_Read F f n = (OK, take n (left f), f') \<and>
                   left f' = drop n (left f) \<and> good f'"
    and skip: "good f \<Longrightarrow> \<exists>f'. SF_Skip F f n = (OK, f') \<and> left f' = drop n (left f) \<and> good f'"
begin

lemma read_obtain:
  assumes "good f"
  obtains f' where "SF_Read F f n = (OK, take n (left f), f')" "left f' = drop n (left f)" "good f'"
  using read [OF assms] by blast

end

locale random_access_file =
  fixes R :: "'r RandomAccessFile" and contents :: "'r \<Rightarrow> slice" and good :: "'r \<Rightarrow> bool"
  assumes read_at: "good r \<Longrightarrow> offset \<le> length (contents r) \<Longrightarrow>
                      RA_Read R r offset n = (OK, take n (drop offset (contents r)))"

locale writable_file =
  fixes W :: "'w WritableFile" and contents :: "'w \<Rightarrow> slice" and good :: "'w \<Rightarrow> bool"
  assumes append: "good w \<Longrightarrow>
      \<exists>w'. WF_Append W w d = (OK, w') \<and> contents w' = contents w @ d \<and> good w'"
    and flush: "good w \<Longrightarrow> \<exists>w'. WF_Flush W w = (OK, w') \<and> contents w' = contents w \<and> good w'"
    and sync: "good w \<Longrightarrow> \<exists>w'. WF_Sync W w = (OK, w') \<and> contents w' = contents w \<and> good w'"
    and close: "good w \<Longrightarrow> \<exists>w'. WF_Close W w = (OK, w') \<and> contents w' = contents w"
begin

lemma append_obtain:
  assumes "good w"
  obtains w' where "WF_Append W w d = (OK, w')" "contents w' = contents w @ d" "good w'"
  using append [OF assms] by blast

lemma flush_obtain:
  assumes "good w"
  obtains w' where "WF_Flush W w = (OK, w')" "contents w' = contents w" "good w'"
  using flush [OF assms] by blast

end

end
