(* ===== verification/Logging.thy ===== *)
theory Logging
  imports LDB_Prelude
begin

text \<open>
  \<open>util/logging.cc\<close>: decimal numbers and escaped strings, as they appear in file names and
  diagnostics.
\<close>

section \<open>Definitions\<close>

text \<open>The conversions \<open>%llu\<close> and \<open>%u\<close> of \<open>snprintf\<close>.\<close>

fun decimal :: "nat \<Rightarrow> slice" where
  "decimal n = (if n < 10 then [of_nat (48 + n)] else decimal (n div 10) @ [of_nat (48 + n mod 10)])"

definition hex_digit :: "nat \<Rightarrow> byte" where
  "hex_digit n = of_nat (if n < 10 then 48 + n else 87 + n)"

definition AppendNumberTo :: "slice \<Rightarrow> u64 \<Rightarrow> slice" where
  "AppendNumberTo str num = str @ decimal (unat num)"

primrec AppendEscapedStringTo :: "slice \<Rightarrow> slice \<Rightarrow> slice" where
  "AppendEscapedStringTo str [] = str"
| "AppendEscapedStringTo str (c # value) =
     (if 32 \<le> c \<and> c \<le> 126 then AppendEscapedStringTo (str @ [c]) value
      else AppendEscapedStringTo
             (str @ [92, 120, hex_digit (unat c div 16), hex_digit (unat c mod 16)]) value)"

definition NumberToString :: "u64 \<Rightarrow> slice" where
  "NumberToString num = AppendNumberTo [] num"

definition EscapeString :: "slice \<Rightarrow> slice" where
  "EscapeString value = AppendEscapedStringTo [] value"

definition kMaxUint64 :: u64 where
  "kMaxUint64 = - 1"

text \<open>
  The loop, on the bytes from \<open>current\<close> on; \<^const>\<open>None\<close> is the early return on overflow.
\<close>

fun ConsumeDecimalNumber_loop :: "slice \<Rightarrow> u64 \<Rightarrow> (u64 \<times> slice) option" where
  "ConsumeDecimalNumber_loop [] value = Some (value, [])"
| "ConsumeDecimalNumber_loop (ch # rest) value =
     (if ch < 48 \<or> ch > 57 then Some (value, ch # rest)
      else if value > kMaxUint64 div 10 \<or>
              (value = kMaxUint64 div 10 \<and> ch > 48 + ucast (kMaxUint64 mod 10)) then None
      else ConsumeDecimalNumber_loop rest (value * 10 + (ucast ch - 48)))"

definition ConsumeDecimalNumber :: "slice \<Rightarrow> (u64 \<times> slice) option" where
  "ConsumeDecimalNumber s =
     (case ConsumeDecimalNumber_loop s 0 of
        None \<Rightarrow> None
      | Some (val, current) \<Rightarrow>
          (let digits_consumed = length s - length current
           in if digits_consumed \<noteq> 0 then Some (val, current) else None))"

declare decimal.simps [simp del]

section \<open>Decimal numbers\<close>

definition is_digit :: "byte \<Rightarrow> bool" where
  "is_digit ch \<longleftrightarrow> 48 \<le> ch \<and> ch \<le> 57"

definition digits_value :: "nat \<Rightarrow> slice \<Rightarrow> nat" where
  "digits_value = foldl (\<lambda>v ch. v * 10 + (unat ch - 48))"

lemma digits_value_simps [simp]:
  "digits_value v [] = v"
  "digits_value v (ch # s) = digits_value (v * 10 + (unat ch - 48)) s"
  "digits_value v (s @ t) = digits_value (digits_value v s) t"
  by (simp_all add: digits_value_def)

lemma digits_value_ge: "v \<le> digits_value v s"
proof (induction s arbitrary: v)
  case (Cons ch s)
  have "v \<le> v * 10 + (unat ch - 48)" by simp
  also have "\<dots> \<le> digits_value (v * 10 + (unat ch - 48)) s" by (rule Cons.IH)
  finally show ?case by simp
qed simp

lemma unat_digit: "n < 10 \<Longrightarrow> unat (of_nat (48 + n) :: byte) = 48 + n"
  by (rule of_nat_unat_small) simp

lemma is_digit_nat: "is_digit ch \<longleftrightarrow> 48 \<le> unat ch \<and> unat ch \<le> 57"
  by (simp add: is_digit_def word_le_nat_alt)

lemma decimal_digits: "set (decimal n) \<subseteq> Collect is_digit"
proof (induction n rule: decimal.induct)
  case (1 n)
  have d: "is_digit (of_nat (48 + m))" if "m < 10" for m
    using that unat_digit [OF that] unfolding is_digit_nat by linarith
  show ?case
  proof (cases "n < 10")
    case False
    then show ?thesis using 1 d [of "n mod 10"] by (subst decimal.simps) auto
  qed (use d [of n] in \<open>simp add: decimal.simps [of n]\<close>)
qed

lemma digits_value_decimal: "digits_value 0 (decimal n) = n"
proof (induction n rule: decimal.induct)
  case (1 n)
  show ?case
  proof (cases "n < 10")
    case False
    then show ?thesis using 1 unat_digit [of "n mod 10"] by (subst decimal.simps) simp
  qed (use unat_digit [of n] in \<open>simp add: decimal.simps [of n]\<close>)
qed

lemma decimal_nonempty [simp]: "decimal n \<noteq> []"
  by (subst decimal.simps) simp

lemma unat_kMaxUint64: "unat kMaxUint64 = 2 ^ 64 - 1"
  by (simp add: kMaxUint64_def unsigned_minus_1_eq_mask mask_eq_exp_minus_1)

lemma ConsumeDecimalNumber_loop_step:
  assumes "is_digit ch"
  shows "ConsumeDecimalNumber_loop (ch # rest) v =
    (if unat v * 10 + (unat ch - 48) < 2 ^ 64
     then ConsumeDecimalNumber_loop rest (of_nat (unat v * 10 + (unat ch - 48))) else None)"
proof -
  have max: "unat (kMaxUint64 div 10) = 1844674407370955161"
    by (simp add: unat_div unat_kMaxUint64)
  have last: "unat (48 + ucast (kMaxUint64 mod 10) :: byte) = 53"
    by (simp add: kMaxUint64_def)
  from assms have ch: "48 \<le> unat ch" "unat ch \<le> 57" by (simp_all add: is_digit_nat)
  have in_range: "\<not> (ch < 48 \<or> ch > 57)" using ch by (auto simp: word_less_nat_alt)
  have "(v > kMaxUint64 div 10 \<or>
      (v = kMaxUint64 div 10 \<and> ch > 48 + ucast (kMaxUint64 mod 10)))
    \<longleftrightarrow> (unat v > 1844674407370955161 \<or> (unat v = 1844674407370955161 \<and> unat ch > 53))"
    unfolding word_less_nat_alt word_unat_eq_iff max last ..
  also have "\<dots> \<longleftrightarrow> \<not> unat v * 10 + (unat ch - 48) < 2 ^ 64"
    using ch by (auto simp: not_less)
  finally have over: "(v > kMaxUint64 div 10 \<or>
      (v = kMaxUint64 div 10 \<and> ch > 48 + ucast (kMaxUint64 mod 10)))
    \<longleftrightarrow> \<not> unat v * 10 + (unat ch - 48) < 2 ^ 64" .
  have "v * 10 + (ucast ch - 48) = of_nat (unat v * 10 + (unat ch - 48))"
    using ch by (simp add: of_nat_diff unsigned_of_nat)
  with in_range over show ?thesis by (simp only: ConsumeDecimalNumber_loop.simps if_False) auto
qed

lemma ConsumeDecimalNumber_loop_eq:
  "ConsumeDecimalNumber_loop s v =
    (let n = digits_value (unat v) (takeWhile is_digit s)
     in if n < 2 ^ 64 then Some (of_nat n, dropWhile is_digit s) else None)"
proof (induction s arbitrary: v)
  case Nil
  then show ?case using unsigned_less [of v, where ?'a = nat] by (simp add: Let_def)
next
  case (Cons ch s)
  show ?case
  proof (cases "is_digit ch")
    case True
    let ?n = "unat v * 10 + (unat ch - 48)"
    show ?thesis
    proof (cases "?n < 2 ^ 64")
      case lt: True
      then show ?thesis
        using True Cons.IH [of "of_nat ?n"] unat_u64_of_nat [OF lt]
        by (simp only: ConsumeDecimalNumber_loop_step takeWhile.simps dropWhile.simps if_True
            digits_value_simps Let_def)
    next
      case False
      then have "\<not> digits_value ?n (takeWhile is_digit s) < 2 ^ 64"
        using digits_value_ge [of ?n "takeWhile is_digit s"] by linarith
      with True False show ?thesis
        by (simp only: ConsumeDecimalNumber_loop_step takeWhile.simps dropWhile.simps if_True if_False
            digits_value_simps Let_def)
    qed
  next
    case False
    then have "ch < 48 \<or> ch > 57" by (auto simp: is_digit_def)
    with False show ?thesis using unsigned_less [of v, where ?'a = nat] by (simp add: Let_def)
  qed
qed

lemma ConsumeDecimalNumber_eq:
  "ConsumeDecimalNumber s =
    (let ds = takeWhile is_digit s
     in if ds \<noteq> [] \<and> digits_value 0 ds < 2 ^ 64
        then Some (of_nat (digits_value 0 ds), dropWhile is_digit s) else None)"
proof -
  have "length s = length (takeWhile is_digit s) + length (dropWhile is_digit s)"
    by (metis length_append takeWhile_dropWhile_id)
  then show ?thesis
    by (auto simp: ConsumeDecimalNumber_def ConsumeDecimalNumber_loop_eq Let_def)
qed

lemma ConsumeDecimalNumber_decimal:
  assumes "rest = [] \<or> \<not> is_digit (hd rest)"
  shows "ConsumeDecimalNumber (decimal (unat v) @ rest) = Some (v, rest)"
proof -
  have all: "\<And>x. x \<in> set (decimal (unat v)) \<Longrightarrow> is_digit x" using decimal_digits by auto
  have "takeWhile is_digit rest = []" "dropWhile is_digit rest = rest"
    using assms by (cases rest; simp)+
  then have "takeWhile is_digit (decimal (unat v) @ rest) = decimal (unat v)"
    "dropWhile is_digit (decimal (unat v) @ rest) = rest"
    using all by (simp_all add: takeWhile_append dropWhile_append)
  then show ?thesis
    using unsigned_less [of v, where ?'a = nat]
    by (simp add: ConsumeDecimalNumber_eq Let_def digits_value_decimal)
qed

section \<open>Properties\<close>

text \<open>
  \<open>ConsumeDecimalNumber\<close> reads the longest prefix of decimal digits; it succeeds exactly
  when that prefix is not empty and its value fits in 64 bits, and then returns the value and
  what follows the digits.  In particular its overflow check is neither too strict nor too lax.
\<close>

theorem consume_decimal_number_spec:
  "ConsumeDecimalNumber s =
    (if takeWhile is_digit s \<noteq> [] \<and> digits_value 0 (takeWhile is_digit s) < 2 ^ 64
     then Some (of_nat (digits_value 0 (takeWhile is_digit s)), dropWhile is_digit s) else None)"
  using ConsumeDecimalNumber_eq [of s] by (simp add: Let_def)

end
