(* ===== verification/MemEnv.thy ===== *)
theory MemEnv
  imports Env
begin

text \<open>
  \<open>helpers/memenv/memenv.cc\<close>: files kept in memory as vectors of 8 KB blocks, reference counted
  and reached through a map of names.  The heap of \<open>FileState\<close> objects is explicit because open
  files share them with the map.
\<close>

section \<open>Definitions\<close>

definition kFileBlock :: nat where
  "kFileBlock = 8 * 1024"

record FileState =
  fs_refs :: int
  fs_blocks :: "slice list"
  fs_size :: nat

definition FileState_new :: FileState where
  "FileState_new = \<lparr> fs_refs = 0, fs_blocks = [], fs_size = 0 \<rparr>"

definition FileState_Truncate :: "FileState \<Rightarrow> FileState" where
  "FileState_Truncate s = s\<lparr> fs_blocks := [], fs_size := 0 \<rparr>"

text \<open>The copying loop of \<open>Read\<close>: what it leaves in \<open>scratch\<close>.\<close>

function FileState_copy :: "slice list \<Rightarrow> nat \<Rightarrow> nat \<Rightarrow> nat \<Rightarrow> slice" where
  "FileState_copy blocks block block_offset bytes_to_copy =
     (if bytes_to_copy > 0 then
        (let avail = kFileBlock - block_offset;
             avail = (if avail > bytes_to_copy then bytes_to_copy else avail)
         in take avail (drop block_offset (blocks ! block)) @
            FileState_copy blocks (block + 1) 0 (bytes_to_copy - avail))
      else [])"
  by pat_completeness auto
termination
  by (relation "measure (\<lambda>(blocks, block, block_offset, bytes).
        2 * bytes + (if block_offset \<ge> kFileBlock then 1 else 0))")
     (auto simp: kFileBlock_def)

definition FileState_Read :: "FileState \<Rightarrow> nat \<Rightarrow> nat \<Rightarrow> Status \<times> slice" where
  "FileState_Read s offset n =
     (if offset > fs_size s then (IOError (ascii ''Offset greater than file size.'') [], [])
      else (let available = fs_size s - offset;
                n = (if n > available then available else n)
            in if n = 0 then (OK, [])
               else (OK, FileState_copy (fs_blocks s) (offset div kFileBlock) (offset mod kFileBlock) n)))"

text \<open>A new block's bytes are indeterminate until written; zero here.\<close>

function FileState_append_loop :: "FileState \<Rightarrow> slice \<Rightarrow> FileState" where
  "FileState_append_loop s src =
     (if length src > 0 then
        (let offset = fs_size s mod kFileBlock;
             blocks = (if offset \<noteq> 0 then fs_blocks s else fs_blocks s @ [replicate kFileBlock 0]);
             avail = (if offset \<noteq> 0 then kFileBlock - offset else kFileBlock);
             avail = (if avail > length src then length src else avail);
             b = last blocks;
             blocks = butlast blocks @ [take offset b @ take avail src @ drop (offset + avail) b]
         in FileState_append_loop (s\<lparr> fs_blocks := blocks, fs_size := fs_size s + avail \<rparr>) (drop avail src))
      else s)"
  by pat_completeness auto
termination
  by (relation "measure (\<lambda>(s, src). length src)") (auto simp: Let_def kFileBlock_def)

definition FileState_Append :: "FileState \<Rightarrow> slice \<Rightarrow> Status \<times> FileState" where
  "FileState_Append s data = (OK, FileState_append_loop s data)"

text \<open>An open sequential file: the \<open>FileState\<close> its pointer reaches and the position.\<close>

record SequentialFileImpl =
  sf_file :: FileState
  sf_pos :: nat

definition SequentialFileImpl_Read ::
    "SequentialFileImpl \<Rightarrow> nat \<Rightarrow> Status \<times> slice \<times> SequentialFileImpl" where
  "SequentialFileImpl_Read f n =
     (case FileState_Read (sf_file f) (sf_pos f) n of
        (s, result) \<Rightarrow>
          (s, result, if ok s then f\<lparr> sf_pos := sf_pos f + length result \<rparr> else f))"

definition SequentialFileImpl_Skip ::
    "SequentialFileImpl \<Rightarrow> nat \<Rightarrow> Status \<times> SequentialFileImpl" where
  "SequentialFileImpl_Skip f n =
     (if sf_pos f > fs_size (sf_file f) then (IOError (ascii ''pos_ > file_->Size()'') [], f)
      else (let available = fs_size (sf_file f) - sf_pos f;
                n = (if n > available then available else n)
            in (OK, f\<lparr> sf_pos := sf_pos f + n \<rparr>)))"

definition MemSequentialFile :: "SequentialFileImpl SequentialFile" where
  "MemSequentialFile = \<lparr> SF_Read = SequentialFileImpl_Read, SF_Skip = SequentialFileImpl_Skip \<rparr>"

definition MemRandomAccessFile :: "FileState RandomAccessFile" where
  "MemRandomAccessFile = \<lparr> RA_Read = FileState_Read \<rparr>"

definition MemWritableFile :: "FileState WritableFile" where
  "MemWritableFile =
     \<lparr> WF_Append = FileState_Append, WF_Close = (\<lambda>s. (OK, s)), WF_Flush = (\<lambda>s. (OK, s)),
       WF_Sync = (\<lambda>s. (OK, s)) \<rparr>"

text \<open>
  The environment: the heap of file states and \<open>file_map\<close>, whose \<open>operator[]\<close> inserts a null
  pointer (\<^term>\<open>Some None\<close>) for a missing name.
\<close>

record InMemoryEnv =
  heap :: "nat \<Rightarrow> FileState option"
  fresh :: nat
  file_map :: "slice \<Rightarrow> nat option option"

definition mem_Ref :: "nat \<Rightarrow> InMemoryEnv \<Rightarrow> InMemoryEnv" where
  "mem_Ref p e =
     (case heap e p of
        Some s \<Rightarrow> e\<lparr> heap := (heap e)(p := Some (s\<lparr> fs_refs := fs_refs s + 1 \<rparr>)) \<rparr>
      | None \<Rightarrow> e)"

definition mem_Unref :: "nat \<Rightarrow> InMemoryEnv \<Rightarrow> InMemoryEnv" where
  "mem_Unref p e =
     (case heap e p of
        Some s \<Rightarrow>
          (if fs_refs s - 1 \<le> 0 then e\<lparr> heap := (heap e)(p := None) \<rparr>
           else e\<lparr> heap := (heap e)(p := Some (s\<lparr> fs_refs := fs_refs s - 1 \<rparr>)) \<rparr>)
      | None \<Rightarrow> e)"

definition mem_new :: "InMemoryEnv \<Rightarrow> nat \<times> InMemoryEnv" where
  "mem_new e = (fresh e, e\<lparr> heap := (heap e)(fresh e := Some FileState_new), fresh := fresh e + 1 \<rparr>)"

text \<open>
  Opening a file returns the pointer the new file object holds; \<^term>\<open>Inl\<close> is the error status.
  A null entry of the map is dereferenced by the C++ code, which \<^term>\<open>None\<close> stands for.
\<close>

definition NewReadFile :: "slice \<Rightarrow> InMemoryEnv \<Rightarrow> (Status + nat \<times> InMemoryEnv) option" where
  "NewReadFile fname e =
     (case file_map e fname of
        None \<Rightarrow> Some (Inl (IOError fname (ascii ''File not found'')))
      | Some None \<Rightarrow> None
      | Some (Some p) \<Rightarrow> Some (Inr (p, mem_Ref p e)))"

definition NewSequentialFile where "NewSequentialFile = NewReadFile"
definition NewRandomAccessFile where "NewRandomAccessFile = NewReadFile"

definition NewWritableFile :: "slice \<Rightarrow> InMemoryEnv \<Rightarrow> (nat \<times> InMemoryEnv) option" where
  "NewWritableFile fname e =
     (case file_map e fname of
        None \<Rightarrow>
          (let (p, e1) = mem_new e;
               e2 = mem_Ref p e1;
               e3 = e2\<lparr> file_map := (file_map e2)(fname := Some (Some p)) \<rparr>
           in Some (p, mem_Ref p e3))
      | Some None \<Rightarrow> None
      | Some (Some p) \<Rightarrow>
          Some (p, mem_Ref p (e\<lparr> heap := (heap e)(p := map_option FileState_Truncate (heap e p)) \<rparr>)))"

text \<open>The pointer to a newly allocated state is not stored back through \<open>sptr\<close>.\<close>

definition NewAppendableFile :: "slice \<Rightarrow> InMemoryEnv \<Rightarrow> nat \<times> InMemoryEnv" where
  "NewAppendableFile fname e =
     (let sptr = (case file_map e fname of Some q \<Rightarrow> q | None \<Rightarrow> None);
          e = e\<lparr> file_map := (file_map e)(fname := Some sptr) \<rparr>
      in case sptr of
           None \<Rightarrow> (let (p, e1) = mem_new e; e2 = mem_Ref p e1 in (p, mem_Ref p e2))
         | Some p \<Rightarrow> (p, mem_Ref p e))"

definition FileExists :: "slice \<Rightarrow> InMemoryEnv \<Rightarrow> bool" where
  "FileExists fname e = (file_map e fname \<noteq> None)"

definition RemoveFileInternal :: "slice \<Rightarrow> InMemoryEnv \<Rightarrow> InMemoryEnv option" where
  "RemoveFileInternal fname e =
     (case file_map e fname of
        None \<Rightarrow> Some e
      | Some None \<Rightarrow> None
      | Some (Some p) \<Rightarrow>
          (let e1 = mem_Unref p e in Some (e1\<lparr> file_map := (file_map e1)(fname := None) \<rparr>)))"

definition RemoveFile :: "slice \<Rightarrow> InMemoryEnv \<Rightarrow> (Status \<times> InMemoryEnv) option" where
  "RemoveFile fname e =
     (if file_map e fname = None then Some (IOError fname (ascii ''File not found''), e)
      else map_option (\<lambda>e1. (OK, e1)) (RemoveFileInternal fname e))"

definition GetFileSize :: "slice \<Rightarrow> InMemoryEnv \<Rightarrow> (Status \<times> nat) option" where
  "GetFileSize fname e =
     (case file_map e fname of
        None \<Rightarrow> Some (IOError fname (ascii ''File not found''), 0)
      | Some None \<Rightarrow> None
      | Some (Some p) \<Rightarrow> map_option (\<lambda>s. (OK, fs_size s)) (heap e p))"

definition RenameFile :: "slice \<Rightarrow> slice \<Rightarrow> InMemoryEnv \<Rightarrow> (Status \<times> InMemoryEnv) option" where
  "RenameFile src target e =
     (if file_map e src = None then Some (IOError src (ascii ''File not found''), e)
      else case RemoveFileInternal target e of
        None \<Rightarrow> None
      | Some e1 \<Rightarrow>
          (let from = (case file_map e1 src of Some q \<Rightarrow> q | None \<Rightarrow> None);
               e2 = e1\<lparr> file_map := (file_map e1)(target := Some from) \<rparr>
           in Some (OK, e2\<lparr> file_map := (file_map e2)(src := None) \<rparr>)))"

declare FileState_copy.simps [simp del] FileState_append_loop.simps [simp del]

section \<open>A vector of blocks holds a sequence of bytes\<close>

definition fs_inv :: "FileState \<Rightarrow> bool" where
  "fs_inv s \<longleftrightarrow> (\<forall>b \<in> set (fs_blocks s). length b = kFileBlock) \<and>
     length (fs_blocks s) = (fs_size s + kFileBlock - 1) div kFileBlock"

definition fs_bytes :: "FileState \<Rightarrow> slice" where
  "fs_bytes s = take (fs_size s) (concat (fs_blocks s))"

lemma kFileBlock_pos [simp]: "0 < kFileBlock" "kFileBlock \<noteq> 0"
  by (simp_all add: kFileBlock_def)

lemma length_concat_blocks:
  "\<forall>b \<in> set bs. length b = K \<Longrightarrow> length (concat bs) = length bs * K"
  by (induction bs) auto

lemma drop_concat_blocks:
  "\<forall>b \<in> set bs. length b = K \<Longrightarrow> i \<le> length bs \<Longrightarrow> drop (i * K) (concat bs) = concat (drop i bs)"
proof (induction bs arbitrary: i)
  case (Cons b bs)
  then show ?case by (cases i) auto
qed simp

lemma fs_size_le: "fs_inv s \<Longrightarrow> fs_size s \<le> length (concat (fs_blocks s))"
proof -
  assume inv: "fs_inv s"
  have "fs_size s \<le> (fs_size s + kFileBlock - 1) div kFileBlock * kFileBlock"
    by (simp add: kFileBlock_def)
  with inv show ?thesis by (simp add: fs_inv_def length_concat_blocks [where K = kFileBlock])
qed

lemma length_fs_bytes [simp]: "fs_inv s \<Longrightarrow> length (fs_bytes s) = fs_size s"
  using fs_size_le [of s] by (simp add: fs_bytes_def)

lemma FileState_copy_eq:
  assumes "\<forall>b \<in> set blocks. length b = kFileBlock" "off < kFileBlock"
    and "block * kFileBlock + off + n \<le> length blocks * kFileBlock"
  shows "FileState_copy blocks block off n = take n (drop (block * kFileBlock + off) (concat blocks))"
  using assms
proof (induction blocks block off n rule: FileState_copy.induct)
  case (1 blocks block off n)
  show ?case
  proof (cases "n > 0")
    case True
    with "1.prems"(3) have "block * kFileBlock < length blocks * kFileBlock" by linarith
    then have lt: "block < length blocks" by simp
    then have split: "concat (drop block blocks) = blocks ! block @ concat (drop (Suc block) blocks)"
      by (simp add: Cons_nth_drop_Suc [symmetric])
    have len: "length (blocks ! block) = kFileBlock" using "1.prems"(1) lt by simp
    have "drop (block * kFileBlock + off) (concat blocks) = drop off (drop (block * kFileBlock) (concat blocks))"
      by (simp add: add.commute)
    also have "\<dots> = drop off (blocks ! block) @ concat (drop (Suc block) blocks)"
      using drop_concat_blocks [OF "1.prems"(1), of block] lt split len "1.prems"(2) by simp
    finally have eq: "drop (block * kFileBlock + off) (concat blocks) =
        drop off (blocks ! block) @ concat (drop (Suc block) blocks)" .
    show ?thesis
    proof (cases "kFileBlock - off > n")
      case less: True
      then show ?thesis
        using True eq len by (simp add: FileState_copy.simps [of blocks block off n]
            FileState_copy.simps [of blocks "Suc block" 0 0] Let_def)
    next
      case False
      have "FileState_copy blocks (block + 1) 0 (n - (kFileBlock - off)) =
          take (n - (kFileBlock - off)) (drop ((block + 1) * kFileBlock + 0) (concat blocks))"
      proof (rule "1.IH" [OF True refl refl, unfolded if_not_P [OF False]])
        show "0 < kFileBlock" by simp
        show "(block + 1) * kFileBlock + 0 + (n - (kFileBlock - off)) \<le> length blocks * kFileBlock"
          using False "1.prems" by simp
      qed (use "1.prems" in simp)
      also have "\<dots> = take (n - (kFileBlock - off)) (concat (drop (Suc block) blocks))"
        using drop_concat_blocks [OF "1.prems"(1), of "Suc block"] lt by simp
      finally show ?thesis
        using True False eq len "1.prems"(2)
        by (simp add: FileState_copy.simps [of blocks block off n] Let_def)
    qed
  qed (simp add: FileState_copy.simps [of blocks block off 0])
qed

lemma FileState_Read_eq:
  assumes "fs_inv s" "offset \<le> fs_size s"
  shows "FileState_Read s offset n = (OK, take n (drop offset (fs_bytes s)))"
proof -
  define m where "m = (if n > fs_size s - offset then fs_size s - offset else n)"
  have m: "offset + m \<le> fs_size s" "take n (drop offset (fs_bytes s)) = take m (drop offset (fs_bytes s))"
    using assms by (auto simp: m_def)
  have le: "fs_size s \<le> length (fs_blocks s) * kFileBlock"
    using assms(1) fs_size_le [OF assms(1)] by (simp add: fs_inv_def length_concat_blocks [where K = kFileBlock])
  have off: "offset div kFileBlock * kFileBlock + offset mod kFileBlock = offset" by simp
  have "FileState_copy (fs_blocks s) (offset div kFileBlock) (offset mod kFileBlock) m =
      take m (drop offset (concat (fs_blocks s)))"
    using FileState_copy_eq [of "fs_blocks s" "offset mod kFileBlock" "offset div kFileBlock" m]
      assms m le off by (simp add: fs_inv_def)
  also have "\<dots> = take m (drop offset (fs_bytes s))"
    using m(1) by (simp add: fs_bytes_def drop_take)
  finally show ?thesis
    using assms(2) m(2) by (auto simp: FileState_Read_def Let_def m_def)
qed

lemma append_step:
  assumes inv: "fs_inv s" and src: "src \<noteq> []"
  defines "offset \<equiv> fs_size s mod kFileBlock"
  defines "blocks \<equiv> (if offset \<noteq> 0 then fs_blocks s else fs_blocks s @ [replicate kFileBlock 0])"
  defines "avail \<equiv> min (kFileBlock - offset) (length src)"
  defines "b \<equiv> last blocks"
  defines "s' \<equiv> s\<lparr> fs_blocks := butlast blocks @ [take offset b @ take avail src @ drop (offset + avail) b],
                 fs_size := fs_size s + avail \<rparr>"
  shows "fs_inv s' \<and> fs_bytes s' = fs_bytes s @ take avail src"
proof -
  define q where "q = fs_size s div kFileBlock"
  have sz: "fs_size s = q * kFileBlock + offset" by (simp add: q_def offset_def)
  have off: "offset < kFileBlock" by (simp add: offset_def)
  have nb: "length blocks = Suc q"
  proof (cases "offset = 0")
    case True
    then have "(fs_size s + kFileBlock - 1) div kFileBlock = q" using sz by (simp add: kFileBlock_def)
    with True inv show ?thesis by (simp add: blocks_def fs_inv_def)
  next
    case False
    then have "fs_size s + kFileBlock - 1 = Suc q * kFileBlock + (offset - 1)" using sz by simp
    then have "(fs_size s + kFileBlock - 1) div kFileBlock = Suc q" using off
      by (simp only: div_mult_self3 div_less)
    with False inv show ?thesis by (simp add: blocks_def fs_inv_def)
  qed
  have all: "\<forall>x \<in> set blocks. length x = kFileBlock" using inv by (auto simp: blocks_def fs_inv_def)
  obtain pre where pre: "blocks = pre @ [b]" using nb by (metis append_butlast_last_id b_def length_0_conv nat.distinct(1))
  have len: "length pre = q" "length b = kFileBlock" using nb pre all by auto
  have lp: "length (concat pre) = q * kFileBlock"
    using all pre len length_concat_blocks [of pre kFileBlock] by simp
  have old: "fs_bytes s = concat pre @ take offset b"
  proof -
    have "fs_blocks s = (if offset = 0 then pre else pre @ [b])"
      using pre by (auto simp: blocks_def split: if_splits)
    then show ?thesis using sz lp len by (simp add: fs_bytes_def)
  qed
  have av: "0 < avail" "offset + avail \<le> kFileBlock" "avail \<le> length src"
    using src off by (auto simp: avail_def)
  have "fs_bytes s' = fs_bytes s @ take avail src"
    using pre old sz lp len av off by (simp add: s'_def fs_bytes_def)
  moreover have "fs_inv s'"
  proof -
    have "fs_size s' + kFileBlock - 1 = Suc q * kFileBlock + (offset + avail - 1)"
      using sz av by (simp add: s'_def)
    then have "(fs_size s' + kFileBlock - 1) div kFileBlock = Suc q"
      using av by (simp only: div_mult_self3 div_less)
    then show ?thesis using pre all len av by (simp add: s'_def fs_inv_def)
  qed
  ultimately show ?thesis by simp
qed

lemma FileState_append_loop_eq:
  "fs_inv s \<Longrightarrow> fs_inv (FileState_append_loop s src) \<and>
                fs_bytes (FileState_append_loop s src) = fs_bytes s @ src"
proof (induction s src rule: FileState_append_loop.induct)
  case (1 s src)
  show ?case
  proof (cases "src = []")
    case False
    define offset where "offset = fs_size s mod kFileBlock"
    define blocks where
      "blocks = (if offset \<noteq> 0 then fs_blocks s else fs_blocks s @ [replicate kFileBlock 0])"
    define avail where "avail = min (kFileBlock - offset) (length src)"
    define s' where "s' = s\<lparr> fs_blocks := butlast blocks @
        [take offset (last blocks) @ take avail src @ drop (offset + avail) (last blocks)],
        fs_size := fs_size s + avail \<rparr>"
    have av: "(if (if offset \<noteq> 0 then kFileBlock - offset else kFileBlock) > length src then length src
         else (if offset \<noteq> 0 then kFileBlock - offset else kFileBlock)) = avail"
      by (auto simp: min_def avail_def)
    have step: "FileState_append_loop s src = FileState_append_loop s' (drop avail src)"
      unfolding FileState_append_loop.simps [of s src] Let_def offset_def [symmetric] blocks_def [symmetric]
        av s'_def using False by simp
    have inv: "fs_inv s' \<and> fs_bytes s' = fs_bytes s @ take avail src"
      using append_step [OF "1.prems" False]
      unfolding offset_def [symmetric] blocks_def [symmetric] avail_def [symmetric] s'_def .
    have "fs_inv (FileState_append_loop s' (drop avail src)) \<and>
        fs_bytes (FileState_append_loop s' (drop avail src)) = fs_bytes s' @ drop avail src"
      using "1.IH" [OF _ refl refl refl refl refl refl, unfolded offset_def [symmetric],
          unfolded blocks_def [symmetric] av, folded s'_def] False inv by blast
    with inv step show ?thesis by simp
  qed (use "1.prems" in \<open>simp add: FileState_append_loop.simps [of s "[]"]\<close>)
qed

lemma fs_inv_new: "fs_inv FileState_new" "fs_bytes FileState_new = []"
  by (simp_all add: fs_inv_def fs_bytes_def FileState_new_def kFileBlock_def)

lemma fs_inv_truncate: "fs_inv (FileState_Truncate s)" "fs_bytes (FileState_Truncate s) = []"
  by (simp_all add: fs_inv_def fs_bytes_def FileState_Truncate_def kFileBlock_def)

definition sfi_left :: "SequentialFileImpl \<Rightarrow> slice" where
  "sfi_left f = drop (sf_pos f) (fs_bytes (sf_file f))"

definition sfi_good :: "SequentialFileImpl \<Rightarrow> bool" where
  "sfi_good f \<longleftrightarrow> fs_inv (sf_file f) \<and> sf_pos f \<le> fs_size (sf_file f)"

interpretation mem_seq: sequential_file MemSequentialFile sfi_left sfi_good
proof
  fix f n assume good: "sfi_good f"
  then have r: "FileState_Read (sf_file f) (sf_pos f) n = (OK, take n (sfi_left f))"
    by (simp add: sfi_good_def sfi_left_def FileState_Read_eq)
  have len: "length (sfi_left f) = fs_size (sf_file f) - sf_pos f"
    using good by (simp add: sfi_left_def sfi_good_def)
  have d: "drop (min (length (sfi_left f)) n) (sfi_left f) = drop n (sfi_left f)"
    by (simp add: min_def)
  show "\<exists>f'. SF_Read MemSequentialFile f n = (OK, take n (sfi_left f), f') \<and>
      sfi_left f' = drop n (sfi_left f) \<and> sfi_good f'"
    using good r len d
    by (auto simp: MemSequentialFile_def SequentialFileImpl_Read_def sfi_left_def sfi_good_def add.commute)
  show "\<exists>f'. SF_Skip MemSequentialFile f n = (OK, f') \<and> sfi_left f' = drop n (sfi_left f) \<and> sfi_good f'"
    using good
    by (auto simp: MemSequentialFile_def SequentialFileImpl_Skip_def sfi_left_def sfi_good_def Let_def
        add.commute)
qed

interpretation mem_rand: random_access_file MemRandomAccessFile fs_bytes fs_inv
  by unfold_locales (simp add: MemRandomAccessFile_def FileState_Read_eq)

interpretation mem_writ: writable_file MemWritableFile fs_bytes fs_inv
  by unfold_locales (simp_all add: MemWritableFile_def FileState_Append_def FileState_append_loop_eq)

section \<open>Properties\<close>

text \<open>
  C17: the block vector behaves as one sequence of bytes.  Appending any data to a well-formed file
  keeps it well formed and adds exactly that data at the end, and a read of \<open>n\<close> bytes at an
  offset inside the file then returns that part of the sequence, however the range lies across
  the 8 KB blocks.
\<close>

theorem memenv_append_read:
  assumes "fs_inv s" "offset \<le> fs_size s + length data"
  shows "\<exists>s'. FileState_Append s data = (OK, s') \<and> fs_inv s' \<and> fs_bytes s' = fs_bytes s @ data \<and>
           FileState_Read s' offset n = (OK, take n (drop offset (fs_bytes s @ data)))"
proof -
  let ?s = "FileState_append_loop s data"
  have s: "fs_inv ?s" "fs_bytes ?s = fs_bytes s @ data" using FileState_append_loop_eq [OF assms(1)] by auto
  then have "fs_size ?s = fs_size s + length data"
    using length_fs_bytes [OF s(1)] length_fs_bytes [OF assms(1)] by simp
  with s assms show ?thesis by (simp add: FileState_Append_def FileState_Read_eq)
qed

theorem memenv_append_read_witness:
  "\<exists>s'. FileState_Append FileState_new [1, 2, 3] = (OK, s') \<and>
        FileState_Read s' 1 5 = (OK, [2, 3])"
  using memenv_append_read [of FileState_new 1 "[1, 2, 3]" 5] fs_inv_new by auto

text \<open>
  C18: opening a new file for appending loses it.  \<open>NewAppendableFile\<close> on a name that does not
  exist leaves a null pointer in the map: the file is reported to exist, but what is written to
  it is not reachable, and opening it for reading dereferences the null pointer.
\<close>

theorem memenv_appendable_lost:
  assumes "file_map e fname = None"
  shows "FileExists fname (snd (NewAppendableFile fname e)) \<and>
         file_map (snd (NewAppendableFile fname e)) fname = Some None \<and>
         NewSequentialFile fname (snd (NewAppendableFile fname e)) = None"
  using assms
  by (simp add: NewAppendableFile_def mem_new_def mem_Ref_def FileExists_def NewSequentialFile_def
      NewReadFile_def Let_def)

theorem memenv_appendable_lost_witness:
  "let e = \<lparr> heap = (\<lambda>_. None), fresh = 0, file_map = (\<lambda>_. None) \<rparr>
   in NewSequentialFile [97] (snd (NewAppendableFile [97] e)) = None"
  using memenv_appendable_lost
    [of "\<lparr> heap = (\<lambda>_. None), fresh = 0, file_map = (\<lambda>_. None) \<rparr>" "[97]"]
  by (simp add: Let_def)

end
