(* ===== verification/Log.thy ===== *)
theory Log
  imports Crc32c Env Logging MemEnv
begin

text \<open>
  The write-ahead log: \<open>db/log_format.h\<close>, \<open>db/log_writer.cc\<close> and \<open>db/log_reader.cc\<close>.  The
  files it writes and reads are parameters (\<open>WritableFile\<close>, \<open>SequentialFile\<close>); the calls made to
  the \<open>Reporter\<close> are recorded in the reader's state.
\<close>

section \<open>Definitions: format and writer\<close>

datatype RecordType = kZeroType | kFullType | kFirstType | kMiddleType | kLastType

fun RecordType_num :: "RecordType \<Rightarrow> nat" where
  "RecordType_num kZeroType = 0"
| "RecordType_num kFullType = 1"
| "RecordType_num kFirstType = 2"
| "RecordType_num kMiddleType = 3"
| "RecordType_num kLastType = 4"

definition kMaxRecordType :: nat where
  "kMaxRecordType = RecordType_num kLastType"

definition kBlockSize :: nat where
  "kBlockSize = 32768"

definition kHeaderSize :: nat where
  "kHeaderSize = 4 + 2 + 1"

record 'w Writer =
  wr_dest :: 'w
  wr_block_offset :: nat
  wr_type_crc :: "u32 list"

definition InitTypeCrc :: "u32 list" where
  "InitTypeCrc = map (\<lambda>i. Value [of_nat i]) [0..<kMaxRecordType + 1]"

text \<open>Both constructors; the one without a length is the case \<open>dest_length = 0\<close>.\<close>

definition Writer_new :: "'w \<Rightarrow> nat \<Rightarrow> 'w Writer" where
  "Writer_new dest dest_length =
     \<lparr> wr_dest = dest, wr_block_offset = dest_length mod kBlockSize, wr_type_crc = InitTypeCrc \<rparr>"

definition EmitPhysicalRecord ::
    "'w WritableFile \<Rightarrow> RecordType \<Rightarrow> slice \<Rightarrow> 'w Writer \<Rightarrow> Status \<times> 'w Writer" where
  "EmitPhysicalRecord W t ptr wr =
     (let crc = Mask (Extend (wr_type_crc wr ! RecordType_num t) ptr);
          buf = EncodeFixed32 crc @
                [of_nat (length ptr mod 256), of_nat (length ptr div 256), of_nat (RecordType_num t)];
          (s, d) = WF_Append W (wr_dest wr) buf;
          (s, d) = (if ok s then
                      (let (s, d) = WF_Append W d ptr in if ok s then WF_Flush W d else (s, d))
                    else (s, d))
      in (s, wr\<lparr> wr_dest := d, wr_block_offset := wr_block_offset wr + (kHeaderSize + length ptr) \<rparr>))"

text \<open>Filling the trailer of a block that has no room for a header; the status is ignored.\<close>

definition SwitchBlock :: "'w WritableFile \<Rightarrow> 'w Writer \<Rightarrow> 'w Writer" where
  "SwitchBlock W wr =
     (let leftover = int kBlockSize - int (wr_block_offset wr) in
      if leftover < int kHeaderSize then
        (let d = (if leftover > 0 then snd (WF_Append W (wr_dest wr) (replicate (nat leftover) 0))
                  else wr_dest wr)
         in wr\<lparr> wr_dest := d, wr_block_offset := 0 \<rparr>)
      else wr)"

definition fragment_type :: "bool \<Rightarrow> bool \<Rightarrow> RecordType" where
  "fragment_type begin_rec end_rec =
     (if begin_rec \<and> end_rec then kFullType
      else if begin_rec then kFirstType
      else if end_rec then kLastType
      else kMiddleType)"

lemma EmitPhysicalRecord_offset:
  "wr_block_offset (snd (EmitPhysicalRecord W t ptr wr)) = wr_block_offset wr + (kHeaderSize + length ptr)"
  by (simp add: EmitPhysicalRecord_def Let_def split: prod.split)

lemma SwitchBlock_offset:
  "wr_block_offset (SwitchBlock W wr) =
     (if kBlockSize - wr_block_offset wr < kHeaderSize then 0 else wr_block_offset wr)"
  by (auto simp: SwitchBlock_def Let_def kHeaderSize_def)

function AddRecord_loop ::
    "'w WritableFile \<Rightarrow> slice \<Rightarrow> bool \<Rightarrow> 'w Writer \<Rightarrow> Status \<times> 'w Writer" where
  "AddRecord_loop W ptr begin_rec wr =
     (let wr = SwitchBlock W wr;
          avail = kBlockSize - wr_block_offset wr - kHeaderSize;
          fragment_length = (if length ptr < avail then length ptr else avail);
          end_rec = (length ptr = fragment_length);
          (s, wr) = EmitPhysicalRecord W (fragment_type begin_rec end_rec) (take fragment_length ptr) wr;
          ptr = drop fragment_length ptr
      in if ok s \<and> length ptr > 0 then AddRecord_loop W ptr False wr else (s, wr))"
  by pat_completeness auto
termination
proof (relation "measure (\<lambda>(W, ptr, b, wr).
    2 * length ptr + (if wr_block_offset wr = kBlockSize - kHeaderSize then 1 else 0))",
    goal_cases)
  case (2 W ptr b wr wr1 avail frag e r s wr2 ptr2)
  have off: "wr_block_offset wr2 = wr_block_offset wr1 + (kHeaderSize + length (take frag ptr))"
    using 2(5,6) EmitPhysicalRecord_offset [of W _ _ wr1] by (metis snd_conv)
  show ?case
    using 2 off SwitchBlock_offset [of W wr]
    by (auto simp: kBlockSize_def kHeaderSize_def split: if_splits)
qed auto

definition AddRecord :: "'w WritableFile \<Rightarrow> slice \<Rightarrow> 'w Writer \<Rightarrow> Status \<times> 'w Writer" where
  "AddRecord W data wr = AddRecord_loop W data True wr"

section \<open>Definitions: reader\<close>

definition kEof :: nat where
  "kEof = kMaxRecordType + 1"

definition kBadRecord :: nat where
  "kBadRecord = kMaxRecordType + 2"

record 'f Reader =
  rd_file :: 'f
  rd_reporter :: bool
  rd_reports :: "(u64 \<times> Status) list"
  rd_checksum :: bool
  rd_buffer :: slice
  rd_eof :: bool
  rd_last_record_offset :: u64
  rd_end_of_buffer_offset :: u64
  rd_initial_offset :: u64
  rd_resyncing :: bool

definition Reader_new :: "'f \<Rightarrow> bool \<Rightarrow> bool \<Rightarrow> u64 \<Rightarrow> 'f Reader" where
  "Reader_new file reporter check initial_offset =
     \<lparr> rd_file = file, rd_reporter = reporter, rd_reports = [], rd_checksum = check, rd_buffer = [],
       rd_eof = False, rd_last_record_offset = 0, rd_end_of_buffer_offset = 0,
       rd_initial_offset = initial_offset, rd_resyncing = (initial_offset > 0) \<rparr>"

definition ReportDrop :: "u64 \<Rightarrow> Status \<Rightarrow> 'f Reader \<Rightarrow> 'f Reader" where
  "ReportDrop bytes reason st =
     (if rd_reporter st \<and>
         rd_end_of_buffer_offset st - of_nat (length (rd_buffer st)) - bytes \<ge> rd_initial_offset st
      then st\<lparr> rd_reports := rd_reports st @ [(bytes, reason)] \<rparr>
      else st)"

definition ReportCorruption :: "nat \<Rightarrow> slice \<Rightarrow> 'f Reader \<Rightarrow> 'f Reader" where
  "ReportCorruption bytes reason st = ReportDrop (of_nat bytes) (Corruption reason []) st"

definition SkipToInitialBlock :: "'f SequentialFile \<Rightarrow> 'f Reader \<Rightarrow> bool \<times> 'f Reader" where
  "SkipToInitialBlock F st =
     (let offset_in_block = rd_initial_offset st mod of_nat kBlockSize;
          block_start_location = rd_initial_offset st - offset_in_block;
          block_start_location =
            (if offset_in_block > of_nat (kBlockSize - 6) then block_start_location + of_nat kBlockSize
             else block_start_location);
          st = st\<lparr> rd_end_of_buffer_offset := block_start_location \<rparr>
      in if block_start_location > 0 then
           (let (skip_status, f) = SF_Skip F (rd_file st) (unat block_start_location);
                st = st\<lparr> rd_file := f \<rparr>
            in if \<not> ok skip_status then (False, ReportDrop block_start_location skip_status st)
               else (True, st))
         else (True, st))"

text \<open>
  The second half of \<open>ReadPhysicalRecord\<close>: the buffer holds at least a header.  \<open>char\<close> is
  signed, so a type byte above 127 becomes a large \<open>unsigned int\<close>.
\<close>

definition ParsePhysicalRecord :: "slice \<Rightarrow> 'f Reader \<Rightarrow> nat \<times> slice \<times> 'f Reader" where
  "ParsePhysicalRecord result st =
     (let header = rd_buffer st;
          a = unat (header ! 4); b = unat (header ! 5);
          type = unat (scast (header ! 6) :: u32);
          len = a + 256 * b
      in if kHeaderSize + len > length (rd_buffer st) then
           (let drop_size = length (rd_buffer st);
                st = st\<lparr> rd_buffer := [] \<rparr>
            in if \<not> rd_eof st
               then (kBadRecord, result, ReportCorruption drop_size (ascii ''bad record length'') st)
               else (kEof, result, st))
         else if type = RecordType_num kZeroType \<and> len = 0 then
           (kBadRecord, result, st\<lparr> rd_buffer := [] \<rparr>)
         else if rd_checksum st \<and>
                 Value (take (1 + len) (drop 6 header)) \<noteq> Unmask (DecodeFixed32 header) then
           (let drop_size = length (rd_buffer st);
                st = st\<lparr> rd_buffer := [] \<rparr>
            in (kBadRecord, result, ReportCorruption drop_size (ascii ''checksum mismatch'') st))
         else
           (let st = st\<lparr> rd_buffer := remove_prefix (rd_buffer st) (kHeaderSize + len) \<rparr>
            in if rd_end_of_buffer_offset st - of_nat (length (rd_buffer st)) - of_nat kHeaderSize
                    - of_nat len < rd_initial_offset st
               then (kBadRecord, [], st)
               else (type, take len (drop kHeaderSize header), st)))"

text \<open>The loop; \<open>result\<close> keeps its old value where the code does not assign it.\<close>

function ReadPhysicalRecord ::
    "'f SequentialFile \<Rightarrow> slice \<Rightarrow> 'f Reader \<Rightarrow> nat \<times> slice \<times> 'f Reader" where
  "ReadPhysicalRecord F result st =
     (if length (rd_buffer st) < kHeaderSize then
        (if \<not> rd_eof st then
           (case SF_Read F (rd_file st) kBlockSize of
              (status, buf, f) \<Rightarrow>
                (let st = st\<lparr> rd_file := f, rd_buffer := buf,
                              rd_end_of_buffer_offset := rd_end_of_buffer_offset st + of_nat (length buf) \<rparr>
                 in if \<not> ok status then
                      (kEof, result,
                       (ReportDrop (of_nat kBlockSize) status (st\<lparr> rd_buffer := [] \<rparr>))\<lparr> rd_eof := True \<rparr>)
                    else ReadPhysicalRecord F result
                           (if length buf < kBlockSize then st\<lparr> rd_eof := True \<rparr> else st)))
         else (kEof, result, st\<lparr> rd_buffer := [] \<rparr>))
      else ParsePhysicalRecord result st)"
  by pat_completeness auto
termination
  by (relation "measure (\<lambda>(F, result, st).
        if length (rd_buffer st) < kHeaderSize \<and> \<not> rd_eof st then 1 else 0)")
     (auto simp: kHeaderSize_def kBlockSize_def)

text \<open>The local variables of \<open>ReadRecord\<close> at the head of its loop.\<close>

record 'f ReadLoop =
  rl_st :: "'f Reader"
  rl_scratch :: slice
  rl_in_fragmented_record :: bool
  rl_prospective :: u64
  rl_fragment :: slice

text \<open>
  One iteration: \<^term>\<open>Inl\<close> goes round again, \<^term>\<open>Inr (Some r, st)\<close> returns true with record
  \<open>r\<close>, \<^term>\<open>Inr (None, st)\<close> returns false.
\<close>

definition ReadRecord_step ::
    "'f SequentialFile \<Rightarrow> 'f ReadLoop \<Rightarrow> 'f ReadLoop + slice option \<times> 'f Reader" where
  "ReadRecord_step F l =
     (case ReadPhysicalRecord F (rl_fragment l) (rl_st l) of
        (record_type, fragment, st) \<Rightarrow>
          (let physical_record_offset =
                 rd_end_of_buffer_offset st - of_nat (length (rd_buffer st)) - of_nat kHeaderSize
                   - of_nat (length fragment);
               l = l\<lparr> rl_fragment := fragment, rl_st := st \<rparr>;
               scratch = rl_scratch l;
               in_frag = rl_in_fragmented_record l
           in if rd_resyncing st \<and> record_type = RecordType_num kMiddleType then Inl l
              else if rd_resyncing st \<and> record_type = RecordType_num kLastType then
                Inl (l\<lparr> rl_st := st\<lparr> rd_resyncing := False \<rparr> \<rparr>)
              else
                (let st = st\<lparr> rd_resyncing := False \<rparr>;
                     l = l\<lparr> rl_st := st \<rparr>
                 in if record_type = RecordType_num kFullType then
                      (let st = (if in_frag \<and> scratch \<noteq> [] then
                                   ReportCorruption (length scratch) (ascii ''partial record without end(1)'') st
                                 else st)
                       in Inr (Some fragment, st\<lparr> rd_last_record_offset := physical_record_offset \<rparr>))
                    else if record_type = RecordType_num kFirstType then
                      (let st = (if in_frag \<and> scratch \<noteq> [] then
                                   ReportCorruption (length scratch) (ascii ''partial record without end(2)'') st
                                 else st)
                       in Inl (l\<lparr> rl_st := st, rl_prospective := physical_record_offset,
                                 rl_scratch := fragment, rl_in_fragmented_record := True \<rparr>))
                    else if record_type = RecordType_num kMiddleType then
                      (if \<not> in_frag then
                         Inl (l\<lparr> rl_st := ReportCorruption (length fragment)
                                 (ascii ''missing start of fragmented record(1)'') st \<rparr>)
                       else Inl (l\<lparr> rl_scratch := scratch @ fragment \<rparr>))
                    else if record_type = RecordType_num kLastType then
                      (if \<not> in_frag then
                         Inl (l\<lparr> rl_st := ReportCorruption (length fragment)
                                 (ascii ''missing start of fragmented record(2)'') st \<rparr>)
                       else Inr (Some (scratch @ fragment), st\<lparr> rd_last_record_offset := rl_prospective l \<rparr>))
                    else if record_type = kEof then Inr (None, st)
                    else if record_type = kBadRecord then
                      (if in_frag then
                         Inl (l\<lparr> rl_st := ReportCorruption (length scratch)
                                   (ascii ''error in middle of record'') st,
                                 rl_in_fragmented_record := False, rl_scratch := [] \<rparr>)
                       else Inl l)
                    else
                      Inl (l\<lparr> rl_st := ReportCorruption
                                (length fragment + (if in_frag then length scratch else 0))
                                (ascii ''unknown record type '' @ decimal record_type) st,
                              rl_in_fragmented_record := False, rl_scratch := [] \<rparr>))))"

text \<open>The loop may run for ever on a file that never ends: \<^term>\<open>None\<close>.\<close>

partial_function (option) ReadRecord_loop ::
    "'f SequentialFile \<Rightarrow> 'f ReadLoop \<Rightarrow> (slice option \<times> 'f Reader) option" where
  "ReadRecord_loop F l =
     (case ReadRecord_step F l of Inl l' \<Rightarrow> ReadRecord_loop F l' | Inr r \<Rightarrow> Some r)"

definition ReadLoop_start :: "'f Reader \<Rightarrow> 'f ReadLoop" where
  "ReadLoop_start st =
     \<lparr> rl_st = st, rl_scratch = [], rl_in_fragmented_record = False, rl_prospective = 0,
       rl_fragment = [] \<rparr>"

definition ReadRecord ::
    "'f SequentialFile \<Rightarrow> 'f Reader \<Rightarrow> (slice option \<times> 'f Reader) option" where
  "ReadRecord F st =
     (if rd_last_record_offset st < rd_initial_offset st then
        (case SkipToInitialBlock F st of
           (skipped, st) \<Rightarrow>
             if \<not> skipped then Some (None, st) else ReadRecord_loop F (ReadLoop_start st))
      else ReadRecord_loop F (ReadLoop_start st))"

definition LastRecordOffset :: "'f Reader \<Rightarrow> u64" where
  "LastRecordOffset st = rd_last_record_offset st"

text \<open>The callers' loop, as in \<open>DBImpl::RecoverLogFile\<close>: read until false.\<close>

partial_function (option) ReadAllRecords ::
    "'f SequentialFile \<Rightarrow> 'f Reader \<Rightarrow> (slice list \<times> 'f Reader) option" where
  "ReadAllRecords F st =
     (case ReadRecord F st of
        None \<Rightarrow> None
      | Some (None, st') \<Rightarrow> Some ([], st')
      | Some (Some r, st') \<Rightarrow>
          Option.bind (ReadAllRecords F st') (\<lambda>(rs, st''). Some (r # rs, st'')))"

primrec AddRecords :: "'w WritableFile \<Rightarrow> slice list \<Rightarrow> 'w Writer \<Rightarrow> Status \<times> 'w Writer" where
  "AddRecords W [] wr = (OK, wr)"
| "AddRecords W (r # rs) wr =
     (case AddRecord W r wr of (s, wr) \<Rightarrow> if ok s then AddRecords W rs wr else (s, wr))"

declare AddRecord_loop.simps [simp del] ReadPhysicalRecord.simps [simp del]

section \<open>The byte stream a record becomes\<close>

definition phys :: "RecordType \<Rightarrow> slice \<Rightarrow> slice" where
  "phys t d =
     EncodeFixed32 (Mask (Value (of_nat (RecordType_num t) # d))) @
     [of_nat (length d mod 256), of_nat (length d div 256), of_nat (RecordType_num t)] @ d"

definition block_start :: "nat \<Rightarrow> nat" where
  "block_start bo = (if kBlockSize - bo < kHeaderSize then 0 else bo)"

definition trailer :: "nat \<Rightarrow> slice" where
  "trailer bo = (if kBlockSize - bo < kHeaderSize then replicate (kBlockSize - bo) 0 else [])"

definition room :: "nat \<Rightarrow> nat" where
  "room bo = kBlockSize - block_start bo - kHeaderSize"

text \<open>
  \<open>emits bo b d out bo'\<close>: from offset \<open>bo\<close> of the current block, the (rest of the) record \<open>d\<close>
  is laid out as \<open>out\<close> and ends at offset \<open>bo'\<close> of its last block; \<open>b\<close> says that \<open>d\<close> is
  the whole record.
\<close>

inductive emits :: "nat \<Rightarrow> bool \<Rightarrow> slice \<Rightarrow> slice \<Rightarrow> nat \<Rightarrow> bool" where
  emits_last: "length d \<le> room bo \<Longrightarrow>
     emits bo b d (trailer bo @ phys (fragment_type b True) d) (block_start bo + (kHeaderSize + length d))"
| emits_more: "room bo < length d \<Longrightarrow> emits kBlockSize False (drop (room bo) d) out bo' \<Longrightarrow>
     emits bo b d (trailer bo @ phys (fragment_type b False) (take (room bo) d) @ out) bo'"

inductive emits_all :: "nat \<Rightarrow> slice list \<Rightarrow> slice \<Rightarrow> nat \<Rightarrow> bool" where
  emits_all_Nil: "emits_all bo [] [] bo"
| emits_all_Cons: "emits bo True r out bo1 \<Longrightarrow> emits_all bo1 rs outs bo2 \<Longrightarrow>
     emits_all bo (r # rs) (out @ outs) bo2"

inductive_cases emits_all_NilE: "emits_all bo [] out bo'"
inductive_cases emits_all_ConsE: "emits_all bo (r # rs) out bo'"

lemmas log_sizes = kBlockSize_def kHeaderSize_def

lemma block_start_le: "bo \<le> kBlockSize \<Longrightarrow> block_start bo + kHeaderSize \<le> kBlockSize"
  by (auto simp: block_start_def log_sizes)

lemma room_full: "block_start bo + (kHeaderSize + room bo) = kBlockSize" if "bo \<le> kBlockSize"
  using block_start_le [OF that] by (simp add: room_def)

lemma emits_bound: "emits bo b d out bo' \<Longrightarrow> bo \<le> kBlockSize \<Longrightarrow> bo' \<le> kBlockSize"
proof (induction rule: emits.induct)
  case (emits_last d bo b)
  then show ?case using room_full [of bo] by linarith
qed auto

section \<open>The writer\<close>

definition writer_inv :: "('w \<Rightarrow> bool) \<Rightarrow> 'w Writer \<Rightarrow> bool" where
  "writer_inv good wr \<longleftrightarrow>
     good (wr_dest wr) \<and> wr_type_crc wr = InitTypeCrc \<and> wr_block_offset wr \<le> kBlockSize"

locale log_writer = writable_file W contents good
  for W :: "'w WritableFile" and contents :: "'w \<Rightarrow> slice" and good :: "'w \<Rightarrow> bool"
begin

lemma type_crc: "writer_inv good wr \<Longrightarrow> Extend (wr_type_crc wr ! RecordType_num t) d = Value (of_nat (RecordType_num t) # d)"
  by (cases t)
     (simp_all add: writer_inv_def InitTypeCrc_def kMaxRecordType_def Value_def crc.extend_cons nth_append)

lemma emit:
  assumes "writer_inv good wr"
  shows "\<exists>wr'. EmitPhysicalRecord W t d wr = (OK, wr') \<and>
           contents (wr_dest wr') = contents (wr_dest wr) @ phys t d \<and> good (wr_dest wr') \<and>
           wr_type_crc wr' = InitTypeCrc \<and>
           wr_block_offset wr' = wr_block_offset wr + (kHeaderSize + length d)"
proof -
  define buf where "buf = EncodeFixed32 (Mask (Extend (wr_type_crc wr ! RecordType_num t) d)) @
      [of_nat (length d mod 256), of_nat (length d div 256), of_nat (RecordType_num t)]"
  have "good (wr_dest wr)" using assms by (simp add: writer_inv_def)
  then obtain w1 where w1: "WF_Append W (wr_dest wr) buf = (OK, w1)"
    "contents w1 = contents (wr_dest wr) @ buf" "good w1" by (rule append_obtain)
  obtain w2 where w2: "WF_Append W w1 d = (OK, w2)" "contents w2 = contents w1 @ d" "good w2"
    using append_obtain [OF w1(3)] .
  obtain w3 where w3: "WF_Flush W w2 = (OK, w3)" "contents w3 = contents w2" "good w3"
    using flush_obtain [OF w2(3)] .
  have "phys t d = buf @ d" by (simp add: phys_def buf_def type_crc [OF assms])
  with w1 w2 w3 assms show ?thesis
    unfolding EmitPhysicalRecord_def Let_def buf_def [symmetric] by (simp add: writer_inv_def)
qed

lemma switch:
  assumes "writer_inv good wr"
  shows "writer_inv good (SwitchBlock W wr) \<and> wr_block_offset (SwitchBlock W wr) = block_start (wr_block_offset wr) \<and>
         contents (wr_dest (SwitchBlock W wr)) = contents (wr_dest wr) @ trailer (wr_block_offset wr)"
proof -
  let ?n = "kBlockSize - wr_block_offset wr"
  have g: "good (wr_dest wr)" "wr_block_offset wr \<le> kBlockSize" using assms by (auto simp: writer_inv_def)
  have n: "nat (int kBlockSize - int (wr_block_offset wr)) = ?n" by simp
  obtain w where "WF_Append W (wr_dest wr) (replicate ?n 0) = (OK, w)"
    "contents w = contents (wr_dest wr) @ replicate ?n 0" "good w" using append_obtain [OF g(1)] .
  with assms g show ?thesis
    unfolding SwitchBlock_def Let_def n
    by (auto simp: writer_inv_def block_start_def trailer_def kHeaderSize_def)
qed

lemma add_loop:
  "W' = W \<Longrightarrow> writer_inv good wr \<Longrightarrow>
   \<exists>wr' out. AddRecord_loop W' d b wr = (OK, wr') \<and> writer_inv good wr' \<and>
     emits (wr_block_offset wr) b d out (wr_block_offset wr') \<and>
     contents (wr_dest wr') = contents (wr_dest wr) @ out"
proof (induction W' d b wr rule: AddRecord_loop.induct)
  case (1 W' d b wr)
  let ?bo = "wr_block_offset wr" let ?wr1 = "SwitchBlock W wr"
  let ?n = "if length d < room ?bo then length d else room ?bo"
  note sw = switch [OF "1.prems"(2)]
  have le: "?bo \<le> kBlockSize" using "1.prems"(2) by (simp add: writer_inv_def)
  obtain wr2 where wr2: "EmitPhysicalRecord W (fragment_type b (length d = ?n)) (take ?n d) ?wr1 = (OK, wr2)"
    "contents (wr_dest wr2) = contents (wr_dest ?wr1) @ phys (fragment_type b (length d = ?n)) (take ?n d)"
    "good (wr_dest wr2)" "wr_type_crc wr2 = InitTypeCrc"
    "wr_block_offset wr2 = wr_block_offset ?wr1 + (kHeaderSize + length (take ?n d))"
    using emit sw by meson
  have room: "kBlockSize - wr_block_offset ?wr1 - kHeaderSize = room ?bo"
    using sw by (simp add: room_def)
  have step: "AddRecord_loop W d b wr =
      (if length (drop ?n d) > 0 then AddRecord_loop W (drop ?n d) False wr2 else (OK, wr2))"
    unfolding AddRecord_loop.simps [of W d b wr] Let_def room wr2(1) by simp
  have inv2: "writer_inv good wr2"
    using wr2 sw room_full [OF le] by (simp add: writer_inv_def)
  show ?case
  proof (cases "length d \<le> room ?bo")
    case True
    then have n: "?n = length d" by auto
    with step have "AddRecord_loop W d b wr = (OK, wr2)" by simp
    moreover have "emits ?bo b d (trailer ?bo @ phys (fragment_type b True) d) (wr_block_offset wr2)"
      using emits_last [OF True, of b] wr2(5) sw n by simp
    moreover have "contents (wr_dest wr2) =
        contents (wr_dest wr) @ trailer ?bo @ phys (fragment_type b True) d"
      using wr2(2) sw n by simp
    ultimately show ?thesis using inv2 "1.prems"(1) by blast
  next
    case False
    then have n: "?n = room ?bo" and ne: "length (drop (room ?bo) d) > 0" by auto
    have "\<exists>wr' out. AddRecord_loop W (drop ?n d) False wr2 = (OK, wr') \<and> writer_inv good wr' \<and>
        emits (wr_block_offset wr2) False (drop ?n d) out (wr_block_offset wr') \<and>
        contents (wr_dest wr') = contents (wr_dest wr2) @ out"
      using "1.IH" [OF refl refl refl refl, unfolded "1.prems"(1) room wr2(1), OF refl refl refl _ refl inv2]
        ne n by simp
    then obtain wr' out where rec: "AddRecord_loop W (drop (room ?bo) d) False wr2 = (OK, wr')" "writer_inv good wr'"
      "emits (wr_block_offset wr2) False (drop (room ?bo) d) out (wr_block_offset wr')"
      "contents (wr_dest wr') = contents (wr_dest wr2) @ out" unfolding n by blast
    have "wr_block_offset wr2 = kBlockSize" using wr2(5) sw n False room_full [OF le] by simp
    then have "emits ?bo b d (trailer ?bo @ phys (fragment_type b False) (take (room ?bo) d) @ out)
        (wr_block_offset wr')"
      using False rec(3) by (intro emits_more) auto
    moreover have "contents (wr_dest wr') = contents (wr_dest wr) @
        trailer ?bo @ phys (fragment_type b False) (take (room ?bo) d) @ out"
      using rec(4) wr2(2) sw n False by simp
    ultimately show ?thesis using rec(1,2) step n ne "1.prems"(1) by auto
  qed
qed

lemma add_records:
  "writer_inv good wr \<Longrightarrow>
   \<exists>wr' out. AddRecords W rs wr = (OK, wr') \<and> writer_inv good wr' \<and>
     emits_all (wr_block_offset wr) rs out (wr_block_offset wr') \<and>
     contents (wr_dest wr') = contents (wr_dest wr) @ out"
proof (induction rs arbitrary: wr)
  case Nil
  then show ?case by (auto intro!: emits_all_Nil exI [of _ "[]"])
next
  case (Cons r rs)
  from add_loop [OF refl Cons.prems, of r True] obtain wr1 out where
    1: "AddRecord W r wr = (OK, wr1)" "writer_inv good wr1"
      "emits (wr_block_offset wr) True r out (wr_block_offset wr1)"
      "contents (wr_dest wr1) = contents (wr_dest wr) @ out" by (auto simp: AddRecord_def)
  from Cons.IH [OF 1(2)] obtain wr2 outs where
    2: "AddRecords W rs wr1 = (OK, wr2)" "writer_inv good wr2"
      "emits_all (wr_block_offset wr1) rs outs (wr_block_offset wr2)"
      "contents (wr_dest wr2) = contents (wr_dest wr1) @ outs" by blast
  show ?case
    using 1 2 emits_all_Cons [OF 1(3) 2(3)] by (intro exI [of _ wr2] exI [of _ "out @ outs"]) simp
qed

end

section \<open>The reader\<close>

lemma length_phys [simp]: "length (phys t d) = kHeaderSize + length d"
  by (simp add: phys_def kHeaderSize_def)

lemma header_fields:
  assumes "buf @ lost = phys t d @ rest" "kHeaderSize \<le> length buf" "length d < 65536"
  shows "unat (buf ! 4) + 256 * unat (buf ! 5) = length d"
    and "unat (scast (buf ! 6) :: u32) = RecordType_num t"
    and "buf = take 4 buf @ drop 4 buf" "DecodeFixed32 buf = Mask (Value (of_nat (RecordType_num t) # d))"
proof -
  have nth: "buf ! i = (phys t d @ rest) ! i" if "i < kHeaderSize" for i
    using that assms(1,2) by (metis nth_append order_less_le_trans)
  have "unat (of_nat (length d mod 256) :: byte) = length d mod 256"
    "unat (of_nat (length d div 256) :: byte) = length d div 256"
    using assms(3) by (auto intro!: of_nat_unat_small)
  then show "unat (buf ! 4) + 256 * unat (buf ! 5) = length d"
    using nth [of 4] nth [of 5] by (simp add: kHeaderSize_def phys_def nth_append)
  show "unat (scast (buf ! 6) :: u32) = RecordType_num t"
    using nth [of 6] by (cases t) (simp_all add: kHeaderSize_def phys_def nth_append)
  show "buf = take 4 buf @ drop 4 buf" by simp
  have "DecodeFixed32 buf = DecodeFixed32 (phys t d @ rest)"
    using nth [of 0] nth [of 1] nth [of 2] nth [of 3] by (simp add: DecodeFixed32_def kHeaderSize_def)
  then show "DecodeFixed32 buf = Mask (Value (of_nat (RecordType_num t) # d))"
    by (simp add: phys_def coding_simps)
qed

definition rd_at :: "('f \<Rightarrow> slice) \<Rightarrow> ('f \<Rightarrow> bool) \<Rightarrow> nat \<Rightarrow> slice \<Rightarrow> 'f Reader \<Rightarrow> bool" where
  "rd_at left good bo R st \<longleftrightarrow>
     good (rd_file st) \<and> R = rd_buffer st @ left (rd_file st) \<and> bo \<le> kBlockSize \<and>
     rd_initial_offset st = 0 \<and> \<not> rd_resyncing st \<and>
     (if rd_eof st then left (rd_file st) = [] \<and> length (rd_buffer st) \<le> kBlockSize - bo
      else length (rd_buffer st) + bo = kBlockSize \<or> rd_buffer st = [] \<and> bo = 0)"

text \<open>The two outcomes of reading the next fragment of a stream that may have been cut off.\<close>

definition fragment_read ::
    "('f \<Rightarrow> slice) \<Rightarrow> ('f \<Rightarrow> bool) \<Rightarrow> nat \<Rightarrow> slice \<Rightarrow> RecordType \<Rightarrow> slice \<Rightarrow> slice \<Rightarrow>
     'f Reader \<Rightarrow> nat \<times> slice \<times> 'f Reader \<Rightarrow> bool" where
  "fragment_read left good bo R t d fr st res \<longleftrightarrow>
     (\<exists>R' st'. R = trailer bo @ phys t d @ R' \<and> res = (RecordType_num t, d, st') \<and>
        rd_at left good (block_start bo + (kHeaderSize + length d)) R' st' \<and>
        rd_reports st' = rd_reports st) \<or>
     (length R < length (trailer bo @ phys t d) \<and>
      (\<exists>st'. res = (kEof, fr, st') \<and> rd_reports st' = rd_reports st \<and> \<not> rd_resyncing st'))"

locale log_reader = sequential_file F left good
  for F :: "'f SequentialFile" and left :: "'f \<Rightarrow> slice" and good :: "'f \<Rightarrow> bool"
begin

lemma parse:
  assumes at: "rd_at left good bo R st" and R: "R @ lost = phys t d @ rest"
    and len: "kHeaderSize \<le> length (rd_buffer st)" "length d \<le> room bo" and t: "t \<noteq> kZeroType"
  shows "fragment_read left good bo R t d fr st (ParsePhysicalRecord fr st)"
proof -
  let ?buf = "rd_buffer st"
  have bo: "kBlockSize - bo \<ge> kHeaderSize" "bo \<le> kBlockSize"
    using at len(1) by (auto simp: rd_at_def log_sizes split: if_splits)
  then have tr: "trailer bo = []" "block_start bo = bo" by (auto simp: trailer_def block_start_def)
  then have room: "room bo = kBlockSize - bo - kHeaderSize" by (simp add: room_def)
  have d: "length d < 65536" using len(2) room by (simp add: log_sizes)
  have eq: "?buf @ (left (rd_file st) @ lost) = phys t d @ rest" using at R by (simp add: rd_at_def)
  note h = header_fields [OF eq len(1) d]
  have tn: "RecordType_num t \<noteq> 0" using t by (cases t) auto
  have ne: "?buf \<noteq> []" using len(1) by (auto simp: kHeaderSize_def)
  show ?thesis
  proof (cases "kHeaderSize + length d > length ?buf")
    case True
    then have "rd_eof st" using at len room bo by (auto simp: rd_at_def kHeaderSize_def split: if_splits)
    with True at h(1,2) tr show ?thesis
      by (auto simp: fragment_read_def ParsePhysicalRecord_def Let_def rd_at_def)
  next
    case False
    then obtain b where b: "?buf = phys t d @ b"
      using eq by (metis append_eq_append_conv_if append_eq_conv_conj length_phys not_less)
    have v: "take (Suc (length d)) (drop 6 ?buf) = of_nat (RecordType_num t) # d"
      "take (length d) (drop kHeaderSize ?buf) = d"
      by (simp_all add: b phys_def kHeaderSize_def)
    have p: "ParsePhysicalRecord fr st = (RecordType_num t, d, st\<lparr> rd_buffer := b \<rparr>)"
      using False h(1,2,4) v tn at
      by (simp add: ParsePhysicalRecord_def Let_def rd_at_def remove_prefix_def)
        (simp add: b)
    show ?thesis
      using at b len(2) ne room bo unfolding fragment_read_def p
      by (intro disjI1 exI [of _ "b @ left (rd_file st)"] exI [of _ "st\<lparr> rd_buffer := b \<rparr>"])
        (auto simp: rd_at_def tr split: if_splits)
  qed
qed

lemma read_buffered:
  assumes at: "rd_at left good bo R st" and R: "R @ lost = trailer bo @ phys t d @ rest"
    and buf: "kHeaderSize \<le> length (rd_buffer st) \<or> rd_eof st"
    and len: "length d \<le> room bo" and t: "t \<noteq> kZeroType"
  shows "fragment_read left good bo R t d fr st (ReadPhysicalRecord F fr st)"
proof (cases "kHeaderSize \<le> length (rd_buffer st)")
  case True
  then have "kBlockSize - bo \<ge> kHeaderSize"
    using at by (auto simp: rd_at_def log_sizes split: if_splits)
  then have "trailer bo = []" by (simp add: trailer_def)
  with R have "R @ lost = phys t d @ rest" by simp
  from parse [OF at this True len t] True show ?thesis
    by (simp add: ReadPhysicalRecord.simps [of F fr st])
next
  case False
  with buf at show ?thesis
    by (auto simp: ReadPhysicalRecord.simps [of F fr st] fragment_read_def rd_at_def)
qed

lemma refill:
  assumes at: "rd_at left good bo R st" and buf: "length (rd_buffer st) < kHeaderSize" "\<not> rd_eof st"
  shows "\<exists>st1. ReadPhysicalRecord F fr st = ReadPhysicalRecord F fr st1 \<and>
           rd_at left good 0 (drop (length (trailer bo)) R) st1 \<and> rd_reports st1 = rd_reports st \<and>
           (kHeaderSize \<le> length (rd_buffer st1) \<or> rd_eof st1) \<and>
           block_start bo = 0 \<and> length (trailer bo) = length (rd_buffer st)"
proof -
  have "good (rd_file st)" using at by (simp add: rd_at_def)
  then obtain f where f: "SF_Read F (rd_file st) kBlockSize = (OK, take kBlockSize (left (rd_file st)), f)"
    "left f = drop kBlockSize (left (rd_file st))" "good f" by (rule read_obtain)
  let ?b = "take kBlockSize (left (rd_file st))"
  define st0 where "st0 = st\<lparr> rd_file := f, rd_buffer := ?b,
      rd_end_of_buffer_offset := rd_end_of_buffer_offset st + of_nat (length ?b) \<rparr>"
  define st1 where "st1 = (if length ?b < kBlockSize then st0\<lparr> rd_eof := True \<rparr> else st0)"
  have "ReadPhysicalRecord F fr st = ReadPhysicalRecord F fr st1"
    unfolding ReadPhysicalRecord.simps [of F fr st] f(1) prod.case Let_def st0_def [symmetric]
      st1_def [symmetric] using buf by simp
  moreover have bo: "block_start bo = 0" "length (trailer bo) = length (rd_buffer st)"
    using at buf by (auto simp: rd_at_def block_start_def trailer_def log_sizes)
  moreover have "rd_at left good 0 (drop (length (trailer bo)) R) st1"
    using at f bo buf by (auto simp: rd_at_def st1_def st0_def)
  moreover have "kHeaderSize \<le> length (rd_buffer st1) \<or> rd_eof st1"
    by (auto simp: st1_def st0_def log_sizes)
  moreover have "rd_reports st1 = rd_reports st" by (simp add: st1_def st0_def)
  ultimately show ?thesis by blast
qed

lemma read_fragment:
  assumes at: "rd_at left good bo R st" and R: "R @ lost = trailer bo @ phys t d @ rest"
    and len: "length d \<le> room bo" and t: "t \<noteq> kZeroType"
  shows "fragment_read left good bo R t d fr st (ReadPhysicalRecord F fr st)"
proof (cases "length (rd_buffer st) < kHeaderSize \<and> \<not> rd_eof st")
  case True
  then obtain st1 where 1: "ReadPhysicalRecord F fr st = ReadPhysicalRecord F fr st1"
    "rd_at left good 0 (drop (length (trailer bo)) R) st1" "rd_reports st1 = rd_reports st"
    "kHeaderSize \<le> length (rd_buffer st1) \<or> rd_eof st1" "block_start bo = 0"
    "length (trailer bo) = length (rd_buffer st)"
    using refill [OF at] by blast
  have tr0: "trailer 0 = []" "block_start 0 = 0" by (simp_all add: trailer_def block_start_def log_sizes)
  have "length (trailer bo) \<le> length R" using 1(6) at by (simp add: rd_at_def)
  then obtain R1 where R1: "R = trailer bo @ R1" using R
    by (metis append_eq_append_conv_if append_eq_conv_conj)
  have "room bo = room 0" using 1(5) tr0 by (simp add: room_def)
  then have "fragment_read left good 0 R1 t d fr st1 (ReadPhysicalRecord F fr st1)"
    using 1(2,4) R R1 len t tr0 by (intro read_buffered [where lost = lost and rest = rest]) auto
  then show ?thesis using 1(1,3,5) R1 tr0 by (simp add: fragment_read_def)
next
  case False
  then show ?thesis using assms by (intro read_buffered) auto
qed


lemma rd_at_last_offset:
  "rd_at left good bo R (st\<lparr> rd_last_record_offset := x \<rparr>) = rd_at left good bo R st"
  by (simp add: rd_at_def)

lemma rd_at_sync: "rd_at left good bo R st \<Longrightarrow> st\<lparr> rd_resyncing := False \<rparr> = st"
  by (simp add: rd_at_def)

lemma step_fragment:
  assumes "ReadPhysicalRecord F (rl_fragment l) (rl_st l) = (RecordType_num (fragment_type b e), d, st)"
    and "rd_at left good bo R st"
    and "if b then rl_scratch l = [] \<and> \<not> rl_in_fragmented_record l else rl_in_fragmented_record l"
  shows "if e then \<exists>x. ReadRecord_step F l = Inr (Some (rl_scratch l @ d), st\<lparr> rd_last_record_offset := x \<rparr>)
         else \<exists>l'. ReadRecord_step F l = Inl l' \<and> rl_st l' = st \<and> rl_scratch l' = rl_scratch l @ d \<and>
                rl_in_fragmented_record l'"
proof -
  have sync: "\<not> rd_resyncing st" "st\<lparr> rd_resyncing := False \<rparr> = st"
    using assms(2) rd_at_sync by (auto simp: rd_at_def)
  show ?thesis
    unfolding ReadRecord_step_def assms(1) prod.case Let_def using assms(3)
    by (cases b; cases e) (simp_all add: fragment_type_def sync, blast+)
qed

lemma step_eof:
  assumes "ReadPhysicalRecord F (rl_fragment l) (rl_st l) = (kEof, d, st)" "\<not> rd_resyncing st"
  shows "ReadRecord_step F l = Inr (None, st)"
  using assms by (simp add: ReadRecord_step_def Let_def kEof_def kMaxRecordType_def)

definition record_read ::
    "nat \<Rightarrow> slice \<Rightarrow> slice \<Rightarrow> slice \<Rightarrow> 'f Reader \<Rightarrow> (slice option \<times> 'f Reader) option \<Rightarrow> bool" where
  "record_read bo' R out r st res \<longleftrightarrow>
     (\<exists>R' st'. R = out @ R' \<and> res = Some (Some r, st') \<and> rd_at left good bo' R' st' \<and>
        rd_reports st' = rd_reports st) \<or>
     (length R < length out \<and> (\<exists>st'. res = Some (None, st') \<and> rd_reports st' = rd_reports st))"

lemma fragment_type_nonzero: "fragment_type b e \<noteq> kZeroType"
  by (simp add: fragment_type_def)

lemma read_loop:
  assumes "emits bo b d out bo'" "rd_at left good bo R (rl_st l)" "R @ lost = out @ rest"
    and "if b then rl_scratch l = [] \<and> \<not> rl_in_fragmented_record l else rl_in_fragmented_record l"
  shows "record_read bo' R out (rl_scratch l @ d) (rl_st l) (ReadRecord_loop F l)"
  using assms
proof (induction arbitrary: R l rule: emits.induct)
  case (emits_last d bo b)
  let ?t = "fragment_type b True" and ?res = "ReadPhysicalRecord F (rl_fragment l) (rl_st l)"
  have "fragment_read left good bo R ?t d (rl_fragment l) (rl_st l) ?res"
    using emits_last by (intro read_fragment [where rest = rest and lost = lost] fragment_type_nonzero) auto
  then consider
      (full) R' st' where "R = trailer bo @ phys ?t d @ R'" "?res = (RecordType_num ?t, d, st')"
        "rd_at left good (block_start bo + (kHeaderSize + length d)) R' st'"
        "rd_reports st' = rd_reports (rl_st l)"
    | (cut) st' where "length R < length (trailer bo @ phys ?t d)" "?res = (kEof, rl_fragment l, st')"
        "rd_reports st' = rd_reports (rl_st l)" "\<not> rd_resyncing st'"
    unfolding fragment_read_def by blast
  then show ?case
  proof cases
    case full
    with step_fragment [OF full(2,3) emits_last.prems(3)] show ?thesis
      by (subst ReadRecord_loop.simps) (auto simp: record_read_def rd_at_last_offset)
  next
    case cut
    with step_eof [OF cut(2,4)] show ?thesis
      by (subst ReadRecord_loop.simps) (simp add: record_read_def)
  qed
next
  case (emits_more bo d out bo' b)
  let ?t = "fragment_type b False" and ?d = "take (room bo) d"
  let ?res = "ReadPhysicalRecord F (rl_fragment l) (rl_st l)"
  have len: "length ?d = room bo" using emits_more.hyps(1) by simp
  have le: "bo \<le> kBlockSize" using emits_more.prems(1) by (simp add: rd_at_def)
  have "fragment_read left good bo R ?t ?d (rl_fragment l) (rl_st l) ?res"
    using emits_more.prems
    by (intro read_fragment [where rest = "out @ rest" and lost = lost] fragment_type_nonzero) auto
  then consider
      (full) R' st' where "R = trailer bo @ phys ?t ?d @ R'" "?res = (RecordType_num ?t, ?d, st')"
        "rd_at left good kBlockSize R' st'" "rd_reports st' = rd_reports (rl_st l)"
    | (cut) st' where "length R < length (trailer bo @ phys ?t ?d)" "?res = (kEof, rl_fragment l, st')"
        "rd_reports st' = rd_reports (rl_st l)" "\<not> rd_resyncing st'"
    unfolding fragment_read_def len room_full [OF le] by blast
  then show ?case
  proof cases
    case full
    with step_fragment [OF full(2,3) emits_more.prems(3)] obtain l' where
      l': "ReadRecord_step F l = Inl l'" "rl_st l' = st'" "rl_scratch l' = rl_scratch l @ ?d"
        "rl_in_fragmented_record l'" by auto
    have "record_read bo' R' out (rl_scratch l' @ drop (room bo) d) (rl_st l') (ReadRecord_loop F l')"
      using full emits_more.prems l' by (intro emits_more.IH) auto
    then show ?thesis
      using full l' by (subst ReadRecord_loop.simps) (simp add: record_read_def)
  next
    case cut
    with step_eof [OF cut(2,4)] show ?thesis
      by (subst ReadRecord_loop.simps) (simp add: record_read_def)
  qed
qed

text \<open>Nothing left to read.\<close>

lemma read_record_end:
  assumes "rd_at left good bo [] st"
  shows "\<exists>st'. ReadRecord F st = Some (None, st') \<and> rd_reports st' = rd_reports st"
proof -
  have "fragment_read left good bo [] kFullType [] [] st (ReadPhysicalRecord F [] st)"
    using assms by (intro read_fragment [where lost = "trailer bo @ phys kFullType []" and rest = "[]"])
      (auto simp: room_def)
  then obtain st' where e: "ReadPhysicalRecord F [] st = (kEof, [], st')"
    "rd_reports st' = rd_reports st" "\<not> rd_resyncing st'"
    by (auto simp: fragment_read_def phys_def)
  have "ReadRecord F st = ReadRecord_loop F (ReadLoop_start st)"
    using assms by (simp add: ReadRecord_def rd_at_def)
  also have "\<dots> = Some (None, st')"
    using step_eof [of "ReadLoop_start st"] e by (subst ReadRecord_loop.simps) (simp add: ReadLoop_start_def)
  finally show ?thesis using e(2) by blast
qed

lemma read_record:
  assumes "emits bo True r out bo'" "rd_at left good bo R st" "R @ lost = out @ rest"
  shows "record_read bo' R out r st (ReadRecord F st)"
proof -
  have "ReadRecord F st = ReadRecord_loop F (ReadLoop_start st)"
    using assms(2) by (simp add: ReadRecord_def rd_at_def)
  then show ?thesis
    using read_loop [OF assms(1), of R "ReadLoop_start st" lost rest] assms
    by (simp add: ReadLoop_start_def)
qed

lemma read_all:
  assumes "emits_all bo rs out bo'" "rd_at left good bo R st" "R @ lost = out"
  shows "\<exists>m st' bm outm. ReadAllRecords F st = Some (take m rs, st') \<and> rd_reports st' = rd_reports st \<and>
      m \<le> length rs \<and> emits_all bo (take m rs) outm bm \<and> length outm \<le> length R \<and>
      (m < length rs \<longrightarrow>
        (\<exists>bn outn. emits_all bo (take (Suc m) rs) outn bn \<and> length R < length outn))"
  using assms
proof (induction arbitrary: R st rule: emits_all.induct)
  case (emits_all_Nil bo)
  then have "R = []" by simp
  with emits_all_Nil read_record_end [of bo st] obtain st' where
    "ReadRecord F st = Some (None, st')" "rd_reports st' = rd_reports st" by auto
  then show ?case
    by (subst ReadAllRecords.simps) (auto intro!: exI [of _ "[]"] exI [of _ bo] emits_all.emits_all_Nil)
next
  case (emits_all_Cons bo r out bo1 rs outs bo2)
  have "record_read bo1 R out r st (ReadRecord F st)"
    using emits_all_Cons.hyps(1) emits_all_Cons.prems
    by (intro read_record [where lost = lost and rest = outs]) auto
  then consider
      (full) R' st' where "R = out @ R'" "ReadRecord F st = Some (Some r, st')"
        "rd_at left good bo1 R' st'" "rd_reports st' = rd_reports st"
    | (cut) st' where "length R < length out" "ReadRecord F st = Some (None, st')"
        "rd_reports st' = rd_reports st"
    unfolding record_read_def by blast
  then show ?case
  proof cases
    case full
    with emits_all_Cons.prems have "R' @ lost = outs" by simp
    from emits_all_Cons.IH [OF full(3) this] obtain m st'' bm outm where
      m: "ReadAllRecords F st' = Some (take m rs, st'')" "rd_reports st'' = rd_reports st'"
        "m \<le> length rs" "emits_all bo1 (take m rs) outm bm" "length outm \<le> length R'"
        "m < length rs \<longrightarrow>
          (\<exists>bn outn. emits_all bo1 (take (Suc m) rs) outn bn \<and> length R' < length outn)" by blast
    have "emits_all bo (take (Suc m) (r # rs)) (out @ outm) bm"
      using emits_all.emits_all_Cons [OF emits_all_Cons.hyps(1) m(4)] by simp
    moreover have "\<exists>bn outn. emits_all bo (take (Suc (Suc m)) (r # rs)) outn bn \<and> length R < length outn"
      if "m < length rs"
    proof -
      from m(6) that obtain bn outn where "emits_all bo1 (take (Suc m) rs) outn bn" "length R' < length outn"
        by blast
      then show ?thesis
        using emits_all.emits_all_Cons [OF emits_all_Cons.hyps(1)] full(1)
        by (intro exI [of _ bn] exI [of _ "out @ outn"]) auto
    qed
    moreover have "ReadAllRecords F st = Some (take (Suc m) (r # rs), st'')"
      using full(2) m(1) by (subst ReadAllRecords.simps) simp
    ultimately show ?thesis using m full
      by (intro exI [of _ "Suc m"] exI [of _ st''] exI [of _ bm] exI [of _ "out @ outm"]) auto
  next
    case cut
    have "emits_all bo [r] (out @ []) bo1"
      using emits_all.emits_all_Cons [OF emits_all_Cons.hyps(1) emits_all.emits_all_Nil] .
    then have 1: "\<exists>bn outn. emits_all bo (take (Suc 0) (r # rs)) outn bn \<and> length R < length outn"
      using cut(1) by auto
    have "ReadAllRecords F st = Some (take 0 (r # rs), st')"
      using cut(2) by (subst ReadAllRecords.simps) simp
    moreover have "emits_all bo (take 0 (r # rs)) [] bo" by (simp add: emits_all.emits_all_Nil)
    ultimately show ?thesis using cut(3) 1
      by (intro exI [of _ "0::nat"] exI [of _ st'] exI [of _ bo] exI [of _ "[]"]) simp
  qed
qed

end


section \<open>Properties\<close>

lemma emits_det:
  "emits bo b d out bo' \<Longrightarrow> emits bo b d out2 bo2 \<Longrightarrow> out2 = out \<and> bo2 = bo'"
proof (induction arbitrary: out2 bo2 rule: emits.induct)
  case (emits_last d bo b)
  from emits_last(2,1) show ?case by (cases rule: emits.cases) auto
next
  case (emits_more bo d out bo' b)
  from emits_more.prems emits_more.hyps(1) show ?case
    by (cases rule: emits.cases) (auto dest: emits_more.IH)
qed

lemma emits_all_det: "emits_all bo rs out bo' \<Longrightarrow> emits_all bo rs out2 bo2 \<Longrightarrow> out2 = out \<and> bo2 = bo'"
proof (induction arbitrary: out2 bo2 rule: emits_all.induct)
  case (emits_all_Nil bo)
  then show ?case by (auto elim: emits_all_NilE)
next
  case (emits_all_Cons bo r out bo1 rs outs bo2)
  from emits_all_Cons.prems show ?case
    by (rule emits_all_ConsE) (metis emits_all_Cons.IH emits_all_Cons.hyps(1) emits_det)
qed

lemma emits_all_split:
  "emits_all bo (xs @ ys) out bo' \<Longrightarrow> \<exists>o1 o2 b1. out = o1 @ o2 \<and> emits_all bo xs o1 b1"
proof (induction xs arbitrary: bo out)
  case Nil
  then show ?case by (auto intro: emits_all_Nil exI [of _ "[]"])
next
  case (Cons x xs)
  from Cons.prems obtain o1 b1 o2 where
    1: "out = o1 @ o2" "emits bo True x o1 b1" "emits_all b1 (xs @ ys) o2 bo'"
    by (auto elim: emits_all_ConsE)
  from Cons.IH [OF 1(3)] obtain o3 o4 b3 where "o2 = o3 @ o4" "emits_all b1 xs o3 b3" by blast
  with 1 show ?case
    by (intro exI [of _ "o1 @ o3"] exI [of _ o4] exI [of _ b3]) (auto intro: emits_all_Cons)
qed

lemma emits_all_mono:
  assumes "emits_all bo rs out bo'" "emits_all bo (take m rs) outm bm"
  shows "length outm \<le> length out"
proof -
  from assms(1) obtain o1 o2 b1 where "out = o1 @ o2" "emits_all bo (take m rs) o1 b1"
    using emits_all_split [of bo "take m rs" "drop m rs" out bo'] by auto
  with emits_all_det [OF assms(2)] show ?thesis by auto
qed

text \<open>The bytes of a log file to which \<open>rs\<close> were added.\<close>

definition log_file :: "'w WritableFile \<Rightarrow> ('w \<Rightarrow> slice) \<Rightarrow> 'w \<Rightarrow> slice list \<Rightarrow> slice" where
  "log_file W contents w rs = contents (wr_dest (snd (AddRecords W rs (Writer_new w 0))))"

context log_writer
begin

lemma log_file_emits:
  assumes "good w" "contents w = []"
  shows "fst (AddRecords W rs (Writer_new w 0)) = OK \<and>
         (\<exists>bo'. emits_all 0 rs (log_file W contents w rs) bo')"
proof -
  have "writer_inv good (Writer_new w 0)" using assms by (simp add: writer_inv_def Writer_new_def)
  from add_records [OF this, of rs] assms show ?thesis
    by (auto simp: log_file_def Writer_new_def)
qed

lemma log_file_eq:
  "good w \<Longrightarrow> contents w = [] \<Longrightarrow> emits_all 0 rs out bo \<Longrightarrow> log_file W contents w rs = out"
  using log_file_emits [of w rs] emits_all_det by blast

end

interpretation mem_log_writer: log_writer MemWritableFile fs_bytes fs_inv
  by unfold_locales

interpretation mem_log_reader: log_reader MemSequentialFile sfi_left sfi_good
  by unfold_locales

lemma rd_at_new:
  "good f \<Longrightarrow> rd_at left good 0 (left f) (Reader_new f reporter check 0)"
  by (simp add: rd_at_def Reader_new_def)

lemma crash_read:
  assumes W: "log_writer W contents wgood" and F: "log_reader F left good"
    and w: "wgood w" "contents w = []"
    and f: "good f" "left f = take n (log_file W contents w rs)"
  shows "\<exists>m st. ReadAllRecords F (Reader_new f reporter check 0) = Some (take m rs, st) \<and>
           rd_reports st = [] \<and> m \<le> length rs \<and> length (log_file W contents w (take m rs)) \<le> n \<and>
           (m < length rs \<longrightarrow> n < length (log_file W contents w (take (Suc m) rs)))"
proof -
  note eq = log_writer.log_file_eq [OF W w]
  from log_writer.log_file_emits [OF W w] obtain bo' where
    em: "emits_all 0 rs (log_file W contents w rs) bo'" by blast
  let ?R = "take n (log_file W contents w rs)"
  have at: "rd_at left good 0 ?R (Reader_new f reporter check 0)"
    using rd_at_new [of good f left reporter check] f by simp
  have rep: "rd_reports (Reader_new f reporter check 0) = []" by (simp add: Reader_new_def)
  have R: "?R @ drop n (log_file W contents w rs) = log_file W contents w rs" by simp
  obtain m st bm outm where m: "ReadAllRecords F (Reader_new f reporter check 0) = Some (take m rs, st)"
    "rd_reports st = []" "m \<le> length rs" "emits_all 0 (take m rs) outm bm" "length outm \<le> length ?R"
    "m < length rs \<longrightarrow> (\<exists>bn outn. emits_all 0 (take (Suc m) rs) outn bn \<and> length ?R < length outn)"
    using log_reader.read_all [OF F em at R] unfolding rep by blast
  have "n < length (log_file W contents w (take (Suc m) rs))" if lt: "m < length rs"
  proof -
    from m(6) lt obtain bn outn where o: "emits_all 0 (take (Suc m) rs) outn bn" "length ?R < length outn"
      by blast
    have "length outn \<le> length (log_file W contents w rs)"
      using emits_all_mono [OF em o(1)] .
    with o eq show ?thesis by auto
  qed
  with m eq [OF m(4)] show ?thesis by auto
qed

text \<open>
  C8: crash safety of the log.  Let any records be added to an empty file through any
  \<open>WritableFile\<close> that keeps its contract, and let the file be cut off after any \<open>n\<close> bytes.  A
  reader of what is left, with or without checksums, terminates, returns exactly the records whose
  last byte survived, in order, and reports no corruption.
\<close>

theorem log_crash_read:
  assumes "writable_file W contents wgood" "sequential_file F left good"
    and "wgood w" "contents w = []"
    and "good f" "left f = take n (log_file W contents w rs)"
  shows "\<exists>m st. ReadAllRecords F (Reader_new f reporter check 0) = Some (take m rs, st) \<and>
           rd_reports st = [] \<and> m \<le> length rs \<and> length (log_file W contents w (take m rs)) \<le> n \<and>
           (m < length rs \<longrightarrow> n < length (log_file W contents w (take (Suc m) rs)))"
  by (rule crash_read [OF log_writer.intro [OF assms(1)] log_reader.intro [OF assms(2)] assms(3-6)])

theorem log_crash_read_witness:
  "let f = \<lparr> sf_file = snd (FileState_Append FileState_new
                (take 10 (log_file MemWritableFile fs_bytes FileState_new [[1], [2, 3]]))), sf_pos = 0 \<rparr>
   in \<exists>m st. ReadAllRecords MemSequentialFile (Reader_new f True True 0) = Some (take m [[1], [2, 3]], st) \<and>
        rd_reports st = []"
proof -
  let ?b = "take 10 (log_file MemWritableFile fs_bytes FileState_new [[1], [2, 3]])"
  let ?s = "snd (FileState_Append FileState_new ?b)"
  have "fs_inv ?s" "fs_bytes ?s = ?b"
    using FileState_append_loop_eq [OF fs_inv_new(1), of ?b] fs_inv_new(2)
    by (auto simp: FileState_Append_def)
  then show ?thesis
    using log_crash_read [OF mem_writ.writable_file_axioms mem_seq.sequential_file_axioms fs_inv_new,
        of "\<lparr> sf_file = ?s, sf_pos = 0 \<rparr>" 10 "[[1], [2, 3]]" True True]
    by (auto simp: sfi_good_def sfi_left_def Let_def)
qed

text \<open>
  C9: round trip.  Adding records to an empty log succeeds, and reading the complete file returns
  all of them, unchanged and in order, with no report, however they were split over blocks.
\<close>

theorem log_roundtrip:
  assumes "writable_file W contents wgood" "sequential_file F left good"
    and "wgood w" "contents w = []" "good f" "left f = log_file W contents w rs"
  shows "fst (AddRecords W rs (Writer_new w 0)) = OK \<and>
         (\<exists>st. ReadAllRecords F (Reader_new f reporter check 0) = Some (rs, st) \<and> rd_reports st = [])"
proof -
  have W: "log_writer W contents wgood" using assms(1) by (rule log_writer.intro)
  let ?n = "length (log_file W contents w rs)"
  from crash_read [OF W log_reader.intro [OF assms(2)] assms(3,4), of f ?n rs reporter check] assms(5,6)
  obtain m st where m: "ReadAllRecords F (Reader_new f reporter check 0) = Some (take m rs, st)"
    "rd_reports st = []" "m \<le> length rs"
    "m < length rs \<longrightarrow> ?n < length (log_file W contents w (take (Suc m) rs))" by auto
  have "length (log_file W contents w (take (Suc m) rs)) \<le> ?n"
    using log_writer.log_file_emits [OF W assms(3,4), of rs]
      log_writer.log_file_emits [OF W assms(3,4), of "take (Suc m) rs"] emits_all_mono by blast
  with m have "m = length rs" by linarith
  with m show ?thesis using log_writer.log_file_emits [OF W assms(3,4), of rs] by simp
qed

theorem log_roundtrip_witness:
  "\<exists>st. ReadAllRecords MemSequentialFile
     (Reader_new \<lparr> sf_file = wr_dest (snd (AddRecords MemWritableFile [[1], []] (Writer_new FileState_new 0))),
                   sf_pos = 0 \<rparr> True True 0) = Some ([[1], []], st)"
proof -
  let ?wr = "snd (AddRecords MemWritableFile [[1], []] (Writer_new FileState_new 0))"
  have "writer_inv fs_inv (Writer_new FileState_new 0)"
    by (simp add: writer_inv_def Writer_new_def fs_inv_new)
  from mem_log_writer.add_records [OF this, of "[[1], []]"] have "fs_inv (wr_dest ?wr)"
    by (auto simp: writer_inv_def)
  then show ?thesis
    using log_roundtrip [OF mem_writ.writable_file_axioms mem_seq.sequential_file_axioms fs_inv_new,
        of "\<lparr> sf_file = wr_dest ?wr, sf_pos = 0 \<rparr>" "[[1], []]" True True]
    by (auto simp: sfi_good_def sfi_left_def log_file_def)
qed

end
