(* ===== verification/RandomGen.thy ===== *)
theory RandomGen
  imports LDB_Prelude
begin

text \<open>
  \<open>util/random.h\<close>: the Lehmer generator behind the skip list's node heights.  The state is \<open>seed_\<close>.
\<close>

section \<open>Definitions\<close>

definition Random_new :: "u32 \<Rightarrow> u32" where
  "Random_new s = (let seed = s AND 0x7fffffff in if seed = 0 \<or> seed = 2147483647 then 1 else seed)"

definition Random_Next :: "u32 \<Rightarrow> u32" where
  "Random_Next seed =
     (let M = (2147483647 :: u32);
          product = (ucast seed * 16807 :: u64);
          seed = ucast (drop_bit 31 product + (product AND ucast M))
      in if seed > M then seed - M else seed)"

text \<open>The drawing operations return the value and the new seed.\<close>

definition Random_Uniform :: "nat \<Rightarrow> u32 \<Rightarrow> u32 \<times> u32" where
  "Random_Uniform n seed = (let seed = Random_Next seed in (seed mod of_nat n, seed))"

definition Random_OneIn :: "nat \<Rightarrow> u32 \<Rightarrow> bool \<times> u32" where
  "Random_OneIn n seed = (let seed = Random_Next seed in (seed mod of_nat n = 0, seed))"

definition Random_Skewed :: "nat \<Rightarrow> u32 \<Rightarrow> u32 \<times> u32" where
  "Random_Skewed max_log seed =
     (let (k, seed) = Random_Uniform (max_log + 1) seed in Random_Uniform (2 ^ unat k) seed)"

section \<open>The shift-and-add reduction\<close>

definition seed_ok :: "u32 \<Rightarrow> bool" where
  "seed_ok s \<longleftrightarrow> 0 < unat s \<and> unat s < 2147483647"

lemma mersenne_reduce:
  fixes p :: nat
  shows "(p div 2147483648 + p mod 2147483648) mod 2147483647 = p mod 2147483647"
proof -
  have "p = 2147483647 * (p div 2147483648) + (p div 2147483648 + p mod 2147483648)"
    using div_mult_mod_eq [of p 2147483648] by simp
  then show ?thesis by (metis mod_mult_self4)
qed

lemma mod_cancel:
  fixes a b M s :: nat
  assumes "a * b mod M = 1" "s * a mod M = 0"
  shows "s mod M = 0"
proof -
  have "s mod M = s * (a * b mod M) mod M" using assms(1) by simp
  also have "\<dots> = (s * a) * b mod M" by (simp add: mod_mult_right_eq mult.assoc)
  also have "\<dots> = (s * a mod M) * b mod M" by (simp only: mod_mult_left_eq)
  finally show ?thesis using assms(2) by simp
qed

lemma sub_mod:
  fixes r M :: nat
  assumes "r < 2 * M" "r mod M \<noteq> 0"
  shows "(if r > M then r - M else r) = r mod M"
  using assms by (cases r M rule: linorder_cases) (auto simp: le_mod_geq)

lemma unat_product: "unat (ucast (s :: u32) * 16807 :: u64) = unat s * 16807"
proof -
  have "unat s < 2 ^ 32" using unsigned_less [of s, where ?'a = nat] by simp
  then have "unat s * 16807 < 2 ^ 64" by simp
  then show ?thesis by (simp add: unat_word_ariths unat_ucast_up)
qed

lemma unat_and_mask31: "unat ((p :: u64) AND 2147483647) = unat p mod 2 ^ 31"
proof -
  have "(2147483647 :: u64) = mask 31" by (simp add: mask_eq_exp_minus_1)
  then show ?thesis by (simp only: take_bit_eq_mask [symmetric] unsigned_take_bit_eq)
      (simp add: take_bit_eq_mod)
qed

lemma Random_Next_nat:
  assumes "seed_ok s"
  shows "unat (Random_Next s) = unat s * 16807 mod 2147483647 \<and> seed_ok (Random_Next s)"
proof -
  let ?p = "unat s * 16807" and ?M = "2147483647 :: nat"
  let ?r = "?p div 2147483648 + ?p mod 2147483648"
  have s: "0 < unat s" "unat s < ?M" using assms by (auto simp: seed_ok_def)
  have "?p \<le> 2147483646 * 16807" using s by simp
  then have q: "?p div 2147483648 \<le> 16806" using div_le_mono [of ?p "2147483646 * 16807" 2147483648] by simp
  moreover have m: "?p mod 2147483648 < 2147483648" by simp
  ultimately have r: "?r < 2 ^ 32" by simp
  have "unat (ucast (drop_bit 31 (ucast s * 16807 :: u64) + (ucast s * 16807 AND ucast (2147483647 :: u32))) :: u32)
      = ?r"
    using r by (simp add: unsigned_ucast_eq unat_word_ariths unat_drop_bit unat_and_mask31 unat_product
        take_bit_eq_mod del: drop_bit_eq_div)
  then have eq: "unat (Random_Next s) = (if ?r > ?M then ?r - ?M else ?r)"
    by (auto simp: Random_Next_def Let_def word_less_nat_alt unat_sub word_le_nat_alt)
  have nz: "?p mod ?M \<noteq> 0"
    using mod_cancel [of 16807 1407677000 ?M "unat s"] s by auto
  have "?r mod ?M = ?p mod ?M" by (rule mersenne_reduce)
  moreover have "?r < 2 * ?M" using q m by simp
  ultimately have "unat (Random_Next s) = ?p mod ?M"
    using eq nz sub_mod [of ?r ?M] by presburger
  moreover have "?p mod ?M < ?M" by simp
  ultimately show ?thesis using nz by (simp add: seed_ok_def)
qed

lemma Random_new_ok: "seed_ok (Random_new s)"
proof -
  have "unat (s AND 0x7fffffff) \<le> 0x7fffffff"
    using word_and_le1 [of s "0x7fffffff"] by (simp add: word_le_nat_alt)
  then show ?thesis
    by (auto simp: Random_new_def Let_def seed_ok_def word_unat_eq_iff)
qed

section \<open>Properties\<close>

text \<open>
  The generator computes \<open>seed * 16807 mod (2^31 - 1)\<close> without a division, and from a
  constructed state it never reaches the absorbing values 0 and \<open>2^31 - 1\<close>.
\<close>

theorem random_next_lehmer:
  "unat (Random_Next ((Random_Next ^^ n) (Random_new s))) =
     unat ((Random_Next ^^ n) (Random_new s)) * 16807 mod 2147483647 \<and>
   seed_ok ((Random_Next ^^ n) (Random_new s))"
proof -
  have "seed_ok ((Random_Next ^^ n) (Random_new s))"
    by (induction n) (simp_all add: Random_new_ok Random_Next_nat)
  then show ?thesis using Random_Next_nat by blast
qed

end
