(* ===== verification/Arena.thy ===== *)
theory Arena
  imports LDB_Prelude
begin

text \<open>
  \<open>util/arena.h\<close> and \<open>util/arena.cc\<close>.  Addresses are natural numbers; \<open>new char[n]\<close> is a
  parameter that gives the address of the n-th block, and the blocks are kept with their sizes.
\<close>

section \<open>Definitions\<close>

definition kArenaBlockSize :: nat where
  "kArenaBlockSize = 4096"

record Arena =
  ar_alloc_ptr :: nat
  ar_remaining :: nat
  ar_blocks :: "(nat \<times> nat) list"
  ar_memory_usage :: nat

definition Arena_new :: Arena where
  "Arena_new = \<lparr> ar_alloc_ptr = 0, ar_remaining = 0, ar_blocks = [], ar_memory_usage = 0 \<rparr>"

definition AllocateNewBlock :: "(nat \<Rightarrow> nat) \<Rightarrow> nat \<Rightarrow> Arena \<Rightarrow> nat \<times> Arena" where
  "AllocateNewBlock new_char block_bytes a =
     (let result = new_char (length (ar_blocks a))
      in (result, a\<lparr> ar_blocks := ar_blocks a @ [(result, block_bytes)],
                     ar_memory_usage := ar_memory_usage a + (block_bytes + 8) \<rparr>))"

definition AllocateFallback :: "(nat \<Rightarrow> nat) \<Rightarrow> nat \<Rightarrow> Arena \<Rightarrow> nat \<times> Arena" where
  "AllocateFallback new_char bytes a =
     (if bytes > kArenaBlockSize div 4 then AllocateNewBlock new_char bytes a
      else (let (p, a) = AllocateNewBlock new_char kArenaBlockSize a
            in (p, a\<lparr> ar_alloc_ptr := p + bytes, ar_remaining := kArenaBlockSize - bytes \<rparr>)))"

definition Allocate :: "(nat \<Rightarrow> nat) \<Rightarrow> nat \<Rightarrow> Arena \<Rightarrow> nat \<times> Arena" where
  "Allocate new_char bytes a =
     (if bytes \<le> ar_remaining a then
        (ar_alloc_ptr a, a\<lparr> ar_alloc_ptr := ar_alloc_ptr a + bytes, ar_remaining := ar_remaining a - bytes \<rparr>)
      else AllocateFallback new_char bytes a)"

definition AllocateAligned :: "(nat \<Rightarrow> nat) \<Rightarrow> nat \<Rightarrow> Arena \<Rightarrow> nat \<times> Arena" where
  "AllocateAligned new_char bytes a =
     (let current_mod = ar_alloc_ptr a mod 8;
          slop = (if current_mod = 0 then 0 else 8 - current_mod);
          needed = bytes + slop
      in if needed \<le> ar_remaining a then
           (ar_alloc_ptr a + slop,
            a\<lparr> ar_alloc_ptr := ar_alloc_ptr a + needed, ar_remaining := ar_remaining a - needed \<rparr>)
         else AllocateFallback new_char bytes a)"

definition MemoryUsage :: "Arena \<Rightarrow> nat" where
  "MemoryUsage a = ar_memory_usage a"

section \<open>Regions\<close>

type_synonym region = "nat \<times> nat"

fun disj_region :: "region \<Rightarrow> region \<Rightarrow> bool" where
  "disj_region (a, n) (b, m) = (a + n \<le> b \<or> b + m \<le> a)"

fun inside :: "region \<Rightarrow> region \<Rightarrow> bool" where
  "inside (a, n) (b, m) = (b \<le> a \<and> a + n \<le> b + m)"

text \<open>What \<open>new char[]\<close> guarantees about the blocks it returned.\<close>

definition blocks_ok :: "region list \<Rightarrow> bool" where
  "blocks_ok bs \<longleftrightarrow> sorted_wrt disj_region bs \<and> (\<forall>(p, n) \<in> set bs. p mod 8 = 0)"

text \<open>A run of requests, aligned or not, and the regions handed out.\<close>

primrec arena_run :: "(nat \<Rightarrow> nat) \<Rightarrow> (bool \<times> nat) list \<Rightarrow> Arena \<Rightarrow> region list \<times> Arena" where
  "arena_run new_char [] a = ([], a)"
| "arena_run new_char (r # rs) a =
     (let (p, a) = (if fst r then AllocateAligned new_char (snd r) a else Allocate new_char (snd r) a);
          (regs, a) = arena_run new_char rs a
      in ((p, snd r) # regs, a))"

text \<open>
  \<open>free\<close> and every region handed out so far lie in blocks, and no two of them overlap.
\<close>

definition arena_inv :: "Arena \<Rightarrow> region list \<Rightarrow> bool" where
  "arena_inv a regs \<longleftrightarrow>
     (\<forall>r \<in> set regs. \<exists>b \<in> set (ar_blocks a). inside r b) \<and>
     (ar_remaining a > 0 \<longrightarrow>
        (\<exists>b \<in> set (ar_blocks a). inside (ar_alloc_ptr a, ar_remaining a) b) \<and>
        (\<forall>r \<in> set regs. disj_region r (ar_alloc_ptr a, ar_remaining a))) \<and>
     sorted_wrt disj_region regs"

lemma inside_disj: "inside r b \<Longrightarrow> inside s c \<Longrightarrow> disj_region b c \<Longrightarrow> disj_region r s"
  by (cases r; cases b; cases s; cases c) auto

lemma inside_trans: "inside r b \<Longrightarrow> inside b c \<Longrightarrow> inside r c"
  by (cases r; cases b; cases c) auto

lemma blocks_ok_append: "blocks_ok (bs @ cs) \<Longrightarrow> blocks_ok bs"
  by (auto simp: blocks_ok_def sorted_wrt_append)

lemma new_block_disj:
  assumes "blocks_ok (ar_blocks a @ [b])" "arena_inv a regs" "r \<in> set regs" "inside s b"
  shows "disj_region r s"
proof -
  from assms(2,3) obtain c where "c \<in> set (ar_blocks a)" "inside r c" by (auto simp: arena_inv_def)
  with assms(1,4) show ?thesis by (intro inside_disj [of r c s b]) (auto simp: blocks_ok_def sorted_wrt_append)
qed

definition alloc_ok :: "Arena \<Rightarrow> nat \<Rightarrow> region list \<Rightarrow> nat \<times> Arena \<Rightarrow> bool" where
  "alloc_ok a n regs res \<longleftrightarrow>
     (case res of (p, a') \<Rightarrow>
        (\<exists>bs. ar_blocks a' = ar_blocks a @ bs) \<and>
        (blocks_ok (ar_blocks a') \<longrightarrow> arena_inv a' (regs @ [(p, n)])))"

lemma Fallback_ok:
  assumes "arena_inv a regs" "0 < n"
  shows "alloc_ok a n regs (AllocateFallback new_char n a)"
proof (cases "n > kArenaBlockSize div 4")
  case True
  have "arena_inv (snd (AllocateNewBlock new_char n a)) (regs @ [(new_char (length (ar_blocks a)), n)])"
    if ok: "blocks_ok (ar_blocks a @ [(new_char (length (ar_blocks a)), n)])"
  proof -
    let ?b = "(new_char (length (ar_blocks a)), n)"
    have d: "disj_region r ?b" if "r \<in> set regs" for r
      using new_block_disj [OF ok assms(1) that, of ?b] by simp
    have f: "disj_region ?b (ar_alloc_ptr a, ar_remaining a)" if "ar_remaining a > 0"
    proof -
      from assms(1) that obtain c where "c \<in> set (ar_blocks a)" "inside (ar_alloc_ptr a, ar_remaining a) c"
        by (auto simp: arena_inv_def)
      with ok have "disj_region (ar_alloc_ptr a, ar_remaining a) ?b"
        using inside_disj [of "(ar_alloc_ptr a, ar_remaining a)" c ?b ?b]
        by (auto simp: blocks_ok_def sorted_wrt_append)
      then show ?thesis by auto
    qed
    show ?thesis
      using assms(1) d f by (auto simp: arena_inv_def AllocateNewBlock_def Let_def sorted_wrt_append)
  qed
  with True show ?thesis
    by (auto simp: alloc_ok_def AllocateFallback_def AllocateNewBlock_def Let_def)
next
  case False
  let ?p = "new_char (length (ar_blocks a))"
  have "arena_inv (a\<lparr> ar_blocks := ar_blocks a @ [(?p, kArenaBlockSize)],
        ar_memory_usage := u, ar_alloc_ptr := ?p + n, ar_remaining := kArenaBlockSize - n \<rparr>) (regs @ [(?p, n)])"
    if ok: "blocks_ok (ar_blocks a @ [(?p, kArenaBlockSize)])" for u
  proof -
    have in1: "inside (?p, n) (?p, kArenaBlockSize)" "inside (?p + n, kArenaBlockSize - n) (?p, kArenaBlockSize)"
      using False by (auto simp: kArenaBlockSize_def)
    have d: "disj_region r s" if "r \<in> set regs" "inside s (?p, kArenaBlockSize)" for r s
      using new_block_disj [OF ok assms(1) that] .
    show ?thesis
      using assms(1) in1 d by (auto simp: arena_inv_def sorted_wrt_append)
  qed
  with False show ?thesis
    by (simp add: alloc_ok_def AllocateFallback_def AllocateNewBlock_def Let_def)
qed

lemma bump_ok:
  assumes "arena_inv a regs" "0 < n" "slop + n \<le> ar_remaining a"
  shows "alloc_ok a n regs (ar_alloc_ptr a + slop,
           a\<lparr> ar_alloc_ptr := ar_alloc_ptr a + (n + slop), ar_remaining := ar_remaining a - (n + slop) \<rparr>)"
proof -
  let ?free = "(ar_alloc_ptr a, ar_remaining a)"
  have free: "\<exists>b \<in> set (ar_blocks a). inside ?free b" "\<forall>r \<in> set regs. disj_region r ?free"
    "sorted_wrt disj_region regs" "\<forall>r \<in> set regs. \<exists>b \<in> set (ar_blocks a). inside r b"
    using assms by (auto simp: arena_inv_def)
  have sub: "disj_region r s" if "r \<in> set regs" "inside s ?free" for r s
    using free(2) that by (cases r; cases s) auto
  have ins: "\<exists>b \<in> set (ar_blocks a). inside s b" if "inside s ?free" for s
    using free(1) that inside_trans by blast
  show ?thesis
    using assms(2,3) free sub ins
    by (auto simp: alloc_ok_def arena_inv_def sorted_wrt_append)
qed

lemma Allocate_ok: "arena_inv a regs \<Longrightarrow> 0 < n \<Longrightarrow> alloc_ok a n regs (Allocate new_char n a)"
  using bump_ok [of a regs n 0] Fallback_ok [of a regs n new_char] by (auto simp: Allocate_def)

lemma AllocateAligned_ok:
  "arena_inv a regs \<Longrightarrow> 0 < n \<Longrightarrow> alloc_ok a n regs (AllocateAligned new_char n a)"
  using bump_ok [of a regs n] Fallback_ok [of a regs n new_char]
  by (simp add: AllocateAligned_def Let_def)

lemma Aligned_mod:
  assumes "AllocateAligned new_char n a = (p, a')" "blocks_ok (ar_blocks a')"
  shows "p mod 8 = 0"
proof -
  let ?m = "ar_alloc_ptr a mod 8"
  have "(ar_alloc_ptr a + (if ?m = 0 then 0 else 8 - ?m)) mod 8 = 0" by presburger
  with assms show ?thesis
    by (auto simp: AllocateAligned_def AllocateFallback_def AllocateNewBlock_def Let_def blocks_ok_def
        split: if_splits)
qed

definition alloc :: "(nat \<Rightarrow> nat) \<Rightarrow> bool \<times> nat \<Rightarrow> Arena \<Rightarrow> nat \<times> Arena" where
  "alloc new_char r a =
     (if fst r then AllocateAligned new_char (snd r) a else Allocate new_char (snd r) a)"

lemma alloc_alloc_ok: "arena_inv a regs \<Longrightarrow> 0 < snd r \<Longrightarrow> alloc_ok a (snd r) regs (alloc new_char r a)"
  by (simp add: alloc_def Allocate_ok AllocateAligned_ok)

lemma alloc_blocks: "\<exists>bs. ar_blocks (snd (alloc new_char r a)) = ar_blocks a @ bs"
  by (auto simp: alloc_def Allocate_def AllocateAligned_def AllocateFallback_def AllocateNewBlock_def Let_def)

lemma arena_run_Cons:
  "arena_run new_char (r # rs) a =
     (let (p, a1) = alloc new_char r a; (regs, a2) = arena_run new_char rs a1 in ((p, snd r) # regs, a2))"
  by (simp add: alloc_def)

declare arena_run.simps(2) [simp del]

lemma arena_run_blocks: "\<exists>bs. ar_blocks (snd (arena_run new_char rs a)) = ar_blocks a @ bs"
proof (induction rs arbitrary: a)
  case (Cons r rs)
  obtain bs where bs: "ar_blocks (snd (alloc new_char r a)) = ar_blocks a @ bs"
    using alloc_blocks by blast
  obtain cs where "ar_blocks (snd (arena_run new_char rs (snd (alloc new_char r a)))) =
      ar_blocks (snd (alloc new_char r a)) @ cs" using Cons.IH by blast
  with bs show ?case by (simp add: arena_run_Cons Let_def split_beta)
qed simp

lemma arena_run_ok:
  assumes "\<forall>r \<in> set rs. 0 < snd r" "arena_inv a regs"
    "blocks_ok (ar_blocks (snd (arena_run new_char rs a)))"
  shows "arena_inv (snd (arena_run new_char rs a)) (regs @ fst (arena_run new_char rs a)) \<and>
         list_all2 (\<lambda>(aligned, n) (p, m). m = n \<and> (aligned \<longrightarrow> p mod 8 = 0)) rs (fst (arena_run new_char rs a))"
  using assms
proof (induction rs arbitrary: a regs)
  case (Cons r rs)
  let ?p = "fst (alloc new_char r a)" and ?a = "snd (alloc new_char r a)"
  have run: "arena_run new_char (r # rs) a =
      ((?p, snd r) # fst (arena_run new_char rs ?a), snd (arena_run new_char rs ?a))"
    by (simp add: arena_run_Cons Let_def split_beta)
  have ok2: "blocks_ok (ar_blocks (snd (arena_run new_char rs ?a)))" using Cons.prems(3) run by simp
  then have ok1: "blocks_ok (ar_blocks ?a)"
    using arena_run_blocks [of new_char rs ?a] blocks_ok_append by metis
  have inv: "arena_inv ?a (regs @ [(?p, snd r)])"
    using alloc_alloc_ok [OF Cons.prems(2), of r new_char] Cons.prems(1) ok1
    by (simp add: alloc_ok_def split_beta)
  have "fst r \<longrightarrow> ?p mod 8 = 0"
    using Aligned_mod [of new_char "snd r" a ?p ?a] ok1 by (auto simp: alloc_def)
  with Cons.IH [OF _ inv ok2] Cons.prems(1) run show ?case by (simp add: split_beta)
qed simp

section \<open>Properties\<close>

text \<open>
  C23: memory handed out by an arena is never handed out twice.  For every sequence of non-empty
  requests, if the blocks obtained from \<open>new char[]\<close> are disjoint and eight-byte aligned, then the
  regions returned are pairwise disjoint, each lies inside one of the blocks, each has the
  requested size, and those of \<open>AllocateAligned\<close> start at a multiple of eight.
\<close>

theorem arena_regions_disjoint:
  assumes "\<forall>r \<in> set rs. 0 < snd r" "arena_run new_char rs Arena_new = (regs, a)" "blocks_ok (ar_blocks a)"
  shows "sorted_wrt disj_region regs \<and> (\<forall>r \<in> set regs. \<exists>b \<in> set (ar_blocks a). inside r b) \<and>
         list_all2 (\<lambda>(aligned, n) (p, m). m = n \<and> (aligned \<longrightarrow> p mod 8 = 0)) rs regs"
proof -
  have "arena_inv Arena_new []" by (simp add: arena_inv_def Arena_new_def)
  from arena_run_ok [OF assms(1) this, of new_char] assms(2,3) show ?thesis by (auto simp: arena_inv_def)
qed

theorem arena_regions_disjoint_witness:
  "\<exists>regs a. arena_run (\<lambda>i. 8192 * i) [(False, 3), (True, 16), (False, 5000)] Arena_new = (regs, a) \<and>
     sorted_wrt disj_region regs"
proof -
  have run: "arena_run (\<lambda>i. 8192 * i) [(False, 3), (True, 16), (False, 5000)] Arena_new =
    ([(0, 3), (8, 16), (8192, 5000)],
     \<lparr> ar_alloc_ptr = 24, ar_remaining = 4072, ar_blocks = [(0, 4096), (8192, 5000)],
       ar_memory_usage = 9112 \<rparr>)"
    by (simp add: arena_run_Cons alloc_def Allocate_def AllocateAligned_def AllocateFallback_def
        AllocateNewBlock_def Arena_new_def kArenaBlockSize_def)
  show ?thesis using arena_regions_disjoint [OF _ run] by (simp add: run blocks_ok_def)
qed

end
