(* ===== verification/Comparator.thy ===== *)
theory Comparator
  imports Slice
begin

text \<open>
  \<open>include/leveldb/comparator.h\<close> and \<open>util/comparator.cc\<close>.  The abstract class is a record of
  its virtual functions; the laws its documentation states are the locale \<open>comparator\<close>, which
  the bytewise comparator satisfies.
\<close>

section \<open>Definitions\<close>

record Comparator =
  Compare :: "slice \<Rightarrow> slice \<Rightarrow> int"
  FindShortestSeparator :: "slice \<Rightarrow> slice \<Rightarrow> slice"
  FindShortSuccessor :: "slice \<Rightarrow> slice"
  Name :: slice

text \<open>The prefix loop shared by the separator search and the block builder.\<close>

function common_prefix :: "slice \<Rightarrow> slice \<Rightarrow> nat \<Rightarrow> nat" where
  "common_prefix a b i =
     (if i < min (length a) (length b) \<and> a ! i = b ! i then common_prefix a b (Suc i) else i)"
  by pat_completeness auto
termination
  by (relation "measure (\<lambda>(a, b, i). length a - i)") auto

definition Bytewise_FindShortestSeparator :: "slice \<Rightarrow> slice \<Rightarrow> slice" where
  "Bytewise_FindShortestSeparator start limit =
     (let min_length = min (length start) (length limit);
          diff_index = common_prefix start limit 0
      in if diff_index \<ge> min_length then start
         else (let diff_byte = start ! diff_index
               in if diff_byte < 0xff \<and> unat diff_byte + 1 < unat (limit ! diff_index)
                  then take (diff_index + 1) (start[diff_index := start ! diff_index + 1])
                  else start))"

function Bytewise_FindShortSuccessor_loop :: "slice \<Rightarrow> nat \<Rightarrow> slice" where
  "Bytewise_FindShortSuccessor_loop key i =
     (if i < length key then
        (let byte = key ! i
         in if byte \<noteq> 0xff then take (i + 1) (key[i := byte + 1])
            else Bytewise_FindShortSuccessor_loop key (Suc i))
      else key)"
  by pat_completeness auto
termination
  by (relation "measure (\<lambda>(key, i). length key - i)") auto

definition Bytewise_FindShortSuccessor :: "slice \<Rightarrow> slice" where
  "Bytewise_FindShortSuccessor key = Bytewise_FindShortSuccessor_loop key 0"

definition BytewiseComparator :: Comparator where
  "BytewiseComparator =
     \<lparr> Compare = Slice_compare,
       FindShortestSeparator = Bytewise_FindShortestSeparator,
       FindShortSuccessor = Bytewise_FindShortSuccessor,
       Name = ascii ''leveldb.BytewiseComparator'' \<rparr>"

declare common_prefix.simps [simp del] Bytewise_FindShortSuccessor_loop.simps [simp del]

section \<open>Three-way comparison\<close>

text \<open>A total preorder presented by the sign of an integer.\<close>

locale three_way =
  fixes cmp :: "'k \<Rightarrow> 'k \<Rightarrow> int"
  assumes cmp_refl [simp]: "cmp a a = 0"
    and cmp_neg: "cmp a b < 0 \<longleftrightarrow> 0 < cmp b a"
    and cmp_trans: "cmp a b \<le> 0 \<Longrightarrow> cmp b c \<le> 0 \<Longrightarrow> cmp a c \<le> 0"
begin

lemma cmp_le: "cmp a b \<le> 0 \<longleftrightarrow> 0 \<le> cmp b a"
  using cmp_neg [of b a] by linarith

lemma cmp_zero_sym: "cmp a b = 0 \<longleftrightarrow> cmp b a = 0"
  using cmp_neg [of a b] cmp_neg [of b a] by linarith

lemma cmp_less_le_trans: "cmp a b < 0 \<Longrightarrow> cmp b c \<le> 0 \<Longrightarrow> cmp a c < 0"
  using cmp_trans [of b c a] cmp_le [of c a] cmp_le [of b a] by (smt (verit) cmp_neg)

lemma cmp_le_less_trans: "cmp a b \<le> 0 \<Longrightarrow> cmp b c < 0 \<Longrightarrow> cmp a c < 0"
  using cmp_trans [of c a b] cmp_le [of c a] cmp_le [of c b] by (smt (verit) cmp_neg)

lemma cmp_less_trans: "cmp a b < 0 \<Longrightarrow> cmp b c < 0 \<Longrightarrow> cmp a c < 0"
  by (rule cmp_less_le_trans) auto

lemma cmp_zero_left: "cmp a b = 0 \<Longrightarrow> cmp a c < 0 \<longleftrightarrow> cmp b c < 0"
  by (smt (verit) cmp_le_less_trans cmp_zero_sym)

lemma cmp_zero_right: "cmp a b = 0 \<Longrightarrow> cmp c a < 0 \<longleftrightarrow> cmp c b < 0"
  by (smt (verit) cmp_less_le_trans cmp_zero_sym)

lemma cmp_zero_trans: "cmp a b = 0 \<Longrightarrow> cmp b c = 0 \<Longrightarrow> cmp a c = 0"
  by (smt (verit) cmp_neg cmp_zero_left cmp_zero_right cmp_zero_sym)

lemma sorted_head_less:
  "sorted_wrt (\<lambda>a b. cmp a b < 0) (x # xs) \<Longrightarrow> y \<in> set xs \<Longrightarrow> cmp x y < 0"
  by simp

end

text \<open>
  The documented contract of a \<open>Comparator\<close>, on the keys it may be given.
\<close>

locale comparator = three_way "Compare c" for c :: Comparator +
  fixes valid :: "slice \<Rightarrow> bool"
  assumes separator:
      "valid a \<Longrightarrow> valid b \<Longrightarrow> Compare c a b < 0 \<Longrightarrow>
       valid (FindShortestSeparator c a b) \<and> Compare c a (FindShortestSeparator c a b) \<le> 0 \<and>
       Compare c (FindShortestSeparator c a b) b < 0"
    and successor:
      "valid a \<Longrightarrow> valid (FindShortSuccessor c a) \<and> Compare c a (FindShortSuccessor c a) \<le> 0"

section \<open>The bytewise comparator\<close>

lemma common_prefix_from:
  assumes "i \<le> length a" "i \<le> length b" "take i a = take i b"
  shows "i \<le> common_prefix a b i \<and> common_prefix a b i \<le> min (length a) (length b) \<and>
         take (common_prefix a b i) a = take (common_prefix a b i) b \<and>
         (common_prefix a b i < min (length a) (length b) \<longrightarrow>
            a ! common_prefix a b i \<noteq> b ! common_prefix a b i)"
  using assms
proof (induction a b i rule: common_prefix.induct)
  case (1 a b i)
  show ?case
  proof (cases "i < min (length a) (length b) \<and> a ! i = b ! i")
    case True
    with "1.prems" have "take (Suc i) a = take (Suc i) b"
      by (simp add: take_Suc_conv_app_nth)
    with True "1.IH" show ?thesis by (simp add: common_prefix.simps [of a b i])
  next
    case False
    with "1.prems" show ?thesis by (auto simp: common_prefix.simps [of a b i])
  qed
qed

lemmas common_prefix_0 = common_prefix_from [of 0, simplified]

lemma common_prefix_split:
  obtains p s l where "a = p @ s" "b = p @ l" "length p = common_prefix a b 0"
    and "s = [] \<or> l = [] \<or> hd s \<noteq> hd l"
proof -
  let ?n = "common_prefix a b 0"
  note c = common_prefix_0 [of a b]
  have "a = take ?n a @ drop ?n a" "b = take ?n a @ drop ?n b"
    using c by (metis append_take_drop_id)+
  moreover have "length (take ?n a) = ?n" using c by simp
  moreover have "drop ?n a = [] \<or> drop ?n b = [] \<or> hd (drop ?n a) \<noteq> hd (drop ?n b)"
    using c by (cases "?n < min (length a) (length b)") (auto simp: hd_drop_conv_nth)
  ultimately show thesis using that by blast
qed

lemma common_prefix_same: "common_prefix a a 0 = length a"
  using common_prefix_0 [of a a] by (metis le_neq_implies_less min.idem)

lemma byte_succ: "(x :: byte) < 0xff \<Longrightarrow> unat (x + 1) = unat x + 1"
  by (simp add: word_less_nat_alt unat_word_ariths)

lemma byte_less_max: "(x :: byte) \<noteq> 0xff \<Longrightarrow> x < 0xff"
  using unsigned_less [of x, where ?'a = nat] word_unat_eq_iff [of x "0xff"]
  by (simp add: word_less_nat_alt)

lemma Bytewise_separator:
  assumes "Slice_compare a b < 0"
  shows "Slice_compare a (Bytewise_FindShortestSeparator a b) \<le> 0 \<and>
         Slice_compare (Bytewise_FindShortestSeparator a b) b < 0"
proof -
  obtain p s l where ab: "a = p @ s" "b = p @ l" and n: "length p = common_prefix a b 0"
    and d: "s = [] \<or> l = [] \<or> hd s \<noteq> hd l" by (rule common_prefix_split)
  show ?thesis
  proof (cases "common_prefix a b 0 \<ge> min (length a) (length b)")
    case True
    then show ?thesis using assms by (simp add: Bytewise_FindShortestSeparator_def Let_def)
  next
    case False
    then obtain x s' y l' where s: "s = x # s'" "l = y # l'"
      using ab n by (cases s; cases l) auto
    with assms ab d have "x < y" by (auto split: if_splits)
    show ?thesis
    proof (cases "x < 0xff \<and> unat x + 1 < unat y")
      case True
      then have "Bytewise_FindShortestSeparator a b = p @ [x + 1]"
        using False ab s n [symmetric]
        by (simp add: Bytewise_FindShortestSeparator_def Let_def list_update_append)
      moreover have "x < x + 1" "x + 1 < y"
        using True byte_succ [of x] by (simp_all add: word_less_nat_alt)
      ultimately show ?thesis using ab s by auto
    next
      case F: False
      then have "Bytewise_FindShortestSeparator a b = a"
        using False ab s n [symmetric]
        by (auto simp: Bytewise_FindShortestSeparator_def Let_def)
      then show ?thesis using assms by simp
    qed
  qed
qed

lemma Bytewise_successor_from:
  assumes "i \<le> length key"
  shows "Slice_compare key (Bytewise_FindShortSuccessor_loop key i) \<le> 0"
  using assms
proof (induction key i rule: Bytewise_FindShortSuccessor_loop.induct)
  case (1 key i)
  show ?case
  proof (cases "i < length key \<and> key ! i \<noteq> 0xff")
    case True
    then have k: "key = take i key @ key ! i # drop (Suc i) key" by (simp add: id_take_nth_drop)
    have "key ! i < 0xff" using True by (simp add: byte_less_max)
    then have "key ! i < key ! i + 1"
      using byte_succ [of "key ! i"] by (simp add: word_less_nat_alt)
    moreover have "Bytewise_FindShortSuccessor_loop key i = take i key @ [key ! i + 1]"
      using True by (simp add: Bytewise_FindShortSuccessor_loop.simps [of key i] Let_def
          take_Suc_conv_app_nth)
    ultimately show ?thesis by (subst k) simp
  next
    case False
    with 1 show ?thesis
      by (auto simp: Bytewise_FindShortSuccessor_loop.simps [of key i] Let_def)
  qed
qed

interpretation bytewise: comparator BytewiseComparator "\<lambda>_. True"
proof unfold_locales
  fix a b c
  show "Compare BytewiseComparator a b < 0 \<longleftrightarrow> 0 < Compare BytewiseComparator b a"
    using Slice_compare_swap [of a b] by (simp add: BytewiseComparator_def)
  show "Compare BytewiseComparator a b \<le> 0 \<Longrightarrow> Compare BytewiseComparator b c \<le> 0 \<Longrightarrow>
    Compare BytewiseComparator a c \<le> 0"
    by (simp add: BytewiseComparator_def Slice_compare_trans)
qed (use Bytewise_separator Bytewise_successor_from in
      \<open>auto simp: BytewiseComparator_def Bytewise_FindShortSuccessor_def\<close>)

end
