(* ===== verification/SkipList.thy ===== *)
theory SkipList
  imports RandomGen Arena Comparator
begin

text \<open>
  \<open>db/skiplist.h\<close>.  Nodes live in a growing vector and pointers are indices into it; the head is
  node 0.  The searches follow the pointers and are partial: on a corrupt structure they may run
  for ever (\<^term>\<open>None\<close>).
\<close>

section \<open>Definitions\<close>

definition kMaxHeight :: nat where
  "kMaxHeight = 12"

record 'k SLNode =
  node_key :: 'k
  node_next :: "nat option list"

record 'k SkipList =
  sl_nodes :: "'k SLNode list"
  sl_max_height :: nat
  sl_rnd :: u32
  sl_arena :: Arena

abbreviation (input) sl_head :: nat where
  "sl_head \<equiv> 0"

definition sl_Next :: "'k SLNode list \<Rightarrow> nat \<Rightarrow> nat \<Rightarrow> nat option" where
  "sl_Next nodes x n = node_next (nodes ! x) ! n"

definition sl_SetNext :: "nat \<Rightarrow> nat \<Rightarrow> nat option \<Rightarrow> 'k SLNode list \<Rightarrow> 'k SLNode list" where
  "sl_SetNext x n p nodes = nodes[x := (nodes ! x)\<lparr> node_next := (node_next (nodes ! x))[n := p] \<rparr>]"

text \<open>A new node's pointers are indeterminate until set.  \<open>Key\<close> and pointers take 8 bytes.\<close>

definition NewNode :: "(nat \<Rightarrow> nat) \<Rightarrow> 'k \<Rightarrow> nat \<Rightarrow> 'k SkipList \<Rightarrow> nat \<times> 'k SkipList" where
  "NewNode new_char key height sl =
     (length (sl_nodes sl),
      sl\<lparr> sl_nodes := sl_nodes sl @ [\<lparr> node_key = key, node_next = replicate height None \<rparr>],
          sl_arena := snd (AllocateAligned new_char (16 + 8 * (height - 1)) (sl_arena sl)) \<rparr>)"

definition SkipList_new :: "(nat \<Rightarrow> nat) \<Rightarrow> 'k \<Rightarrow> Arena \<Rightarrow> 'k SkipList" where
  "SkipList_new new_char any_key arena =
     (let (head, sl) = NewNode new_char any_key kMaxHeight
            \<lparr> sl_nodes = [], sl_max_height = 1, sl_rnd = Random_new 0xdeadbeef, sl_arena = arena \<rparr>
      in sl\<lparr> sl_nodes := fold (\<lambda>i. sl_SetNext head i None) [0..<kMaxHeight] (sl_nodes sl) \<rparr>)"

function RandomHeight_loop :: "nat \<Rightarrow> u32 \<Rightarrow> nat \<times> u32" where
  "RandomHeight_loop height rnd =
     (if height < kMaxHeight then
        (case Random_OneIn 4 rnd of
           (one, rnd) \<Rightarrow> if one then RandomHeight_loop (height + 1) rnd else (height, rnd))
      else (height, rnd))"
  by pat_completeness auto
termination
  by (relation "measure (\<lambda>(h, r). kMaxHeight - h)") auto

definition RandomHeight :: "'k SkipList \<Rightarrow> nat \<times> 'k SkipList" where
  "RandomHeight sl = (case RandomHeight_loop 1 (sl_rnd sl) of (h, r) \<Rightarrow> (h, sl\<lparr> sl_rnd := r \<rparr>))"

definition KeyIsAfterNode :: "('k \<Rightarrow> 'k \<Rightarrow> int) \<Rightarrow> 'k SkipList \<Rightarrow> 'k \<Rightarrow> nat option \<Rightarrow> bool" where
  "KeyIsAfterNode compare sl key n =
     (case n of None \<Rightarrow> False | Some m \<Rightarrow> compare (node_key (sl_nodes sl ! m)) key < 0)"

text \<open>
  The loop the three searches share: at each level move right while \<open>advance\<close> says so of the next
  node, else record the position in \<open>prev\<close> and go down; at level 0 return the position and the
  next node.
\<close>

partial_function (option) sl_descend ::
    "'k SkipList \<Rightarrow> (nat option \<Rightarrow> bool) \<Rightarrow> nat \<Rightarrow> nat \<Rightarrow> nat list \<Rightarrow>
     (nat \<times> nat option \<times> nat list) option" where
  "sl_descend sl advance x level prev =
     (let nxt = sl_Next (sl_nodes sl) x level in
      if advance nxt then sl_descend sl advance (the nxt) level prev
      else (let prev = prev[level := x] in
            if level = 0 then Some (x, nxt, prev) else sl_descend sl advance x (level - 1) prev))"

definition FindGreaterOrEqual ::
    "('k \<Rightarrow> 'k \<Rightarrow> int) \<Rightarrow> 'k SkipList \<Rightarrow> 'k \<Rightarrow> nat list \<Rightarrow> (nat option \<times> nat list) option" where
  "FindGreaterOrEqual compare sl key prev =
     map_option snd
       (sl_descend sl (KeyIsAfterNode compare sl key) sl_head (sl_max_height sl - 1) prev)"

definition FindLessThan :: "('k \<Rightarrow> 'k \<Rightarrow> int) \<Rightarrow> 'k SkipList \<Rightarrow> 'k \<Rightarrow> nat option" where
  "FindLessThan compare sl key =
     map_option fst
       (sl_descend sl
          (\<lambda>n. \<not> (case n of None \<Rightarrow> True | Some m \<Rightarrow> compare (node_key (sl_nodes sl ! m)) key \<ge> 0))
          sl_head (sl_max_height sl - 1) [])"

definition FindLast :: "'k SkipList \<Rightarrow> nat option" where
  "FindLast sl =
     map_option fst (sl_descend sl (\<lambda>n. n \<noteq> None) sl_head (sl_max_height sl - 1) [])"

text \<open>Splicing the new node \<open>x\<close> in at level \<open>i\<close>.\<close>

definition sl_link :: "nat \<Rightarrow> nat list \<Rightarrow> nat \<Rightarrow> 'k SLNode list \<Rightarrow> 'k SLNode list" where
  "sl_link x prev i nodes =
     sl_SetNext (prev ! i) i (Some x) (sl_SetNext x i (sl_Next nodes (prev ! i) i) nodes)"

definition SkipList_Insert ::
    "('k \<Rightarrow> 'k \<Rightarrow> int) \<Rightarrow> (nat \<Rightarrow> nat) \<Rightarrow> 'k \<Rightarrow> 'k SkipList \<Rightarrow> 'k SkipList option" where
  "SkipList_Insert compare new_char key sl =
     (case FindGreaterOrEqual compare sl key (replicate kMaxHeight 0) of
        None \<Rightarrow> None
      | Some (x, prev) \<Rightarrow>
          (let (height, sl) = RandomHeight sl;
               (prev, sl) =
                 (if height > sl_max_height sl
                  then (fold (\<lambda>i p. p[i := sl_head]) [sl_max_height sl..<height] prev,
                        sl\<lparr> sl_max_height := height \<rparr>)
                  else (prev, sl));
               (x, sl) = NewNode new_char key height sl
           in Some (sl\<lparr> sl_nodes := fold (sl_link x prev) [0..<height] (sl_nodes sl) \<rparr>)))"

definition SkipList_Contains :: "('k \<Rightarrow> 'k \<Rightarrow> int) \<Rightarrow> 'k SkipList \<Rightarrow> 'k \<Rightarrow> bool option" where
  "SkipList_Contains compare sl key =
     (case FindGreaterOrEqual compare sl key [] of
        None \<Rightarrow> None
      | Some (x, _) \<Rightarrow>
          Some (case x of None \<Rightarrow> False | Some n \<Rightarrow> compare key (node_key (sl_nodes sl ! n)) = 0))"

text \<open>The iterator is its \<open>node_\<close>; \<^term>\<open>None\<close> is the null pointer.\<close>

type_synonym sl_iter = "nat option"

definition sl_iter_Valid :: "sl_iter \<Rightarrow> bool" where
  "sl_iter_Valid it = (it \<noteq> None)"

definition sl_iter_key :: "'k SkipList \<Rightarrow> sl_iter \<Rightarrow> 'k" where
  "sl_iter_key sl it = node_key (sl_nodes sl ! the it)"

definition sl_iter_Next :: "'k SkipList \<Rightarrow> sl_iter \<Rightarrow> sl_iter" where
  "sl_iter_Next sl it = sl_Next (sl_nodes sl) (the it) 0"

definition sl_iter_Prev :: "('k \<Rightarrow> 'k \<Rightarrow> int) \<Rightarrow> 'k SkipList \<Rightarrow> sl_iter \<Rightarrow> sl_iter option" where
  "sl_iter_Prev compare sl it =
     map_option (\<lambda>n. if n = sl_head then None else Some n)
       (FindLessThan compare sl (node_key (sl_nodes sl ! the it)))"

definition sl_iter_Seek :: "('k \<Rightarrow> 'k \<Rightarrow> int) \<Rightarrow> 'k SkipList \<Rightarrow> 'k \<Rightarrow> sl_iter option" where
  "sl_iter_Seek compare sl target = map_option fst (FindGreaterOrEqual compare sl target [])"

definition sl_iter_SeekToFirst :: "'k SkipList \<Rightarrow> sl_iter" where
  "sl_iter_SeekToFirst sl = sl_Next (sl_nodes sl) sl_head 0"

definition sl_iter_SeekToLast :: "'k SkipList \<Rightarrow> sl_iter option" where
  "sl_iter_SeekToLast sl = map_option (\<lambda>n. if n = sl_head then None else Some n) (FindLast sl)"

declare RandomHeight_loop.simps [simp del]

section \<open>Linked levels\<close>

definition sl_height :: "'k SLNode list \<Rightarrow> nat \<Rightarrow> nat" where
  "sl_height nodes n = length (node_next (nodes ! n))"

fun linked :: "'k SLNode list \<Rightarrow> nat \<Rightarrow> nat \<Rightarrow> nat list \<Rightarrow> bool" where
  "linked nodes i x [] = (sl_Next nodes x i = None)"
| "linked nodes i x (y # ys) = (sl_Next nodes x i = Some y \<and> linked nodes i y ys)"

fun hd_opt :: "'a list \<Rightarrow> 'a option" where
  "hd_opt [] = None"
| "hd_opt (x # _) = Some x"

abbreviation on_level :: "'k SLNode list \<Rightarrow> nat \<Rightarrow> nat list \<Rightarrow> nat list" where
  "on_level nodes i ns \<equiv> filter (\<lambda>n. i < sl_height nodes n) ns"

lemma linked_suffix: "linked nodes i x (u @ y # w) \<Longrightarrow> linked nodes i y w"
  by (induction u arbitrary: x) auto

lemma linked_next: "linked nodes i x ys \<Longrightarrow> sl_Next nodes x i = hd_opt ys"
  by (cases ys) auto

lemma linked_cong:
  "(\<And>n. n \<in> set (x # ys) \<Longrightarrow> sl_Next nodes' n i = sl_Next nodes n i) \<Longrightarrow>
   linked nodes' i x ys = linked nodes i x ys"
  by (induction ys arbitrary: x) auto

lemma linked_splice:
  assumes "linked nodes i x (u @ v)" "distinct (x # u @ v)" "new \<notin> set (x # u @ v)"
    and "sl_Next nodes' (last (x # u)) i = Some new"
    and "sl_Next nodes' new i = sl_Next nodes (last (x # u)) i"
    and "\<And>n. n \<in> set (x # u @ v) \<Longrightarrow> n \<noteq> last (x # u) \<Longrightarrow> sl_Next nodes' n i = sl_Next nodes n i"
  shows "linked nodes' i x (u @ new # v)"
  using assms
proof (induction u arbitrary: x)
  case Nil
  have "linked nodes' i new v"
  proof (cases v)
    case (Cons y ys)
    have "linked nodes' i y ys = linked nodes i y ys"
      using Nil.prems Cons by (intro linked_cong) auto
    then show ?thesis using Nil.prems Cons by auto
  qed (use Nil.prems in auto)
  then show ?case using Nil.prems by simp
next
  case (Cons y u)
  have "linked nodes' i y (u @ new # v)"
    using Cons.prems by (intro Cons.IH) auto
  moreover have "x \<noteq> last (x # y # u)" using Cons.prems(2) by (auto simp: last_in_set)
  then have "sl_Next nodes' x i = Some y" using Cons.prems(1) Cons.prems(6) [of x] by auto
  ultimately show ?case by simp
qed

section \<open>The shared search loop\<close>

text \<open>
  \<open>B\<close> are the nodes to pass and \<open>A\<close> the ones to stop at.  The search ends at the last node of
  \<open>B\<close>, and \<open>prev\<close> holds at each level the last node of \<open>B\<close> on that level.
\<close>

definition stops_at :: "(nat option \<Rightarrow> bool) \<Rightarrow> nat list \<Rightarrow> nat list \<Rightarrow> bool" where
  "stops_at advance B A \<longleftrightarrow>
     \<not> advance None \<and> (\<forall>n \<in> set B. advance (Some n)) \<and> (\<forall>n \<in> set A. \<not> advance (Some n))"

lemma descend_walk:
  assumes "linked (sl_nodes sl) i x (v @ a)" "stops_at advance v a"
  shows "sl_descend sl advance x i prev =
    (let y = last (x # v) in
     if i = 0 then Some (y, hd_opt a, prev[i := y]) else sl_descend sl advance y (i - 1) (prev[i := y]))"
  using assms
proof (induction v arbitrary: x)
  case Nil
  then have "\<not> advance (sl_Next (sl_nodes sl) x i)"
    by (cases a) (auto simp: stops_at_def)
  then show ?case using linked_next Nil.prems(1)
    by (subst sl_descend.simps) (simp add: Let_def linked_next)
next
  case (Cons y v)
  then have "sl_descend sl advance x i prev = sl_descend sl advance y i prev"
    by (subst sl_descend.simps) (simp add: stops_at_def Let_def)
  with Cons show ?case by (simp add: stops_at_def)
qed

lemma stops_at_filter: "stops_at advance B A \<Longrightarrow> stops_at advance (filter P B) (filter Q A)"
  by (auto simp: stops_at_def)

lemma stops_at_suffix: "stops_at advance (u @ v) A \<Longrightarrow> stops_at advance v A"
  by (auto simp: stops_at_def)

lemma level_walk:
  assumes "linked (sl_nodes sl) i 0 (u @ a)" "stops_at advance u a" "x \<in> set (0 # u)"
  shows "sl_descend sl advance x i prev =
    (let y = last (0 # u) in
     if i = 0 then Some (y, hd_opt a, prev[i := y]) else sl_descend sl advance y (i - 1) (prev[i := y]))"
proof (cases "x = 0")
  case True
  then show ?thesis using descend_walk assms(1,2) by blast
next
  case False
  with assms(3) obtain u1 v where u: "u = u1 @ x # v" by (auto simp: in_set_conv_decomp)
  with assms(1) have "linked (sl_nodes sl) i x (v @ a)"
    using linked_suffix [of "sl_nodes sl" i 0 u1 x "v @ a"] by simp
  moreover have "stops_at advance v a"
    using assms(2) stops_at_suffix [of advance "u1 @ [x]" v a] u by simp
  ultimately show ?thesis using descend_walk [of sl i x v a advance prev] u by simp
qed

lemma descend_correct:
  assumes "\<And>l. l \<le> i \<Longrightarrow> linked (sl_nodes sl) l 0 (on_level (sl_nodes sl) l (B @ A))"
    and "stops_at advance B A" "x \<in> set (0 # on_level (sl_nodes sl) i B)"
  shows "\<exists>prev'. sl_descend sl advance x i prev =
      Some (last (0 # on_level (sl_nodes sl) 0 B), hd_opt (on_level (sl_nodes sl) 0 A), prev') \<and>
      length prev' = length prev \<and>
      (\<forall>l < length prev. prev' ! l = (if l \<le> i then last (0 # on_level (sl_nodes sl) l B) else prev ! l))"
  using assms
proof (induction i arbitrary: x prev)
  case 0
  have lk: "linked (sl_nodes sl) 0 0 (on_level (sl_nodes sl) 0 B @ on_level (sl_nodes sl) 0 A)"
    using "0.prems"(1) [of 0] by simp
  show ?case
    using level_walk [OF lk stops_at_filter [OF "0.prems"(2)] "0.prems"(3), of prev]
    by (auto simp: Let_def nth_list_update)
next
  case (Suc i)
  let ?y = "last (0 # on_level (sl_nodes sl) (Suc i) B)"
  have lk: "linked (sl_nodes sl) (Suc i) 0 (on_level (sl_nodes sl) (Suc i) B @ on_level (sl_nodes sl) (Suc i) A)"
    using Suc.prems(1) [of "Suc i"] by simp
  have step: "sl_descend sl advance x (Suc i) prev = sl_descend sl advance ?y i (prev[Suc i := ?y])"
    using level_walk [OF lk stops_at_filter [OF Suc.prems(2)] Suc.prems(3), of prev] by (simp add: Let_def)
  have "?y \<in> set (0 # on_level (sl_nodes sl) (Suc i) B)" by (rule last_in_set) simp
  then have "?y \<in> set (0 # on_level (sl_nodes sl) i B)" by auto
  from Suc.IH [OF _ Suc.prems(2) this, of "prev[Suc i := ?y]"] Suc.prems(1) obtain prev' where
    p: "sl_descend sl advance ?y i (prev[Suc i := ?y]) =
        Some (last (0 # on_level (sl_nodes sl) 0 B), hd_opt (on_level (sl_nodes sl) 0 A), prev')"
      "length prev' = length prev"
      "\<forall>l < length prev. prev' ! l =
         (if l \<le> i then last (0 # on_level (sl_nodes sl) l B) else prev[Suc i := ?y] ! l)" by auto
  show ?case unfolding step p(1) using p(2,3) by (auto simp: nth_list_update le_Suc_eq)
qed

section \<open>The invariant\<close>

definition sl_inv :: "('k \<Rightarrow> 'k \<Rightarrow> int) \<Rightarrow> 'k SkipList \<Rightarrow> nat list \<Rightarrow> bool" where
  "sl_inv cmp sl ns \<longleftrightarrow>
     sl_nodes sl \<noteq> [] \<and> sl_height (sl_nodes sl) 0 = kMaxHeight \<and>
     distinct ns \<and> set ns = {1..<length (sl_nodes sl)} \<and>
     (\<forall>n \<in> set ns. 0 < sl_height (sl_nodes sl) n \<and> sl_height (sl_nodes sl) n \<le> sl_max_height sl) \<and>
     0 < sl_max_height sl \<and> sl_max_height sl \<le> kMaxHeight \<and>
     (\<forall>i < kMaxHeight. linked (sl_nodes sl) i 0 (on_level (sl_nodes sl) i ns)) \<and>
     sorted_wrt (\<lambda>a b. cmp (node_key (sl_nodes sl ! a)) (node_key (sl_nodes sl ! b)) < 0) ns"

definition sl_keys :: "'k SkipList \<Rightarrow> nat list \<Rightarrow> 'k list" where
  "sl_keys sl ns = map (\<lambda>n. node_key (sl_nodes sl ! n)) ns"

lemma on_level_0:
  "sl_inv cmp sl ns \<Longrightarrow> set xs \<subseteq> set ns \<Longrightarrow> on_level (sl_nodes sl) 0 xs = xs"
  by (auto simp: sl_inv_def filter_id_conv)

lemma sl_inv_descend:
  assumes inv: "sl_inv cmp sl (B @ A)" and stop: "stops_at advance B A"
  shows "\<exists>prev'. sl_descend sl advance 0 (sl_max_height sl - 1) prev = Some (last (0 # B), hd_opt A, prev') \<and>
      length prev' = length prev \<and>
      (\<forall>l < length prev. prev' ! l =
         (if l < sl_max_height sl then last (0 # on_level (sl_nodes sl) l B) else prev ! l))"
proof -
  have "linked (sl_nodes sl) l 0 (on_level (sl_nodes sl) l (B @ A))" if "l \<le> sl_max_height sl - 1" for l
    using inv that unfolding sl_inv_def by (metis (no_types, lifting) Suc_pred' le_imp_less_Suc order_less_le_trans)
  from descend_correct [OF this stop, where x = 0 and prev = prev] obtain prev' where
    p: "sl_descend sl advance 0 (sl_max_height sl - 1) prev =
      Some (last (0 # on_level (sl_nodes sl) 0 B), hd_opt (on_level (sl_nodes sl) 0 A), prev')"
      "length prev' = length prev"
      "\<forall>l < length prev. prev' ! l =
         (if l \<le> sl_max_height sl - 1 then last (0 # on_level (sl_nodes sl) l B) else prev ! l)" by auto
  have "l \<le> sl_max_height sl - 1 \<longleftrightarrow> l < sl_max_height sl" for l
    using inv by (auto simp: sl_inv_def)
  with p on_level_0 [OF inv, of B] on_level_0 [OF inv, of A] show ?thesis by auto
qed

lemma RandomHeight_loop_range:
  "1 \<le> h \<Longrightarrow> h \<le> kMaxHeight \<Longrightarrow> 1 \<le> fst (RandomHeight_loop h r) \<and> fst (RandomHeight_loop h r) \<le> kMaxHeight"
  by (induction h r rule: RandomHeight_loop.induct)
     (subst (1 2) RandomHeight_loop.simps, auto split: prod.splits)

lemma RandomHeight_range: "RandomHeight sl = (h, sl') \<Longrightarrow> 1 \<le> h \<and> h \<le> kMaxHeight"
  using RandomHeight_loop_range [of 1 "sl_rnd sl"] by (auto simp: RandomHeight_def kMaxHeight_def split: prod.splits)

section \<open>Splicing\<close>

lemma sl_Next_SetNext:
  assumes "x < length nodes" "i < sl_height nodes x"
  shows "sl_Next (sl_SetNext x i p nodes) y j = (if y = x \<and> j = i then p else sl_Next nodes y j)"
  using assms by (auto simp: sl_Next_def sl_SetNext_def sl_height_def nth_list_update)

lemma sl_SetNext_simps [simp]:
  "length (sl_SetNext x i p nodes) = length nodes"
  "sl_height (sl_SetNext x i p nodes) y = sl_height nodes y"
  "node_key (sl_SetNext x i p nodes ! y) = node_key (nodes ! y)"
  by (auto simp: sl_SetNext_def sl_height_def nth_list_update list_update_beyond)
     (cases "x < length nodes"; simp add: nth_list_update list_update_beyond)+

lemma sl_link_simps [simp]:
  "length (sl_link x prev i nodes) = length nodes"
  "sl_height (sl_link x prev i nodes) y = sl_height nodes y"
  "node_key (sl_link x prev i nodes ! y) = node_key (nodes ! y)"
  by (simp_all add: sl_link_def)

lemma fold_link_simps [simp]:
  "length (fold (sl_link x prev) is nodes) = length nodes"
  "sl_height (fold (sl_link x prev) is nodes) y = sl_height nodes y"
  "node_key (fold (sl_link x prev) is nodes ! y) = node_key (nodes ! y)"
  by (induction "is" arbitrary: nodes) simp_all

lemma sl_link_Next:
  assumes "x < length nodes" "i < sl_height nodes x" "prev ! i < length nodes"
    "i < sl_height nodes (prev ! i)" "prev ! i \<noteq> x"
  shows "sl_Next (sl_link x prev i nodes) y j =
    (if y = prev ! i \<and> j = i then Some x
     else if y = x \<and> j = i then sl_Next nodes (prev ! i) i else sl_Next nodes y j)"
  unfolding sl_link_def using assms by (simp add: sl_Next_SetNext)

lemma fold_link_Next:
  assumes "x < length nodes" "h \<le> sl_height nodes x"
    and "\<And>i. i < h \<Longrightarrow> prev ! i < length nodes \<and> i < sl_height nodes (prev ! i) \<and> prev ! i \<noteq> x"
  shows "sl_Next (fold (sl_link x prev) [0..<h] nodes) y j =
    (if j < h \<and> y = prev ! j then Some x
     else if j < h \<and> y = x then sl_Next nodes (prev ! j) j else sl_Next nodes y j)"
  using assms(2,3)
proof (induction h arbitrary: y j)
  case (Suc h)
  let ?n = "fold (sl_link x prev) [0..<h] nodes"
  have IH: "sl_Next ?n y j =
    (if j < h \<and> y = prev ! j then Some x
     else if j < h \<and> y = x then sl_Next nodes (prev ! j) j else sl_Next nodes y j)" for y j
    using Suc.prems by (intro Suc.IH) auto
  have p: "prev ! h < length nodes" "h < sl_height nodes (prev ! h)" "prev ! h \<noteq> x"
    using Suc.prems(2) [of h] by auto
  have "sl_Next (sl_link x prev h ?n) y j =
    (if y = prev ! h \<and> j = h then Some x
     else if y = x \<and> j = h then sl_Next ?n (prev ! h) h else sl_Next ?n y j)"
    using p assms(1) Suc.prems(1) by (intro sl_link_Next) auto
  then show ?case using IH p by (auto simp: less_Suc_eq)
qed simp

lemma fold_update_nth:
  "b \<le> length p \<Longrightarrow> length (fold (\<lambda>i p. p[i := v]) [a..<b] p) = length p \<and>
   (\<forall>l < length p. fold (\<lambda>i p. p[i := v]) [a..<b] p ! l = (if a \<le> l \<and> l < b then v else p ! l))"
  by (induction b) (auto simp: nth_list_update less_Suc_eq)

lemma append_node_simps:
  "n < length nodes \<Longrightarrow> sl_height (nodes @ [d]) n = sl_height nodes n"
  "n < length nodes \<Longrightarrow> sl_Next (nodes @ [d]) n i = sl_Next nodes n i"
  "sl_height (nodes @ [d]) (length nodes) = length (node_next d)"
  by (simp_all add: sl_height_def sl_Next_def nth_append)

text \<open>Splicing node \<open>length nodes\<close> of height \<open>h\<close> between \<open>B\<close> and \<open>A\<close> keeps every level linked.\<close>

lemma splice_levels:
  assumes lk: "\<And>i. i < kMaxHeight \<Longrightarrow> linked nodes i 0 (on_level nodes i (B @ A))"
    and nodes: "nodes \<noteq> []" "sl_height nodes 0 = kMaxHeight" "distinct (B @ A)"
      "set (B @ A) = {1..<length nodes}"
    and h: "h \<le> kMaxHeight" "length (node_next d) = h"
    and prev: "\<And>l. l < h \<Longrightarrow> prev ! l = last (0 # on_level nodes l B)"
    and i: "i < kMaxHeight"
  defines "x \<equiv> length nodes"
  defines "nodes' \<equiv> fold (sl_link x prev) [0..<h] (nodes @ [d])"
  shows "linked nodes' i 0 (on_level nodes' i (B @ x # A))"
proof -
  have old: "n < length nodes" if "n \<in> set (0 # B @ A)" for n using that nodes by auto
  have ht: "sl_height nodes' n = sl_height nodes n" if "n \<in> set (0 # B @ A)" for n
    using old [OF that] by (simp add: nodes'_def append_node_simps)
  have htx: "sl_height nodes' x = h" by (simp add: nodes'_def x_def append_node_simps h)
  have lev: "on_level nodes' i B = on_level nodes i B" "on_level nodes' i A = on_level nodes i A"
    using ht by (auto intro!: filter_cong)
  have prev_in: "prev ! l \<in> set (0 # on_level nodes l B)" if "l < h" for l
    unfolding prev [OF that] by (rule last_in_set) simp
  have next': "sl_Next nodes' y j = (if j < h \<and> y = prev ! j then Some x
      else if j < h \<and> y = x then sl_Next (nodes @ [d]) (prev ! j) j else sl_Next (nodes @ [d]) y j)" for y j
    unfolding nodes'_def
  proof (rule fold_link_Next)
    fix l assume l: "l < h"
    have "prev ! l < length nodes" using old prev_in [OF l] by auto
    moreover have "l < sl_height nodes (prev ! l)" using prev_in [OF l] nodes(2) l h(1) by auto
    ultimately show "prev ! l < length (nodes @ [d]) \<and> l < sl_height (nodes @ [d]) (prev ! l) \<and> prev ! l \<noteq> x"
      by (simp add: append_node_simps x_def)
  qed (simp_all add: x_def append_node_simps h)
  have lk2: "linked (nodes @ [d]) i 0 (on_level nodes i (B @ A))"
  proof -
    have "linked (nodes @ [d]) i 0 (on_level nodes i (B @ A)) = linked nodes i 0 (on_level nodes i (B @ A))"
      by (rule linked_cong, rule append_node_simps(2), rule old) auto
    then show ?thesis using lk [OF i] by blast
  qed
  show ?thesis
  proof (cases "i < h")
    case True
    have "linked nodes' i 0 (on_level nodes i B @ x # on_level nodes i A)"
    proof (rule linked_splice)
      show "linked (nodes @ [d]) i 0 (on_level nodes i B @ on_level nodes i A)" using lk2 by simp
      have "0 \<notin> set (B @ A)" using nodes(4) by simp
      then show "distinct (0 # on_level nodes i B @ on_level nodes i A)" using nodes(3) by auto
      show nx: "x \<notin> set (0 # on_level nodes i B @ on_level nodes i A)" using old by (auto simp: x_def)
      show "sl_Next nodes' (last (0 # on_level nodes i B)) i = Some x"
        using True prev next' by simp
      show "sl_Next nodes' x i = sl_Next (nodes @ [d]) (last (0 # on_level nodes i B)) i"
        using True prev next' prev_in [OF True] nx by auto
      show "sl_Next nodes' n i = sl_Next (nodes @ [d]) n i"
        if "n \<in> set (0 # on_level nodes i B @ on_level nodes i A)" "n \<noteq> last (0 # on_level nodes i B)" for n
        using that True prev next' nx by auto
    qed
    then show ?thesis using True htx lev by simp
  next
    case False
    then have "linked nodes' i 0 (on_level nodes i (B @ A)) = linked (nodes @ [d]) i 0 (on_level nodes i (B @ A))"
      by (intro linked_cong) (simp add: next')
    then have "linked nodes' i 0 (on_level nodes i (B @ A))" using lk2 by blast
    then show ?thesis using False htx lev by simp
  qed
qed

section \<open>Operations against the sorted list of keys\<close>

locale skip_list = three_way cmp for cmp :: "'k \<Rightarrow> 'k \<Rightarrow> int"
begin

abbreviation below :: "'k SkipList \<Rightarrow> 'k \<Rightarrow> nat \<Rightarrow> bool" where
  "below sl k n \<equiv> cmp (node_key (sl_nodes sl ! n)) k < 0"

lemma dropWhile_not_below:
  assumes "sl_inv cmp sl ns" "n \<in> set (dropWhile (below sl k) ns)"
  shows "\<not> below sl k n"
proof -
  from assms(2) obtain a as where d: "dropWhile (below sl k) ns = a # as" "\<not> below sl k a"
    by (metis list.set_cases hd_dropWhile list.sel(1) list.distinct(1))
  have "sorted_wrt (\<lambda>a b. cmp (node_key (sl_nodes sl ! a)) (node_key (sl_nodes sl ! b)) < 0) (a # as)"
    using assms(1) unfolding sl_inv_def d(1) [symmetric] by (metis sorted_wrt_dropWhile)
  then have "n = a \<or> cmp (node_key (sl_nodes sl ! a)) (node_key (sl_nodes sl ! n)) < 0"
    using assms(2) d(1) by auto
  then show ?thesis using d(2) cmp_less_trans by blast
qed

lemma stops_below:
  assumes "sl_inv cmp sl ns"
  shows "stops_at (KeyIsAfterNode cmp sl k) (takeWhile (below sl k) ns) (dropWhile (below sl k) ns)"
  unfolding stops_at_def KeyIsAfterNode_def
  by (auto dest: set_takeWhileD dropWhile_not_below [OF assms])

lemma descend_below:
  assumes "sl_inv cmp sl ns"
  obtains prev' where "sl_descend sl (KeyIsAfterNode cmp sl k) 0 (sl_max_height sl - 1) prev =
      Some (last (0 # takeWhile (below sl k) ns), hd_opt (dropWhile (below sl k) ns), prev')"
    "length prev' = length prev"
    "\<And>l. l < length prev \<Longrightarrow> prev' ! l =
       (if l < sl_max_height sl then last (0 # on_level (sl_nodes sl) l (takeWhile (below sl k) ns))
        else prev ! l)"
proof -
  have "sl_inv cmp sl (takeWhile (below sl k) ns @ dropWhile (below sl k) ns)" using assms by simp
  from sl_inv_descend [OF this stops_below [OF assms], of prev] show thesis using that by blast
qed

lemma FindGreaterOrEqual_correct:
  assumes "sl_inv cmp sl ns"
  obtains prev' where "FindGreaterOrEqual cmp sl k prev = Some (hd_opt (dropWhile (below sl k) ns), prev')"
    "length prev' = length prev"
    "\<And>l. l < length prev \<Longrightarrow> prev' ! l =
       (if l < sl_max_height sl then last (0 # on_level (sl_nodes sl) l (takeWhile (below sl k) ns))
        else prev ! l)"
proof -
  obtain prev' where "sl_descend sl (KeyIsAfterNode cmp sl k) 0 (sl_max_height sl - 1) prev =
      Some (last (0 # takeWhile (below sl k) ns), hd_opt (dropWhile (below sl k) ns), prev')"
    "length prev' = length prev"
    "\<And>l. l < length prev \<Longrightarrow> prev' ! l =
       (if l < sl_max_height sl then last (0 # on_level (sl_nodes sl) l (takeWhile (below sl k) ns))
        else prev ! l)"
    using descend_below [OF assms] by blast
  then show thesis by (intro that [of prev']) (simp_all add: FindGreaterOrEqual_def)
qed

lemma FindLessThan_correct:
  assumes "sl_inv cmp sl ns"
  shows "FindLessThan cmp sl k = Some (last (0 # takeWhile (below sl k) ns))"
proof -
  have "(\<lambda>n. \<not> (case n of None \<Rightarrow> True | Some m \<Rightarrow> cmp (node_key (sl_nodes sl ! m)) k \<ge> 0)) =
      KeyIsAfterNode cmp sl k"
    by (auto simp: KeyIsAfterNode_def fun_eq_iff split: option.splits)
  moreover obtain prev' where "sl_descend sl (KeyIsAfterNode cmp sl k) 0 (sl_max_height sl - 1) [] =
      Some (last (0 # takeWhile (below sl k) ns), hd_opt (dropWhile (below sl k) ns), prev')"
    using descend_below [OF assms] by blast
  ultimately show ?thesis by (simp add: FindLessThan_def)
qed

lemma FindLast_correct:
  assumes "sl_inv cmp sl ns"
  shows "FindLast sl = Some (last (0 # ns))"
proof -
  have "stops_at (\<lambda>n. n \<noteq> None) ns []" by (auto simp: stops_at_def)
  from sl_inv_descend [OF _ this, of cmp sl "[]"] assms show ?thesis
    by (auto simp: FindLast_def simp del: last.simps)
qed


lemma sorted_insert:
  assumes inv: "sl_inv cmp sl ns" and fresh: "\<forall>n \<in> set ns. cmp (node_key (sl_nodes sl ! n)) k \<noteq> 0"
    and key: "\<And>n. n \<in> set ns \<Longrightarrow> key n = node_key (sl_nodes sl ! n)" "key x = k"
  shows "sorted_wrt (\<lambda>a b. cmp (key a) (key b) < 0)
           (takeWhile (below sl k) ns @ x # dropWhile (below sl k) ns)"
proof -
  let ?B = "takeWhile (below sl k) ns" and ?A = "dropWhile (below sl k) ns"
  have "sorted_wrt (\<lambda>a b. cmp (node_key (sl_nodes sl ! a)) (node_key (sl_nodes sl ! b)) < 0) (?B @ ?A)"
    using inv by (simp add: sl_inv_def)
  then have "sorted_wrt (\<lambda>a b. cmp (key a) (key b) < 0) (?B @ ?A)"
    by (rule sorted_wrt_mono_rel [rotated]) (auto simp: key dest: set_takeWhileD set_dropWhileD)
  moreover have "cmp (key b) k < 0" if "b \<in> set ?B" for b
    using that key by (auto dest: set_takeWhileD)
  moreover have "cmp k (key a) < 0" if a: "a \<in> set ?A" for a
    using dropWhile_not_below [OF inv a] fresh set_dropWhileD [OF a] key cmp_neg [of k "key a"] by fastforce
  ultimately show ?thesis using key(2) cmp_less_trans [of _ k]
    by (auto simp: sorted_wrt_append simp del: takeWhile_dropWhile_id)
qed

lemma Insert_correct:
  assumes inv: "sl_inv cmp sl ns" and fresh: "\<forall>n \<in> set ns. cmp (node_key (sl_nodes sl ! n)) k \<noteq> 0"
  defines "x \<equiv> length (sl_nodes sl)"
  defines "ns' \<equiv> takeWhile (below sl k) ns @ x # dropWhile (below sl k) ns"
  shows "\<exists>sl'. SkipList_Insert cmp new_char k sl = Some sl' \<and> sl_inv cmp sl' ns' \<and>
           (\<forall>n \<in> set ns. node_key (sl_nodes sl' ! n) = node_key (sl_nodes sl ! n)) \<and>
           node_key (sl_nodes sl' ! x) = k"
proof -
  let ?B = "takeWhile (below sl k) ns" and ?A = "dropWhile (below sl k) ns"
  let ?m = "sl_max_height sl" and ?nodes = "sl_nodes sl"
  obtain prev where find: "FindGreaterOrEqual cmp sl k (replicate kMaxHeight 0) = Some (hd_opt ?A, prev)"
    and lp: "length prev = kMaxHeight"
    and prev: "\<And>l. l < kMaxHeight \<Longrightarrow> l < ?m \<Longrightarrow> prev ! l = last (0 # on_level ?nodes l ?B)"
    using FindGreaterOrEqual_correct [OF inv, of k "replicate kMaxHeight 0"] by (metis length_replicate)
  obtain h r where hr: "RandomHeight_loop 1 (sl_rnd sl) = (h, r)" by fastforce
  have h: "1 \<le> h" "h \<le> kMaxHeight"
    using RandomHeight_loop_range [of 1 "sl_rnd sl"] hr by (auto simp: kMaxHeight_def)
  define prev1 where "prev1 = (if h > ?m then fold (\<lambda>i p. p[i := 0]) [?m..<h] prev else prev)"
  define d where "d = \<lparr> node_key = k, node_next = replicate h None \<rparr>"
  define nodes' where "nodes' = fold (sl_link x prev1) [0..<h] (?nodes @ [d])"
  define sl' where "sl' = \<lparr> sl_nodes = nodes', sl_max_height = max h ?m, sl_rnd = r,
      sl_arena = snd (AllocateAligned new_char (16 + 8 * (h - 1)) (sl_arena sl)), \<dots> = SkipList.more sl \<rparr>"
  have ins: "SkipList_Insert cmp new_char k sl = Some sl'"
    using find hr
    by (simp add: SkipList_Insert_def RandomHeight_def NewNode_def Let_def sl'_def nodes'_def prev1_def
        d_def x_def max_def)
  have prev1: "prev1 ! l = last (0 # on_level ?nodes l ?B)" if l: "l < h" for l
  proof (cases "l < ?m")
    case True
    then show ?thesis
      using prev [of l] l h lp fold_update_nth [of h prev 0 ?m] by (auto simp: prev1_def simp del: last.simps)
  next
    case False
    have "sl_height ?nodes n \<le> ?m" if "n \<in> set ?B" for n
      using set_takeWhileD [OF that] inv unfolding sl_inv_def by blast
    with False have "on_level ?nodes l ?B = []" unfolding filter_empty_conv by fastforce
    moreover have "prev1 ! l = 0"
      using False l h lp fold_update_nth [of h prev 0 ?m] by (auto simp: prev1_def)
    ultimately show ?thesis by simp
  qed
  have sns: "set ns = {1..<x}" using inv by (simp add: sl_inv_def x_def)
  then have old: "\<And>n. n \<in> set ns \<Longrightarrow> 0 < n \<and> n < x" by simp
  have key: "node_key (nodes' ! n) = node_key (?nodes ! n)" if "n \<in> set ns" for n
    using old [OF that] by (simp add: nodes'_def nth_append x_def)
  have keyx: "node_key (nodes' ! x) = k" by (simp add: nodes'_def x_def d_def)
  have ht: "sl_height nodes' n = sl_height ?nodes n" if "n < x" for n
    using that by (simp add: nodes'_def append_node_simps x_def)
  have htx: "sl_height nodes' x = h" by (simp add: nodes'_def append_node_simps x_def d_def)
  have x0: "0 < x" using inv by (simp add: sl_inv_def x_def)
  have lev: "linked nodes' i 0 (on_level nodes' i ns')" if "i < kMaxHeight" for i
    unfolding nodes'_def ns'_def x_def
    by (rule splice_levels) (use inv h prev1 that in \<open>simp_all add: sl_inv_def d_def\<close>)
  have parts: "set (?B @ ?A) = set ns" "distinct (?B @ ?A)" using inv by (simp_all add: sl_inv_def)
  then have set': "set ns' = insert x (set ns)" unfolding ns'_def set_append list.set by blast
  have "x \<notin> set (?B @ ?A)" using old parts(1) by blast
  with parts(2) have dist': "distinct ns'" unfolding ns'_def distinct_append distinct.simps set_append list.set
    by blast
  have "sl_inv cmp sl' ns'"
    unfolding sl_inv_def
  proof (intro conjI)
    show "sorted_wrt (\<lambda>a b. cmp (node_key (sl_nodes sl' ! a)) (node_key (sl_nodes sl' ! b)) < 0) ns'"
      unfolding ns'_def by (rule sorted_insert [OF inv fresh]) (simp_all add: sl'_def key keyx)
    show "set ns' = {1..<length (sl_nodes sl')}"
    proof -
      have "length (sl_nodes sl') = Suc x" by (simp add: sl'_def nodes'_def x_def)
      then show ?thesis using set' sns x0 by auto
    qed
    have "sl_height ?nodes n \<le> ?m \<and> 0 < sl_height ?nodes n" if "n \<in> set ns" for n
      using inv that unfolding sl_inv_def by blast
    then show "\<forall>n \<in> set ns'. 0 < sl_height (sl_nodes sl') n \<and> sl_height (sl_nodes sl') n \<le> sl_max_height sl'"
      unfolding set' using old ht htx h by (auto simp: sl'_def le_max_iff_disj)
    show "sl_nodes sl' \<noteq> []"
      by (simp add: sl'_def nodes'_def length_greater_0_conv [symmetric] del: length_greater_0_conv)
    show "sl_height (sl_nodes sl') 0 = kMaxHeight"
      using inv ht [OF x0] by (simp add: sl'_def sl_inv_def)
    show "0 < sl_max_height sl'" "sl_max_height sl' \<le> kMaxHeight"
      using h inv by (auto simp: sl'_def sl_inv_def)
  qed (use lev dist' in \<open>simp_all add: sl'_def\<close>)
  then show ?thesis using ins key keyx by (auto simp: sl'_def)
qed


lemma Contains_correct:
  assumes "sl_inv cmp sl ns"
  shows "SkipList_Contains cmp sl k = Some (\<exists>n \<in> set ns. cmp (node_key (sl_nodes sl ! n)) k = 0)"
proof -
  let ?A = "dropWhile (below sl k) ns"
  obtain p where f: "FindGreaterOrEqual cmp sl k [] = Some (hd_opt ?A, p)"
    using FindGreaterOrEqual_correct [OF assms] by blast
  have sorted: "sorted_wrt (\<lambda>a b. cmp (node_key (sl_nodes sl ! a)) (node_key (sl_nodes sl ! b)) < 0) ?A"
    using assms by (simp add: sl_inv_def sorted_wrt_dropWhile)
  have "(\<exists>n \<in> set ns. cmp (node_key (sl_nodes sl ! n)) k = 0) \<longleftrightarrow>
      (\<exists>n \<in> set ?A. cmp (node_key (sl_nodes sl ! n)) k = 0)"
    by (metis (mono_tags, lifting) less_irrefl set_dropWhileD set_takeWhileD takeWhile_dropWhile_id
        UnE set_append)
  also have "\<dots> \<longleftrightarrow> (case hd_opt ?A of None \<Rightarrow> False | Some n \<Rightarrow> cmp k (node_key (sl_nodes sl ! n)) = 0)"
  proof (cases ?A)
    case (Cons a as)
    have "\<not> below sl k a" using dropWhile_not_below [OF assms, of a k] Cons by simp
    moreover have "cmp (node_key (sl_nodes sl ! a)) (node_key (sl_nodes sl ! b)) < 0" if "b \<in> set as" for b
      using sorted Cons that by simp
    ultimately have "cmp (node_key (sl_nodes sl ! b)) k \<noteq> 0" if "b \<in> set as" for b
      using that cmp_zero_right by blast
    then show ?thesis using Cons cmp_zero_sym by auto
  next
    case Nil
    then show ?thesis unfolding Nil by simp
  qed
  finally show ?thesis using f by (simp add: SkipList_Contains_def)
qed

lemma takeWhile_keys:
  "takeWhile (\<lambda>x. cmp x k < 0) (sl_keys sl ns) = sl_keys sl (takeWhile (below sl k) ns)"
  "dropWhile (\<lambda>x. cmp x k < 0) (sl_keys sl ns) = sl_keys sl (dropWhile (below sl k) ns)"
  by (simp_all add: sl_keys_def takeWhile_map dropWhile_map o_def)

end

text \<open>What a skip list holds: the keys in the order of their nodes on level 0.\<close>

definition sl_holds :: "('k \<Rightarrow> 'k \<Rightarrow> int) \<Rightarrow> 'k SkipList \<Rightarrow> 'k list \<Rightarrow> bool" where
  "sl_holds cmp sl keys \<longleftrightarrow> (\<exists>ns. sl_inv cmp sl ns \<and> keys = sl_keys sl ns)"

definition insert_key :: "('k \<Rightarrow> 'k \<Rightarrow> int) \<Rightarrow> 'k \<Rightarrow> 'k list \<Rightarrow> 'k list" where
  "insert_key cmp k keys = takeWhile (\<lambda>x. cmp x k < 0) keys @ k # dropWhile (\<lambda>x. cmp x k < 0) keys"

text \<open>The iterator positioned at the \<open>j\<close>-th key; past the end it is invalid.\<close>

definition at_pos :: "nat list \<Rightarrow> nat \<Rightarrow> sl_iter" where
  "at_pos ns j = (if j < length ns then Some (ns ! j) else None)"

lemma hd_opt_dropWhile: "hd_opt (dropWhile P xs) = at_pos xs (length (takeWhile P xs))"
  by (induction xs) (auto simp: at_pos_def)

lemma new_head_nodes:
  "fold (\<lambda>i. sl_SetNext 0 i None) [0..<kMaxHeight]
     [\<lparr> node_key = k, node_next = replicate kMaxHeight None \<rparr>] =
   [\<lparr> node_key = k, node_next = replicate kMaxHeight None \<rparr>]"
proof -
  have "fold (\<lambda>i. sl_SetNext 0 i None) is [\<lparr> node_key = k, node_next = replicate h None \<rparr>] =
     [\<lparr> node_key = k, node_next = replicate h None \<rparr>]" for "is" h
  proof (induction "is")
    case (Cons i "is")
    have "(replicate h (None :: nat option))[i := None] = replicate h None"
      by (cases "i < h") (metis list_update_id nth_replicate, simp add: list_update_beyond)
    then show ?case using Cons by (simp add: sl_SetNext_def)
  qed simp
  then show ?thesis .
qed

lemma SkipList_new_holds: "sl_holds cmp (SkipList_new new_char k0 arena) []"
proof -
  have "sl_nodes (SkipList_new new_char k0 arena) = [\<lparr> node_key = k0, node_next = replicate kMaxHeight None \<rparr>]"
    "sl_max_height (SkipList_new new_char k0 arena) = 1"
    by (simp_all add: SkipList_new_def NewNode_def Let_def new_head_nodes)
  then have "sl_inv cmp (SkipList_new new_char k0 arena) []"
    by (simp add: sl_inv_def sl_height_def sl_Next_def) (simp add: kMaxHeight_def)
  then show ?thesis by (auto simp: sl_holds_def sl_keys_def)
qed

context skip_list
begin

lemma insert_holds:
  assumes "sl_holds cmp sl keys" "\<forall>x \<in> set keys. cmp x k \<noteq> 0"
  shows "\<exists>sl'. SkipList_Insert cmp new_char k sl = Some sl' \<and> sl_holds cmp sl' (insert_key cmp k keys)"
proof -
  from assms(1) obtain ns where ns: "sl_inv cmp sl ns" "keys = sl_keys sl ns" by (auto simp: sl_holds_def)
  let ?ns = "takeWhile (below sl k) ns @ length (sl_nodes sl) # dropWhile (below sl k) ns"
  obtain sl' where sl': "SkipList_Insert cmp new_char k sl = Some sl'" "sl_inv cmp sl' ?ns"
    "\<forall>n \<in> set ns. node_key (sl_nodes sl' ! n) = node_key (sl_nodes sl ! n)"
    "node_key (sl_nodes sl' ! length (sl_nodes sl)) = k"
    using Insert_correct [OF ns(1), of k new_char] assms(2) ns(2) by (auto simp: sl_keys_def)
  have "sl_keys sl' ?ns = insert_key cmp k keys"
    unfolding insert_key_def ns(2) takeWhile_keys using sl'(3,4)
    by (auto simp: sl_keys_def dest: set_takeWhileD set_dropWhileD)
  with sl' show ?thesis by (metis sl_holds_def)
qed

lemma contains_holds:
  "sl_holds cmp sl keys \<Longrightarrow> SkipList_Contains cmp sl k = Some (\<exists>x \<in> set keys. cmp x k = 0)"
  using Contains_correct by (auto simp: sl_holds_def sl_keys_def)

lemma takeWhile_below_nth:
  assumes "sl_inv cmp sl ns" "j < length ns"
  shows "takeWhile (below sl (node_key (sl_nodes sl ! (ns ! j)))) ns = take j ns"
proof (rule takeWhile_eq_take_P_nth)
  have s: "sorted_wrt (\<lambda>a b. cmp (node_key (sl_nodes sl ! a)) (node_key (sl_nodes sl ! b)) < 0) ns"
    using assms(1) by (simp add: sl_inv_def)
  show "below sl (node_key (sl_nodes sl ! (ns ! j))) (ns ! i)" if "i < j" "i < length ns" for i
    using s that assms(2) by (auto simp: sorted_wrt_iff_nth_less)
qed auto

lemma iter_holds:
  assumes "sl_inv cmp sl ns"
  shows "sl_iter_SeekToFirst sl = at_pos ns 0"
    and "sl_iter_Seek cmp sl k = Some (at_pos ns (length (takeWhile (\<lambda>x. cmp x k < 0) (sl_keys sl ns))))"
    and "sl_iter_SeekToLast sl = Some (if ns = [] then None else at_pos ns (length ns - 1))"
    and "j < length ns \<Longrightarrow> sl_iter_key sl (at_pos ns j) = sl_keys sl ns ! j"
    and "j < length ns \<Longrightarrow> sl_iter_Next sl (at_pos ns j) = at_pos ns (Suc j)"
    and "j < length ns \<Longrightarrow> sl_iter_Prev cmp sl (at_pos ns j) = Some (if j = 0 then None else at_pos ns (j - 1))"
proof -
  have lk: "linked (sl_nodes sl) 0 0 ns"
  proof -
    have "linked (sl_nodes sl) 0 0 (on_level (sl_nodes sl) 0 ns)"
      using assms unfolding sl_inv_def kMaxHeight_def by (meson zero_less_numeral)
    then show ?thesis by (simp add: on_level_0 [OF assms])
  qed
  have nz: "\<And>n. n \<in> set ns \<Longrightarrow> n \<noteq> 0" using assms by (auto simp: sl_inv_def)
  show "sl_iter_SeekToFirst sl = at_pos ns 0"
    using linked_next [OF lk] by (cases ns) (auto simp: sl_iter_SeekToFirst_def at_pos_def)
  obtain p where "FindGreaterOrEqual cmp sl k [] = Some (hd_opt (dropWhile (below sl k) ns), p)"
    using FindGreaterOrEqual_correct [OF assms] by blast
  then show "sl_iter_Seek cmp sl k = Some (at_pos ns (length (takeWhile (\<lambda>x. cmp x k < 0) (sl_keys sl ns))))"
    by (simp add: sl_iter_Seek_def hd_opt_dropWhile takeWhile_keys(1)) (simp add: sl_keys_def)
  show "sl_iter_SeekToLast sl = Some (if ns = [] then None else at_pos ns (length ns - 1))"
    using FindLast_correct [OF assms] nz [OF last_in_set]
    by (cases "ns = []") (auto simp: sl_iter_SeekToLast_def at_pos_def last_conv_nth)
  assume j: "j < length ns"
  show "sl_iter_key sl (at_pos ns j) = sl_keys sl ns ! j"
    using j by (simp add: sl_iter_key_def at_pos_def sl_keys_def)
  have "linked (sl_nodes sl) 0 (ns ! j) (drop (Suc j) ns)"
    using linked_suffix [of "sl_nodes sl" 0 0 "take j ns" "ns ! j" "drop (Suc j) ns"] lk j
    by (simp add: id_take_nth_drop [symmetric])
  moreover have "hd_opt (drop (Suc j) ns) = at_pos ns (Suc j)"
    by (cases "Suc j < length ns") (simp_all add: at_pos_def Cons_nth_drop_Suc [symmetric])
  ultimately show "sl_iter_Next sl (at_pos ns j) = at_pos ns (Suc j)"
    using j linked_next by (fastforce simp: sl_iter_Next_def at_pos_def)
  have "FindLessThan cmp sl (node_key (sl_nodes sl ! (ns ! j))) = Some (last (0 # take j ns))"
    using FindLessThan_correct [OF assms] takeWhile_below_nth [OF assms j] by simp
  then show "sl_iter_Prev cmp sl (at_pos ns j) = Some (if j = 0 then None else at_pos ns (j - 1))"
  proof (cases j)
    case (Suc i)
    then have "last (take j ns) = ns ! i" "ns ! i \<in> set ns" using j by (simp_all add: take_Suc_conv_app_nth)
    then show ?thesis using j Suc nz [of "ns ! i"]
      \<open>FindLessThan cmp sl (node_key (sl_nodes sl ! (ns ! j))) = Some (last (0 # take j ns))\<close>
      by (auto simp: sl_iter_Prev_def at_pos_def)
  qed (use j in \<open>simp add: sl_iter_Prev_def at_pos_def\<close>)
qed

end


interpretation bytewise_list: skip_list "Compare BytewiseComparator"
  by unfold_locales

section \<open>Properties\<close>

text \<open>
  C21: insertion into a skip list is insertion into a sorted list.  For every total preorder on
  keys and every well-formed list, inserting a key not equal to any present terminates, whatever
  height the generator draws, and leaves a well-formed list holding the old keys with the new one
  at its place.
\<close>

theorem skiplist_insert:
  assumes "three_way cmp" "sl_holds cmp sl keys" "\<forall>x \<in> set keys. cmp x k \<noteq> 0"
  shows "\<exists>sl'. SkipList_Insert cmp new_char k sl = Some sl' \<and> sl_holds cmp sl' (insert_key cmp k keys)"
  using skip_list.insert_holds [OF skip_list.intro [OF assms(1)] assms(2,3)] .

theorem skiplist_insert_witness:
  "\<exists>sl'. SkipList_Insert (Compare BytewiseComparator) (\<lambda>i. 8192 * i) [5]
           (SkipList_new (\<lambda>i. 8192 * i) [] Arena_new) = Some sl' \<and>
         sl_holds (Compare BytewiseComparator) sl' [[5]]"
  using skiplist_insert [OF bytewise.three_way_axioms,
      of "SkipList_new (\<lambda>i. 8192 * i) [] Arena_new" "[]" "[5]" "\<lambda>i. 8192 * i"]
  by (simp add: insert_key_def SkipList_new_holds)

text \<open>
  C22: lookup.  \<open>Contains\<close> on a well-formed list terminates and tells whether an equal key is held.
\<close>

theorem skiplist_contains:
  assumes "three_way cmp" "sl_holds cmp sl keys"
  shows "SkipList_Contains cmp sl k = Some (\<exists>x \<in> set keys. cmp x k = 0)"
  using skip_list.contains_holds [OF skip_list.intro [OF assms(1)] assms(2)] .

theorem skiplist_contains_witness:
  "SkipList_Contains (Compare BytewiseComparator) (SkipList_new (\<lambda>i. 8192 * i) [] Arena_new) [5] = Some False"
  using skiplist_contains [OF bytewise.three_way_axioms,
      of "SkipList_new (\<lambda>i. 8192 * i) [] Arena_new" "[]" "[5]"] by (simp add: SkipList_new_holds)

text \<open>
  The iterator is a cursor over the sorted keys.  On a well-formed list \<open>SeekToFirst\<close>,
  \<open>SeekToLast\<close> and \<open>Seek\<close> position it at the first key, the last key and the first key not
  below the target; from a valid position \<open>Next\<close> and \<open>Prev\<close> move by one and become invalid past
  the ends; all of them terminate.
\<close>

theorem skiplist_iterator:
  assumes "three_way cmp" "sl_inv cmp sl ns"
  shows "sl_iter_SeekToFirst sl = at_pos ns 0 \<and>
    sl_iter_SeekToLast sl = Some (if ns = [] then None else at_pos ns (length ns - 1)) \<and>
    sl_iter_Seek cmp sl k = Some (at_pos ns (length (takeWhile (\<lambda>x. cmp x k < 0) (sl_keys sl ns)))) \<and>
    (\<forall>j < length ns.
       sl_iter_key sl (at_pos ns j) = sl_keys sl ns ! j \<and>
       sl_iter_Next sl (at_pos ns j) = at_pos ns (Suc j) \<and>
       sl_iter_Prev cmp sl (at_pos ns j) = Some (if j = 0 then None else at_pos ns (j - 1)))"
  using skip_list.iter_holds [OF skip_list.intro [OF assms(1)] assms(2)] by blast

theorem skiplist_iterator_witness:
  "\<exists>ns. sl_inv (Compare BytewiseComparator) (SkipList_new (\<lambda>i. 8192 * i) [] Arena_new) ns \<and>
        sl_iter_SeekToFirst (SkipList_new (\<lambda>i. 8192 * i) ([] :: slice) Arena_new) = at_pos ns 0"
proof -
  obtain ns where "sl_inv (Compare BytewiseComparator) (SkipList_new (\<lambda>i. 8192 * i) [] Arena_new) ns"
    using SkipList_new_holds [of "Compare BytewiseComparator" "\<lambda>i. 8192 * i" "[]" Arena_new]
    unfolding sl_holds_def by blast
  with skiplist_iterator [OF bytewise.three_way_axioms this] show ?thesis by blast
qed

end
