(* ===== verification/Bloom.thy ===== *)
theory Bloom
  imports Coding Slice
begin

text \<open>
  \<open>util/hash.cc\<close>, \<open>include/leveldb/filter_policy.h\<close> and \<open>util/bloom.cc\<close>.  A filter policy is
  the record of its virtual functions, its contract the locale \<open>filter_policy\<close>.
\<close>

section \<open>Definitions\<close>

text \<open>The multiplication and the exclusive or with the seed are done at the width of \<open>size_t\<close>.\<close>

definition Hash_tail :: "slice \<Rightarrow> u32 \<Rightarrow> u32" where
  "Hash_tail data h =
     (let m = 0xc6a4a793; n = length data;
          h3 = (if n = 3 then h + push_bit 16 (ucast (data ! 2)) else h);
          h2 = (if n = 3 \<or> n = 2 then h3 + push_bit 8 (ucast (data ! 1)) else h3)
      in if n = 3 \<or> n = 2 \<or> n = 1
         then (let h1 = (h2 + ucast (data ! 0)) * m in h1 XOR drop_bit 24 h1)
         else h2)"

function Hash_loop :: "slice \<Rightarrow> u32 \<Rightarrow> u32" where
  "Hash_loop data h =
     (if 4 \<le> length data then
        (let w = DecodeFixed32 data; h1 = (h + w) * 0xc6a4a793
         in Hash_loop (drop 4 data) (h1 XOR drop_bit 16 h1))
      else Hash_tail data h)"
  by pat_completeness auto
termination
  by (relation "measure (\<lambda>(data, h). length data)") auto

definition Hash :: "slice \<Rightarrow> u32 \<Rightarrow> u32" where
  "Hash data seed =
     Hash_loop data (ucast (((ucast seed) XOR (of_nat (length data) * 0xc6a4a793)) :: u64))"

record FilterPolicy =
  FilterName :: slice
  CreateFilter :: "slice list \<Rightarrow> slice \<Rightarrow> slice"
  KeyMayMatch :: "slice \<Rightarrow> slice \<Rightarrow> bool"

definition BloomHash :: "slice \<Rightarrow> u32" where
  "BloomHash key = Hash key 0xbc9f1d34"

text \<open>
  The constructor's \<open>k_\<close>.  The product with the \<open>double\<close> 0.69 is only ever an integer at
  multiples of 100, where the upper clamp already applies, so rounding down the exact quotient
  gives the same number.
\<close>

definition Bloom_k :: "nat \<Rightarrow> nat" where
  "Bloom_k bits_per_key =
     (let k = bits_per_key * 69 div 100; k = (if k < 1 then 1 else k) in if k > 30 then 30 else k)"

definition Bloom_delta :: "u32 \<Rightarrow> u32" where
  "Bloom_delta h = drop_bit 17 h OR push_bit 15 h"

primrec Bloom_set_probes :: "nat \<Rightarrow> nat \<Rightarrow> u32 \<Rightarrow> u32 \<Rightarrow> slice \<Rightarrow> slice" where
  "Bloom_set_probes bits 0 h delta array = array"
| "Bloom_set_probes bits (Suc j) h delta array =
     (let bitpos = unat h mod bits
      in Bloom_set_probes bits j (h + delta) delta
           (array[bitpos div 8 := array ! (bitpos div 8) OR push_bit (bitpos mod 8) 1]))"

primrec Bloom_set_keys :: "nat \<Rightarrow> nat \<Rightarrow> slice list \<Rightarrow> slice \<Rightarrow> slice" where
  "Bloom_set_keys bits k [] array = array"
| "Bloom_set_keys bits k (key # keys) array =
     Bloom_set_keys bits k keys
       (Bloom_set_probes bits k (BloomHash key) (Bloom_delta (BloomHash key)) array)"

text \<open>The array the probes write is the tail of \<open>dst\<close>, followed there by the probe count.\<close>

definition Bloom_CreateFilter :: "nat \<Rightarrow> slice list \<Rightarrow> slice \<Rightarrow> slice" where
  "Bloom_CreateFilter bits_per_key keys dst =
     (let k = Bloom_k bits_per_key;
          bits = length keys * bits_per_key;
          bits = (if bits < 64 then 64 else bits);
          bytes = (bits + 7) div 8;
          bits = bytes * 8
      in dst @ Bloom_set_keys bits k keys (replicate bytes 0 @ [of_nat k]))"

primrec Bloom_test_probes :: "nat \<Rightarrow> nat \<Rightarrow> u32 \<Rightarrow> u32 \<Rightarrow> slice \<Rightarrow> bool" where
  "Bloom_test_probes bits 0 h delta array = True"
| "Bloom_test_probes bits (Suc j) h delta array =
     (let bitpos = unat h mod bits
      in if array ! (bitpos div 8) AND push_bit (bitpos mod 8) 1 = 0 then False
         else Bloom_test_probes bits j (h + delta) delta array)"

definition Bloom_KeyMayMatch :: "slice \<Rightarrow> slice \<Rightarrow> bool" where
  "Bloom_KeyMayMatch key bloom_filter =
     (let len = length bloom_filter in
      if len < 2 then False
      else (let bits = (len - 1) * 8;
                k = unat (bloom_filter ! (len - 1))
            in if k > 30 then True
               else Bloom_test_probes bits k (BloomHash key) (Bloom_delta (BloomHash key)) bloom_filter))"

definition NewBloomFilterPolicy :: "nat \<Rightarrow> FilterPolicy" where
  "NewBloomFilterPolicy bits_per_key =
     \<lparr> FilterName = ascii ''leveldb.BuiltinBloomFilter2'',
       CreateFilter = Bloom_CreateFilter bits_per_key,
       KeyMayMatch = Bloom_KeyMayMatch \<rparr>"

declare Hash_loop.simps [simp del]

section \<open>The contract of a filter policy\<close>

text \<open>
  The comment in \<open>filter_policy.h\<close>: the filter is appended to \<open>dst\<close>, and every key that was
  passed in matches it.
\<close>

locale filter_policy =
  fixes p :: FilterPolicy
  assumes create_appends: "CreateFilter p keys dst = dst @ CreateFilter p keys []"
    and may_match: "key \<in> set keys \<Longrightarrow> KeyMayMatch p key (CreateFilter p keys [])"
begin

lemma created_part_matches:
  "key \<in> set keys \<Longrightarrow> KeyMayMatch p key (drop (length dst) (CreateFilter p keys dst))"
  by (subst create_appends) (simp add: may_match)

end

section \<open>The Bloom filter\<close>

definition probes_set :: "nat \<Rightarrow> nat \<Rightarrow> u32 \<Rightarrow> u32 \<Rightarrow> slice \<Rightarrow> bool" where
  "probes_set bits k h delta array \<longleftrightarrow>
     (\<forall>j<k. let bitpos = unat (h + of_nat j * delta) mod bits
            in bit (array ! (bitpos div 8)) (bitpos mod 8))"

lemma probes_set_Suc:
  "probes_set bits (Suc k) h delta array \<longleftrightarrow>
     bit (array ! (unat h mod bits div 8)) (unat h mod bits mod 8) \<and>
     probes_set bits k (h + delta) delta array"
  by (simp add: probes_set_def All_less_Suc2 Let_def algebra_simps)

lemma byte_test_bit:
  assumes "k < 8"
  shows "(b :: byte) AND 2 ^ k = 0 \<longleftrightarrow> \<not> bit b k"
proof
  assume "b AND 2 ^ k = 0"
  then have "\<not> bit (b AND 2 ^ k) k" by simp
  then show "\<not> bit b k" using assms by (simp add: bit_simps)
next
  assume "\<not> bit b k"
  then show "b AND 2 ^ k = 0" by (intro bit_word_eqI) (auto simp: bit_simps)
qed

lemma Bloom_test_probes_iff:
  "Bloom_test_probes bits k h delta array \<longleftrightarrow> probes_set bits k h delta array"
proof (induction k arbitrary: h)
  case (Suc k)
  then show ?case by (simp add: probes_set_Suc Let_def byte_test_bit)
qed (simp add: probes_set_def)

lemma length_Bloom_set_probes [simp]: "length (Bloom_set_probes bits k h delta a) = length a"
  by (induction k arbitrary: h a) (simp_all add: Let_def)

lemma length_Bloom_set_keys [simp]: "length (Bloom_set_keys bits k keys a) = length a"
  by (induction keys arbitrary: a) simp_all

lemma list_update_or_mono: "bit (a ! i) m \<Longrightarrow> bit (a[j := a ! j OR v] ! i) m" for a :: slice
  by (cases "j < length a") (auto simp: nth_list_update bit_or_iff list_update_beyond)

lemma Bloom_set_probes_mono: "bit (a ! i) m \<Longrightarrow> bit (Bloom_set_probes bits k h delta a ! i) m"
proof (induction k arbitrary: h a)
  case (Suc k)
  then show ?case
    by (simp add: Let_def list_update_or_mono)
qed simp

lemma Bloom_set_keys_mono: "bit (a ! i) m \<Longrightarrow> bit (Bloom_set_keys bits k keys a ! i) m"
  by (induction keys arbitrary: a) (simp_all add: Bloom_set_probes_mono)

lemma Bloom_set_probes_set:
  assumes "bits = 8 * bytes" "0 < bytes" "bytes \<le> length a"
  shows "probes_set bits k h delta (Bloom_set_probes bits k h delta a)"
  using assms
proof (induction k arbitrary: h a)
  case (Suc k)
  let ?p = "unat h mod bits"
  let ?a = "a[?p div 8 := a ! (?p div 8) OR push_bit (?p mod 8) 1]"
  have "?p div 8 < bytes" using Suc.prems by (simp add: less_mult_imp_div_less mult.commute)
  then have "bit (?a ! (?p div 8)) (?p mod 8)"
    using Suc.prems by (simp add: bit_or_iff bit_exp_iff)
  then have "bit (Bloom_set_probes bits k (h + delta) delta ?a ! (?p div 8)) (?p mod 8)"
    by (rule Bloom_set_probes_mono)
  moreover have "probes_set bits k (h + delta) delta (Bloom_set_probes bits k (h + delta) delta ?a)"
    using Suc.prems by (intro Suc.IH) auto
  ultimately show ?case by (simp add: probes_set_Suc Let_def)
qed (simp add: probes_set_def)

lemma Bloom_set_keys_set:
  assumes "bits = 8 * bytes" "0 < bytes" "bytes \<le> length a" "key \<in> set keys"
  shows "probes_set bits k (BloomHash key) (Bloom_delta (BloomHash key)) (Bloom_set_keys bits k keys a)"
  using assms(3,4)
proof (induction keys arbitrary: a)
  case (Cons x keys)
  show ?case
  proof (cases "key \<in> set keys")
    case True
    with Cons show ?thesis by simp
  next
    case False
    with Cons.prems have "x = key" by simp
    with Bloom_set_probes_set [OF assms(1,2) Cons.prems(1), of k "BloomHash key" "Bloom_delta (BloomHash key)"]
    show ?thesis by (simp add: probes_set_def Let_def Bloom_set_keys_mono)
  qed
qed simp

lemma Bloom_set_probes_append:
  assumes "bits = 8 * length a" "a \<noteq> []"
  shows "Bloom_set_probes bits k h delta (a @ t) = Bloom_set_probes bits k h delta a @ t"
  using assms
proof (induction k arbitrary: h a)
  case (Suc k)
  have "unat h mod bits div 8 < length a"
    using Suc.prems by (simp add: less_mult_imp_div_less mult.commute)
  moreover have "a[j := v] \<noteq> []" for j v using Suc.prems by simp
  ultimately show ?case using Suc.prems Suc.IH [of "a[j := v]" for j v]
    by (simp add: Let_def list_update_append nth_append)
qed simp

lemma Bloom_set_keys_append:
  "bits = 8 * length a \<Longrightarrow> a \<noteq> [] \<Longrightarrow>
   Bloom_set_keys bits k keys (a @ t) = Bloom_set_keys bits k keys a @ t"
proof (induction keys arbitrary: a)
  case (Cons x keys)
  have "Bloom_set_probes bits k h d a \<noteq> []" for h d
    using Cons.prems by (metis length_0_conv length_Bloom_set_probes)
  with Cons.IH [of "Bloom_set_probes bits k h d a" for h d] Cons.prems
  show ?case by (simp add: Bloom_set_probes_append)
qed simp

lemma Bloom_k_range: "1 \<le> Bloom_k b" "Bloom_k b \<le> 30"
  by (simp_all add: Bloom_k_def Let_def)

lemma Bloom_filter_shape:
  obtains a where "Bloom_CreateFilter b keys dst = dst @ a @ [of_nat (Bloom_k b)]"
    and "8 \<le> length a"
    and "\<And>key. key \<in> set keys \<Longrightarrow>
           probes_set (8 * length a) (Bloom_k b) (BloomHash key) (Bloom_delta (BloomHash key))
             (a @ [of_nat (Bloom_k b)])"
proof -
  define bits where "bits = (if length keys * b < 64 then 64 else length keys * b)"
  define bytes where "bytes = (bits + 7) div 8"
  define a where "a = Bloom_set_keys (8 * bytes) (Bloom_k b) keys (replicate bytes 0)"
  have "64 \<le> bits" by (simp add: bits_def)
  then have n: "8 \<le> bytes" unfolding bytes_def by linarith
  have eq: "Bloom_set_keys (8 * bytes) (Bloom_k b) keys (replicate bytes 0 @ [of_nat (Bloom_k b)])
      = a @ [of_nat (Bloom_k b)]"
    unfolding a_def using n by (intro Bloom_set_keys_append) auto
  have "length a = bytes" by (simp add: a_def)
  moreover have "Bloom_CreateFilter b keys dst = dst @ a @ [of_nat (Bloom_k b)]"
    unfolding eq [symmetric] by (simp add: Bloom_CreateFilter_def Let_def bits_def bytes_def mult.commute)
  moreover have "probes_set (8 * bytes) (Bloom_k b) (BloomHash key) (Bloom_delta (BloomHash key))
             (a @ [of_nat (Bloom_k b)])" if "key \<in> set keys" for key
    unfolding eq [symmetric] using n that by (intro Bloom_set_keys_set) auto
  ultimately show thesis using that n by metis
qed

lemma Bloom_no_false_negative:
  assumes "key \<in> set keys"
  shows "Bloom_KeyMayMatch key (Bloom_CreateFilter b keys [])"
proof -
  obtain a where a: "Bloom_CreateFilter b keys [] = a @ [of_nat (Bloom_k b)]" "8 \<le> length a"
    "probes_set (8 * length a) (Bloom_k b) (BloomHash key) (Bloom_delta (BloomHash key))
       (a @ [of_nat (Bloom_k b)])"
    using Bloom_filter_shape [of b keys "[]"] assms by (metis append_Nil)
  have "unat (of_nat (Bloom_k b) :: byte) = Bloom_k b"
    using Bloom_k_range [of b] by (intro of_nat_unat_small) simp
  with a show ?thesis
    using Bloom_k_range [of b]
    by (auto simp: Bloom_KeyMayMatch_def Let_def Bloom_test_probes_iff mult.commute)
qed

lemma Bloom_CreateFilter_append: "Bloom_CreateFilter b keys dst = dst @ Bloom_CreateFilter b keys []"
  by (simp add: Bloom_CreateFilter_def Let_def)

interpretation bloom: filter_policy "NewBloomFilterPolicy b" for b
proof unfold_locales
  fix keys dst
  show "CreateFilter (NewBloomFilterPolicy b) keys dst = dst @ CreateFilter (NewBloomFilterPolicy b) keys []"
    unfolding NewBloomFilterPolicy_def FilterPolicy.simps by (rule Bloom_CreateFilter_append)
qed (simp add: NewBloomFilterPolicy_def Bloom_no_false_negative)

section \<open>Properties\<close>

text \<open>
  C16: no false negatives.  Whatever the number of bits per key and whatever the buffer already
  holds, every key given to \<open>CreateFilter\<close> is reported as a possible match by \<open>KeyMayMatch\<close> on
  the filter it appended.
\<close>

theorem bloom_no_false_negatives:
  assumes "key \<in> set keys"
  shows "KeyMayMatch (NewBloomFilterPolicy bits_per_key) key
           (drop (length dst) (CreateFilter (NewBloomFilterPolicy bits_per_key) keys dst))"
  using assms by (rule bloom.created_part_matches)

theorem bloom_no_false_negatives_witness:
  "KeyMayMatch (NewBloomFilterPolicy 10) [104, 105]
     (drop 1 (CreateFilter (NewBloomFilterPolicy 10) [[1], [104, 105]] [7]))"
  using bloom_no_false_negatives [of "[104, 105]" "[[1], [104, 105]]" 10 "[7]"] by simp

end
