(* ===== verification/DbFormat.thy ===== *)
theory DbFormat
  imports Coding Comparator Bloom
begin

text \<open>
  \<open>db/dbformat.h\<close> and \<open>db/dbformat.cc\<close>: internal keys (user key, sequence number, type), the
  order on them, the filter policy wrapper and the lookup key.
\<close>

section \<open>Definitions\<close>

definition kNumLevels :: nat where "kNumLevels = 7"
definition kL0_CompactionTrigger :: nat where "kL0_CompactionTrigger = 4"
definition kL0_SlowdownWritesTrigger :: nat where "kL0_SlowdownWritesTrigger = 8"
definition kL0_StopWritesTrigger :: nat where "kL0_StopWritesTrigger = 12"
definition kMaxMemCompactLevel :: nat where "kMaxMemCompactLevel = 2"
definition kReadBytesPeriod :: nat where "kReadBytesPeriod = 1048576"

datatype ValueType = kTypeDeletion | kTypeValue

fun ValueType_num :: "ValueType \<Rightarrow> u64" where
  "ValueType_num kTypeDeletion = 0x0"
| "ValueType_num kTypeValue = 0x1"

definition kValueTypeForSeek :: ValueType where
  "kValueTypeForSeek = kTypeValue"

type_synonym SequenceNumber = u64

definition kMaxSequenceNumber :: SequenceNumber where
  "kMaxSequenceNumber = push_bit 56 1 - 1"

record ParsedInternalKey =
  user_key :: slice
  sequence :: SequenceNumber
  ikey_type :: ValueType

definition InternalKeyEncodingLength :: "ParsedInternalKey \<Rightarrow> nat" where
  "InternalKeyEncodingLength key = length (user_key key) + 8"

definition PackSequenceAndType :: "u64 \<Rightarrow> ValueType \<Rightarrow> u64" where
  "PackSequenceAndType seq t = push_bit 8 seq OR ValueType_num t"

definition AppendInternalKey :: "slice \<Rightarrow> ParsedInternalKey \<Rightarrow> slice" where
  "AppendInternalKey result key =
     PutFixed64 (result @ user_key key) (PackSequenceAndType (sequence key) (ikey_type key))"

text \<open>\<^const>\<open>None\<close> is the result \<open>false\<close>.\<close>

definition ParseInternalKey :: "slice \<Rightarrow> ParsedInternalKey option" where
  "ParseInternalKey internal_key =
     (let n = length internal_key in
      if n < 8 then None
      else (let num = DecodeFixed64 (drop (n - 8) internal_key);
                c = (ucast (num AND 0xff) :: byte)
            in if c \<le> 1
               then Some \<lparr> user_key = take (n - 8) internal_key, sequence = drop_bit 8 num,
                           ikey_type = (if c = 0 then kTypeDeletion else kTypeValue) \<rparr>
               else None))"

definition ExtractUserKey :: "slice \<Rightarrow> slice" where
  "ExtractUserKey internal_key = take (length internal_key - 8) internal_key"

text \<open>The 64-bit trailer both comparison functions decode.\<close>

definition ikey_num :: "slice \<Rightarrow> u64" where
  "ikey_num key = DecodeFixed64 (drop (length key - 8) key)"

definition InternalKey_Compare :: "Comparator \<Rightarrow> slice \<Rightarrow> slice \<Rightarrow> int" where
  "InternalKey_Compare user_comparator akey bkey =
     (let r = Compare user_comparator (ExtractUserKey akey) (ExtractUserKey bkey) in
      if r = 0 then
        (let anum = ikey_num akey; bnum = ikey_num bkey
         in if anum > bnum then -1 else if anum < bnum then 1 else r)
      else r)"

definition InternalKey_FindShortestSeparator :: "Comparator \<Rightarrow> slice \<Rightarrow> slice \<Rightarrow> slice" where
  "InternalKey_FindShortestSeparator user_comparator start limit =
     (let user_start = ExtractUserKey start;
          user_limit = ExtractUserKey limit;
          tmp = FindShortestSeparator user_comparator user_start user_limit
      in if length tmp < length user_start \<and> Compare user_comparator user_start tmp < 0
         then PutFixed64 tmp (PackSequenceAndType kMaxSequenceNumber kValueTypeForSeek)
         else start)"

definition InternalKey_FindShortSuccessor :: "Comparator \<Rightarrow> slice \<Rightarrow> slice" where
  "InternalKey_FindShortSuccessor user_comparator key =
     (let ukey = ExtractUserKey key;
          tmp = FindShortSuccessor user_comparator ukey
      in if length tmp < length ukey \<and> Compare user_comparator ukey tmp < 0
         then PutFixed64 tmp (PackSequenceAndType kMaxSequenceNumber kValueTypeForSeek)
         else key)"

definition InternalKeyComparator :: "Comparator \<Rightarrow> Comparator" where
  "InternalKeyComparator user_comparator =
     \<lparr> Compare = InternalKey_Compare user_comparator,
       FindShortestSeparator = InternalKey_FindShortestSeparator user_comparator,
       FindShortSuccessor = InternalKey_FindShortSuccessor user_comparator,
       Name = ascii ''leveldb.InternalKeyComparator'' \<rparr>"

definition InternalFilterPolicy :: "FilterPolicy \<Rightarrow> FilterPolicy" where
  "InternalFilterPolicy user_policy =
     \<lparr> FilterName = FilterName user_policy,
       CreateFilter = (\<lambda>keys dst. CreateFilter user_policy (map ExtractUserKey keys) dst),
       KeyMayMatch = (\<lambda>key f. KeyMayMatch user_policy (ExtractUserKey key) f) \<rparr>"

text \<open>\<open>InternalKey\<close> holds the encoding \<open>rep_\<close>; the empty string is the invalid key.\<close>

type_synonym InternalKey = slice

definition InternalKey_new :: "slice \<Rightarrow> SequenceNumber \<Rightarrow> ValueType \<Rightarrow> InternalKey" where
  "InternalKey_new ukey s t = AppendInternalKey [] \<lparr> user_key = ukey, sequence = s, ikey_type = t \<rparr>"

definition InternalKey_DecodeFrom :: "slice \<Rightarrow> InternalKey option" where
  "InternalKey_DecodeFrom s = (if s \<noteq> [] then Some s else None)"

text \<open>\<open>start_\<close> to \<open>end_\<close> as one buffer, \<open>kstart_\<close> as an offset into it.\<close>

record LookupKey =
  lk_buf :: slice
  lk_kstart :: nat

definition LookupKey_new :: "slice \<Rightarrow> SequenceNumber \<Rightarrow> LookupKey" where
  "LookupKey_new ukey s =
     (let pre = EncodeVarint32 (of_nat (length ukey + 8))
      in \<lparr> lk_buf = pre @ ukey @ EncodeFixed64 (PackSequenceAndType s kValueTypeForSeek),
           lk_kstart = length pre \<rparr>)"

definition memtable_key :: "LookupKey \<Rightarrow> slice" where
  "memtable_key k = lk_buf k"

definition internal_key :: "LookupKey \<Rightarrow> slice" where
  "internal_key k = drop (lk_kstart k) (lk_buf k)"

definition LookupKey_user_key :: "LookupKey \<Rightarrow> slice" where
  "LookupKey_user_key k =
     take (length (lk_buf k) - lk_kstart k - 8) (drop (lk_kstart k) (lk_buf k))"

section \<open>Packing\<close>

lemma ValueType_num_le: "unat (ValueType_num t) \<le> 1"
  by (cases t) auto

lemma bit_ValueType_num: "bit (ValueType_num t) n \<longleftrightarrow> n = 0 \<and> t = kTypeValue"
  by (cases t) (auto simp: bit_1_iff)

lemma unat_kMaxSequenceNumber: "unat kMaxSequenceNumber = 2 ^ 56 - 1"
  by (simp add: kMaxSequenceNumber_def push_bit_eq_mult)

lemma seq_le_max: "seq \<le> kMaxSequenceNumber \<longleftrightarrow> unat seq < 2 ^ 56"
  using unat_kMaxSequenceNumber by (simp add: word_le_nat_alt, linarith)

lemma drop_bit_Pack:
  assumes "seq \<le> kMaxSequenceNumber"
  shows "drop_bit 8 (PackSequenceAndType seq t) = seq"
proof (rule bit_word_eqI)
  fix n assume "n < LENGTH(64)"
  have "n < 56" if "bit seq n"
    using that assms word_lt_2p_not_bit [of seq 56 n] unfolding seq_le_max by linarith
  then show "bit (drop_bit 8 (PackSequenceAndType seq t)) n = bit seq n"
    by (auto simp: PackSequenceAndType_def bit_simps bit_ValueType_num)
qed

lemma low_byte_Pack:
  "(ucast (PackSequenceAndType seq t AND 0xff) :: byte) = ucast (ValueType_num t)"
proof (rule bit_word_eqI)
  fix n assume n: "n < LENGTH(8)"
  have "bit (0xff :: u64) n" if "n < 8"
  proof -
    have "(0xff :: u64) = mask 8" by (simp add: mask_eq_exp_minus_1)
    then show ?thesis using that by (simp only: bit_mask_iff) simp
  qed
  with n show "bit (ucast (PackSequenceAndType seq t AND 0xff) :: byte) n = bit (ucast (ValueType_num t) :: byte) n"
    by (auto simp: PackSequenceAndType_def bit_ValueType_num bit_or_iff bit_and_iff bit_push_bit_iff
        bit_unsigned_iff simp del: bit_numeral_word_iff)
qed

lemma unat_Pack:
  assumes "seq \<le> kMaxSequenceNumber"
  shows "unat (PackSequenceAndType seq t) = unat seq * 256 + unat (ValueType_num t)"
proof -
  have "push_bit 8 seq AND ValueType_num t = 0"
    by (intro bit_word_eqI) (auto simp: bit_and_iff bit_push_bit_iff bit_ValueType_num)
  then have "PackSequenceAndType seq t = push_bit 8 seq + ValueType_num t"
    by (simp add: PackSequenceAndType_def disjunctive_add_eq_or)
  then have "PackSequenceAndType seq t = of_nat (unat seq * 256 + unat (ValueType_num t))"
    by (simp add: push_bit_eq_mult)
  moreover have "unat seq * 256 + unat (ValueType_num t) < 2 ^ 64"
    using assms ValueType_num_le [of t] unfolding seq_le_max by simp
  ultimately show ?thesis by (simp only: unat_u64_of_nat)
qed

lemma ikey_parts [simp]:
  "ExtractUserKey (u @ EncodeFixed64 n) = u"
  "ikey_num (u @ EncodeFixed64 n) = n"
  using DecodeFixed64_append [of n "[]"] by (simp_all add: ExtractUserKey_def ikey_num_def)

lemma ikey_split:
  assumes "8 \<le> length k"
  shows "k = ExtractUserKey k @ EncodeFixed64 (ikey_num k)"
  using assms EncodeFixed64_DecodeFixed64 [of "drop (length k - 8) k"]
  by (simp add: ExtractUserKey_def ikey_num_def)

lemma AppendInternalKey_eq:
  "AppendInternalKey r k = (r @ user_key k) @ EncodeFixed64 (PackSequenceAndType (sequence k) (ikey_type k))"
  by (simp add: AppendInternalKey_def PutFixed64_def)

lemma ExtractUserKey_Append [simp]: "ExtractUserKey (AppendInternalKey [] k) = user_key k"
  by (simp add: AppendInternalKey_eq)

lemma length_AppendInternalKey: "length (AppendInternalKey r k) = length r + InternalKeyEncodingLength k"
  by (simp add: AppendInternalKey_eq InternalKeyEncodingLength_def)

lemma ParseInternalKey_Append:
  assumes "sequence k \<le> kMaxSequenceNumber"
  shows "ParseInternalKey (AppendInternalKey [] k) = Some k"
proof -
  have "DecodeFixed64 (EncodeFixed64 n) = n" for n
    using DecodeFixed64_append [of n "[]"] by simp
  then show ?thesis using drop_bit_Pack [OF assms] low_byte_Pack [of "sequence k" "ikey_type k"]
    by (cases "ikey_type k") (simp_all add: ParseInternalKey_def AppendInternalKey_eq Let_def)
qed

lemma Pack_drop_bit:
  assumes c: "(ucast (num AND 0xff) :: byte) = ucast (ValueType_num t)"
  shows "PackSequenceAndType (drop_bit 8 num) t = num"
proof (rule bit_word_eqI)
  fix n assume n: "n < LENGTH(64)"
  have "(0xff :: u64) = mask 8" by (simp add: mask_eq_exp_minus_1)
  then have m: "bit (0xff :: u64) i \<longleftrightarrow> i < 8" for i
    by (simp only: bit_mask_iff) auto
  have "bit (ucast (num AND 0xff) :: byte) n = bit (ucast (ValueType_num t) :: byte) n"
    using c by simp
  then have "n < 8 \<Longrightarrow> bit num n = (n = 0 \<and> t = kTypeValue)"
    using m [of n] by (simp add: bit_and_iff bit_unsigned_iff bit_ValueType_num del: bit_numeral_word_iff)
  then show "bit (PackSequenceAndType (drop_bit 8 num) t) n = bit num n"
    using n by (cases "n < 8") (auto simp: PackSequenceAndType_def bit_simps bit_ValueType_num)
qed

lemma ParseInternalKey_Some:
  assumes "ParseInternalKey s = Some k"
  shows "AppendInternalKey [] k = s \<and> sequence k \<le> kMaxSequenceNumber"
proof -
  let ?num = "ikey_num s" let ?c = "ucast (?num AND 0xff) :: byte"
  from assms have 8: "8 \<le> length s" and c: "?c \<le> 1"
    and k: "k = \<lparr> user_key = ExtractUserKey s, sequence = drop_bit 8 ?num,
       ikey_type = (if ?c = 0 then kTypeDeletion else kTypeValue) \<rparr>"
    by (auto simp: ParseInternalKey_def Let_def ikey_num_def ExtractUserKey_def split: if_splits)
  have "?c = 0 \<or> ?c = 1" using c by (simp add: word_le_nat_alt word_unat_eq_iff) linarith
  then have "?c = ucast (ValueType_num (ikey_type k))" using k by auto
  then have "PackSequenceAndType (sequence k) (ikey_type k) = ?num"
    using k Pack_drop_bit by simp
  moreover have "unat (drop_bit 8 ?num) < 2 ^ 56"
    using unsigned_less [of ?num, where ?'a = nat] unat_drop_bit [of 8 ?num] by (simp add: less_mult_imp_div_less)
  ultimately show ?thesis
    using ikey_split [OF 8] k by (simp add: AppendInternalKey_eq seq_le_max)
qed

section \<open>The order on internal keys\<close>

lemma InternalKeyComparator_simps [simp]:
  "Compare (InternalKeyComparator c) = InternalKey_Compare c"
  "FindShortestSeparator (InternalKeyComparator c) = InternalKey_FindShortestSeparator c"
  "FindShortSuccessor (InternalKeyComparator c) = InternalKey_FindShortSuccessor c"
  by (simp_all add: InternalKeyComparator_def)

lemma InternalKey_Compare_iff:
  "InternalKey_Compare c a b < 0 \<longleftrightarrow>
     Compare c (ExtractUserKey a) (ExtractUserKey b) < 0 \<or>
     Compare c (ExtractUserKey a) (ExtractUserKey b) = 0 \<and> ikey_num b < ikey_num a"
  "InternalKey_Compare c a b = 0 \<longleftrightarrow>
     Compare c (ExtractUserKey a) (ExtractUserKey b) = 0 \<and> ikey_num a = ikey_num b"
  by (auto simp: InternalKey_Compare_def Let_def)

text \<open>Every contract-abiding user comparator gives a contract-abiding internal one.\<close>

locale internal_order = user: three_way "Compare c" for c :: Comparator
begin

lemma internal_three_way: "three_way (InternalKey_Compare c)"
proof
  fix a b k
  show "InternalKey_Compare c a a = 0" by (simp add: InternalKey_Compare_iff)
  show neg: "InternalKey_Compare c a b < 0 \<longleftrightarrow> 0 < InternalKey_Compare c b a" for a b
    using user.cmp_neg [of "ExtractUserKey a" "ExtractUserKey b"]
      user.cmp_neg [of "ExtractUserKey b" "ExtractUserKey a"]
    by (auto simp: InternalKey_Compare_def Let_def)
  assume "InternalKey_Compare c a b \<le> 0" "InternalKey_Compare c b k \<le> 0"
  then show "InternalKey_Compare c a k \<le> 0"
    unfolding le_less InternalKey_Compare_iff
    by (smt (verit) less_trans user.cmp_less_trans user.cmp_zero_left user.cmp_zero_right
        user.cmp_zero_trans)
qed

end

locale internal_comparator = user: comparator c valid for c valid +
  assumes separator_equal: "Compare c a b = 0 \<Longrightarrow> FindShortestSeparator c a b = a"
begin

lemma internal_separator:
  assumes v: "8 \<le> length a \<and> valid (ExtractUserKey a)" "8 \<le> length b \<and> valid (ExtractUserKey b)"
    and less: "InternalKey_Compare c a b < 0"
  defines "t \<equiv> InternalKey_FindShortestSeparator c a b"
  shows "(8 \<le> length t \<and> valid (ExtractUserKey t)) \<and> InternalKey_Compare c a t \<le> 0 \<and>
         InternalKey_Compare c t b < 0"
proof -
  let ?u = "ExtractUserKey a" and ?l = "ExtractUserKey b"
  let ?t = "FindShortestSeparator c ?u ?l"
  show ?thesis
  proof (cases "length ?t < length ?u \<and> Compare c ?u ?t < 0")
    case True
    then have "Compare c ?u ?l \<noteq> 0" using separator_equal [of ?u ?l] by auto
    with less have "Compare c ?u ?l < 0" by (auto simp: InternalKey_Compare_iff)
    with user.separator v have "valid ?t" "Compare c ?t ?l < 0" by auto
    with True show ?thesis
      by (auto simp: t_def InternalKey_FindShortestSeparator_def Let_def PutFixed64_def
          InternalKey_Compare_iff le_less)
  next
    case False
    then have "t = a" by (auto simp: t_def InternalKey_FindShortestSeparator_def Let_def)
    with v less show ?thesis by (auto simp: InternalKey_Compare_iff le_less)
  qed
qed

lemma internal_successor:
  assumes v: "8 \<le> length a \<and> valid (ExtractUserKey a)"
  defines "t \<equiv> InternalKey_FindShortSuccessor c a"
  shows "(8 \<le> length t \<and> valid (ExtractUserKey t)) \<and> InternalKey_Compare c a t \<le> 0"
  using assms user.successor [of "ExtractUserKey a"]
  by (auto simp: InternalKey_FindShortSuccessor_def Let_def PutFixed64_def
      InternalKey_Compare_iff le_less)

end

sublocale internal_comparator \<subseteq> ik: comparator "InternalKeyComparator c"
    "\<lambda>k. 8 \<le> length k \<and> valid (ExtractUserKey k)"
  unfolding comparator_def comparator_axioms_def InternalKeyComparator_simps
  using internal_order.internal_three_way [OF internal_order.intro [OF user.three_way_axioms]]
    internal_separator internal_successor by blast

interpretation bytewise_order: internal_order BytewiseComparator
  by unfold_locales

interpretation ikc: internal_comparator BytewiseComparator "\<lambda>_. True"
  by unfold_locales
     (simp add: BytewiseComparator_def Bytewise_FindShortestSeparator_def Let_def common_prefix_same)

lemma InternalKey_Compare_packed:
  assumes "sequence a \<le> kMaxSequenceNumber" "sequence b \<le> kMaxSequenceNumber"
  shows "InternalKey_Compare c (AppendInternalKey [] a) (AppendInternalKey [] b) < 0 \<longleftrightarrow>
     Compare c (user_key a) (user_key b) < 0 \<or>
     Compare c (user_key a) (user_key b) = 0 \<and>
       (sequence b < sequence a \<or>
        sequence b = sequence a \<and> ikey_type b = kTypeDeletion \<and> ikey_type a = kTypeValue)"
proof -
  have "PackSequenceAndType (sequence b) (ikey_type b) < PackSequenceAndType (sequence a) (ikey_type a)
    \<longleftrightarrow> sequence b < sequence a \<or>
        sequence b = sequence a \<and> ikey_type b = kTypeDeletion \<and> ikey_type a = kTypeValue"
    using assms unat_Pack [of "sequence a" "ikey_type a"] unat_Pack [of "sequence b" "ikey_type b"]
    by (cases "ikey_type a"; cases "ikey_type b")
       (auto simp: word_less_nat_alt word_unat_eq_iff)
  then show ?thesis by (simp add: InternalKey_Compare_iff AppendInternalKey_eq)
qed

section \<open>Filter policy and lookup key\<close>

locale internal_filter_policy = user: filter_policy p for p

sublocale internal_filter_policy \<subseteq> ifp: filter_policy "InternalFilterPolicy p"
proof unfold_locales
  fix keys dst
  show "CreateFilter (InternalFilterPolicy p) keys dst =
      dst @ CreateFilter (InternalFilterPolicy p) keys []"
    unfolding InternalFilterPolicy_def FilterPolicy.simps by (rule user.create_appends)
qed (simp add: InternalFilterPolicy_def user.may_match)

interpretation ibloom: internal_filter_policy "NewBloomFilterPolicy b" for b
  by unfold_locales

lemma LookupKey_parts:
  "internal_key (LookupKey_new u s) = InternalKey_new u s kValueTypeForSeek"
  "LookupKey_user_key (LookupKey_new u s) = u"
  "memtable_key (LookupKey_new u s) =
     EncodeVarint32 (of_nat (length u + 8)) @ internal_key (LookupKey_new u s)"
  by (simp_all add: LookupKey_new_def Let_def internal_key_def LookupKey_user_key_def memtable_key_def
      InternalKey_new_def AppendInternalKey_eq)

section \<open>Properties\<close>

text \<open>
  C15: \<open>ParseInternalKey\<close> accepts exactly the encodings \<open>AppendInternalKey\<close> produces from
  sequence numbers of at most 56 bits, and returns the key that was encoded.
\<close>

theorem internal_key_roundtrip:
  "ParseInternalKey s = Some k \<longleftrightarrow> s = AppendInternalKey [] k \<and> sequence k \<le> kMaxSequenceNumber"
  using ParseInternalKey_Append [of k] ParseInternalKey_Some [of s k] by auto

text \<open>
  C14: internal keys sort by increasing user key, then decreasing sequence number, then
  decreasing type, whatever the user comparator.
\<close>

theorem internal_key_order:
  assumes "sequence a \<le> kMaxSequenceNumber" "sequence b \<le> kMaxSequenceNumber"
  shows "Compare (InternalKeyComparator c) (AppendInternalKey [] a) (AppendInternalKey [] b) < 0 \<longleftrightarrow>
     Compare c (user_key a) (user_key b) < 0 \<or>
     Compare c (user_key a) (user_key b) = 0 \<and>
       (sequence b < sequence a \<or>
        sequence b = sequence a \<and> ikey_type b = kTypeDeletion \<and> ikey_type a = kTypeValue)"
  using InternalKey_Compare_packed [OF assms] by simp

theorem internal_key_order_witness:
  "Compare (InternalKeyComparator BytewiseComparator)
     (AppendInternalKey [] \<lparr> user_key = [1], sequence = 9, ikey_type = kTypeDeletion \<rparr>)
     (AppendInternalKey [] \<lparr> user_key = [1], sequence = 8, ikey_type = kTypeValue \<rparr>) < 0"
  by (subst internal_key_order)
     (simp_all add: seq_le_max BytewiseComparator_def)

text \<open>
  C13: shortening index keys is sound.  For internal keys \<open>a < b\<close> the separator lies in
  \<open>[a, b)\<close>, the successor of \<open>a\<close> is not below \<open>a\<close>, and both are again well-formed
  internal keys.
\<close>

theorem internal_key_separators:
  fixes a b
  defines "c \<equiv> InternalKeyComparator BytewiseComparator"
  assumes "8 \<le> length a" "8 \<le> length b" "Compare c a b < 0"
  shows "Compare c a (FindShortestSeparator c a b) \<le> 0 \<and>
         Compare c (FindShortestSeparator c a b) b < 0 \<and>
         Compare c a (FindShortSuccessor c a) \<le> 0 \<and>
         8 \<le> length (FindShortestSeparator c a b) \<and> 8 \<le> length (FindShortSuccessor c a)"
  using ikc.ik.separator [of a b] ikc.ik.successor [of a] assms by auto

theorem internal_key_separators_witness:
  "let c = InternalKeyComparator BytewiseComparator;
       a = InternalKey_new [1, 2, 3] 5 kTypeValue; b = InternalKey_new [1, 9] 5 kTypeValue
   in Compare c a (FindShortestSeparator c a b) \<le> 0 \<and> Compare c (FindShortestSeparator c a b) b < 0"
proof -
  have "InternalKey_Compare BytewiseComparator (InternalKey_new [1, 2, 3] 5 kTypeValue)
          (InternalKey_new [1, 9] 5 kTypeValue) < 0"
    by (simp add: InternalKey_Compare_iff InternalKey_new_def BytewiseComparator_def)
  then show ?thesis
    using internal_key_separators
      [of "InternalKey_new [1, 2, 3] 5 kTypeValue" "InternalKey_new [1, 9] 5 kTypeValue"]
    by (simp add: Let_def InternalKey_new_def AppendInternalKey_eq)
qed

end
