(* ===== verification/WriteBatch.thy ===== *)
theory WriteBatch
  imports DbFormat
begin

text \<open>
  \<open>db/write_batch.cc\<close>: a batch is its serialised form \<open>rep_\<close>, a sequence number (8 bytes), a
  count (4 bytes) and the tagged operations.  Applying a batch to a memtable is in the theory
  of the memtable.
\<close>

section \<open>Definitions\<close>

definition kHeader :: nat where
  "kHeader = 12"

definition WriteBatch_Clear :: slice where
  "WriteBatch_Clear = replicate kHeader 0"

definition ApproximateSize :: "slice \<Rightarrow> nat" where
  "ApproximateSize rep = length rep"

text \<open>\<open>Count\<close> is an \<open>int\<close>: the 32 bits are read as a signed number where they are compared.\<close>

definition Count :: "slice \<Rightarrow> u32" where
  "Count rep = DecodeFixed32 (drop 8 rep)"

definition SetCount :: "slice \<Rightarrow> u32 \<Rightarrow> slice" where
  "SetCount rep n = take 8 rep @ EncodeFixed32 n @ drop 12 rep"

definition Sequence :: "slice \<Rightarrow> SequenceNumber" where
  "Sequence rep = DecodeFixed64 rep"

definition SetSequence :: "slice \<Rightarrow> SequenceNumber \<Rightarrow> slice" where
  "SetSequence rep seq = EncodeFixed64 seq @ drop 8 rep"

definition WriteBatch_Put :: "slice \<Rightarrow> slice \<Rightarrow> slice \<Rightarrow> slice" where
  "WriteBatch_Put rep key val =
     (let rep = SetCount rep (Count rep + 1);
          rep = rep @ [ucast (ValueType_num kTypeValue)];
          rep = PutLengthPrefixedSlice rep key
      in PutLengthPrefixedSlice rep val)"

definition WriteBatch_Delete :: "slice \<Rightarrow> slice \<Rightarrow> slice" where
  "WriteBatch_Delete rep key =
     (let rep = SetCount rep (Count rep + 1);
          rep = rep @ [ucast (ValueType_num kTypeDeletion)]
      in PutLengthPrefixedSlice rep key)"

definition WriteBatch_Append :: "slice \<Rightarrow> slice \<Rightarrow> slice" where
  "WriteBatch_Append dst src = SetCount dst (Count dst + Count src) @ drop kHeader src"

definition SetContents :: "slice \<Rightarrow> slice" where
  "SetContents contents = contents"

record 's Handler =
  H_Put :: "slice \<Rightarrow> slice \<Rightarrow> 's \<Rightarrow> 's"
  H_Delete :: "slice \<Rightarrow> 's \<Rightarrow> 's"

function Iterate_loop :: "'s Handler \<Rightarrow> slice \<Rightarrow> nat \<Rightarrow> 's \<Rightarrow> (Status + nat) \<times> 's" where
  "Iterate_loop H [] found s = (Inr found, s)"
| "Iterate_loop H (tag # input) found s =
     (if tag = ucast (ValueType_num kTypeValue) then
        (case GetLengthPrefixedSlice input of
           Some (key, input1) \<Rightarrow>
             (case GetLengthPrefixedSlice input1 of
                Some (val, input2) \<Rightarrow> Iterate_loop H input2 (found + 1) (H_Put H key val s)
              | None \<Rightarrow> (Inl (Corruption (ascii ''bad WriteBatch Put'') []), s))
         | None \<Rightarrow> (Inl (Corruption (ascii ''bad WriteBatch Put'') []), s))
      else if tag = ucast (ValueType_num kTypeDeletion) then
        (case GetLengthPrefixedSlice input of
           Some (key, input1) \<Rightarrow> Iterate_loop H input1 (found + 1) (H_Delete H key s)
         | None \<Rightarrow> (Inl (Corruption (ascii ''bad WriteBatch Delete'') []), s))
      else (Inl (Corruption (ascii ''unknown WriteBatch tag'') []), s))"
  by pat_completeness auto
termination
  by (relation "measure (\<lambda>(H, input, found, s). length input)")
     (auto dest!: GetLengthPrefixedSlice_shorter)

definition Iterate :: "'s Handler \<Rightarrow> slice \<Rightarrow> 's \<Rightarrow> Status \<times> 's" where
  "Iterate H rep s =
     (if length rep < kHeader then (Corruption (ascii ''malformed WriteBatch (too small)'') [], s)
      else case Iterate_loop H (remove_prefix rep kHeader) 0 s of
        (Inl e, s') \<Rightarrow> (e, s')
      | (Inr found, s') \<Rightarrow>
          (if int found \<noteq> sint (Count rep) then (Corruption (ascii ''WriteBatch has wrong count'') [], s')
           else (OK, s')))"

section \<open>The operations a batch holds\<close>

datatype batch_op = PutOp slice slice | DeleteOp slice

fun op_bytes :: "batch_op \<Rightarrow> slice" where
  "op_bytes (PutOp k v) =
     1 # EncodeVarint32 (of_nat (length k)) @ k @ EncodeVarint32 (of_nat (length v)) @ v"
| "op_bytes (DeleteOp k) = 0 # EncodeVarint32 (of_nat (length k)) @ k"

fun op_small :: "batch_op \<Rightarrow> bool" where
  "op_small (PutOp k v) = (length k < 2 ^ 32 \<and> length v < 2 ^ 32)"
| "op_small (DeleteOp k) = (length k < 2 ^ 32)"

fun handle_op :: "'s Handler \<Rightarrow> batch_op \<Rightarrow> 's \<Rightarrow> 's" where
  "handle_op H (PutOp k v) s = H_Put H k v s"
| "handle_op H (DeleteOp k) s = H_Delete H k s"

fun apply_op :: "batch_op \<Rightarrow> slice \<Rightarrow> slice" where
  "apply_op (PutOp k v) rep = WriteBatch_Put rep k v"
| "apply_op (DeleteOp k) rep = WriteBatch_Delete rep k"

definition batch_rep :: "SequenceNumber \<Rightarrow> batch_op list \<Rightarrow> slice" where
  "batch_rep seq ops =
     EncodeFixed64 seq @ EncodeFixed32 (of_nat (length ops)) @ concat (map op_bytes ops)"

lemma batch_rep_parts:
  "take 8 (batch_rep seq ops) = EncodeFixed64 seq"
  "drop 8 (batch_rep seq ops) = EncodeFixed32 (of_nat (length ops)) @ concat (map op_bytes ops)"
  "drop 12 (batch_rep seq ops) = concat (map op_bytes ops)"
  by (simp_all add: batch_rep_def)

lemma batch_header [simp]:
  "Count (batch_rep seq ops) = of_nat (length ops)"
  "Sequence (batch_rep seq ops) = seq"
  "SetSequence (batch_rep seq ops) seq' = batch_rep seq' ops"
proof -
  show "Count (batch_rep seq ops) = of_nat (length ops)"
    by (simp add: Count_def batch_rep_parts coding_simps)
  show "Sequence (batch_rep seq ops) = seq"
    by (simp add: Sequence_def batch_rep_def coding_simps)
  show "SetSequence (batch_rep seq ops) seq' = batch_rep seq' ops"
    unfolding SetSequence_def batch_rep_parts by (simp add: batch_rep_def)
qed

lemma SetCount_batch:
  "SetCount (batch_rep seq ops) n @ x = EncodeFixed64 seq @ EncodeFixed32 n @ concat (map op_bytes ops) @ x"
  by (simp add: SetCount_def batch_rep_parts)

lemma Clear_batch: "WriteBatch_Clear = batch_rep 0 []"
  by (simp add: WriteBatch_Clear_def kHeader_def batch_rep_def EncodeFixed64_def EncodeFixed32_def
      numeral_eq_Suc)

lemma apply_op_batch: "apply_op op (batch_rep seq ops) = batch_rep seq (ops @ [op])"
  by (cases op)
     (simp_all add: WriteBatch_Put_def WriteBatch_Delete_def Let_def PutLengthPrefixedSlice_def
       PutVarint32_def SetCount_batch, simp_all add: batch_rep_def add.commute)

lemma Append_batch:
  "WriteBatch_Append (batch_rep seq a) (batch_rep seq' b) = batch_rep seq (a @ b)"
  by (simp add: WriteBatch_Append_def SetCount_batch kHeader_def batch_rep_parts)
     (simp add: batch_rep_def)

lemma fold_apply_op: "fold apply_op ops (batch_rep seq ops0) = batch_rep seq (ops0 @ ops)"
  by (induction ops arbitrary: ops0) (simp_all add: apply_op_batch)

lemma Iterate_loop_ops:
  "\<forall>op \<in> set ops. op_small op \<Longrightarrow>
   Iterate_loop H (concat (map op_bytes ops) @ rest) found s =
   Iterate_loop H rest (found + length ops) (fold (handle_op H) ops s)"
proof (induction ops arbitrary: found s)
  case (Cons op ops)
  have "Iterate_loop H (op_bytes op @ concat (map op_bytes ops) @ rest) found s =
      Iterate_loop H (concat (map op_bytes ops) @ rest) (found + 1) (handle_op H op s)"
    using Cons.prems by (cases op) (simp_all add: coding_simps)
  with Cons show ?case by simp
qed simp

lemma sint_count: "n < 2 ^ 31 \<Longrightarrow> sint (of_nat n :: u32) = int n"
  by (simp add: signed_of_nat signed_take_bit_int_eq_self)

lemma Iterate_batch:
  assumes "\<forall>op \<in> set ops. op_small op" "length ops < 2 ^ 31"
  shows "Iterate H (batch_rep seq ops) s = (OK, fold (handle_op H) ops s)"
proof -
  have "remove_prefix (batch_rep seq ops) kHeader = concat (map op_bytes ops) @ []"
    by (simp add: remove_prefix_def kHeader_def batch_rep_parts)
  moreover have "\<not> length (batch_rep seq ops) < kHeader"
    by (simp add: batch_rep_def kHeader_def)
  ultimately show ?thesis
    using Iterate_loop_ops [OF assms(1), of H "[]" 0 s] sint_count [OF assms(2)]
    by (simp add: Iterate_def)
qed

section \<open>Truncated batches\<close>

lemma append_cut:
  assumes "a @ b = p @ q" "q \<noteq> []"
  obtains (first) x where "a = p @ x" "x \<noteq> []" | (second) x where "p = a @ x" "b = x @ q"
proof (cases "length p < length a")
  case True
  then have "a = p @ drop (length p) a"
    using assms(1) by (metis append_eq_append_conv_if append_take_drop_id less_imp_le)
  with True show thesis by (intro first [of "drop (length p) a"]) auto
next
  case False
  then have "p = a @ drop (length a) p" "b = drop (length a) p @ q"
    using assms(1) by (auto simp: append_eq_append_conv_if not_less) (metis append_take_drop_id)
  then show thesis by (rule second)
qed

lemma GetVarintLoop_cut:
  fixes r :: "'a::len word"
  assumes "EncodeVarint64 v = p @ q" "q \<noteq> []" "7 < LENGTH('a)"
  shows "GetVarintLoop last_shift shift r p = None"
  using assms(1)
proof (induction v arbitrary: p shift r rule: EncodeVarint64.induct)
  case (1 v)
  show ?case
  proof (cases p)
    case (Cons b p')
    show ?thesis
    proof (cases "v \<ge> 128")
      case True
      then have "EncodeVarint64 v = ucast (v OR 128) # EncodeVarint64 (drop_bit 7 v)"
        by (simp add: EncodeVarint64.simps [of v])
      with "1.prems" Cons have b: "b = ucast (v OR 128)" and r: "EncodeVarint64 (drop_bit 7 v) = p' @ q"
        by auto
      have "(ucast b :: 'a word) AND 128 \<noteq> 0" unfolding b using assms(3) by (intro cont_byte_top) auto
      then show ?thesis using "1.IH" [OF True r] Cons by (simp add: Let_def)
    next
      case False
      then have "EncodeVarint64 v = [ucast v]" by (simp add: EncodeVarint64.simps [of v])
      with "1.prems" Cons assms(2) show ?thesis by (simp add: Cons_eq_append_conv)
    qed
  qed simp
qed

lemma GetLengthPrefixedSlice_cut:
  assumes "length s < 2 ^ 32" "EncodeVarint32 (of_nat (length s)) @ s = p @ q" "q \<noteq> []"
  shows "GetLengthPrefixedSlice p = None"
proof -
  let ?e = "EncodeVarint32 (of_nat (length s))"
  from assms(2) consider (short) x where "?e = p @ x" "x \<noteq> []" | (long) x where "p = ?e @ x" "s = x @ q"
    using append_cut [OF _ assms(3)] by metis
  then show ?thesis
  proof cases
    case short
    then have "EncodeVarint64 (ucast (of_nat (length s) :: u32)) = p @ x"
      by (simp add: EncodeVarint32_eq_64)
    then have "GetVarint32 p = None"
      unfolding GetVarint32_def GetVarint32Ptr_eq using short(2) by (rule GetVarintLoop_cut) simp
    then show ?thesis by (simp add: GetLengthPrefixedSlice_def)
  next
    case long
    have "unat (of_nat (length s) :: u32) = length s" using assms(1) by simp
    moreover have "length x < length s" using long(2) assms(3) by simp
    ultimately show ?thesis unfolding long(1) by (simp add: GetLengthPrefixedSlice_def coding_simps)
  qed
qed

lemma Iterate_loop_cut_op:
  assumes "op_small op" "op_bytes op = p @ q" "p \<noteq> []" "q \<noteq> []"
  shows "\<exists>e s'. Iterate_loop H p found s = (Inl (Corruption e []), s')"
proof (cases op)
  case (DeleteOp k)
  with assms obtain p' where "p = 0 # p'" "EncodeVarint32 (of_nat (length k)) @ k = p' @ q"
    by (cases p) auto
  with GetLengthPrefixedSlice_cut [of k p' q] assms DeleteOp show ?thesis by auto
next
  case (PutOp k v)
  let ?k = "EncodeVarint32 (of_nat (length k)) @ k" and ?v = "EncodeVarint32 (of_nat (length v)) @ v"
  from assms PutOp obtain p' where p: "p = 1 # p'" "?k @ ?v = p' @ q" by (cases p) auto
  then consider (key) x where "?k = p' @ x" "x \<noteq> []" | (val) x where "p' = ?k @ x" "?v = x @ q"
    using append_cut [OF _ assms(4)] by metis
  then show ?thesis
  proof cases
    case key
    with GetLengthPrefixedSlice_cut [of k p' x] assms PutOp p show ?thesis by auto
  next
    case val
    with GetLengthPrefixedSlice_cut [of v x q] assms PutOp p show ?thesis by (auto simp: coding_simps)
  qed
qed

lemma concat_cut:
  assumes "concat xs = p @ q" "q \<noteq> []"
  obtains ys x zs p1 q1 where "xs = ys @ x # zs" "p = concat ys @ p1" "x = p1 @ q1" "q1 \<noteq> []"
  using assms
proof (induction xs arbitrary: p thesis)
  case (Cons x xs)
  from Cons.prems(2) have "x @ concat xs = p @ q" by simp
  then show ?case using Cons.prems(3)
  proof (cases rule: append_cut)
    case (first y)
    then show ?thesis using Cons.prems(1) [of "[]" x xs p y] by simp
  next
    case (second p')
    from Cons.IH [OF _ second(2) Cons.prems(3)] obtain ys x' zs p1 q1 where
      "xs = ys @ x' # zs" "p' = concat ys @ p1" "x' = p1 @ q1" "q1 \<noteq> []" by blast
    then show ?thesis using Cons.prems(1) [of "x # ys" x' zs p1 q1] second by simp
  qed
qed simp

lemma Iterate_cut:
  assumes small: "\<forall>op \<in> set ops. op_small op" "length ops < 2 ^ 31"
    and cut: "batch_rep seq ops = p @ q" "q \<noteq> []"
  shows "\<exists>e s'. Iterate H p s = (Corruption e [], s')"
proof (cases "length p < kHeader")
  case True
  then show ?thesis by (auto simp: Iterate_def)
next
  case False
  define d where "d = drop 12 p"
  have split: "concat (map op_bytes ops) = d @ q"
    using cut False batch_rep_parts(3) [of seq ops] by (simp add: d_def kHeader_def)
  have cnt: "Count p = of_nat (length ops)"
  proof -
    have "drop 8 (batch_rep seq ops) = drop 8 p @ q" using cut(1) False by (simp add: kHeader_def)
    then have "take 4 (drop 8 p @ q) =
        take 4 (EncodeFixed32 (of_nat (length ops)) @ concat (map op_bytes ops))"
      using batch_rep_parts(2) [of seq ops] by (simp only:)
    then have "drop 8 p = EncodeFixed32 (of_nat (length ops)) @ drop 4 (drop 8 p)"
      using False append_take_drop_id [of 4 "drop 8 p"] by (simp add: kHeader_def)
    then have "Count p = DecodeFixed32 (EncodeFixed32 (of_nat (length ops)) @ drop 4 (drop 8 p))"
      by (simp only: Count_def)
    then show ?thesis by (simp add: Count_def coding_simps)
  qed
  from concat_cut [OF split cut(2)] obtain ys x zs p1 q1 where
    c: "map op_bytes ops = ys @ x # zs" "d = concat ys @ p1" "x = p1 @ q1" "q1 \<noteq> []" by metis
  then obtain ops1 op ops2 where ops: "ops = ops1 @ op # ops2" "ys = map op_bytes ops1" "x = op_bytes op"
    by (auto simp: map_eq_append_conv map_eq_Cons_conv)
  have loop: "Iterate_loop H d 0 s = Iterate_loop H p1 (length ops1) (fold (handle_op H) ops1 s)"
    using Iterate_loop_ops [of ops1 H p1 0 s] small ops c by simp
  have pre: "remove_prefix p kHeader = d" by (simp add: remove_prefix_def kHeader_def d_def)
  show ?thesis
  proof (cases "p1 = []")
    case True
    have "int (length ops1) \<noteq> sint (Count p)"
      using cnt sint_count [OF small(2)] ops by simp
    with True False loop pre show ?thesis by (auto simp: Iterate_def)
  next
    case ne: False
    from Iterate_loop_cut_op [OF _ _ ne c(4), of op H "length ops1" "fold (handle_op H) ops1 s"] ops c small
    obtain e s' where "Iterate_loop H p1 (length ops1) (fold (handle_op H) ops1 s) = (Inl (Corruption e []), s')"
      by auto
    with False loop pre show ?thesis by (auto simp: Iterate_def)
  qed
qed

section \<open>Properties\<close>

text \<open>
  C11: a batch replays what was put into it.  After any sequence of \<open>Put\<close> and \<open>Delete\<close> on a
  cleared batch, followed by \<open>Append\<close> of another such batch and \<open>SetSequence\<close>, \<open>Iterate\<close>
  succeeds and calls the handler with exactly those operations in order; the count and the
  sequence number read back are those written.
\<close>

theorem write_batch_replay:
  fixes seq ops ops'
  assumes "\<forall>op \<in> set (ops @ ops'). op_small op" "length (ops @ ops') < 2 ^ 31"
  defines "b \<equiv> SetSequence (WriteBatch_Append (fold apply_op ops WriteBatch_Clear)
                  (fold apply_op ops' WriteBatch_Clear)) seq"
  shows "Iterate H b s = (OK, fold (handle_op H) (ops @ ops') s) \<and>
         Count b = of_nat (length (ops @ ops')) \<and> Sequence b = seq"
proof -
  have "b = batch_rep seq (ops @ ops')"
    by (simp add: b_def Clear_batch fold_apply_op Append_batch)
  then show ?thesis using Iterate_batch [OF assms(1,2)] by simp
qed

theorem write_batch_replay_witness:
  "Iterate \<lparr> H_Put = (\<lambda>k v s. s @ [PutOp k v]), H_Delete = (\<lambda>k s. s @ [DeleteOp k]) \<rparr>
     (SetSequence (WriteBatch_Append (WriteBatch_Put WriteBatch_Clear [1] [2, 3])
        (WriteBatch_Delete WriteBatch_Clear [4])) 7) [] = (OK, [PutOp [1] [2, 3], DeleteOp [4]])"
  using write_batch_replay [of "[PutOp [1] [2, 3]]" "[DeleteOp [4]]"
      "\<lparr> H_Put = (\<lambda>k v s. s @ [PutOp k v]), H_Delete = (\<lambda>k s. s @ [DeleteOp k]) \<rparr>" 7 "[]"]
  by simp



end
