(* ===== verification/MemTable.thy ===== *)
theory MemTable
  imports SkipList WriteBatch
begin

text \<open>
  \<open>db/memtable.cc\<close> and the part of \<open>db/write_batch.cc\<close> that applies a batch to a memtable.  A
  skip list key is the entry the \<open>const char*\<close> points to: length-prefixed internal key and value.
  The arena is the one inside the table.
\<close>

section \<open>Definitions\<close>

text \<open>The decoder without a limit: the entry is assumed not to be corrupted.\<close>

definition entry_varint :: "slice \<Rightarrow> u32 \<times> slice" where
  "entry_varint data =
     (case GetVarint32Ptr (take 5 data) of
        Some (len, rest) \<Rightarrow> (len, drop (length (take 5 data) - length rest) data)
      | None \<Rightarrow> (0, []))"

definition entry_GetLengthPrefixedSlice :: "slice \<Rightarrow> slice" where
  "entry_GetLengthPrefixedSlice data = (case entry_varint data of (len, p) \<Rightarrow> take (unat len) p)"

record MemTable =
  mt_comparator :: Comparator
  mt_refs :: int
  mt_table :: "slice SkipList"

definition KeyComparator :: "Comparator \<Rightarrow> slice \<Rightarrow> slice \<Rightarrow> int" where
  "KeyComparator c aptr bptr =
     Compare (InternalKeyComparator c) (entry_GetLengthPrefixedSlice aptr) (entry_GetLengthPrefixedSlice bptr)"

definition MemTable_new :: "(nat \<Rightarrow> nat) \<Rightarrow> Comparator \<Rightarrow> MemTable" where
  "MemTable_new new_char c =
     \<lparr> mt_comparator = c, mt_refs = 0, mt_table = SkipList_new new_char [] Arena_new \<rparr>"

definition ApproximateMemoryUsage :: "MemTable \<Rightarrow> nat" where
  "ApproximateMemoryUsage mt = MemoryUsage (sl_arena (mt_table mt))"

definition EncodeKey :: "slice \<Rightarrow> slice" where
  "EncodeKey target = PutVarint32 [] (of_nat (length target)) @ target"

definition MemTable_Add ::
    "(nat \<Rightarrow> nat) \<Rightarrow> SequenceNumber \<Rightarrow> ValueType \<Rightarrow> slice \<Rightarrow> slice \<Rightarrow> MemTable \<Rightarrow> MemTable option" where
  "MemTable_Add new_char s type key val mt =
     (let key_size = length key;
          val_size = length val;
          internal_key_size = key_size + 8;
          encoded_len = VarintLength (of_nat internal_key_size) + internal_key_size +
                        VarintLength (of_nat val_size) + val_size;
          table = mt_table mt;
          table = table\<lparr> sl_arena := snd (Allocate new_char encoded_len (sl_arena table)) \<rparr>;
          buf = EncodeVarint32 (of_nat internal_key_size) @ key @
                EncodeFixed64 (push_bit 8 s OR ValueType_num type) @
                EncodeVarint32 (of_nat val_size) @ val
      in map_option (\<lambda>table. mt\<lparr> mt_table := table \<rparr>)
           (SkipList_Insert (KeyComparator (mt_comparator mt)) new_char buf table))"

text \<open>
  \<open>Get\<close>: not in the table (false), a value, or a deletion (true with status \<open>NotFound\<close>).
\<close>

datatype GetResult = GetMissing | GetValue slice | GetStatus Status

definition MemTable_Get :: "MemTable \<Rightarrow> LookupKey \<Rightarrow> GetResult option" where
  "MemTable_Get mt key =
     (let memkey = memtable_key key;
          table = mt_table mt
      in case sl_iter_Seek (KeyComparator (mt_comparator mt)) table memkey of
           None \<Rightarrow> None
         | Some it \<Rightarrow>
             Some (if sl_iter_Valid it then
                     (let entry = sl_iter_key table it;
                          (key_length, key_ptr) = entry_varint entry
                      in if Compare (mt_comparator mt) (take (unat (key_length - 8)) key_ptr)
                              (LookupKey_user_key key) = 0
                         then (let tag = DecodeFixed64 (drop (unat key_length - 8) key_ptr);
                                   t = tag AND 0xff
                               in if t = ValueType_num kTypeValue then
                                    GetValue (entry_GetLengthPrefixedSlice (drop (unat key_length) key_ptr))
                                  else if t = ValueType_num kTypeDeletion then
                                    GetStatus (NotFound [] [])
                                  else GetMissing)
                         else GetMissing)
                   else GetMissing))"

text \<open>The iterator wraps the table's.\<close>

definition MemTableIterator_Seek :: "MemTable \<Rightarrow> slice \<Rightarrow> sl_iter option" where
  "MemTableIterator_Seek mt k =
     sl_iter_Seek (KeyComparator (mt_comparator mt)) (mt_table mt) (EncodeKey k)"

definition MemTableIterator_key :: "MemTable \<Rightarrow> sl_iter \<Rightarrow> slice" where
  "MemTableIterator_key mt it = entry_GetLengthPrefixedSlice (sl_iter_key (mt_table mt) it)"

definition MemTableIterator_value :: "MemTable \<Rightarrow> sl_iter \<Rightarrow> slice" where
  "MemTableIterator_value mt it =
     (let entry = sl_iter_key (mt_table mt) it;
          (len, p) = entry_varint entry
      in entry_GetLengthPrefixedSlice (drop (unat len) p))"

definition MemTableIterator_SeekToFirst :: "MemTable \<Rightarrow> sl_iter" where
  "MemTableIterator_SeekToFirst mt = sl_iter_SeekToFirst (mt_table mt)"

definition MemTableIterator_SeekToLast :: "MemTable \<Rightarrow> sl_iter option" where
  "MemTableIterator_SeekToLast mt = sl_iter_SeekToLast (mt_table mt)"

definition MemTableIterator_Next :: "MemTable \<Rightarrow> sl_iter \<Rightarrow> sl_iter" where
  "MemTableIterator_Next mt it = sl_iter_Next (mt_table mt) it"

definition MemTableIterator_Prev :: "MemTable \<Rightarrow> sl_iter \<Rightarrow> sl_iter option" where
  "MemTableIterator_Prev mt it = sl_iter_Prev (KeyComparator (mt_comparator mt)) (mt_table mt) it"

text \<open>Reference counting; the table is deleted (\<^term>\<open>None\<close>) when the count drops to zero.\<close>

definition MemTable_Ref :: "MemTable \<Rightarrow> MemTable" where
  "MemTable_Ref mt = mt\<lparr> mt_refs := mt_refs mt + 1 \<rparr>"

definition MemTable_Unref :: "MemTable \<Rightarrow> MemTable option" where
  "MemTable_Unref mt =
     (let mt = mt\<lparr> mt_refs := mt_refs mt - 1 \<rparr>
      in if mt_refs mt \<le> 0 then None else Some mt)"

text \<open>\<open>MemTableInserter\<close>: the state is the next sequence number and the table.\<close>

definition MemTableInserter :: "(nat \<Rightarrow> nat) \<Rightarrow> (SequenceNumber \<times> MemTable option) Handler" where
  "MemTableInserter new_char =
     \<lparr> H_Put = (\<lambda>key val (seq, mem).
         (seq + 1, Option.bind mem (MemTable_Add new_char seq kTypeValue key val))),
       H_Delete = (\<lambda>key (seq, mem).
         (seq + 1, Option.bind mem (MemTable_Add new_char seq kTypeDeletion key []))) \<rparr>"

definition InsertInto ::
    "(nat \<Rightarrow> nat) \<Rightarrow> slice \<Rightarrow> MemTable \<Rightarrow> Status \<times> MemTable option" where
  "InsertInto new_char b memtable =
     (case Iterate (MemTableInserter new_char) b (Sequence b, Some memtable) of
        (s, _, mem) \<Rightarrow> (s, mem))"

text \<open>A sequence of \<open>Add\<close> calls, and the sizes for which the 32-bit length prefixes suffice.\<close>

primrec mem_add_all ::
    "(nat \<Rightarrow> nat) \<Rightarrow> (ParsedInternalKey \<times> slice) list \<Rightarrow> MemTable \<Rightarrow> MemTable option" where
  "mem_add_all new_char [] mt = Some mt"
| "mem_add_all new_char (e # es) mt =
     Option.bind
       (MemTable_Add new_char (sequence (fst e)) (ikey_type (fst e)) (user_key (fst e)) (snd e) mt)
       (mem_add_all new_char es)"

fun op_fits :: "batch_op \<Rightarrow> bool" where
  "op_fits (PutOp k v) = (length k + 8 < 2 ^ 32 \<and> length v < 2 ^ 32)"
| "op_fits (DeleteOp k) = (length k + 8 < 2 ^ 32)"

lemma op_fits_small: "op_fits op \<Longrightarrow> op_small op"
  by (cases op) auto

section \<open>Entries\<close>

type_synonym mem_entry = "ParsedInternalKey \<times> slice"

definition entry_ikey :: "mem_entry \<Rightarrow> slice" where
  "entry_ikey e = AppendInternalKey [] (fst e)"

definition entry_bytes :: "mem_entry \<Rightarrow> slice" where
  "entry_bytes e =
     EncodeVarint32 (of_nat (length (entry_ikey e))) @ entry_ikey e @
     EncodeVarint32 (of_nat (length (snd e))) @ snd e"

definition entry_small :: "mem_entry \<Rightarrow> bool" where
  "entry_small e \<longleftrightarrow> length (user_key (fst e)) + 8 < 2 ^ 32 \<and> length (snd e) < 2 ^ 32 \<and>
     sequence (fst e) \<le> kMaxSequenceNumber"

lemma length_entry_ikey: "length (entry_ikey e) = length (user_key (fst e)) + 8"
  by (simp add: entry_ikey_def AppendInternalKey_eq)

lemma entry_varint_Encode: "entry_varint (EncodeVarint32 v @ rest) = (v, rest)"
proof -
  let ?e = "EncodeVarint32 v"
  have "take 5 (?e @ rest) = ?e @ take (5 - length ?e) rest"
    using length_EncodeVarint32_le [of v] by simp
  moreover have "GetVarint32Ptr (?e @ take (5 - length ?e) rest) = Some (v, take (5 - length ?e) rest)"
    using GetVarint32_Encode [of v] by (simp add: GetVarint32_def)
  ultimately show ?thesis by (simp add: entry_varint_def)
qed

lemma entry_prefixed:
  "length s < 2 ^ 32 \<Longrightarrow>
   entry_GetLengthPrefixedSlice (EncodeVarint32 (of_nat (length s)) @ s @ rest) = s"
  by (simp add: entry_GetLengthPrefixedSlice_def entry_varint_Encode)

lemma entry_bytes_ikey: "entry_small e \<Longrightarrow> entry_GetLengthPrefixedSlice (entry_bytes e) = entry_ikey e"
  unfolding entry_bytes_def by (rule entry_prefixed) (simp add: entry_small_def length_entry_ikey)

lemma KeyComparator_three_way: "three_way (InternalKey_Compare c) \<Longrightarrow> three_way (KeyComparator c)"
  unfolding three_way_def by (auto simp: KeyComparator_def)

lemma KeyComparator_entry:
  "entry_small e \<Longrightarrow> KeyComparator c (entry_bytes e) b =
     InternalKey_Compare c (entry_ikey e) (entry_GetLengthPrefixedSlice b)"
  "entry_small e \<Longrightarrow> KeyComparator c b (entry_bytes e) =
     InternalKey_Compare c (entry_GetLengthPrefixedSlice b) (entry_ikey e)"
  by (simp_all add: KeyComparator_def entry_bytes_ikey)

lemma memtable_key_ikey:
  "length u + 8 < 2 ^ 32 \<Longrightarrow>
   entry_GetLengthPrefixedSlice (memtable_key (LookupKey_new u s)) = InternalKey_new u s kValueTypeForSeek"
  using entry_prefixed [of "InternalKey_new u s kValueTypeForSeek" "[]"]
  by (simp add: LookupKey_parts InternalKey_new_def AppendInternalKey_eq)

lemma Pack_low_byte: "PackSequenceAndType q t AND 0xff = ValueType_num t"
proof (rule bit_word_eqI)
  fix n assume "n < LENGTH(64)"
  have "(0xff :: u64) = mask 8" by (simp add: mask_eq_exp_minus_1)
  then have "bit (0xff :: u64) n \<longleftrightarrow> n < 8" by (simp only: bit_mask_iff) auto
  then show "bit (PackSequenceAndType q t AND 0xff) n = bit (ValueType_num t) n"
    by (auto simp: PackSequenceAndType_def bit_ValueType_num bit_or_iff bit_and_iff bit_push_bit_iff
        simp del: bit_numeral_word_iff)
qed

text \<open>Reading an entry back, as \<open>Get\<close> does.\<close>

lemma entry_decode:
  assumes "entry_small e"
  shows "\<exists>len p. entry_varint (entry_bytes e) = (len, p) \<and>
    take (unat (len - 8)) p = user_key (fst e) \<and>
    DecodeFixed64 (drop (unat len - 8) p) AND 0xff = ValueType_num (ikey_type (fst e)) \<and>
    entry_GetLengthPrefixedSlice (drop (unat len) p) = snd e"
proof -
  let ?k = "entry_ikey e" and ?u = "user_key (fst e)"
  let ?tag = "PackSequenceAndType (sequence (fst e)) (ikey_type (fst e))"
  let ?v = "EncodeVarint32 (of_nat (length (snd e))) @ snd e"
  let ?len = "of_nat (length ?k) :: u32"
  have k: "?k = ?u @ EncodeFixed64 ?tag" by (simp add: entry_ikey_def AppendInternalKey_eq)
  have n: "length ?k = length ?u + 8" by (rule length_entry_ikey)
  have len: "unat ?len = length ?u + 8"
    using assms unat_u32_of_nat [of "length ?k"] by (simp only: n entry_small_def)
  have "?len - 8 = of_nat (length ?u)" by (simp add: n)
  then have len8: "unat (?len - 8) = length ?u" using assms by (simp add: entry_small_def)
  have "entry_varint (entry_bytes e) = (?len, ?k @ ?v)"
    unfolding entry_bytes_def by (rule entry_varint_Encode)
  moreover have "take (length ?u) (?k @ ?v) = ?u" unfolding k by simp
  then have "take (unat (?len - 8)) (?k @ ?v) = ?u" by (simp only: len8)
  moreover have "drop (length ?u + 8 - 8) (?k @ ?v) = EncodeFixed64 ?tag @ ?v" unfolding k by simp
  then have "drop (unat ?len - 8) (?k @ ?v) = EncodeFixed64 ?tag @ ?v" by (simp only: len)
  then have "DecodeFixed64 (drop (unat ?len - 8) (?k @ ?v)) AND 0xff = ValueType_num (ikey_type (fst e))"
    by (simp only: DecodeFixed64_append Pack_low_byte)
  moreover have "entry_GetLengthPrefixedSlice (drop (unat ?len) (?k @ ?v)) = snd e"
    unfolding len n [symmetric] using assms entry_prefixed [of "snd e" "[]"] by (simp add: entry_small_def)
  ultimately show ?thesis by blast
qed

section \<open>Visibility\<close>

text \<open>
  An entry is visible to a lookup of \<open>u\<close> at \<open>s\<close> when it has that user key and is not newer than
  \<open>s\<close>; the newest visible entry answers the lookup.
\<close>

definition visible :: "Comparator \<Rightarrow> slice \<Rightarrow> SequenceNumber \<Rightarrow> mem_entry \<Rightarrow> bool" where
  "visible c u s e \<longleftrightarrow> Compare c (user_key (fst e)) u = 0 \<and> sequence (fst e) \<le> s"

primrec newest ::
    "Comparator \<Rightarrow> slice \<Rightarrow> SequenceNumber \<Rightarrow> mem_entry list \<Rightarrow> mem_entry option \<Rightarrow> mem_entry option" where
  "newest c u s [] best = best"
| "newest c u s (e # es) best =
     newest c u s es
       (if visible c u s e \<and> (case best of None \<Rightarrow> True | Some b \<Rightarrow> sequence (fst b) < sequence (fst e))
        then Some e else best)"

definition lookup_result :: "mem_entry option \<Rightarrow> GetResult" where
  "lookup_result r =
     (case r of None \<Rightarrow> GetMissing
      | Some e \<Rightarrow> (case ikey_type (fst e) of
                     kTypeValue \<Rightarrow> GetValue (snd e) | kTypeDeletion \<Rightarrow> GetStatus (NotFound [] [])))"

lemma newest_None_iff:
  "newest c u s es best = None \<longleftrightarrow> best = None \<and> (\<forall>e \<in> set es. \<not> visible c u s e)"
  by (induction es arbitrary: best) auto

lemma newest_ge:
  assumes "newest c u s es best = Some b"
  shows "(best = Some a \<longrightarrow> sequence (fst a) \<le> sequence (fst b)) \<and>
         (e \<in> set es \<longrightarrow> visible c u s e \<longrightarrow> sequence (fst e) \<le> sequence (fst b))"
  using assms
proof (induction es arbitrary: best a e)
  case (Cons x es)
  let ?best = "if visible c u s x \<and> (case best of None \<Rightarrow> True | Some b \<Rightarrow> sequence (fst b) < sequence (fst x))
      then Some x else best"
  have rec: "newest c u s es ?best = Some b" using Cons.prems by simp
  have "?best = None \<Longrightarrow> \<not> visible c u s x \<and> best = None" by (cases best) (auto split: if_splits)
  then obtain y where y: "?best = Some y \<or> \<not> visible c u s x \<and> best = None" by (cases ?best) blast+
  show ?case
    using Cons.IH [OF rec, of y e] y by (cases best) (auto split: if_splits)
qed simp

lemma newest_in:
  "newest c u s es best = Some b \<Longrightarrow> best = Some b \<or> b \<in> set es \<and> visible c u s b"
proof (induction es arbitrary: best)
  case (Cons x es)
  then show ?case
    using Cons.IH [of "if visible c u s x \<and> (case best of None \<Rightarrow> True | Some b \<Rightarrow> sequence (fst b) < sequence (fst x))
      then Some x else best"] by (auto split: if_splits)
qed simp

lemma newest_unique:
  assumes "b \<in> set es" "visible c u s b"
    and "\<And>e. e \<in> set es \<Longrightarrow> visible c u s e \<Longrightarrow> sequence (fst e) \<le> sequence (fst b)"
    and "inj_on (\<lambda>e. sequence (fst e)) (set es)"
  shows "newest c u s es None = Some b"
proof -
  obtain a where a: "newest c u s es None = Some a"
    using newest_None_iff [of c u s es None] assms(1,2) by auto
  have in_es: "a \<in> set es" "visible c u s a" using newest_in [OF a] by auto
  have "sequence (fst b) \<le> sequence (fst a)" using newest_ge [OF a, of a b] assms(1,2) by blast
  then have "sequence (fst a) = sequence (fst b)" using assms(3) [OF in_es] by simp
  with a in_es assms show ?thesis by (auto dest: inj_onD)
qed

section \<open>The table against its entries\<close>

lemma sl_holds_arena [simp]: "sl_holds cmp (sl\<lparr> sl_arena := a \<rparr>) keys = sl_holds cmp sl keys"
  by (simp add: sl_holds_def sl_inv_def sl_keys_def)

lemma sl_holds_sorted: "sl_holds cmp sl keys \<Longrightarrow> sorted_wrt (\<lambda>a b. cmp a b < 0) keys"
  by (auto simp: sl_holds_def sl_inv_def sl_keys_def sorted_wrt_map)

definition mem_holds :: "Comparator \<Rightarrow> MemTable \<Rightarrow> mem_entry list \<Rightarrow> bool" where
  "mem_holds c mt es \<longleftrightarrow> mt_comparator mt = c \<and> (\<forall>e \<in> set es. entry_small e) \<and>
     sl_holds (KeyComparator c) (mt_table mt) (map entry_bytes es)"

definition entry_cmp :: "Comparator \<Rightarrow> mem_entry \<Rightarrow> mem_entry \<Rightarrow> int" where
  "entry_cmp c a b = InternalKey_Compare c (entry_ikey a) (entry_ikey b)"

lemma mem_holds_sorted: "mem_holds c mt es \<Longrightarrow> sorted_wrt (\<lambda>a b. entry_cmp c a b < 0) es"
  using sl_holds_sorted [of "KeyComparator c" "mt_table mt" "map entry_bytes es"]
  by (auto simp: mem_holds_def sorted_wrt_map entry_cmp_def KeyComparator_entry entry_bytes_ikey
      intro: sorted_wrt_mono_rel [rotated])

lemma insert_key_entries:
  assumes "\<forall>x \<in> set es. entry_small x" "entry_small e"
  shows "insert_key (KeyComparator c) (entry_bytes e) (map entry_bytes es) =
         map entry_bytes (insert_key (entry_cmp c) e es)"
proof -
  have "KeyComparator c (entry_bytes x) (entry_bytes e) = entry_cmp c x e" if "x \<in> set es" for x
    using assms that by (simp add: KeyComparator_entry entry_bytes_ikey entry_cmp_def)
  then have "takeWhile (\<lambda>x. KeyComparator c (entry_bytes x) (entry_bytes e) < 0) es =
      takeWhile (\<lambda>x. entry_cmp c x e < 0) es"
    "dropWhile (\<lambda>x. KeyComparator c (entry_bytes x) (entry_bytes e) < 0) es =
      dropWhile (\<lambda>x. entry_cmp c x e < 0) es"
    by (auto intro!: takeWhile_cong dropWhile_cong)
  then show ?thesis by (simp add: insert_key_def takeWhile_map dropWhile_map o_def)
qed

lemma set_insert_key [simp]: "set (insert_key cmp k ks) = insert k (set ks)"
  unfolding insert_key_def by (metis Un_insert_right list.simps(15) set_append takeWhile_dropWhile_id)

lemma entry_cmp_zero:
  assumes "entry_small a" "entry_small b" "entry_cmp c a b = 0"
  shows "sequence (fst a) = sequence (fst b)"
proof -
  have "ikey_num (entry_ikey a) = ikey_num (entry_ikey b)"
    using assms(3) by (simp add: entry_cmp_def InternalKey_Compare_iff)
  then show ?thesis
    using drop_bit_Pack assms(1,2) unfolding entry_small_def entry_ikey_def AppendInternalKey_eq
    by (metis append_Nil ikey_parts(2))
qed

locale mem_table = user: three_way "Compare c" for c :: Comparator

sublocale mem_table \<subseteq> table: skip_list "KeyComparator c"
  using internal_order.internal_three_way [OF internal_order.intro [OF user.three_way_axioms]]
  by (intro skip_list.intro KeyComparator_three_way)

context mem_table
begin

lemma add_holds:
  assumes "mem_holds c mt es" "entry_small (k, v)"
    and "sequence k \<notin> (\<lambda>e. sequence (fst e)) ` set es"
  shows "\<exists>mt'. MemTable_Add new_char (sequence k) (ikey_type k) (user_key k) v mt = Some mt' \<and>
           mem_holds c mt' (insert_key (entry_cmp c) (k, v) es)"
proof -
  let ?e = "(k, v)"
  define sl where "sl = (mt_table mt)\<lparr> sl_arena := snd (Allocate new_char
      (VarintLength (of_nat (length (user_key k) + 8)) + (length (user_key k) + 8) +
       VarintLength (of_nat (length v)) + length v) (sl_arena (mt_table mt))) \<rparr>"
  have buf: "EncodeVarint32 (of_nat (length (user_key k) + 8)) @ user_key k @
      EncodeFixed64 (push_bit 8 (sequence k) OR ValueType_num (ikey_type k)) @
      EncodeVarint32 (of_nat (length v)) @ v = entry_bytes ?e"
    by (simp add: entry_bytes_def length_entry_ikey)
      (simp add: entry_ikey_def AppendInternalKey_eq PackSequenceAndType_def)
  have add: "MemTable_Add new_char (sequence k) (ikey_type k) (user_key k) v mt =
      map_option (\<lambda>table. mt\<lparr> mt_table := table \<rparr>) (SkipList_Insert (KeyComparator c) new_char (entry_bytes ?e) sl)"
    using assms(1) unfolding MemTable_Add_def Let_def sl_def [symmetric] buf by (simp add: mem_holds_def)
  have small: "\<forall>x \<in> set es. entry_small x" using assms(1) by (simp add: mem_holds_def)
  have holds: "sl_holds (KeyComparator c) sl (map entry_bytes es)"
    using assms(1) by (simp add: mem_holds_def sl_def)
  have new: "KeyComparator c x (entry_bytes ?e) \<noteq> 0" if "x \<in> set (map entry_bytes es)" for x
  proof -
    from that obtain a where a: "a \<in> set es" "x = entry_bytes a" by auto
    then have "entry_cmp c a ?e \<noteq> 0"
      using entry_cmp_zero [of a ?e c] small assms(2,3) by force
    then show ?thesis using a small assms(2) by (simp add: KeyComparator_entry entry_bytes_ikey entry_cmp_def)
  qed
  from table.insert_holds [OF holds, of "entry_bytes ?e" new_char] new obtain sl' where
    "SkipList_Insert (KeyComparator c) new_char (entry_bytes ?e) sl = Some sl'"
    "sl_holds (KeyComparator c) sl' (insert_key (KeyComparator c) (entry_bytes ?e) (map entry_bytes es))"
    by blast
  then show ?thesis
    using add assms(1,2) small insert_key_entries [OF small assms(2), of c]
    by (auto simp: mem_holds_def)
qed


lemma seek_pos:
  fixes u es
  assumes "sorted_wrt (\<lambda>a b. entry_cmp c a b < 0) es" "\<forall>e \<in> set es. entry_small e"
    and "s \<le> kMaxSequenceNumber"
  defines "P \<equiv> \<lambda>e. InternalKey_Compare c (entry_ikey e) (InternalKey_new u s kValueTypeForSeek) < 0"
  shows "case dropWhile P es of
      [] \<Rightarrow> \<forall>e \<in> set es. \<not> visible c u s e
    | e # _ \<Rightarrow> if Compare c (user_key (fst e)) u = 0
        then e \<in> set es \<and> visible c u s e \<and> (\<forall>x \<in> set es. visible c u s x \<longrightarrow> sequence (fst x) \<le> sequence (fst e))
        else (\<forall>x \<in> set es. \<not> visible c u s x)"
proof -
  have P: "P e \<longleftrightarrow> Compare c (user_key (fst e)) u < 0 \<or> Compare c (user_key (fst e)) u = 0 \<and> s < sequence (fst e)"
    if "entry_small e" for e
  proof -
    have "InternalKey_new u s kValueTypeForSeek = AppendInternalKey [] \<lparr> user_key = u, sequence = s, ikey_type = kTypeValue \<rparr>"
      by (simp add: InternalKey_new_def kValueTypeForSeek_def)
    then show ?thesis
      using InternalKey_Compare_packed [of "fst e" "\<lparr> user_key = u, sequence = s, ikey_type = kTypeValue \<rparr>" c]
        that assms(3) by (simp add: P_def entry_ikey_def entry_small_def)
  qed
  have notP: "\<not> P e" if "entry_small e" "visible c u s e" for e
    using that by (auto simp: P visible_def)
  have drop: "visible c u s x \<Longrightarrow> x \<in> set es \<Longrightarrow> x \<in> set (dropWhile P es)" for x
    using notP assms(2) by (metis UnE set_append set_takeWhileD takeWhile_dropWhile_id)
  show ?thesis
  proof (cases "dropWhile P es")
    case Nil
    have "\<forall>e \<in> set es. \<not> visible c u s e" using drop unfolding Nil by auto
    then show ?thesis unfolding Nil by simp
  next
    case (Cons e rest)
    then have e: "e \<in> set es" "\<not> P e"
      by (metis list.set_intros(1) set_dropWhileD, metis Cons hd_dropWhile list.discI list.sel(1))
    have small: "entry_small e" "\<And>x. x \<in> set rest \<Longrightarrow> entry_small x"
      using assms(2) e(1) set_dropWhileD [of _ P es] unfolding Cons by auto
    have sorted: "\<And>x. x \<in> set rest \<Longrightarrow> entry_cmp c e x < 0"
      using assms(1) sorted_wrt_dropWhile [of _ es P] Cons by fastforce
    have less: "Compare c (user_key (fst e)) (user_key (fst x)) < 0 \<or>
        Compare c (user_key (fst e)) (user_key (fst x)) = 0 \<and> sequence (fst x) \<le> sequence (fst e)"
      if "x \<in> set rest" for x
      using sorted [OF that] InternalKey_Compare_packed [of "fst e" "fst x" c] small that
      by (auto simp: entry_cmp_def entry_ikey_def entry_small_def)
    have vis: "x = e \<or> x \<in> set rest" if "x \<in> set es" "visible c u s x" for x
      using drop that Cons by fastforce
    show ?thesis
    proof (cases "Compare c (user_key (fst e)) u = 0")
      case True
      have "visible c u s e" using True e(2) small(1) by (auto simp: P visible_def)
      moreover have "sequence (fst x) \<le> sequence (fst e)" if "x \<in> set es" "visible c u s x" for x
        using vis [OF that] less [of x] that(2) True user.cmp_zero_right [of "user_key (fst x)" u "user_key (fst e)"]
        by (auto simp: visible_def)
      ultimately show ?thesis using True Cons e(1) by simp
    next
      case False
      then have "Compare c u (user_key (fst e)) < 0"
        using e(2) small(1) user.cmp_neg [of u "user_key (fst e)"] by (auto simp: P)
      then have "\<not> visible c u s x" if "x \<in> set es" for x
        using vis [OF that] less [of x] False user.cmp_less_trans [of u "user_key (fst e)" "user_key (fst x)"]
          user.cmp_zero_right [of "user_key (fst e)" "user_key (fst x)" u]
          user.cmp_zero_sym [of "user_key (fst x)" u]
        by (auto simp: visible_def)
      with False Cons show ?thesis by simp
    qed
  qed
qed


lemma seek_entry:
  fixes u s es
  assumes "mem_holds c mt es" "length u + 8 < 2 ^ 32"
  defines "P \<equiv> \<lambda>e. InternalKey_Compare c (entry_ikey e) (InternalKey_new u s kValueTypeForSeek) < 0"
  shows "\<exists>it. sl_iter_Seek (KeyComparator c) (mt_table mt) (memtable_key (LookupKey_new u s)) = Some it \<and>
    (case dropWhile P es of [] \<Rightarrow> it = None
     | e # _ \<Rightarrow> it \<noteq> None \<and> sl_iter_key (mt_table mt) it = entry_bytes e)"
proof -
  let ?k = "memtable_key (LookupKey_new u s)"
  from assms(1) obtain ns where ns: "sl_inv (KeyComparator c) (mt_table mt) ns"
    "map entry_bytes es = sl_keys (mt_table mt) ns" by (auto simp: mem_holds_def sl_holds_def)
  have "KeyComparator c (entry_bytes e) ?k < 0 \<longleftrightarrow> P e" if "e \<in> set es" for e
    using assms(1,2) that by (simp add: mem_holds_def KeyComparator_entry memtable_key_ikey P_def)
  then have tw: "takeWhile (\<lambda>x. KeyComparator c x ?k < 0) (map entry_bytes es) = map entry_bytes (takeWhile P es)"
    by (simp add: takeWhile_map o_def cong: takeWhile_cong)
  let ?j = "length (takeWhile P es)"
  have seek: "sl_iter_Seek (KeyComparator c) (mt_table mt) ?k = Some (at_pos ns ?j)"
    using table.iter_holds(2) [OF ns(1), of ?k] tw ns(2) by simp
  have len: "length ns = length es" using arg_cong [OF ns(2), of length] by (simp add: sl_keys_def)
  show ?thesis
  proof (cases "dropWhile P es")
    case Nil
    then have "?j = length es" by (metis append_Nil2 takeWhile_dropWhile_id)
    then show ?thesis using seek len unfolding Nil by (simp add: at_pos_def)
  next
    case (Cons e rest)
    have es: "es = takeWhile P es @ e # rest" using Cons by (metis takeWhile_dropWhile_id)
    then have j: "?j < length es" "es ! ?j = e" by (metis length_append less_add_same_cancel1
        length_Cons zero_less_Suc, metis nth_append_length)
    have "sl_iter_key (mt_table mt) (at_pos ns ?j) = entry_bytes e"
      using table.iter_holds(4) [OF ns(1), of ?j] j len ns(2) [symmetric] by simp
    then show ?thesis using seek j len unfolding Cons by (simp add: at_pos_def)
  qed
qed

lemma get_holds:
  assumes "mem_holds c mt es" "length u + 8 < 2 ^ 32" "s \<le> kMaxSequenceNumber"
    and "inj_on (\<lambda>e. sequence (fst e)) (set es)"
  shows "MemTable_Get mt (LookupKey_new u s) = Some (lookup_result (newest c u s es None))"
proof -
  let ?P = "\<lambda>e. InternalKey_Compare c (entry_ikey e) (InternalKey_new u s kValueTypeForSeek) < 0"
  have small: "\<forall>e \<in> set es. entry_small e" and mc: "mt_comparator mt = c"
    using assms(1) by (auto simp: mem_holds_def)
  note pos = seek_pos [OF mem_holds_sorted [OF assms(1)] small assms(3), of u]
  obtain it where it: "sl_iter_Seek (KeyComparator c) (mt_table mt) (memtable_key (LookupKey_new u s)) = Some it"
    "case dropWhile ?P es of [] \<Rightarrow> it = None
     | e # _ \<Rightarrow> it \<noteq> None \<and> sl_iter_key (mt_table mt) it = entry_bytes e"
    using seek_entry [OF assms(1,2)] by blast
  show ?thesis
  proof (cases "dropWhile ?P es")
    case Nil
    have "newest c u s es None = None" using pos newest_None_iff unfolding Nil by simp
    then show ?thesis using it unfolding Nil MemTable_Get_def Let_def mc
      by (simp add: sl_iter_Valid_def lookup_result_def)
  next
    case (Cons e rest)
    have e: "e \<in> set es" using Cons by (metis list.set_intros(1) set_dropWhileD)
    obtain len p where d: "entry_varint (entry_bytes e) = (len, p)"
      "take (unat (len - 8)) p = user_key (fst e)"
      "DecodeFixed64 (drop (unat len - 8) p) AND 0xff = ValueType_num (ikey_type (fst e))"
      "entry_GetLengthPrefixedSlice (drop (unat len) p) = snd e"
      using entry_decode [of e] small e by blast
    have get: "MemTable_Get mt (LookupKey_new u s) =
        Some (if Compare c (user_key (fst e)) u = 0 then lookup_result (Some e) else GetMissing)"
      using it Cons d unfolding MemTable_Get_def Let_def mc
      by (cases "ikey_type (fst e)") (simp_all add: sl_iter_Valid_def lookup_result_def LookupKey_parts)
    show ?thesis
    proof (cases "Compare c (user_key (fst e)) u = 0")
      case True
      then have "newest c u s es None = Some e"
        using pos Cons assms(4) by (intro newest_unique) auto
      then show ?thesis using get True by simp
    next
      case False
      then have "newest c u s es None = None" using pos Cons newest_None_iff by simp
      then show ?thesis using get False by (simp add: lookup_result_def)
    qed
  qed
qed


text \<open>Adding entries one after the other.\<close>

lemma add_all_holds:
  assumes "mem_holds c mt es0" "\<forall>e \<in> set es. entry_small e"
    and "distinct (map (\<lambda>e. sequence (fst e)) es)"
    and "\<forall>e \<in> set es. \<forall>e0 \<in> set es0. sequence (fst e) \<noteq> sequence (fst e0)"
  shows "\<exists>mt' es'. mem_add_all new_char es mt = Some mt' \<and> mem_holds c mt' es' \<and> set es' = set es0 \<union> set es"
  using assms
proof (induction es arbitrary: mt es0)
  case (Cons e es)
  obtain k v where e: "e = (k, v)" by fastforce
  have "sequence k \<notin> (\<lambda>e. sequence (fst e)) ` set es0" using Cons.prems(4) e by auto
  then obtain mt1 where mt1: "MemTable_Add new_char (sequence k) (ikey_type k) (user_key k) v mt = Some mt1"
    "mem_holds c mt1 (insert_key (entry_cmp c) e es0)"
    using add_holds [OF Cons.prems(1), of k v new_char] Cons.prems(2) e by auto
  have "\<exists>mt' es'. mem_add_all new_char es mt1 = Some mt' \<and> mem_holds c mt' es' \<and>
      set es' = set (insert_key (entry_cmp c) e es0) \<union> set es"
  proof (rule Cons.IH [OF mt1(2)])
    show "\<forall>e \<in> set es. entry_small e" using Cons.prems(2) by simp
    show "distinct (map (\<lambda>e. sequence (fst e)) es)" using Cons.prems(3) by simp
    have fresh: "sequence (fst e') \<noteq> sequence (fst e)" if "e' \<in> set es" for e'
      using Cons.prems(3) that by (auto simp: image_iff)
    show "\<forall>e' \<in> set es. \<forall>e0 \<in> set (insert_key (entry_cmp c) e es0). sequence (fst e') \<noteq> sequence (fst e0)"
      using Cons.prems(4) fresh by (simp only: set_insert_key) simp
  qed
  then show ?case using mt1(1) e by auto
qed auto

end

interpretation bytewise_mem: mem_table BytewiseComparator
  by unfold_locales

lemma newest_set:
  assumes "set es = set es'" "inj_on (\<lambda>e. sequence (fst e)) (set es)"
  shows "newest c u s es None = newest c u s es' None"
proof (cases "newest c u s es' None")
  case None
  then show ?thesis using assms(1) newest_None_iff by metis
next
  case (Some b)
  have "newest c u s es None = Some b"
    using newest_in [OF Some] newest_ge [OF Some] assms by (intro newest_unique) auto
  then show ?thesis using Some by simp
qed

lemma mem_new_holds: "mem_holds c (MemTable_new new_char c) []"
  by (simp add: mem_holds_def MemTable_new_def SkipList_new_holds)

lemma inj_on_distinct: "distinct (map f xs) \<Longrightarrow> inj_on f (set xs)"
  by (simp add: distinct_map)

lemma mem_get_after_add:
  assumes "three_way (Compare c)" "\<forall>e \<in> set es. entry_small e"
    and "distinct (map (\<lambda>e. sequence (fst e)) es)"
  shows "\<exists>mt. mem_add_all new_char es (MemTable_new new_char c) = Some mt \<and>
    (\<forall>u s. length u + 8 < 2 ^ 32 \<longrightarrow> s \<le> kMaxSequenceNumber \<longrightarrow>
       MemTable_Get mt (LookupKey_new u s) = Some (lookup_result (newest c u s es None)))"
proof -
  have m: "mem_table c" using assms(1) by (rule mem_table.intro)
  obtain mt es' where mt: "mem_add_all new_char es (MemTable_new new_char c) = Some mt"
    "mem_holds c mt es'" "set es' = set es"
    using mem_table.add_all_holds [OF m mem_new_holds [of c new_char] assms(2,3), of new_char] by auto
  have inj: "inj_on (\<lambda>e. sequence (fst e)) (set es)" using assms(3) by (rule inj_on_distinct)
  have "MemTable_Get mt (LookupKey_new u s) = Some (lookup_result (newest c u s es None))"
    if "length u + 8 < 2 ^ 32" "s \<le> kMaxSequenceNumber" for u s
    using mem_table.get_holds [OF m mt(2) that] newest_set [of es es' c u s] mt(3) inj by simp
  with mt(1) show ?thesis by blast
qed

text \<open>The entries a batch with first sequence number \<open>q\<close> stands for.\<close>

primrec op_entries :: "SequenceNumber \<Rightarrow> batch_op list \<Rightarrow> mem_entry list" where
  "op_entries q [] = []"
| "op_entries q (op # ops) =
     (case op of
        PutOp k v \<Rightarrow> (\<lparr> user_key = k, sequence = q, ikey_type = kTypeValue \<rparr>, v)
      | DeleteOp k \<Rightarrow> (\<lparr> user_key = k, sequence = q, ikey_type = kTypeDeletion \<rparr>, [])) # op_entries (q + 1) ops"

lemma fold_inserter:
  "fold (handle_op (MemTableInserter new_char)) ops (q, mem) =
     (q + of_nat (length ops), Option.bind mem (mem_add_all new_char (op_entries q ops)))"
proof (induction ops arbitrary: q mem)
  case Nil
  then show ?case by (cases mem) auto
next
  case (Cons op ops)
  then show ?case
    by (cases op; cases mem) (auto simp: MemTableInserter_def split: option.splits)
qed

lemma op_entries_sequence:
  "map (\<lambda>e. sequence (fst e)) (op_entries q ops) = map (\<lambda>i. q + of_nat i) [0..<length ops]"
proof (induction ops arbitrary: q)
  case (Cons op ops)
  have "map (\<lambda>i. q + of_nat i) [0..<Suc (length ops)] = q # map (\<lambda>i. q + 1 + of_nat i) [0..<length ops]"
    by (simp add: upt_conv_Cons map_Suc_upt [symmetric] o_def algebra_simps del: upt_Suc)
  with Cons show ?case by (simp split: batch_op.split)
qed simp

lemma op_entries_ok:
  assumes "\<forall>op \<in> set ops. op_fits op" "unat q + length ops \<le> 2 ^ 56"
  shows "(\<forall>e \<in> set (op_entries q ops). entry_small e) \<and>
         distinct (map (\<lambda>e. sequence (fst e)) (op_entries q ops))"
proof
  have un: "unat (q + of_nat i) = unat q + i" if "i < length ops" for i
  proof -
    have "unat (of_nat (unat q + i) :: u64) = unat q + i" using that assms(2) by (intro unat_u64_of_nat) simp
    then show ?thesis by simp
  qed
  have "inj_on (\<lambda>i. q + of_nat i) {0..<length ops}"
    by (rule inj_onI) (metis add_left_cancel atLeastLessThan_iff un)
  then show "distinct (map (\<lambda>e. sequence (fst e)) (op_entries q ops))"
    unfolding op_entries_sequence by (simp add: distinct_map)
  show "\<forall>e \<in> set (op_entries q ops). entry_small e"
    using assms
  proof (induction ops arbitrary: q)
    case (Cons op ops)
    have "unat (q + 1) = unat q + 1"
      using Cons.prems(2) by (simp add: unat_word_ariths)
    then have "\<forall>e \<in> set (op_entries (q + 1) ops). entry_small e" using Cons by (intro Cons.IH) auto
    then show ?case using Cons.prems
      by (auto simp: entry_small_def seq_le_max split: batch_op.splits)
  qed simp
qed

section \<open>Properties\<close>





end
