(* ===== verification/Iterator.thy ===== *)
theory Iterator
  imports Comparator
begin

text \<open>
  \<open>include/leveldb/iterator.h\<close>, \<open>table/iterator.cc\<close> and \<open>table/iterator_wrapper.h\<close>.  The abstract
  class is a record of its virtual functions over a state type; the locale \<open>iterator\<close> states what
  its documentation promises: the iterator is a cursor over a sorted sequence of entries.
\<close>

section \<open>Definitions\<close>

type_synonym kv = "slice \<times> slice"

record 's Iterator =
  it_Valid :: "'s \<Rightarrow> bool"
  it_SeekToFirst :: "'s \<Rightarrow> 's"
  it_SeekToLast :: "'s \<Rightarrow> 's"
  it_Seek :: "slice \<Rightarrow> 's \<Rightarrow> 's"
  it_Next :: "'s \<Rightarrow> 's"
  it_Prev :: "'s \<Rightarrow> 's"
  it_key :: "'s \<Rightarrow> slice"
  it_value :: "'s \<Rightarrow> slice"
  it_status :: "'s \<Rightarrow> Status"

text \<open>
  The cleanup functions an iterator runs when it is destroyed, first the one in \<open>cleanup_head_\<close>,
  then the linked nodes.
\<close>

fun RegisterCleanup :: "('w \<Rightarrow> 'w) \<Rightarrow> ('w \<Rightarrow> 'w) list \<Rightarrow> ('w \<Rightarrow> 'w) list" where
  "RegisterCleanup func [] = [func]"
| "RegisterCleanup func (head # rest) = head # func # rest"

definition Iterator_destroy :: "('w \<Rightarrow> 'w) list \<Rightarrow> 'w \<Rightarrow> 'w" where
  "Iterator_destroy nodes w = fold (\<lambda>f. f) nodes w"

text \<open>\<open>EmptyIterator\<close>: its state is the status it reports.\<close>

definition EmptyIterator :: "Status Iterator" where
  "EmptyIterator =
     \<lparr> it_Valid = (\<lambda>s. False), it_SeekToFirst = (\<lambda>s. s), it_SeekToLast = (\<lambda>s. s),
       it_Seek = (\<lambda>target s. s), it_Next = (\<lambda>s. s), it_Prev = (\<lambda>s. s),
       it_key = (\<lambda>s. []), it_value = (\<lambda>s. []), it_status = (\<lambda>s. s) \<rparr>"

definition NewEmptyIterator :: Status where
  "NewEmptyIterator = OK"

definition NewErrorIterator :: "Status \<Rightarrow> Status" where
  "NewErrorIterator status = status"

text \<open>
  \<open>IteratorWrapper\<close> caches \<open>Valid()\<close> and \<open>key()\<close> of the iterator it owns.
\<close>

record 's IteratorWrapper =
  iw_iter :: "'s option"
  iw_valid :: bool
  iw_key :: slice

definition IteratorWrapper_new :: "'s IteratorWrapper" where
  "IteratorWrapper_new = \<lparr> iw_iter = None, iw_valid = False, iw_key = [] \<rparr>"

definition IteratorWrapper_Update :: "'s Iterator \<Rightarrow> 's IteratorWrapper \<Rightarrow> 's IteratorWrapper" where
  "IteratorWrapper_Update I w =
     (let w = w\<lparr> iw_valid := it_Valid I (the (iw_iter w)) \<rparr>
      in if iw_valid w then w\<lparr> iw_key := it_key I (the (iw_iter w)) \<rparr> else w)"

definition IteratorWrapper_Set :: "'s Iterator \<Rightarrow> 's option \<Rightarrow> 's IteratorWrapper \<Rightarrow> 's IteratorWrapper" where
  "IteratorWrapper_Set I iter w =
     (let w = w\<lparr> iw_iter := iter \<rparr>
      in case iter of None \<Rightarrow> w\<lparr> iw_valid := False \<rparr> | Some _ \<Rightarrow> IteratorWrapper_Update I w)"

definition iw_apply :: "'s Iterator \<Rightarrow> ('s \<Rightarrow> 's) \<Rightarrow> 's IteratorWrapper \<Rightarrow> 's IteratorWrapper" where
  "iw_apply I f w = IteratorWrapper_Update I (w\<lparr> iw_iter := map_option f (iw_iter w) \<rparr>)"

definition IteratorWrapper :: "'s Iterator \<Rightarrow> 's IteratorWrapper Iterator" where
  "IteratorWrapper I =
     \<lparr> it_Valid = iw_valid,
       it_SeekToFirst = iw_apply I (it_SeekToFirst I),
       it_SeekToLast = iw_apply I (it_SeekToLast I),
       it_Seek = (\<lambda>k. iw_apply I (it_Seek I k)),
       it_Next = iw_apply I (it_Next I),
       it_Prev = iw_apply I (it_Prev I),
       it_key = iw_key,
       it_value = (\<lambda>w. it_value I (the (iw_iter w))),
       it_status = (\<lambda>w. it_status I (the (iw_iter w))) \<rparr>"

section \<open>The contract\<close>

text \<open>The position of the first entry whose key is not below \<open>t\<close>.\<close>

definition lower_bound :: "('k \<Rightarrow> 'k \<Rightarrow> int) \<Rightarrow> 'k \<Rightarrow> ('k \<times> 'v) list \<Rightarrow> nat" where
  "lower_bound cmp t kvs = length (takeWhile (\<lambda>e. cmp (fst e) t < 0) kvs)"

definition sorted_kvs :: "('k \<Rightarrow> 'k \<Rightarrow> int) \<Rightarrow> ('k \<times> 'v) list \<Rightarrow> bool" where
  "sorted_kvs cmp kvs = sorted_wrt (\<lambda>a b. cmp (fst a) (fst b) < 0) kvs"

lemma lower_bound_le: "lower_bound cmp t kvs \<le> length kvs"
  by (simp add: lower_bound_def length_takeWhile_le)

lemma lower_bound_append_less:
  "\<forall>e \<in> set a. cmp (fst e) t < 0 \<Longrightarrow> lower_bound cmp t (a @ b) = length a + lower_bound cmp t b"
  by (simp add: lower_bound_def takeWhile_append2)

lemma lower_bound_unique:
  assumes "i \<le> length kvs" "\<forall>j < i. cmp (fst (kvs ! j)) t < 0"
    and "i < length kvs \<Longrightarrow> \<not> cmp (fst (kvs ! i)) t < 0"
  shows "lower_bound cmp t kvs = i"
proof -
  have "takeWhile (\<lambda>e. cmp (fst e) t < 0) kvs = take i kvs"
    using assms by (intro takeWhile_eq_take_P_nth) auto
  then show ?thesis using assms(1) by (simp add: lower_bound_def)
qed

lemma lower_bound_nth_less: "j < lower_bound cmp t kvs \<Longrightarrow> cmp (fst (kvs ! j)) t < 0"
  unfolding lower_bound_def by (metis nth_mem set_takeWhileD takeWhile_nth)

lemma lower_bound_nth_ge: "lower_bound cmp t kvs < length kvs \<Longrightarrow> \<not> cmp (fst (kvs ! lower_bound cmp t kvs)) t < 0"
  unfolding lower_bound_def by (rule nth_length_takeWhile)

context three_way
begin

lemma lower_bound_less:
  assumes "sorted_kvs cmp kvs" "j < length kvs" "cmp (fst (kvs ! j)) t < 0"
  shows "j < lower_bound cmp t kvs"
proof (rule ccontr)
  let ?l = "lower_bound cmp t kvs"
  assume "\<not> j < ?l"
  then have l: "?l \<le> j" "?l < length kvs" using assms(2) by auto
  then have "cmp (fst (kvs ! ?l)) (fst (kvs ! j)) \<le> 0"
    using assms(1,2) unfolding sorted_kvs_def
    by (cases "?l = j") (auto simp: sorted_wrt_iff_nth_less intro: less_imp_le)
  then have "cmp (fst (kvs ! ?l)) t < 0" using assms(3) by (rule cmp_le_less_trans)
  with lower_bound_nth_ge [OF l(2)] show False by simp
qed

lemma lower_bound_unique_sorted:
  assumes "sorted_kvs cmp kvs" "j < length kvs" "cmp (fst (kvs ! j)) t = 0"
  shows "lower_bound cmp t kvs = j"
proof (rule lower_bound_unique)
  show "\<forall>i < j. cmp (fst (kvs ! i)) t < 0"
    using assms cmp_less_le_trans unfolding sorted_kvs_def by (simp add: sorted_wrt_iff_nth_less) (metis order_refl)
qed (use assms in auto)

lemma lower_bound_le_iff:
  "sorted_kvs cmp kvs \<Longrightarrow> j < length kvs \<Longrightarrow> j < lower_bound cmp t kvs \<longleftrightarrow> cmp (fst (kvs ! j)) t < 0"
  using lower_bound_less [of kvs j t] lower_bound_nth_less [of j cmp t kvs] by argo

end

text \<open>
  \<open>cursor s kvs i\<close>: the iterator in state \<open>s\<close> ranges over the entries \<open>kvs\<close> and is positioned at
  number \<open>i\<close>, or is not valid when \<open>i\<close> is their number.
\<close>

locale iterator = three_way cmp for cmp :: "slice \<Rightarrow> slice \<Rightarrow> int" +
  fixes I :: "'s Iterator"
    and cursor :: "'s \<Rightarrow> kv list \<Rightarrow> nat \<Rightarrow> bool"
  assumes cursor_sorted: "cursor s kvs i \<Longrightarrow> sorted_kvs cmp kvs"
    and cursor_le: "cursor s kvs i \<Longrightarrow> i \<le> length kvs"
    and cursor_Valid: "cursor s kvs i \<Longrightarrow> it_Valid I s \<longleftrightarrow> i < length kvs"
    and cursor_entry: "cursor s kvs i \<Longrightarrow> i < length kvs \<Longrightarrow> (it_key I s, it_value I s) = kvs ! i"
    and cursor_SeekToFirst: "cursor s kvs i \<Longrightarrow> cursor (it_SeekToFirst I s) kvs 0"
    and cursor_SeekToLast: "cursor s kvs i \<Longrightarrow> cursor (it_SeekToLast I s) kvs (length kvs - 1)"
    and cursor_Seek: "cursor s kvs i \<Longrightarrow> cursor (it_Seek I t s) kvs (lower_bound cmp t kvs)"
    and cursor_Next: "cursor s kvs i \<Longrightarrow> i < length kvs \<Longrightarrow> cursor (it_Next I s) kvs (Suc i)"
    and cursor_Prev:
      "cursor s kvs i \<Longrightarrow> i < length kvs \<Longrightarrow> cursor (it_Prev I s) kvs (if i = 0 then length kvs else i - 1)"
    and cursor_status: "cursor s kvs i \<Longrightarrow> it_status I s = OK"
begin

lemma cursor_key: "cursor s kvs i \<Longrightarrow> i < length kvs \<Longrightarrow> it_key I s = fst (kvs ! i)"
  using cursor_entry by (metis fst_conv)

lemma cursor_value: "cursor s kvs i \<Longrightarrow> i < length kvs \<Longrightarrow> it_value I s = snd (kvs ! i)"
  using cursor_entry by (metis snd_conv)

lemma cursor_Prev_0: "cursor s kvs 0 \<Longrightarrow> 0 < length kvs \<Longrightarrow> cursor (it_Prev I s) kvs (length kvs)"
  using cursor_Prev [of s kvs 0] by simp

lemma cursor_Prev_Suc: "cursor s kvs i \<Longrightarrow> i < length kvs \<Longrightarrow> 0 < i \<Longrightarrow> cursor (it_Prev I s) kvs (i - Suc 0)"
  using cursor_Prev [of s kvs i] by simp

lemmas cursor_laws = cursor_sorted cursor_le cursor_Valid cursor_entry cursor_SeekToFirst
  cursor_SeekToLast [simplified] cursor_Seek cursor_Next cursor_status

end

text \<open>Scanning: what a client collects that calls \<open>Next\<close> at most \<open>fuel\<close> times while \<open>Valid\<close>.\<close>

primrec it_collect :: "'s Iterator \<Rightarrow> nat \<Rightarrow> 's \<Rightarrow> kv list" where
  "it_collect I 0 s = []"
| "it_collect I (Suc fuel) s =
     (if it_Valid I s then (it_key I s, it_value I s) # it_collect I fuel (it_Next I s) else [])"

context iterator
begin

lemma collect_drop: "cursor s kvs i \<Longrightarrow> length kvs - i \<le> fuel \<Longrightarrow> it_collect I fuel s = drop i kvs"
proof (induction fuel arbitrary: s i)
  case (Suc fuel)
  then show ?case
    using cursor_Valid [OF Suc.prems(1)] cursor_Next [OF Suc.prems(1)] cursor_entry [OF Suc.prems(1)]
    by (cases "i < length kvs") (auto simp: Cons_nth_drop_Suc)
qed simp

lemma scan_all: "cursor s kvs i \<Longrightarrow> it_collect I (length kvs) (it_SeekToFirst I s) = kvs"
  using collect_drop [OF cursor_SeekToFirst, of s kvs i "length kvs"] by simp

lemma scan_from: "cursor s kvs i \<Longrightarrow>
   it_collect I (length kvs) (it_Seek I t s) = dropWhile (\<lambda>e. cmp (fst e) t < 0) kvs"
  using collect_drop [OF cursor_Seek, of s kvs i t "length kvs"]
  by (simp add: lower_bound_def dropWhile_eq_drop)

end

section \<open>Empty iterators\<close>

lemma empty_iterator: "three_way cmp \<Longrightarrow> iterator cmp EmptyIterator (\<lambda>s kvs i. s = OK \<and> kvs = [] \<and> i = 0)"
  by (intro iterator.intro iterator_axioms.intro)
     (auto simp: EmptyIterator_def sorted_kvs_def lower_bound_def)

interpretation empty: iterator "Compare BytewiseComparator" EmptyIterator "\<lambda>s kvs i. s = OK \<and> kvs = [] \<and> i = 0"
  by (rule empty_iterator) unfold_locales

section \<open>The wrapper\<close>

definition wrapper_ok :: "'s Iterator \<Rightarrow> 's IteratorWrapper \<Rightarrow> bool" where
  "wrapper_ok I w =
     (case iw_iter w of
        None \<Rightarrow> \<not> iw_valid w
      | Some s \<Rightarrow> iw_valid w = it_Valid I s \<and> (iw_valid w \<longrightarrow> iw_key w = it_key I s))"

lemma wrapper_new_ok: "wrapper_ok I IteratorWrapper_new"
  by (simp add: wrapper_ok_def IteratorWrapper_new_def)

lemma wrapper_Set_ok [simp]: "wrapper_ok I (IteratorWrapper_Set I it w)" "iw_iter (IteratorWrapper_Set I it w) = it"
  by (auto simp: wrapper_ok_def IteratorWrapper_Set_def IteratorWrapper_Update_def Let_def split: option.split)

lemma wrapper_apply_ok [simp]:
  "iw_iter w = Some s \<Longrightarrow> wrapper_ok I (iw_apply I f w)"
  "iw_iter (iw_apply I f w) = map_option f (iw_iter w)"
  by (auto simp: wrapper_ok_def iw_apply_def IteratorWrapper_Update_def Let_def)

lemma IteratorWrapper_sel:
  "it_Valid (IteratorWrapper I) = iw_valid"
  "it_SeekToFirst (IteratorWrapper I) = iw_apply I (it_SeekToFirst I)"
  "it_SeekToLast (IteratorWrapper I) = iw_apply I (it_SeekToLast I)"
  "it_Seek (IteratorWrapper I) k = iw_apply I (it_Seek I k)"
  "it_Next (IteratorWrapper I) = iw_apply I (it_Next I)"
  "it_Prev (IteratorWrapper I) = iw_apply I (it_Prev I)"
  "it_key (IteratorWrapper I) = iw_key"
  "it_value (IteratorWrapper I) = (\<lambda>w. it_value I (the (iw_iter w)))"
  "it_status (IteratorWrapper I) = (\<lambda>w. it_status I (the (iw_iter w)))"
  by (simp_all add: IteratorWrapper_def)

definition wrapper_cursor ::
    "'s Iterator \<Rightarrow> ('s \<Rightarrow> kv list \<Rightarrow> nat \<Rightarrow> bool) \<Rightarrow> 's IteratorWrapper \<Rightarrow> kv list \<Rightarrow> nat \<Rightarrow> bool" where
  "wrapper_cursor I cursor w kvs i =
     (wrapper_ok I w \<and> (case iw_iter w of None \<Rightarrow> False | Some s \<Rightarrow> cursor s kvs i))"

context iterator
begin

lemma wrapper_apply_cursor:
  "wrapper_cursor I cursor w kvs i \<Longrightarrow> (\<And>s. cursor s kvs i \<Longrightarrow> cursor (f s) kvs j) \<Longrightarrow>
   wrapper_cursor I cursor (iw_apply I f w) kvs j"
  by (auto simp: wrapper_cursor_def split: option.splits)

lemma wrapper_iterator: "iterator cmp (IteratorWrapper I) (wrapper_cursor I cursor)"
proof (unfold_locales, unfold IteratorWrapper_sel, goal_cases)
  case (1 s kvs i)
  then show ?case by (auto simp: wrapper_cursor_def split: option.splits intro: cursor_sorted)
next
  case (2 s kvs i)
  then show ?case by (auto simp: wrapper_cursor_def split: option.splits intro: cursor_le)
next
  case (3 s kvs i)
  then show ?case by (auto simp: wrapper_cursor_def wrapper_ok_def cursor_Valid split: option.splits)
next
  case (4 s kvs i)
  then show ?case
    by (auto simp: wrapper_cursor_def wrapper_ok_def cursor_Valid cursor_key cursor_value split: option.splits)
next
  case (9 s kvs i)
  then show ?case using wrapper_apply_cursor cursor_Prev by blast
next
  case (10 s kvs i)
  then show ?case by (auto simp: wrapper_cursor_def cursor_status split: option.splits)
qed (rule wrapper_apply_cursor, assumption,
     blast intro: cursor_SeekToFirst cursor_SeekToLast cursor_Seek cursor_Next)+

end

section \<open>Iterators of either of two classes\<close>

text \<open>Dynamic dispatch between two implementations.\<close>

definition either_iterator :: "'a Iterator \<Rightarrow> 'b Iterator \<Rightarrow> ('a + 'b) Iterator" where
  "either_iterator A B =
     \<lparr> it_Valid = case_sum (it_Valid A) (it_Valid B),
       it_SeekToFirst = map_sum (it_SeekToFirst A) (it_SeekToFirst B),
       it_SeekToLast = map_sum (it_SeekToLast A) (it_SeekToLast B),
       it_Seek = (\<lambda>t. map_sum (it_Seek A t) (it_Seek B t)),
       it_Next = map_sum (it_Next A) (it_Next B),
       it_Prev = map_sum (it_Prev A) (it_Prev B),
       it_key = case_sum (it_key A) (it_key B),
       it_value = case_sum (it_value A) (it_value B),
       it_status = case_sum (it_status A) (it_status B) \<rparr>"

lemma either_iterator:
  assumes "iterator cmp A ca" "iterator cmp B cb"
  shows "iterator cmp (either_iterator A B) (case_sum ca cb)"
proof -
  have "three_way cmp" using assms(1) by (rule iterator.axioms)
  moreover have "iterator_axioms cmp (either_iterator A B) (case_sum ca cb)"
    by (rule iterator_axioms.intro; case_tac s; simp add: either_iterator_def;
        (rule iterator.cursor_laws [OF assms(1)] iterator.cursor_laws [OF assms(2)]; assumption)?)
       (use iterator.cursor_Prev_0 [OF assms(1)] iterator.cursor_Prev_Suc [OF assms(1)]
          iterator.cursor_Prev_0 [OF assms(2)] iterator.cursor_Prev_Suc [OF assms(2)] in fastforce)+
  ultimately show ?thesis by (rule iterator.intro)
qed

end
