(* ===== verification/Block.thy ===== *)
theory Block
  imports Coding Iterator
begin

text \<open>
  \<open>table/block_builder.cc\<close> and \<open>table/block.cc\<close>: prefix-compressed blocks of sorted entries with
  restart points, and the iterator over them.  Offsets into a block are natural numbers; the
  32-bit truncations of the source are written out.  The loops of the iterator are total functions:
  every successful parse moves forward, whatever the bytes are.
\<close>

section \<open>Definitions\<close>

record BlockBuilder =
  bb_block_restart_interval :: nat
  bb_buffer :: slice
  bb_restarts :: "u32 list"
  bb_counter :: nat
  bb_finished :: bool
  bb_last_key :: slice

definition BlockBuilder_new :: "nat \<Rightarrow> BlockBuilder" where
  "BlockBuilder_new block_restart_interval =
     \<lparr> bb_block_restart_interval = block_restart_interval, bb_buffer = [], bb_restarts = [0],
       bb_counter = 0, bb_finished = False, bb_last_key = [] \<rparr>"

definition BlockBuilder_Reset :: "BlockBuilder \<Rightarrow> BlockBuilder" where
  "BlockBuilder_Reset b =
     b\<lparr> bb_buffer := [], bb_restarts := [0], bb_counter := 0, bb_finished := False, bb_last_key := [] \<rparr>"

definition CurrentSizeEstimate :: "BlockBuilder \<Rightarrow> nat" where
  "CurrentSizeEstimate b = length (bb_buffer b) + length (bb_restarts b) * 4 + 4"

definition BlockBuilder_Finish :: "BlockBuilder \<Rightarrow> slice \<times> BlockBuilder" where
  "BlockBuilder_Finish b =
     (let buffer = fold (\<lambda>r buf. PutFixed32 buf r) (bb_restarts b) (bb_buffer b);
          buffer = PutFixed32 buffer (of_nat (length (bb_restarts b)))
      in (buffer, b\<lparr> bb_buffer := buffer, bb_finished := True \<rparr>))"

definition BlockBuilder_Add :: "slice \<Rightarrow> slice \<Rightarrow> BlockBuilder \<Rightarrow> BlockBuilder" where
  "BlockBuilder_Add key val b =
     (let last_key_piece = bb_last_key b;
          (shared, b) =
            (if bb_counter b < bb_block_restart_interval b
             then (common_prefix last_key_piece key 0, b)
             else (0, b\<lparr> bb_restarts := bb_restarts b @ [of_nat (length (bb_buffer b))], bb_counter := 0 \<rparr>));
          non_shared = length key - shared;
          buffer = PutVarint32 (bb_buffer b) (of_nat shared);
          buffer = PutVarint32 buffer (of_nat non_shared);
          buffer = PutVarint32 buffer (of_nat (length val));
          buffer = buffer @ take non_shared (drop shared key);
          buffer = buffer @ val
      in b\<lparr> bb_buffer := buffer,
            bb_last_key := take shared (bb_last_key b) @ take non_shared (drop shared key),
            bb_counter := bb_counter b + 1 \<rparr>)"

definition BlockBuilder_empty :: "BlockBuilder \<Rightarrow> bool" where
  "BlockBuilder_empty b = (bb_buffer b = [])"

record Block =
  blk_data :: slice
  blk_size :: nat
  blk_restart_offset :: u32

definition NumRestarts :: "Block \<Rightarrow> u32" where
  "NumRestarts b = DecodeFixed32 (drop (blk_size b - 4) (blk_data b))"

definition Block_new :: "slice \<Rightarrow> Block" where
  "Block_new contents =
     (let b = \<lparr> blk_data = contents, blk_size = length contents, blk_restart_offset = 0 \<rparr>
      in if blk_size b < 4 then b\<lparr> blk_size := 0 \<rparr>
         else (let max_restarts_allowed = (blk_size b - 4) div 4
               in if unat (NumRestarts b) > max_restarts_allowed then b\<lparr> blk_size := 0 \<rparr>
                  else b\<lparr> blk_restart_offset := of_nat (blk_size b - unat (1 + NumRestarts b) * 4) \<rparr>))"

text \<open>
  The next entry at offset \<open>p\<close> before \<open>limit\<close>: shared, non-shared and value length, and the offset
  of the key delta.  The sum of the two lengths is taken in 32 bits.
\<close>

definition DecodeEntryHeader :: "slice \<Rightarrow> (u32 \<times> u32 \<times> u32 \<times> slice) option" where
  "DecodeEntryHeader p =
     (let shared = ucast (p ! 0) :: u32;
          non_shared = ucast (p ! 1) :: u32;
          value_length = ucast (p ! 2) :: u32
      in if shared OR non_shared OR value_length < 128
         then Some (shared, non_shared, value_length, drop 3 p)
         else
           (case GetVarint32Ptr p of
              None \<Rightarrow> None
            | Some (shared, p) \<Rightarrow>
                (case GetVarint32Ptr p of
                   None \<Rightarrow> None
                 | Some (non_shared, p) \<Rightarrow>
                     (case GetVarint32Ptr p of
                        None \<Rightarrow> None
                      | Some (value_length, p) \<Rightarrow> Some (shared, non_shared, value_length, p)))))"

definition DecodeEntry :: "slice \<Rightarrow> nat \<Rightarrow> nat \<Rightarrow> (u32 \<times> u32 \<times> u32 \<times> nat) option" where
  "DecodeEntry data p limit =
     (let w = drop p (take limit data)
      in if length w < 3 then None
         else
           (case DecodeEntryHeader w of
              None \<Rightarrow> None
            | Some (shared, non_shared, value_length, rest) \<Rightarrow>
                if of_nat (length rest) < non_shared + value_length then None
                else Some (shared, non_shared, value_length, p + (length w - length rest))))"

text \<open>
  \<open>Block::Iter\<close>.  \<open>value_\<close> points into the block and is its offset and length; an empty \<open>value_\<close>
  that does not point into the block is never read and is represented by \<open>(0, 0)\<close>.
\<close>

record BlockIter =
  bi_comparator :: Comparator
  bi_data :: slice
  bi_restarts :: u32
  bi_num_restarts :: nat
  bi_current :: nat
  bi_restart_index :: nat
  bi_key :: slice
  bi_value :: "nat \<times> nat"
  bi_status :: Status

definition NextEntryOffset :: "BlockIter \<Rightarrow> nat" where
  "NextEntryOffset it = (fst (bi_value it) + snd (bi_value it)) mod 2 ^ 32"

definition GetRestartPoint :: "BlockIter \<Rightarrow> nat \<Rightarrow> nat" where
  "GetRestartPoint it index = unat (DecodeFixed32 (drop (unat (bi_restarts it) + index * 4) (bi_data it)))"

definition SeekToRestartPoint :: "nat \<Rightarrow> BlockIter \<Rightarrow> BlockIter" where
  "SeekToRestartPoint index it =
     it\<lparr> bi_key := [], bi_restart_index := index, bi_value := (GetRestartPoint it index, 0) \<rparr>"

definition BlockIter_new :: "Comparator \<Rightarrow> slice \<Rightarrow> u32 \<Rightarrow> nat \<Rightarrow> BlockIter" where
  "BlockIter_new c data restarts num_restarts =
     \<lparr> bi_comparator = c, bi_data = data, bi_restarts = restarts, bi_num_restarts = num_restarts,
       bi_current = unat restarts, bi_restart_index = num_restarts, bi_key = [], bi_value = (0, 0),
       bi_status = OK \<rparr>"

definition BlockIter_Valid :: "BlockIter \<Rightarrow> bool" where
  "BlockIter_Valid it = (bi_current it < unat (bi_restarts it))"

definition CorruptionError :: "BlockIter \<Rightarrow> BlockIter" where
  "CorruptionError it =
     it\<lparr> bi_current := unat (bi_restarts it), bi_restart_index := bi_num_restarts it,
         bi_status := Corruption (ascii ''bad entry in block'') [], bi_key := [], bi_value := (0, 0) \<rparr>"

function advance_restart_index :: "BlockIter \<Rightarrow> nat \<Rightarrow> nat" where
  "advance_restart_index it i =
     (if i + 1 < bi_num_restarts it \<and> GetRestartPoint it (i + 1) < bi_current it
      then advance_restart_index it (i + 1) else i)"
  by pat_completeness auto
termination
  by (relation "measure (\<lambda>(it, i). bi_num_restarts it - i)") auto

definition ParseNextKey :: "BlockIter \<Rightarrow> bool \<times> BlockIter" where
  "ParseNextKey it =
     (let it = it\<lparr> bi_current := NextEntryOffset it \<rparr>;
          p = bi_current it;
          limit = unat (bi_restarts it)
      in if p \<ge> limit
         then (False, it\<lparr> bi_current := unat (bi_restarts it), bi_restart_index := bi_num_restarts it \<rparr>)
         else
           (case DecodeEntry (bi_data it) p limit of
              None \<Rightarrow> (False, CorruptionError it)
            | Some (shared, non_shared, value_length, p) \<Rightarrow>
                if length (bi_key it) < unat shared then (False, CorruptionError it)
                else
                  (let it = it\<lparr> bi_key := take (unat shared) (bi_key it) @
                                        take (unat non_shared) (drop p (bi_data it)),
                                bi_value := (p + unat non_shared, unat value_length) \<rparr>
                   in (True, it\<lparr> bi_restart_index := advance_restart_index it (bi_restart_index it) \<rparr>))))"

declare advance_restart_index.simps [simp del]

section \<open>Parsing moves forward\<close>

lemma GetVarint32Ptr_shorter: "GetVarint32Ptr p = Some (v, q) \<Longrightarrow> length q < length p"
  using GetVarint32_shorter [of p v q] by (simp add: GetVarint32_def)

lemma DecodeEntryHeader_shorter:
  assumes "DecodeEntryHeader w = Some (sh, ns, vl, r)" "w \<noteq> []"
  shows "length r < length w"
  using assms unfolding DecodeEntryHeader_def Let_def
  by (auto split: if_splits option.splits dest!: GetVarint32Ptr_shorter)

lemma DecodeEntry_bounds:
  assumes "DecodeEntry data p limit = Some (sh, ns, vl, q)" "limit < 2 ^ 32"
  shows "p < q \<and> q + unat (ns + vl) \<le> limit"
proof -
  let ?w = "drop p (take limit data)"
  obtain r where r: "DecodeEntryHeader ?w = Some (sh, ns, vl, r)" "\<not> of_nat (length r) < ns + vl"
    "q = p + (length ?w - length r)" "3 \<le> length ?w"
    using assms(1) by (auto simp: DecodeEntry_def Let_def split: option.splits if_splits)
  have less: "length r < length ?w" using r by (intro DecodeEntryHeader_shorter [OF r(1)]) auto
  have "unat (ns + vl) \<le> unat (of_nat (length r) :: u32)" using r(2) by (simp only: not_less word_le_nat_alt)
  also have "\<dots> \<le> length r" by (simp add: unat_of_nat)
  finally show ?thesis using r(3,4) less by auto
qed

lemma sum_mod_word:
  assumes "q + unat (ns + vl :: u32) < 2 ^ 32"
  shows "(q + unat ns + unat vl) mod 2 ^ 32 = q + unat (ns + vl)"
proof -
  have "unat (ns + vl) = (unat ns + unat vl) mod 2 ^ 32" by (simp add: unat_word_ariths)
  then have "(q + unat ns + unat vl) mod 2 ^ 32 = (q + unat (ns + vl)) mod 2 ^ 32"
    by (simp only: add.assoc mod_add_right_eq)
  then show ?thesis using assms by (simp only: mod_less)
qed

lemma ParseNextKey_progress:
  assumes "ParseNextKey it = (True, it')"
  shows "bi_restarts it' = bi_restarts it \<and> bi_current it' = NextEntryOffset it \<and>
    NextEntryOffset it < NextEntryOffset it' \<and> NextEntryOffset it' \<le> unat (bi_restarts it)"
proof -
  obtain sh ns vl p where d: "DecodeEntry (bi_data it) (NextEntryOffset it) (unat (bi_restarts it)) = Some (sh, ns, vl, p)"
    "bi_value it' = (p + unat ns, unat vl)" "bi_restarts it' = bi_restarts it" "bi_current it' = NextEntryOffset it"
    using assms by (auto simp: ParseNextKey_def Let_def split: if_splits option.splits)
  have "unat (bi_restarts it) < 2 ^ 32" using unsigned_less [of "bi_restarts it"] by simp
  with DecodeEntry_bounds [OF d(1)] have b: "NextEntryOffset it < p" "p + unat (ns + vl) \<le> unat (bi_restarts it)"
    "unat (bi_restarts it) < 2 ^ 32" by auto
  then have "NextEntryOffset it' = p + unat (ns + vl)"
    using sum_mod_word [of p ns vl] d(2) by (simp add: NextEntryOffset_def)
  with b d show ?thesis by simp
qed

lemma ParseNextKey_less: "ParseNextKey it = (True, it') \<Longrightarrow> NextEntryOffset it < unat (bi_restarts it)"
  using ParseNextKey_progress by fastforce

section \<open>The iterator\<close>

text \<open>The loop of \<open>Prev\<close> and \<open>SeekToLast\<close>: parse until the end of the current entry reaches \<open>stop\<close>.\<close>

function skip_to :: "nat \<Rightarrow> BlockIter \<Rightarrow> BlockIter" where
  "skip_to stop it =
     (case ParseNextKey it of
        (parsed, it') \<Rightarrow> if parsed \<and> NextEntryOffset it' < stop then skip_to stop it' else it')"
  by pat_completeness auto
termination
proof (relation "measure (\<lambda>(stop, it). unat (bi_restarts it) - NextEntryOffset it)")
  fix stop it parsed it'
  assume "(parsed, it') = ParseNextKey it" "parsed \<and> NextEntryOffset it' < stop"
  then have "ParseNextKey it = (True, it')" by simp
  from ParseNextKey_progress [OF this]
  show "((stop, it'), (stop, it)) \<in> measure (\<lambda>(stop, it). unat (bi_restarts it) - NextEntryOffset it)" by auto
qed simp

text \<open>The linear search of \<open>Seek\<close>.\<close>

function seek_linear :: "slice \<Rightarrow> BlockIter \<Rightarrow> BlockIter" where
  "seek_linear target it =
     (case ParseNextKey it of
        (parsed, it') \<Rightarrow>
          if \<not> parsed then it'
          else if Compare (bi_comparator it') (bi_key it') target \<ge> 0 then it'
          else seek_linear target it')"
  by pat_completeness auto
termination
proof (relation "measure (\<lambda>(target, it). unat (bi_restarts it) - NextEntryOffset it)")
  fix target it parsed it'
  assume "(parsed, it') = ParseNextKey it" "\<not> \<not> parsed"
  then have "ParseNextKey it = (True, it')" by simp
  from ParseNextKey_progress [OF this]
  show "((target, it'), (target, it)) \<in> measure (\<lambda>(target, it). unat (bi_restarts it) - NextEntryOffset it)" by auto
qed simp

text \<open>
  The binary search over the restart points; \<^term>\<open>None\<close> is a corrupt entry.  A block of less than
  8 GB has fewer than \<open>2^31\<close> restart points, so the 32-bit sum in the source does not wrap.
\<close>

function seek_restart :: "BlockIter \<Rightarrow> slice \<Rightarrow> nat \<Rightarrow> nat \<Rightarrow> nat option" where
  "seek_restart it target left right =
     (if left < right then
        (let mid = (left + right + 1) div 2;
             region_offset = GetRestartPoint it mid
         in case DecodeEntry (bi_data it) region_offset (unat (bi_restarts it)) of
              None \<Rightarrow> None
            | Some (shared, non_shared, value_length, key_ptr) \<Rightarrow>
                if shared \<noteq> 0 then None
                else (let mid_key = take (unat non_shared) (drop key_ptr (bi_data it))
                      in if Compare (bi_comparator it) mid_key target < 0
                         then seek_restart it target mid right
                         else seek_restart it target left (mid - 1)))
      else Some left)"
  by pat_completeness auto
termination
  by (relation "measure (\<lambda>(it, target, left, right). right - left)") auto

text \<open>Going back over the restart points that are not before \<open>original\<close>.\<close>

primrec prev_restart :: "BlockIter \<Rightarrow> nat \<Rightarrow> nat \<Rightarrow> nat option" where
  "prev_restart it original 0 = (if GetRestartPoint it 0 \<ge> original then None else Some 0)"
| "prev_restart it original (Suc i) =
     (if GetRestartPoint it (Suc i) \<ge> original then prev_restart it original i else Some (Suc i))"

declare skip_to.simps [simp del] seek_linear.simps [simp del] seek_restart.simps [simp del]

definition BlockIter_SeekToFirst :: "BlockIter \<Rightarrow> BlockIter" where
  "BlockIter_SeekToFirst it = snd (ParseNextKey (SeekToRestartPoint 0 it))"

definition BlockIter_SeekToLast :: "BlockIter \<Rightarrow> BlockIter" where
  "BlockIter_SeekToLast it =
     skip_to (unat (bi_restarts it)) (SeekToRestartPoint (bi_num_restarts it - 1) it)"

definition BlockIter_Next :: "BlockIter \<Rightarrow> BlockIter" where
  "BlockIter_Next it = snd (ParseNextKey it)"

definition BlockIter_Prev :: "BlockIter \<Rightarrow> BlockIter" where
  "BlockIter_Prev it =
     (let original = bi_current it
      in case prev_restart it original (bi_restart_index it) of
           None \<Rightarrow> it\<lparr> bi_current := unat (bi_restarts it), bi_restart_index := bi_num_restarts it \<rparr>
         | Some index \<Rightarrow> skip_to original (SeekToRestartPoint index (it\<lparr> bi_restart_index := index \<rparr>)))"

definition BlockIter_Seek :: "slice \<Rightarrow> BlockIter \<Rightarrow> BlockIter" where
  "BlockIter_Seek target it =
     (let current_key_compare =
            (if BlockIter_Valid it then Compare (bi_comparator it) (bi_key it) target else 0)
      in if BlockIter_Valid it \<and> current_key_compare = 0 then it
         else
           (let left = (if BlockIter_Valid it \<and> current_key_compare < 0 then bi_restart_index it else 0);
                right = (if BlockIter_Valid it \<and> current_key_compare > 0 then bi_restart_index it
                         else bi_num_restarts it - 1)
            in case seek_restart it target left right of
                 None \<Rightarrow> CorruptionError it
               | Some left \<Rightarrow>
                   (let skip_seek = (left = bi_restart_index it \<and> current_key_compare < 0)
                    in seek_linear target (if \<not> skip_seek then SeekToRestartPoint left it else it))))"

definition BlockIter_value :: "BlockIter \<Rightarrow> slice" where
  "BlockIter_value it = take (snd (bi_value it)) (drop (fst (bi_value it)) (bi_data it))"

definition BlockIter :: "BlockIter Iterator" where
  "BlockIter =
     \<lparr> it_Valid = BlockIter_Valid, it_SeekToFirst = BlockIter_SeekToFirst, it_SeekToLast = BlockIter_SeekToLast,
       it_Seek = BlockIter_Seek, it_Next = BlockIter_Next, it_Prev = BlockIter_Prev,
       it_key = bi_key, it_value = BlockIter_value, it_status = bi_status \<rparr>"

text \<open>\<open>NewIterator\<close>: an empty or error iterator, or a cursor.\<close>

definition Block_NewIterator :: "Comparator \<Rightarrow> Block \<Rightarrow> Status + BlockIter" where
  "Block_NewIterator c b =
     (if blk_size b < 4 then Inl (NewErrorIterator (Corruption (ascii ''bad block contents'') []))
      else (let num_restarts = NumRestarts b
            in if num_restarts = 0 then Inl NewEmptyIterator
               else Inr (BlockIter_new c (blk_data b) (blk_restart_offset b) (unat num_restarts))))"

section \<open>The layout of a block\<close>

text \<open>
  An entry with the number of key bytes it shares with its predecessor.  A block is described by
  its entries \<open>es\<close> and the numbers \<open>rx\<close> of those that are restart points.
\<close>

type_synonym blk_entry = "nat \<times> kv"

definition entry_enc :: "blk_entry \<Rightarrow> slice" where
  "entry_enc e = (case e of (sh, k, v) \<Rightarrow>
     EncodeVarint32 (of_nat sh) @ EncodeVarint32 (of_nat (length k - sh)) @ EncodeVarint32 (of_nat (length v)) @
     drop sh k @ v)"

definition enc_all :: "blk_entry list \<Rightarrow> slice" where
  "enc_all es = concat (map entry_enc es)"

definition epos :: "blk_entry list \<Rightarrow> nat \<Rightarrow> nat" where
  "epos es i = length (enc_all (take i es))"

abbreviation ekey :: "blk_entry list \<Rightarrow> nat \<Rightarrow> slice" where
  "ekey es i \<equiv> fst (snd (es ! i))"

definition shares :: "slice \<Rightarrow> blk_entry \<Rightarrow> bool" where
  "shares prev e \<longleftrightarrow> fst e \<le> length prev \<and> fst e \<le> length (fst (snd e)) \<and>
     take (fst e) prev = take (fst e) (fst (snd e))"

text \<open>Each entry shares with the one before it; restart points share nothing.\<close>

definition chained :: "blk_entry list \<Rightarrow> bool" where
  "chained es \<longleftrightarrow> (\<forall>i < length es. shares (if i = 0 then [] else ekey es (i - 1)) (es ! i))"

definition restarts_ok :: "blk_entry list \<Rightarrow> nat list \<Rightarrow> bool" where
  "restarts_ok es rx \<longleftrightarrow> (\<exists>r. rx = 0 # r) \<and> sorted_wrt (<) rx \<and>
     (\<forall>e \<in> set rx. e \<noteq> 0 \<longrightarrow> e < length es) \<and> (\<forall>e \<in> set rx. e < length es \<longrightarrow> fst (es ! e) = 0)"

definition block_bytes :: "blk_entry list \<Rightarrow> nat list \<Rightarrow> slice" where
  "block_bytes es rx =
     enc_all es @ concat (map (\<lambda>e. EncodeFixed32 (of_nat (epos es e))) rx) @ EncodeFixed32 (of_nat (length rx))"

definition laid_out :: "slice \<Rightarrow> blk_entry list \<Rightarrow> nat list \<Rightarrow> bool" where
  "laid_out data es rx \<longleftrightarrow>
     data = block_bytes es rx \<and> chained es \<and> restarts_ok es rx \<and> length data < 2 ^ 32"

lemma enc_all_simps [simp]: "enc_all [] = []" "enc_all (e # es) = entry_enc e @ enc_all es"
  "enc_all (es @ fs) = enc_all es @ enc_all fs"
  by (simp_all add: enc_all_def)

lemma epos_0 [simp]: "epos es 0 = 0"
  by (simp add: epos_def)

lemma epos_length [simp]: "epos es (length es) = length (enc_all es)"
  by (simp add: epos_def)

lemma epos_Suc: "i < length es \<Longrightarrow> epos es (Suc i) = epos es i + length (entry_enc (es ! i))"
  by (simp add: epos_def take_Suc_conv_app_nth)

lemma length_entry_enc:
  "length (entry_enc (sh, k, v)) = length (EncodeVarint32 (of_nat sh)) + length (EncodeVarint32 (of_nat (length k - sh))) +
     length (EncodeVarint32 (of_nat (length v))) + (length k - sh) + length v"
  by (simp add: entry_enc_def)

lemma length_EncodeVarint32_pos: "0 < length (EncodeVarint32 v)"
  by simp

lemma entry_enc_bounds: "3 + (length (fst (snd e)) - fst e) + length (snd (snd e)) \<le> length (entry_enc e)"
proof -
  obtain sh k v where e: "e = (sh, k, v)" by (metis prod.exhaust)
  note length_EncodeVarint32_pos [of "of_nat sh"] length_EncodeVarint32_pos [of "of_nat (length k - sh)"]
    length_EncodeVarint32_pos [of "of_nat (length v)"]
  then show ?thesis unfolding e length_entry_enc fst_conv snd_conv by linarith
qed

lemma epos_less: "i < j \<Longrightarrow> j \<le> length es \<Longrightarrow> epos es i < epos es j"
proof (induction j)
  case (Suc j)
  have "epos es j < epos es (Suc j)"
    using Suc.prems entry_enc_bounds [of "es ! j"] epos_Suc [of j es] by linarith
  then show ?case using Suc by (cases "i = j") auto
qed simp

lemma epos_le: "i \<le> j \<Longrightarrow> j \<le> length es \<Longrightarrow> epos es i \<le> epos es j"
  using epos_less [of i j es] by (cases "i = j") auto

lemma epos_less_iff: "i \<le> length es \<Longrightarrow> j \<le> length es \<Longrightarrow> epos es i < epos es j \<longleftrightarrow> i < j"
  by (metis epos_le epos_less not_less)

text \<open>No key is longer than the block up to the end of its entry.\<close>

lemma chained_key_length:
  assumes "chained es"
  shows "i < length es \<Longrightarrow> length (ekey es i) \<le> epos es (Suc i)"
proof (induction i)
  case 0
  with assms have "fst (es ! 0) = 0" by (auto simp: chained_def shares_def)
  then show ?case using 0 entry_enc_bounds [of "es ! 0"] epos_Suc [of 0 es] by linarith
next
  case (Suc i)
  then have "shares (ekey es i) (es ! Suc i)" using assms by (auto simp: chained_def)
  then have "fst (es ! Suc i) \<le> length (ekey es i)" by (simp add: shares_def)
  moreover have "length (ekey es i) \<le> epos es (Suc i)" using Suc by simp
  ultimately show ?case
    using entry_enc_bounds [of "es ! Suc i"] epos_Suc [OF Suc.prems] by linarith
qed

text \<open>The fast path of \<open>DecodeEntry\<close> agrees with the slow one.\<close>

lemma or_less_128:
  assumes "(a OR b OR c :: u32) < 128"
  shows "a AND 128 = 0 \<and> b AND 128 = 0 \<and> c AND 128 = 0"
proof -
  have "unat (a OR b OR c) < 2 ^ 7" using assms by (simp add: word_less_nat_alt)
  then have "\<not> bit (a OR b OR c) 7" by (rule word_lt_2p_not_bit) simp
  then show ?thesis by (simp add: and_128_zero bit_or_iff)
qed

lemma DecodeEntryHeader_slow:
  assumes "3 \<le> length w"
  shows "DecodeEntryHeader w =
    Option.bind (GetVarint32 w) (\<lambda>(sh, w). Option.bind (GetVarint32 w) (\<lambda>(ns, w).
      Option.bind (GetVarint32 w) (\<lambda>(vl, w). Some (sh, ns, vl, w))))"
proof -
  obtain a b c r where w: "w = a # b # c # r"
    using assms by (metis Suc_le_length_iff numeral_3_eq_3)
  show ?thesis
  proof (cases "(ucast a OR ucast b OR ucast c :: u32) < 128")
    case True
    with or_less_128 [OF True] show ?thesis
      by (simp add: w DecodeEntryHeader_def GetVarint32_def GetVarint32Ptr_def)
  next
    case False
    then show ?thesis
      by (simp add: w DecodeEntryHeader_def GetVarint32_def split: option.splits)
  qed
qed

lemma DecodeEntryHeader_enc:
  assumes "sh < 2 ^ 32" "length k < 2 ^ 32" "length v < 2 ^ 32"
  shows "DecodeEntryHeader (entry_enc (sh, k, v) @ rest) =
    Some (of_nat sh, of_nat (length k - sh), of_nat (length v), drop sh k @ v @ rest)"
  using entry_enc_bounds [of "(sh, k, v)"] DecodeEntryHeader_slow [of "entry_enc (sh, k, v) @ rest"]
  by (simp add: entry_enc_def coding_simps)

lemma enc_all_split:
  "i < length es \<Longrightarrow> enc_all es = enc_all (take i es) @ entry_enc (es ! i) @ enc_all (drop (Suc i) es)"
  by (metis enc_all_simps(2,3) id_take_nth_drop)

lemma entry_sizes:
  assumes "chained es" "length (enc_all es) < 2 ^ 32" "i < length es" "es ! i = (sh, k, v)"
  shows "sh \<le> length k \<and> length k < 2 ^ 32 \<and> length v < 2 ^ 32 \<and>
    (length k - sh) + length v + epos es i < epos es (Suc i) \<and> epos es (Suc i) < 2 ^ 32"
proof -
  have "shares (if i = 0 then [] else ekey es (i - 1)) (es ! i)" using assms(1,3) by (simp add: chained_def)
  then have sh: "sh \<le> length k" unfolding shares_def using assms(4) by simp
  have "epos es (Suc i) \<le> length (enc_all es)" using epos_le [of "Suc i" "length es" es] assms(3) by simp
  moreover have "length k \<le> epos es (Suc i)" using chained_key_length [OF assms(1,3)] assms(4) by simp
  moreover have "3 + (length k - sh) + length v + epos es i \<le> epos es (Suc i)"
    using entry_enc_bounds [of "es ! i"] epos_Suc [OF assms(3)] unfolding assms(4) by simp
  ultimately show ?thesis using sh assms(2) by linarith
qed

lemma sum_fits:
  assumes "a + b \<le> r" "r < 2 ^ 32"
  shows "\<not> (of_nat r :: u32) < of_nat a + of_nat b"
proof -
  have "unat (of_nat a + of_nat b :: u32) = a + b"
    using assms unat_u32_of_nat [of "a + b"] by simp
  then show ?thesis using assms by (simp add: word_less_nat_alt)
qed

lemma DecodeEntry_at:
  assumes "chained es" "length (enc_all es) < 2 ^ 32" "i < length es" "es ! i = (sh, k, v)"
  shows "DecodeEntry (enc_all es @ trailer) (epos es i) (length (enc_all es)) =
      Some (of_nat sh, of_nat (length k - sh), of_nat (length v), epos es (Suc i) - length v - (length k - sh))"
    and "drop (epos es (Suc i) - length v - (length k - sh)) (enc_all es @ trailer) =
      drop sh k @ v @ enc_all (drop (Suc i) es) @ trailer"
proof -
  note sz = entry_sizes [OF assms]
  let ?a = "enc_all (take i es)" and ?z = "enc_all (drop (Suc i) es)"
  let ?h = "EncodeVarint32 (of_nat sh) @ EncodeVarint32 (of_nat (length k - sh)) @ EncodeVarint32 (of_nat (length v))"
  let ?r = "drop sh k @ v @ ?z"
  have split: "enc_all es = ?a @ ?h @ ?r"
    using enc_all_split [OF assms(3)] by (simp add: assms(4) entry_enc_def)
  have pos: "epos es i = length ?a" by (simp add: epos_def)
  have len: "epos es (Suc i) = length ?a + length (entry_enc (sh, k, v))"
    using epos_Suc [OF assms(3)] pos by (simp add: assms(4))
  then have off: "epos es (Suc i) - length v - (length k - sh) = length (?a @ ?h)"
    using sz by (simp add: entry_enc_def)
  have w: "drop (epos es i) (take (length (enc_all es)) (enc_all es @ trailer)) = entry_enc (sh, k, v) @ ?z"
    by (simp add: pos split entry_enc_def)
  have hdr: "DecodeEntryHeader (entry_enc (sh, k, v) @ ?z) =
      Some (of_nat sh, of_nat (length k - sh), of_nat (length v), ?r)"
    using sz by (intro DecodeEntryHeader_enc) auto
  have "length ?r < 2 ^ 32" using assms(2) unfolding split by simp
  then have fits: "\<not> (of_nat (length ?r) :: u32) < of_nat (length k - sh) + of_nat (length v)"
    by (intro sum_fits) simp_all
  have "3 \<le> length (entry_enc (sh, k, v) @ ?z)" using entry_enc_bounds [of "(sh, k, v)"] by simp
  then have "DecodeEntry (enc_all es @ trailer) (epos es i) (length (enc_all es)) =
      Some (of_nat sh, of_nat (length k - sh), of_nat (length v),
            epos es i + (length (entry_enc (sh, k, v) @ ?z) - length ?r))"
    unfolding DecodeEntry_def w Let_def hdr using fits by simp
  moreover have "epos es i + (length (entry_enc (sh, k, v) @ ?z) - length ?r) = length (?a @ ?h)"
    using sz by (simp add: pos entry_enc_def)
  ultimately show "DecodeEntry (enc_all es @ trailer) (epos es i) (length (enc_all es)) =
      Some (of_nat sh, of_nat (length k - sh), of_nat (length v), epos es (Suc i) - length v - (length k - sh))"
    unfolding off by simp
  show "drop (epos es (Suc i) - length v - (length k - sh)) (enc_all es @ trailer) =
      drop sh k @ v @ ?z @ trailer"
    unfolding off split by simp
qed

section \<open>The iterator on a block with a layout\<close>

definition iter_over :: "BlockIter \<Rightarrow> blk_entry list \<Rightarrow> nat list \<Rightarrow> bool" where
  "iter_over it es rx \<longleftrightarrow> laid_out (bi_data it) es rx \<and>
     unat (bi_restarts it) = epos es (length es) \<and> bi_num_restarts it = length rx"

text \<open>About to parse entry \<open>i\<close>, with the key of the previous one and a restart index not beyond it.\<close>

definition iter_before :: "BlockIter \<Rightarrow> blk_entry list \<Rightarrow> nat list \<Rightarrow> nat \<Rightarrow> bool" where
  "iter_before it es rx i \<longleftrightarrow> iter_over it es rx \<and> i \<le> length es \<and> NextEntryOffset it = epos es i \<and>
     (i < length es \<longrightarrow> shares (bi_key it) (es ! i)) \<and>
     bi_restart_index it < length rx \<and> rx ! bi_restart_index it \<le> i"

definition iter_at :: "BlockIter \<Rightarrow> blk_entry list \<Rightarrow> nat list \<Rightarrow> nat \<Rightarrow> bool" where
  "iter_at it es rx i \<longleftrightarrow> iter_over it es rx \<and> i < length es \<and> bi_current it = epos es i \<and>
     bi_key it = ekey es i \<and> BlockIter_value it = snd (snd (es ! i)) \<and> NextEntryOffset it = epos es (Suc i) \<and>
     bi_restart_index it < length rx \<and> rx ! bi_restart_index it \<le> i \<and>
     (bi_restart_index it + 1 < length rx \<longrightarrow> i \<le> rx ! (bi_restart_index it + 1))"

definition iter_end :: "BlockIter \<Rightarrow> blk_entry list \<Rightarrow> nat list \<Rightarrow> bool" where
  "iter_end it es rx \<longleftrightarrow> iter_over it es rx \<and> bi_current it = epos es (length es) \<and>
     bi_restart_index it = length rx"

lemma rx_bound: "restarts_ok es rx \<Longrightarrow> j < length rx \<Longrightarrow> rx ! j \<le> length es"
  by (metis less_imp_le nth_mem restarts_ok_def zero_le)

lemma GetRestartPoint_at:
  assumes "iter_over it es rx" "j < length rx"
  shows "GetRestartPoint it j = epos es (rx ! j)"
proof -
  from assms(1) have lay: "bi_data it = block_bytes es rx" "restarts_ok es rx" "length (bi_data it) < 2 ^ 32"
    "unat (bi_restarts it) = length (enc_all es)"
    by (auto simp: iter_over_def laid_out_def)
  obtain t where "drop (j * 4) (concat (map (\<lambda>e. EncodeFixed32 (of_nat (epos es e))) rx) @ EncodeFixed32 (of_nat (length rx)))
      = EncodeFixed32 (of_nat (epos es (rx ! j))) @ t"
    using concat_Fixed32_nth [OF assms(2), of "\<lambda>e. of_nat (epos es e)"] by blast
  then have "drop (unat (bi_restarts it) + j * 4) (bi_data it) = EncodeFixed32 (of_nat (epos es (rx ! j))) @ t"
    unfolding lay(1,4) block_bytes_def by (simp add: drop_drop [symmetric] add.commute del: drop_drop)
  moreover have "epos es (rx ! j) < 2 ^ 32"
    using epos_le [OF rx_bound [OF lay(2) assms(2)] order_refl] lay(1,3) by (simp add: block_bytes_def)
  ultimately show ?thesis by (simp add: GetRestartPoint_def coding_simps)
qed

lemma advance_restart_index_at:
  assumes "iter_over it es rx" "i < length es" "bi_current it = epos es i"
    and "j < length rx" "rx ! j \<le> i"
  shows "advance_restart_index it j < length rx \<and> rx ! advance_restart_index it j \<le> i \<and>
    (advance_restart_index it j + 1 < length rx \<longrightarrow> i \<le> rx ! (advance_restart_index it j + 1))"
  using assms
proof (induction it j rule: advance_restart_index.induct)
  case (1 it j)
  have rx: "restarts_ok es rx" "bi_num_restarts it = length rx" using "1.prems"(1) by (auto simp: iter_over_def laid_out_def)
  have pos: "GetRestartPoint it (j + 1) < bi_current it \<longleftrightarrow> rx ! (j + 1) < i" if "j + 1 < length rx"
    using GetRestartPoint_at [OF "1.prems"(1) that] rx_bound [OF rx(1) that] "1.prems"(2,3)
    by (simp add: epos_less_iff)
  show ?case
  proof (cases "j + 1 < bi_num_restarts it \<and> GetRestartPoint it (j + 1) < bi_current it")
    case True
    with pos rx(2) have "j + 1 < length rx" "rx ! (j + 1) \<le> i" by auto
    with "1.IH" [OF True "1.prems"(1-3)] True show ?thesis
      by (subst (1 2 3 4) advance_restart_index.simps) simp
  next
    case False
    with pos rx(2) "1.prems" show ?thesis
      by (subst (1 2 3 4) advance_restart_index.simps) auto
  qed
qed

lemma iter_over_upd [simp]:
  "iter_over (it\<lparr> bi_current := c \<rparr>) es rx = iter_over it es rx"
  "iter_over (it\<lparr> bi_restart_index := r \<rparr>) es rx = iter_over it es rx"
  "iter_over (it\<lparr> bi_key := k \<rparr>) es rx = iter_over it es rx"
  "iter_over (it\<lparr> bi_value := v \<rparr>) es rx = iter_over it es rx"
  by (simp_all add: iter_over_def)

text \<open>One step of parsing.\<close>

lemma Parse_end:
  assumes "iter_before it es rx (length es)"
  shows "\<exists>it'. ParseNextKey it = (False, it') \<and> iter_end it' es rx \<and>
    bi_comparator it' = bi_comparator it \<and> bi_status it' = bi_status it"
proof -
  have "NextEntryOffset it = unat (bi_restarts it)" "iter_over it es rx"
    using assms by (auto simp: iter_before_def iter_over_def)
  then show ?thesis
    by (simp add: ParseNextKey_def Let_def iter_end_def) (simp add: iter_over_def)
qed

lemma Parse_entry:
  assumes "iter_before it es rx i" "i < length es"
  shows "\<exists>it'. ParseNextKey it = (True, it') \<and> iter_at it' es rx i \<and>
    bi_comparator it' = bi_comparator it \<and> bi_status it' = bi_status it"
proof -
  obtain sh k v where e: "es ! i = (sh, k, v)" by (metis prod.exhaust)
  have b: "iter_over it es rx" "NextEntryOffset it = epos es i" "shares (bi_key it) (es ! i)"
    "bi_restart_index it < length rx" "rx ! bi_restart_index it \<le> i"
    using assms by (auto simp: iter_before_def)
  then have l: "bi_data it = block_bytes es rx" "chained es" "length (bi_data it) < 2 ^ 32"
    "unat (bi_restarts it) = length (enc_all es)"
    by (auto simp: iter_over_def laid_out_def)
  then have small: "length (enc_all es) < 2 ^ 32" by (simp add: block_bytes_def)
  note sz = entry_sizes [OF l(2) small assms(2) e]
  obtain t where t: "bi_data it = enc_all es @ t" unfolding l(1) block_bytes_def by blast
  define ns where "ns = length k - sh"
  define q where "q = epos es (Suc i) - length v - ns"
  note dec = DecodeEntry_at [OF l(2) small assms(2) e, of t, folded t ns_def, folded q_def]
  have qv: "q + ns + length v = epos es (Suc i)" "ns < 2 ^ 32" using sz by (auto simp: q_def ns_def)
  have delta: "take ns (drop q (bi_data it)) = drop sh k" unfolding dec(2) by (simp add: ns_def)
  have sh: "sh \<le> length (bi_key it)" "take sh (bi_key it) = take sh k" using b(3) e by (auto simp: shares_def)
  define it1 where "it1 = it\<lparr> bi_current := epos es i, bi_key := k, bi_value := (q + ns, length v) \<rparr>"
  define it2 where "it2 = it1\<lparr> bi_restart_index := advance_restart_index it1 (bi_restart_index it1) \<rparr>"
  have "\<not> length (enc_all es) \<le> epos es i" using epos_less [OF assms(2), of es] by simp
  then have "ParseNextKey it = (True, it2)"
    using dec(1) sh sz delta qv(2) by (simp add: ParseNextKey_def Let_def b(2) l(4) it1_def it2_def)
  moreover have "iter_at it2 es rx i"
  proof -
    have "iter_over it1 es rx" "bi_current it1 = epos es i" "bi_restart_index it1 = bi_restart_index it"
      using b(1) by (simp_all add: it1_def)
    then have ri: "bi_restart_index it2 < length rx \<and> rx ! bi_restart_index it2 \<le> i \<and>
        (bi_restart_index it2 + 1 < length rx \<longrightarrow> i \<le> rx ! (bi_restart_index it2 + 1))"
      using advance_restart_index_at [of it1 es rx i "bi_restart_index it1"] assms(2) b(4,5)
      by (simp add: it2_def)
    have "NextEntryOffset it2 = epos es (Suc i)"
      using sz qv by (simp add: NextEntryOffset_def it2_def it1_def)
    moreover have "drop (q + ns) (bi_data it) = v @ enc_all (drop (Suc i) es) @ t"
      using arg_cong [OF dec(2), of "drop ns"] by (simp add: add.commute ns_def)
    then have "BlockIter_value it2 = v"
      by (simp add: BlockIter_value_def it2_def it1_def)
    ultimately show ?thesis
      using ri b(1) assms(2) unfolding iter_at_def by (simp add: it2_def it1_def e)
  qed
  ultimately show ?thesis by (auto simp: it2_def it1_def)
qed

lemma laid_out_epos: "laid_out data es rx \<Longrightarrow> i \<le> length es \<Longrightarrow> epos es i < 2 ^ 32"
  using epos_le [of i "length es" es] by (auto simp: laid_out_def block_bytes_def)

lemma restart_before:
  assumes "iter_over it es rx" "j < length rx"
  shows "iter_before (SeekToRestartPoint j it) es rx (rx ! j)"
proof -
  have rx: "restarts_ok es rx" "laid_out (bi_data it) es rx" using assms(1) by (auto simp: iter_over_def laid_out_def)
  note le = rx_bound [OF rx(1) assms(2)]
  have "fst (es ! (rx ! j)) = 0" if "rx ! j < length es"
    using rx(1) assms(2) that by (auto simp: restarts_ok_def)
  then show ?thesis
    using assms le GetRestartPoint_at [OF assms] laid_out_epos [OF rx(2) le]
    unfolding iter_before_def SeekToRestartPoint_def
    by (simp add: NextEntryOffset_def shares_def)
qed

lemma at_before: "iter_at it es rx i \<Longrightarrow> iter_before it es rx (Suc i)"
  by (auto simp: iter_at_def iter_before_def iter_over_def laid_out_def chained_def)

lemma Next_at:
  assumes "iter_at it es rx i"
  shows "\<exists>it'. BlockIter_Next it = it' \<and>
    (if Suc i < length es then iter_at it' es rx (Suc i) else iter_end it' es rx) \<and>
    bi_comparator it' = bi_comparator it \<and> bi_status it' = bi_status it"
proof -
  have "Suc i \<le> length es" using assms by (simp add: iter_at_def)
  then consider "Suc i < length es" | "Suc i = length es" by linarith
  then show ?thesis
    using Parse_entry [OF at_before [OF assms]] Parse_end [of it es rx] at_before [OF assms]
    by cases (auto simp: BlockIter_Next_def)
qed

lemma skip_to_at:
  assumes "iter_before it es rx i" "i \<le> m" "m < length es"
  shows "iter_at (skip_to (epos es (Suc m)) it) es rx m \<and>
    bi_comparator (skip_to (epos es (Suc m)) it) = bi_comparator it \<and>
    bi_status (skip_to (epos es (Suc m)) it) = bi_status it"
  using assms
proof (induction "m - i" arbitrary: i it)
  case 0
  then obtain it' where p: "ParseNextKey it = (True, it')" "iter_at it' es rx m"
    "bi_comparator it' = bi_comparator it" "bi_status it' = bi_status it"
    using Parse_entry [of it es rx m] by auto
  then have "\<not> NextEntryOffset it' < epos es (Suc m)" by (simp add: iter_at_def)
  then show ?case using p by (subst (1 2 3) skip_to.simps) simp
next
  case (Suc d)
  then obtain it' where p: "ParseNextKey it = (True, it')" "iter_at it' es rx i"
    "bi_comparator it' = bi_comparator it" "bi_status it' = bi_status it"
    using Parse_entry [of it es rx i] by auto
  have lt: "NextEntryOffset it' < epos es (Suc m)"
    using p(2) Suc epos_less [of "Suc i" "Suc m" es] by (simp add: iter_at_def)
  have "d = m - Suc i" "Suc i \<le> m" using Suc by auto
  from Suc.hyps(1) [OF this(1) at_before [OF p(2)] this(2) Suc.prems(3)] p lt
  show ?case by (subst (1 2 3) skip_to.simps) simp
qed

lemma rx_0: "restarts_ok es rx \<Longrightarrow> 0 < length rx \<and> rx ! 0 = 0"
  by (auto simp: restarts_ok_def)

lemma prev_restart_at:
  assumes "iter_over it es rx" "i < length es" "j < length rx"
  shows "case prev_restart it (epos es i) j of None \<Rightarrow> i = 0 | Some r \<Rightarrow> r < length rx \<and> rx ! r < i"
  using assms(3)
proof (induction j)
  case 0
  have "rx ! 0 = 0" using assms(1) rx_0 by (auto simp: iter_over_def laid_out_def)
  then show ?case using GetRestartPoint_at [OF assms(1) 0] epos_less_iff [of 0 es i] assms(2) 0 by auto
next
  case (Suc j)
  have "rx ! Suc j \<le> length es"
    using rx_bound [OF _ Suc.prems] assms(1) by (auto simp: iter_over_def laid_out_def)
  then show ?case
    using Suc GetRestartPoint_at [OF assms(1) Suc.prems] epos_less_iff [of "rx ! Suc j" es i] assms(2)
    by (auto simp: not_le)
qed

lemma Prev_at:
  assumes "iter_at it es rx i"
  shows "(if i = 0 then iter_end (BlockIter_Prev it) es rx else iter_at (BlockIter_Prev it) es rx (i - 1)) \<and>
    bi_comparator (BlockIter_Prev it) = bi_comparator it \<and> bi_status (BlockIter_Prev it) = bi_status it"
proof -
  have a: "iter_over it es rx" "i < length es" "bi_current it = epos es i" "bi_restart_index it < length rx"
    using assms by (auto simp: iter_at_def)
  show ?thesis
  proof (cases "prev_restart it (epos es i) (bi_restart_index it)")
    case None
    with prev_restart_at [OF a(1,2,4)] have "i = 0" by simp
    then show ?thesis using None a by (simp add: BlockIter_Prev_def iter_end_def) (simp add: iter_over_def)
  next
    case (Some r)
    with prev_restart_at [OF a(1,2,4)] have r: "r < length rx" "rx ! r < i" by simp_all
    let ?it = "SeekToRestartPoint r (it\<lparr> bi_restart_index := r \<rparr>)"
    have "iter_before ?it es rx (rx ! r)" using a(1) r(1) by (intro restart_before) simp_all
    from skip_to_at [OF this, of "i - 1"] r a(2) Some show ?thesis
      by (simp add: BlockIter_Prev_def a(3) SeekToRestartPoint_def)
  qed
qed

lemma SeekToFirst_at:
  assumes "iter_over it es rx"
  shows "(if es = [] then iter_end (BlockIter_SeekToFirst it) es rx else iter_at (BlockIter_SeekToFirst it) es rx 0) \<and>
    bi_comparator (BlockIter_SeekToFirst it) = bi_comparator it \<and> bi_status (BlockIter_SeekToFirst it) = bi_status it"
proof -
  have "0 < length rx" "rx ! 0 = 0" using assms rx_0 by (auto simp: iter_over_def laid_out_def)
  then have b: "iter_before (SeekToRestartPoint 0 it) es rx 0" using restart_before [OF assms, of 0] by simp
  show ?thesis
  proof (cases "es = []")
    case True
    with Parse_end [of "SeekToRestartPoint 0 it" es rx] b show ?thesis
      by (auto simp: BlockIter_SeekToFirst_def SeekToRestartPoint_def)
  next
    case False
    with Parse_entry [OF b] show ?thesis by (auto simp: BlockIter_SeekToFirst_def SeekToRestartPoint_def)
  qed
qed

lemma SeekToLast_at:
  assumes "iter_over it es rx"
  shows "(if es = [] then iter_end (BlockIter_SeekToLast it) es rx
          else iter_at (BlockIter_SeekToLast it) es rx (length es - 1)) \<and>
    bi_comparator (BlockIter_SeekToLast it) = bi_comparator it \<and> bi_status (BlockIter_SeekToLast it) = bi_status it"
proof -
  let ?j = "bi_num_restarts it - 1"
  have rx: "restarts_ok es rx" "bi_num_restarts it = length rx" "0 < length rx" "unat (bi_restarts it) = epos es (length es)"
    using assms rx_0 by (auto simp: iter_over_def laid_out_def)
  then have j: "?j < length rx" by simp
  have b: "iter_before (SeekToRestartPoint ?j it) es rx (rx ! ?j)" using restart_before [OF assms j] .
  show ?thesis
  proof (cases "es = []")
    case True
    then have "rx ! ?j = 0" using rx_bound [OF rx(1) j] by simp
    then obtain it' where "ParseNextKey (SeekToRestartPoint ?j it) = (False, it')" "iter_end it' es rx"
      "bi_comparator it' = bi_comparator it" "bi_status it' = bi_status it"
      using b True Parse_end [of "SeekToRestartPoint ?j it" es rx] by (auto simp: SeekToRestartPoint_def)
    then show ?thesis using True unfolding BlockIter_SeekToLast_def by (subst (1 2 3 4) skip_to.simps) simp
  next
    case False
    then have "rx ! ?j \<le> length es - 1"
    proof (cases "rx ! ?j = 0")
      case False
      then have "rx ! ?j < length es" using rx(1) j by (simp add: restarts_ok_def)
      then show ?thesis by simp
    qed simp
    with skip_to_at [OF b this] False show ?thesis
      by (simp add: BlockIter_SeekToLast_def rx(4) SeekToRestartPoint_def)
  qed
qed

text \<open>\<open>Seek\<close>: any restart point not beyond the answer is a good place to scan from.\<close>

lemma seek_linear_at:
  assumes "iter_before it es rx i" "i \<le> lower_bound (Compare (bi_comparator it)) t (map snd es)"
  shows "(if lower_bound (Compare (bi_comparator it)) t (map snd es) < length es
          then iter_at (seek_linear t it) es rx (lower_bound (Compare (bi_comparator it)) t (map snd es))
          else iter_end (seek_linear t it) es rx) \<and>
    bi_comparator (seek_linear t it) = bi_comparator it \<and> bi_status (seek_linear t it) = bi_status it"
  using assms
proof (induction "length es - i" arbitrary: i it)
  case 0
  let ?l = "lower_bound (Compare (bi_comparator it)) t (map snd es)"
  from 0 have "i = length es" by (simp add: iter_before_def)
  moreover from this have "?l = length es"
    using 0 lower_bound_le [of "Compare (bi_comparator it)" t "map snd es"] by simp
  moreover obtain it' where "ParseNextKey it = (False, it')" "iter_end it' es rx"
    "bi_comparator it' = bi_comparator it" "bi_status it' = bi_status it"
    using 0 \<open>i = length es\<close> Parse_end [of it es rx] by auto
  ultimately show ?case by (subst (1 2 3 4) seek_linear.simps) simp
next
  case (Suc d)
  let ?l = "lower_bound (Compare (bi_comparator it)) t (map snd es)"
  have i: "i < length es" using Suc.hyps(2) by simp
  obtain it' where p: "ParseNextKey it = (True, it')" "iter_at it' es rx i"
    "bi_comparator it' = bi_comparator it" "bi_status it' = bi_status it"
    using Parse_entry [OF Suc.prems(1) i] by auto
  have key: "bi_key it' = fst (map snd es ! i)" using p(2) i by (simp add: iter_at_def)
  show ?case
  proof (cases "Compare (bi_comparator it) (bi_key it') t < 0")
    case True
    then have "i \<noteq> ?l" using lower_bound_nth_ge [of "Compare (bi_comparator it)" t "map snd es"] i key by auto
    then have l: "Suc i \<le> ?l" using Suc.prems(2) by simp
    have d: "d = length es - Suc i" using Suc.hyps(2) by simp
    from Suc.hyps(1) [OF d at_before [OF p(2)]] l have
      "(if ?l < length es then iter_at (seek_linear t it') es rx ?l else iter_end (seek_linear t it') es rx) \<and>
       bi_comparator (seek_linear t it') = bi_comparator it' \<and> bi_status (seek_linear t it') = bi_status it'"
      unfolding p(3) by blast
    moreover have "seek_linear t it = seek_linear t it'"
      using True p(3) by (subst seek_linear.simps) (simp add: p(1))
    ultimately show ?thesis using p(3,4) by simp
  next
    case False
    then have "?l = i"
      using Suc.prems(2) lower_bound_nth_less [of i "Compare (bi_comparator it)" t "map snd es"] key
      by (metis le_neq_implies_less)
    then show ?thesis using p False i by (subst (1 2 3 4) seek_linear.simps) simp
  qed
qed

lemma rx_pos:
  assumes "restarts_ok es rx" "0 < j" "j < length rx"
  shows "rx ! j < length es"
proof -
  have "rx ! 0 < rx ! j" using assms by (auto simp: restarts_ok_def sorted_wrt_iff_nth_less)
  then have "rx ! j \<noteq> 0" by simp
  then show ?thesis using assms by (simp add: restarts_ok_def)
qed

lemma restart_key:
  assumes "iter_over it es rx" "0 < j" "j < length rx"
  shows "\<exists>ns vl q. DecodeEntry (bi_data it) (GetRestartPoint it j) (unat (bi_restarts it)) = Some (0, ns, vl, q) \<and>
    take (unat ns) (drop q (bi_data it)) = ekey es (rx ! j)"
proof -
  have l: "bi_data it = block_bytes es rx" "chained es" "length (bi_data it) < 2 ^ 32" "restarts_ok es rx"
    "unat (bi_restarts it) = length (enc_all es)"
    using assms(1) by (auto simp: iter_over_def laid_out_def)
  then have small: "length (enc_all es) < 2 ^ 32" by (simp add: block_bytes_def)
  obtain t where t: "bi_data it = enc_all es @ t" unfolding l(1) block_bytes_def by blast
  note j = rx_pos [OF l(4) assms(2,3)]
  have "fst (es ! (rx ! j)) = 0" using l(4) j assms(3) by (auto simp: restarts_ok_def)
  then obtain k v where e: "es ! (rx ! j) = (0, k, v)" by (metis prod.collapse)
  note sz = entry_sizes [OF l(2) small j e] and dec = DecodeEntry_at [OF l(2) small j e, of t, folded t]
  have "take (length k) (drop (epos es (Suc (rx ! j)) - length v - (length k - 0)) (bi_data it)) = k"
    unfolding dec(2) by simp
  then show ?thesis using dec(1) sz e GetRestartPoint_at [OF assms(1,3)] l(5) by simp
qed

lemma seek_restart_at:
  assumes "iter_over it es rx" "three_way (Compare (bi_comparator it))" "sorted_kvs (Compare (bi_comparator it)) (map snd es)"
    and "left \<le> right" "right < length rx" "rx ! left \<le> lower_bound (Compare (bi_comparator it)) t (map snd es)"
  shows "\<exists>l. seek_restart it t left right = Some l \<and> l < length rx \<and>
    rx ! l \<le> lower_bound (Compare (bi_comparator it)) t (map snd es)"
  using assms
proof (induction it t left right rule: seek_restart.induct)
  case (1 it t left right)
  show ?case
  proof (cases "left < right")
    case True
    let ?mid = "(left + right + 1) div 2"
    have mid: "0 < ?mid" "?mid < length rx" "left \<le> ?mid - 1" "?mid \<le> right" "?mid - 1 < length rx"
      using True "1.prems"(5) by auto
    obtain ns vl q where d: "DecodeEntry (bi_data it) (GetRestartPoint it ?mid) (unat (bi_restarts it)) = Some (0, ns, vl, q)"
      "take (unat ns) (drop q (bi_data it)) = ekey es (rx ! ?mid)"
      using restart_key [OF "1.prems"(1) mid(1,2)] by blast
    have "restarts_ok es rx" using "1.prems"(1) by (simp add: iter_over_def laid_out_def)
    then have rm: "rx ! ?mid < length es" using mid(1,2) by (rule rx_pos)
    show ?thesis
    proof (cases "Compare (bi_comparator it) (ekey es (rx ! ?mid)) t < 0")
      case less: True
      then have "rx ! ?mid < lower_bound (Compare (bi_comparator it)) t (map snd es)"
        using three_way.lower_bound_less [OF "1.prems"(2,3), of "rx ! ?mid" t] rm by simp
      with "1.IH"(1) [OF True refl refl d(1) refl refl refl _ refl] less d "1.prems" mid True
      show ?thesis by (subst seek_restart.simps) (simp add: Let_def)
    next
      case False
      with "1.IH"(2) [OF True refl refl d(1) refl refl refl _ refl] d "1.prems" mid True
      show ?thesis by (subst seek_restart.simps) (simp add: Let_def)
    qed
  next
    case False
    then show ?thesis using "1.prems" by (subst seek_restart.simps) simp
  qed
qed

lemma Seek_at:
  assumes "iter_over it es rx" "three_way (Compare (bi_comparator it))" "sorted_kvs (Compare (bi_comparator it)) (map snd es)"
    and "iter_end it es rx \<or> (\<exists>i. iter_at it es rx i)"
  shows "(if lower_bound (Compare (bi_comparator it)) t (map snd es) < length es
          then iter_at (BlockIter_Seek t it) es rx (lower_bound (Compare (bi_comparator it)) t (map snd es))
          else iter_end (BlockIter_Seek t it) es rx) \<and>
    bi_comparator (BlockIter_Seek t it) = bi_comparator it \<and> bi_status (BlockIter_Seek t it) = bi_status it"
proof -
  let ?c = "Compare (bi_comparator it)"
  let ?l = "lower_bound ?c t (map snd es)"
  have rx: "restarts_ok es rx" "bi_num_restarts it = length rx" "unat (bi_restarts it) = epos es (length es)"
    using assms(1) by (auto simp: iter_over_def laid_out_def)
  note rx0 = rx_0 [OF rx(1)]
  have scan: "(if ?l < length es then iter_at (seek_linear t it') es rx ?l else iter_end (seek_linear t it') es rx) \<and>
      bi_comparator (seek_linear t it') = bi_comparator it \<and> bi_status (seek_linear t it') = bi_status it"
    if "iter_before it' es rx j" "j \<le> ?l" "bi_comparator it' = bi_comparator it" "bi_status it' = bi_status it" for it' j
    using seek_linear_at [OF that(1), of t] that(2) unfolding that(3,4) by blast
  have restart: "(if ?l < length es then iter_at (seek_linear t (SeekToRestartPoint r it)) es rx ?l
        else iter_end (seek_linear t (SeekToRestartPoint r it)) es rx) \<and>
      bi_comparator (seek_linear t (SeekToRestartPoint r it)) = bi_comparator it \<and>
      bi_status (seek_linear t (SeekToRestartPoint r it)) = bi_status it" if "r < length rx" "rx ! r \<le> ?l" for r
    by (rule scan [OF restart_before [OF assms(1) that(1)] that(2)]) (simp_all add: SeekToRestartPoint_def)
  have search: "\<exists>r. seek_restart it t left right = Some r \<and> r < length rx \<and> rx ! r \<le> ?l"
    if "left \<le> right" "right < length rx" "rx ! left \<le> ?l" for left right
    using seek_restart_at [OF assms(1-3) that] .
  show ?thesis
  proof (cases "BlockIter_Valid it")
    case False
    obtain r where "seek_restart it t 0 (length rx - 1) = Some r" "r < length rx" "rx ! r \<le> ?l"
      using search [of 0 "length rx - 1"] rx0 by auto
    with restart [of r] False show ?thesis by (simp add: BlockIter_Seek_def rx(2))
  next
    case True
    then obtain i where i: "iter_at it es rx i"
      using assms(4) rx(3) by (auto simp: iter_end_def BlockIter_Valid_def)
    then have at: "bi_key it = fst (map snd es ! i)" "i < length (map snd es)" "bi_restart_index it < length rx"
      "rx ! bi_restart_index it \<le> i"
      by (auto simp: iter_at_def)
    consider "?c (bi_key it) t = 0" | "?c (bi_key it) t < 0" | "?c (bi_key it) t > 0" by linarith
    then show ?thesis
    proof cases
      case 1
      then have "?l = i"
        using three_way.lower_bound_unique_sorted [OF assms(2,3) at(2)] at(1) by simp
      with 1 True i show ?thesis by (auto simp: BlockIter_Seek_def iter_at_def)
    next
      case 2
      then have less: "i < ?l" using three_way.lower_bound_less [OF assms(2,3) at(2)] at(1) by simp
      obtain r where r: "seek_restart it t (bi_restart_index it) (length rx - 1) = Some r" "r < length rx" "rx ! r \<le> ?l"
      proof -
        have "bi_restart_index it \<le> length rx - 1" "length rx - 1 < length rx" using at(3) by linarith+
        then show thesis using search [of "bi_restart_index it" "length rx - 1"] at(4) less that by fastforce
      qed
      show ?thesis
        using r 2 True restart [OF r(2,3)] scan [OF at_before [OF i]] less
        by (cases "r = bi_restart_index it") (simp_all add: BlockIter_Seek_def rx(2))
    next
      case 3
      obtain r where r: "seek_restart it t 0 (bi_restart_index it) = Some r" "r < length rx" "rx ! r \<le> ?l"
        using search [of 0 "bi_restart_index it"] at rx0 by auto
      show ?thesis using r 3 True restart [OF r(2,3)] by (simp add: BlockIter_Seek_def)
    qed
  qed
qed

section \<open>The iterator as a cursor\<close>

definition block_cursor :: "Comparator \<Rightarrow> BlockIter \<Rightarrow> kv list \<Rightarrow> nat \<Rightarrow> bool" where
  "block_cursor c it kvs i \<longleftrightarrow>
     (\<exists>es rx. iter_over it es rx \<and> map snd es = kvs \<and> sorted_kvs (Compare c) kvs \<and>
        bi_comparator it = c \<and> bi_status it = OK \<and> i \<le> length kvs \<and>
        (if i < length kvs then iter_at it es rx i else iter_end it es rx))"

lemma block_cursorE:
  assumes "block_cursor c it kvs i"
  obtains es rx where "iter_over it es rx" "kvs = map snd es" "sorted_kvs (Compare c) (map snd es)"
    "bi_comparator it = c" "bi_status it = OK" "i \<le> length es"
    "if i < length es then iter_at it es rx i else iter_end it es rx"
  using assms unfolding block_cursor_def by auto

lemma block_cursorI:
  assumes "if i < length es then iter_at it es rx i else iter_end it es rx" "sorted_kvs (Compare c) (map snd es)"
    "bi_comparator it = c" "bi_status it = OK" "i \<le> length es"
  shows "block_cursor c it (map snd es) i"
  using assms unfolding block_cursor_def
  by (intro exI [of _ es] exI [of _ rx]) (auto simp: iter_at_def iter_end_def split: if_splits)

lemma block_iterator:
  assumes "three_way (Compare c)"
  shows "iterator (Compare c) BlockIter (block_cursor c)"
proof (intro iterator.intro [OF assms] iterator_axioms.intro, unfold BlockIter_def Iterator.select_convs, goal_cases)
  case (1 s kvs i)
  then show ?case by (auto simp: block_cursor_def)
next
  case (2 s kvs i)
  then show ?case by (auto simp: block_cursor_def)
next
  case (3 s kvs i)
  then show ?case
    by (rule block_cursorE)
       (auto simp: iter_at_def iter_end_def iter_over_def BlockIter_Valid_def epos_less_iff
        simp flip: epos_length split: if_splits)
next
  case (4 s kvs i)
  then show ?case by (elim block_cursorE) (auto simp: iter_at_def split: if_splits)
next
  case (5 s kvs i)
  then obtain es rx where c: "iter_over s es rx" "kvs = map snd es" "sorted_kvs (Compare c) (map snd es)"
    "bi_comparator s = c" "bi_status s = OK" by (elim block_cursorE)
  show ?case
    unfolding c(2) using SeekToFirst_at [OF c(1)] c(3-5) by (intro block_cursorI [where rx = rx]) auto
next
  case (6 s kvs i)
  then obtain es rx where c: "iter_over s es rx" "kvs = map snd es" "sorted_kvs (Compare c) (map snd es)"
    "bi_comparator s = c" "bi_status s = OK" by (elim block_cursorE)
  show ?case
    unfolding c(2) using SeekToLast_at [OF c(1)] c(3-5) by (intro block_cursorI [where rx = rx]) (auto split: if_splits)
next
  case (7 s kvs i t)
  then obtain es rx where c: "iter_over s es rx" "kvs = map snd es" "sorted_kvs (Compare c) (map snd es)"
    "bi_comparator s = c" "bi_status s = OK" "iter_end s es rx \<or> (\<exists>i. iter_at s es rx i)"
    by (elim block_cursorE) (auto split: if_splits)
  show ?case
    unfolding c(2) using Seek_at [OF c(1) _ _ c(6), of t] assms c(3-5) lower_bound_le [of "Compare c" t "map snd es"]
    by (intro block_cursorI [where rx = rx]) auto
next
  case (8 s kvs i)
  then obtain es rx where c: "kvs = map snd es" "sorted_kvs (Compare c) (map snd es)"
    "bi_comparator s = c" "bi_status s = OK" "iter_at s es rx i" "i < length es"
    by (elim block_cursorE) (auto split: if_splits)
  show ?case
    unfolding c(1) using Next_at [OF c(5)] c(2-4,6) by (intro block_cursorI [where rx = rx]) auto
next
  case (9 s kvs i)
  then obtain es rx where c: "kvs = map snd es" "sorted_kvs (Compare c) (map snd es)"
    "bi_comparator s = c" "bi_status s = OK" "iter_at s es rx i" "i < length es"
    by (elim block_cursorE) (auto split: if_splits)
  show ?case
    unfolding c(1) using Prev_at [OF c(5)] c(2-4,6) by (intro block_cursorI [where rx = rx]) (auto split: if_splits)
next
  case (10 s kvs i)
  then show ?case by (elim block_cursorE) simp
qed

interpretation block_it: iterator "Compare BytewiseComparator" BlockIter "block_cursor BytewiseComparator"
  by (rule block_iterator) unfold_locales

section \<open>The builder\<close>

definition builder_holds :: "BlockBuilder \<Rightarrow> blk_entry list \<Rightarrow> nat list \<Rightarrow> bool" where
  "builder_holds b es rx \<longleftrightarrow>
     bb_buffer b = enc_all es \<and> bb_restarts b = map (\<lambda>e. of_nat (epos es e)) rx \<and>
     chained es \<and> restarts_ok es rx \<and> bb_last_key b = (if es = [] then [] else ekey es (length es - 1)) \<and>
     (es = [] \<longrightarrow> bb_counter b = 0) \<and> 1 \<le> bb_block_restart_interval b"

lemma builder_new_holds: "1 \<le> n \<Longrightarrow> builder_holds (BlockBuilder_new n) [] [0]"
  by (simp add: builder_holds_def BlockBuilder_new_def chained_def restarts_ok_def)

lemma builder_reset_holds: "builder_holds b es rx \<Longrightarrow> builder_holds (BlockBuilder_Reset b) [] [0]"
  by (simp add: builder_holds_def BlockBuilder_Reset_def chained_def restarts_ok_def)

lemma epos_append: "e \<le> length es \<Longrightarrow> epos (es @ fs) e = epos es e"
  by (simp add: epos_def)

lemma chained_snoc:
  assumes "chained es" "shares (if es = [] then [] else ekey es (length es - 1)) e"
  shows "chained (es @ [e])"
  using assms by (auto simp: chained_def nth_append less_Suc_eq)

lemma common_prefix_shares: "shares a (common_prefix a k 0, k, v)"
  using common_prefix_from [of 0 a k] by (auto simp: shares_def)

lemma restarts_map_append:
  "restarts_ok es rx \<Longrightarrow> map (\<lambda>e. of_nat (epos (es @ fs) e) :: u32) rx = map (\<lambda>e. of_nat (epos es e)) rx"
  using rx_bound by (auto simp: epos_append in_set_conv_nth)

lemma restarts_ok_snoc:
  assumes "restarts_ok es rx" "es = [] \<Longrightarrow> fst e = 0"
  shows "restarts_ok (es @ [e]) rx"
proof -
  have "fst ((es @ [e]) ! x) = 0" if "x \<in> set rx" "x < length (es @ [e])" for x
  proof (cases "x < length es")
    case True
    then show ?thesis using assms(1) that by (simp add: restarts_ok_def nth_append)
  next
    case False
    then have "x = length es" using that by simp
    moreover from this have "x = 0" using assms(1) that by (auto simp: restarts_ok_def)
    ultimately show ?thesis using assms(2) by simp
  qed
  then show ?thesis using assms(1) by (auto simp: restarts_ok_def intro: less_SucI)
qed

lemma restarts_ok_restart:
  assumes "restarts_ok es rx" "es \<noteq> []" "fst e = 0"
  shows "restarts_ok (es @ [e]) (rx @ [length es])"
proof -
  have "x < length es" if "x \<in> set rx" for x
    using assms(1,2) that by (cases "x = 0") (auto simp: restarts_ok_def)
  then show ?thesis
    using assms(1,3) restarts_ok_snoc [OF assms(1), of e] assms(2)
    by (auto simp: restarts_ok_def sorted_wrt_append nth_append)
qed

lemma Add_holds:
  assumes "builder_holds b es rx"
  shows "\<exists>sh rx'. builder_holds (BlockBuilder_Add k v b) (es @ [(sh, k, v)]) rx'"
proof (cases "bb_counter b < bb_block_restart_interval b")
  case True
  let ?sh = "common_prefix (bb_last_key b) k 0"
  have b: "chained es" "restarts_ok es rx" "bb_last_key b = (if es = [] then [] else ekey es (length es - 1))"
    "bb_buffer b = enc_all es" "bb_restarts b = map (\<lambda>e. of_nat (epos es e)) rx"
    using assms by (auto simp: builder_holds_def)
  have sh: "shares (bb_last_key b) (?sh, k, v)" by (rule common_prefix_shares)
  have z: "?sh = 0" if "es = []" using sh b(3) that by (simp add: shares_def)
  have "chained (es @ [(?sh, k, v)])" using chained_snoc [OF b(1)] sh b(3) by simp
  moreover have "restarts_ok (es @ [(?sh, k, v)]) rx" using z by (intro restarts_ok_snoc [OF b(2)]) simp
  ultimately have "builder_holds (BlockBuilder_Add k v b) (es @ [(?sh, k, v)]) rx"
    using assms True sh b(4) restarts_map_append [OF b(2)]
    by (auto simp: builder_holds_def BlockBuilder_Add_def Let_def PutVarint32_def entry_enc_def shares_def)
  then show ?thesis by blast
next
  case False
  have b: "chained es" "restarts_ok es rx" "es \<noteq> []" "bb_buffer b = enc_all es"
    "bb_restarts b = map (\<lambda>e. of_nat (epos es e)) rx"
    using assms False by (auto simp: builder_holds_def)
  have "chained (es @ [(0, k, v)])" using b(1) by (intro chained_snoc) (simp_all add: shares_def)
  moreover have "restarts_ok (es @ [(0, k, v)]) (rx @ [length es])" using b(2,3) by (intro restarts_ok_restart) simp_all
  ultimately have "builder_holds (BlockBuilder_Add k v b) (es @ [(0, k, v)]) (rx @ [length es])"
    using assms False b(3,4) restarts_map_append [OF b(2)]
    by (auto simp: builder_holds_def BlockBuilder_Add_def Let_def PutVarint32_def entry_enc_def epos_append)
  then show ?thesis by blast
qed

lemma Add_all_holds:
  assumes "builder_holds b es rx"
  shows "\<exists>es' rx'. builder_holds (fold (\<lambda>(k, v). BlockBuilder_Add k v) kvs b) es' rx' \<and> map snd es' = map snd es @ kvs"
  using assms
proof (induction kvs arbitrary: b es rx)
  case (Cons e kvs)
  obtain k v where e: "e = (k, v)" by fastforce
  obtain sh rx' where "builder_holds (BlockBuilder_Add k v b) (es @ [(sh, k, v)]) rx'" using Add_holds [OF Cons.prems] by blast
  from Cons.IH [OF this] show ?case by (simp add: e)
qed auto

lemma Finish_bytes:
  "fst (BlockBuilder_Finish b) =
     bb_buffer b @ concat (map EncodeFixed32 (bb_restarts b)) @ EncodeFixed32 (of_nat (length (bb_restarts b)))"
  by (simp add: BlockBuilder_Finish_def fold_PutFixed32 Let_def) (simp add: PutFixed32_def)

lemma Finish_layout:
  assumes "builder_holds b es rx" "length (fst (BlockBuilder_Finish b)) < 2 ^ 32"
  shows "laid_out (fst (BlockBuilder_Finish b)) es rx"
  using assms unfolding builder_holds_def laid_out_def block_bytes_def Finish_bytes by (simp add: o_def)

lemma CurrentSizeEstimate_Finish: "length (fst (BlockBuilder_Finish b)) = CurrentSizeEstimate b"
proof -
  have "length (concat (map EncodeFixed32 rs)) = length rs * 4" for rs by (induction rs) auto
  then show ?thesis by (simp add: Finish_bytes CurrentSizeEstimate_def)
qed

lemma NewIterator_cursor:
  assumes "laid_out data es rx" "sorted_kvs (Compare c) (map snd es)"
  shows "\<exists>it. Block_NewIterator c (Block_new data) = Inr it \<and> block_cursor c it (map snd es) (length es)"
proof -
  let ?p = "enc_all es @ concat (map (\<lambda>e. EncodeFixed32 (of_nat (epos es e))) rx)"
  have l: "data = ?p @ EncodeFixed32 (of_nat (length rx))" "length data < 2 ^ 32" "restarts_ok es rx"
    using assms(1) by (auto simp: laid_out_def block_bytes_def)
  have len: "length data = length (enc_all es) + length rx * 4 + 4"
    unfolding l(1) by (simp add: length_concat_Fixed32)
  then have rx: "length rx < 2 ^ 30" "0 < length rx" using l(2) rx_0 [OF l(3)] by auto
  have num: "DecodeFixed32 (drop (length data - 4) data) = of_nat (length rx)"
    using DecodeFixed32_append [of "of_nat (length rx)" "[]"] unfolding l(1) by simp
  define b where "b = \<lparr> blk_data = data, blk_size = length data, blk_restart_offset = of_nat (length (enc_all es)) \<rparr>"
  have un: "unat (1 + of_nat (length rx) :: u32) = Suc (length rx)"
    using unat_u32_of_nat [of "Suc (length rx)"] rx(1) by simp
  have "Block_new data = b"
    using len rx un num by (simp add: Block_new_def b_def NumRestarts_def)
  moreover have "unat (of_nat (length rx) :: u32) = length rx" using rx(1) by simp
  then have "(of_nat (length rx) :: u32) \<noteq> 0" using rx(2) by (metis not_less0 unsigned_0)
  ultimately have it: "Block_NewIterator c (Block_new data) =
      Inr (BlockIter_new c data (of_nat (length (enc_all es))) (length rx))"
    using len rx num by (simp add: Block_NewIterator_def NumRestarts_def b_def)
  moreover have "block_cursor c (BlockIter_new c data (of_nat (length (enc_all es))) (length rx)) (map snd es) (length es)"
    using assms len l(2)
    by (intro block_cursorI [where rx = rx]) (simp_all add: iter_end_def iter_over_def BlockIter_new_def)
  ultimately show ?thesis by blast
qed

lemma built_block:
  assumes "sorted_kvs (Compare c) kvs" "1 \<le> n"
    and "data = fst (BlockBuilder_Finish (fold (\<lambda>(k, v). BlockBuilder_Add k v) kvs (BlockBuilder_new n)))"
    and "length data < 2 ^ 32"
  shows "\<exists>it. Block_NewIterator c (Block_new data) = Inr it \<and> block_cursor c it kvs (length kvs)"
proof -
  obtain es rx where "builder_holds (fold (\<lambda>(k, v). BlockBuilder_Add k v) kvs (BlockBuilder_new n)) es rx" "map snd es = kvs"
    using Add_all_holds [OF builder_new_holds [OF assms(2)], of kvs] by auto
  moreover from Finish_layout [OF this(1)] assms(3,4) have "laid_out data es rx" by simp
  ultimately show ?thesis using NewIterator_cursor [of data es rx c] assms(1) by auto
qed

section \<open>Properties\<close>

text \<open>
  C24: blocks round trip.  For entries sorted by the comparator, any restart interval and a block
  under 4 GB, the iterator over the block that the builder finishes is a cursor over exactly these
  entries: scanning forward from \<open>SeekToFirst\<close> returns them all in order, \<open>Seek\<close> followed by a
  scan returns those not below the target, \<open>SeekToLast\<close> positions at the last entry, \<open>Prev\<close> after
  \<open>Seek\<close> at the entry before, and the status stays \<open>OK\<close>.
\<close>

theorem block_roundtrip:
  assumes "three_way (Compare c)" "sorted_kvs (Compare c) kvs" "1 \<le> n"
    and "data = fst (BlockBuilder_Finish (fold (\<lambda>(k, v). BlockBuilder_Add k v) kvs (BlockBuilder_new n)))"
    and "length data < 2 ^ 32"
  shows "\<exists>it. Block_NewIterator c (Block_new data) = Inr it \<and>
    it_collect BlockIter (length kvs) (BlockIter_SeekToFirst it) = kvs \<and>
    (\<forall>t. it_collect BlockIter (length kvs) (BlockIter_Seek t it) = dropWhile (\<lambda>e. Compare c (fst e) t < 0) kvs) \<and>
    (kvs \<noteq> [] \<longrightarrow> bi_key (BlockIter_SeekToLast it) = fst (last kvs)) \<and>
    (\<forall>i t. Suc i < length kvs \<longrightarrow> t = fst (kvs ! Suc i) \<longrightarrow>
       bi_key (BlockIter_Prev (BlockIter_Seek t it)) = fst (kvs ! i) \<and>
       bi_status (BlockIter_Prev (BlockIter_Seek t it)) = OK)"
proof -
  obtain it where it: "Block_NewIterator c (Block_new data) = Inr it" "block_cursor c it kvs (length kvs)"
    using built_block [OF assms(2-5)] by blast
  note I = block_iterator [OF assms(1)]
  have ops: "it_SeekToFirst BlockIter = BlockIter_SeekToFirst" "it_Seek BlockIter = BlockIter_Seek"
    "it_SeekToLast BlockIter = BlockIter_SeekToLast" "it_Prev BlockIter = BlockIter_Prev"
    "it_key BlockIter = bi_key" "it_status BlockIter = bi_status"
    by (simp_all add: BlockIter_def)
  have last: "bi_key (BlockIter_SeekToLast it) = fst (last kvs)" if "kvs \<noteq> []"
    using iterator.cursor_key [OF I iterator.cursor_SeekToLast [OF I it(2)]] that by (simp add: ops last_conv_nth)
  have prev: "bi_key (BlockIter_Prev (BlockIter_Seek t it)) = fst (kvs ! i) \<and>
      bi_status (BlockIter_Prev (BlockIter_Seek t it)) = OK" if "Suc i < length kvs" "t = fst (kvs ! Suc i)" for i t
  proof -
    have "lower_bound (Compare c) t kvs = Suc i"
      using three_way.lower_bound_unique_sorted [OF assms(1,2) that(1), of t] three_way.cmp_refl [OF assms(1)] that(2) by simp
    then have "block_cursor c (BlockIter_Seek t it) kvs (Suc i)"
      using iterator.cursor_Seek [OF I it(2), of t] by (simp add: ops)
    from iterator.cursor_Prev [OF I this that(1)] have "block_cursor c (BlockIter_Prev (BlockIter_Seek t it)) kvs i"
      by (simp add: ops)
    then show ?thesis
      using iterator.cursor_key [OF I, of _ kvs i] iterator.cursor_status [OF I] that(1) by (simp add: ops)
  qed
  show ?thesis
    using it(1) iterator.scan_all [OF I it(2)] iterator.scan_from [OF I it(2)] last prev
    by (auto simp: ops)
qed

theorem block_roundtrip_witness:
  "\<exists>it. Block_NewIterator BytewiseComparator
      (Block_new (fst (BlockBuilder_Finish (fold (\<lambda>(k, v). BlockBuilder_Add k v)
        [([1, 2], [7]), ([1, 3], [8]), ([4], [])] (BlockBuilder_new 2))))) = Inr it \<and>
    it_collect BlockIter 3 (BlockIter_SeekToFirst it) = [([1, 2], [7]), ([1, 3], [8]), ([4], [])] \<and>
    it_collect BlockIter 3 (BlockIter_Seek [1, 2, 9] it) = [([1, 3], [8]), ([4], [])]"
proof -
  let ?kvs = "[([1, 2], [7]), ([1, 3], [8]), ([4], [])] :: kv list"
  let ?data = "fst (BlockBuilder_Finish (fold (\<lambda>(k, v). BlockBuilder_Add k v) ?kvs (BlockBuilder_new 2)))"
  have small: "length ?data < 2 ^ 32"
    by (simp add: CurrentSizeEstimate_Finish CurrentSizeEstimate_def BlockBuilder_Add_def BlockBuilder_new_def
        PutVarint32_def EncodeVarint32_def common_prefix.simps)
  have sorted: "sorted_kvs (Compare BytewiseComparator) ?kvs"
    by (simp add: sorted_kvs_def BytewiseComparator_def)
  have len: "length ?kvs = 3" "1 \<le> (2::nat)" by simp_all
  obtain it where it: "Block_NewIterator BytewiseComparator (Block_new ?data) = Inr it"
    "it_collect BlockIter 3 (BlockIter_SeekToFirst it) = ?kvs"
    "\<forall>t. it_collect BlockIter 3 (BlockIter_Seek t it) = dropWhile (\<lambda>e. Compare BytewiseComparator (fst e) t < 0) ?kvs"
    using block_roundtrip [OF bytewise.three_way_axioms sorted len(2) refl small] unfolding len(1) by blast
  have "dropWhile (\<lambda>e. Compare BytewiseComparator (fst e) [1, 2, 9] < 0) ?kvs = [([1, 3], [8]), ([4], [])]"
    by (simp add: BytewiseComparator_def)
  with it show ?thesis by metis
qed

text \<open>
  C25: parsing terminates on arbitrary bytes.  Whatever the block holds, a successful \<open>ParseNextKey\<close>
  moves the end of the current entry strictly forward and never past the restart array, although
  the source adds two attacker-controlled 32-bit lengths without a check.
\<close>

theorem block_parse_progress:
  assumes "ParseNextKey it = (True, it')"
  shows "NextEntryOffset it < NextEntryOffset it' \<and> NextEntryOffset it' \<le> unat (bi_restarts it) \<and>
         BlockIter_Valid it'"
  using ParseNextKey_progress [OF assms] ParseNextKey_less [OF assms] by (simp add: BlockIter_Valid_def)

theorem block_parse_progress_witness:
  "NextEntryOffset (SeekToRestartPoint 0 (BlockIter_new BytewiseComparator [0, 1, 1, 5, 9, 0, 0, 0, 0, 1, 0, 0, 0] 5 1)) <
   NextEntryOffset (snd (ParseNextKey (SeekToRestartPoint 0
     (BlockIter_new BytewiseComparator [0, 1, 1, 5, 9, 0, 0, 0, 0, 1, 0, 0, 0] 5 1))))"
proof -
  let ?it = "SeekToRestartPoint 0 (BlockIter_new BytewiseComparator [0, 1, 1, 5, 9, 0, 0, 0, 0, 1, 0, 0, 0] 5 1)"
  have "fst (ParseNextKey ?it)"
    by (simp add: ParseNextKey_def SeekToRestartPoint_def BlockIter_new_def GetRestartPoint_def DecodeFixed32_def
        NextEntryOffset_def DecodeEntry_def DecodeEntryHeader_def)
  then have "ParseNextKey ?it = (True, snd (ParseNextKey ?it))" by (metis prod.collapse)
  from block_parse_progress [OF this] show ?thesis by blast
qed


end
