(* ===== verification/Merger.thy ===== *)
theory Merger
  imports Block
begin

text \<open>
  \<open>table/merger.cc\<close>: the iterator that merges several sorted iterators.  The operations are written
  over any child iterator \<open>J\<close>; the source uses them with wrapped children.
\<close>

section \<open>Definitions\<close>

datatype Direction = kForward | kReverse

record 'c MergingIter =
  mi_children :: "'c list"
  mi_current :: "nat option"
  mi_direction :: Direction

definition FindSmallest :: "(slice \<Rightarrow> slice \<Rightarrow> int) \<Rightarrow> 'c Iterator \<Rightarrow> 'c list \<Rightarrow> nat option" where
  "FindSmallest compare J children =
     fold (\<lambda>i smallest.
             let child = children ! i in
             if it_Valid J child then
               (case smallest of
                  None \<Rightarrow> Some i
                | Some s \<Rightarrow> if compare (it_key J child) (it_key J (children ! s)) < 0 then Some i else smallest)
             else smallest)
       [0..<length children] None"

definition FindLargest :: "(slice \<Rightarrow> slice \<Rightarrow> int) \<Rightarrow> 'c Iterator \<Rightarrow> 'c list \<Rightarrow> nat option" where
  "FindLargest compare J children =
     fold (\<lambda>i largest.
             let child = children ! i in
             if it_Valid J child then
               (case largest of
                  None \<Rightarrow> Some i
                | Some s \<Rightarrow> if compare (it_key J child) (it_key J (children ! s)) > 0 then Some i else largest)
             else largest)
       (rev [0..<length children]) None"

definition merge_key :: "'c Iterator \<Rightarrow> 'c MergingIter \<Rightarrow> slice" where
  "merge_key J m = it_key J (mi_children m ! the (mi_current m))"

definition merge_value :: "'c Iterator \<Rightarrow> 'c MergingIter \<Rightarrow> slice" where
  "merge_value J m = it_value J (mi_children m ! the (mi_current m))"

text \<open>After repositioning the children: pick the current one.\<close>

definition merge_forward :: "(slice \<Rightarrow> slice \<Rightarrow> int) \<Rightarrow> 'c Iterator \<Rightarrow> 'c list \<Rightarrow> 'c MergingIter" where
  "merge_forward compare J children =
     \<lparr> mi_children = children, mi_current = FindSmallest compare J children, mi_direction = kForward \<rparr>"

definition merge_backward :: "(slice \<Rightarrow> slice \<Rightarrow> int) \<Rightarrow> 'c Iterator \<Rightarrow> 'c list \<Rightarrow> 'c MergingIter" where
  "merge_backward compare J children =
     \<lparr> mi_children = children, mi_current = FindLargest compare J children, mi_direction = kReverse \<rparr>"

definition merge_SeekToFirst :: "(slice \<Rightarrow> slice \<Rightarrow> int) \<Rightarrow> 'c Iterator \<Rightarrow> 'c MergingIter \<Rightarrow> 'c MergingIter" where
  "merge_SeekToFirst compare J m = merge_forward compare J (map (it_SeekToFirst J) (mi_children m))"

definition merge_SeekToLast :: "(slice \<Rightarrow> slice \<Rightarrow> int) \<Rightarrow> 'c Iterator \<Rightarrow> 'c MergingIter \<Rightarrow> 'c MergingIter" where
  "merge_SeekToLast compare J m = merge_backward compare J (map (it_SeekToLast J) (mi_children m))"

definition merge_Seek :: "(slice \<Rightarrow> slice \<Rightarrow> int) \<Rightarrow> 'c Iterator \<Rightarrow> slice \<Rightarrow> 'c MergingIter \<Rightarrow> 'c MergingIter" where
  "merge_Seek compare J target m = merge_forward compare J (map (it_Seek J target) (mi_children m))"

definition merge_Next :: "(slice \<Rightarrow> slice \<Rightarrow> int) \<Rightarrow> 'c Iterator \<Rightarrow> 'c MergingIter \<Rightarrow> 'c MergingIter" where
  "merge_Next compare J m =
     (let key = merge_key J m;
          cur = the (mi_current m);
          after = (\<lambda>child. let child = it_Seek J key child
                           in if it_Valid J child \<and> compare key (it_key J child) = 0 then it_Next J child else child);
          children = (if mi_direction m \<noteq> kForward
                      then map (\<lambda>i. if i \<noteq> cur then after (mi_children m ! i) else mi_children m ! i)
                             [0..<length (mi_children m)]
                      else mi_children m)
      in merge_forward compare J (children[cur := it_Next J (children ! cur)]))"

definition merge_Prev :: "(slice \<Rightarrow> slice \<Rightarrow> int) \<Rightarrow> 'c Iterator \<Rightarrow> 'c MergingIter \<Rightarrow> 'c MergingIter" where
  "merge_Prev compare J m =
     (let key = merge_key J m;
          cur = the (mi_current m);
          before = (\<lambda>child. let child = it_Seek J key child
                            in if it_Valid J child then it_Prev J child else it_SeekToLast J child);
          children = (if mi_direction m \<noteq> kReverse
                      then map (\<lambda>i. if i \<noteq> cur then before (mi_children m ! i) else mi_children m ! i)
                             [0..<length (mi_children m)]
                      else mi_children m)
      in merge_backward compare J (children[cur := it_Prev J (children ! cur)]))"

text \<open>The first status that is not \<open>OK\<close>.\<close>

fun first_error :: "Status list \<Rightarrow> Status" where
  "first_error [] = OK"
| "first_error (s # ss) = (if \<not> ok s then s else first_error ss)"

definition merging :: "(slice \<Rightarrow> slice \<Rightarrow> int) \<Rightarrow> 'c Iterator \<Rightarrow> 'c MergingIter Iterator" where
  "merging compare J =
     \<lparr> it_Valid = (\<lambda>m. mi_current m \<noteq> None),
       it_SeekToFirst = merge_SeekToFirst compare J,
       it_SeekToLast = merge_SeekToLast compare J,
       it_Seek = merge_Seek compare J,
       it_Next = merge_Next compare J,
       it_Prev = merge_Prev compare J,
       it_key = merge_key J,
       it_value = merge_value J,
       it_status = (\<lambda>m. first_error (map (it_status J) (mi_children m))) \<rparr>"

definition MergingIterator :: "(slice \<Rightarrow> slice \<Rightarrow> int) \<Rightarrow> 's Iterator \<Rightarrow> 's IteratorWrapper MergingIter Iterator" where
  "MergingIterator compare I = merging compare (IteratorWrapper I)"

definition MergingIterator_new :: "'s Iterator \<Rightarrow> 's list \<Rightarrow> 's IteratorWrapper MergingIter" where
  "MergingIterator_new I children =
     \<lparr> mi_children = map (\<lambda>child. IteratorWrapper_Set I (Some child) IteratorWrapper_new) children,
       mi_current = None, mi_direction = kForward \<rparr>"

text \<open>\<open>NewMergingIterator\<close>: no child, one child, or a merge.\<close>

datatype 's MergedIter = MergedNone Status | MergedOne 's | MergedMany "'s IteratorWrapper MergingIter"

definition NewMergingIterator :: "'s Iterator \<Rightarrow> 's list \<Rightarrow> 's MergedIter" where
  "NewMergingIterator I children =
     (case children of
        [] \<Rightarrow> MergedNone NewEmptyIterator
      | [child] \<Rightarrow> MergedOne child
      | _ \<Rightarrow> MergedMany (MergingIterator_new I children))"

section \<open>Cuts of a sorted sequence\<close>

text \<open>A cut is a property of keys that holds downwards; \<open>cnt\<close> counts the entries below it.\<close>

definition cnt :: "('k \<Rightarrow> bool) \<Rightarrow> ('k \<times> 'v) list \<Rightarrow> nat" where
  "cnt P xs = length (takeWhile (\<lambda>e. P (fst e)) xs)"

lemma cnt_le: "cnt P xs \<le> length xs"
  by (simp add: cnt_def length_takeWhile_le)

lemma cnt_lower_bound: "cnt (\<lambda>k. cmp k t < 0) xs = lower_bound cmp t xs"
  by (simp add: cnt_def lower_bound_def)

lemma cnt_False [simp]: "cnt (\<lambda>k. False) xs = 0"
  unfolding cnt_def by (cases xs) auto

lemma cnt_True [simp]: "cnt (\<lambda>k. True) xs = length xs"
  unfolding cnt_def by (induction xs) auto

lemma cnt_cong: "(\<And>e. e \<in> set xs \<Longrightarrow> P (fst e) = Q (fst e)) \<Longrightarrow> cnt P xs = cnt Q xs"
  unfolding cnt_def by (metis (no_types, lifting) takeWhile_cong)

lemma cnt_nth: "cnt P xs < length xs \<Longrightarrow> \<not> P (fst (xs ! cnt P xs))"
  unfolding cnt_def by (rule nth_length_takeWhile)

lemma cnt_nth_less: "j < cnt P xs \<Longrightarrow> P (fst (xs ! j))"
  unfolding cnt_def by (metis nth_mem set_takeWhileD takeWhile_nth)

definition last_below :: "('k \<Rightarrow> bool) \<Rightarrow> ('k \<times> 'v) list \<Rightarrow> nat" where
  "last_below P xs = (if cnt P xs = 0 then length xs else cnt P xs - 1)"

definition down_closed :: "('k \<Rightarrow> 'k \<Rightarrow> int) \<Rightarrow> ('k \<Rightarrow> bool) \<Rightarrow> bool" where
  "down_closed cmp P \<longleftrightarrow> (\<forall>a b. cmp a b \<le> 0 \<longrightarrow> P b \<longrightarrow> P a)"

context three_way
begin

lemma cmp_antisym: "cmp a b \<le> 0 \<Longrightarrow> cmp b a \<le> 0 \<Longrightarrow> cmp a b = 0"
  using cmp_le [of b a] by linarith

lemma down_simps:
  "down_closed cmp (\<lambda>k. False)" "down_closed cmp (\<lambda>k. True)"
  "down_closed cmp (\<lambda>k. cmp k t < 0)" "down_closed cmp (\<lambda>k. cmp k t \<le> 0)"
  using cmp_le_less_trans cmp_trans by (auto simp: down_closed_def)

lemma sorted_nth_less: "sorted_kvs cmp xs \<Longrightarrow> i < j \<Longrightarrow> j < length xs \<Longrightarrow> cmp (fst (xs ! i)) (fst (xs ! j)) < 0"
  by (simp add: sorted_kvs_def sorted_wrt_iff_nth_less)

lemma sorted_inj:
  assumes "sorted_kvs cmp xs" "e \<in> set xs" "e' \<in> set xs" "cmp (fst e) (fst e') = 0"
  shows "e = e'"
proof -
  obtain i j where "e = xs ! i" "i < length xs" "e' = xs ! j" "j < length xs" using assms(2,3) by (metis in_set_conv_nth)
  then show ?thesis
    using assms(1,4) sorted_nth_less [of xs i j] sorted_nth_less [of xs j i] cmp_neg
    by (metis linorder_neqE_nat order_less_irrefl)
qed

lemma cnt_above:
  assumes "sorted_kvs cmp xs" "down_closed cmp P" "e \<in> set xs" "\<not> P (fst e)"
  shows "cnt P xs < length xs \<and> cmp (fst (xs ! cnt P xs)) (fst e) \<le> 0"
proof -
  obtain j where j: "e = xs ! j" "j < length xs" using assms(3) by (metis in_set_conv_nth)
  then have "cnt P xs \<le> j" using cnt_nth_less [of j P xs] assms(4) by (metis not_le)
  then show ?thesis
    using j sorted_nth_less [OF assms(1), of "cnt P xs" j] by (cases "cnt P xs = j") auto
qed

lemma cnt_least:
  assumes "sorted_kvs cmp xs" "down_closed cmp P" "e \<in> set xs" "\<not> P (fst e)"
    and "\<And>e'. e' \<in> set xs \<Longrightarrow> \<not> P (fst e') \<Longrightarrow> cmp (fst e) (fst e') \<le> 0"
  shows "xs ! cnt P xs = e"
proof -
  have c: "cnt P xs < length xs" "cmp (fst (xs ! cnt P xs)) (fst e) \<le> 0" using cnt_above [OF assms(1-4)] by auto
  then have "cmp (fst e) (fst (xs ! cnt P xs)) \<le> 0" using assms(5) cnt_nth [OF c(1)] by simp
  then have "cmp (fst (xs ! cnt P xs)) (fst e) = 0" using c(2) cmp_antisym by blast
  then show ?thesis using sorted_inj [OF assms(1) nth_mem [OF c(1)] assms(3)] by simp
qed

lemma cnt_below:
  assumes "sorted_kvs cmp xs" "down_closed cmp P" "e \<in> set xs" "P (fst e)"
  shows "0 < cnt P xs \<and> cmp (fst e) (fst (xs ! (cnt P xs - 1))) \<le> 0"
proof -
  obtain j where j: "e = xs ! j" "j < length xs" using assms(3) by (metis in_set_conv_nth)
  have "j < cnt P xs"
  proof (rule ccontr)
    assume "\<not> j < cnt P xs"
    then have c: "cnt P xs \<le> j" "cnt P xs < length xs" using j(2) by auto
    then have "cmp (fst (xs ! cnt P xs)) (fst e) \<le> 0"
      using j sorted_nth_less [OF assms(1), of "cnt P xs" j] by (cases "cnt P xs = j") auto
    with assms(2,4) have "P (fst (xs ! cnt P xs))" unfolding down_closed_def by blast
    with cnt_nth [OF c(2)] show False by simp
  qed
  moreover have "cmp (fst e) (fst (xs ! (cnt P xs - 1))) \<le> 0"
  proof (cases "j = cnt P xs - 1")
    case False
    with \<open>j < cnt P xs\<close> cnt_le [of P xs] have "j < cnt P xs - 1" "cnt P xs - 1 < length xs" by linarith+
    from sorted_nth_less [OF assms(1) this] j(1) show ?thesis by simp
  qed (use j in simp)
  ultimately show ?thesis by simp
qed

lemma cnt_greatest:
  assumes "sorted_kvs cmp xs" "down_closed cmp P" "e \<in> set xs" "P (fst e)"
    and "\<And>e'. e' \<in> set xs \<Longrightarrow> P (fst e') \<Longrightarrow> cmp (fst e') (fst e) \<le> 0"
  shows "0 < cnt P xs \<and> xs ! (cnt P xs - 1) = e"
proof -
  have c: "0 < cnt P xs" "cmp (fst e) (fst (xs ! (cnt P xs - 1))) \<le> 0" using cnt_below [OF assms(1-4)] by auto
  have m: "xs ! (cnt P xs - 1) \<in> set xs" "P (fst (xs ! (cnt P xs - 1)))"
    using c(1) cnt_le [of P xs] cnt_nth_less [of "cnt P xs - 1" P xs] by auto
  then have "cmp (fst (xs ! (cnt P xs - 1))) (fst e) \<le> 0" using assms(5) by blast
  then have "cmp (fst e) (fst (xs ! (cnt P xs - 1))) = 0" using c(2) cmp_antisym by blast
  then show ?thesis using sorted_inj [OF assms(1) assms(3) m(1)] c(1) by simp
qed

lemma cnt_at:
  assumes "sorted_kvs cmp xs" "i < length xs"
  shows "cnt (\<lambda>k. cmp k (fst (xs ! i)) < 0) xs = i" "cnt (\<lambda>k. cmp k (fst (xs ! i)) \<le> 0) xs = Suc i"
proof -
  have lt: "cmp (fst (xs ! j)) (fst (xs ! i)) < 0" if "j < i" for j
    using sorted_nth_less [OF assms(1) that assms(2)] .
  have gt: "\<not> cmp (fst (xs ! j)) (fst (xs ! i)) \<le> 0" if "i < j" "j < length xs" for j
    using sorted_nth_less [OF assms(1) that] cmp_neg by (simp add: not_le)
  have "takeWhile (\<lambda>e. cmp (fst e) (fst (xs ! i)) < 0) xs = take i xs"
    using assms(2) lt by (intro takeWhile_eq_take_P_nth) auto
  moreover have "takeWhile (\<lambda>e. cmp (fst e) (fst (xs ! i)) \<le> 0) xs = take (Suc i) xs"
    using assms(2) lt gt by (intro takeWhile_eq_take_P_nth) (auto simp: less_Suc_eq intro: less_imp_le)
  ultimately show "cnt (\<lambda>k. cmp k (fst (xs ! i)) < 0) xs = i" "cnt (\<lambda>k. cmp k (fst (xs ! i)) \<le> 0) xs = Suc i"
    using assms(2) by (simp_all add: cnt_def)
qed

end

section \<open>Choosing the current child\<close>

text \<open>A scan that keeps a least element among the valid ones.\<close>

definition scan_pick :: "('i \<Rightarrow> bool) \<Rightarrow> ('i \<Rightarrow> 'i \<Rightarrow> bool) \<Rightarrow> 'i list \<Rightarrow> 'i option \<Rightarrow> 'i option" where
  "scan_pick valid le is acc =
     fold (\<lambda>i acc. if valid i then (case acc of None \<Rightarrow> Some i | Some s \<Rightarrow> if \<not> le s i then Some i else acc) else acc) is acc"

lemma scan_pick_None: "scan_pick valid le is acc = None \<longleftrightarrow> acc = None \<and> (\<forall>i \<in> set is. \<not> valid i)"
  unfolding scan_pick_def by (induction "is" arbitrary: acc) (auto split: option.splits)

lemma scan_pick_Some:
  assumes "\<And>a. le a a" "\<And>a b c. le a b \<Longrightarrow> le b c \<Longrightarrow> le a c" "\<And>a b. le a b \<or> le b a"
  shows "scan_pick valid le is acc = Some s \<Longrightarrow>
    (acc = Some s \<or> s \<in> set is \<and> valid s) \<and> (\<forall>a. acc = Some a \<longrightarrow> le s a) \<and> (\<forall>i \<in> set is. valid i \<longrightarrow> le s i)"
proof (induction "is" arbitrary: acc)
  case Nil
  then show ?case using assms(1) by (simp add: scan_pick_def)
next
  case (Cons i "is")
  let ?acc = "if valid i then (case acc of None \<Rightarrow> Some i | Some s \<Rightarrow> if \<not> le s i then Some i else acc) else acc"
  have r: "scan_pick valid le is ?acc = Some s" using Cons.prems by (simp add: scan_pick_def)
  note ih = Cons.IH [OF r]
  show ?case
  proof (cases acc)
    case None
    then show ?thesis using ih by (auto split: if_splits)
  next
    case (Some a)
    consider "\<not> valid i" | "valid i" "le a i" | "valid i" "\<not> le a i" "le i a" using assms(3) by blast
    then show ?thesis
    proof cases
      case 1
      then show ?thesis using ih Some by auto
    next
      case 2
      then show ?thesis using ih Some assms(2) [of s a i] by auto
    next
      case 3
      then show ?thesis using ih Some assms(2) [of s i a] by auto
    qed
  qed
qed

text \<open>
  The entries of a merge, and its cursor: all children stand at the first entry not below the
  current key, or all at the last entry not above it, according to the direction.
\<close>

definition merge_of :: "(slice \<Rightarrow> slice \<Rightarrow> int) \<Rightarrow> kv list \<Rightarrow> kv list list \<Rightarrow> bool" where
  "merge_of cmp kvs kvss \<longleftrightarrow> sorted_kvs cmp kvs \<and> (\<forall>xs \<in> set kvss. sorted_kvs cmp xs) \<and>
     set kvs = \<Union> (set ` set kvss) \<and>
     (\<forall>l < length kvss. \<forall>j < length kvss. l \<noteq> j \<longrightarrow>
        (\<forall>e \<in> set (kvss ! l). \<forall>e' \<in> set (kvss ! j). cmp (fst e) (fst e') \<noteq> 0))"

definition children_at :: "('c \<Rightarrow> kv list \<Rightarrow> nat \<Rightarrow> bool) \<Rightarrow> 'c list \<Rightarrow> kv list list \<Rightarrow> (kv list \<Rightarrow> nat) \<Rightarrow> bool" where
  "children_at cursor ch kvss pos \<longleftrightarrow>
     length ch = length kvss \<and> (\<forall>l < length kvss. cursor (ch ! l) (kvss ! l) (pos (kvss ! l)))"

definition merge_cursor ::
    "(slice \<Rightarrow> slice \<Rightarrow> int) \<Rightarrow> ('c \<Rightarrow> kv list \<Rightarrow> nat \<Rightarrow> bool) \<Rightarrow> 'c MergingIter \<Rightarrow> kv list \<Rightarrow> nat \<Rightarrow> bool" where
  "merge_cursor cmp cursor m kvs i \<longleftrightarrow>
     (\<exists>kvss. merge_of cmp kvs kvss \<and> length (mi_children m) = length kvss \<and>
        (\<forall>l < length kvss. \<exists>p. cursor (mi_children m ! l) (kvss ! l) p) \<and> i \<le> length kvs \<and>
        (if i < length kvs
         then (\<exists>j < length kvss. mi_current m = Some j \<and> kvs ! i \<in> set (kvss ! j)) \<and>
              children_at cursor (mi_children m) kvss
                (case mi_direction m of
                   kForward \<Rightarrow> cnt (\<lambda>k. cmp k (fst (kvs ! i)) < 0)
                 | kReverse \<Rightarrow> last_below (\<lambda>k. cmp k (fst (kvs ! i)) \<le> 0))
         else mi_current m = None))"

context iterator
begin

lemma FindSmallest_scan:
  "FindSmallest cmp I ch =
    scan_pick (\<lambda>i. it_Valid I (ch ! i)) (\<lambda>s i. cmp (it_key I (ch ! s)) (it_key I (ch ! i)) \<le> 0) [0..<length ch] None"
  unfolding FindSmallest_def scan_pick_def Let_def not_le cmp_neg ..

lemma FindLargest_scan:
  "FindLargest cmp I ch =
    scan_pick (\<lambda>i. it_Valid I (ch ! i)) (\<lambda>s i. cmp (it_key I (ch ! i)) (it_key I (ch ! s)) \<le> 0) (rev [0..<length ch]) None"
  unfolding FindLargest_def scan_pick_def Let_def not_le ..

lemma cmp_total: "cmp a b \<le> 0 \<or> cmp b a \<le> 0"
  using cmp_le [of a b] by linarith

lemma FindSmallest_None: "FindSmallest cmp I ch = None \<longleftrightarrow> (\<forall>i < length ch. \<not> it_Valid I (ch ! i))"
  unfolding FindSmallest_scan scan_pick_None by auto

lemma FindLargest_None: "FindLargest cmp I ch = None \<longleftrightarrow> (\<forall>i < length ch. \<not> it_Valid I (ch ! i))"
  unfolding FindLargest_scan scan_pick_None by auto

lemma FindSmallest_Some:
  assumes "FindSmallest cmp I ch = Some s"
  shows "s < length ch \<and> it_Valid I (ch ! s) \<and>
    (\<forall>i < length ch. it_Valid I (ch ! i) \<longrightarrow> cmp (it_key I (ch ! s)) (it_key I (ch ! i)) \<le> 0)"
  using scan_pick_Some [OF _ _ _ assms [unfolded FindSmallest_scan]] cmp_trans cmp_total by force

lemma FindLargest_Some:
  assumes "FindLargest cmp I ch = Some s"
  shows "s < length ch \<and> it_Valid I (ch ! s) \<and>
    (\<forall>i < length ch. it_Valid I (ch ! i) \<longrightarrow> cmp (it_key I (ch ! i)) (it_key I (ch ! s)) \<le> 0)"
  using scan_pick_Some [OF _ _ _ assms [unfolded FindLargest_scan]] cmp_trans cmp_total by force

lemma merge_member: "merge_of cmp kvs kvss \<Longrightarrow> j < length kvss \<Longrightarrow> e \<in> set (kvss ! j) \<Longrightarrow> e \<in> set kvs"
  by (auto simp: merge_of_def)

lemma merge_sorted: "merge_of cmp kvs kvss \<Longrightarrow> j < length kvss \<Longrightarrow> sorted_kvs cmp (kvss ! j)"
  by (auto simp: merge_of_def)

lemma merge_part: "merge_of cmp kvs kvss \<Longrightarrow> e \<in> set kvs \<Longrightarrow> \<exists>j < length kvss. e \<in> set (kvss ! j)"
  unfolding merge_of_def by (metis UN_E in_set_conv_nth)

text \<open>Moving forward from a cut.\<close>

lemma merge_forward_at:
  assumes m: "merge_of cmp kvs kvss" and P: "down_closed cmp P" and at: "children_at cursor ch kvss (cnt P)"
  shows "merge_cursor cmp cursor (merge_forward cmp I ch) kvs (cnt P kvs)"
proof (cases "FindSmallest cmp I ch")
  case None
  have "P (fst e)" if ek: "e \<in> set kvs" for e
  proof (rule ccontr)
    assume nP: "\<not> P (fst e)"
    obtain j where j: "j < length kvss" "e \<in> set (kvss ! j)" using merge_part [OF m ek] by blast
    then have "cnt P (kvss ! j) < length (kvss ! j)" using cnt_above [OF merge_sorted [OF m j(1)] P j(2) nP] by blast
    then have "it_Valid I (ch ! j)" using at j(1) cursor_Valid by (auto simp: children_at_def)
    then show False using None at j(1) by (auto simp: FindSmallest_None children_at_def)
  qed
  then have "cnt P kvs = length kvs" by (simp add: cnt_def takeWhile_eq_all_conv [THEN iffD2])
  then show ?thesis using None m at
    unfolding merge_cursor_def merge_forward_def by (auto simp: children_at_def)
next
  case (Some j)
  note s = FindSmallest_Some [OF Some]
  have j: "j < length kvss" "length ch = length kvss" "cursor (ch ! j) (kvss ! j) (cnt P (kvss ! j))"
    using s at by (auto simp: children_at_def)
  then have v: "cnt P (kvss ! j) < length (kvss ! j)" using s cursor_Valid by blast
  define e where "e = kvss ! j ! cnt P (kvss ! j)"
  have key: "it_key I (ch ! j) = fst e" unfolding e_def using cursor_key [OF j(3) v] .
  have e: "e \<in> set (kvss ! j)" "\<not> P (fst e)" using v cnt_nth [OF v] by (auto simp: e_def)
  have least: "cmp (fst e) (fst e') \<le> 0" if h: "e' \<in> set kvs" "\<not> P (fst e')" for e'
  proof -
    obtain l where l: "l < length kvss" "e' \<in> set (kvss ! l)" using merge_part [OF m h(1)] by blast
    have c: "cnt P (kvss ! l) < length (kvss ! l)" "cmp (fst (kvss ! l ! cnt P (kvss ! l))) (fst e') \<le> 0"
      using cnt_above [OF merge_sorted [OF m l(1)] P l(2) h(2)] by auto
    have cl: "cursor (ch ! l) (kvss ! l) (cnt P (kvss ! l))" using at l(1) by (simp add: children_at_def)
    have "cmp (fst e) (fst (kvss ! l ! cnt P (kvss ! l))) \<le> 0"
      using s l(1) j(2) cursor_Valid [OF cl] cursor_key [OF cl c(1)] c(1) key by auto
    then show ?thesis using c(2) cmp_trans by blast
  qed
  have sorted: "sorted_kvs cmp kvs" using m by (simp add: merge_of_def)
  have ek: "e \<in> set kvs" using merge_member [OF m j(1) e(1)] .
  have at_e: "kvs ! cnt P kvs = e" using cnt_least [OF sorted P ek e(2) least] .
  have lt: "cnt P kvs < length kvs" using cnt_above [OF sorted P ek e(2)] by blast
  have "P (fst e') = (cmp (fst e') (fst e) < 0)" if "e' \<in> set kvs" for e'
    using least [OF that] e(2) P cmp_le [of "fst e" "fst e'"] unfolding down_closed_def by (meson not_less)
  then have "cnt P (kvss ! l) = cnt (\<lambda>k. cmp k (fst e) < 0) (kvss ! l)" if "l < length kvss" for l
    using merge_member [OF m that] by (intro cnt_cong) blast
  then have "children_at cursor ch kvss (cnt (\<lambda>k. cmp k (fst e) < 0))" using at by (auto simp: children_at_def)
  then show ?thesis
    using m Some j e(1) lt at unfolding merge_cursor_def merge_forward_def
    by (intro exI [of _ kvss]) (auto simp: at_e children_at_def)
qed

text \<open>Moving backward from a cut.\<close>

lemma merge_backward_at:
  assumes m: "merge_of cmp kvs kvss" and P: "down_closed cmp P" and at: "children_at cursor ch kvss (last_below P)"
  shows "merge_cursor cmp cursor (merge_backward cmp I ch) kvs (last_below P kvs)"
proof (cases "FindLargest cmp I ch")
  case None
  have "\<not> P (fst e)" if ek: "e \<in> set kvs" for e
  proof
    assume nP: "P (fst e)"
    obtain j where j: "j < length kvss" "e \<in> set (kvss ! j)" using merge_part [OF m ek] by blast
    then have "0 < cnt P (kvss ! j)" using cnt_below [OF merge_sorted [OF m j(1)] P j(2) nP] by blast
    then have "last_below P (kvss ! j) < length (kvss ! j)" using cnt_le [of P "kvss ! j"] by (simp add: last_below_def)
    then have "it_Valid I (ch ! j)" using at j(1) cursor_Valid by (auto simp: children_at_def)
    then show False using None at j(1) by (auto simp: FindLargest_None children_at_def)
  qed
  then have "last_below P kvs = length kvs" by (cases kvs) (auto simp: last_below_def cnt_def)
  then show ?thesis using None m at
    unfolding merge_cursor_def merge_backward_def by (auto simp: children_at_def)
next
  case (Some j)
  note s = FindLargest_Some [OF Some]
  have j: "j < length kvss" "length ch = length kvss" "cursor (ch ! j) (kvss ! j) (last_below P (kvss ! j))"
    using s at by (auto simp: children_at_def)
  then have v: "last_below P (kvss ! j) < length (kvss ! j)" using s cursor_Valid by blast
  then have v': "0 < cnt P (kvss ! j)" by (auto simp: last_below_def split: if_splits)
  define e where "e = kvss ! j ! (cnt P (kvss ! j) - 1)"
  have key: "it_key I (ch ! j) = fst e" using cursor_key [OF j(3) v] v' by (simp add: e_def last_below_def)
  have e: "e \<in> set (kvss ! j)" "P (fst e)"
    using v v' cnt_nth_less [of "cnt P (kvss ! j) - 1" P "kvss ! j"] by (auto simp: e_def last_below_def)
  have greatest: "cmp (fst e') (fst e) \<le> 0" if h: "e' \<in> set kvs" "P (fst e')" for e'
  proof -
    obtain l where l: "l < length kvss" "e' \<in> set (kvss ! l)" using merge_part [OF m h(1)] by blast
    have c: "0 < cnt P (kvss ! l)" "cmp (fst e') (fst (kvss ! l ! (cnt P (kvss ! l) - 1))) \<le> 0"
      using cnt_below [OF merge_sorted [OF m l(1)] P l(2) h(2)] by auto
    then have lb: "last_below P (kvss ! l) = cnt P (kvss ! l) - 1" "last_below P (kvss ! l) < length (kvss ! l)"
      using cnt_le [of P "kvss ! l"] by (auto simp: last_below_def)
    have cl: "cursor (ch ! l) (kvss ! l) (last_below P (kvss ! l))" using at l(1) by (simp add: children_at_def)
    have "cmp (fst (kvss ! l ! (cnt P (kvss ! l) - 1))) (fst e) \<le> 0"
      using s l(1) j(2) cursor_Valid [OF cl] cursor_key [OF cl lb(2)] lb key by auto
    then show ?thesis using c(2) cmp_trans by blast
  qed
  have sorted: "sorted_kvs cmp kvs" using m by (simp add: merge_of_def)
  have ek: "e \<in> set kvs" using merge_member [OF m j(1) e(1)] .
  have at_e: "0 < cnt P kvs" "kvs ! (cnt P kvs - 1) = e" using cnt_greatest [OF sorted P ek e(2) greatest] by auto
  then have lt: "last_below P kvs < length kvs" "kvs ! last_below P kvs = e"
    using cnt_le [of P kvs] by (auto simp: last_below_def)
  have "P (fst e') = (cmp (fst e') (fst e) \<le> 0)" if "e' \<in> set kvs" for e'
    using greatest [OF that] e(2) P unfolding down_closed_def by blast
  then have "cnt P (kvss ! l) = cnt (\<lambda>k. cmp k (fst e) \<le> 0) (kvss ! l)" if "l < length kvss" for l
    using merge_member [OF m that] by (intro cnt_cong) blast
  then have "children_at cursor ch kvss (last_below (\<lambda>k. cmp k (fst e) \<le> 0))"
    using at by (auto simp: children_at_def last_below_def)
  then show ?thesis
    using m Some j e(1) lt at unfolding merge_cursor_def merge_backward_def
    by (intro exI [of _ kvss]) (auto simp: children_at_def)
qed

text \<open>Where the children stand around a key \<open>k\<close> of child \<open>j\<close>.\<close>

lemma own_position:
  assumes "merge_of cmp kvs kvss" "j < length kvss" "e \<in> set (kvss ! j)"
  shows "\<exists>p < length (kvss ! j). kvss ! j ! p = e \<and> cnt (\<lambda>k. cmp k (fst e) < 0) (kvss ! j) = p \<and>
    cnt (\<lambda>k. cmp k (fst e) \<le> 0) (kvss ! j) = Suc p"
  using assms(3) cnt_at [OF merge_sorted [OF assms(1,2)]] by (metis in_set_conv_nth)

lemma other_position:
  assumes "merge_of cmp kvs kvss" "j < length kvss" "e \<in> set (kvss ! j)" "l < length kvss" "l \<noteq> j"
  shows "cnt (\<lambda>k. cmp k (fst e) \<le> 0) (kvss ! l) = cnt (\<lambda>k. cmp k (fst e) < 0) (kvss ! l)"
proof (rule cnt_cong)
  fix e' assume "e' \<in> set (kvss ! l)"
  then have "cmp (fst e') (fst e) \<noteq> 0" using assms unfolding merge_of_def by blast
  then show "(cmp (fst e') (fst e) \<le> 0) = (cmp (fst e') (fst e) < 0)" by linarith
qed

lemma merge_current:
  assumes "merge_cursor cmp cursor m kvs i" "i < length kvs"
  obtains kvss j where "merge_of cmp kvs kvss" "length (mi_children m) = length kvss" "mi_current m = Some j"
    "j < length kvss" "kvs ! i \<in> set (kvss ! j)" "merge_key I m = fst (kvs ! i)" "merge_value I m = snd (kvs ! i)"
    "\<And>l. l < length kvss \<Longrightarrow> l \<noteq> j \<Longrightarrow> \<exists>q. cursor (mi_children m ! l) (kvss ! l) q"
    "cursor (mi_children m ! j) (kvss ! j) (cnt (\<lambda>k. cmp k (fst (kvs ! i)) < 0) (kvss ! j))"
    "\<And>l. l < length kvss \<Longrightarrow> l \<noteq> j \<Longrightarrow> mi_direction m = kForward \<Longrightarrow>
       cursor (mi_children m ! l) (kvss ! l) (cnt (\<lambda>k. cmp k (fst (kvs ! i)) < 0) (kvss ! l))"
    "\<And>l. l < length kvss \<Longrightarrow> l \<noteq> j \<Longrightarrow> mi_direction m = kReverse \<Longrightarrow>
       cursor (mi_children m ! l) (kvss ! l) (last_below (\<lambda>k. cmp k (fst (kvs ! i)) < 0) (kvss ! l))"
proof -
  obtain kvss j where m: "merge_of cmp kvs kvss" "length (mi_children m) = length kvss" "mi_current m = Some j"
    "j < length kvss" "kvs ! i \<in> set (kvss ! j)"
    "\<And>l. l < length kvss \<Longrightarrow> cursor (mi_children m ! l) (kvss ! l)
       (case mi_direction m of kForward \<Rightarrow> cnt (\<lambda>k. cmp k (fst (kvs ! i)) < 0) (kvss ! l)
        | kReverse \<Rightarrow> last_below (\<lambda>k. cmp k (fst (kvs ! i)) \<le> 0) (kvss ! l))"
    using assms unfolding merge_cursor_def children_at_def by (cases "mi_direction m") auto
  obtain p where p: "p < length (kvss ! j)" "kvss ! j ! p = kvs ! i"
    "cnt (\<lambda>k. cmp k (fst (kvs ! i)) < 0) (kvss ! j) = p" "cnt (\<lambda>k. cmp k (fst (kvs ! i)) \<le> 0) (kvss ! j) = Suc p"
    using own_position [OF m(1,4,5)] by blast
  have c: "cursor (mi_children m ! j) (kvss ! j) p"
    using m(6) [OF m(4)] p by (cases "mi_direction m") (simp_all add: last_below_def)
  show thesis
  proof (rule that [OF m(1-5)])
    show "merge_key I m = fst (kvs ! i)" "merge_value I m = snd (kvs ! i)"
      using cursor_key [OF c p(1)] cursor_value [OF c p(1)] m(3) p(2) by (simp_all add: merge_key_def merge_value_def)
    show "cursor (mi_children m ! j) (kvss ! j) (cnt (\<lambda>k. cmp k (fst (kvs ! i)) < 0) (kvss ! j))" using c p(3) by simp
  next
    fix l assume l: "l < length kvss" "l \<noteq> j"
    show "\<exists>q. cursor (mi_children m ! l) (kvss ! l) q" using m(6) [OF l(1)] by blast
    show "mi_direction m = kForward \<Longrightarrow>
        cursor (mi_children m ! l) (kvss ! l) (cnt (\<lambda>k. cmp k (fst (kvs ! i)) < 0) (kvss ! l))"
      using m(6) [OF l(1)] by simp
    show "mi_direction m = kReverse \<Longrightarrow>
        cursor (mi_children m ! l) (kvss ! l) (last_below (\<lambda>k. cmp k (fst (kvs ! i)) < 0) (kvss ! l))"
      using m(6) [OF l(1)] other_position [OF m(1,4,5) l] by (simp add: last_below_def split: if_splits)
  qed
qed

lemma merge_Next_at:
  assumes "merge_cursor cmp cursor m kvs i" "i < length kvs"
  shows "merge_cursor cmp cursor (merge_Next cmp I m) kvs (Suc i)"
proof -
  let ?k = "fst (kvs ! i)"
  obtain kvss j where m: "merge_of cmp kvs kvss" "length (mi_children m) = length kvss" "mi_current m = Some j"
    "j < length kvss" "kvs ! i \<in> set (kvss ! j)" "merge_key I m = ?k"
    "\<And>l. l < length kvss \<Longrightarrow> l \<noteq> j \<Longrightarrow> \<exists>q. cursor (mi_children m ! l) (kvss ! l) q"
    "cursor (mi_children m ! j) (kvss ! j) (cnt (\<lambda>k. cmp k ?k < 0) (kvss ! j))"
    "\<And>l. l < length kvss \<Longrightarrow> l \<noteq> j \<Longrightarrow> mi_direction m = kForward \<Longrightarrow>
       cursor (mi_children m ! l) (kvss ! l) (cnt (\<lambda>k. cmp k ?k < 0) (kvss ! l))"
    using merge_current [OF assms] by metis
  let ?after = "\<lambda>child. let child = it_Seek I ?k child
      in if it_Valid I child \<and> cmp ?k (it_key I child) = 0 then it_Next I child else child"
  define ch where "ch = (if mi_direction m \<noteq> kForward
      then map (\<lambda>i. if i \<noteq> j then ?after (mi_children m ! i) else mi_children m ! i) [0..<length (mi_children m)]
      else mi_children m)"
  have ch_j: "ch ! j = mi_children m ! j" "length ch = length kvss" using m(2,4) by (auto simp: ch_def)
  have others: "cursor (ch ! l) (kvss ! l) (cnt (\<lambda>k. cmp k ?k \<le> 0) (kvss ! l))" if l: "l < length kvss" "l \<noteq> j" for l
  proof (cases "mi_direction m = kForward")
    case True
    then show ?thesis using m(9) [OF l] other_position [OF m(1,4,5) l] by (simp add: ch_def)
  next
    case False
    obtain q where q: "cursor (mi_children m ! l) (kvss ! l) q" using m(7) [OF l] by blast
    have sk: "cursor (it_Seek I ?k (mi_children m ! l)) (kvss ! l) (cnt (\<lambda>k. cmp k ?k \<le> 0) (kvss ! l))"
      using cursor_Seek [OF q, of ?k] other_position [OF m(1,4,5) l] by (simp add: cnt_lower_bound)
    have "cmp ?k (it_key I (it_Seek I ?k (mi_children m ! l))) \<noteq> 0" if "it_Valid I (it_Seek I ?k (mi_children m ! l))"
    proof -
      have lt: "cnt (\<lambda>k. cmp k ?k \<le> 0) (kvss ! l) < length (kvss ! l)" using that cursor_Valid [OF sk] by simp
      show ?thesis
        using cursor_key [OF sk lt] cnt_nth [OF lt] cmp_zero_sym by force
    qed
    then show ?thesis using sk False l m(2) by (auto simp: ch_def Let_def)
  qed
  obtain p where p: "p < length (kvss ! j)" "cnt (\<lambda>k. cmp k ?k < 0) (kvss ! j) = p" "cnt (\<lambda>k. cmp k ?k \<le> 0) (kvss ! j) = Suc p"
    using own_position [OF m(1,4,5)] by blast
  have "cursor (it_Next I (ch ! j)) (kvss ! j) (cnt (\<lambda>k. cmp k ?k \<le> 0) (kvss ! j))"
    using cursor_Next [of "ch ! j" "kvss ! j" p] m(8) p ch_j by simp
  then have "children_at cursor (ch[j := it_Next I (ch ! j)]) kvss (cnt (\<lambda>k. cmp k ?k \<le> 0))"
    using others ch_j(2) m(4) by (auto simp: children_at_def nth_list_update)
  from merge_forward_at [OF m(1) down_simps(4) this]
  have "merge_cursor cmp cursor (merge_forward cmp I (ch[j := it_Next I (ch ! j)])) kvs (Suc i)"
    using cnt_at(2) [of kvs i] m(1) assms(2) by (simp add: merge_of_def)
  moreover have "merge_Next cmp I m = merge_forward cmp I (ch[j := it_Next I (ch ! j)])"
    by (simp only: merge_Next_def ch_def Let_def m(3,6) option.sel)
  ultimately show ?thesis by simp
qed

lemma merge_Prev_at:
  assumes "merge_cursor cmp cursor m kvs i" "i < length kvs"
  shows "merge_cursor cmp cursor (merge_Prev cmp I m) kvs (if i = 0 then length kvs else i - 1)"
proof -
  let ?k = "fst (kvs ! i)"
  obtain kvss j where m: "merge_of cmp kvs kvss" "length (mi_children m) = length kvss" "mi_current m = Some j"
    "j < length kvss" "kvs ! i \<in> set (kvss ! j)" "merge_key I m = ?k"
    "\<And>l. l < length kvss \<Longrightarrow> l \<noteq> j \<Longrightarrow> \<exists>q. cursor (mi_children m ! l) (kvss ! l) q"
    "cursor (mi_children m ! j) (kvss ! j) (cnt (\<lambda>k. cmp k ?k < 0) (kvss ! j))"
    "\<And>l. l < length kvss \<Longrightarrow> l \<noteq> j \<Longrightarrow> mi_direction m = kReverse \<Longrightarrow>
       cursor (mi_children m ! l) (kvss ! l) (last_below (\<lambda>k. cmp k ?k < 0) (kvss ! l))"
    using merge_current [OF assms] by metis
  let ?before = "\<lambda>child. let child = it_Seek I ?k child
      in if it_Valid I child then it_Prev I child else it_SeekToLast I child"
  define ch where "ch = (if mi_direction m \<noteq> kReverse
      then map (\<lambda>i. if i \<noteq> j then ?before (mi_children m ! i) else mi_children m ! i) [0..<length (mi_children m)]
      else mi_children m)"
  have ch_j: "ch ! j = mi_children m ! j" "length ch = length kvss" using m(2,4) by (auto simp: ch_def)
  have others: "cursor (ch ! l) (kvss ! l) (last_below (\<lambda>k. cmp k ?k < 0) (kvss ! l))" if l: "l < length kvss" "l \<noteq> j" for l
  proof (cases "mi_direction m = kReverse")
    case True
    then show ?thesis using m(9) [OF l] by (simp add: ch_def)
  next
    case False
    obtain q where q: "cursor (mi_children m ! l) (kvss ! l) q" using m(7) [OF l] by blast
    let ?c = "cnt (\<lambda>k. cmp k ?k < 0) (kvss ! l)" and ?s = "it_Seek I ?k (mi_children m ! l)"
    have sk: "cursor ?s (kvss ! l) ?c" using cursor_Seek [OF q, of ?k] by (simp add: cnt_lower_bound)
    have "cursor (if it_Valid I ?s then it_Prev I ?s else it_SeekToLast I ?s) (kvss ! l) (last_below (\<lambda>k. cmp k ?k < 0) (kvss ! l))"
    proof (cases "?c < length (kvss ! l)")
      case True
      then show ?thesis using cursor_Valid [OF sk] cursor_Prev [OF sk] by (simp add: last_below_def)
    next
      case nv: False
      then have "?c = length (kvss ! l)" using cnt_le [of "\<lambda>k. cmp k ?k < 0" "kvss ! l"] by simp
      then show ?thesis using cursor_Valid [OF sk] cursor_SeekToLast [OF sk] by (auto simp: last_below_def)
    qed
    then show ?thesis using False l m(2) by (simp add: ch_def Let_def)
  qed
  obtain p where p: "p < length (kvss ! j)" "cnt (\<lambda>k. cmp k ?k < 0) (kvss ! j) = p"
    using own_position [OF m(1,4,5)] by blast
  have "cursor (it_Prev I (ch ! j)) (kvss ! j) (last_below (\<lambda>k. cmp k ?k < 0) (kvss ! j))"
    using cursor_Prev [of "ch ! j" "kvss ! j" p] m(8) p ch_j by (simp add: last_below_def split: if_splits)
  then have "children_at cursor (ch[j := it_Prev I (ch ! j)]) kvss (last_below (\<lambda>k. cmp k ?k < 0))"
    using others ch_j(2) m(4) by (auto simp: children_at_def nth_list_update)
  from merge_backward_at [OF m(1) down_simps(3) this]
  have "merge_cursor cmp cursor (merge_backward cmp I (ch[j := it_Prev I (ch ! j)])) kvs (if i = 0 then length kvs else i - 1)"
    using cnt_at(1) [of kvs i] m(1) assms(2) by (simp add: merge_of_def last_below_def split: if_splits)
  moreover have "merge_Prev cmp I m = merge_backward cmp I (ch[j := it_Prev I (ch ! j)])"
    by (simp only: merge_Prev_def ch_def Let_def m(3,6) option.sel)
  ultimately show ?thesis by simp
qed

lemma merging_sel:
  "it_Valid (merging cmp I) = (\<lambda>m. mi_current m \<noteq> None)" "it_SeekToFirst (merging cmp I) = merge_SeekToFirst cmp I"
  "it_SeekToLast (merging cmp I) = merge_SeekToLast cmp I" "it_Seek (merging cmp I) = merge_Seek cmp I"
  "it_Next (merging cmp I) = merge_Next cmp I" "it_Prev (merging cmp I) = merge_Prev cmp I"
  "it_key (merging cmp I) = merge_key I" "it_value (merging cmp I) = merge_value I"
  "it_status (merging cmp I) = (\<lambda>m. first_error (map (it_status I) (mi_children m)))"
  by (simp_all add: merging_def)

lemma first_error_OK: "(\<forall>s \<in> set ss. s = OK) \<Longrightarrow> first_error ss = OK"
  by (induction ss rule: first_error.induct) auto

lemma merge_children:
  assumes "merge_cursor cmp cursor m kvs i"
  obtains kvss where "merge_of cmp kvs kvss" "length (mi_children m) = length kvss"
    "\<forall>l < length kvss. \<exists>p. cursor (mi_children m ! l) (kvss ! l) p"
  using assms unfolding merge_cursor_def by blast

lemma children_map:
  assumes "length ch = length kvss" "\<forall>l < length kvss. \<exists>p. cursor (ch ! l) (kvss ! l) p"
    and "\<And>s kvs p. cursor s kvs p \<Longrightarrow> cursor (f s) kvs (pos kvs)"
  shows "children_at cursor (map f ch) kvss pos"
  unfolding children_at_def using assms by (metis length_map nth_map)

text \<open>The merge of iterators is an iterator over the merged entries.\<close>

lemma merging_iterator: "iterator cmp (merging cmp I) (merge_cursor cmp cursor)"
proof (unfold_locales, unfold merging_sel, goal_cases)
  case (1 m kvs i)
  then show ?case by (auto simp: merge_cursor_def merge_of_def)
next
  case (2 m kvs i)
  then show ?case by (auto simp: merge_cursor_def)
next
  case (3 m kvs i)
  then show ?case by (auto simp: merge_cursor_def split: if_splits)
next
  case (4 m kvs i)
  then show ?case by (elim merge_current) auto
next
  case (5 m kvs i)
  then obtain kvss where k: "merge_of cmp kvs kvss" "length (mi_children m) = length kvss"
    "\<forall>l < length kvss. \<exists>p. cursor (mi_children m ! l) (kvss ! l) p" by (rule merge_children)
  have "children_at cursor (map (it_SeekToFirst I) (mi_children m)) kvss (cnt (\<lambda>k. False))"
    using k(2,3) by (rule children_map) (auto intro: cursor_SeekToFirst)
  from merge_forward_at [OF k(1) down_simps(1) this] show ?case by (simp add: merge_SeekToFirst_def)
next
  case (6 m kvs i)
  then obtain kvss where k: "merge_of cmp kvs kvss" "length (mi_children m) = length kvss"
    "\<forall>l < length kvss. \<exists>p. cursor (mi_children m ! l) (kvss ! l) p" by (rule merge_children)
  have "cursor (it_SeekToLast I s) xs (last_below (\<lambda>k. True) xs)" if "cursor s xs p" for s xs p
    using cursor_SeekToLast [OF that] by (auto simp: last_below_def)
  then have "children_at cursor (map (it_SeekToLast I) (mi_children m)) kvss (last_below (\<lambda>k. True))"
    using k(2,3) by (intro children_map) auto
  from merge_backward_at [OF k(1) down_simps(2) this] show ?case
    by (cases "kvs = []") (simp_all add: merge_SeekToLast_def last_below_def)
next
  case (7 m kvs i t)
  then obtain kvss where k: "merge_of cmp kvs kvss" "length (mi_children m) = length kvss"
    "\<forall>l < length kvss. \<exists>p. cursor (mi_children m ! l) (kvss ! l) p" by (rule merge_children)
  have "children_at cursor (map (it_Seek I t) (mi_children m)) kvss (cnt (\<lambda>k. cmp k t < 0))"
    using k(2,3) by (rule children_map) (auto simp: cnt_lower_bound intro: cursor_Seek)
  from merge_forward_at [OF k(1) down_simps(3) this] show ?case by (simp add: merge_Seek_def cnt_lower_bound)
next
  case (8 m kvs i)
  then show ?case by (rule merge_Next_at)
next
  case (9 m kvs i)
  then show ?case by (rule merge_Prev_at)
next
  case (10 m kvs i)
  then obtain kvss where k: "merge_of cmp kvs kvss" "length (mi_children m) = length kvss"
    "\<forall>l < length kvss. \<exists>p. cursor (mi_children m ! l) (kvss ! l) p" by (rule merge_children)
  then have "\<forall>s \<in> set (mi_children m). it_status I s = OK" using cursor_status by (metis in_set_conv_nth)
  then show ?case by (intro first_error_OK) auto
qed

text \<open>A fresh merge over wrapped children stands at the end.\<close>

lemma MergingIterator_new_cursor:
  assumes "merge_of cmp kvs kvss" "length ch = length kvss"
    and "\<forall>l < length kvss. \<exists>p. cursor (ch ! l) (kvss ! l) p"
  shows "merge_cursor cmp (wrapper_cursor I cursor) (MergingIterator_new I ch) kvs (length kvs)"
proof -
  have "wrapper_cursor I cursor (IteratorWrapper_Set I (Some s) w) xs p" if "cursor s xs p" for s w xs p
    using that by (simp add: wrapper_cursor_def)
  then show ?thesis
    unfolding merge_cursor_def MergingIterator_new_def
    using assms by (intro exI [of _ kvss]) fastforce
qed

lemma MergingIterator_iterator:
  "iterator cmp (MergingIterator cmp I) (merge_cursor cmp (wrapper_cursor I cursor))"
  unfolding MergingIterator_def by (rule iterator.merging_iterator [OF wrapper_iterator])

end

interpretation merged_blocks:
  iterator "Compare BytewiseComparator" "MergingIterator (Compare BytewiseComparator) BlockIter"
    "merge_cursor (Compare BytewiseComparator) (wrapper_cursor BlockIter (block_cursor BytewiseComparator))"
  by (rule iterator.MergingIterator_iterator [OF block_it.iterator_axioms])

section \<open>Properties\<close>

text \<open>
  C28: merging is merging.  For child iterators that are cursors over sorted sequences with pairwise
  different keys, the merging iterator is a cursor over the sorted union: from \<open>SeekToFirst\<close> or
  \<open>Seek\<close> the scan returns every entry of every child once, in order, and after any mixture of
  \<open>Next\<close> and \<open>Prev\<close>, that is through every change of direction, it stands at the neighbouring entry.
\<close>

theorem merging_iterator_merges:
  assumes "iterator cmp I cursor" "merge_of cmp kvs kvss" "length children = length kvss"
    and "\<forall>l < length kvss. \<exists>p. cursor (children ! l) (kvss ! l) p"
  shows "iterator cmp (MergingIterator cmp I) (merge_cursor cmp (wrapper_cursor I cursor)) \<and>
    merge_cursor cmp (wrapper_cursor I cursor) (MergingIterator_new I children) kvs (length kvs) \<and>
    it_collect (MergingIterator cmp I) (length kvs)
      (it_SeekToFirst (MergingIterator cmp I) (MergingIterator_new I children)) = kvs \<and>
    it_collect (MergingIterator cmp I) (length kvs)
      (it_Seek (MergingIterator cmp I) t (MergingIterator_new I children)) = dropWhile (\<lambda>e. cmp (fst e) t < 0) kvs"
proof -
  note M = iterator.MergingIterator_iterator [OF assms(1)]
  have c: "merge_cursor cmp (wrapper_cursor I cursor) (MergingIterator_new I children) kvs (length kvs)"
    using iterator.MergingIterator_new_cursor [OF assms] .
  show ?thesis
    using M c iterator.scan_all [OF M c] iterator.scan_from [OF M c] by blast
qed

theorem merging_iterator_merges_witness:
  "\<exists>it1 it2. Block_NewIterator BytewiseComparator (Block_new (fst (BlockBuilder_Finish
       (BlockBuilder_Add [3] [9] (BlockBuilder_Add [1] [7] (BlockBuilder_new 16)))))) = Inr it1 \<and>
     Block_NewIterator BytewiseComparator (Block_new (fst (BlockBuilder_Finish
       (BlockBuilder_Add [2] [8] (BlockBuilder_new 16))))) = Inr it2 \<and>
     it_collect (MergingIterator (Compare BytewiseComparator) BlockIter) 3
       (it_SeekToFirst (MergingIterator (Compare BytewiseComparator) BlockIter) (MergingIterator_new BlockIter [it1, it2]))
     = [([1], [7]), ([2], [8]), ([3], [9])]"
proof -
  let ?a = "[([1], [7]), ([3], [9])] :: kv list" and ?b = "[([2], [8])] :: kv list"
  let ?m = "[([1], [7]), ([2], [8]), ([3], [9])] :: kv list"
  let ?c = "Compare BytewiseComparator"
  have sorted: "sorted_kvs ?c ?a" "sorted_kvs ?c ?b" "sorted_kvs ?c ?m"
    by (simp_all add: sorted_kvs_def BytewiseComparator_def)
  have small: "length (fst (BlockBuilder_Finish (fold (\<lambda>(k, v). BlockBuilder_Add k v) ?a (BlockBuilder_new 16)))) < 2 ^ 32"
    "length (fst (BlockBuilder_Finish (fold (\<lambda>(k, v). BlockBuilder_Add k v) ?b (BlockBuilder_new 16)))) < 2 ^ 32"
    by (simp_all add: CurrentSizeEstimate_Finish CurrentSizeEstimate_def BlockBuilder_Add_def BlockBuilder_new_def
        PutVarint32_def EncodeVarint32_def common_prefix.simps)
  obtain it1 where 1: "Block_NewIterator BytewiseComparator (Block_new (fst (BlockBuilder_Finish
       (BlockBuilder_Add [3] [9] (BlockBuilder_Add [1] [7] (BlockBuilder_new 16)))))) = Inr it1"
    "block_cursor BytewiseComparator it1 ?a (length ?a)"
    using built_block [OF sorted(1) _ refl small(1)] by auto
  obtain it2 where 2: "Block_NewIterator BytewiseComparator (Block_new (fst (BlockBuilder_Finish
       (BlockBuilder_Add [2] [8] (BlockBuilder_new 16))))) = Inr it2"
    "block_cursor BytewiseComparator it2 ?b (length ?b)"
    using built_block [OF sorted(2) _ refl small(2)] by auto
  have "merge_of ?c ?m [?a, ?b]"
    using sorted by (auto simp: merge_of_def less_Suc_eq BytewiseComparator_def)
  moreover have "\<forall>l < length [?a, ?b]. \<exists>p. block_cursor BytewiseComparator ([it1, it2] ! l) ([?a, ?b] ! l) p"
    using 1(2) 2(2) by (auto simp: less_Suc_eq)
  ultimately have "it_collect (MergingIterator ?c BlockIter) (length ?m)
      (it_SeekToFirst (MergingIterator ?c BlockIter) (MergingIterator_new BlockIter [it1, it2])) = ?m"
    using merging_iterator_merges [OF block_it.iterator_axioms, of ?m "[?a, ?b]" "[it1, it2]"] by simp
  moreover have "length ?m = 3" by simp
  ultimately show ?thesis using 1(1) 2(1) by metis
qed

end
