(* ===== verification/Options.thy ===== *)
theory Options
  imports Bloom Comparator
begin

text \<open>
  \<open>include/leveldb/options.h\<close>: the settings the other components read, with their defaults.
  \<open>env\<close>, \<open>info_log\<close>, \<open>block_cache\<close> and \<open>snapshot\<close> are pointers to other objects and are passed to the
  operations that use them.
\<close>

datatype CompressionType = kNoCompression | kSnappyCompression | kZstdCompression

definition CompressionType_num :: "CompressionType \<Rightarrow> byte" where
  "CompressionType_num t =
     (case t of kNoCompression \<Rightarrow> 0 | kSnappyCompression \<Rightarrow> 1 | kZstdCompression \<Rightarrow> 2)"

record Options =
  opt_comparator :: Comparator
  create_if_missing :: bool
  error_if_exists :: bool
  paranoid_checks :: bool
  write_buffer_size :: nat
  max_open_files :: nat
  block_size :: nat
  block_restart_interval :: nat
  max_file_size :: nat
  compression :: CompressionType
  zstd_compression_level :: int
  reuse_logs :: bool
  opt_filter_policy :: "FilterPolicy option"

definition Options_new :: Options where
  "Options_new =
     \<lparr> opt_comparator = BytewiseComparator, create_if_missing = False, error_if_exists = False,
       paranoid_checks = False, write_buffer_size = 4 * 1024 * 1024, max_open_files = 1000,
       block_size = 4 * 1024, block_restart_interval = 16, max_file_size = 2 * 1024 * 1024,
       compression = kSnappyCompression, zstd_compression_level = 1, reuse_logs = False,
       opt_filter_policy = None \<rparr>"

record ReadOptions =
  verify_checksums :: bool
  fill_cache :: bool

definition ReadOptions_new :: ReadOptions where
  "ReadOptions_new = \<lparr> verify_checksums = False, fill_cache = True \<rparr>"

record WriteOptions =
  sync :: bool

definition WriteOptions_new :: WriteOptions where
  "WriteOptions_new = \<lparr> sync = False \<rparr>"

end
