(* ===== verification/Format.thy ===== *)
theory Format
  imports Options Crc32c Env Coding
begin

text \<open>
  \<open>table/format.h\<close> and \<open>table/format.cc\<close>: block handles, the table footer, and reading one block
  from a file with its checksum and compression.  The compression libraries are a parameter.
\<close>

section \<open>Definitions\<close>

record BlockHandle =
  bh_offset :: u64
  bh_size :: u64

definition kMaxEncodedLength :: nat where
  "kMaxEncodedLength = 10 + 10"

definition BlockHandle_new :: BlockHandle where
  "BlockHandle_new = \<lparr> bh_offset = NOT 0, bh_size = NOT 0 \<rparr>"

definition BlockHandle_EncodeTo :: "slice \<Rightarrow> BlockHandle \<Rightarrow> slice" where
  "BlockHandle_EncodeTo dst h = PutVarint64 (PutVarint64 dst (bh_offset h)) (bh_size h)"

text \<open>The status, the handle as far as it was set, and the rest of the input.\<close>

definition BlockHandle_DecodeFrom :: "slice \<Rightarrow> BlockHandle \<Rightarrow> Status \<times> BlockHandle \<times> slice" where
  "BlockHandle_DecodeFrom input h =
     (case GetVarint64 input of
        None \<Rightarrow> (Corruption (ascii ''bad block handle'') [], h, input)
      | Some (offset, input) \<Rightarrow>
          (let h = h\<lparr> bh_offset := offset \<rparr>
           in case GetVarint64 input of
                None \<Rightarrow> (Corruption (ascii ''bad block handle'') [], h, input)
              | Some (sz, input) \<Rightarrow> (OK, h\<lparr> bh_size := sz \<rparr>, input)))"

record Footer =
  metaindex_handle :: BlockHandle
  index_handle :: BlockHandle

definition kEncodedLength :: nat where
  "kEncodedLength = 2 * kMaxEncodedLength + 8"

definition kTableMagicNumber :: u64 where
  "kTableMagicNumber = 0xdb4775248b80fb57"

text \<open>\<open>std::string::resize\<close>: cut off or pad with zero bytes.\<close>

definition resize :: "nat \<Rightarrow> slice \<Rightarrow> slice" where
  "resize n s = take n s @ replicate (n - length s) 0"

definition Footer_EncodeTo :: "slice \<Rightarrow> Footer \<Rightarrow> slice" where
  "Footer_EncodeTo dst f =
     (let dst = BlockHandle_EncodeTo dst (metaindex_handle f);
          dst = BlockHandle_EncodeTo dst (index_handle f);
          dst = resize (2 * kMaxEncodedLength) dst;
          dst = PutFixed32 dst (ucast (kTableMagicNumber AND 0xffffffff))
      in PutFixed32 dst (ucast (drop_bit 32 kTableMagicNumber)))"

definition Footer_DecodeFrom :: "slice \<Rightarrow> Footer \<Rightarrow> Status \<times> Footer \<times> slice" where
  "Footer_DecodeFrom input f =
     (if length input < kEncodedLength
      then (Corruption (ascii ''not an sstable (footer too short)'') [], f, input)
      else
        (let magic_ptr = drop (kEncodedLength - 8) input;
             magic_lo = DecodeFixed32 magic_ptr;
             magic_hi = DecodeFixed32 (drop 4 magic_ptr);
             magic = push_bit 32 (ucast magic_hi) OR (ucast magic_lo :: u64)
         in if magic \<noteq> kTableMagicNumber
            then (Corruption (ascii ''not an sstable (bad magic number)'') [], f, input)
            else
              (case BlockHandle_DecodeFrom input (metaindex_handle f) of
                 (result, mh, input1) \<Rightarrow>
                   (let f = f\<lparr> metaindex_handle := mh \<rparr>
                    in if ok result then
                         (case BlockHandle_DecodeFrom input1 (index_handle f) of
                            (result, ih, input2) \<Rightarrow>
                              (result, f\<lparr> index_handle := ih \<rparr>,
                               if ok result then drop 8 magic_ptr else input2))
                       else (result, f, input1)))))"

definition kBlockTrailerSize :: nat where
  "kBlockTrailerSize = 5"

record BlockContents =
  bc_data :: slice
  bc_cachable :: bool
  bc_heap_allocated :: bool

text \<open>
  The compression libraries behind \<open>port/port_stdcxx.h\<close>.  Compressing may be unavailable or fail;
  the uncompressed length is read from the compressed data, and uncompressing fills a buffer of
  that length.
\<close>

record Codec =
  Snappy_Compress :: "slice \<Rightarrow> slice option"
  Snappy_GetUncompressedLength :: "slice \<Rightarrow> nat option"
  Snappy_Uncompress :: "slice \<Rightarrow> nat \<Rightarrow> slice option"
  Zstd_Compress :: "int \<Rightarrow> slice \<Rightarrow> slice option"
  Zstd_GetUncompressedLength :: "slice \<Rightarrow> nat option"
  Zstd_Uncompress :: "slice \<Rightarrow> nat \<Rightarrow> slice option"

text \<open>A build without the libraries.\<close>

definition port_no_codec :: Codec where
  "port_no_codec =
     \<lparr> Snappy_Compress = (\<lambda>input. None), Snappy_GetUncompressedLength = (\<lambda>input. None),
       Snappy_Uncompress = (\<lambda>input n. None), Zstd_Compress = (\<lambda>level input. None),
       Zstd_GetUncompressedLength = (\<lambda>input. None), Zstd_Uncompress = (\<lambda>input n. None) \<rparr>"

text \<open>
  \<open>ReadBlock\<close>.  \<open>in_buf\<close> tells whether the file fills the buffer it is given or returns a pointer
  of its own.  Offsets past the data read (a size near \<open>2^64\<close>) read as zero bytes.
\<close>

definition ReadBlock ::
    "Codec \<Rightarrow> 'r RandomAccessFile \<Rightarrow> 'r \<Rightarrow> bool \<Rightarrow> ReadOptions \<Rightarrow> BlockHandle \<Rightarrow> Status \<times> BlockContents" where
  "ReadBlock codec R file in_buf options handle =
     (let result = \<lparr> bc_data = [], bc_cachable = False, bc_heap_allocated = False \<rparr>;
          n = bh_size handle;
          (s, contents) = RA_Read R file (unat (bh_offset handle)) (unat (n + of_nat kBlockTrailerSize))
      in if \<not> ok s then (s, result)
         else if length contents \<noteq> unat (n + of_nat kBlockTrailerSize)
         then (Corruption (ascii ''truncated block read'') [], result)
         else
           (let data = contents @ replicate (unat n + kBlockTrailerSize - length contents) 0;
                crc = Unmask (DecodeFixed32 (drop (unat n + 1) data));
                actual = Value (take (unat n + 1) data)
            in if verify_checksums options \<and> actual \<noteq> crc
               then (Corruption (ascii ''block checksum mismatch'') [], result)
               else
                 (let t = data ! unat n; body = take (unat n) data
                  in if t = CompressionType_num kNoCompression then
                       (OK, \<lparr> bc_data = body, bc_cachable = in_buf, bc_heap_allocated = in_buf \<rparr>)
                     else if t = CompressionType_num kSnappyCompression then
                       (case Snappy_GetUncompressedLength codec body of
                          None \<Rightarrow> (Corruption (ascii ''corrupted snappy compressed block length'') [], result)
                        | Some ulength \<Rightarrow>
                            (case Snappy_Uncompress codec body ulength of
                               None \<Rightarrow> (Corruption (ascii ''corrupted snappy compressed block contents'') [], result)
                             | Some ubuf \<Rightarrow>
                                 (OK, \<lparr> bc_data = ubuf, bc_cachable = True, bc_heap_allocated = True \<rparr>)))
                     else if t = CompressionType_num kZstdCompression then
                       (case Zstd_GetUncompressedLength codec body of
                          None \<Rightarrow> (Corruption (ascii ''corrupted zstd compressed block length'') [], result)
                        | Some ulength \<Rightarrow>
                            (case Zstd_Uncompress codec body ulength of
                               None \<Rightarrow> (Corruption (ascii ''corrupted zstd compressed block contents'') [], result)
                             | Some ubuf \<Rightarrow>
                                 (OK, \<lparr> bc_data = ubuf, bc_cachable = True, bc_heap_allocated = True \<rparr>)))
                     else (Corruption (ascii ''bad block type'') [], result))))"

section \<open>The compression contract\<close>

text \<open>What was compressed is uncompressed again.\<close>

locale codec =
  fixes C :: Codec
  assumes snappy: "Snappy_Compress C d = Some z \<Longrightarrow>
      Snappy_GetUncompressedLength C z = Some (length d) \<and> Snappy_Uncompress C z (length d) = Some d"
    and zstd: "Zstd_Compress C level d = Some z \<Longrightarrow>
      Zstd_GetUncompressedLength C z = Some (length d) \<and> Zstd_Uncompress C z (length d) = Some d"

interpretation no_codec: codec port_no_codec
  by unfold_locales (simp_all add: port_no_codec_def)

section \<open>Handles and footers\<close>

lemma BlockHandle_decode:
  "BlockHandle_DecodeFrom (BlockHandle_EncodeTo [] h @ rest) h0 = (OK, h, rest)"
  by (simp add: BlockHandle_DecodeFrom_def BlockHandle_EncodeTo_def PutVarint64_def coding_simps)

lemma BlockHandle_EncodeTo_append: "BlockHandle_EncodeTo dst h = dst @ BlockHandle_EncodeTo [] h"
  by (simp add: BlockHandle_EncodeTo_def PutVarint64_def)

lemma VarintLength_le_10: "VarintLength v \<le> 10"
  using VarintLength_bound [of v 10] unsigned_less [of v, where ?'a = nat] by simp

lemma length_BlockHandle: "length (BlockHandle_EncodeTo [] h) \<le> kMaxEncodedLength"
  using VarintLength_le_10 [of "bh_offset h"] VarintLength_le_10 [of "bh_size h"]
  by (simp add: BlockHandle_EncodeTo_def PutVarint64_def length_EncodeVarint64 kMaxEncodedLength_def)

lemma length_resize [simp]: "length (resize n s) = n"
  by (simp add: resize_def)

lemma magic_words:
  "(push_bit 32 (ucast (ucast (drop_bit 32 kTableMagicNumber) :: u32)) OR
    ucast (ucast (kTableMagicNumber AND 0xffffffff) :: u32) :: u64) = kTableMagicNumber"
  by (simp add: kTableMagicNumber_def)

lemma Footer_bytes:
  "Footer_EncodeTo [] f =
     BlockHandle_EncodeTo [] (metaindex_handle f) @ BlockHandle_EncodeTo [] (index_handle f) @
     replicate (2 * kMaxEncodedLength -
       length (BlockHandle_EncodeTo [] (metaindex_handle f) @ BlockHandle_EncodeTo [] (index_handle f))) 0 @
     EncodeFixed32 (ucast (kTableMagicNumber AND 0xffffffff)) @ EncodeFixed32 (ucast (drop_bit 32 kTableMagicNumber))"
proof -
  let ?h = "BlockHandle_EncodeTo [] (metaindex_handle f) @ BlockHandle_EncodeTo [] (index_handle f)"
  have "length ?h \<le> 2 * kMaxEncodedLength"
    using length_BlockHandle [of "metaindex_handle f"] length_BlockHandle [of "index_handle f"] by simp
  then have "resize (2 * kMaxEncodedLength) ?h = ?h @ replicate (2 * kMaxEncodedLength - length ?h) 0"
    by (simp add: resize_def)
  then show ?thesis
    unfolding Footer_EncodeTo_def Let_def PutFixed32_def
    by (subst BlockHandle_EncodeTo_append [of "BlockHandle_EncodeTo [] (metaindex_handle f)"]) simp
qed

lemma length_Footer [simp]: "length (Footer_EncodeTo [] f) = kEncodedLength"
proof -
  have "length (Footer_EncodeTo dst f) = kEncodedLength" for dst
    by (simp add: Footer_EncodeTo_def Let_def PutFixed32_def kEncodedLength_def)
  then show ?thesis .
qed

lemma Footer_decode: "Footer_DecodeFrom (Footer_EncodeTo [] f @ rest) f0 = (OK, f, rest)"
proof -
  let ?m = "BlockHandle_EncodeTo [] (metaindex_handle f)" and ?i = "BlockHandle_EncodeTo [] (index_handle f)"
  let ?pad = "replicate (2 * kMaxEncodedLength - length (?m @ ?i)) (0 :: byte)"
  let ?magic = "EncodeFixed32 (ucast (kTableMagicNumber AND 0xffffffff)) @
    EncodeFixed32 (ucast (drop_bit 32 kTableMagicNumber))"
  have f: "Footer_EncodeTo [] f @ rest = ?m @ ?i @ ?pad @ ?magic @ rest" by (simp add: Footer_bytes)
  have "length (?m @ ?i @ ?pad) = kEncodedLength - 8"
    using length_BlockHandle [of "metaindex_handle f"] length_BlockHandle [of "index_handle f"]
    by (simp add: kEncodedLength_def)
  then have d: "drop (kEncodedLength - 8) (Footer_EncodeTo [] f @ rest) = ?magic @ rest"
    using drop_append_exact [of "?m @ ?i @ ?pad" "kEncodedLength - 8" "?magic @ rest"] unfolding f by simp
  have lo: "DecodeFixed32 (?magic @ rest) = ucast (kTableMagicNumber AND 0xffffffff)"
    and hi: "DecodeFixed32 (drop 4 (?magic @ rest)) = ucast (drop_bit 32 kTableMagicNumber)"
    and tail: "drop 8 (?magic @ rest) = rest"
    by (simp_all add: coding_simps)
  have m: "BlockHandle_DecodeFrom (Footer_EncodeTo [] f @ rest) h = (OK, metaindex_handle f, ?i @ ?pad @ ?magic @ rest)" for h
    unfolding f by (rule BlockHandle_decode)
  have i: "BlockHandle_DecodeFrom (?i @ ?pad @ ?magic @ rest) h = (OK, index_handle f, ?pad @ ?magic @ rest)" for h
    by (rule BlockHandle_decode)
  show ?thesis
    unfolding Footer_DecodeFrom_def Let_def d lo hi tail magic_words m
    by (simp del: append_assoc add: i [simplified])
qed

end
