(* ===== verification/FilterBlock.thy ===== *)
theory FilterBlock
  imports Bloom Coding
begin

text \<open>
  \<open>table/filter_block.cc\<close>: one filter per 2 KB of file offsets, built while the data blocks are
  written and consulted by block offset.
\<close>

section \<open>Definitions\<close>

definition kFilterBaseLg :: nat where
  "kFilterBaseLg = 11"

definition kFilterBase :: nat where
  "kFilterBase = 2 ^ kFilterBaseLg"

record FilterBlockBuilder =
  fb_policy :: FilterPolicy
  fb_keys :: slice
  fb_start :: "nat list"
  fb_result :: slice
  fb_filter_offsets :: "u32 list"

definition FilterBlockBuilder_new :: "FilterPolicy \<Rightarrow> FilterBlockBuilder" where
  "FilterBlockBuilder_new policy =
     \<lparr> fb_policy = policy, fb_keys = [], fb_start = [], fb_result = [], fb_filter_offsets = [] \<rparr>"

definition FilterBlockBuilder_AddKey :: "slice \<Rightarrow> FilterBlockBuilder \<Rightarrow> FilterBlockBuilder" where
  "FilterBlockBuilder_AddKey key b =
     b\<lparr> fb_start := fb_start b @ [length (fb_keys b)], fb_keys := fb_keys b @ key \<rparr>"

definition GenerateFilter :: "FilterBlockBuilder \<Rightarrow> FilterBlockBuilder" where
  "GenerateFilter b =
     (let num_keys = length (fb_start b)
      in if num_keys = 0
         then b\<lparr> fb_filter_offsets := fb_filter_offsets b @ [of_nat (length (fb_result b))] \<rparr>
         else
           (let start = fb_start b @ [length (fb_keys b)];
                tmp_keys = map (\<lambda>i. take (start ! (i + 1) - start ! i) (drop (start ! i) (fb_keys b))) [0..<num_keys]
            in b\<lparr> fb_filter_offsets := fb_filter_offsets b @ [of_nat (length (fb_result b))],
                  fb_result := CreateFilter (fb_policy b) tmp_keys (fb_result b),
                  fb_keys := [], fb_start := [] \<rparr>))"

function StartBlock_loop :: "nat \<Rightarrow> FilterBlockBuilder \<Rightarrow> FilterBlockBuilder" where
  "StartBlock_loop filter_index b =
     (if filter_index > length (fb_filter_offsets b) then StartBlock_loop filter_index (GenerateFilter b) else b)"
  by pat_completeness auto
termination
  by (relation "measure (\<lambda>(n, b). n - length (fb_filter_offsets b))") (auto simp: GenerateFilter_def Let_def)

definition StartBlock :: "u64 \<Rightarrow> FilterBlockBuilder \<Rightarrow> FilterBlockBuilder" where
  "StartBlock block_offset b = StartBlock_loop (unat block_offset div kFilterBase) b"

definition FilterBlockBuilder_Finish :: "FilterBlockBuilder \<Rightarrow> slice \<times> FilterBlockBuilder" where
  "FilterBlockBuilder_Finish b =
     (let b = (if fb_start b \<noteq> [] then GenerateFilter b else b);
          array_offset = length (fb_result b);
          result = fold (\<lambda>r buf. PutFixed32 buf r) (fb_filter_offsets b) (fb_result b);
          result = PutFixed32 result (of_nat array_offset);
          result = result @ [of_nat kFilterBaseLg]
      in (result, b\<lparr> fb_result := result \<rparr>))"

text \<open>
  The reader; \<open>data_\<close> and \<open>offset_\<close> are null on malformed contents, and then \<open>num_\<close> is 0.
\<close>

record FilterBlockReader =
  fr_policy :: FilterPolicy
  fr_data :: slice
  fr_offset :: nat
  fr_num :: nat
  fr_base_lg :: nat

definition FilterBlockReader_new :: "FilterPolicy \<Rightarrow> slice \<Rightarrow> FilterBlockReader" where
  "FilterBlockReader_new policy contents =
     (let r = \<lparr> fr_policy = policy, fr_data = [], fr_offset = 0, fr_num = 0, fr_base_lg = 0 \<rparr>;
          n = length contents
      in if n < 5 then r
         else
           (let r = r\<lparr> fr_base_lg := unat (contents ! (n - 1)) \<rparr>;
                last_word = unat (DecodeFixed32 (drop (n - 5) contents))
            in if last_word > n - 5 then r
               else r\<lparr> fr_data := contents, fr_offset := last_word, fr_num := (n - 5 - last_word) div 4 \<rparr>))"

definition FilterBlockReader_KeyMayMatch :: "FilterBlockReader \<Rightarrow> u64 \<Rightarrow> slice \<Rightarrow> bool" where
  "FilterBlockReader_KeyMayMatch r block_offset key =
     (let index = unat (drop_bit (fr_base_lg r) block_offset)
      in if index < fr_num r then
           (let start = unat (DecodeFixed32 (drop (fr_offset r + index * 4) (fr_data r)));
                limit = unat (DecodeFixed32 (drop (fr_offset r + index * 4 + 4) (fr_data r)))
            in if start \<le> limit \<and> limit \<le> fr_offset r
               then KeyMayMatch (fr_policy r) key (take (limit - start) (drop start (fr_data r)))
               else if start = limit then False
               else True)
         else True)"

declare StartBlock_loop.simps [simp del]

section \<open>What the builder holds\<close>

text \<open>
  \<open>fs\<close> are the key lists of the filters generated so far and \<open>pend\<close> the keys of the next one.
\<close>

definition filter_of :: "FilterPolicy \<Rightarrow> slice list \<Rightarrow> slice" where
  "filter_of p ks = (if ks = [] then [] else CreateFilter p ks [])"

definition fpos :: "FilterPolicy \<Rightarrow> slice list list \<Rightarrow> nat \<Rightarrow> nat" where
  "fpos p fs i = length (concat (map (filter_of p) (take i fs)))"

fun starts :: "nat \<Rightarrow> slice list \<Rightarrow> nat list" where
  "starts n [] = []"
| "starts n (k # ks) = n # starts (n + length k) ks"

definition fb_holds :: "FilterBlockBuilder \<Rightarrow> slice list list \<Rightarrow> slice list \<Rightarrow> bool" where
  "fb_holds b fs pend \<longleftrightarrow>
     fb_result b = concat (map (filter_of (fb_policy b)) fs) \<and>
     fb_filter_offsets b = map (\<lambda>i. of_nat (fpos (fb_policy b) fs i)) [0..<length fs] \<and>
     fb_keys b = concat pend \<and> fb_start b = starts 0 pend"

lemma length_starts [simp]: "length (starts n ks) = length ks"
  by (induction n ks rule: starts.induct) auto

lemma starts_snoc: "starts n (ks @ [k]) = starts n ks @ [n + length (concat ks)]"
  by (induction n ks rule: starts.induct) auto

lemma starts_Nil_iff [simp]: "starts n ks = [] \<longleftrightarrow> ks = []"
  by (cases ks) auto

lemma nth_starts: "i \<le> length ks \<Longrightarrow> (starts n ks @ [n + length (concat ks)]) ! i = n + length (concat (take i ks))"
proof (induction n ks arbitrary: i rule: starts.induct)
  case (2 n k ks)
  then show ?case by (cases i) (simp_all add: add.assoc)
qed simp

lemma concat_drop_take: "i < length ks \<Longrightarrow> take (length (ks ! i)) (drop (length (concat (take i ks))) (concat ks)) = ks ! i"
proof -
  assume "i < length ks"
  then have "concat ks = concat (take i ks) @ ks ! i @ concat (drop (Suc i) ks)"
    by (metis concat.simps(2) concat_append id_take_nth_drop)
  then show ?thesis by simp
qed

lemma unflatten:
  "map (\<lambda>i. take ((starts 0 ks @ [length (concat ks)]) ! (i + 1) - (starts 0 ks @ [length (concat ks)]) ! i)
       (drop ((starts 0 ks @ [length (concat ks)]) ! i) (concat ks))) [0..<length ks] = ks"
proof (rule nth_equalityI)
  fix i assume "i < length (map (\<lambda>i. take ((starts 0 ks @ [length (concat ks)]) ! (i + 1) - (starts 0 ks @ [length (concat ks)]) ! i)
       (drop ((starts 0 ks @ [length (concat ks)]) ! i) (concat ks))) [0..<length ks])"
  then have i: "i < length ks" by simp
  have "(starts 0 ks @ [length (concat ks)]) ! i = length (concat (take i ks))"
    "(starts 0 ks @ [length (concat ks)]) ! (i + 1) = length (concat (take i ks)) + length (ks ! i)"
    using nth_starts [of i ks 0] nth_starts [of "i + 1" ks 0] i by (simp_all add: take_Suc_conv_app_nth)
  then show "map (\<lambda>i. take ((starts 0 ks @ [length (concat ks)]) ! (i + 1) - (starts 0 ks @ [length (concat ks)]) ! i)
       (drop ((starts 0 ks @ [length (concat ks)]) ! i) (concat ks))) [0..<length ks] ! i = ks ! i"
    using i concat_drop_take [OF i] by simp
qed simp

lemma new_holds: "fb_holds (FilterBlockBuilder_new p) [] []"
  by (simp add: fb_holds_def FilterBlockBuilder_new_def)

lemma AddKey_holds: "fb_holds b fs pend \<Longrightarrow> fb_holds (FilterBlockBuilder_AddKey k b) fs (pend @ [k])"
  by (simp add: fb_holds_def FilterBlockBuilder_AddKey_def starts_snoc)

lemma AddKeys_holds: "fb_holds b fs pend \<Longrightarrow> fb_holds (fold FilterBlockBuilder_AddKey ks b) fs (pend @ ks)"
proof (induction ks arbitrary: b pend)
  case (Cons k ks)
  from Cons.IH [OF AddKey_holds [OF Cons.prems]] show ?case by simp
qed simp

lemma AddKeys_policy [simp]: "fb_policy (fold FilterBlockBuilder_AddKey ks b) = fb_policy b"
  by (induction ks arbitrary: b) (simp_all add: FilterBlockBuilder_AddKey_def)

lemma GenerateFilter_policy [simp]: "fb_policy (GenerateFilter b) = fb_policy b"
  by (simp add: GenerateFilter_def Let_def)

lemma fpos_length: "fpos p fs (length fs) = length (concat (map (filter_of p) fs))"
  by (simp add: fpos_def)

lemma fpos_append: "i \<le> length fs \<Longrightarrow> fpos p (fs @ gs) i = fpos p fs i"
  by (simp add: fpos_def)

lemma fpos_map_snoc:
  "map (\<lambda>i. of_nat (fpos p (fs @ [g]) i) :: u32) [0..<length (fs @ [g])] =
   map (\<lambda>i. of_nat (fpos p fs i)) [0..<length fs] @ [of_nat (length (concat (map (filter_of p) fs)))]"
  by (simp add: fpos_append fpos_length)

lemma GenerateFilter_holds:
  assumes "filter_policy (fb_policy b)" "fb_holds b fs pend"
  shows "fb_holds (GenerateFilter b) (fs @ [pend]) []"
proof -
  have h: "fb_result b = concat (map (filter_of (fb_policy b)) fs)" "fb_keys b = concat pend" "fb_start b = starts 0 pend"
    "fb_filter_offsets b = map (\<lambda>i. of_nat (fpos (fb_policy b) fs i)) [0..<length fs]"
    using assms(2) by (auto simp: fb_holds_def)
  show ?thesis
  proof (cases "pend = []")
    case True
    then show ?thesis
      unfolding fb_holds_def GenerateFilter_policy fpos_map_snoc
      by (simp add: GenerateFilter_def h filter_of_def)
  next
    case False
    have "CreateFilter (fb_policy b) pend (fb_result b) = fb_result b @ filter_of (fb_policy b) pend"
      using filter_policy.create_appends [OF assms(1), of pend "fb_result b"] False by (simp add: filter_of_def)
    then show ?thesis
      using False unflatten [of pend]
      unfolding fb_holds_def GenerateFilter_policy fpos_map_snoc
      by (simp add: GenerateFilter_def Let_def h)
  qed
qed

lemma StartBlock_loop_holds:
  assumes "filter_policy (fb_policy b)" "fb_holds b fs pend" "length fs \<le> n"
  shows "\<exists>fs' pend'. fb_holds (StartBlock_loop n b) fs' pend' \<and> length fs' = n \<and> fb_policy (StartBlock_loop n b) = fb_policy b \<and>
    fs' @ [pend'] = (if length fs = n then fs @ [pend] else fs @ [pend] @ replicate (n - length fs) [])"
  using assms
proof (induction n b arbitrary: fs pend rule: StartBlock_loop.induct)
  case (1 n b)
  have len: "length (fb_filter_offsets b) = length fs" using "1.prems"(2) by (simp add: fb_holds_def)
  show ?case
  proof (cases "length fs < n")
    case True
    then have gt: "n > length (fb_filter_offsets b)" using len by simp
    have p: "filter_policy (fb_policy (GenerateFilter b))" using "1.prems"(1) by simp
    obtain fs' pend' where r: "fb_holds (StartBlock_loop n (GenerateFilter b)) fs' pend'" "length fs' = n"
      "fb_policy (StartBlock_loop n (GenerateFilter b)) = fb_policy b"
      "fs' @ [pend'] = (if length (fs @ [pend]) = n then (fs @ [pend]) @ [[]]
                        else (fs @ [pend]) @ [[]] @ replicate (n - length (fs @ [pend])) [])"
      using "1.IH" [OF gt p GenerateFilter_holds [OF "1.prems"(1,2)]] True by auto
    have "n - length fs = Suc (n - length (fs @ [pend]))" using True by simp
    then have "fs' @ [pend'] = fs @ [pend] @ replicate (n - length fs) []"
      using r(4) by (auto split: if_splits)
    then show ?thesis using r True gt by (subst (1 2) StartBlock_loop.simps) auto
  next
    case False
    then show ?thesis using "1.prems" len by (subst (1 2) StartBlock_loop.simps) auto
  qed
qed

section \<open>Building a whole filter block\<close>

text \<open>A table announces each data block by its offset and adds the keys of the block.\<close>

definition filter_blocks :: "(u64 \<times> slice list) list \<Rightarrow> FilterBlockBuilder \<Rightarrow> FilterBlockBuilder" where
  "filter_blocks blocks b = fold (\<lambda>(o', ks) b. fold FilterBlockBuilder_AddKey ks (StartBlock o' b)) blocks b"

definition covers :: "slice list list \<Rightarrow> u64 \<times> slice list \<Rightarrow> bool" where
  "covers fs blk \<longleftrightarrow> (\<forall>k \<in> set (snd blk). unat (fst blk) div kFilterBase < length fs \<and>
     k \<in> set (fs ! (unat (fst blk) div kFilterBase)))"

lemma covers_append: "covers fs blk \<Longrightarrow> covers (fs @ gs) blk"
  by (auto simp: covers_def nth_append)

lemma covers_grow: "covers (fs @ [pend]) blk \<Longrightarrow> covers (fs @ [pend @ ks]) blk"
  by (fastforce simp: covers_def nth_append less_Suc_eq)

lemma filter_blocks_holds:
  assumes "filter_policy (fb_policy b)" "fb_holds b fs pend"
    and "sorted (map (\<lambda>blk. unat (fst blk)) blocks)" "\<forall>blk \<in> set blocks. length fs \<le> unat (fst blk) div kFilterBase"
  shows "\<exists>fs' pend'. fb_holds (filter_blocks blocks b) fs' pend' \<and> fb_policy (filter_blocks blocks b) = fb_policy b \<and>
    (\<forall>blk \<in> set blocks. covers (fs' @ [pend']) blk) \<and> (\<forall>blk. covers (fs @ [pend]) blk \<longrightarrow> covers (fs' @ [pend']) blk)"
  using assms
proof (induction blocks arbitrary: b fs pend)
  case Nil
  then show ?case by (auto simp: filter_blocks_def)
next
  case (Cons blk blocks)
  obtain o' ks where blk: "blk = (o', ks)" by fastforce
  let ?n = "unat o' div kFilterBase"
  obtain fs1 pend1 where 1: "fb_holds (StartBlock o' b) fs1 pend1" "length fs1 = ?n" "fb_policy (StartBlock o' b) = fb_policy b"
    "fs1 @ [pend1] = (if length fs = ?n then fs @ [pend] else fs @ [pend] @ replicate (?n - length fs) [])"
    using StartBlock_loop_holds [OF Cons.prems(1,2), of ?n] Cons.prems(4) blk by (auto simp: StartBlock_def)
  let ?b = "fold FilterBlockBuilder_AddKey ks (StartBlock o' b)"
  have later: "\<forall>blk \<in> set blocks. length fs1 \<le> unat (fst blk) div kFilterBase"
    using Cons.prems(3) 1(2) blk by (auto intro: div_le_mono)
  obtain fs' pend' where r: "fb_holds (filter_blocks blocks ?b) fs' pend'" "fb_policy (filter_blocks blocks ?b) = fb_policy b"
    "\<forall>blk \<in> set blocks. covers (fs' @ [pend']) blk" "\<forall>blk. covers (fs1 @ [pend1 @ ks]) blk \<longrightarrow> covers (fs' @ [pend']) blk"
    using Cons.IH [OF _ AddKeys_holds [OF 1(1)], of ks] Cons.prems(1,3) 1(3) later by auto
  have "covers (fs1 @ [pend1 @ ks]) blk" using blk 1(2) by (auto simp: covers_def nth_append)
  moreover have "covers (fs1 @ [pend1 @ ks]) blk'" if "covers (fs @ [pend]) blk'" for blk'
    using covers_append [OF that] 1(4) by (intro covers_grow) (simp split: if_splits)
  ultimately show ?case
    using r by (intro exI [of _ fs'] exI [of _ pend']) (auto simp: filter_blocks_def blk)
qed

lemma Finish_filters:
  assumes "filter_policy (fb_policy b)" "fb_holds b fs pend" "fs' = (if pend = [] then fs else fs @ [pend])"
  shows "fst (FilterBlockBuilder_Finish b) = concat (map (filter_of (fb_policy b)) fs') @
    concat (map (\<lambda>i. EncodeFixed32 (of_nat (fpos (fb_policy b) fs' i))) [0..<Suc (length fs')]) @ [of_nat kFilterBaseLg]"
proof -
  let ?b = "if fb_start b \<noteq> [] then GenerateFilter b else b"
  have "fb_holds ?b fs' []"
    using GenerateFilter_holds [OF assms(1,2)] assms(2,3) by (auto simp: fb_holds_def)
  moreover have "fb_policy ?b = fb_policy b" by simp
  ultimately have "fb_result ?b = concat (map (filter_of (fb_policy b)) fs')"
    "fb_filter_offsets ?b = map (\<lambda>i. of_nat (fpos (fb_policy b) fs' i)) [0..<length fs']"
    by (simp_all add: fb_holds_def)
  then show ?thesis
    unfolding FilterBlockBuilder_Finish_def Let_def fold_PutFixed32
    by (simp add: PutFixed32_def o_def fpos_length)
qed

lemma fpos_mono: "i \<le> j \<Longrightarrow> fpos p fs i \<le> fpos p fs j"
proof -
  assume "i \<le> j"
  then have "take j fs = take i fs @ take (j - i) (drop i fs)"
    by (metis le_add_diff_inverse take_add)
  then show ?thesis by (simp add: fpos_def)
qed

lemma fpos_slice:
  assumes "i < length fs"
  shows "take (fpos p fs (Suc i) - fpos p fs i) (drop (fpos p fs i) (concat (map (filter_of p) fs) @ z)) = filter_of p (fs ! i)"
proof -
  have "concat (map (filter_of p) fs) = concat (map (filter_of p) (take i fs)) @ filter_of p (fs ! i) @
      concat (map (filter_of p) (drop (Suc i) fs))"
    using assms by (metis concat.simps(2) concat_append id_take_nth_drop list.simps(9) map_append)
  then show ?thesis using assms by (simp add: fpos_def take_Suc_conv_app_nth)
qed

lemma reader_filter:
  assumes "contents = concat (map (filter_of p) fs) @
      concat (map (\<lambda>i. EncodeFixed32 (of_nat (fpos p fs i))) [0..<Suc (length fs)]) @ [of_nat kFilterBaseLg]"
    and "length contents < 2 ^ 32" "unat block_offset div kFilterBase < length fs"
  shows "FilterBlockReader_KeyMayMatch (FilterBlockReader_new p contents) block_offset key =
    KeyMayMatch p key (filter_of p (fs ! (unat block_offset div kFilterBase)))"
proof -
  let ?i = "unat block_offset div kFilterBase" and ?d = "concat (map (filter_of p) fs)"
  let ?a = "concat (map (\<lambda>i. EncodeFixed32 (of_nat (fpos p fs i))) [0..<length fs])"
  let ?o = "concat (map (\<lambda>i. EncodeFixed32 (of_nat (fpos p fs i))) [0..<Suc (length fs)])"
  have c: "contents = (?d @ ?a) @ EncodeFixed32 (of_nat (length ?d)) @ [of_nat kFilterBaseLg]"
    unfolding assms(1) by (simp add: fpos_length)
  have n: "length contents = length ?d + length fs * 4 + 5"
    unfolding c by (simp add: length_concat_Fixed32)
  have "drop (length contents - 5) contents = EncodeFixed32 (of_nat (length ?d)) @ [of_nat kFilterBaseLg]"
    unfolding n by (subst c) (rule drop_append_exact, simp add: length_concat_Fixed32)
  then have last: "unat (DecodeFixed32 (drop (length contents - 5) contents)) = length ?d"
    using assms(2) n by (simp add: coding_simps)
  have lg: "contents ! (length contents - 1) = of_nat kFilterBaseLg"
    using c by (metis append_is_Nil_conv last_appendR last_conv_nth last_snoc not_Cons_self2)
  have r: "FilterBlockReader_new p contents =
      \<lparr> fr_policy = p, fr_data = contents, fr_offset = length ?d, fr_num = length fs, fr_base_lg = kFilterBaseLg \<rparr>"
    unfolding FilterBlockReader_new_def Let_def last lg using n by (simp add: kFilterBaseLg_def)
  have idx: "unat (drop_bit kFilterBaseLg block_offset) = ?i"
    by (simp add: unat_drop_bit kFilterBase_def)
  have at: "unat (DecodeFixed32 (drop (length ?d + j * 4) contents)) = fpos p fs j" if "j \<le> length fs" for j
  proof -
    have lt: "j < length [0..<Suc (length fs)]" using that by simp
    obtain t where t: "drop (j * 4) (?o @ [of_nat kFilterBaseLg]) = EncodeFixed32 (of_nat (fpos p fs ([0..<Suc (length fs)] ! j))) @ t"
      using concat_Fixed32_nth [OF lt, of "\<lambda>i. of_nat (fpos p fs i)" "[of_nat kFilterBaseLg]"] by blast
    have "drop (length ?d + j * 4) contents = drop (j * 4) (?o @ [of_nat kFilterBaseLg])"
      unfolding assms(1) by (simp add: drop_drop [symmetric] add.commute del: drop_drop upt_Suc)
    also have "\<dots> = EncodeFixed32 (of_nat (fpos p fs j)) @ t"
      unfolding t using nth_upt [of 0 j "Suc (length fs)"] that by (simp del: upt_Suc)
    finally have "DecodeFixed32 (drop (length ?d + j * 4) contents) = of_nat (fpos p fs j)"
      by (simp add: coding_simps)
    moreover have "fpos p fs j < 2 ^ 32"
      using fpos_mono [OF that, of p fs] n assms(2) by (simp add: fpos_length)
    ultimately show ?thesis by simp
  qed
  have lim: "fpos p fs (Suc ?i) \<le> length ?d" using fpos_mono [of "Suc ?i" "length fs" p fs] assms(3) by (simp add: fpos_length)
  have at1: "unat (DecodeFixed32 (drop (length ?d + ?i * 4 + 4) contents)) = fpos p fs (Suc ?i)"
    using at [of "Suc ?i"] assms(3) by (simp add: add.assoc add.commute [of 4])
  have "take (fpos p fs (Suc ?i) - fpos p fs ?i) (drop (fpos p fs ?i) contents) = filter_of p (fs ! ?i)"
    unfolding assms(1) using assms(3) by (rule fpos_slice)
  then show ?thesis
    using assms(3) at [of ?i] at1 lim fpos_mono [of ?i "Suc ?i" p fs]
    by (simp add: FilterBlockReader_KeyMayMatch_def r idx)
qed

lemma Finish_may_match:
  assumes "filter_policy (fb_policy b)" "fb_holds b fs pend" "covers (fs @ [pend]) (block_offset, keys)" "key \<in> set keys"
    and "length (fst (FilterBlockBuilder_Finish b)) < 2 ^ 32"
  shows "FilterBlockReader_KeyMayMatch (FilterBlockReader_new (fb_policy b) (fst (FilterBlockBuilder_Finish b))) block_offset key"
proof -
  define fs' where "fs' = (if pend = [] then fs else fs @ [pend])"
  note c = Finish_filters [OF assms(1,2) fs'_def]
  have i: "unat block_offset div kFilterBase < length fs'" "key \<in> set (fs' ! (unat block_offset div kFilterBase))"
    using assms(3,4) by (auto simp: covers_def fs'_def nth_append less_Suc_eq split: if_splits)
  then have "KeyMayMatch (fb_policy b) key (filter_of (fb_policy b) (fs' ! (unat block_offset div kFilterBase)))"
    using filter_policy.may_match [OF assms(1) i(2)] by (auto simp: filter_of_def)
  then show ?thesis using reader_filter [OF c assms(5) i(1)] by simp
qed

section \<open>Properties\<close>

text \<open>
  C27: filter blocks have no false negatives.  For any filter policy that keeps its contract and any
  sequence of data blocks at non-decreasing offsets, a reader over the finished filter block
  reports a possible match for every key of a block when asked with that block's offset.
\<close>

theorem filter_block_no_false_negatives:
  assumes "filter_policy p" "sorted (map (\<lambda>blk. unat (fst blk)) blocks)"
    and "contents = fst (FilterBlockBuilder_Finish (filter_blocks blocks (FilterBlockBuilder_new p)))"
    and "length contents < 2 ^ 32" "(block_offset, keys) \<in> set blocks" "key \<in> set keys"
  shows "FilterBlockReader_KeyMayMatch (FilterBlockReader_new p contents) block_offset key"
proof -
  let ?b = "filter_blocks blocks (FilterBlockBuilder_new p)"
  have p: "fb_policy (FilterBlockBuilder_new p) = p" by (simp add: FilterBlockBuilder_new_def)
  obtain fs pend where h: "fb_holds ?b fs pend" "fb_policy ?b = p" "\<forall>blk \<in> set blocks. covers (fs @ [pend]) blk"
    using filter_blocks_holds [of "FilterBlockBuilder_new p" "[]" "[]" blocks] assms(1,2) new_holds p by auto
  have "covers (fs @ [pend]) (block_offset, keys)" using h(3) assms(5) by blast
  from Finish_may_match [of ?b, unfolded h(2), OF assms(1) h(1) this assms(6)] assms(3,4) show ?thesis by simp
qed

theorem filter_block_no_false_negatives_witness:
  "FilterBlockReader_KeyMayMatch
     (FilterBlockReader_new (NewBloomFilterPolicy 10)
       (fst (FilterBlockBuilder_Finish (filter_blocks [(0, [[1]])] (FilterBlockBuilder_new (NewBloomFilterPolicy 10))))))
     0 [1]"
proof -
  let ?p = "NewBloomFilterPolicy 10"
  let ?c = "fst (FilterBlockBuilder_Finish (filter_blocks [(0, [[1]])] (FilterBlockBuilder_new ?p)))"
  have "length ?c < 2 ^ 32"
    by (simp add: filter_blocks_def StartBlock_def StartBlock_loop.simps FilterBlockBuilder_new_def
        FilterBlockBuilder_AddKey_def FilterBlockBuilder_Finish_def GenerateFilter_def PutFixed32_def
        NewBloomFilterPolicy_def Bloom_CreateFilter_def Let_def)
  from filter_block_no_false_negatives [OF bloom.filter_policy_axioms _ refl this, of 0 "[[1]]" "[1]"]
  show ?thesis by simp
qed

end
