(* ===== verification/TableBuilder.thy ===== *)
theory TableBuilder
  imports Block Format FilterBlock MemEnv
begin

text \<open>
  \<open>table/table_builder.cc\<close>: writing a sorted table file.  The file and the compression libraries are
  parameters.
\<close>

section \<open>Definitions\<close>

record 'w TableBuilder =
  tb_options :: Options
  tb_file :: 'w
  tb_offset :: u64
  tb_status :: Status
  tb_data_block :: BlockBuilder
  tb_index_block :: BlockBuilder
  tb_last_key :: slice
  tb_num_entries :: nat
  tb_closed :: bool
  tb_filter_block :: "FilterBlockBuilder option"
  tb_pending_index_entry :: bool
  tb_pending_handle :: BlockHandle

definition TableBuilder_new :: "Options \<Rightarrow> 'w \<Rightarrow> 'w TableBuilder" where
  "TableBuilder_new options file =
     \<lparr> tb_options = options, tb_file = file, tb_offset = 0, tb_status = OK,
       tb_data_block = BlockBuilder_new (block_restart_interval options),
       tb_index_block = BlockBuilder_new 1, tb_last_key = [], tb_num_entries = 0, tb_closed = False,
       tb_filter_block =
         map_option (\<lambda>policy. StartBlock 0 (FilterBlockBuilder_new policy)) (opt_filter_policy options),
       tb_pending_index_entry = False, tb_pending_handle = BlockHandle_new \<rparr>"

text \<open>
  \<open>ChangeOptions\<close> compares the comparator pointers; the block builder reads the restart interval
  through its pointer to the options.
\<close>

definition ChangeOptions :: "bool \<Rightarrow> Options \<Rightarrow> 'w TableBuilder \<Rightarrow> Status \<times> 'w TableBuilder" where
  "ChangeOptions same_comparator options b =
     (if \<not> same_comparator
      then (InvalidArgument (ascii ''changing comparator while building table'') [], b)
      else (OK, b\<lparr> tb_options := options,
                   tb_data_block := (tb_data_block b)\<lparr> bb_block_restart_interval := block_restart_interval options \<rparr>,
                   tb_index_block := (tb_index_block b)\<lparr> bb_block_restart_interval := 1 \<rparr> \<rparr>))"

definition WriteRawBlock ::
    "'w WritableFile \<Rightarrow> slice \<Rightarrow> CompressionType \<Rightarrow> 'w TableBuilder \<Rightarrow> BlockHandle \<times> 'w TableBuilder" where
  "WriteRawBlock W block_contents type b =
     (let handle = \<lparr> bh_offset = tb_offset b, bh_size = of_nat (length block_contents) \<rparr>;
          (s, file) = WF_Append W (tb_file b) block_contents;
          b = b\<lparr> tb_file := file, tb_status := s \<rparr>
      in if ok (tb_status b) then
           (let t = CompressionType_num type;
                crc = Value block_contents;
                crc = Extend crc [t];
                (s, file) = WF_Append W (tb_file b) (t # EncodeFixed32 (Mask crc));
                b = b\<lparr> tb_file := file, tb_status := s \<rparr>
            in (handle,
                if ok (tb_status b)
                then b\<lparr> tb_offset := tb_offset b + of_nat (length block_contents + kBlockTrailerSize) \<rparr>
                else b))
         else (handle, b))"

text \<open>The stored form of a block: compressed when that saves at least an eighth.\<close>

definition block_form :: "Codec \<Rightarrow> Options \<Rightarrow> slice \<Rightarrow> slice \<times> CompressionType" where
  "block_form C options raw =
     (case compression options of
        kNoCompression \<Rightarrow> (raw, kNoCompression)
      | kSnappyCompression \<Rightarrow>
          (case Snappy_Compress C raw of
             Some compressed \<Rightarrow>
               if length compressed < length raw - length raw div 8 then (compressed, kSnappyCompression)
               else (raw, kNoCompression)
           | None \<Rightarrow> (raw, kNoCompression))
      | kZstdCompression \<Rightarrow>
          (case Zstd_Compress C (zstd_compression_level options) raw of
             Some compressed \<Rightarrow>
               if length compressed < length raw - length raw div 8 then (compressed, kZstdCompression)
               else (raw, kNoCompression)
           | None \<Rightarrow> (raw, kNoCompression)))"

text \<open>The handle, the block after \<open>Reset\<close>, and the builder.\<close>

definition WriteBlock ::
    "Codec \<Rightarrow> 'w WritableFile \<Rightarrow> BlockBuilder \<Rightarrow> 'w TableBuilder \<Rightarrow>
     BlockHandle \<times> BlockBuilder \<times> 'w TableBuilder" where
  "WriteBlock C W block b =
     (let (raw, block) = BlockBuilder_Finish block;
          (block_contents, type) = block_form C (tb_options b) raw;
          (handle, b) = WriteRawBlock W block_contents type b
      in (handle, BlockBuilder_Reset block, b))"

definition TableBuilder_Flush :: "Codec \<Rightarrow> 'w WritableFile \<Rightarrow> 'w TableBuilder \<Rightarrow> 'w TableBuilder" where
  "TableBuilder_Flush C W b =
     (if \<not> ok (tb_status b) then b
      else if BlockBuilder_empty (tb_data_block b) then b
      else
        (let (handle, block, b) = WriteBlock C W (tb_data_block b) b;
             b = b\<lparr> tb_data_block := block, tb_pending_handle := handle \<rparr>;
             b = (if ok (tb_status b) then
                    (let (s, file) = WF_Flush W (tb_file b)
                     in b\<lparr> tb_pending_index_entry := True, tb_status := s, tb_file := file \<rparr>)
                  else b)
         in b\<lparr> tb_filter_block := map_option (StartBlock (tb_offset b)) (tb_filter_block b) \<rparr>))"

definition TableBuilder_Add ::
    "Codec \<Rightarrow> 'w WritableFile \<Rightarrow> slice \<Rightarrow> slice \<Rightarrow> 'w TableBuilder \<Rightarrow> 'w TableBuilder" where
  "TableBuilder_Add C W key val b =
     (if \<not> ok (tb_status b) then b
      else
        (let b = (if tb_pending_index_entry b then
                    (let last_key = FindShortestSeparator (opt_comparator (tb_options b)) (tb_last_key b) key;
                         handle_encoding = BlockHandle_EncodeTo [] (tb_pending_handle b)
                     in b\<lparr> tb_last_key := last_key,
                           tb_index_block := BlockBuilder_Add last_key handle_encoding (tb_index_block b),
                           tb_pending_index_entry := False \<rparr>)
                  else b);
             b = b\<lparr> tb_filter_block := map_option (FilterBlockBuilder_AddKey key) (tb_filter_block b),
                    tb_last_key := key,
                    tb_num_entries := tb_num_entries b + 1,
                    tb_data_block := BlockBuilder_Add key val (tb_data_block b) \<rparr>;
             estimated_block_size = CurrentSizeEstimate (tb_data_block b)
         in if estimated_block_size \<ge> block_size (tb_options b) then TableBuilder_Flush C W b else b))"

text \<open>The steps of \<open>Finish\<close>: filter block, metaindex block, index block, footer.\<close>

definition Finish_filter_block :: "'w WritableFile \<Rightarrow> 'w TableBuilder \<Rightarrow> BlockHandle \<times> 'w TableBuilder" where
  "Finish_filter_block W b =
     (case tb_filter_block b of
        Some f \<Rightarrow>
          if ok (tb_status b) then
            (let (contents, f) = FilterBlockBuilder_Finish f;
                 (handle, b) = WriteRawBlock W contents kNoCompression b
             in (handle, b\<lparr> tb_filter_block := Some f \<rparr>))
          else (BlockHandle_new, b)
      | None \<Rightarrow> (BlockHandle_new, b))"

definition Finish_metaindex_block ::
    "Codec \<Rightarrow> 'w WritableFile \<Rightarrow> BlockHandle \<Rightarrow> 'w TableBuilder \<Rightarrow> BlockHandle \<times> 'w TableBuilder" where
  "Finish_metaindex_block C W filter_block_handle b =
     (if ok (tb_status b) then
        (let meta_index_block = BlockBuilder_new (block_restart_interval (tb_options b));
             meta_index_block =
               (case tb_filter_block b of
                  Some f \<Rightarrow>
                    BlockBuilder_Add (ascii ''filter.'' @ FilterName (the (opt_filter_policy (tb_options b))))
                      (BlockHandle_EncodeTo [] filter_block_handle) meta_index_block
                | None \<Rightarrow> meta_index_block);
             (handle, _, b) = WriteBlock C W meta_index_block b
         in (handle, b))
      else (BlockHandle_new, b))"

definition Finish_index_block ::
    "Codec \<Rightarrow> 'w WritableFile \<Rightarrow> 'w TableBuilder \<Rightarrow> BlockHandle \<times> 'w TableBuilder" where
  "Finish_index_block C W b =
     (if ok (tb_status b) then
        (let b = (if tb_pending_index_entry b then
                    (let last_key = FindShortSuccessor (opt_comparator (tb_options b)) (tb_last_key b);
                         handle_encoding = BlockHandle_EncodeTo [] (tb_pending_handle b)
                     in b\<lparr> tb_last_key := last_key,
                           tb_index_block := BlockBuilder_Add last_key handle_encoding (tb_index_block b),
                           tb_pending_index_entry := False \<rparr>)
                  else b);
             (handle, block, b) = WriteBlock C W (tb_index_block b) b
         in (handle, b\<lparr> tb_index_block := block \<rparr>))
      else (BlockHandle_new, b))"

definition Finish_footer ::
    "'w WritableFile \<Rightarrow> BlockHandle \<Rightarrow> BlockHandle \<Rightarrow> 'w TableBuilder \<Rightarrow> 'w TableBuilder" where
  "Finish_footer W metaindex_block_handle index_block_handle b =
     (if ok (tb_status b) then
        (let footer = \<lparr> metaindex_handle = metaindex_block_handle, index_handle = index_block_handle \<rparr>;
             footer_encoding = Footer_EncodeTo [] footer;
             (s, file) = WF_Append W (tb_file b) footer_encoding;
             b = b\<lparr> tb_file := file, tb_status := s \<rparr>
         in if ok (tb_status b)
            then b\<lparr> tb_offset := tb_offset b + of_nat (length footer_encoding) \<rparr> else b)
      else b)"

definition TableBuilder_Finish :: "Codec \<Rightarrow> 'w WritableFile \<Rightarrow> 'w TableBuilder \<Rightarrow> Status \<times> 'w TableBuilder" where
  "TableBuilder_Finish C W b =
     (let b = (TableBuilder_Flush C W b)\<lparr> tb_closed := True \<rparr>;
          (filter_block_handle, b) = Finish_filter_block W b;
          (metaindex_block_handle, b) = Finish_metaindex_block C W filter_block_handle b;
          (index_block_handle, b) = Finish_index_block C W b;
          b = Finish_footer W metaindex_block_handle index_block_handle b
      in (tb_status b, b))"

definition TableBuilder_Abandon :: "'w TableBuilder \<Rightarrow> 'w TableBuilder" where
  "TableBuilder_Abandon b = b\<lparr> tb_closed := True \<rparr>"

definition NumEntries :: "'w TableBuilder \<Rightarrow> nat" where
  "NumEntries b = tb_num_entries b"

definition FileSize :: "'w TableBuilder \<Rightarrow> u64" where
  "FileSize b = tb_offset b"

section \<open>Stored blocks\<close>

text \<open>The bytes of a file hold a block whose uncompressed contents are \<open>raw\<close> where the handle points.\<close>

definition decoded :: "Codec \<Rightarrow> CompressionType \<Rightarrow> slice \<Rightarrow> slice \<Rightarrow> bool" where
  "decoded C type z raw \<longleftrightarrow>
     (case type of
        kNoCompression \<Rightarrow> z = raw
      | kSnappyCompression \<Rightarrow> Snappy_GetUncompressedLength C z = Some (length raw) \<and>
          Snappy_Uncompress C z (length raw) = Some raw
      | kZstdCompression \<Rightarrow> Zstd_GetUncompressedLength C z = Some (length raw) \<and>
          Zstd_Uncompress C z (length raw) = Some raw)"

definition block_image :: "slice \<Rightarrow> CompressionType \<Rightarrow> slice" where
  "block_image z type = z @ CompressionType_num type # EncodeFixed32 (Mask (Extend (Value z) [CompressionType_num type]))"

definition stored_block :: "Codec \<Rightarrow> slice \<Rightarrow> BlockHandle \<Rightarrow> slice \<Rightarrow> bool" where
  "stored_block C bytes h raw \<longleftrightarrow>
     (\<exists>a z type rest. bytes = a @ block_image z type @ rest \<and>
        h = \<lparr> bh_offset = of_nat (length a), bh_size = of_nat (length z) \<rparr> \<and> decoded C type z raw \<and>
        (type \<noteq> kNoCompression \<longrightarrow> length raw < 2 ^ 32))"

lemma stored_block_append: "stored_block C bytes h raw \<Longrightarrow> stored_block C (bytes @ ext) h raw"
  unfolding stored_block_def by (metis append.assoc)

lemma length_block_image [simp]: "length (block_image z type) = length z + kBlockTrailerSize"
  by (simp add: block_image_def kBlockTrailerSize_def)

lemma block_form_decoded:
  assumes "codec C" "block_form C options raw = (z, type)"
  shows "decoded C type z raw"
  using assms codec.snappy [OF assms(1), of raw z] codec.zstd [OF assms(1), of "zstd_compression_level options" raw z]
  by (auto simp: block_form_def decoded_def split: CompressionType.splits option.splits if_splits)

lemma block_form_length: "block_form C options raw = (z, type) \<Longrightarrow> length z \<le> length raw"
  by (auto simp: block_form_def split: CompressionType.splits option.splits if_splits)

lemma CurrentSizeEstimate_Add:
  "CurrentSizeEstimate (BlockBuilder_Add k v b) \<le> CurrentSizeEstimate b + length k + length v + 19"
proof -
  have "length (EncodeVarint32 x) \<le> 5" for x :: u32 by (simp add: EncodeVarint32_def)
  note v = this [of "of_nat (common_prefix (bb_last_key b) k 0)"] this [of "of_nat (length k - common_prefix (bb_last_key b) k 0)"]
    this [of "of_nat (length k)"] this [of "of_nat (length v)"] this [of 0]
  show ?thesis using v by (auto simp: CurrentSizeEstimate_def BlockBuilder_Add_def Let_def PutVarint32_def)
qed

lemma Value_append: "Value (a @ b) = Extend (Value a) b"
  by (simp add: Value_def Extend_eq_ref crc_ref_def xor.assoc)

lemma CompressionType_num_inj [simp]: "CompressionType_num a = CompressionType_num b \<longleftrightarrow> a = b"
  by (cases a; cases b) (simp_all add: CompressionType_num_def)

lemma ReadBlock_stored:
  assumes "random_access_file R contents good" "good r" "stored_block C (contents r) h raw"
    and "length (contents r) < 2 ^ 63"
  shows "\<exists>bc. ReadBlock C R r in_buf options h = (OK, bc) \<and> bc_data bc = raw"
proof -
  obtain a z type rest where f: "contents r = a @ block_image z type @ rest"
    "h = \<lparr> bh_offset = of_nat (length a), bh_size = of_nat (length z) \<rparr>" "decoded C type z raw"
    using assms(3) by (auto simp: stored_block_def)
  let ?t = "CompressionType_num type"
  let ?crc = "EncodeFixed32 (Mask (Extend (Value z) [?t]))"
  have len: "length a < 2 ^ 64" "length z + kBlockTrailerSize < 2 ^ 64" using f(1) assms(4) by simp_all
  have n: "unat (of_nat (length a) :: u64) = length a" "unat (of_nat (length z) :: u64) = length z"
    "unat (of_nat (length z) + of_nat kBlockTrailerSize :: u64) = length z + kBlockTrailerSize"
    using len unat_u64_of_nat [of "length z + kBlockTrailerSize"] by simp_all
  have rd: "RA_Read R r (length a) (length z + kBlockTrailerSize) = (OK, block_image z type)"
    using random_access_file.read_at [OF assms(1,2), of "length a" "length z + kBlockTrailerSize"] f(1) by simp
  have img: "block_image z type = (z @ [?t]) @ ?crc" by (simp add: block_image_def)
  have crc: "Unmask (DecodeFixed32 (drop (length z + 1) (block_image z type))) = Extend (Value z) [?t]"
    "Value (take (length z + 1) (block_image z type)) = Extend (Value z) [?t]"
    unfolding img using DecodeFixed32_append [of "Mask (Extend (Value z) [?t])" "[]"] by (simp_all add: Value_append)
  have parts: "block_image z type ! length z = ?t" "take (length z) (block_image z type) = z"
    by (simp_all add: block_image_def)
  show ?thesis
    unfolding ReadBlock_def f(2) BlockHandle.simps n Let_def rd prod.case
    using f(3) parts crc by (cases type) (simp_all add: decoded_def kBlockTrailerSize_def)
qed

lemma stored_block_small: "stored_block C bytes h raw \<Longrightarrow> length bytes < 2 ^ 32 \<Longrightarrow> length raw < 2 ^ 32"
proof -
  assume st: "stored_block C bytes h raw" and small: "length bytes < 2 ^ 32"
  obtain a z type rest where b: "bytes = a @ block_image z type @ rest" "decoded C type z raw"
    "type \<noteq> kNoCompression \<longrightarrow> length raw < 2 ^ 32"
    using st unfolding stored_block_def by blast
  then have "length z < 2 ^ 32" using small by simp
  then show ?thesis using b(2,3) by (cases "type = kNoCompression") (simp_all add: decoded_def)
qed

section \<open>The builder's invariant\<close>

text \<open>
  \<open>ds\<close> are the data blocks written so far with their entries, \<open>seps\<close> the separators that are in the
  index, \<open>cur\<close> the entries of the current block.  While an index entry is pending there is one
  separator less than there are blocks.
\<close>

definition block_holds :: "Codec \<Rightarrow> slice \<Rightarrow> BlockHandle \<Rightarrow> kv list \<Rightarrow> bool" where
  "block_holds C bytes h kvs \<longleftrightarrow>
     (\<exists>es rx. stored_block C bytes h (block_bytes es rx) \<and> chained es \<and> restarts_ok es rx \<and> map snd es = kvs)"

definition bb_kvs :: "BlockBuilder \<Rightarrow> kv list \<Rightarrow> bool" where
  "bb_kvs b kvs \<longleftrightarrow> (\<exists>es rx. builder_holds b es rx \<and> map snd es = kvs)"

definition separated :: "(slice \<Rightarrow> slice \<Rightarrow> int) \<Rightarrow> kv list list \<Rightarrow> slice list \<Rightarrow> bool" where
  "separated cmp kvss seps \<longleftrightarrow>
     (\<forall>j < length seps. (\<forall>e \<in> set (concat (take (Suc j) kvss)). cmp (fst e) (seps ! j) \<le> 0) \<and>
        (\<forall>e \<in> set (concat (drop (Suc j) kvss)). cmp (seps ! j) (fst e) < 0))"

definition tb_plan ::
    "Comparator \<Rightarrow> (slice \<Rightarrow> bool) \<Rightarrow> (BlockHandle \<times> kv list) list \<Rightarrow> slice list \<Rightarrow> kv list \<Rightarrow> bool" where
  "tb_plan c valid ds seps cur \<longleftrightarrow>
     (\<forall>d \<in> set ds. snd d \<noteq> []) \<and> length seps \<le> length ds \<and>
     sorted_kvs (Compare c) (concat (map snd ds) @ cur) \<and> (\<forall>e \<in> set (concat (map snd ds) @ cur). valid (fst e)) \<and>
     separated (Compare c) (map snd ds @ [cur]) seps"

definition filter_inv :: "Options \<Rightarrow> FilterBlockBuilder option \<Rightarrow> u64 \<Rightarrow> (BlockHandle \<times> kv list) list \<Rightarrow> kv list \<Rightarrow> bool" where
  "filter_inv options fb offset ds cur \<longleftrightarrow>
     (case fb of
        None \<Rightarrow> opt_filter_policy options = None
      | Some fb \<Rightarrow> opt_filter_policy options = Some (fb_policy fb) \<and> filter_policy (fb_policy fb) \<and>
          (\<exists>fs pend. fb_holds fb fs pend \<and> length fs = unat offset div kFilterBase \<and>
             covers (fs @ [pend]) (offset, map fst cur) \<and>
             (\<forall>d \<in> set ds. covers (fs @ [pend]) (bh_offset (fst d), map fst (snd d)))))"

definition tb_blocks :: "Codec \<Rightarrow> slice \<Rightarrow> (BlockHandle \<times> kv list) list \<Rightarrow> bool" where
  "tb_blocks C bytes ds \<longleftrightarrow> (\<forall>d \<in> set ds. block_holds C bytes (fst d) (snd d))"

definition index_kvs :: "(BlockHandle \<times> kv list) list \<Rightarrow> slice list \<Rightarrow> kv list" where
  "index_kvs ds seps = zip seps (map (\<lambda>d. BlockHandle_EncodeTo [] (fst d)) ds)"

definition tb_inv ::
    "Comparator \<Rightarrow> (slice \<Rightarrow> bool) \<Rightarrow> ('w \<Rightarrow> slice) \<Rightarrow> ('w \<Rightarrow> bool) \<Rightarrow> Codec \<Rightarrow> 'w TableBuilder \<Rightarrow>
     (BlockHandle \<times> kv list) list \<Rightarrow> slice list \<Rightarrow> kv list \<Rightarrow> bool" where
  "tb_inv c valid bytes good C b ds seps cur \<longleftrightarrow>
     tb_status b = OK \<and> good (tb_file b) \<and> tb_offset b = of_nat (length (bytes (tb_file b))) \<and>
     opt_comparator (tb_options b) = c \<and> tb_plan c valid ds seps cur \<and> tb_blocks C (bytes (tb_file b)) ds \<and>
     bb_kvs (tb_data_block b) cur \<and> bb_kvs (tb_index_block b) (index_kvs ds seps) \<and>
     filter_inv (tb_options b) (tb_filter_block b) (tb_offset b) ds cur \<and>
     (concat (map snd ds) @ cur \<noteq> [] \<longrightarrow> tb_last_key b = fst (last (concat (map snd ds) @ cur))) \<and>
     (if tb_pending_index_entry b
      then cur = [] \<and> length ds = Suc (length seps) \<and> tb_pending_handle b = fst (last ds)
      else length seps = length ds \<and> (cur = [] \<longrightarrow> ds = []))"

lemma tb_plan_flush:
  "tb_plan c valid ds seps cur \<Longrightarrow> cur \<noteq> [] \<Longrightarrow> tb_plan c valid (ds @ [(h, cur)]) seps []"
  by (auto simp: tb_plan_def separated_def)

lemma tb_plan_add:
  assumes "tb_plan c valid ds seps cur" "valid k" "\<forall>e \<in> set (concat (map snd ds) @ cur). Compare c (fst e) k < 0"
    and "\<forall>j < length seps. Compare c (seps ! j) k < 0"
  shows "tb_plan c valid ds seps (cur @ [(k, v)])"
  using assms by (auto simp: tb_plan_def separated_def sorted_kvs_def sorted_wrt_append)

lemma tb_plan_sep:
  assumes "tb_plan c valid ds seps []" "length ds = Suc (length seps)"
    and "\<forall>e \<in> set (concat (map snd ds)). Compare c (fst e) s \<le> 0"
  shows "tb_plan c valid ds (seps @ [s]) []"
  using assms by (auto simp: tb_plan_def separated_def nth_append less_Suc_eq dest!: in_set_takeD)

text \<open>The separators in the index lie below the last key.\<close>

lemma tb_plan_last:
  assumes "tb_plan c valid ds seps cur" "j < length seps" "cur \<noteq> [] \<or> length ds = Suc (length seps)"
  shows "Compare c (seps ! j) (fst (last (concat (map snd ds) @ cur))) < 0"
proof -
  let ?tl = "concat (drop (Suc j) (map snd ds @ [cur]))"
  have ne: "?tl \<noteq> []"
  proof (cases "cur = []")
    case True
    then have j: "Suc j < length ds" using assms(2,3) by simp
    then have "last ds \<in> set (drop (Suc j) ds)" by (metis drop_eq_Nil2 last_drop last_in_set not_le)
    moreover from this have "snd (last ds) \<noteq> []" using assms(1) by (auto simp: tb_plan_def dest: in_set_dropD)
    ultimately show ?thesis by (auto simp: drop_map)
  next
    case False
    then show ?thesis using assms(1,2) by (simp add: tb_plan_def)
  qed
  have "concat (map snd ds) @ cur = concat (take (Suc j) (map snd ds @ [cur])) @ ?tl"
    by (metis append_take_drop_id concat_append concat.simps append_Nil2 self_append_conv)
  then have "last (concat (map snd ds) @ cur) = last ?tl" using ne by (metis last_appendR)
  then show ?thesis using assms(1,2) last_in_set [OF ne] by (simp add: tb_plan_def separated_def)
qed

lemma tb_inv_closed [simp]: "tb_inv c valid bytes good C (b\<lparr> tb_closed := x \<rparr>) ds seps cur = tb_inv c valid bytes good C b ds seps cur"
  by (simp add: tb_inv_def)

lemma block_holds_append: "block_holds C bytes h kvs \<Longrightarrow> block_holds C (bytes @ ext) h kvs"
  unfolding block_holds_def using stored_block_append by blast

lemma bb_kvs_Add: "bb_kvs b kvs \<Longrightarrow> bb_kvs (BlockBuilder_Add k v b) (kvs @ [(k, v)])"
  unfolding bb_kvs_def using Add_holds by fastforce

lemma bb_kvs_new: "1 \<le> n \<Longrightarrow> bb_kvs (BlockBuilder_new n) []"
  unfolding bb_kvs_def using builder_new_holds by fastforce

lemma bb_kvs_Reset: "bb_kvs b kvs \<Longrightarrow> bb_kvs (BlockBuilder_Reset (snd (BlockBuilder_Finish b))) []"
proof -
  assume "bb_kvs b kvs"
  then have "1 \<le> bb_block_restart_interval b" by (auto simp: bb_kvs_def builder_holds_def)
  then have "builder_holds (BlockBuilder_Reset (snd (BlockBuilder_Finish b))) [] [0]"
    by (simp add: builder_holds_def BlockBuilder_Reset_def BlockBuilder_Finish_def Let_def chained_def restarts_ok_def)
  then show ?thesis by (auto simp: bb_kvs_def)
qed

lemma enc_all_Nil_iff: "enc_all es = [] \<longleftrightarrow> es = []" "[] = enc_all es \<longleftrightarrow> es = []"
  using entry_enc_bounds [of "hd es"] by (cases es; auto)+

lemma bb_kvs_empty: "bb_kvs b kvs \<Longrightarrow> BlockBuilder_empty b \<longleftrightarrow> kvs = []"
  by (auto simp: bb_kvs_def builder_holds_def BlockBuilder_empty_def enc_all_Nil_iff)

lemma Finish_bytes_kvs:
  assumes "bb_kvs b kvs"
  obtains es rx where "fst (BlockBuilder_Finish b) = block_bytes es rx" "chained es" "restarts_ok es rx" "map snd es = kvs"
  using assms unfolding bb_kvs_def
  by (auto simp: builder_holds_def Finish_bytes block_bytes_def o_def)

lemma filter_inv_add:
  "filter_inv options fb offset ds cur \<Longrightarrow>
   filter_inv options (map_option (FilterBlockBuilder_AddKey k) fb) offset ds (cur @ [(k, v)])"
proof (cases fb)
  case (Some f)
  assume "filter_inv options fb offset ds cur"
  then obtain fs pend where f: "opt_filter_policy options = Some (fb_policy f)" "filter_policy (fb_policy f)"
    "fb_holds f fs pend" "length fs = unat offset div kFilterBase" "covers (fs @ [pend]) (offset, map fst cur)"
    "\<forall>d \<in> set ds. covers (fs @ [pend]) (bh_offset (fst d), map fst (snd d))"
    by (auto simp: filter_inv_def Some)
  have "covers (fs @ [pend @ [k]]) (offset, map fst (cur @ [(k, v)]))"
    using covers_grow [OF f(5), of "[k]"] f(4) by (auto simp: covers_def nth_append)
  moreover have "\<forall>d \<in> set ds. covers (fs @ [pend @ [k]]) (bh_offset (fst d), map fst (snd d))"
    using covers_grow f(6) by blast
  ultimately show ?thesis
    using f(1,2,4) AddKey_holds [OF f(3), of k] unfolding filter_inv_def Some
    by (auto simp: FilterBlockBuilder_AddKey_def)
qed (simp add: filter_inv_def)

lemma filter_inv_flush:
  assumes "filter_inv options fb offset ds cur" "offset \<le> offset'" "bh_offset h = offset"
  shows "filter_inv options (map_option (StartBlock offset') fb) offset' (ds @ [(h, cur)]) []"
proof (cases fb)
  case (Some f)
  from assms(1) obtain fs pend where f: "opt_filter_policy options = Some (fb_policy f)" "filter_policy (fb_policy f)"
    "fb_holds f fs pend" "length fs = unat offset div kFilterBase" "covers (fs @ [pend]) (offset, map fst cur)"
    "\<forall>d \<in> set ds. covers (fs @ [pend]) (bh_offset (fst d), map fst (snd d))"
    by (auto simp: filter_inv_def Some)
  have "length fs \<le> unat offset' div kFilterBase"
    unfolding f(4) using assms(2) by (simp add: div_le_mono word_le_nat_alt)
  from StartBlock_loop_holds [OF f(2,3) this] obtain fs' pend' gs where
    st: "fb_holds (StartBlock offset' f) fs' pend'" "length fs' = unat offset' div kFilterBase"
    "fb_policy (StartBlock offset' f) = fb_policy f" "fs' @ [pend'] = (fs @ [pend]) @ gs"
    unfolding StartBlock_def by (metis append.assoc append_Nil2)
  have keep: "covers (fs' @ [pend']) x" if "covers (fs @ [pend]) x" for x
    unfolding st(4) by (rule covers_append [OF that])
  have "\<forall>d \<in> set (ds @ [(h, cur)]). covers (fs' @ [pend']) (bh_offset (fst d), map fst (snd d))"
    using f(5,6) keep assms(3) by auto
  moreover have "covers (fs' @ [pend']) (offset', map fst [])" by (simp add: covers_def)
  ultimately show ?thesis
    using f(1,2) st(1-3) unfolding filter_inv_def Some option.map option.case by auto
qed (use assms in \<open>simp add: filter_inv_def\<close>)

text \<open>A finished table: \<open>ds\<close> are its data blocks and \<open>seps\<close> their index keys.\<close>

definition meta_kvs :: "FilterPolicy option \<Rightarrow> BlockHandle \<Rightarrow> kv list" where
  "meta_kvs policy fh =
     (case policy of None \<Rightarrow> [] | Some p \<Rightarrow> [(ascii ''filter.'' @ FilterName p, BlockHandle_EncodeTo [] fh)])"

definition filter_stored :: "Codec \<Rightarrow> slice \<Rightarrow> FilterPolicy option \<Rightarrow> BlockHandle \<Rightarrow> (BlockHandle \<times> kv list) list \<Rightarrow> bool" where
  "filter_stored C bytes policy fh ds \<longleftrightarrow>
     (case policy of
        None \<Rightarrow> True
      | Some p \<Rightarrow> \<exists>contents. stored_block C bytes fh contents \<and>
          (length contents < 2 ^ 32 \<longrightarrow>
             (\<forall>d \<in> set ds. \<forall>e \<in> set (snd d).
                FilterBlockReader_KeyMayMatch (FilterBlockReader_new p contents) (bh_offset (fst d)) (fst e))))"

definition table_file ::
    "Comparator \<Rightarrow> (slice \<Rightarrow> bool) \<Rightarrow> Codec \<Rightarrow> FilterPolicy option \<Rightarrow> slice \<Rightarrow> (BlockHandle \<times> kv list) list \<Rightarrow> slice list \<Rightarrow> bool" where
  "table_file c valid C policy bytes ds seps \<longleftrightarrow>
     tb_plan c valid ds seps [] \<and> length seps = length ds \<and> tb_blocks C bytes ds \<and>
     (\<exists>pre mh ih fh. bytes = pre @ Footer_EncodeTo [] \<lparr> metaindex_handle = mh, index_handle = ih \<rparr> \<and>
        block_holds C bytes ih (index_kvs ds seps) \<and> block_holds C bytes mh (meta_kvs policy fh) \<and>
        filter_stored C bytes policy fh ds)"

lemma tb_blocks_append: "tb_blocks C bytes ds \<Longrightarrow> tb_blocks C (bytes @ ext) ds"
  unfolding tb_blocks_def using block_holds_append by blast

lemma filter_stored_append: "filter_stored C bytes policy fh ds \<Longrightarrow> filter_stored C (bytes @ ext) policy fh ds"
  unfolding filter_stored_def using stored_block_append by (fastforce split: option.splits)

text \<open>The comparator's, the file's and the compression contracts together.\<close>

locale table_writer = comparator c valid + dst: writable_file W bytes good + lib: codec C
  for c valid and W :: "'w WritableFile" and bytes good and C +
  assumes limit: "Snappy_Compress C raw = Some z \<or> Zstd_Compress C l raw = Some z \<Longrightarrow> length raw < 2 ^ 32"
begin

lemma WriteRawBlock_ok:
  assumes "good (tb_file b)" "tb_offset b = of_nat (length (bytes (tb_file b)))"
  obtains f where "WriteRawBlock W z type b =
      (\<lparr> bh_offset = of_nat (length (bytes (tb_file b))), bh_size = of_nat (length z) \<rparr>,
       b\<lparr> tb_file := f, tb_status := OK, tb_offset := of_nat (length (bytes f)) \<rparr>)"
    "good f" "bytes f = bytes (tb_file b) @ block_image z type"
proof -
  let ?t = "CompressionType_num type"
  obtain f1 where f1: "WF_Append W (tb_file b) z = (OK, f1)" "bytes f1 = bytes (tb_file b) @ z" "good f1"
    using dst.append_obtain [OF assms(1)] by blast
  obtain f where f: "WF_Append W f1 (?t # EncodeFixed32 (Mask (Extend (Value z) [?t]))) = (OK, f)"
    "bytes f = bytes f1 @ ?t # EncodeFixed32 (Mask (Extend (Value z) [?t]))" "good f"
    using dst.append_obtain [OF f1(3)] by blast
  have b: "bytes f = bytes (tb_file b) @ block_image z type" by (simp add: f f1 block_image_def)
  show thesis
    by (rule that [OF _ f(3) b])
       (simp add: WriteRawBlock_def f1 f assms(2) block_image_def kBlockTrailerSize_def)
qed

lemma WriteBlock_ok:
  assumes "good (tb_file b)" "tb_offset b = of_nat (length (bytes (tb_file b)))" "bb_kvs blk kvs"
  obtains f h where "WriteBlock C W blk b = (h, BlockBuilder_Reset (snd (BlockBuilder_Finish blk)),
       b\<lparr> tb_file := f, tb_status := OK, tb_offset := of_nat (length (bytes f)) \<rparr>)"
    "good f" "block_holds C (bytes f) h kvs" "bh_offset h = tb_offset b" "\<exists>ext. bytes f = bytes (tb_file b) @ ext"
proof -
  let ?raw = "fst (BlockBuilder_Finish blk)"
  obtain z type where zt: "block_form C (tb_options b) ?raw = (z, type)" by fastforce
  obtain f where f: "WriteRawBlock W z type b =
      (\<lparr> bh_offset = of_nat (length (bytes (tb_file b))), bh_size = of_nat (length z) \<rparr>,
       b\<lparr> tb_file := f, tb_status := OK, tb_offset := of_nat (length (bytes f)) \<rparr>)"
    "good f" "bytes f = bytes (tb_file b) @ block_image z type"
    using WriteRawBlock_ok [OF assms(1,2)] .
  let ?h = "\<lparr> bh_offset = of_nat (length (bytes (tb_file b))), bh_size = of_nat (length z) \<rparr> :: BlockHandle"
  obtain es rx where es: "?raw = block_bytes es rx" "chained es" "restarts_ok es rx" "map snd es = kvs"
    using Finish_bytes_kvs [OF assms(3)] .
  have "type \<noteq> kNoCompression \<longrightarrow> length ?raw < 2 ^ 32"
    using zt limit by (auto simp: block_form_def split: CompressionType.splits option.splits if_splits)
  then have "stored_block C (bytes f) ?h ?raw"
    unfolding stored_block_def using f(3) block_form_decoded [OF lib.codec_axioms zt]
    by (intro exI [of _ "bytes (tb_file b)"] exI [of _ z] exI [of _ type] exI [of _ "[]"]) simp
  then have h: "block_holds C (bytes f) ?h kvs" unfolding block_holds_def using es by auto
  have w: "WriteBlock C W blk b = (?h, BlockBuilder_Reset (snd (BlockBuilder_Finish blk)),
       b\<lparr> tb_file := f, tb_status := OK, tb_offset := of_nat (length (bytes f)) \<rparr>)"
    unfolding WriteBlock_def by (simp add: split_beta zt f(1))
  show thesis by (rule that [OF w f(2) h]) (use f(3) assms(2) in auto)
qed

text \<open>Every step only appends to the file.\<close>

definition grows :: "'w TableBuilder \<Rightarrow> 'w TableBuilder \<Rightarrow> bool" where
  "grows b b' \<longleftrightarrow> (good (tb_file b) \<longrightarrow> good (tb_file b') \<and> (\<exists>ext. bytes (tb_file b') = bytes (tb_file b) @ ext))"

lemma grows_refl: "tb_file b' = tb_file b \<Longrightarrow> grows b b'"
  by (simp add: grows_def)

lemma grows_trans: "grows a1 a2 \<Longrightarrow> grows a2 a3 \<Longrightarrow> grows a1 a3"
  by (fastforce simp: grows_def)

lemma grows_length: "grows a b \<Longrightarrow> good (tb_file a) \<Longrightarrow> length (bytes (tb_file b)) < n \<Longrightarrow> length (bytes (tb_file a)) < n"
  by (auto simp: grows_def)

lemma WriteRawBlock_grows: "tb_file a = tb_file b \<Longrightarrow> grows a (snd (WriteRawBlock W z type b))"
proof (cases "good (tb_file b)")
  case True
  assume "tb_file a = tb_file b"
  moreover obtain f1 where "WF_Append W (tb_file b) z = (OK, f1)" "bytes f1 = bytes (tb_file b) @ z" "good f1"
    using dst.append_obtain [OF True] by blast
  moreover obtain f where "WF_Append W f1 (CompressionType_num type # EncodeFixed32 (Mask (Extend (Value z) [CompressionType_num type]))) = (OK, f)"
    "bytes f = bytes f1 @ CompressionType_num type # EncodeFixed32 (Mask (Extend (Value z) [CompressionType_num type]))" "good f"
    using dst.append_obtain [OF calculation(4)] by blast
  ultimately show ?thesis by (simp add: WriteRawBlock_def grows_def)
qed (simp add: grows_def)

lemma WriteBlock_grows: "tb_file a = tb_file b \<Longrightarrow> grows a (snd (snd (WriteBlock C W blk b)))"
  using WriteRawBlock_grows by (simp add: WriteBlock_def split_beta)

lemma Flush_grows: "tb_file a = tb_file b \<Longrightarrow> grows a (TableBuilder_Flush C W b)"
proof -
  assume a: "tb_file a = tb_file b"
  let ?b = "snd (snd (WriteBlock C W (tb_data_block b) b))"
  have g: "grows a ?b" by (rule WriteBlock_grows [OF a])
  have "grows a (?b\<lparr> tb_file := snd (WF_Flush W (tb_file ?b)) \<rparr>)"
    using g dst.flush [of "tb_file ?b"] by (auto simp: grows_def)
  then show ?thesis
    using a g by (auto simp: TableBuilder_Flush_def Let_def split_beta grows_def)
qed

lemma Add_grows: "grows b (TableBuilder_Add C W k v b)"
  unfolding TableBuilder_Add_def Let_def by (auto intro!: grows_refl Flush_grows)

lemma Flush_empty: "tb_inv c valid bytes good C b ds seps [] \<Longrightarrow> TableBuilder_Flush C W b = b"
  using bb_kvs_empty [of "tb_data_block b" "[]"] by (simp add: tb_inv_def TableBuilder_Flush_def)

lemma Flush_inv:
  assumes inv: "tb_inv c valid bytes good C b ds seps cur" and "cur \<noteq> []"
    and "length (bytes (tb_file (TableBuilder_Flush C W b))) < 2 ^ 64"
  obtains h ext where "tb_inv c valid bytes good C (TableBuilder_Flush C W b) (ds @ [(h, cur)]) seps []"
    "tb_pending_index_entry (TableBuilder_Flush C W b)" "tb_options (TableBuilder_Flush C W b) = tb_options b"
    "bytes (tb_file (TableBuilder_Flush C W b)) = bytes (tb_file b) @ ext"
proof -
  have i: "tb_status b = OK" "good (tb_file b)" "tb_offset b = of_nat (length (bytes (tb_file b)))"
    "opt_comparator (tb_options b) = c" "tb_plan c valid ds seps cur" "tb_blocks C (bytes (tb_file b)) ds"
    "bb_kvs (tb_data_block b) cur" "bb_kvs (tb_index_block b) (index_kvs ds seps)"
    "filter_inv (tb_options b) (tb_filter_block b) (tb_offset b) ds cur"
    "tb_last_key b = fst (last (concat (map snd ds) @ cur))" "\<not> tb_pending_index_entry b" "length seps = length ds"
    using inv \<open>cur \<noteq> []\<close> by (auto simp: tb_inv_def split: if_splits)
  obtain f h ext where f: "WriteBlock C W (tb_data_block b) b =
      (h, BlockBuilder_Reset (snd (BlockBuilder_Finish (tb_data_block b))),
       b\<lparr> tb_file := f, tb_status := OK, tb_offset := of_nat (length (bytes f)) \<rparr>)"
    "good f" "block_holds C (bytes f) h cur" "bh_offset h = tb_offset b" "bytes f = bytes (tb_file b) @ ext"
    using WriteBlock_ok [OF i(2,3,7)] by metis
  obtain f2 where f2: "WF_Flush W f = (OK, f2)" "bytes f2 = bytes f" "good f2" using dst.flush [OF f(2)] by blast
  define b' where "b' = TableBuilder_Flush C W b"
  have e: "\<not> BlockBuilder_empty (tb_data_block b)" using bb_kvs_empty [OF i(7)] \<open>cur \<noteq> []\<close> by simp
  have b': "b' = b\<lparr> tb_file := f2, tb_status := OK, tb_offset := of_nat (length (bytes f2)),
      tb_data_block := BlockBuilder_Reset (snd (BlockBuilder_Finish (tb_data_block b))), tb_pending_handle := h,
      tb_pending_index_entry := True,
      tb_filter_block := map_option (StartBlock (of_nat (length (bytes f2)))) (tb_filter_block b) \<rparr>"
    unfolding b'_def TableBuilder_Flush_def using i(1) e by (simp add: f(1) f2)
  have sz: "length (bytes f2) < 2 ^ 64" using assms(3) unfolding b'_def [symmetric] by (simp add: b')
  have "length (bytes (tb_file b)) \<le> length (bytes f2)" using f(5) f2(2) by simp
  then have "tb_offset b \<le> of_nat (length (bytes f2))"
    unfolding i(3) word_le_nat_alt
    using sz unat_u64_of_nat [of "length (bytes f2)"] unat_u64_of_nat [of "length (bytes (tb_file b))"] by linarith
  from filter_inv_flush [OF i(9) this f(4)]
  have fl: "filter_inv (tb_options b') (tb_filter_block b') (tb_offset b') (ds @ [(h, cur)]) []" by (simp add: b')
  have bl: "tb_blocks C (bytes f2) (ds @ [(h, cur)])"
    using i(6) f(3) block_holds_append by (auto simp: tb_blocks_def f2(2) f(5))
  have "index_kvs (ds @ [(h, cur)]) seps = index_kvs ds seps" using i(12) by (simp add: index_kvs_def zip_append2)
  then have "tb_inv c valid bytes good C b' (ds @ [(h, cur)]) seps []"
    using i(4,8,10,12) fl bl tb_plan_flush [OF i(5) \<open>cur \<noteq> []\<close>] bb_kvs_Reset [OF i(7)] f2(3)
    unfolding tb_inv_def by (simp add: b')
  then show thesis
    using that [of h ext] f(5) f2(2) unfolding b'_def [symmetric] by (simp add: b')
qed

lemma le_last:
  assumes "tb_plan c valid ds seps cur" "e \<in> set (concat (map snd ds) @ cur)"
  shows "Compare c (fst e) (fst (last (concat (map snd ds) @ cur))) \<le> 0"
proof -
  obtain es l where "concat (map snd ds) @ cur = es @ [l]" using assms(2) by (metis empty_iff empty_set rev_exhaust)
  then show ?thesis using assms by (auto simp: tb_plan_def sorted_kvs_def sorted_wrt_append intro: less_imp_le)
qed

lemma last_key:
  assumes "tb_inv c valid bytes good C b ds seps cur" "tb_pending_index_entry b"
  shows "cur = []" "length ds = Suc (length seps)" "tb_pending_handle b = fst (last ds)"
    "tb_last_key b = fst (last (concat (map snd ds)))" "last (concat (map snd ds)) \<in> set (concat (map snd ds))"
proof -
  show p: "cur = []" "length ds = Suc (length seps)" "tb_pending_handle b = fst (last ds)"
    using assms by (auto simp: tb_inv_def)
  have d: "last ds \<in> set ds" using p(2) by (intro last_in_set) auto
  have "tb_plan c valid ds seps cur" using assms(1) by (simp add: tb_inv_def)
  then have "snd (last ds) \<noteq> []" using d by (simp add: tb_plan_def)
  then have ne: "concat (map snd ds) \<noteq> []" using p(2) by (cases ds rule: rev_cases) auto
  then show "last (concat (map snd ds)) \<in> set (concat (map snd ds))" by (rule last_in_set)
  show "tb_last_key b = fst (last (concat (map snd ds)))" using assms(1) p(1) ne by (simp add: tb_inv_def)
qed

text \<open>A separator not below the last key completes the index of the blocks written.\<close>

lemma index_entry:
  assumes inv: "tb_inv c valid bytes good C b ds seps cur" and p: "tb_pending_index_entry b"
    and s: "Compare c (tb_last_key b) s \<le> 0"
  shows "tb_plan c valid ds (seps @ [s]) []"
    "bb_kvs (BlockBuilder_Add s (BlockHandle_EncodeTo [] (tb_pending_handle b)) (tb_index_block b)) (index_kvs ds (seps @ [s]))"
proof -
  note l = last_key [OF inv p]
  have pl: "tb_plan c valid ds seps []" "bb_kvs (tb_index_block b) (index_kvs ds seps)"
    using inv l(1) by (auto simp: tb_inv_def)
  have "\<forall>e \<in> set (concat (map snd ds)). Compare c (fst e) s \<le> 0"
    using le_last [OF pl(1)] s l(4) cmp_trans by (metis append_Nil2)
  then show "tb_plan c valid ds (seps @ [s]) []" by (rule tb_plan_sep [OF pl(1) l(2)])
  have "index_kvs ds (seps @ [s]) = index_kvs ds seps @ [(s, BlockHandle_EncodeTo [] (tb_pending_handle b))]"
    using l(2,3) by (cases ds rule: rev_cases) (simp_all add: index_kvs_def zip_append2)
  then show "bb_kvs (BlockBuilder_Add s (BlockHandle_EncodeTo [] (tb_pending_handle b)) (tb_index_block b))
      (index_kvs ds (seps @ [s]))"
    using bb_kvs_Add [OF pl(2)] by simp
qed

lemma seps_below:
  assumes inv: "tb_inv c valid bytes good C b ds seps cur" and j: "j < length seps"
    and above: "\<forall>e \<in> set (concat (map snd ds) @ cur). Compare c (fst e) k < 0"
  shows "Compare c (seps ! j) k < 0"
proof -
  have l: "cur \<noteq> [] \<or> length ds = Suc (length seps)" "tb_plan c valid ds seps cur"
    using inv j by (auto simp: tb_inv_def split: if_splits)
  have "concat (map snd ds) @ cur \<noteq> []"
  proof (cases "tb_pending_index_entry b")
    case True
    then show ?thesis using last_key(5) [OF inv] by fastforce
  next
    case False
    then show ?thesis using inv j by (auto simp: tb_inv_def)
  qed
  then have "Compare c (fst (last (concat (map snd ds) @ cur))) k < 0" using above last_in_set by blast
  then show ?thesis using tb_plan_last [OF l(2) j l(1)] cmp_less_trans by blast
qed

lemma Add_index:
  assumes inv: "tb_inv c valid bytes good C b ds seps cur" and k: "valid k"
    and above: "\<forall>e \<in> set (concat (map snd ds) @ cur). Compare c (fst e) k < 0"
    and s: "s = FindShortestSeparator c (tb_last_key b) k"
  obtains seps' where "bb_kvs (if tb_pending_index_entry b
      then BlockBuilder_Add s (BlockHandle_EncodeTo [] (tb_pending_handle b)) (tb_index_block b)
      else tb_index_block b) (index_kvs ds seps')" "tb_plan c valid ds seps' (cur @ [(k, v)])" "length seps' = length ds"
proof (cases "tb_pending_index_entry b")
  case True
  note l = last_key [OF inv True]
  have lk: "valid (tb_last_key b)" "Compare c (tb_last_key b) k < 0"
    using inv above l(4,5) by (auto simp: tb_inv_def tb_plan_def)
  note sp = separator [OF lk(1) k lk(2), folded s]
  have "\<forall>j < length (seps @ [s]). Compare c ((seps @ [s]) ! j) k < 0"
    using seps_below [OF inv _ above] sp by (auto simp: nth_append less_Suc_eq)
  then have "tb_plan c valid ds (seps @ [s]) (cur @ [(k, v)])"
    using tb_plan_add [OF index_entry(1) [OF inv True] k] sp above l(1) by simp
  then show thesis using that [of "seps @ [s]"] index_entry(2) [OF inv True] sp True l(2) by simp
next
  case False
  then show thesis
    using that [of seps] inv tb_plan_add [of c valid ds seps cur k v] k above seps_below [OF inv _ above] by (simp add: tb_inv_def)
qed

lemma Add_inv:
  assumes inv: "tb_inv c valid bytes good C b ds seps cur" and k: "valid k"
    and above: "\<forall>e \<in> set (concat (map snd ds) @ cur). Compare c (fst e) k < 0"
    and small: "length (bytes (tb_file (TableBuilder_Add C W k v b))) < 2 ^ 64"
  obtains ds' seps' cur' ext where "tb_inv c valid bytes good C (TableBuilder_Add C W k v b) ds' seps' cur'"
    "concat (map snd ds') @ cur' = (concat (map snd ds) @ cur) @ [(k, v)]"
    "tb_options (TableBuilder_Add C W k v b) = tb_options b"
    "bytes (tb_file (TableBuilder_Add C W k v b)) = bytes (tb_file b) @ ext"
proof -
  have i: "tb_status b = OK" "opt_comparator (tb_options b) = c" "bb_kvs (tb_data_block b) cur"
    "filter_inv (tb_options b) (tb_filter_block b) (tb_offset b) ds cur"
    using inv by (auto simp: tb_inv_def)
  let ?ix = "if tb_pending_index_entry b
             then BlockBuilder_Add (FindShortestSeparator c (tb_last_key b) k)
                    (BlockHandle_EncodeTo [] (tb_pending_handle b)) (tb_index_block b)
             else tb_index_block b"
  obtain seps' where sp: "bb_kvs ?ix (index_kvs ds seps')" "tb_plan c valid ds seps' (cur @ [(k, v)])"
    "length seps' = length ds"
    by (rule Add_index [OF inv k above refl])
  define b2 where "b2 = b\<lparr> tb_last_key := k, tb_index_block := ?ix, tb_pending_index_entry := False,
      tb_filter_block := map_option (FilterBlockBuilder_AddKey k) (tb_filter_block b),
      tb_num_entries := tb_num_entries b + 1, tb_data_block := BlockBuilder_Add k v (tb_data_block b) \<rparr>"
  have add: "TableBuilder_Add C W k v b =
      (if CurrentSizeEstimate (tb_data_block b2) \<ge> block_size (tb_options b2) then TableBuilder_Flush C W b2 else b2)"
    unfolding b2_def TableBuilder_Add_def using i(1,2) by (cases b) (simp add: Let_def)
  have inv2: "tb_inv c valid bytes good C b2 ds seps' (cur @ [(k, v)])"
    using inv sp bb_kvs_Add [OF i(3)] filter_inv_add [OF i(4)] unfolding tb_inv_def by (simp add: b2_def)
  show thesis
  proof (cases "CurrentSizeEstimate (tb_data_block b2) \<ge> block_size (tb_options b2)")
    case True
    then have fl: "TableBuilder_Add C W k v b = TableBuilder_Flush C W b2" using add by simp
    show thesis
      by (rule Flush_inv [OF inv2]) (use fl small that in \<open>auto simp: b2_def\<close>)
  next
    case False
    then show thesis using that [of ds seps' "cur @ [(k, v)]" "[]"] inv2 add by (simp add: b2_def)
  qed
qed

lemma Finish_filter_block_ok:
  assumes "tb_status b = OK" "good (tb_file b)" "tb_offset b = of_nat (length (bytes (tb_file b)))"
    and fi: "filter_inv (tb_options b) (tb_filter_block b) off ds cur"
  obtains fh f fb ext where "Finish_filter_block W b =
      (fh, b\<lparr> tb_file := f, tb_status := OK, tb_offset := of_nat (length (bytes f)), tb_filter_block := fb \<rparr>)"
    "good f" "bytes f = bytes (tb_file b) @ ext" "filter_stored C (bytes f) (opt_filter_policy (tb_options b)) fh ds"
    "fb = None \<longleftrightarrow> opt_filter_policy (tb_options b) = None"
proof (cases "tb_filter_block b")
  case None
  moreover have "b\<lparr> tb_file := tb_file b, tb_status := OK, tb_offset := of_nat (length (bytes (tb_file b))), tb_filter_block := None \<rparr> = b"
    using assms(1,3) None by (cases b) simp
  ultimately show thesis
    using that [of BlockHandle_new None "tb_file b" "[]"] assms fi
    by (simp add: Finish_filter_block_def filter_inv_def filter_stored_def)
next
  case (Some fl)
  let ?z = "fst (FilterBlockBuilder_Finish fl)"
  obtain fs pend where p: "opt_filter_policy (tb_options b) = Some (fb_policy fl)" "filter_policy (fb_policy fl)"
    "fb_holds fl fs pend" "\<forall>d \<in> set ds. covers (fs @ [pend]) (bh_offset (fst d), map fst (snd d))"
    using fi by (auto simp: filter_inv_def Some)
  obtain f where f: "WriteRawBlock W ?z kNoCompression b =
      (\<lparr> bh_offset = of_nat (length (bytes (tb_file b))), bh_size = of_nat (length ?z) \<rparr>,
       b\<lparr> tb_file := f, tb_status := OK, tb_offset := of_nat (length (bytes f)) \<rparr>)"
    "good f" "bytes f = bytes (tb_file b) @ block_image ?z kNoCompression"
    using WriteRawBlock_ok [OF assms(2,3)] .
  let ?h = "\<lparr> bh_offset = of_nat (length (bytes (tb_file b))), bh_size = of_nat (length ?z) \<rparr> :: BlockHandle"
  have "stored_block C (bytes f) ?h ?z"
    unfolding stored_block_def f(3)
    by (intro exI [of _ "bytes (tb_file b)"] exI [of _ ?z] exI [of _ kNoCompression] exI [of _ "[]"]) (simp add: decoded_def)
  moreover have "FilterBlockReader_KeyMayMatch (FilterBlockReader_new (fb_policy fl) ?z) (bh_offset (fst d)) (fst e)"
    if "d \<in> set ds" "e \<in> set (snd d)" "length ?z < 2 ^ 32" for d e
    using Finish_may_match [OF p(2,3) p(4) [rule_format, OF that(1)], of "fst e"] that by simp
  ultimately have st: "filter_stored C (bytes f) (opt_filter_policy (tb_options b)) ?h ds"
    unfolding filter_stored_def p(1) option.case by blast
  have w: "Finish_filter_block W b = (?h, b\<lparr> tb_file := f, tb_status := OK, tb_offset := of_nat (length (bytes f)),
      tb_filter_block := Some (snd (FilterBlockBuilder_Finish fl)) \<rparr>)"
    by (simp add: Finish_filter_block_def Some assms(1) split_beta f(1))
  show thesis by (rule that [OF w f(2,3) st]) (simp add: p(1))
qed

lemma Finish_metaindex_block_ok:
  assumes "tb_status b = OK" "good (tb_file b)" "tb_offset b = of_nat (length (bytes (tb_file b)))"
    and "tb_filter_block b = None \<longleftrightarrow> opt_filter_policy (tb_options b) = None"
    and "1 \<le> block_restart_interval (tb_options b)"
  obtains mh f ext where "Finish_metaindex_block C W fh b =
      (mh, b\<lparr> tb_file := f, tb_status := OK, tb_offset := of_nat (length (bytes f)) \<rparr>)"
    "good f" "bytes f = bytes (tb_file b) @ ext"
    "block_holds C (bytes f) mh (meta_kvs (opt_filter_policy (tb_options b)) fh)"
proof -
  let ?m = "case tb_filter_block b of
      Some f \<Rightarrow> BlockBuilder_Add (ascii ''filter.'' @ FilterName (the (opt_filter_policy (tb_options b))))
        (BlockHandle_EncodeTo [] fh) (BlockBuilder_new (block_restart_interval (tb_options b)))
    | None \<Rightarrow> BlockBuilder_new (block_restart_interval (tb_options b))"
  have "bb_kvs ?m (meta_kvs (opt_filter_policy (tb_options b)) fh)"
    using assms(4) bb_kvs_new [OF assms(5)] bb_kvs_Add [OF bb_kvs_new [OF assms(5)]]
    by (auto simp: meta_kvs_def split: option.splits)
  from WriteBlock_ok [OF assms(2,3) this] obtain f h ext where "WriteBlock C W ?m b =
      (h, BlockBuilder_Reset (snd (BlockBuilder_Finish ?m)),
       b\<lparr> tb_file := f, tb_status := OK, tb_offset := of_nat (length (bytes f)) \<rparr>)"
    "good f" "block_holds C (bytes f) h (meta_kvs (opt_filter_policy (tb_options b)) fh)" "bytes f = bytes (tb_file b) @ ext"
    by metis
  then show thesis using that [of h f ext] assms(1) by (simp add: Finish_metaindex_block_def Let_def)
qed

lemma Finish_index_block_ok:
  assumes inv: "tb_inv c valid bytes good C b0 ds seps []" and "tb_status b = OK" "good (tb_file b)"
    and off: "tb_offset b = of_nat (length (bytes (tb_file b)))"
    and same: "tb_options b = tb_options b0" "tb_index_block b = tb_index_block b0" "tb_last_key b = tb_last_key b0"
      "tb_pending_index_entry b = tb_pending_index_entry b0" "tb_pending_handle b = tb_pending_handle b0"
  obtains ih b' ext seps' where "Finish_index_block C W b = (ih, b')" "tb_status b' = OK" "good (tb_file b')"
    "bytes (tb_file b') = bytes (tb_file b) @ ext" "tb_offset b' = of_nat (length (bytes (tb_file b')))"
    "block_holds C (bytes (tb_file b')) ih (index_kvs ds seps')" "tb_plan c valid ds seps' []" "length seps' = length ds"
proof -
  let ?s = "FindShortSuccessor c (tb_last_key b0)"
  have c: "opt_comparator (tb_options b0) = c" using inv by (simp add: tb_inv_def)
  define b1 where "b1 = (if tb_pending_index_entry b0
      then b\<lparr> tb_last_key := ?s, tb_index_block := BlockBuilder_Add ?s (BlockHandle_EncodeTo [] (tb_pending_handle b0)) (tb_index_block b0),
             tb_pending_index_entry := False \<rparr>
      else b)"
  obtain seps' where sp: "bb_kvs (tb_index_block b1) (index_kvs ds seps')" "tb_plan c valid ds seps' []" "length seps' = length ds"
  proof (cases "tb_pending_index_entry b0")
    case True
    note l = last_key [OF inv True]
    have "valid (tb_last_key b0)" using inv l(4,5) by (auto simp: tb_inv_def tb_plan_def)
    then have "Compare c (tb_last_key b0) ?s \<le> 0" using successor by blast
    from index_entry [OF inv True this] show thesis using that [of "seps @ [?s]"] True l(2) by (simp add: b1_def)
  next
    case False
    then have "bb_kvs (tb_index_block b0) (index_kvs ds seps)" "tb_plan c valid ds seps []" "length seps = length ds"
      using inv by (auto simp: tb_inv_def)
    then show thesis using that [of seps] False same by (simp add: b1_def)
  qed
  have b1: "tb_file b1 = tb_file b" "tb_offset b1 = tb_offset b" by (simp_all add: b1_def)
  have "good (tb_file b1)" "tb_offset b1 = of_nat (length (bytes (tb_file b1)))" using assms(3) off b1 by simp_all
  from WriteBlock_ok [OF this sp(1)] obtain f h ext where f: "WriteBlock C W (tb_index_block b1) b1 =
      (h, BlockBuilder_Reset (snd (BlockBuilder_Finish (tb_index_block b1))),
       b1\<lparr> tb_file := f, tb_status := OK, tb_offset := of_nat (length (bytes f)) \<rparr>)"
    "good f" "block_holds C (bytes f) h (index_kvs ds seps')" "bytes f = bytes (tb_file b1) @ ext"
    by metis
  have "Finish_index_block C W b = (h, b1\<lparr> tb_file := f, tb_status := OK, tb_offset := of_nat (length (bytes f)),
      tb_index_block := BlockBuilder_Reset (snd (BlockBuilder_Finish (tb_index_block b1))) \<rparr>)"
    using assms(2) same c f(1) unfolding Finish_index_block_def b1_def by (simp add: Let_def split: if_splits)
  from that [OF this _ _ _ _ _ sp(2,3)] f(2-4) b1 show thesis by simp
qed

lemma Finish_grows: "grows (TableBuilder_Flush C W b) (snd (TableBuilder_Finish C W b))"
proof -
  let ?b1 = "(TableBuilder_Flush C W b)\<lparr> tb_closed := True \<rparr>"
  let ?r2 = "Finish_filter_block W ?b1"
  let ?r3 = "Finish_metaindex_block C W (fst ?r2) (snd ?r2)"
  let ?r4 = "Finish_index_block C W (snd ?r3)"
  let ?b5 = "Finish_footer W (fst ?r3) (fst ?r4) (snd ?r4)"
  have 2: "grows ?b1 (snd ?r2)"
    using WriteRawBlock_grows [OF refl, of ?b1]
    by (auto simp: Finish_filter_block_def split_beta grows_def Let_def split: option.splits)
  have 3: "grows b (snd (Finish_metaindex_block C W h b))" for h b
    using WriteBlock_grows [OF refl, of b] by (auto simp: Finish_metaindex_block_def split_beta grows_def Let_def)
  have 4: "grows b (snd (Finish_index_block C W b))" for b
    using WriteBlock_grows [of b "b\<lparr> tb_last_key := l, tb_index_block := i, tb_pending_index_entry := False \<rparr>" for l i]
      WriteBlock_grows [OF refl, of b]
    by (simp add: Finish_index_block_def split_beta grows_def Let_def)
  have 5: "grows b (Finish_footer W mh ih b)" for mh ih b
    using dst.append [of "tb_file b" "Footer_EncodeTo [] \<lparr> metaindex_handle = mh, index_handle = ih \<rparr>"]
    by (auto simp: Finish_footer_def split_beta grows_def Let_def)
  have "grows (TableBuilder_Flush C W b) ?b1" by (rule grows_refl) simp
  then have "grows (TableBuilder_Flush C W b) ?b5" using 2 3 4 5 grows_trans by meson
  then show ?thesis by (simp add: TableBuilder_Finish_def split_beta Let_def)
qed

lemma Flush_all:
  assumes "tb_inv c valid bytes good C b ds seps cur" "length (bytes (tb_file (TableBuilder_Flush C W b))) < 2 ^ 64"
  obtains ds' where "tb_inv c valid bytes good C (TableBuilder_Flush C W b) ds' seps []"
    "concat (map snd ds') = concat (map snd ds) @ cur" "tb_options (TableBuilder_Flush C W b) = tb_options b"
proof (cases "cur = []")
  case True
  then show thesis using that [of ds] assms(1) Flush_empty by simp
next
  case False
  obtain h where "tb_inv c valid bytes good C (TableBuilder_Flush C W b) (ds @ [(h, cur)]) seps []"
    "tb_options (TableBuilder_Flush C W b) = tb_options b"
    using Flush_inv [OF assms(1) False assms(2)] .
  then show thesis using that [of "ds @ [(h, cur)]"] by simp
qed

lemma Finish_table:
  assumes inv: "tb_inv c valid bytes good C b ds seps cur" and r: "1 \<le> block_restart_interval (tb_options b)"
    and small: "length (bytes (tb_file (snd (TableBuilder_Finish C W b)))) < 2 ^ 64"
  obtains ds' seps' where "fst (TableBuilder_Finish C W b) = OK"
    "table_file c valid C (opt_filter_policy (tb_options b)) (bytes (tb_file (snd (TableBuilder_Finish C W b)))) ds' seps'"
    "concat (map snd ds') = concat (map snd ds) @ cur"
    "good (tb_file (snd (TableBuilder_Finish C W b)))"
    "FileSize (snd (TableBuilder_Finish C W b)) = of_nat (length (bytes (tb_file (snd (TableBuilder_Finish C W b)))))"
proof -
  let ?b0 = "TableBuilder_Flush C W b"
  define b1 where "b1 = ?b0\<lparr> tb_closed := True \<rparr>"
  let ?p = "opt_filter_policy (tb_options b)"
  have "good (tb_file b)" using inv by (simp add: tb_inv_def)
  then have "good (tb_file ?b0)" using Flush_grows [OF refl, of b] by (simp add: grows_def)
  from Flush_all [OF inv grows_length [OF Finish_grows this small]]
  obtain ds' where inv1: "tb_inv c valid bytes good C b1 ds' seps []" and kvs: "concat (map snd ds') = concat (map snd ds) @ cur"
    and o1: "tb_options b1 = tb_options b"
    unfolding b1_def by auto
  have i1: "tb_status b1 = OK" "good (tb_file b1)" "tb_offset b1 = of_nat (length (bytes (tb_file b1)))"
    "filter_inv (tb_options b1) (tb_filter_block b1) (tb_offset b1) ds' []" "tb_blocks C (bytes (tb_file b1)) ds'"
    using inv1 by (auto simp: tb_inv_def)
  obtain fh f2 fb x2 where f2: "Finish_filter_block W b1 =
      (fh, b1\<lparr> tb_file := f2, tb_status := OK, tb_offset := of_nat (length (bytes f2)), tb_filter_block := fb \<rparr>)"
    "good f2" "bytes f2 = bytes (tb_file b1) @ x2" "filter_stored C (bytes f2) ?p fh ds'" "fb = None \<longleftrightarrow> ?p = None"
    using Finish_filter_block_ok [OF i1(1-4)] unfolding o1 .
  define b2 where "b2 = b1\<lparr> tb_file := f2, tb_status := OK, tb_offset := of_nat (length (bytes f2)), tb_filter_block := fb \<rparr>"
  have i2: "tb_status b2 = OK" "good (tb_file b2)" "tb_offset b2 = of_nat (length (bytes (tb_file b2)))"
    "tb_filter_block b2 = None \<longleftrightarrow> opt_filter_policy (tb_options b2) = None" "1 \<le> block_restart_interval (tb_options b2)"
    using f2 o1 r by (simp_all add: b2_def)
  obtain mh f3 x3 where f3: "Finish_metaindex_block C W fh b2 =
      (mh, b2\<lparr> tb_file := f3, tb_status := OK, tb_offset := of_nat (length (bytes f3)) \<rparr>)"
    "good f3" "bytes f3 = bytes (tb_file b2) @ x3" "block_holds C (bytes f3) mh (meta_kvs (opt_filter_policy (tb_options b2)) fh)"
    using Finish_metaindex_block_ok [OF i2] .
  define b3 where "b3 = b2\<lparr> tb_file := f3, tb_status := OK, tb_offset := of_nat (length (bytes f3)) \<rparr>"
  have i3: "tb_status b3 = OK" "good (tb_file b3)" "tb_offset b3 = of_nat (length (bytes (tb_file b3)))"
    using f3 by (simp_all add: b3_def)
  have e3: "tb_options b3 = tb_options b1" "tb_index_block b3 = tb_index_block b1" "tb_last_key b3 = tb_last_key b1"
    "tb_pending_index_entry b3 = tb_pending_index_entry b1" "tb_pending_handle b3 = tb_pending_handle b1"
    by (simp_all add: b3_def b2_def)
  obtain ih b4 x4 seps' where f4: "Finish_index_block C W b3 = (ih, b4)" "tb_status b4 = OK" "good (tb_file b4)"
    "bytes (tb_file b4) = bytes (tb_file b3) @ x4" "tb_offset b4 = of_nat (length (bytes (tb_file b4)))"
    "block_holds C (bytes (tb_file b4)) ih (index_kvs ds' seps')" "tb_plan c valid ds' seps' []" "length seps' = length ds'"
    using Finish_index_block_ok [OF inv1 i3 e3] .
  let ?foot = "Footer_EncodeTo [] \<lparr> metaindex_handle = mh, index_handle = ih \<rparr>"
  obtain f5 where f5: "WF_Append W (tb_file b4) ?foot = (OK, f5)" "bytes f5 = bytes (tb_file b4) @ ?foot" "good f5"
    using dst.append_obtain [OF f4(3)] by blast
  have fin: "TableBuilder_Finish C W b = (OK, b4\<lparr> tb_file := f5, tb_status := OK, tb_offset := of_nat (length (bytes f5)) \<rparr>)"
    unfolding TableBuilder_Finish_def Let_def b1_def [symmetric] f2(1) prod.case b2_def [symmetric] f3(1) b3_def [symmetric] f4(1)
    by (simp add: Finish_footer_def f4(2,5) f5)
  have e: "bytes f5 = bytes f2 @ x3 @ x4 @ ?foot" "bytes f5 = bytes f3 @ x4 @ ?foot" "bytes f5 = bytes (tb_file b4) @ ?foot"
    "bytes f5 = bytes (tb_file b1) @ x2 @ x3 @ x4 @ ?foot"
    using f2(3) f3(3) f4(4) f5(2) by (simp_all add: b2_def b3_def)
  have "block_holds C (bytes f5) ih (index_kvs ds' seps')" unfolding e(3) by (rule block_holds_append [OF f4(6)])
  moreover have "block_holds C (bytes f5) mh (meta_kvs ?p fh)"
    unfolding e(2) using block_holds_append [OF f3(4)] o1 by (simp add: b2_def)
  moreover have "filter_stored C (bytes f5) ?p fh ds'" unfolding e(1) by (rule filter_stored_append [OF f2(4)])
  moreover have "tb_blocks C (bytes f5) ds'" unfolding e(4) by (rule tb_blocks_append [OF i1(5)])
  ultimately have "table_file c valid C ?p (bytes f5) ds' seps'"
    unfolding table_file_def using f4(7,8) e(3) by blast
  then show thesis
    using that kvs f5(3) by (simp add: fin FileSize_def)
qed

lemma new_inv:
  assumes "good f" "bytes f = []" "opt_comparator options = c" "1 \<le> block_restart_interval options"
    and "\<forall>p. opt_filter_policy options = Some p \<longrightarrow> filter_policy p"
  shows "tb_inv c valid bytes good C (TableBuilder_new options f) [] [] []"
proof -
  have fl: "filter_inv options (map_option (\<lambda>policy. StartBlock 0 (FilterBlockBuilder_new policy)) (opt_filter_policy options)) 0 [] []"
  proof (cases "opt_filter_policy options")
    case (Some p)
    have b: "StartBlock 0 (FilterBlockBuilder_new p) = FilterBlockBuilder_new p"
      by (simp add: StartBlock_def StartBlock_loop.simps FilterBlockBuilder_new_def)
    have "fb_policy (FilterBlockBuilder_new p) = p" by (simp add: FilterBlockBuilder_new_def)
    then show ?thesis
      using new_holds [of p] assms(5) Some unfolding filter_inv_def
      by (auto simp: b covers_def intro!: exI [of _ "[]"])
  qed (simp add: filter_inv_def)
  then show ?thesis
    using assms bb_kvs_new [of 1] bb_kvs_new [OF assms(4)]
    by (simp add: tb_inv_def TableBuilder_new_def tb_plan_def tb_blocks_def index_kvs_def separated_def sorted_kvs_def)
qed

abbreviation add_all :: "kv list \<Rightarrow> 'w TableBuilder \<Rightarrow> 'w TableBuilder" where
  "add_all kvs b \<equiv> fold (\<lambda>(k, v). TableBuilder_Add C W k v) kvs b"

lemma add_all_grows: "grows b (add_all kvs b)"
proof (induction kvs arbitrary: b)
  case (Cons e kvs)
  show ?case using grows_trans [OF Add_grows [of b "fst e" "snd e"] Cons.IH] by (simp add: split_beta)
qed (simp add: grows_refl)

lemma add_all_inv:
  assumes "tb_inv c valid bytes good C b ds seps cur" "sorted_kvs (Compare c) ((concat (map snd ds) @ cur) @ kvs)"
    and "\<forall>e \<in> set kvs. valid (fst e)" "length (bytes (tb_file (add_all kvs b))) < 2 ^ 64"
  shows "\<exists>ds' seps' cur'. tb_inv c valid bytes good C (add_all kvs b) ds' seps' cur' \<and>
    concat (map snd ds') @ cur' = (concat (map snd ds) @ cur) @ kvs \<and> tb_options (add_all kvs b) = tb_options b"
  using assms
proof (induction kvs arbitrary: b ds seps cur)
  case (Cons e kvs)
  obtain k v where e: "e = (k, v)" by (cases e)
  let ?b = "TableBuilder_Add C W k v b"
  have g: "good (tb_file b)" using Cons.prems(1) by (simp add: tb_inv_def)
  then have "good (tb_file ?b)" using Add_grows [of b k v] by (simp add: grows_def)
  then have sz: "length (bytes (tb_file ?b)) < 2 ^ 64"
    using grows_length [OF add_all_grows [of ?b kvs]] Cons.prems(4) by (simp add: e)
  have above: "\<forall>x \<in> set (concat (map snd ds) @ cur). Compare c (fst x) k < 0"
    using Cons.prems(2) by (auto simp: sorted_kvs_def sorted_wrt_append e)
  have "valid k" using Cons.prems(3) by (simp add: e)
  from Add_inv [OF Cons.prems(1) this above sz]
  obtain ds1 seps1 cur1 where a: "tb_inv c valid bytes good C ?b ds1 seps1 cur1"
    "concat (map snd ds1) @ cur1 = (concat (map snd ds) @ cur) @ [(k, v)]" "tb_options ?b = tb_options b" .
  have "sorted_kvs (Compare c) ((concat (map snd ds1) @ cur1) @ kvs)" unfolding a(2) using Cons.prems(2) by (simp add: e)
  from Cons.IH [OF a(1) this] Cons.prems(3,4) a(2,3) show ?case by (simp add: e)
qed (use assms in auto)

lemma built_table:
  assumes "sorted_kvs (Compare c) kvs" "\<forall>e \<in> set kvs. valid (fst e)"
    and "good f" "bytes f = []" "opt_comparator options = c" "1 \<le> block_restart_interval options"
    and "\<forall>p. opt_filter_policy options = Some p \<longrightarrow> filter_policy p"
    and "(s, b) = TableBuilder_Finish C W (add_all kvs (TableBuilder_new options f))"
    and "length (bytes (tb_file b)) < 2 ^ 64"
  obtains ds seps where "s = OK" "table_file c valid C (opt_filter_policy options) (bytes (tb_file b)) ds seps"
    "concat (map snd ds) = kvs" "good (tb_file b)" "FileSize b = of_nat (length (bytes (tb_file b)))"
proof -
  let ?n = "TableBuilder_new options f"
  let ?a = "add_all kvs ?n"
  have b: "s = fst (TableBuilder_Finish C W ?a)" "b = snd (TableBuilder_Finish C W ?a)"
    using assms(8) by (metis fst_conv, metis snd_conv)
  have "good (tb_file ?n)" using assms(3) by (simp add: TableBuilder_new_def)
  moreover have g: "grows ?a b" unfolding b using grows_trans [OF Flush_grows [OF refl] Finish_grows] .
  ultimately have "length (bytes (tb_file ?a)) < 2 ^ 64"
    using grows_length [OF g _ assms(9)] add_all_grows [of ?n kvs] by (simp add: grows_def)
  from add_all_inv [OF new_inv [OF assms(3-7)] _ assms(2) this] assms(1)
  obtain ds seps cur where a: "tb_inv c valid bytes good C ?a ds seps cur" "concat (map snd ds) @ cur = kvs"
    "tb_options ?a = options"
    by (auto simp: TableBuilder_new_def)
  show thesis
    by (rule Finish_table [OF a(1)]) (use a(2,3) assms(6,9) b that in auto)
qed

end

section \<open>File sizes\<close>

context table_writer
begin

abbreviation fsize :: "'w TableBuilder \<Rightarrow> nat" where
  "fsize b \<equiv> length (bytes (tb_file b))"

lemma WriteRawBlock_size:
  "good (tb_file b) \<Longrightarrow> good (tb_file (snd (WriteRawBlock W z type b))) \<and> fsize (snd (WriteRawBlock W z type b)) = fsize b + length z + 5"
proof -
  assume g: "good (tb_file b)"
  let ?tr = "CompressionType_num type # EncodeFixed32 (Mask (Extend (Value z) [CompressionType_num type]))"
  obtain f1 where f1: "WF_Append W (tb_file b) z = (OK, f1)" "bytes f1 = bytes (tb_file b) @ z" "good f1"
    using dst.append_obtain [OF g] by blast
  obtain f where "WF_Append W f1 ?tr = (OK, f)" "bytes f = bytes f1 @ ?tr" "good f"
    using dst.append_obtain [OF f1(3)] by blast
  with f1 show ?thesis by (simp add: WriteRawBlock_def)
qed

lemma WriteBlock_size:
  assumes "good (tb_file b)"
  shows "good (tb_file (snd (snd (WriteBlock C W blk b)))) \<and> fsize (snd (snd (WriteBlock C W blk b))) \<le> fsize b + CurrentSizeEstimate blk + 5"
proof -
  obtain z type where z: "block_form C (tb_options b) (fst (BlockBuilder_Finish blk)) = (z, type)" by fastforce
  from block_form_length [OF this] WriteRawBlock_size [OF assms, of z type] show ?thesis
    by (simp add: WriteBlock_def split_beta z CurrentSizeEstimate_Finish)
qed

lemma Flush_size:
  assumes "good (tb_file b)"
  shows "good (tb_file (TableBuilder_Flush C W b)) \<and> fsize (TableBuilder_Flush C W b) \<le> fsize b + CurrentSizeEstimate (tb_data_block b) + 5"
proof -
  let ?b = "snd (snd (WriteBlock C W (tb_data_block b) b))"
  note w = WriteBlock_size [OF assms, of "tb_data_block b"]
  with dst.flush [of "tb_file ?b"] have "good (snd (WF_Flush W (tb_file ?b)))" "bytes (snd (WF_Flush W (tb_file ?b))) = bytes (tb_file ?b)" by auto
  then show ?thesis using assms w by (auto simp: TableBuilder_Flush_def Let_def split_beta)
qed

lemma write_same:
  "tb_index_block (snd (WriteRawBlock W z type b)) = tb_index_block b" "tb_last_key (snd (WriteRawBlock W z type b)) = tb_last_key b"
  "tb_options (snd (WriteRawBlock W z type b)) = tb_options b" "tb_filter_block (snd (WriteRawBlock W z type b)) = tb_filter_block b"
  "tb_index_block (snd (snd (WriteBlock C W blk b))) = tb_index_block b" "tb_last_key (snd (snd (WriteBlock C W blk b))) = tb_last_key b"
  "tb_options (snd (snd (WriteBlock C W blk b))) = tb_options b" "tb_filter_block (snd (snd (WriteBlock C W blk b))) = tb_filter_block b"
  by (simp_all add: WriteBlock_def WriteRawBlock_def split_beta Let_def)

lemma flush_same:
  "tb_index_block (TableBuilder_Flush C W b) = tb_index_block b" "tb_last_key (TableBuilder_Flush C W b) = tb_last_key b"
  "tb_options (TableBuilder_Flush C W b) = tb_options b"
  "tb_filter_block b = None \<Longrightarrow> tb_filter_block (TableBuilder_Flush C W b) = None"
  by (simp_all add: TableBuilder_Flush_def split_beta Let_def write_same)

lemma Finish_size:
  assumes g: "good (tb_file b)" and f: "tb_filter_block b = None" and c: "opt_comparator (tb_options b) = c"
  shows "fsize (snd (TableBuilder_Finish C W b)) \<le> fsize b + CurrentSizeEstimate (tb_data_block b) +
    CurrentSizeEstimate (tb_index_block b) + length (FindShortSuccessor c (tb_last_key b)) + 150"
proof -
  let ?b1 = "(TableBuilder_Flush C W b)\<lparr> tb_closed := True \<rparr>"
  let ?m = "BlockBuilder_new (block_restart_interval (tb_options b))"
  have same: "tb_index_block ?b1 = tb_index_block b" "tb_last_key ?b1 = tb_last_key b" "tb_options ?b1 = tb_options b"
    "tb_filter_block ?b1 = None" using f by (simp_all add: flush_same)
  have s1: "good (tb_file ?b1)" "fsize ?b1 \<le> fsize b + CurrentSizeEstimate (tb_data_block b) + 5"
    using Flush_size [OF g] by simp_all
  have ff: "Finish_filter_block W ?b1 = (BlockHandle_new, ?b1)" using same(4) by (simp add: Finish_filter_block_def)
  define r2 where "r2 = Finish_metaindex_block C W BlockHandle_new ?b1"
  have s2: "good (tb_file (snd r2))" "fsize (snd r2) \<le> fsize ?b1 + 13" and e2: "tb_index_block (snd r2) = tb_index_block b"
    "tb_last_key (snd r2) = tb_last_key b" "tb_options (snd r2) = tb_options b"
    using WriteBlock_size [OF s1(1), of ?m] same s1(1)
    by (auto simp: r2_def Finish_metaindex_block_def split_beta Let_def write_same CurrentSizeEstimate_def BlockBuilder_new_def)
  define r3 where "r3 = Finish_index_block C W (snd r2)"
  let ?s = "FindShortSuccessor c (tb_last_key b)" and ?h = "BlockHandle_EncodeTo [] (tb_pending_handle (snd r2))"
  let ?b2 = "(snd r2)\<lparr> tb_last_key := ?s, tb_index_block := BlockBuilder_Add ?s ?h (tb_index_block b), tb_pending_index_entry := False \<rparr>"
  have w1: "good (tb_file (snd (snd (WriteBlock C W (BlockBuilder_Add ?s ?h (tb_index_block b)) ?b2))))"
      "fsize (snd (snd (WriteBlock C W (BlockBuilder_Add ?s ?h (tb_index_block b)) ?b2))) \<le>
         fsize (snd r2) + CurrentSizeEstimate (tb_index_block b) + length ?s + 44"
    using WriteBlock_size [of ?b2 "BlockBuilder_Add ?s ?h (tb_index_block b)"] s2(1) length_BlockHandle [of "tb_pending_handle (snd r2)"]
      CurrentSizeEstimate_Add [of ?s ?h "tb_index_block b"] by (simp_all add: kMaxEncodedLength_def)
  have s3: "good (tb_file (snd r3)) \<and> fsize (snd r3) \<le> fsize (snd r2) + CurrentSizeEstimate (tb_index_block b) + length ?s + 44"
    using w1 WriteBlock_size [OF s2(1), of "tb_index_block b"] s2(1) e2 c
    by (auto simp: r3_def Finish_index_block_def split_beta Let_def)
  let ?foot = "Footer_EncodeTo [] \<lparr> metaindex_handle = fst r2, index_handle = fst r3 \<rparr>"
  have "fsize (Finish_footer W (fst r2) (fst r3) (snd r3)) \<le> fsize (snd r3) + 48"
    using dst.append [of "tb_file (snd r3)" ?foot] s3
    by (auto simp: Finish_footer_def split_beta Let_def kEncodedLength_def kMaxEncodedLength_def)
  moreover have "snd (TableBuilder_Finish C W b) = Finish_footer W (fst r2) (fst r3) (snd r3)"
    by (simp add: TableBuilder_Finish_def split_beta Let_def ff r2_def r3_def)
  ultimately show ?thesis using s1 s2 s3 by simp
qed

end

interpretation mem_table: table_writer BytewiseComparator "\<lambda>_. True" MemWritableFile fs_bytes fs_inv port_no_codec
  by unfold_locales (simp add: port_no_codec_def)

end
