(* ===== verification/TwoLevel.thy ===== *)
theory TwoLevel
  imports Iterator
begin

text \<open>
  \<open>table/two_level_iterator.cc\<close>: an iterator over an index whose values name blocks, and over the
  blocks themselves.  Whether the loops that skip empty blocks end depends on the index iterator,
  so they are partial (\<^term>\<open>None\<close> when they run for ever), and the state of the iterator is \<^term>\<open>None\<close>
  from then on.
\<close>

section \<open>Definitions\<close>

record ('i, 'd) TwoLevelIter =
  tl_status :: Status
  tl_index_iter :: "'i IteratorWrapper"
  tl_data_iter :: "'d IteratorWrapper"
  tl_data_block_handle :: slice

definition TwoLevelIter_new :: "'i Iterator \<Rightarrow> 'i \<Rightarrow> ('i, 'd) TwoLevelIter" where
  "TwoLevelIter_new I index_iter =
     \<lparr> tl_status = OK, tl_index_iter = IteratorWrapper_Set I (Some index_iter) IteratorWrapper_new,
       tl_data_iter = IteratorWrapper_new, tl_data_block_handle = [] \<rparr>"

definition SaveError :: "Status \<Rightarrow> ('i, 'd) TwoLevelIter \<Rightarrow> ('i, 'd) TwoLevelIter" where
  "SaveError s t = (if ok (tl_status t) \<and> \<not> ok s then t\<lparr> tl_status := s \<rparr> else t)"

definition SetDataIterator :: "'d Iterator \<Rightarrow> 'd option \<Rightarrow> ('i, 'd) TwoLevelIter \<Rightarrow> ('i, 'd) TwoLevelIter" where
  "SetDataIterator D data_iter t =
     (let t = (case iw_iter (tl_data_iter t) of
                 None \<Rightarrow> t
               | Some _ \<Rightarrow> SaveError (it_status (IteratorWrapper D) (tl_data_iter t)) t)
      in t\<lparr> tl_data_iter := IteratorWrapper_Set D data_iter (tl_data_iter t) \<rparr>)"

definition InitDataBlock ::
    "'i Iterator \<Rightarrow> 'd Iterator \<Rightarrow> (slice \<Rightarrow> 'd) \<Rightarrow> ('i, 'd) TwoLevelIter \<Rightarrow> ('i, 'd) TwoLevelIter" where
  "InitDataBlock I D block_function t =
     (if \<not> iw_valid (tl_index_iter t) then SetDataIterator D None t
      else
        (let handle = it_value (IteratorWrapper I) (tl_index_iter t)
         in if iw_iter (tl_data_iter t) \<noteq> None \<and> Slice_compare handle (tl_data_block_handle t) = 0 then t
            else SetDataIterator D (Some (block_function handle)) (t\<lparr> tl_data_block_handle := handle \<rparr>)))"

text \<open>\<open>if (data_iter_.iter() != nullptr) data_iter_.f()\<close>\<close>

definition on_data ::
    "'d Iterator \<Rightarrow> ('d IteratorWrapper \<Rightarrow> 'd IteratorWrapper) \<Rightarrow> ('i, 'd) TwoLevelIter \<Rightarrow> ('i, 'd) TwoLevelIter" where
  "on_data D f t =
     (if iw_iter (tl_data_iter t) \<noteq> None then t\<lparr> tl_data_iter := f (tl_data_iter t) \<rparr> else t)"

partial_function (option) SkipEmptyDataBlocksForward ::
    "'i Iterator \<Rightarrow> 'd Iterator \<Rightarrow> (slice \<Rightarrow> 'd) \<Rightarrow> ('i, 'd) TwoLevelIter \<Rightarrow> ('i, 'd) TwoLevelIter option" where
  "SkipEmptyDataBlocksForward I D block_function t =
     (if iw_iter (tl_data_iter t) = None \<or> \<not> iw_valid (tl_data_iter t) then
        (if \<not> iw_valid (tl_index_iter t) then Some (SetDataIterator D None t)
         else SkipEmptyDataBlocksForward I D block_function
                (on_data D (it_SeekToFirst (IteratorWrapper D))
                  (InitDataBlock I D block_function
                    (t\<lparr> tl_index_iter := it_Next (IteratorWrapper I) (tl_index_iter t) \<rparr>))))
      else Some t)"

partial_function (option) SkipEmptyDataBlocksBackward ::
    "'i Iterator \<Rightarrow> 'd Iterator \<Rightarrow> (slice \<Rightarrow> 'd) \<Rightarrow> ('i, 'd) TwoLevelIter \<Rightarrow> ('i, 'd) TwoLevelIter option" where
  "SkipEmptyDataBlocksBackward I D block_function t =
     (if iw_iter (tl_data_iter t) = None \<or> \<not> iw_valid (tl_data_iter t) then
        (if \<not> iw_valid (tl_index_iter t) then Some (SetDataIterator D None t)
         else SkipEmptyDataBlocksBackward I D block_function
                (on_data D (it_SeekToLast (IteratorWrapper D))
                  (InitDataBlock I D block_function
                    (t\<lparr> tl_index_iter := it_Prev (IteratorWrapper I) (tl_index_iter t) \<rparr>))))
      else Some t)"

definition TwoLevel_Seek ::
    "'i Iterator \<Rightarrow> 'd Iterator \<Rightarrow> (slice \<Rightarrow> 'd) \<Rightarrow> slice \<Rightarrow> ('i, 'd) TwoLevelIter \<Rightarrow> ('i, 'd) TwoLevelIter option" where
  "TwoLevel_Seek I D block_function target t =
     (let t = t\<lparr> tl_index_iter := it_Seek (IteratorWrapper I) target (tl_index_iter t) \<rparr>;
          t = InitDataBlock I D block_function t;
          t = on_data D (it_Seek (IteratorWrapper D) target) t
      in SkipEmptyDataBlocksForward I D block_function t)"

definition TwoLevel_SeekToFirst ::
    "'i Iterator \<Rightarrow> 'd Iterator \<Rightarrow> (slice \<Rightarrow> 'd) \<Rightarrow> ('i, 'd) TwoLevelIter \<Rightarrow> ('i, 'd) TwoLevelIter option" where
  "TwoLevel_SeekToFirst I D block_function t =
     (let t = t\<lparr> tl_index_iter := it_SeekToFirst (IteratorWrapper I) (tl_index_iter t) \<rparr>;
          t = InitDataBlock I D block_function t;
          t = on_data D (it_SeekToFirst (IteratorWrapper D)) t
      in SkipEmptyDataBlocksForward I D block_function t)"

definition TwoLevel_SeekToLast ::
    "'i Iterator \<Rightarrow> 'd Iterator \<Rightarrow> (slice \<Rightarrow> 'd) \<Rightarrow> ('i, 'd) TwoLevelIter \<Rightarrow> ('i, 'd) TwoLevelIter option" where
  "TwoLevel_SeekToLast I D block_function t =
     (let t = t\<lparr> tl_index_iter := it_SeekToLast (IteratorWrapper I) (tl_index_iter t) \<rparr>;
          t = InitDataBlock I D block_function t;
          t = on_data D (it_SeekToLast (IteratorWrapper D)) t
      in SkipEmptyDataBlocksBackward I D block_function t)"

definition TwoLevel_Next ::
    "'i Iterator \<Rightarrow> 'd Iterator \<Rightarrow> (slice \<Rightarrow> 'd) \<Rightarrow> ('i, 'd) TwoLevelIter \<Rightarrow> ('i, 'd) TwoLevelIter option" where
  "TwoLevel_Next I D block_function t =
     SkipEmptyDataBlocksForward I D block_function
       (t\<lparr> tl_data_iter := it_Next (IteratorWrapper D) (tl_data_iter t) \<rparr>)"

definition TwoLevel_Prev ::
    "'i Iterator \<Rightarrow> 'd Iterator \<Rightarrow> (slice \<Rightarrow> 'd) \<Rightarrow> ('i, 'd) TwoLevelIter \<Rightarrow> ('i, 'd) TwoLevelIter option" where
  "TwoLevel_Prev I D block_function t =
     SkipEmptyDataBlocksBackward I D block_function
       (t\<lparr> tl_data_iter := it_Prev (IteratorWrapper D) (tl_data_iter t) \<rparr>)"

definition TwoLevel_status :: "'i Iterator \<Rightarrow> 'd Iterator \<Rightarrow> ('i, 'd) TwoLevelIter \<Rightarrow> Status" where
  "TwoLevel_status I D t =
     (if \<not> ok (it_status (IteratorWrapper I) (tl_index_iter t)) then it_status (IteratorWrapper I) (tl_index_iter t)
      else if iw_iter (tl_data_iter t) \<noteq> None \<and> \<not> ok (it_status (IteratorWrapper D) (tl_data_iter t))
      then it_status (IteratorWrapper D) (tl_data_iter t)
      else tl_status t)"

definition TwoLevelIterator :: "'i Iterator \<Rightarrow> 'd Iterator \<Rightarrow> (slice \<Rightarrow> 'd) \<Rightarrow> ('i, 'd) TwoLevelIter option Iterator" where
  "TwoLevelIterator I D block_function =
     \<lparr> it_Valid = (\<lambda>s. case s of None \<Rightarrow> False | Some t \<Rightarrow> iw_valid (tl_data_iter t)),
       it_SeekToFirst = (\<lambda>s. Option.bind s (TwoLevel_SeekToFirst I D block_function)),
       it_SeekToLast = (\<lambda>s. Option.bind s (TwoLevel_SeekToLast I D block_function)),
       it_Seek = (\<lambda>target s. Option.bind s (TwoLevel_Seek I D block_function target)),
       it_Next = (\<lambda>s. Option.bind s (TwoLevel_Next I D block_function)),
       it_Prev = (\<lambda>s. Option.bind s (TwoLevel_Prev I D block_function)),
       it_key = (\<lambda>s. it_key (IteratorWrapper D) (tl_data_iter (the s))),
       it_value = (\<lambda>s. it_value (IteratorWrapper D) (tl_data_iter (the s))),
       it_status = (\<lambda>s. TwoLevel_status I D (the s)) \<rparr>"

definition NewTwoLevelIterator :: "'i Iterator \<Rightarrow> 'i \<Rightarrow> ('i, 'd) TwoLevelIter option" where
  "NewTwoLevelIterator I index_iter = Some (TwoLevelIter_new I index_iter)"

section \<open>The layout of the blocks\<close>

text \<open>
  \<open>idx\<close> are the index entries, a separator and a handle each, and \<open>content\<close> the entries of the block
  a handle names: not above its separator, and above every earlier one.
\<close>

definition blocks_of :: "(slice \<Rightarrow> kv list) \<Rightarrow> kv list \<Rightarrow> kv list list" where
  "blocks_of content idx = map (\<lambda>e. content (snd e)) idx"

definition tl_layout :: "(slice \<Rightarrow> slice \<Rightarrow> int) \<Rightarrow> (slice \<Rightarrow> kv list) \<Rightarrow> kv list \<Rightarrow> kv list \<Rightarrow> bool" where
  "tl_layout cmp content idx kvs \<longleftrightarrow>
     kvs = concat (blocks_of content idx) \<and> sorted_kvs cmp kvs \<and> sorted_kvs cmp idx \<and>
     (\<forall>j < length idx. \<forall>e \<in> set (content (snd (idx ! j))). cmp (fst e) (fst (idx ! j)) \<le> 0) \<and>
     (\<forall>j l. j < l \<longrightarrow> l < length idx \<longrightarrow> (\<forall>e \<in> set (content (snd (idx ! l))). cmp (fst (idx ! j)) (fst e) < 0))"

definition boff :: "(slice \<Rightarrow> kv list) \<Rightarrow> kv list \<Rightarrow> nat \<Rightarrow> nat" where
  "boff content idx j = length (concat (blocks_of content (take j idx)))"

lemma boff_0 [simp]: "boff content idx 0 = 0"
  by (simp add: boff_def blocks_of_def)

lemma boff_length: "boff content idx (length idx) = length (concat (blocks_of content idx))"
  by (simp add: boff_def)

lemma boff_Suc: "j < length idx \<Longrightarrow> boff content idx (Suc j) = boff content idx j + length (content (snd (idx ! j)))"
  by (simp add: boff_def blocks_of_def take_Suc_conv_app_nth)

lemma blocks_split:
  "j < length idx \<Longrightarrow> concat (blocks_of content idx) =
     concat (blocks_of content (take j idx)) @ content (snd (idx ! j)) @ concat (blocks_of content (drop (Suc j) idx))"
  unfolding blocks_of_def by (metis (no_types, lifting) concat.simps(2) concat_append id_take_nth_drop list.simps(9) map_append)

lemma boff_nth:
  assumes "j < length idx" "p < length (content (snd (idx ! j)))"
  shows "concat (blocks_of content idx) ! (boff content idx j + p) = content (snd (idx ! j)) ! p"
    and "boff content idx j + p < length (concat (blocks_of content idx))"
  using blocks_split [OF assms(1), of content] assms(2) by (simp_all add: boff_def nth_append)

context three_way
begin

lemma lower_bound_append:
  "lower_bound cmp t (a @ b) =
     (if \<forall>e \<in> set a. cmp (fst e) t < 0 then length a + lower_bound cmp t b else lower_bound cmp t a)"
  unfolding lower_bound_def by (auto simp: takeWhile_append1 takeWhile_append2)

lemma lower_bound_0: "\<forall>e \<in> set xs. \<not> cmp (fst e) t < 0 \<Longrightarrow> lower_bound cmp t xs = 0"
  by (cases xs) (auto simp: lower_bound_def)

lemma lower_bound_all: "\<forall>e \<in> set xs. cmp (fst e) t < 0 \<Longrightarrow> lower_bound cmp t xs = length xs"
  using lower_bound_append [of t xs "[]"] by (simp add: lower_bound_def)

end

section \<open>The cursor\<close>

definition tl_state ::
    "(slice \<Rightarrow> slice \<Rightarrow> int) \<Rightarrow> 'i Iterator \<Rightarrow> ('i \<Rightarrow> kv list \<Rightarrow> nat \<Rightarrow> bool) \<Rightarrow> 'd Iterator \<Rightarrow>
     ('d \<Rightarrow> kv list \<Rightarrow> nat \<Rightarrow> bool) \<Rightarrow> (slice \<Rightarrow> 'd) \<Rightarrow> (slice \<Rightarrow> kv list) \<Rightarrow>
     ('i, 'd) TwoLevelIter \<Rightarrow> kv list \<Rightarrow> kv list \<Rightarrow> nat \<Rightarrow> bool" where
  "tl_state cmp I ci D cd bf content t idx kvs j \<longleftrightarrow>
     tl_layout cmp content idx kvs \<and> (\<forall>e \<in> set idx. \<exists>p. cd (bf (snd e)) (content (snd e)) p) \<and>
     tl_status t = OK \<and> wrapper_cursor I ci (tl_index_iter t) idx j \<and>
     (iw_iter (tl_data_iter t) \<noteq> None \<longrightarrow>
        (\<exists>p. wrapper_cursor D cd (tl_data_iter t) (content (tl_data_block_handle t)) p)) \<and>
     (iw_iter (tl_data_iter t) = None \<longrightarrow> \<not> iw_valid (tl_data_iter t))"

text \<open>At position \<open>p\<close> of block \<open>j\<close>.\<close>

definition tl_at ::
    "'d Iterator \<Rightarrow> ('d \<Rightarrow> kv list \<Rightarrow> nat \<Rightarrow> bool) \<Rightarrow> (slice \<Rightarrow> kv list) \<Rightarrow>
     ('i, 'd) TwoLevelIter \<Rightarrow> kv list \<Rightarrow> nat \<Rightarrow> nat \<Rightarrow> bool" where
  "tl_at D cd content t idx j p \<longleftrightarrow>
     j < length idx \<and> tl_data_block_handle t = snd (idx ! j) \<and>
     wrapper_cursor D cd (tl_data_iter t) (content (snd (idx ! j))) p"

definition tl_cursor ::
    "(slice \<Rightarrow> slice \<Rightarrow> int) \<Rightarrow> 'i Iterator \<Rightarrow> ('i \<Rightarrow> kv list \<Rightarrow> nat \<Rightarrow> bool) \<Rightarrow> 'd Iterator \<Rightarrow>
     ('d \<Rightarrow> kv list \<Rightarrow> nat \<Rightarrow> bool) \<Rightarrow> (slice \<Rightarrow> 'd) \<Rightarrow> (slice \<Rightarrow> kv list) \<Rightarrow>
     ('i, 'd) TwoLevelIter option \<Rightarrow> kv list \<Rightarrow> nat \<Rightarrow> bool" where
  "tl_cursor cmp I ci D cd bf content s kvs i \<longleftrightarrow>
     (\<exists>t idx j. s = Some t \<and> tl_state cmp I ci D cd bf content t idx kvs j \<and> i \<le> length kvs \<and>
        (if i < length kvs
         then \<exists>p < length (content (snd (idx ! j))). tl_at D cd content t idx j p \<and> i = boff content idx j + p
         else iw_iter (tl_data_iter t) = None))"

lemma wrapper_cursor_Some: "wrapper_cursor I c w kvs i \<Longrightarrow> iw_iter w \<noteq> None"
  by (auto simp: wrapper_cursor_def split: option.splits)

locale two_level = index: iterator cmp I ci + data: iterator cmp D cd
  for cmp :: "slice \<Rightarrow> slice \<Rightarrow> int" and I :: "'i Iterator" and ci and D :: "'d Iterator" and cd +
  fixes block_function :: "slice \<Rightarrow> 'd" and content :: "slice \<Rightarrow> kv list"
begin

abbreviation state where "state \<equiv> tl_state cmp I ci D cd block_function content"
abbreviation at where "at \<equiv> tl_at D cd content"
abbreviation cur where "cur \<equiv> tl_cursor cmp I ci D cd block_function content"

lemma SetDataIterator_state:
  assumes "state t idx kvs j"
  shows "tl_status (SetDataIterator D x t) = OK" "tl_index_iter (SetDataIterator D x t) = tl_index_iter t"
    "tl_data_block_handle (SetDataIterator D x t) = tl_data_block_handle t"
    "iw_iter (tl_data_iter (SetDataIterator D x t)) = x" "wrapper_ok D (tl_data_iter (SetDataIterator D x t))"
proof -
  have "it_status (IteratorWrapper D) (tl_data_iter t) = OK" if "iw_iter (tl_data_iter t) \<noteq> None"
    using assms that iterator.cursor_status [OF data.wrapper_iterator] unfolding tl_state_def by blast
  then show "tl_status (SetDataIterator D x t) = OK" "tl_index_iter (SetDataIterator D x t) = tl_index_iter t"
    "tl_data_block_handle (SetDataIterator D x t) = tl_data_block_handle t"
    "iw_iter (tl_data_iter (SetDataIterator D x t)) = x" "wrapper_ok D (tl_data_iter (SetDataIterator D x t))"
    using assms by (auto simp: SetDataIterator_def SaveError_def tl_state_def Let_def split: option.splits)
qed

lemma SetNone_cur:
  assumes "state t idx kvs j"
  shows "cur (Some (SetDataIterator D None t)) kvs (length kvs)"
proof -
  note s = SetDataIterator_state [OF assms, of None]
  have "\<not> iw_valid (tl_data_iter (SetDataIterator D None t))" using s(4,5) by (simp add: wrapper_ok_def)
  then have "state (SetDataIterator D None t) idx kvs j" using assms s by (simp add: tl_state_def)
  then show ?thesis using s(4) by (auto simp: tl_cursor_def)
qed

lemma state_upd_index:
  "state t idx kvs j \<Longrightarrow> wrapper_cursor I ci w idx j' \<Longrightarrow> state (t\<lparr> tl_index_iter := w \<rparr>) idx kvs j'"
  by (simp add: tl_state_def)

lemma InitDataBlock_end:
  assumes "state t idx kvs (length idx)"
  shows "state (InitDataBlock I D block_function t) idx kvs (length idx) \<and>
    iw_iter (tl_data_iter (InitDataBlock I D block_function t)) = None"
proof -
  note s = SetDataIterator_state [OF assms, of None]
  have "\<not> iw_valid (tl_index_iter t)"
    using iterator.cursor_Valid [OF index.wrapper_iterator] assms unfolding tl_state_def IteratorWrapper_sel by blast
  moreover have "\<not> iw_valid (tl_data_iter (SetDataIterator D None t))" using s(4,5) by (simp add: wrapper_ok_def)
  ultimately show ?thesis using assms s by (simp add: InitDataBlock_def tl_state_def)
qed

lemma InitDataBlock_at:
  assumes "state t idx kvs j" "j < length idx"
  shows "state (InitDataBlock I D block_function t) idx kvs j \<and>
    (\<exists>p. at (InitDataBlock I D block_function t) idx j p)"
proof -
  have c: "wrapper_cursor I ci (tl_index_iter t) idx j" using assms(1) by (simp add: tl_state_def)
  have v: "iw_valid (tl_index_iter t)"
    using iterator.cursor_Valid [OF index.wrapper_iterator c] assms(2) by (simp add: IteratorWrapper_sel)
  have h: "it_value (IteratorWrapper I) (tl_index_iter t) = snd (idx ! j)"
    using iterator.cursor_value [OF index.wrapper_iterator c assms(2)] .
  show ?thesis
  proof (cases "iw_iter (tl_data_iter t) \<noteq> None \<and> snd (idx ! j) = tl_data_block_handle t")
    case True
    then show ?thesis using assms v h by (auto simp: InitDataBlock_def tl_state_def tl_at_def)
  next
    case False
    let ?t = "t\<lparr> tl_data_block_handle := snd (idx ! j) \<rparr>"
    let ?t' = "SetDataIterator D (Some (block_function (snd (idx ! j)))) ?t"
    obtain q where q: "cd (block_function (snd (idx ! j))) (content (snd (idx ! j))) q"
      using assms unfolding tl_state_def by (meson nth_mem)
    have f: "SetDataIterator D x ?t = (SetDataIterator D x t)\<lparr> tl_data_block_handle := snd (idx ! j) \<rparr>" for x
      by (auto simp: SetDataIterator_def SaveError_def Let_def split: option.splits)
    note s = SetDataIterator_state [OF assms(1), of "Some (block_function (snd (idx ! j)))"]
    have w: "wrapper_cursor D cd (tl_data_iter ?t') (content (snd (idx ! j))) q"
      using s q by (simp add: f wrapper_cursor_def)
    then have "state ?t' idx kvs j \<and> at ?t' idx j q"
      using assms s wrapper_cursor_Some [OF w] by (auto simp: tl_state_def tl_at_def f)
    moreover have "InitDataBlock I D block_function t = ?t'"
      using False v h by (auto simp: InitDataBlock_def Let_def)
    ultimately show ?thesis by auto
  qed
qed

lemma on_data_at:
  assumes "state t idx kvs j" "at t idx j p"
    and "wrapper_cursor D cd (f (tl_data_iter t)) (content (snd (idx ! j))) q"
  shows "state (on_data D f t) idx kvs j \<and> at (on_data D f t) idx j q"
proof -
  have "iw_iter (tl_data_iter t) \<noteq> None" using assms(2) wrapper_cursor_Some unfolding tl_at_def by blast
  then show ?thesis
    using assms wrapper_cursor_Some [OF assms(3)] by (auto simp: on_data_def tl_state_def tl_at_def)
qed

text \<open>Moving to block \<open>j\<close> and positioning in it.\<close>

lemma enter_block:
  assumes "state t idx kvs j" "j < length idx"
    and "\<And>w p. wrapper_cursor D cd w (content (snd (idx ! j))) p \<Longrightarrow> wrapper_cursor D cd (f w) (content (snd (idx ! j))) q"
  shows "state (on_data D f (InitDataBlock I D block_function t)) idx kvs j \<and>
    at (on_data D f (InitDataBlock I D block_function t)) idx j q"
proof -
  obtain p where p: "state (InitDataBlock I D block_function t) idx kvs j" "at (InitDataBlock I D block_function t) idx j p"
    using InitDataBlock_at [OF assms(1,2)] by blast
  then have "wrapper_cursor D cd (tl_data_iter (InitDataBlock I D block_function t)) (content (snd (idx ! j))) p"
    by (simp add: tl_at_def)
  from on_data_at [where f = f, OF p assms(3) [OF this]] show ?thesis .
qed

lemma at_valid: "at t idx j p \<Longrightarrow> iw_valid (tl_data_iter t) \<longleftrightarrow> p < length (content (snd (idx ! j)))"
  using iterator.cursor_Valid [OF data.wrapper_iterator] unfolding tl_at_def IteratorWrapper_sel by blast

lemma at_Some: "at t idx j p \<Longrightarrow> iw_iter (tl_data_iter t) \<noteq> None"
  unfolding tl_at_def using wrapper_cursor_Some by blast

lemma index_valid: "state t idx kvs j \<Longrightarrow> iw_valid (tl_index_iter t) \<longleftrightarrow> j < length idx"
  using iterator.cursor_Valid [OF index.wrapper_iterator] unfolding tl_state_def IteratorWrapper_sel by blast

lemma state_kvs: "state t idx kvs j \<Longrightarrow> kvs = concat (blocks_of content idx)"
  by (simp add: tl_state_def tl_layout_def)

lemma at_cur:
  assumes "state t idx kvs j" "at t idx j p" "p < length (content (snd (idx ! j)))"
  shows "cur (Some t) kvs (boff content idx j + p)"
proof -
  have "boff content idx j + p < length kvs"
    using boff_nth(2) [of j idx p content] assms(2,3) state_kvs [OF assms(1)] by (simp add: tl_at_def)
  then show ?thesis using assms by (auto simp: tl_cursor_def)
qed

lemma skip_forward_end:
  assumes "state t idx kvs (length idx)" "iw_iter (tl_data_iter t) = None"
  shows "cur (SkipEmptyDataBlocksForward I D block_function t) kvs (length kvs)"
  using SetNone_cur [OF assms(1)] index_valid [OF assms(1)] assms(2)
  by (subst SkipEmptyDataBlocksForward.simps) simp

lemma skip_forward:
  assumes "state t idx kvs j" "at t idx j p" "p \<le> length (content (snd (idx ! j)))"
  shows "cur (SkipEmptyDataBlocksForward I D block_function t) kvs (boff content idx j + p)"
  using assms
proof (induction "length idx - j" arbitrary: t j p)
  case 0
  then show ?case by (simp add: tl_at_def)
next
  case (Suc d)
  have j: "j < length idx" using Suc.prems(2) by (simp add: tl_at_def)
  show ?case
  proof (cases "p < length (content (snd (idx ! j)))")
    case True
    then show ?thesis
      using at_valid [OF Suc.prems(2)] at_Some [OF Suc.prems(2)] at_cur [OF Suc.prems(1,2) True]
      by (subst SkipEmptyDataBlocksForward.simps) auto
  next
    case False
    let ?t1 = "t\<lparr> tl_index_iter := it_Next (IteratorWrapper I) (tl_index_iter t) \<rparr>"
    let ?t2 = "on_data D (it_SeekToFirst (IteratorWrapper D)) (InitDataBlock I D block_function ?t1)"
    have w: "wrapper_cursor I ci (tl_index_iter t) idx j" using Suc.prems(1) by (simp add: tl_state_def)
    have s1: "state ?t1 idx kvs (Suc j)"
      using state_upd_index [OF Suc.prems(1) iterator.cursor_Next [OF index.wrapper_iterator w j]] .
    have step: "SkipEmptyDataBlocksForward I D block_function t = SkipEmptyDataBlocksForward I D block_function ?t2"
      using False at_valid [OF Suc.prems(2)] index_valid [OF Suc.prems(1)] j
      by (subst SkipEmptyDataBlocksForward.simps) simp
    have off: "boff content idx j + p = boff content idx (Suc j)" using False Suc.prems(3) boff_Suc [OF j] by simp
    show ?thesis
    proof (cases "Suc j < length idx")
      case True
      have "state ?t2 idx kvs (Suc j) \<and> at ?t2 idx (Suc j) 0"
        using enter_block [OF s1 True] iterator.cursor_SeekToFirst [OF data.wrapper_iterator] by blast
      moreover have "d = length idx - Suc j" using Suc.hyps(2) by simp
      ultimately show ?thesis using Suc.hyps(1) [of "Suc j" ?t2 0] step off by simp
    next
      case end': False
      then have n: "Suc j = length idx" using j by simp
      have i: "state (InitDataBlock I D block_function ?t1) idx kvs (length idx)"
        "iw_iter (tl_data_iter (InitDataBlock I D block_function ?t1)) = None"
        using InitDataBlock_end [of ?t1 idx kvs] s1 n by simp_all
      then have "?t2 = InitDataBlock I D block_function ?t1" by (simp add: on_data_def)
      with skip_forward_end [OF i] step off n boff_length [of content idx] state_kvs [OF Suc.prems(1)]
      show ?thesis by simp
    qed
  qed
qed

lemma skip_backward_end:
  assumes "state t idx kvs (length idx)" "iw_iter (tl_data_iter t) = None"
  shows "cur (SkipEmptyDataBlocksBackward I D block_function t) kvs (length kvs)"
  using SetNone_cur [OF assms(1)] index_valid [OF assms(1)] assms(2)
  by (subst SkipEmptyDataBlocksBackward.simps) simp

lemma skip_backward_valid:
  assumes "state t idx kvs j" "at t idx j p" "p < length (content (snd (idx ! j)))"
  shows "cur (SkipEmptyDataBlocksBackward I D block_function t) kvs (boff content idx j + p)"
  using at_valid [OF assms(2)] at_Some [OF assms(2)] at_cur [OF assms] assms(3)
  by (subst SkipEmptyDataBlocksBackward.simps) auto

lemma skip_backward:
  assumes "state t idx kvs j" "at t idx j (length (content (snd (idx ! j))))"
  shows "cur (SkipEmptyDataBlocksBackward I D block_function t) kvs
    (if boff content idx j = 0 then length kvs else boff content idx j - 1)"
  using assms
proof (induction j arbitrary: t)
  case 0
  let ?t1 = "t\<lparr> tl_index_iter := it_Prev (IteratorWrapper I) (tl_index_iter t) \<rparr>"
  have j: "0 < length idx" using "0.prems"(2) by (simp add: tl_at_def)
  have w: "wrapper_cursor I ci (tl_index_iter t) idx 0" using "0.prems"(1) by (simp add: tl_state_def)
  have s1: "state ?t1 idx kvs (length idx)"
    using state_upd_index [OF "0.prems"(1) iterator.cursor_Prev_0 [OF index.wrapper_iterator w j]] .
  have i: "state (InitDataBlock I D block_function ?t1) idx kvs (length idx)"
    "iw_iter (tl_data_iter (InitDataBlock I D block_function ?t1)) = None"
    using InitDataBlock_end [OF s1] by simp_all
  have "SkipEmptyDataBlocksBackward I D block_function t =
      SkipEmptyDataBlocksBackward I D block_function (InitDataBlock I D block_function ?t1)"
    using at_valid [OF "0.prems"(2)] index_valid [OF "0.prems"(1)] j i(2)
    by (subst SkipEmptyDataBlocksBackward.simps) (simp add: on_data_def)
  with skip_backward_end [OF i] show ?case by simp
next
  case (Suc j)
  let ?t1 = "t\<lparr> tl_index_iter := it_Prev (IteratorWrapper I) (tl_index_iter t) \<rparr>"
  let ?t2 = "on_data D (it_SeekToLast (IteratorWrapper D)) (InitDataBlock I D block_function ?t1)"
  let ?len = "length (content (snd (idx ! j)))"
  have j: "Suc j < length idx" using Suc.prems(2) by (simp add: tl_at_def)
  have w: "wrapper_cursor I ci (tl_index_iter t) idx (Suc j)" using Suc.prems(1) by (simp add: tl_state_def)
  have s1: "state ?t1 idx kvs j"
    using state_upd_index [OF Suc.prems(1)] iterator.cursor_Prev_Suc [OF index.wrapper_iterator w j] by simp
  have s2: "state ?t2 idx kvs j" "at ?t2 idx j (?len - 1)"
    using enter_block [OF s1, of "it_SeekToLast (IteratorWrapper D)" "?len - 1"] j
      iterator.cursor_SeekToLast [OF data.wrapper_iterator] by auto
  have step: "SkipEmptyDataBlocksBackward I D block_function t = SkipEmptyDataBlocksBackward I D block_function ?t2"
    using at_valid [OF Suc.prems(2)] index_valid [OF Suc.prems(1)] j
    by (subst SkipEmptyDataBlocksBackward.simps) simp
  have off: "boff content idx (Suc j) = boff content idx j + ?len" using boff_Suc [of j idx content] j by simp
  show ?case
  proof (cases "?len = 0")
    case True
    then have "at ?t2 idx j ?len" using s2(2) by simp
    from Suc.IH [OF s2(1) this] show ?thesis using step off True by (simp split: if_splits)
  next
    case False
    then have "cur (SkipEmptyDataBlocksBackward I D block_function ?t2) kvs (boff content idx j + (?len - 1))"
      using skip_backward_valid [OF s2] by simp
    then show ?thesis using step off False by simp
  qed
qed

text \<open>The operations.\<close>

lemma cur_state:
  assumes "cur s kvs i"
  obtains t idx j where "s = Some t" "state t idx kvs j"
  using assms by (auto simp: tl_cursor_def)

lemma cur_at:
  assumes "cur s kvs i" "i < length kvs"
  obtains t idx j p where "s = Some t" "state t idx kvs j" "at t idx j p" "p < length (content (snd (idx ! j)))"
    "i = boff content idx j + p"
  using assms by (auto simp: tl_cursor_def)

lemma enter_end:
  assumes "state t idx kvs (length idx)"
  shows "on_data D f (InitDataBlock I D block_function t) = InitDataBlock I D block_function t"
  using InitDataBlock_end [OF assms] by (simp add: on_data_def)

lemma state_index: "state t idx kvs j \<Longrightarrow> wrapper_cursor I ci (tl_index_iter t) idx j"
  by (simp add: tl_state_def)

lemma SeekToFirst_cur:
  assumes "state t idx kvs j0"
  shows "cur (TwoLevel_SeekToFirst I D block_function t) kvs 0"
proof -
  let ?t = "t\<lparr> tl_index_iter := it_SeekToFirst (IteratorWrapper I) (tl_index_iter t) \<rparr>"
  have s: "state ?t idx kvs 0"
    using state_upd_index [OF assms iterator.cursor_SeekToFirst [OF index.wrapper_iterator state_index [OF assms]]] .
  show ?thesis
  proof (cases "idx = []")
    case True
    then have "kvs = []" using state_kvs [OF assms] by (simp add: blocks_of_def)
    moreover have e: "state ?t idx kvs (length idx)" using s True by simp
    ultimately show ?thesis
      using skip_forward_end [of "InitDataBlock I D block_function ?t" idx kvs] InitDataBlock_end [OF e]
      by (simp add: TwoLevel_SeekToFirst_def enter_end [OF e])
  next
    case False
    then have "0 < length idx" by simp
    then have "state (on_data D (it_SeekToFirst (IteratorWrapper D)) (InitDataBlock I D block_function ?t)) idx kvs 0 \<and>
        at (on_data D (it_SeekToFirst (IteratorWrapper D)) (InitDataBlock I D block_function ?t)) idx 0 0"
      using enter_block [OF s] iterator.cursor_SeekToFirst [OF data.wrapper_iterator] by blast
    then show ?thesis using skip_forward [of _ idx kvs 0 0] by (simp add: TwoLevel_SeekToFirst_def Let_def)
  qed
qed

lemma SeekToLast_cur:
  assumes "state t idx kvs j0"
  shows "cur (TwoLevel_SeekToLast I D block_function t) kvs (length kvs - 1)"
proof -
  let ?t = "t\<lparr> tl_index_iter := it_SeekToLast (IteratorWrapper I) (tl_index_iter t) \<rparr>" and ?j = "length idx - 1"
  have s: "state ?t idx kvs ?j"
    using state_upd_index [OF assms iterator.cursor_SeekToLast [OF index.wrapper_iterator state_index [OF assms]]] .
  show ?thesis
  proof (cases "idx = []")
    case True
    then have "kvs = []" using state_kvs [OF assms] by (simp add: blocks_of_def)
    moreover have e: "state ?t idx kvs (length idx)" using s True by simp
    ultimately show ?thesis
      using skip_backward_end [of "InitDataBlock I D block_function ?t" idx kvs] InitDataBlock_end [OF e]
      by (simp add: TwoLevel_SeekToLast_def enter_end [OF e])
  next
    case False
    let ?len = "length (content (snd (idx ! ?j)))"
    let ?t2 = "on_data D (it_SeekToLast (IteratorWrapper D)) (InitDataBlock I D block_function ?t)"
    have j: "?j < length idx" "Suc ?j = length idx" using False by auto
    have s2: "state ?t2 idx kvs ?j" "at ?t2 idx ?j (?len - 1)"
      using enter_block [OF s j(1), of "it_SeekToLast (IteratorWrapper D)" "?len - 1"]
        iterator.cursor_SeekToLast [OF data.wrapper_iterator] by auto
    have n: "length kvs = boff content idx ?j + ?len"
      using boff_Suc [OF j(1), of content] j(2) boff_length [of content idx] state_kvs [OF assms] by simp
    show ?thesis
    proof (cases "?len = 0")
      case True
      then have "at ?t2 idx ?j ?len" using s2(2) by simp
      from skip_backward [OF s2(1) this] show ?thesis using n True by (simp add: TwoLevel_SeekToLast_def split: if_splits)
    next
      case lt: False
      then have "cur (SkipEmptyDataBlocksBackward I D block_function ?t2) kvs (boff content idx ?j + (?len - 1))"
        using skip_backward_valid [OF s2] by simp
      moreover have "length kvs - 1 = boff content idx ?j + (?len - 1)" using n lt by linarith
      ultimately show ?thesis by (simp only: TwoLevel_SeekToLast_def Let_def)
    qed
  qed
qed

lemma Next_cur:
  assumes "state t idx kvs j" "at t idx j p" "p < length (content (snd (idx ! j)))"
  shows "cur (TwoLevel_Next I D block_function t) kvs (Suc (boff content idx j + p))"
proof -
  let ?w = "it_Next (IteratorWrapper D) (tl_data_iter t)"
  have "wrapper_cursor D cd (tl_data_iter t) (content (snd (idx ! j))) p" using assms(2) by (simp add: tl_at_def)
  from iterator.cursor_Next [OF data.wrapper_iterator this assms(3)]
  have "state (on_data D (it_Next (IteratorWrapper D)) t) idx kvs j \<and> at (on_data D (it_Next (IteratorWrapper D)) t) idx j (Suc p)"
    using on_data_at [where f = "it_Next (IteratorWrapper D)", OF assms(1,2)] by blast
  moreover have "on_data D (it_Next (IteratorWrapper D)) t = t\<lparr> tl_data_iter := ?w \<rparr>"
    using at_Some [OF assms(2)] by (simp add: on_data_def)
  ultimately show ?thesis
    using skip_forward [of "t\<lparr> tl_data_iter := ?w \<rparr>" idx kvs j "Suc p"] assms(3) by (simp add: TwoLevel_Next_def)
qed

lemma Prev_cur:
  assumes "state t idx kvs j" "at t idx j p" "p < length (content (snd (idx ! j)))" "i = boff content idx j + p"
  shows "cur (TwoLevel_Prev I D block_function t) kvs (if i = 0 then length kvs else i - 1)"
proof -
  let ?w = "it_Prev (IteratorWrapper D) (tl_data_iter t)" and ?xs = "content (snd (idx ! j))"
  let ?p = "if p = 0 then length ?xs else p - 1"
  have "wrapper_cursor D cd (tl_data_iter t) ?xs p" using assms(2) by (simp add: tl_at_def)
  from iterator.cursor_Prev [OF data.wrapper_iterator this assms(3)]
  have "state (on_data D (it_Prev (IteratorWrapper D)) t) idx kvs j \<and> at (on_data D (it_Prev (IteratorWrapper D)) t) idx j ?p"
    using on_data_at [where f = "it_Prev (IteratorWrapper D)", OF assms(1,2)] by blast
  moreover have "on_data D (it_Prev (IteratorWrapper D)) t = t\<lparr> tl_data_iter := ?w \<rparr>"
    using at_Some [OF assms(2)] by (simp add: on_data_def)
  ultimately have s: "state (t\<lparr> tl_data_iter := ?w \<rparr>) idx kvs j" "at (t\<lparr> tl_data_iter := ?w \<rparr>) idx j ?p" by simp_all
  show ?thesis
  proof (cases "p = 0")
    case True
    then show ?thesis using skip_backward [OF s(1)] s(2) assms(4) by (simp add: TwoLevel_Prev_def split: if_splits)
  next
    case False
    then have "cur (SkipEmptyDataBlocksBackward I D block_function (t\<lparr> tl_data_iter := ?w \<rparr>)) kvs (boff content idx j + ?p)"
      using assms(3) by (intro skip_backward_valid [OF s]) simp
    then show ?thesis using False assms(4) by (simp add: TwoLevel_Prev_def)
  qed
qed

text \<open>\<open>Seek\<close> finds the block through the separators.\<close>

lemma seek_position:
  assumes "tl_layout cmp content idx kvs" "j = lower_bound cmp u idx"
  shows "lower_bound cmp u kvs = (if j < length idx then boff content idx j + lower_bound cmp u (content (snd (idx ! j)))
                                  else length kvs)"
proof -
  have kvs: "kvs = concat (blocks_of content idx)" using assms(1) by (simp add: tl_layout_def)
  have before: "cmp (fst e) u < 0" if e: "e \<in> set (content (snd (idx ! l)))" and l: "l < j" "l < length idx" for e l
  proof -
    have "cmp (fst (idx ! l)) u < 0" using lower_bound_nth_less [of l cmp u idx] l(1) assms(2) by simp
    moreover have "cmp (fst e) (fst (idx ! l)) \<le> 0" using assms(1) e l(2) by (simp add: tl_layout_def)
    ultimately show ?thesis using index.cmp_le_less_trans by blast
  qed
  have all: "\<forall>e \<in> set (concat (blocks_of content (take j idx))). cmp (fst e) u < 0"
  proof
    fix e assume "e \<in> set (concat (blocks_of content (take j idx)))"
    then obtain x where "x \<in> set (take j idx)" "e \<in> set (content (snd x))" by (auto simp: blocks_of_def)
    then obtain l where "l < length (take j idx)" "e \<in> set (content (snd (take j idx ! l)))" by (metis in_set_conv_nth)
    then have "l < j" "l < length idx" "e \<in> set (content (snd (idx ! l)))" by auto
    then show "cmp (fst e) u < 0" using before by blast
  qed
  show ?thesis
  proof (cases "j < length idx")
    case True
    let ?rest = "concat (blocks_of content (drop (Suc j) idx))"
    have ge: "\<not> cmp (fst (idx ! j)) u < 0" using lower_bound_nth_ge [of cmp u idx] True assms(2) by simp
    have "\<not> cmp (fst e) u < 0" if er: "e \<in> set ?rest" for e
    proof -
      obtain x where x: "x \<in> set (drop (Suc j) idx)" "e \<in> set (content (snd x))" using er by (auto simp: blocks_of_def)
      then obtain l where "l < length (drop (Suc j) idx)" "x = drop (Suc j) idx ! l" by (metis in_set_conv_nth)
      then have "Suc (j + l) < length idx" "x = idx ! Suc (j + l)" by auto
      then have "cmp (fst (idx ! j)) (fst e) < 0" using assms(1) x(2) unfolding tl_layout_def
        by (metis add_Suc less_add_Suc1)
      then show ?thesis using ge index.cmp_less_trans by blast
    qed
    then have "lower_bound cmp u ?rest = 0" by (intro index.lower_bound_0) blast
    then have "lower_bound cmp u (content (snd (idx ! j)) @ ?rest) = lower_bound cmp u (content (snd (idx ! j)))"
      unfolding index.lower_bound_append by (simp add: index.lower_bound_all)
    then show ?thesis
      using True all unfolding kvs blocks_split [OF True, of content]
      by (subst index.lower_bound_append) (simp add: boff_def)
  next
    case False
    then have "take j idx = idx" by simp
    then show ?thesis using all False index.lower_bound_all [of kvs u] by (simp add: kvs)
  qed
qed

lemma Seek_cur:
  assumes "state t idx kvs j0"
  shows "cur (TwoLevel_Seek I D block_function u t) kvs (lower_bound cmp u kvs)"
proof -
  let ?t = "t\<lparr> tl_index_iter := it_Seek (IteratorWrapper I) u (tl_index_iter t) \<rparr>" and ?j = "lower_bound cmp u idx"
  have s: "state ?t idx kvs ?j"
    using state_upd_index [OF assms iterator.cursor_Seek [OF index.wrapper_iterator state_index [OF assms]]] .
  have lay: "tl_layout cmp content idx kvs" using assms by (simp add: tl_state_def)
  show ?thesis
  proof (cases "?j < length idx")
    case True
    have "state (on_data D (it_Seek (IteratorWrapper D) u) (InitDataBlock I D block_function ?t)) idx kvs ?j \<and>
        at (on_data D (it_Seek (IteratorWrapper D) u) (InitDataBlock I D block_function ?t)) idx ?j
          (lower_bound cmp u (content (snd (idx ! ?j))))"
      using enter_block [OF s True] iterator.cursor_Seek [OF data.wrapper_iterator] by blast
    then show ?thesis
      using skip_forward [OF _ _ lower_bound_le] seek_position [OF lay refl] True by (simp add: TwoLevel_Seek_def Let_def)
  next
    case False
    then have e: "state ?t idx kvs (length idx)" using s lower_bound_le [of cmp u idx] by (simp add: le_antisym)
    then show ?thesis
      using skip_forward_end [of "InitDataBlock I D block_function ?t" idx kvs] InitDataBlock_end [OF e]
        seek_position [OF lay refl] False by (simp add: TwoLevel_Seek_def enter_end [OF e])
  qed
qed

lemma status_cur:
  assumes "state t idx kvs j"
  shows "TwoLevel_status I D t = OK"
proof -
  have "it_status (IteratorWrapper I) (tl_index_iter t) = OK"
    using iterator.cursor_status [OF index.wrapper_iterator state_index [OF assms]] .
  moreover have "it_status (IteratorWrapper D) (tl_data_iter t) = OK" if "iw_iter (tl_data_iter t) \<noteq> None"
    using assms that iterator.cursor_status [OF data.wrapper_iterator] unfolding tl_state_def by blast
  ultimately show ?thesis using assms by (auto simp: TwoLevel_status_def tl_state_def)
qed

lemma TwoLevel_sel:
  "it_Valid (TwoLevelIterator I D block_function) (Some t) = iw_valid (tl_data_iter t)"
  "it_SeekToFirst (TwoLevelIterator I D block_function) (Some t) = TwoLevel_SeekToFirst I D block_function t"
  "it_SeekToLast (TwoLevelIterator I D block_function) (Some t) = TwoLevel_SeekToLast I D block_function t"
  "it_Seek (TwoLevelIterator I D block_function) u (Some t) = TwoLevel_Seek I D block_function u t"
  "it_Next (TwoLevelIterator I D block_function) (Some t) = TwoLevel_Next I D block_function t"
  "it_Prev (TwoLevelIterator I D block_function) (Some t) = TwoLevel_Prev I D block_function t"
  "it_key (TwoLevelIterator I D block_function) (Some t) = it_key (IteratorWrapper D) (tl_data_iter t)"
  "it_value (TwoLevelIterator I D block_function) (Some t) = it_value (IteratorWrapper D) (tl_data_iter t)"
  "it_status (TwoLevelIterator I D block_function) (Some t) = TwoLevel_status I D t"
  by (simp_all add: TwoLevelIterator_def)

end

sublocale two_level \<subseteq> whole: iterator cmp "TwoLevelIterator I D block_function"
  "tl_cursor cmp I ci D cd block_function content"
proof (unfold_locales, goal_cases)
  case (1 s kvs i)
  then show ?case by (auto simp: tl_cursor_def tl_state_def tl_layout_def)
next
  case (2 s kvs i)
  then show ?case by (auto simp: tl_cursor_def)
next
  case (3 s kvs i)
  then obtain t idx j where t: "s = Some t" "state t idx kvs j" by (rule cur_state)
  show ?case
  proof (cases "i < length kvs")
    case True
    with 3 show ?thesis by (elim cur_at) (simp_all add: TwoLevel_sel at_valid)
  next
    case False
    with 3 t show ?thesis by (auto simp: tl_cursor_def TwoLevel_sel tl_state_def)
  qed
next
  case (4 s kvs i)
  then obtain t idx j p where t: "s = Some t" "state t idx kvs j" "at t idx j p" "p < length (content (snd (idx ! j)))"
    "i = boff content idx j + p" by (rule cur_at)
  then have "wrapper_cursor D cd (tl_data_iter t) (content (snd (idx ! j))) p" "j < length idx" by (simp_all add: tl_at_def)
  from iterator.cursor_entry [OF data.wrapper_iterator this(1) t(4)] boff_nth(1) [where content = content, OF this(2) t(4)] state_kvs [OF t(2)] t
  show ?case by (simp add: TwoLevel_sel)
next
  case (5 s kvs i)
  then show ?case by (elim cur_state) (simp add: TwoLevel_sel SeekToFirst_cur)
next
  case (6 s kvs i)
  then show ?case using SeekToLast_cur by (elim cur_state) (simp add: TwoLevel_sel)
next
  case (7 s kvs i u)
  then show ?case by (elim cur_state) (simp add: TwoLevel_sel Seek_cur)
next
  case (8 s kvs i)
  then show ?case using Next_cur by (elim cur_at) (auto simp: TwoLevel_sel)
next
  case (9 s kvs i)
  then obtain t idx j p where t: "s = Some t" "state t idx kvs j" "at t idx j p" "p < length (content (snd (idx ! j)))"
    "i = boff content idx j + p" by (rule cur_at)
  show ?case unfolding t(1) TwoLevel_sel by (rule Prev_cur [OF t(2-5)])
next
  case (10 s kvs i)
  then show ?case by (elim cur_state) (simp add: TwoLevel_sel status_cur)
qed

context two_level
begin

lemma whole_iterator:
  "iterator cmp (TwoLevelIterator I D block_function) (tl_cursor cmp I ci D cd block_function content)"
  by unfold_locales

lemma new_cursor:
  assumes "tl_layout cmp content idx kvs" "ci index_iter idx q" "\<forall>e \<in> set idx. \<exists>p. cd (block_function (snd e)) (content (snd e)) p"
  shows "tl_cursor cmp I ci D cd block_function content (NewTwoLevelIterator I index_iter) kvs (length kvs)"
proof -
  have "state (TwoLevelIter_new I index_iter) idx kvs q"
    using assms by (simp add: tl_state_def TwoLevelIter_new_def wrapper_cursor_def) (simp add: IteratorWrapper_new_def)
  moreover have "iw_iter (tl_data_iter (TwoLevelIter_new I index_iter)) = None"
    by (simp add: TwoLevelIter_new_def IteratorWrapper_new_def)
  ultimately show ?thesis by (auto simp: tl_cursor_def NewTwoLevelIterator_def)
qed

end

end
