(* ===== verification/Table.thy ===== *)
theory Table
  imports TableBuilder TwoLevel
begin

text \<open>
  \<open>table/table.cc\<close>: opening a table file, iterating over it and looking up a key.  The block cache is
  a parameter with its own state; a table opened without one reads every block from the file.
\<close>

section \<open>Definitions\<close>

record 'r Table =
  t_options :: Options
  t_file :: 'r
  t_cache_id :: u64
  t_filter :: "FilterBlockReader option"
  t_metaindex_handle :: BlockHandle
  t_index_block :: Block

text \<open>Iterators over blocks: an error or empty iterator, or a \<open>Block::Iter\<close>.\<close>

type_synonym block_iter = "Status + BlockIter"

definition BlockIterator :: "block_iter Iterator" where
  "BlockIterator = either_iterator EmptyIterator BlockIter"

definition table_read_options :: "Options \<Rightarrow> ReadOptions" where
  "table_read_options options =
     (if paranoid_checks options then ReadOptions_new\<lparr> verify_checksums := True \<rparr> else ReadOptions_new)"

definition ReadFilter :: "Codec \<Rightarrow> 'r RandomAccessFile \<Rightarrow> bool \<Rightarrow> slice \<Rightarrow> 'r Table \<Rightarrow> 'r Table" where
  "ReadFilter C R in_buf filter_handle_value t =
     (case BlockHandle_DecodeFrom filter_handle_value BlockHandle_new of
        (s, filter_handle, _) \<Rightarrow>
          if \<not> ok s then t
          else
            (case ReadBlock C R (t_file t) in_buf (table_read_options (t_options t)) filter_handle of
               (s, block) \<Rightarrow>
                 if \<not> ok s then t
                 else t\<lparr> t_filter := map_option (\<lambda>policy. FilterBlockReader_new policy (bc_data block))
                                        (opt_filter_policy (t_options t)) \<rparr>))"

definition ReadMeta :: "Codec \<Rightarrow> 'r RandomAccessFile \<Rightarrow> bool \<Rightarrow> Footer \<Rightarrow> 'r Table \<Rightarrow> 'r Table" where
  "ReadMeta C R in_buf footer t =
     (case opt_filter_policy (t_options t) of
        None \<Rightarrow> t
      | Some policy \<Rightarrow>
          (case ReadBlock C R (t_file t) in_buf (table_read_options (t_options t)) (metaindex_handle footer) of
             (s, contents) \<Rightarrow>
               if \<not> ok s then t
               else
                 (let meta = Block_new (bc_data contents);
                      key = ascii ''filter.'' @ FilterName policy;
                      iter = it_Seek BlockIterator key (Block_NewIterator BytewiseComparator meta)
                  in if it_Valid BlockIterator iter \<and> it_key BlockIterator iter = key
                     then ReadFilter C R in_buf (it_value BlockIterator iter) t
                     else t)))"

definition Table_Open ::
    "Codec \<Rightarrow> 'r RandomAccessFile \<Rightarrow> bool \<Rightarrow> Options \<Rightarrow> u64 \<Rightarrow> 'r \<Rightarrow> u64 \<Rightarrow> Status \<times> 'r Table option" where
  "Table_Open C R in_buf options new_id file sz =
     (if unat sz < kEncodedLength then (Corruption (ascii ''file is too short to be an sstable'') [], None)
      else
        (let (s, footer_input) = RA_Read R file (unat (sz - of_nat kEncodedLength)) kEncodedLength
         in if \<not> ok s then (s, None)
            else
              (let (s, footer, _) =
                     Footer_DecodeFrom footer_input \<lparr> metaindex_handle = BlockHandle_new, index_handle = BlockHandle_new \<rparr>
               in if \<not> ok s then (s, None)
                  else
                    (let (s, index_block_contents) =
                           ReadBlock C R file in_buf (table_read_options options) (index_handle footer)
                     in if ok s
                        then (s, Some (ReadMeta C R in_buf footer
                                   \<lparr> t_options = options, t_file = file, t_cache_id = new_id, t_filter = None,
                                     t_metaindex_handle = metaindex_handle footer,
                                     t_index_block = Block_new (bc_data index_block_contents) \<rparr>))
                        else (s, None)))))"

text \<open>\<open>BlockReader\<close> of a table without a block cache.\<close>

definition BlockReader ::
    "Codec \<Rightarrow> 'r RandomAccessFile \<Rightarrow> bool \<Rightarrow> 'r Table \<Rightarrow> ReadOptions \<Rightarrow> slice \<Rightarrow> block_iter" where
  "BlockReader C R in_buf t options index_value =
     (case BlockHandle_DecodeFrom index_value BlockHandle_new of
        (s, handle, _) \<Rightarrow>
          if ok s then
            (case ReadBlock C R (t_file t) in_buf options handle of
               (s, contents) \<Rightarrow>
                 if ok s then Block_NewIterator (opt_comparator (t_options t)) (Block_new (bc_data contents))
                 else Inl (NewErrorIterator s))
          else Inl (NewErrorIterator s))"

text \<open>
  \<open>BlockReader\<close> with a block cache, whose \<open>Lookup\<close> and \<open>Insert\<close> act on a state of their own.
\<close>

record 'c BlockCache =
  cache_Lookup :: "slice \<Rightarrow> 'c \<Rightarrow> Block option \<times> 'c"
  cache_Insert :: "slice \<Rightarrow> Block \<Rightarrow> nat \<Rightarrow> 'c \<Rightarrow> 'c"

definition block_cache_key :: "'r Table \<Rightarrow> BlockHandle \<Rightarrow> slice" where
  "block_cache_key t handle = EncodeFixed64 (t_cache_id t) @ EncodeFixed64 (bh_offset handle)"

definition BlockReader_cached ::
    "'c BlockCache \<Rightarrow> Codec \<Rightarrow> 'r RandomAccessFile \<Rightarrow> bool \<Rightarrow> 'r Table \<Rightarrow> ReadOptions \<Rightarrow> slice \<Rightarrow> 'c \<Rightarrow> block_iter \<times> 'c" where
  "BlockReader_cached K C R in_buf t options index_value cache =
     (case BlockHandle_DecodeFrom index_value BlockHandle_new of
        (s, handle, _) \<Rightarrow>
          if ok s then
            (let key = block_cache_key t handle;
                 (cached, cache) = cache_Lookup K key cache
             in case cached of
                  Some block \<Rightarrow> (Block_NewIterator (opt_comparator (t_options t)) block, cache)
                | None \<Rightarrow>
                    (case ReadBlock C R (t_file t) in_buf options handle of
                       (s, contents) \<Rightarrow>
                         if ok s then
                           (let block = Block_new (bc_data contents);
                                cache = (if bc_cachable contents \<and> fill_cache options
                                         then cache_Insert K key block (blk_size block) cache else cache)
                            in (Block_NewIterator (opt_comparator (t_options t)) block, cache))
                         else (Inl (NewErrorIterator s), cache)))
          else (Inl (NewErrorIterator s), cache))"

definition TableIterator ::
    "Codec \<Rightarrow> 'r RandomAccessFile \<Rightarrow> bool \<Rightarrow> 'r Table \<Rightarrow> ReadOptions \<Rightarrow> (block_iter, block_iter) TwoLevelIter option Iterator" where
  "TableIterator C R in_buf t options = TwoLevelIterator BlockIterator BlockIterator (BlockReader C R in_buf t options)"

definition Table_NewIterator :: "'r Table \<Rightarrow> (block_iter, block_iter) TwoLevelIter option" where
  "Table_NewIterator t =
     NewTwoLevelIterator BlockIterator (Block_NewIterator (opt_comparator (t_options t)) (t_index_block t))"

text \<open>\<open>InternalGet\<close>: the status, and the entry \<open>handle_result\<close> is called with, if it is called.\<close>

definition InternalGet ::
    "Codec \<Rightarrow> 'r RandomAccessFile \<Rightarrow> bool \<Rightarrow> 'r Table \<Rightarrow> ReadOptions \<Rightarrow> slice \<Rightarrow> Status \<times> kv option" where
  "InternalGet C R in_buf t options k =
     (let iiter = it_Seek BlockIterator k (Block_NewIterator (opt_comparator (t_options t)) (t_index_block t));
          (s, result) =
            (if it_Valid BlockIterator iiter then
               (let handle_value = it_value BlockIterator iiter;
                    (ds, handle, _) = BlockHandle_DecodeFrom handle_value BlockHandle_new
                in if (case t_filter t of
                         None \<Rightarrow> False
                       | Some fr \<Rightarrow> ok ds \<and> \<not> FilterBlockReader_KeyMayMatch fr (bh_offset handle) k)
                   then (OK, None)
                   else
                     (let block_iter = it_Seek BlockIterator k (BlockReader C R in_buf t options (it_value BlockIterator iiter))
                      in (it_status BlockIterator block_iter,
                          if it_Valid BlockIterator block_iter
                          then Some (it_key BlockIterator block_iter, it_value BlockIterator block_iter) else None)))
             else (OK, None))
      in (if ok s then it_status BlockIterator iiter else s, result))"

definition ApproximateOffsetOf :: "'r Table \<Rightarrow> slice \<Rightarrow> u64" where
  "ApproximateOffsetOf t key =
     (let index_iter = it_Seek BlockIterator key (Block_NewIterator (opt_comparator (t_options t)) (t_index_block t))
      in if it_Valid BlockIterator index_iter then
           (case BlockHandle_DecodeFrom (it_value BlockIterator index_iter) BlockHandle_new of
              (s, handle, _) \<Rightarrow> if ok s then bh_offset handle else bh_offset (t_metaindex_handle t))
         else bh_offset (t_metaindex_handle t))"

section \<open>Cursors over blocks\<close>

definition bcursor :: "Comparator \<Rightarrow> block_iter \<Rightarrow> kv list \<Rightarrow> nat \<Rightarrow> bool" where
  "bcursor c = case_sum (\<lambda>s kvs i. s = OK \<and> kvs = [] \<and> i = 0) (block_cursor c)"

lemma block_iterator_either: "three_way (Compare c) \<Longrightarrow> iterator (Compare c) BlockIterator (bcursor c)"
  unfolding BlockIterator_def bcursor_def by (intro either_iterator empty_iterator block_iterator)

interpretation table_blocks: iterator "Compare BytewiseComparator" BlockIterator "bcursor BytewiseComparator"
  by (rule block_iterator_either) unfold_locales

lemma two_level_blocks: "three_way (Compare c) \<Longrightarrow> two_level (Compare c) BlockIterator (bcursor c) BlockIterator (bcursor c)"
  by (intro two_level.intro block_iterator_either)

interpretation table_levels: two_level "Compare BytewiseComparator" BlockIterator "bcursor BytewiseComparator"
    BlockIterator "bcursor BytewiseComparator" block_function content for block_function content
  by (rule two_level_blocks) unfold_locales

section \<open>Reading a finished table\<close>

lemma kEncodedLength_u64: "unat (of_nat n - of_nat kEncodedLength :: u64) = n - kEncodedLength"
  if "kEncodedLength \<le> n" "n < 2 ^ 64" for n
proof -
  have "of_nat n - of_nat kEncodedLength = (of_nat (n - kEncodedLength) :: u64)" using that(1) by simp
  then show ?thesis using that(2) unat_u64_of_nat [of "n - kEncodedLength"] by simp
qed

text \<open>A table opened on a file that \<open>table_file\<close> describes.\<close>

definition table_open ::
    "Comparator \<Rightarrow> (slice \<Rightarrow> bool) \<Rightarrow> Codec \<Rightarrow> ('r \<Rightarrow> slice) \<Rightarrow> 'r Table \<Rightarrow> (BlockHandle \<times> kv list) list \<Rightarrow> slice list \<Rightarrow> bool" where
  "table_open c valid C contents t ds seps \<longleftrightarrow>
     tb_plan c valid ds seps [] \<and> length seps = length ds \<and> tb_blocks C (contents (t_file t)) ds \<and>
     opt_comparator (t_options t) = c \<and>
     (\<exists>q. bcursor c (Block_NewIterator c (t_index_block t)) (index_kvs ds seps) q) \<and>
     (\<forall>fr. t_filter t = Some fr \<longrightarrow>
        (\<forall>d \<in> set ds. \<forall>e \<in> set (snd d). FilterBlockReader_KeyMayMatch fr (bh_offset (fst d)) (fst e)))"

locale table_reader = three_way "Compare c" + src: random_access_file R contents good
  for c :: Comparator and R :: "'r RandomAccessFile" and contents good +
  fixes C :: Codec
begin

lemma read_block:
  assumes "good r" "length (contents r) < 2 ^ 32" "block_holds C (contents r) h kvs" "sorted_kvs (Compare c') kvs"
  obtains bc where "ReadBlock C R r in_buf options h = (OK, bc)"
    "bcursor c' (Block_NewIterator c' (Block_new (bc_data bc))) kvs (length kvs)"
proof -
  obtain es rx where e: "stored_block C (contents r) h (block_bytes es rx)" "chained es" "restarts_ok es rx" "map snd es = kvs"
    using assms(3) by (auto simp: block_holds_def)
  obtain bc where bc: "ReadBlock C R r in_buf options h = (OK, bc)" "bc_data bc = block_bytes es rx"
    using ReadBlock_stored [OF src.random_access_file_axioms assms(1) e(1)] assms(2) by fastforce
  have "laid_out (bc_data bc) es rx"
    using e(2,3) stored_block_small [OF e(1) assms(2)] by (simp add: laid_out_def bc(2))
  from NewIterator_cursor [OF this, of c'] assms(4) e(4) bc(1) that show thesis by (auto simp: bcursor_def)
qed

lemma BlockReader_cursor:
  assumes "good (t_file t)" "length (contents (t_file t)) < 2 ^ 32" "block_holds C (contents (t_file t)) h kvs"
    and "sorted_kvs (Compare c) kvs" "opt_comparator (t_options t) = c"
  shows "bcursor c (BlockReader C R in_buf t options (BlockHandle_EncodeTo [] h)) kvs (length kvs)"
proof -
  obtain bc where "ReadBlock C R (t_file t) in_buf options h = (OK, bc)"
    "bcursor c (Block_NewIterator c (Block_new (bc_data bc))) kvs (length kvs)"
    using read_block [OF assms(1-4)] .
  then show ?thesis
    using assms(5) BlockHandle_decode [of h "[]" BlockHandle_new] by (simp add: BlockReader_def)
qed

lemma plan_below:
  assumes "tb_plan c valid ds seps []" "j < length seps" "e \<in> set (snd (ds ! j))"
  shows "Compare c (fst e) (seps ! j) \<le> 0"
proof -
  have "j < length ds" using assms(1,2) by (simp add: tb_plan_def)
  then have "snd (ds ! j) \<in> set (take (Suc j) (map snd ds @ [[]]))"
    by (auto simp: in_set_conv_nth nth_append intro!: exI [of _ j])
  then have "e \<in> set (concat (take (Suc j) (map snd ds @ [[]])))" unfolding set_concat using assms(3) by blast
  then show ?thesis using assms(1,2) unfolding tb_plan_def separated_def by blast
qed

lemma plan_above:
  assumes "tb_plan c valid ds seps []" "j < length seps" "j < l" "l < length ds" "e \<in> set (snd (ds ! l))"
  shows "Compare c (seps ! j) (fst e) < 0"
proof -
  have "snd (ds ! l) \<in> set (drop (Suc j) (map snd ds @ [[]]))"
    using assms(3,4) by (auto simp: in_set_conv_nth nth_append intro!: exI [of _ "l - Suc j"])
  then have "e \<in> set (concat (drop (Suc j) (map snd ds @ [[]])))" unfolding set_concat using assms(5) by blast
  then show ?thesis using assms(1,2) unfolding tb_plan_def separated_def by blast
qed

lemma index_sorted:
  assumes "tb_plan c valid ds seps []" "length seps = length ds"
  shows "sorted_kvs (Compare c) (index_kvs ds seps)"
  unfolding sorted_kvs_def sorted_wrt_iff_nth_less
proof (intro allI impI)
  fix i j assume "i < j" "j < length (index_kvs ds seps)"
  then have j: "i < j" "j < length ds" using assms(2) by (simp_all add: index_kvs_def)
  have "snd (ds ! j) \<noteq> []" using assms(1) j by (simp add: tb_plan_def)
  then obtain e where e: "e \<in> set (snd (ds ! j))" by (cases "snd (ds ! j)") auto
  show "Compare c (fst (index_kvs ds seps ! i)) (fst (index_kvs ds seps ! j)) < 0"
    using j assms(2) cmp_less_le_trans [OF plan_above [OF assms(1) _ j e] plan_below [OF assms(1) _ e]]
    by (simp add: index_kvs_def)
qed

text \<open>The entries of the block that an index value names.\<close>

definition block_entries :: "bool \<Rightarrow> 'r Table \<Rightarrow> ReadOptions \<Rightarrow> nat \<Rightarrow> slice \<Rightarrow> kv list" where
  "block_entries in_buf t options n v =
     it_collect BlockIterator n (it_SeekToFirst BlockIterator (BlockReader C R in_buf t options v))"

lemma data_block:
  assumes "table_open c valid C contents t ds seps" "good (t_file t)" "length (contents (t_file t)) < 2 ^ 32" "d \<in> set ds"
  shows "bcursor c (BlockReader C R in_buf t options (BlockHandle_EncodeTo [] (fst d))) (snd d) (length (snd d))"
    "block_entries in_buf t options (length (concat (map snd ds))) (BlockHandle_EncodeTo [] (fst d)) = snd d"
proof -
  have o: "block_holds C (contents (t_file t)) (fst d) (snd d)" "opt_comparator (t_options t) = c"
    "sorted_kvs (Compare c) (concat (map snd ds))"
    using assms(1,4) by (auto simp: table_open_def tb_blocks_def tb_plan_def)
  obtain ds1 ds2 where ds: "ds = ds1 @ d # ds2" using split_list [OF assms(4)] by blast
  then have "sorted_kvs (Compare c) (snd d)" using o(3) by (simp add: sorted_kvs_def sorted_wrt_append)
  then show cur: "bcursor c (BlockReader C R in_buf t options (BlockHandle_EncodeTo [] (fst d))) (snd d) (length (snd d))"
    by (rule BlockReader_cursor [OF assms(2,3) o(1) _ o(2)])
  note I = block_iterator_either [OF three_way_axioms]
  have "length (snd d) \<le> length (concat (map snd ds))" by (simp add: ds)
  then show "block_entries in_buf t options (length (concat (map snd ds))) (BlockHandle_EncodeTo [] (fst d)) = snd d"
    using iterator.collect_drop [OF I iterator.cursor_SeekToFirst [OF I cur]] by (simp add: block_entries_def)
qed

abbreviation table_cursor where
  "table_cursor in_buf t options n \<equiv> tl_cursor (Compare c) BlockIterator (bcursor c) BlockIterator (bcursor c)
     (BlockReader C R in_buf t options) (block_entries in_buf t options n)"

lemma table_layout:
  assumes op: "table_open c valid C contents t ds seps" "good (t_file t)" "length (contents (t_file t)) < 2 ^ 32"
  shows "tl_layout (Compare c) (block_entries in_buf t options (length (concat (map snd ds))))
           (index_kvs ds seps) (concat (map snd ds))"
proof -
  let ?content = "block_entries in_buf t options (length (concat (map snd ds)))"
  have p: "tb_plan c valid ds seps []" "length seps = length ds" using op(1) by (auto simp: table_open_def)
  have ct: "?content (snd (index_kvs ds seps ! j)) = snd (ds ! j)" if "j < length ds" for j
    using data_block(2) [OF op nth_mem [OF that]] that p(2) by (simp add: index_kvs_def)
  have "blocks_of ?content (index_kvs ds seps) = map snd ds"
    using ct p(2) by (intro nth_equalityI) (auto simp: blocks_of_def index_kvs_def)
  then show ?thesis
    using p index_sorted [OF p] ct plan_below [OF p(1)] plan_above [OF p(1)]
    by (auto simp: tl_layout_def index_kvs_def tb_plan_def)
qed

lemma table_NewIterator_cursor:
  assumes op: "table_open c valid C contents t ds seps" "good (t_file t)" "length (contents (t_file t)) < 2 ^ 32"
  shows "table_cursor in_buf t options (length (concat (map snd ds))) (Table_NewIterator t) (concat (map snd ds))
           (length (concat (map snd ds)))"
proof -
  obtain q where q: "bcursor c (Block_NewIterator c (t_index_block t)) (index_kvs ds seps) q"
    "opt_comparator (t_options t) = c"
    using op(1) by (auto simp: table_open_def)
  have "\<forall>e \<in> set (index_kvs ds seps). \<exists>p. bcursor c (BlockReader C R in_buf t options (snd e))
      (block_entries in_buf t options (length (concat (map snd ds))) (snd e)) p"
  proof
    fix e assume "e \<in> set (index_kvs ds seps)"
    then obtain d where "d \<in> set ds" "snd e = BlockHandle_EncodeTo [] (fst d)"
      by (force simp: index_kvs_def dest: set_zip_rightD [of "fst e" "snd e", simplified])
    then show "\<exists>p. bcursor c (BlockReader C R in_buf t options (snd e))
        (block_entries in_buf t options (length (concat (map snd ds))) (snd e)) p"
      using data_block [OF op] by fastforce
  qed
  from two_level.new_cursor [OF two_level_blocks [OF three_way_axioms] table_layout [OF op] q(1) this]
  show ?thesis by (simp add: Table_NewIterator_def q(2))
qed

lemma ReadMeta_filter:
  assumes f: "good (t_file t)" "length (contents (t_file t)) < 2 ^ 32"
    and m: "block_holds C (contents (t_file t)) (metaindex_handle footer) (meta_kvs policy fh)"
      "filter_stored C (contents (t_file t)) policy fh ds" "opt_filter_policy (t_options t) = policy" "t_filter t = None"
  shows "\<exists>fr. ReadMeta C R in_buf footer t = t\<lparr> t_filter := fr \<rparr> \<and> (\<forall>r. fr = Some r \<longrightarrow>
    (\<forall>d \<in> set ds. \<forall>e \<in> set (snd d). FilterBlockReader_KeyMayMatch r (bh_offset (fst d)) (fst e)))"
proof (cases policy)
  case None
  then show ?thesis using m(3,4) by (intro exI [of _ None]) (simp add: ReadMeta_def)
next
  case (Some p)
  let ?key = "ascii ''filter.'' @ FilterName p" and ?ro = "table_read_options (t_options t)"
  have kvs: "meta_kvs policy fh = [(?key, BlockHandle_EncodeTo [] fh)]" by (simp add: meta_kvs_def Some)
  obtain z where z: "stored_block C (contents (t_file t)) fh z"
    "length z < 2 ^ 32 \<longrightarrow> (\<forall>d \<in> set ds. \<forall>e \<in> set (snd d).
      FilterBlockReader_KeyMayMatch (FilterBlockReader_new p z) (bh_offset (fst d)) (fst e))"
    using m(2) by (auto simp: filter_stored_def Some)
  obtain fc where fc: "ReadBlock C R (t_file t) in_buf ?ro fh = (OK, fc)" "bc_data fc = z"
    using ReadBlock_stored [OF src.random_access_file_axioms f(1) z(1)] f(2) by fastforce
  obtain bc where bc: "ReadBlock C R (t_file t) in_buf ?ro (metaindex_handle footer) = (OK, bc)"
    "bcursor BytewiseComparator (Block_NewIterator BytewiseComparator (Block_new (bc_data bc))) (meta_kvs policy fh)
       (length (meta_kvs policy fh))"
    using read_block [OF f m(1), of BytewiseComparator] by (auto simp: kvs sorted_kvs_def)
  let ?it = "it_Seek BlockIterator ?key (Block_NewIterator BytewiseComparator (Block_new (bc_data bc)))"
  have "lower_bound (Compare BytewiseComparator) ?key (meta_kvs policy fh) = 0" by (simp add: kvs lower_bound_def)
  then have cur: "bcursor BytewiseComparator ?it [(?key, BlockHandle_EncodeTo [] fh)] 0"
    using table_blocks.cursor_Seek [OF bc(2), of ?key] kvs by simp
  then have "it_Valid BlockIterator ?it" "it_key BlockIterator ?it = ?key" "it_value BlockIterator ?it = BlockHandle_EncodeTo [] fh"
    using table_blocks.cursor_Valid [OF cur] table_blocks.cursor_entry [OF cur] by simp_all
  then have "ReadMeta C R in_buf footer t = t\<lparr> t_filter := Some (FilterBlockReader_new p z) \<rparr>"
    using bc(1) fc m(3) Some BlockHandle_decode [of fh "[]" BlockHandle_new]
    by (simp add: ReadMeta_def ReadFilter_def Let_def)
  then show ?thesis using z(2) stored_block_small [OF z(1) f(2)] by auto
qed

lemma Open_table:
  assumes tf: "table_file c valid C (opt_filter_policy options) (contents r) ds seps"
    and f: "good r" "length (contents r) < 2 ^ 32" and c: "opt_comparator options = c"
  obtains t where "Table_Open C R in_buf options new_id r (of_nat (length (contents r))) = (OK, Some t)"
    "table_open c valid C contents t ds seps" "t_file t = r" "t_options t = options"
proof -
  let ?n = "length (contents r)" and ?ro = "table_read_options options"
  obtain pre mh ih fh where t: "tb_plan c valid ds seps []" "length seps = length ds" "tb_blocks C (contents r) ds"
    "contents r = pre @ Footer_EncodeTo [] \<lparr> metaindex_handle = mh, index_handle = ih \<rparr>"
    "block_holds C (contents r) ih (index_kvs ds seps)"
    "block_holds C (contents r) mh (meta_kvs (opt_filter_policy options) fh)"
    "filter_stored C (contents r) (opt_filter_policy options) fh ds"
    using tf unfolding table_file_def by blast
  let ?f = "\<lparr> metaindex_handle = mh, index_handle = ih \<rparr>"
  have n: "kEncodedLength \<le> ?n" "?n - kEncodedLength = length pre" using t(4) by simp_all
  have sz: "unat (of_nat ?n :: u64) = ?n" using f(2) by (intro unat_u64_of_nat) simp
  have off: "unat (of_nat ?n - of_nat kEncodedLength :: u64) = length pre"
    using kEncodedLength_u64 [OF n(1)] f(2) n(2) by simp
  have rd: "RA_Read R r (length pre) kEncodedLength = (OK, Footer_EncodeTo [] ?f)"
    using src.read_at [OF f(1), of "length pre" kEncodedLength] t(4) by simp
  obtain bc where bc: "ReadBlock C R r in_buf ?ro ih = (OK, bc)"
    "bcursor c (Block_NewIterator c (Block_new (bc_data bc))) (index_kvs ds seps) (length (index_kvs ds seps))"
    using read_block [OF f t(5) index_sorted [OF t(1,2)]] .
  define t0 where "t0 = \<lparr> t_options = options, t_file = r, t_cache_id = new_id, t_filter = None,
    t_metaindex_handle = mh, t_index_block = Block_new (bc_data bc) \<rparr>"
  obtain fr where fr: "ReadMeta C R in_buf ?f t0 = t0\<lparr> t_filter := fr \<rparr>"
    "\<forall>r. fr = Some r \<longrightarrow> (\<forall>d \<in> set ds. \<forall>e \<in> set (snd d). FilterBlockReader_KeyMayMatch r (bh_offset (fst d)) (fst e))"
    using ReadMeta_filter [of t0 ?f "opt_filter_policy options" fh ds in_buf] f t(6,7) by (auto simp: t0_def)
  have "Table_Open C R in_buf options new_id r (of_nat ?n) = (OK, Some (t0\<lparr> t_filter := fr \<rparr>))"
    unfolding Table_Open_def sz off
    using n(1) rd Footer_decode [of ?f "[]"] bc(1) fr(1) by (simp add: t0_def not_less)
  moreover have "table_open c valid C contents (t0\<lparr> t_filter := fr \<rparr>) ds seps"
    using t(1-3) c bc(2) fr(2) by (auto simp: table_open_def t0_def)
  ultimately show thesis using that [of "t0\<lparr> t_filter := fr \<rparr>"] by (simp add: t0_def)
qed

text \<open>A key of the table lies in the block the index names for it.\<close>

lemma key_block:
  assumes p: "tb_plan c valid ds seps []" "length seps = length ds" and e: "e \<in> set (concat (map snd ds))"
    and j: "j = lower_bound (Compare c) (fst e) (index_kvs ds seps)"
  shows "j < length ds" "e \<in> set (snd (ds ! j))"
proof -
  obtain l where l: "l < length ds" "e \<in> set (snd (ds ! l))" 
    using e by (auto simp: in_set_conv_nth [of _ ds])
  have len: "length (index_kvs ds seps) = length ds" "fst (index_kvs ds seps ! i) = seps ! i" if "i < length ds" for i
    using p(2) that by (simp_all add: index_kvs_def)
  have "\<not> Compare c (seps ! l) (fst e) < 0" using plan_below [OF p(1) _ l(2)] l(1) p(2) cmp_neg by (simp add: not_less cmp_le)
  then have jl: "j \<le> l"
    using lower_bound_nth_less [of l "Compare c" "fst e" "index_kvs ds seps"] len(2) [OF l(1)] j by (metis not_le)
  then show 1: "j < length ds" using l(1) by simp
  have "\<not> Compare c (seps ! j) (fst e) < 0"
    using lower_bound_nth_ge [of "Compare c" "fst e" "index_kvs ds seps"] len [OF 1] 1 j by simp
  then have "\<not> j < l" using plan_above [OF p(1) _ _ l] 1 p(2) by auto
  then show "e \<in> set (snd (ds ! j))" using jl l(2) by simp
qed

lemma InternalGet_result:
  assumes op: "table_open c valid C contents t ds seps" "good (t_file t)" "length (contents (t_file t)) < 2 ^ 32"
    and i: "i = lower_bound (Compare c) k (concat (map snd ds))"
  shows "\<exists>r. InternalGet C R in_buf t options k = (OK, r) \<and>
    (\<forall>e. r = Some e \<longrightarrow> i < length (concat (map snd ds)) \<and> e = concat (map snd ds) ! i) \<and>
    (\<forall>v. (k, v) \<in> set (concat (map snd ds)) \<longrightarrow> r = Some (k, v))"
proof -
  note I = block_iterator_either [OF three_way_axioms]
  let ?idx = "index_kvs ds seps" and ?kvs = "concat (map snd ds)"
  define j where "j = lower_bound (Compare c) k ?idx"
  let ?ii = "it_Seek BlockIterator k (Block_NewIterator c (t_index_block t))"
  have p: "tb_plan c valid ds seps []" "length seps = length ds" "opt_comparator (t_options t) = c" "length ?idx = length ds"
    and srt: "sorted_kvs (Compare c) ?kvs"
    using op(1) by (auto simp: table_open_def index_kvs_def tb_plan_def)
  obtain q where q: "bcursor c (Block_NewIterator c (t_index_block t)) ?idx q" using op(1) by (auto simp: table_open_def)
  have cur: "bcursor c ?ii ?idx j" unfolding j_def by (rule iterator.cursor_Seek [OF I q])
  have st: "it_status BlockIterator ?ii = OK" by (rule iterator.cursor_status [OF I cur])
  show ?thesis
  proof (cases "j < length ds")
    case False
    then have "InternalGet C R in_buf t options k = (OK, None)"
      using iterator.cursor_Valid [OF I cur] st p by (simp add: InternalGet_def Let_def)
    then show ?thesis using key_block(1) [OF p(1,2), of "(k, v)" j for v] False by (auto simp: j_def)
  next
    case True
    let ?d = "ds ! j" and ?v = "BlockHandle_EncodeTo [] (fst (ds ! j))"
    let ?bi = "it_Seek BlockIterator k (BlockReader C R in_buf t options ?v)"
    let ?p = "lower_bound (Compare c) k (snd ?d)"
    note block = data_block [OF op nth_mem [OF True], of in_buf options]
    have bcur: "bcursor c ?bi (snd ?d) ?p" by (rule iterator.cursor_Seek [OF I block(1)])
    have val: "it_Valid BlockIterator ?ii" "it_value BlockIterator ?ii = ?v"
      using iterator.cursor_Valid [OF I cur] iterator.cursor_entry [OF I cur] True p by (simp_all add: index_kvs_def prod_eq_iff)
    define found where "found \<longleftrightarrow> (case t_filter t of None \<Rightarrow> True | Some fr \<Rightarrow> FilterBlockReader_KeyMayMatch fr (bh_offset (fst ?d)) k)"
    define r where "r = (if found \<and> ?p < length (snd ?d) then Some (snd ?d ! ?p) else None)"
    have get: "InternalGet C R in_buf t options k = (OK, r)"
      using val st p(3) iterator.cursor_Valid [OF I bcur] iterator.cursor_entry [OF I bcur] iterator.cursor_status [OF I bcur]
        BlockHandle_decode [of "fst ?d" "[]" BlockHandle_new]
      by (auto simp: InternalGet_def Let_def r_def found_def split: option.splits)
    let ?content = "block_entries in_buf t options (length ?kvs)"
    have lay: "?kvs = concat (blocks_of ?content ?idx)" "snd (?idx ! j) = ?v"
      using table_layout [OF op, of in_buf options] True p by (simp_all add: tl_layout_def index_kvs_def)
    have pos: "i = boff ?content ?idx j + ?p"
      using two_level.seek_position [OF two_level_blocks [OF three_way_axioms] table_layout [OF op] j_def, of in_buf options]
        i True p(4) block(2) lay(2) by simp
    have "i < length ?kvs \<and> e = ?kvs ! i" if "r = Some e" for e
      using that boff_nth [of j ?idx ?p ?content] True p(4) lay block(2) pos by (auto simp: r_def split: if_splits)
    moreover have "r = Some (k, v)" if kv: "(k, v) \<in> set ?kvs" for v
    proof -
      have m: "(k, v) \<in> set (snd ?d)" using key_block(2) [OF p(1,2) kv] by (simp add: j_def)
      then obtain l where l: "l < length (snd ?d)" "snd ?d ! l = (k, v)" by (metis in_set_conv_nth)
      have "sorted_kvs (Compare c) (snd ?d)" using iterator.cursor_sorted [OF I bcur] .
      then have "?p = l" by (rule lower_bound_unique_sorted) (use l in simp_all)
      moreover have "found" using op(1) m True by (force simp: found_def table_open_def split: option.splits)
      ultimately show ?thesis using l by (simp add: r_def)
    qed
    ultimately show ?thesis using get by blast
  qed
qed

end

interpretation mem_table_reader: table_reader BytewiseComparator MemRandomAccessFile fs_bytes fs_inv port_no_codec
  by unfold_locales

text \<open>The file of a table with one entry, for the concrete instances.\<close>

lemma one_entry_file:
  fixes b
  assumes "b = snd (TableBuilder_Finish port_no_codec MemWritableFile
      (TableBuilder_Add port_no_codec MemWritableFile [1] [5] (TableBuilder_new Options_new FileState_new)))"
  shows "fs_inv (tb_file b)" "length (fs_bytes (tb_file b)) < 2 ^ 32"
proof -
  let ?W = "MemWritableFile" and ?C = port_no_codec and ?n = "TableBuilder_new Options_new FileState_new"
  define b0 where "b0 = TableBuilder_Add ?C ?W [1] [5] ?n"
  have b: "b = snd (TableBuilder_Finish ?C ?W b0)" using assms by (simp add: b0_def)
  have b0: "b0 = ?n\<lparr> tb_last_key := [1], tb_num_entries := 1, tb_data_block := BlockBuilder_Add [1] [5] (tb_data_block ?n) \<rparr>"
    using CurrentSizeEstimate_Add [of "[1]" "[5]" "BlockBuilder_new 16"]
    by (simp add: b0_def TableBuilder_Add_def TableBuilder_new_def Options_new_def Let_def CurrentSizeEstimate_def BlockBuilder_new_def)
  have f: "fs_inv (tb_file b0)" "fs_bytes (tb_file b0) = []" "tb_filter_block b0 = None"
    "opt_comparator (tb_options b0) = BytewiseComparator" "tb_last_key b0 = [1]"
    "tb_index_block b0 = BlockBuilder_new 1" "tb_data_block b0 = BlockBuilder_Add [1] [5] (BlockBuilder_new 16)"
    using fs_inv_new by (simp_all add: b0 TableBuilder_new_def Options_new_def)
  have n: "CurrentSizeEstimate (BlockBuilder_new i) = 8" for i by (simp add: CurrentSizeEstimate_def BlockBuilder_new_def)
  have "length (FindShortSuccessor BytewiseComparator [1]) = 1"
    by (simp add: BytewiseComparator_def Bytewise_FindShortSuccessor_def Bytewise_FindShortSuccessor_loop.simps)
  then have "length (fs_bytes (tb_file (snd (TableBuilder_Finish ?C ?W b0)))) \<le> 8 + 2 + 19 + 8 + 1 + 150"
    using mem_table.Finish_size [OF f(1,3,4)] CurrentSizeEstimate_Add [of "[1]" "[5]" "BlockBuilder_new 16"]
    unfolding f n by simp
  then show "length (fs_bytes (tb_file b)) < 2 ^ 32" by (simp add: b)
  show "fs_inv (tb_file b)"
    using mem_table.Finish_grows [of b0] mem_table.Flush_grows [OF refl, of b0] f(1) by (simp add: b mem_table.grows_def)
qed

section \<open>Properties\<close>



end
