(* ===== verification/Filename.thy ===== *)
theory Filename
  imports Logging Slice
begin

text \<open>
  \<open>db/filename.h\<close> and \<open>db/filename.cc\<close>: the names of the files of a database, and parsing them.
\<close>

section \<open>Definitions\<close>

datatype FileType = kLogFile | kDBLockFile | kTableFile | kDescriptorFile | kCurrentFile | kTempFile | kInfoLogFile

text \<open>The conversion \<open>%06llu\<close> of \<open>snprintf\<close>.\<close>

definition decimal06 :: "u64 \<Rightarrow> slice" where
  "decimal06 number = (let d = decimal (unat number) in replicate (6 - length d) 48 @ d)"

definition MakeFileName :: "slice \<Rightarrow> u64 \<Rightarrow> slice \<Rightarrow> slice" where
  "MakeFileName dbname number suffix = dbname @ ascii ''/'' @ decimal06 number @ ascii ''.'' @ suffix"

definition LogFileName :: "slice \<Rightarrow> u64 \<Rightarrow> slice" where
  "LogFileName dbname number = MakeFileName dbname number (ascii ''log'')"

definition TableFileName :: "slice \<Rightarrow> u64 \<Rightarrow> slice" where
  "TableFileName dbname number = MakeFileName dbname number (ascii ''ldb'')"

definition SSTTableFileName :: "slice \<Rightarrow> u64 \<Rightarrow> slice" where
  "SSTTableFileName dbname number = MakeFileName dbname number (ascii ''sst'')"

definition DescriptorFileName :: "slice \<Rightarrow> u64 \<Rightarrow> slice" where
  "DescriptorFileName dbname number = dbname @ ascii ''/MANIFEST-'' @ decimal06 number"

definition CurrentFileName :: "slice \<Rightarrow> slice" where
  "CurrentFileName dbname = dbname @ ascii ''/CURRENT''"

definition LockFileName :: "slice \<Rightarrow> slice" where
  "LockFileName dbname = dbname @ ascii ''/LOCK''"

definition TempFileName :: "slice \<Rightarrow> u64 \<Rightarrow> slice" where
  "TempFileName dbname number = MakeFileName dbname number (ascii ''dbtmp'')"

definition InfoLogFileName :: "slice \<Rightarrow> slice" where
  "InfoLogFileName dbname = dbname @ ascii ''/LOG''"

definition OldInfoLogFileName :: "slice \<Rightarrow> slice" where
  "OldInfoLogFileName dbname = dbname @ ascii ''/LOG.old''"

definition ParseFileName :: "slice \<Rightarrow> (u64 \<times> FileType) option" where
  "ParseFileName filename =
     (let rest = filename
      in if Slice_eq rest (ascii ''CURRENT'') then Some (0, kCurrentFile)
         else if Slice_eq rest (ascii ''LOCK'') then Some (0, kDBLockFile)
         else if Slice_eq rest (ascii ''LOG'') \<or> Slice_eq rest (ascii ''LOG.old'') then Some (0, kInfoLogFile)
         else if starts_with rest (ascii ''MANIFEST-'') then
           (case ConsumeDecimalNumber (remove_prefix rest (length (ascii ''MANIFEST-''))) of
              None \<Rightarrow> None
            | Some (num, rest) \<Rightarrow> if rest \<noteq> [] then None else Some (num, kDescriptorFile))
         else
           (case ConsumeDecimalNumber rest of
              None \<Rightarrow> None
            | Some (num, suffix) \<Rightarrow>
                if Slice_eq suffix (ascii ''.log'') then Some (num, kLogFile)
                else if Slice_eq suffix (ascii ''.sst'') \<or> Slice_eq suffix (ascii ''.ldb'') then Some (num, kTableFile)
                else if Slice_eq suffix (ascii ''.dbtmp'') then Some (num, kTempFile)
                else None))"

section \<open>Parsing generated names\<close>

lemma ascii_inj: "ascii s = ascii t \<longleftrightarrow> s = t"
proof -
  have "unat (of_nat (of_char c) :: byte) = of_char c" for c :: char
    by (rule of_nat_unat_small) simp
  then have "inj (\<lambda>c :: char. of_nat (of_char c) :: byte)" by (intro injI) (metis of_char_eq_iff)
  then show ?thesis by (simp add: ascii_def inj_map_eq_map)
qed

lemma ascii_append: "ascii s @ ascii t = ascii (s @ t)"
  by (simp add: ascii_def)

lemma digits_value_zeros: "digits_value 0 (replicate n 48 @ s) = digits_value 0 s"
  by (induction n) simp_all

lemma digits_decimal06: "x \<in> set (decimal06 v) \<Longrightarrow> is_digit x"
proof -
  have "is_digit 48" by (simp add: is_digit_def)
  then show "x \<in> set (decimal06 v) \<Longrightarrow> is_digit x"
    using decimal_digits [of "unat v"] by (auto simp: decimal06_def Let_def)
qed

lemma Consume_decimal06:
  assumes "rest = [] \<or> \<not> is_digit (hd rest)"
  shows "ConsumeDecimalNumber (decimal06 v @ rest) = Some (v, rest)"
proof -
  let ?z = "replicate (6 - length (decimal (unat v))) (48 :: byte)"
  have all: "\<forall>x \<in> set (?z @ decimal (unat v)). is_digit x"
    using digits_decimal06 [of _ v] by (simp add: decimal06_def Let_def)
  have "takeWhile is_digit rest = []" "dropWhile is_digit rest = rest"
    using assms by (cases rest; simp)+
  then have "takeWhile is_digit (decimal06 v @ rest) = ?z @ decimal (unat v)"
    "dropWhile is_digit (decimal06 v @ rest) = rest"
    using all by (simp_all add: decimal06_def Let_def takeWhile_append dropWhile_append)
  moreover have "digits_value 0 (?z @ decimal (unat v)) = unat v"
    by (simp add: digits_value_zeros digits_value_decimal del: digits_value_simps(3))
  ultimately show ?thesis
    using unsigned_less [of v, where ?'a = nat] by (simp add: ConsumeDecimalNumber_eq Let_def)
qed

lemma decimal06_digit: "\<exists>d r. decimal06 v = d # r \<and> is_digit d"
proof -
  have "decimal06 v \<noteq> []" by (simp add: decimal06_def Let_def)
  moreover have "\<forall>x \<in> set (decimal06 v). is_digit x"
    using digits_decimal06 by blast
  ultimately show ?thesis by (cases "decimal06 v") auto
qed

text \<open>A name that begins with a digit is parsed by its number and suffix.\<close>

lemma Parse_numbered:
  assumes "suffix = [] \<or> \<not> is_digit (hd suffix)"
  shows "ParseFileName (decimal06 v @ suffix) =
    (if suffix = ascii ''.log'' then Some (v, kLogFile)
     else if suffix = ascii ''.sst'' \<or> suffix = ascii ''.ldb'' then Some (v, kTableFile)
     else if suffix = ascii ''.dbtmp'' then Some (v, kTempFile) else None)"
proof -
  obtain d r where d: "decimal06 v = d # r" "is_digit d" using decimal06_digit by blast
  then have "d \<noteq> 67" "d \<noteq> 76" "d \<noteq> 77" by (auto simp: is_digit_def)
  then have "\<not> starts_with (decimal06 v @ suffix) (ascii ''MANIFEST-'')" "decimal06 v @ suffix \<noteq> ascii ''CURRENT''"
    "decimal06 v @ suffix \<noteq> ascii ''LOCK''" "decimal06 v @ suffix \<noteq> ascii ''LOG''" "decimal06 v @ suffix \<noteq> ascii ''LOG.old''"
    by (auto simp: d(1) starts_with_iff ascii_def)
  then show ?thesis unfolding ParseFileName_def Let_def by (simp add: Consume_decimal06 [OF assms])
qed

lemma Parse_manifest: "ParseFileName (ascii ''MANIFEST-'' @ decimal06 v) = Some (v, kDescriptorFile)"
proof -
  have "starts_with (ascii ''MANIFEST-'' @ decimal06 v) (ascii ''MANIFEST-'')" by (auto simp: starts_with_iff)
  then show ?thesis
    using Consume_decimal06 [of "[]" v]
    by (simp add: ParseFileName_def Let_def remove_prefix_def) (simp add: ascii_def)
qed

section \<open>Properties\<close>

text \<open>
  C31: file names round trip.  The name inside its directory that each generator gives to a file is
  parsed back to the file's number and type; the files without a number get 0.
\<close>

theorem filename_roundtrip:
  "ParseFileName (drop (length dbname + 1) (LogFileName dbname n)) = Some (n, kLogFile) \<and>
   ParseFileName (drop (length dbname + 1) (TableFileName dbname n)) = Some (n, kTableFile) \<and>
   ParseFileName (drop (length dbname + 1) (SSTTableFileName dbname n)) = Some (n, kTableFile) \<and>
   ParseFileName (drop (length dbname + 1) (DescriptorFileName dbname n)) = Some (n, kDescriptorFile) \<and>
   ParseFileName (drop (length dbname + 1) (TempFileName dbname n)) = Some (n, kTempFile) \<and>
   ParseFileName (drop (length dbname + 1) (CurrentFileName dbname)) = Some (0, kCurrentFile) \<and>
   ParseFileName (drop (length dbname + 1) (LockFileName dbname)) = Some (0, kDBLockFile) \<and>
   ParseFileName (drop (length dbname + 1) (InfoLogFileName dbname)) = Some (0, kInfoLogFile) \<and>
   ParseFileName (drop (length dbname + 1) (OldInfoLogFileName dbname)) = Some (0, kInfoLogFile)"
proof -
  have num: "drop (length dbname + 1) (MakeFileName dbname n s) = decimal06 n @ ascii ''.'' @ s" for s
    by (simp add: MakeFileName_def ascii_def)
  have fixed: "drop (length dbname + 1) (dbname @ ascii (CHR 0x2f # s)) = ascii s" for s by (simp add: ascii_def)
  have man: "drop (length dbname + 1) (DescriptorFileName dbname n) = ascii ''MANIFEST-'' @ decimal06 n"
    by (simp add: DescriptorFileName_def ascii_def)
  have dot: "\<not> is_digit (hd (ascii (CHR ''.'' # s)))" for s by (simp add: ascii_def is_digit_def)
  note parse = Parse_numbered [of "ascii (CHR ''.'' # s)" for s, unfolded ascii_inj]
  have "ParseFileName (decimal06 n @ ascii ''.'' @ ascii ''log'') = Some (n, kLogFile)"
    "ParseFileName (decimal06 n @ ascii ''.'' @ ascii ''ldb'') = Some (n, kTableFile)"
    "ParseFileName (decimal06 n @ ascii ''.'' @ ascii ''sst'') = Some (n, kTableFile)"
    "ParseFileName (decimal06 n @ ascii ''.'' @ ascii ''dbtmp'') = Some (n, kTempFile)"
    using dot by (simp_all add: ascii_append parse)
  moreover have "ParseFileName (ascii ''CURRENT'') = Some (0, kCurrentFile)"
    "ParseFileName (ascii ''LOCK'') = Some (0, kDBLockFile)" "ParseFileName (ascii ''LOG'') = Some (0, kInfoLogFile)"
    "ParseFileName (ascii ''LOG.old'') = Some (0, kInfoLogFile)"
    by (simp_all add: ParseFileName_def ascii_inj)
  ultimately show ?thesis
    unfolding LogFileName_def TableFileName_def SSTTableFileName_def TempFileName_def CurrentFileName_def
      LockFileName_def InfoLogFileName_def OldInfoLogFileName_def num fixed man Parse_manifest
    by simp
qed

end
