(* ===== verification/VersionEdit.thy ===== *)
theory VersionEdit
  imports DbFormat Logging "HOL-Library.Product_Lexorder"
begin

text \<open>
  \<open>db/version_edit.h\<close> and \<open>db/version_edit.cc\<close>: the record of one change to the set of table files,
  and its serial form in the descriptor log.
\<close>

section \<open>Definitions\<close>

record FileMetaData =
  f_refs :: nat
  f_allowed_seeks :: int
  f_number :: u64
  f_file_size :: u64
  f_smallest :: InternalKey
  f_largest :: InternalKey

definition FileMetaData_new :: FileMetaData where
  "FileMetaData_new =
     \<lparr> f_refs = 0, f_allowed_seeks = 2 ^ 30, f_number = 0, f_file_size = 0, f_smallest = [], f_largest = [] \<rparr>"

text \<open>A field with its \<open>has_\<close> flag is an option; the set of deleted files is an ordered list.\<close>

record VersionEdit =
  ve_comparator :: "slice option"
  ve_log_number :: "u64 option"
  ve_prev_log_number :: "u64 option"
  ve_next_file_number :: "u64 option"
  ve_last_sequence :: "SequenceNumber option"
  ve_compact_pointers :: "(nat \<times> InternalKey) list"
  ve_deleted_files :: "(nat \<times> u64) list"
  ve_new_files :: "(nat \<times> FileMetaData) list"

definition VersionEdit_new :: VersionEdit where
  "VersionEdit_new =
     \<lparr> ve_comparator = None, ve_log_number = None, ve_prev_log_number = None, ve_next_file_number = None,
       ve_last_sequence = None, ve_compact_pointers = [], ve_deleted_files = [], ve_new_files = [] \<rparr>"

definition VersionEdit_Clear :: "VersionEdit \<Rightarrow> VersionEdit" where
  "VersionEdit_Clear e = VersionEdit_new"

definition SetComparatorName :: "slice \<Rightarrow> VersionEdit \<Rightarrow> VersionEdit" where
  "SetComparatorName name e = e\<lparr> ve_comparator := Some name \<rparr>"

definition SetLogNumber :: "u64 \<Rightarrow> VersionEdit \<Rightarrow> VersionEdit" where
  "SetLogNumber num e = e\<lparr> ve_log_number := Some num \<rparr>"

definition SetPrevLogNumber :: "u64 \<Rightarrow> VersionEdit \<Rightarrow> VersionEdit" where
  "SetPrevLogNumber num e = e\<lparr> ve_prev_log_number := Some num \<rparr>"

definition SetNextFile :: "u64 \<Rightarrow> VersionEdit \<Rightarrow> VersionEdit" where
  "SetNextFile num e = e\<lparr> ve_next_file_number := Some num \<rparr>"

definition SetLastSequence :: "SequenceNumber \<Rightarrow> VersionEdit \<Rightarrow> VersionEdit" where
  "SetLastSequence seq e = e\<lparr> ve_last_sequence := Some seq \<rparr>"

definition SetCompactPointer :: "nat \<Rightarrow> InternalKey \<Rightarrow> VersionEdit \<Rightarrow> VersionEdit" where
  "SetCompactPointer level key e = e\<lparr> ve_compact_pointers := ve_compact_pointers e @ [(level, key)] \<rparr>"

definition VersionEdit_AddFile ::
    "nat \<Rightarrow> u64 \<Rightarrow> u64 \<Rightarrow> InternalKey \<Rightarrow> InternalKey \<Rightarrow> VersionEdit \<Rightarrow> VersionEdit" where
  "VersionEdit_AddFile level number file_size smallest largest e =
     (let f = FileMetaData_new\<lparr> f_number := number, f_file_size := file_size,
                                f_smallest := smallest, f_largest := largest \<rparr>
      in e\<lparr> ve_new_files := ve_new_files e @ [(level, f)] \<rparr>)"

text \<open>\<open>std::set::insert\<close>\<close>

definition VersionEdit_RemoveFile :: "nat \<Rightarrow> u64 \<Rightarrow> VersionEdit \<Rightarrow> VersionEdit" where
  "VersionEdit_RemoveFile level number e =
     e\<lparr> ve_deleted_files := insort_insert (level, number) (ve_deleted_files e) \<rparr>"

definition kComparator :: u32 where "kComparator = 1"
definition kLogNumber :: u32 where "kLogNumber = 2"
definition kNextFileNumber :: u32 where "kNextFileNumber = 3"
definition kLastSequence :: u32 where "kLastSequence = 4"
definition kCompactPointer :: u32 where "kCompactPointer = 5"
definition kDeletedFile :: u32 where "kDeletedFile = 6"
definition kNewFile :: u32 where "kNewFile = 7"
definition kPrevLogNumber :: u32 where "kPrevLogNumber = 9"

lemmas tag_defs = kComparator_def kLogNumber_def kNextFileNumber_def kLastSequence_def kCompactPointer_def
  kDeletedFile_def kNewFile_def kPrevLogNumber_def

definition put_number :: "u32 \<Rightarrow> u64 option \<Rightarrow> slice \<Rightarrow> slice" where
  "put_number tag num dst = (case num of None \<Rightarrow> dst | Some v \<Rightarrow> PutVarint64 (PutVarint32 dst tag) v)"

definition put_compact_pointer :: "nat \<times> InternalKey \<Rightarrow> slice \<Rightarrow> slice" where
  "put_compact_pointer cp dst =
     PutLengthPrefixedSlice (PutVarint32 (PutVarint32 dst kCompactPointer) (of_nat (fst cp))) (snd cp)"

definition put_deleted_file :: "nat \<times> u64 \<Rightarrow> slice \<Rightarrow> slice" where
  "put_deleted_file df dst = PutVarint64 (PutVarint32 (PutVarint32 dst kDeletedFile) (of_nat (fst df))) (snd df)"

definition put_new_file :: "nat \<times> FileMetaData \<Rightarrow> slice \<Rightarrow> slice" where
  "put_new_file nf dst =
     (let f = snd nf;
          dst = PutVarint32 (PutVarint32 dst kNewFile) (of_nat (fst nf));
          dst = PutVarint64 (PutVarint64 dst (f_number f)) (f_file_size f)
      in PutLengthPrefixedSlice (PutLengthPrefixedSlice dst (f_smallest f)) (f_largest f))"

definition VersionEdit_EncodeTo :: "slice \<Rightarrow> VersionEdit \<Rightarrow> slice" where
  "VersionEdit_EncodeTo dst e =
     (let dst = (case ve_comparator e of
                   None \<Rightarrow> dst | Some name \<Rightarrow> PutLengthPrefixedSlice (PutVarint32 dst kComparator) name);
          dst = put_number kLogNumber (ve_log_number e) dst;
          dst = put_number kPrevLogNumber (ve_prev_log_number e) dst;
          dst = put_number kNextFileNumber (ve_next_file_number e) dst;
          dst = put_number kLastSequence (ve_last_sequence e) dst;
          dst = fold put_compact_pointer (ve_compact_pointers e) dst;
          dst = fold put_deleted_file (ve_deleted_files e) dst
      in fold put_new_file (ve_new_files e) dst)"

definition GetInternalKey :: "slice \<Rightarrow> (InternalKey \<times> slice) option" where
  "GetInternalKey input =
     (case GetLengthPrefixedSlice input of
        Some (str, input) \<Rightarrow> map_option (\<lambda>k. (k, input)) (InternalKey_DecodeFrom str)
      | None \<Rightarrow> None)"

definition GetLevel :: "slice \<Rightarrow> (nat \<times> slice) option" where
  "GetLevel input =
     (case GetVarint32 input of
        Some (v, input) \<Rightarrow> if unat v < kNumLevels then Some (unat v, input) else None
      | None \<Rightarrow> None)"

text \<open>One round of the loop: the message, or the changed edit and the rest of the input.\<close>

definition DecodeFrom_tag :: "u32 \<Rightarrow> VersionEdit \<Rightarrow> slice \<Rightarrow> slice + VersionEdit \<times> slice" where
  "DecodeFrom_tag tag e input =
     (if tag = kComparator then
        (case GetLengthPrefixedSlice input of
           Some (str, input) \<Rightarrow> Inr (e\<lparr> ve_comparator := Some str \<rparr>, input)
         | None \<Rightarrow> Inl (ascii ''comparator name''))
      else if tag = kLogNumber then
        (case GetVarint64 input of
           Some (num, input) \<Rightarrow> Inr (e\<lparr> ve_log_number := Some num \<rparr>, input)
         | None \<Rightarrow> Inl (ascii ''log number''))
      else if tag = kPrevLogNumber then
        (case GetVarint64 input of
           Some (num, input) \<Rightarrow> Inr (e\<lparr> ve_prev_log_number := Some num \<rparr>, input)
         | None \<Rightarrow> Inl (ascii ''previous log number''))
      else if tag = kNextFileNumber then
        (case GetVarint64 input of
           Some (num, input) \<Rightarrow> Inr (e\<lparr> ve_next_file_number := Some num \<rparr>, input)
         | None \<Rightarrow> Inl (ascii ''next file number''))
      else if tag = kLastSequence then
        (case GetVarint64 input of
           Some (num, input) \<Rightarrow> Inr (e\<lparr> ve_last_sequence := Some num \<rparr>, input)
         | None \<Rightarrow> Inl (ascii ''last sequence number''))
      else if tag = kCompactPointer then
        (case GetLevel input of
           Some (level, input) \<Rightarrow>
             (case GetInternalKey input of
                Some (key, input) \<Rightarrow>
                  Inr (e\<lparr> ve_compact_pointers := ve_compact_pointers e @ [(level, key)] \<rparr>, input)
              | None \<Rightarrow> Inl (ascii ''compaction pointer''))
         | None \<Rightarrow> Inl (ascii ''compaction pointer''))
      else if tag = kDeletedFile then
        (case GetLevel input of
           Some (level, input) \<Rightarrow>
             (case GetVarint64 input of
                Some (number, input) \<Rightarrow> Inr (VersionEdit_RemoveFile level number e, input)
              | None \<Rightarrow> Inl (ascii ''deleted file''))
         | None \<Rightarrow> Inl (ascii ''deleted file''))
      else if tag = kNewFile then
        (case Option.bind (GetLevel input) (\<lambda>(level, input).
              Option.bind (GetVarint64 input) (\<lambda>(number, input).
              Option.bind (GetVarint64 input) (\<lambda>(file_size, input).
              Option.bind (GetInternalKey input) (\<lambda>(smallest, input).
              Option.bind (GetInternalKey input) (\<lambda>(largest, input).
                Some (level, number, file_size, smallest, largest, input)))))) of
           Some (level, number, file_size, smallest, largest, input) \<Rightarrow>
             Inr (VersionEdit_AddFile level number file_size smallest largest e, input)
         | None \<Rightarrow> Inl (ascii ''new-file entry''))
      else Inl (ascii ''unknown tag''))"

lemma GetLevel_shorter: "GetLevel p = Some (v, q) \<Longrightarrow> length q < length p"
  by (auto simp: GetLevel_def split: option.splits if_splits dest: GetVarint32_shorter)

lemma GetInternalKey_shorter: "GetInternalKey p = Some (v, q) \<Longrightarrow> length q < length p"
  by (auto simp: GetInternalKey_def split: option.splits dest: GetLengthPrefixedSlice_shorter)

lemmas decode_shorter = GetLevel_shorter GetInternalKey_shorter GetVarint64_shorter GetVarint32_shorter
  GetLengthPrefixedSlice_shorter

lemma DecodeFrom_tag_shorter: "DecodeFrom_tag tag e input = Inr (e', rest) \<Longrightarrow> length rest < length input"
  by (fastforce simp: DecodeFrom_tag_def bind_eq_Some_conv split: option.splits if_splits dest: decode_shorter)

text \<open>The message if one was set, the edit and the unread input.\<close>

function DecodeFrom_loop :: "VersionEdit \<Rightarrow> slice \<Rightarrow> slice option \<times> VersionEdit \<times> slice" where
  "DecodeFrom_loop e input =
     (case GetVarint32 input of
        None \<Rightarrow> (None, e, input)
      | Some (tag, input) \<Rightarrow>
          (case DecodeFrom_tag tag e input of
             Inl m \<Rightarrow> (Some m, e, input)
           | Inr (e, input) \<Rightarrow> DecodeFrom_loop e input))"
  by pat_completeness auto
termination
  by (relation "measure (\<lambda>(e, input). length input)") (auto dest!: GetVarint32_shorter DecodeFrom_tag_shorter)

declare DecodeFrom_loop.simps [simp del]

definition VersionEdit_DecodeFrom :: "slice \<Rightarrow> Status \<times> VersionEdit" where
  "VersionEdit_DecodeFrom src =
     (case DecodeFrom_loop VersionEdit_new src of
        (m, e, input) \<Rightarrow>
          (let m = (if m = None \<and> input \<noteq> [] then Some (ascii ''invalid tag'') else m)
           in (case m of None \<Rightarrow> OK | Some m \<Rightarrow> Corruption (ascii ''VersionEdit'') m, e)))"

section \<open>Well-formed edits\<close>

definition key_ok :: "InternalKey \<Rightarrow> bool" where
  "key_ok k \<longleftrightarrow> k \<noteq> [] \<and> length k < 2 ^ 32"

text \<open>
  What every decoded edit satisfies, and what makes an edit survive encoding: levels in range, keys
  that are not empty, lengths that fit their 32-bit prefix, and the deleted files in set order.
\<close>

definition edit_ok :: "VersionEdit \<Rightarrow> bool" where
  "edit_ok e \<longleftrightarrow>
     (\<forall>name. ve_comparator e = Some name \<longrightarrow> length name < 2 ^ 32) \<and>
     (\<forall>(level, k) \<in> set (ve_compact_pointers e). level < kNumLevels \<and> key_ok k) \<and>
     sorted (ve_deleted_files e) \<and> distinct (ve_deleted_files e) \<and>
     (\<forall>(level, n) \<in> set (ve_deleted_files e). level < kNumLevels) \<and>
     (\<forall>(level, f) \<in> set (ve_new_files e). level < kNumLevels \<and> key_ok (f_smallest f) \<and> key_ok (f_largest f) \<and>
        f = FileMetaData_new\<lparr> f_number := f_number f, f_file_size := f_file_size f,
                               f_smallest := f_smallest f, f_largest := f_largest f \<rparr>)"

section \<open>Round trip\<close>

lemmas put_defs = PutVarint32_def PutVarint64_def PutLengthPrefixedSlice_def

lemma fold_put: "(\<And>x dst. f x dst = dst @ f x []) \<Longrightarrow> fold f xs dst = dst @ concat (map (\<lambda>x. f x []) xs)"
proof (induction xs arbitrary: dst)
  case (Cons x xs)
  have "fold f (x # xs) dst = f x dst @ concat (map (\<lambda>x. f x []) xs)" unfolding fold_simps by (rule Cons.IH [OF Cons.prems])
  also have "\<dots> = dst @ f x [] @ concat (map (\<lambda>x. f x []) xs)" by (subst Cons.prems) simp
  finally show ?case by simp
next
  case Nil
  show ?case by simp
qed

lemma put_append:
  "put_number tag num dst = dst @ put_number tag num []"
  "put_compact_pointer cp dst = dst @ put_compact_pointer cp []"
  "put_deleted_file df dst = dst @ put_deleted_file df []"
  "put_new_file nf dst = dst @ put_new_file nf []"
  by (simp_all add: put_number_def put_compact_pointer_def put_deleted_file_def put_new_file_def Let_def put_defs split: option.splits)

lemma GetLevel_put: "level < kNumLevels \<Longrightarrow> GetLevel (EncodeVarint32 (of_nat level) @ rest) = Some (level, rest)"
  by (simp add: GetLevel_def coding_simps kNumLevels_def)

lemma GetInternalKey_put: "key_ok k \<Longrightarrow> GetInternalKey (EncodeVarint32 (of_nat (length k)) @ k @ rest) = Some (k, rest)"
  by (simp add: GetInternalKey_def coding_simps key_ok_def InternalKey_DecodeFrom_def)

lemmas loop_simps = DecodeFrom_loop.simps [of e "EncodeVarint32 v @ rest" for e v rest] coding_simps GetLevel_put
  GetInternalKey_put DecodeFrom_tag_def tag_defs

lemma loop_comparator:
  "length name < 2 ^ 32 \<Longrightarrow> DecodeFrom_loop e (PutLengthPrefixedSlice (PutVarint32 [] kComparator) name @ rest) =
     DecodeFrom_loop (e\<lparr> ve_comparator := Some name \<rparr>) rest"
  by (simp add: put_defs loop_simps)

lemma loop_number:
  "DecodeFrom_loop e (put_number kLogNumber num [] @ rest) =
     DecodeFrom_loop (case num of None \<Rightarrow> e | Some v \<Rightarrow> e\<lparr> ve_log_number := Some v \<rparr>) rest"
  "DecodeFrom_loop e (put_number kPrevLogNumber num [] @ rest) =
     DecodeFrom_loop (case num of None \<Rightarrow> e | Some v \<Rightarrow> e\<lparr> ve_prev_log_number := Some v \<rparr>) rest"
  "DecodeFrom_loop e (put_number kNextFileNumber num [] @ rest) =
     DecodeFrom_loop (case num of None \<Rightarrow> e | Some v \<Rightarrow> e\<lparr> ve_next_file_number := Some v \<rparr>) rest"
  "DecodeFrom_loop e (put_number kLastSequence num [] @ rest) =
     DecodeFrom_loop (case num of None \<Rightarrow> e | Some v \<Rightarrow> e\<lparr> ve_last_sequence := Some v \<rparr>) rest"
  by (cases num; simp add: put_number_def put_defs loop_simps)+

lemma loop_compact_pointers:
  "\<forall>(level, k) \<in> set cps. level < kNumLevels \<and> key_ok k \<Longrightarrow>
   DecodeFrom_loop e (concat (map (\<lambda>x. put_compact_pointer x []) cps) @ rest) =
   DecodeFrom_loop (e\<lparr> ve_compact_pointers := ve_compact_pointers e @ cps \<rparr>) rest"
proof (induction cps arbitrary: e)
  case (Cons cp cps)
  then have "DecodeFrom_loop e (put_compact_pointer cp [] @ x) =
      DecodeFrom_loop (e\<lparr> ve_compact_pointers := ve_compact_pointers e @ [cp] \<rparr>) x" for x
    by (cases cp) (simp add: put_compact_pointer_def put_defs loop_simps)
  then show ?case using Cons by simp
qed simp

lemma insort_insert_last:
  "sorted (xs @ [x]) \<Longrightarrow> distinct (xs @ [x]) \<Longrightarrow> insort_insert x xs = xs @ [x]"
  by (metis append.right_neutral distinct_append insort_insert_insort insort_is_Cons list.set_intros(1)
      not_distinct_conv_prefix sorted_insort_is_snoc sorted_append)

lemma loop_deleted_files:
  "\<forall>(level, n) \<in> set dfs. level < kNumLevels \<Longrightarrow> sorted (ve_deleted_files e @ dfs) \<Longrightarrow> distinct (ve_deleted_files e @ dfs) \<Longrightarrow>
   DecodeFrom_loop e (concat (map (\<lambda>x. put_deleted_file x []) dfs) @ rest) =
   DecodeFrom_loop (e\<lparr> ve_deleted_files := ve_deleted_files e @ dfs \<rparr>) rest"
proof (induction dfs arbitrary: e)
  case (Cons df dfs)
  have ins: "insort_insert df (ve_deleted_files e) = ve_deleted_files e @ [df]"
    using Cons.prems(2,3) by (intro insort_insert_last) (auto simp: sorted_append)
  then have "DecodeFrom_loop e (put_deleted_file df [] @ x) =
      DecodeFrom_loop (e\<lparr> ve_deleted_files := ve_deleted_files e @ [df] \<rparr>) x" for x
    using Cons.prems(1) by (cases df) (simp add: put_deleted_file_def put_defs loop_simps VersionEdit_RemoveFile_def)
  then show ?case using Cons by simp
qed simp

lemma loop_new_files:
  "\<forall>(level, f) \<in> set nfs. level < kNumLevels \<and> key_ok (f_smallest f) \<and> key_ok (f_largest f) \<and>
     f = FileMetaData_new\<lparr> f_number := f_number f, f_file_size := f_file_size f, f_smallest := f_smallest f, f_largest := f_largest f \<rparr> \<Longrightarrow>
   DecodeFrom_loop e (concat (map (\<lambda>x. put_new_file x []) nfs) @ rest) =
   DecodeFrom_loop (e\<lparr> ve_new_files := ve_new_files e @ nfs \<rparr>) rest"
proof (induction nfs arbitrary: e)
  case (Cons nf nfs)
  obtain level f where nf: "nf = (level, f)" by (cases nf)
  have "FileMetaData_new\<lparr> f_number := f_number f, f_file_size := f_file_size f, f_smallest := f_smallest f, f_largest := f_largest f \<rparr> = f"
    using Cons.prems by (simp add: nf)
  then have "DecodeFrom_loop e (put_new_file nf [] @ x) =
      DecodeFrom_loop (e\<lparr> ve_new_files := ve_new_files e @ [nf] \<rparr>) x" for x
    using Cons.prems by (simp add: nf put_new_file_def put_defs loop_simps VersionEdit_AddFile_def)
  then show ?case using Cons by simp
qed simp

lemma loop_encoded:
  assumes "edit_ok e"
  shows "DecodeFrom_loop VersionEdit_new (VersionEdit_EncodeTo [] e) = (None, e, [])"
proof -
  let ?name = "case ve_comparator e of None \<Rightarrow> [] | Some name \<Rightarrow> PutLengthPrefixedSlice (PutVarint32 [] kComparator) name"
  let ?cps = "concat (map (\<lambda>x. put_compact_pointer x []) (ve_compact_pointers e))"
  let ?dfs = "concat (map (\<lambda>x. put_deleted_file x []) (ve_deleted_files e))"
  let ?nfs = "concat (map (\<lambda>x. put_new_file x []) (ve_new_files e))"
  have enc: "VersionEdit_EncodeTo [] e = ?name @ put_number kLogNumber (ve_log_number e) [] @
      put_number kPrevLogNumber (ve_prev_log_number e) [] @ put_number kNextFileNumber (ve_next_file_number e) [] @
      put_number kLastSequence (ve_last_sequence e) [] @ ?cps @ ?dfs @ ?nfs @ []"
    unfolding VersionEdit_EncodeTo_def Let_def fold_put [of put_compact_pointer, OF put_append(2)]
      fold_put [of put_deleted_file, OF put_append(3)] fold_put [of put_new_file, OF put_append(4)]
    by (subst (1 2 3 4) put_append(1)) simp
  have name: "DecodeFrom_loop VersionEdit_new (?name @ x) = DecodeFrom_loop (VersionEdit_new\<lparr> ve_comparator := ve_comparator e \<rparr>) x" for x
    using assms loop_comparator [of _ VersionEdit_new x]
    by (cases "ve_comparator e") (simp_all add: edit_ok_def, simp add: VersionEdit_new_def)
  have stop: "DecodeFrom_loop e' [] = (None, e', [])" for e'
    by (simp add: DecodeFrom_loop.simps GetVarint32_def GetVarint32Ptr_def GetVarint32PtrFallback_def)
  define e0 where "e0 = e\<lparr> ve_compact_pointers := [], ve_deleted_files := [], ve_new_files := [] \<rparr>"
  have nums: "DecodeFrom_loop VersionEdit_new (VersionEdit_EncodeTo [] e) = DecodeFrom_loop e0 (?cps @ ?dfs @ ?nfs @ [])"
    unfolding enc name loop_number
    by (rule arg_cong [where f = "\<lambda>e. DecodeFrom_loop e x" for x])
       (cases e; simp add: e0_def VersionEdit_new_def split: option.split)
  have "DecodeFrom_loop e0 (?cps @ ?dfs @ ?nfs @ []) =
      DecodeFrom_loop (e0\<lparr> ve_compact_pointers := ve_compact_pointers e \<rparr>) (?dfs @ ?nfs @ [])"
    using assms loop_compact_pointers [of "ve_compact_pointers e" e0] by (simp add: edit_ok_def e0_def)
  also have "\<dots> = DecodeFrom_loop (e0\<lparr> ve_compact_pointers := ve_compact_pointers e, ve_deleted_files := ve_deleted_files e \<rparr>) (?nfs @ [])"
    using assms by (subst loop_deleted_files) (auto simp: edit_ok_def e0_def)
  also have "\<dots> = DecodeFrom_loop e []"
    using assms by (subst loop_new_files) (auto simp: edit_ok_def e0_def)
  finally show ?thesis using nums stop by simp
qed

lemma decoded_lengths:
  "GetLengthPrefixedSlice p = Some (s, q) \<Longrightarrow> length s < 2 ^ 32"
  "GetInternalKey p = Some (k, q) \<Longrightarrow> key_ok k"
  "GetLevel p = Some (level, q) \<Longrightarrow> level < kNumLevels"
proof -
  show 1: "GetLengthPrefixedSlice p = Some (s, q) \<Longrightarrow> length s < 2 ^ 32" for s q
    using unsigned_less [of x for x :: u32, where ?'a = nat]
    by (auto simp: GetLengthPrefixedSlice_def split: option.splits if_splits)
  show "GetInternalKey p = Some (k, q) \<Longrightarrow> key_ok k"
    using 1 by (auto simp: GetInternalKey_def InternalKey_DecodeFrom_def key_ok_def split: option.splits if_splits)
  show "GetLevel p = Some (level, q) \<Longrightarrow> level < kNumLevels"
    by (auto simp: GetLevel_def split: option.splits if_splits)
qed

lemma edit_ok_numbers [simp]:
  "edit_ok (e\<lparr> ve_log_number := x \<rparr>) = edit_ok e" "edit_ok (e\<lparr> ve_prev_log_number := x \<rparr>) = edit_ok e"
  "edit_ok (e\<lparr> ve_next_file_number := x \<rparr>) = edit_ok e" "edit_ok (e\<lparr> ve_last_sequence := y \<rparr>) = edit_ok e"
  by (simp_all add: edit_ok_def)

lemma edit_ok_changes:
  "length name < 2 ^ 32 \<Longrightarrow> edit_ok e \<Longrightarrow> edit_ok (e\<lparr> ve_comparator := Some name \<rparr>)"
  "level < kNumLevels \<Longrightarrow> key_ok k \<Longrightarrow> edit_ok e \<Longrightarrow>
     edit_ok (e\<lparr> ve_compact_pointers := ve_compact_pointers e @ [(level, k)] \<rparr>)"
  "level < kNumLevels \<Longrightarrow> key_ok k \<Longrightarrow> key_ok k' \<Longrightarrow> edit_ok e \<Longrightarrow> edit_ok (VersionEdit_AddFile level n sz k k' e)"
  by (auto simp: edit_ok_def VersionEdit_AddFile_def FileMetaData_new_def)

lemma RemoveFile_ok: "level < kNumLevels \<Longrightarrow> edit_ok e \<Longrightarrow> edit_ok (VersionEdit_RemoveFile level n e)"
  unfolding edit_ok_def VersionEdit_RemoveFile_def
  by (simp add: set_insort_insert sorted_insort_insert distinct_insort_insert)

lemma DecodeFrom_tag_ok: "DecodeFrom_tag tag e input = Inr (e', rest) \<Longrightarrow> edit_ok e \<Longrightarrow> edit_ok e'"
  unfolding DecodeFrom_tag_def
  by (auto simp: bind_eq_Some_conv split: option.splits if_splits
      intro!: edit_ok_changes RemoveFile_ok dest!: decoded_lengths)

lemma DecodeFrom_loop_ok: "edit_ok e \<Longrightarrow> edit_ok (fst (snd (DecodeFrom_loop e input)))"
proof (induction e input rule: DecodeFrom_loop.induct)
  case (1 e input)
  show ?case
    by (subst DecodeFrom_loop.simps) (use 1 DecodeFrom_tag_ok in \<open>auto split: option.splits sum.splits\<close>)
qed

section \<open>Properties\<close>

text \<open>
  C29: edits round trip through the descriptor.  Decoding the encoding of a well-formed edit gives
  \<open>OK\<close> and the same edit: every optional field, the compaction pointers, deleted and new files.
\<close>

theorem version_edit_roundtrip:
  assumes "edit_ok e"
  shows "VersionEdit_DecodeFrom (VersionEdit_EncodeTo [] e) = (OK, e)"
  by (simp add: VersionEdit_DecodeFrom_def loop_encoded [OF assms])

theorem version_edit_roundtrip_witness:
  "VersionEdit_DecodeFrom (VersionEdit_EncodeTo []
     (VersionEdit_RemoveFile 1 4 (VersionEdit_RemoveFile 0 9
       (VersionEdit_AddFile 2 7 100 [1] [2] (SetLogNumber 5 VersionEdit_new))))) =
   (OK, VersionEdit_RemoveFile 1 4 (VersionEdit_RemoveFile 0 9
       (VersionEdit_AddFile 2 7 100 [1] [2] (SetLogNumber 5 VersionEdit_new))))"
  by (rule version_edit_roundtrip)
     (simp add: edit_ok_def VersionEdit_RemoveFile_def VersionEdit_AddFile_def SetLogNumber_def VersionEdit_new_def
       FileMetaData_new_def key_ok_def kNumLevels_def insort_insert_key_def)

text \<open>
  C30: whatever bytes it is given, decoding terminates with a well-formed edit: every level is below
  \<open>kNumLevels\<close>, no key is empty, the deleted files are in order and distinct.
\<close>

theorem version_edit_decoded_ok:
  "edit_ok (snd (VersionEdit_DecodeFrom src))"
proof -
  have "edit_ok VersionEdit_new" by (simp add: edit_ok_def VersionEdit_new_def)
  from DecodeFrom_loop_ok [OF this, of src] show ?thesis
    by (auto simp: VersionEdit_DecodeFrom_def Let_def split: prod.splits)
qed

end
