(* ===== verification/Version.thy ===== *)
theory Version
  imports Complex_Main VersionEdit MemTable Options Iterator
begin

text \<open>
  The parts of \<open>db/version_set.cc\<close> that read one version of the file set: finding files, overlap
  tests, lookups through the levels, and choosing the level of a new file.  A pointer to the
  metadata of a file is the metadata; the table cache is a parameter.
\<close>

section \<open>Definitions\<close>

definition TargetFileSize :: "Options \<Rightarrow> int" where
  "TargetFileSize options = int (max_file_size options)"

definition MaxGrandParentOverlapBytes :: "Options \<Rightarrow> int" where
  "MaxGrandParentOverlapBytes options = 10 * TargetFileSize options"

definition ExpandedCompactionByteSizeLimit :: "Options \<Rightarrow> int" where
  "ExpandedCompactionByteSizeLimit options = 25 * TargetFileSize options"

definition MaxFileSizeForLevel :: "Options \<Rightarrow> nat \<Rightarrow> int" where
  "MaxFileSizeForLevel options level = TargetFileSize options"

text \<open>An \<open>int64_t\<close> that wraps.\<close>

definition TotalFileSize :: "FileMetaData list \<Rightarrow> int" where
  "TotalFileSize files = sint (sum_list (map f_file_size files))"

definition InternalKey_user_key :: "InternalKey \<Rightarrow> slice" where
  "InternalKey_user_key k = ExtractUserKey k"

text \<open>The binary search, on \<open>[left, right)\<close>.\<close>

function FindFile_loop :: "Comparator \<Rightarrow> FileMetaData list \<Rightarrow> slice \<Rightarrow> nat \<Rightarrow> nat \<Rightarrow> nat" where
  "FindFile_loop icmp files key left right =
     (if left < right then
        (let mid = (left + right) div 2; f = files ! mid
         in if Compare icmp (f_largest f) key < 0 then FindFile_loop icmp files key (mid + 1) right
            else FindFile_loop icmp files key left mid)
      else right)"
  by pat_completeness auto
termination
  by (relation "measure (\<lambda>(icmp, files, key, left, right). right - left)") auto

declare FindFile_loop.simps [simp del]

definition FindFile :: "Comparator \<Rightarrow> FileMetaData list \<Rightarrow> slice \<Rightarrow> nat" where
  "FindFile icmp files key = FindFile_loop icmp files key 0 (length files)"

text \<open>A null pointer to a user key is \<^term>\<open>None\<close>.\<close>

definition AfterFile :: "Comparator \<Rightarrow> slice option \<Rightarrow> FileMetaData \<Rightarrow> bool" where
  "AfterFile ucmp ukey f =
     (case ukey of None \<Rightarrow> False | Some k \<Rightarrow> Compare ucmp k (InternalKey_user_key (f_largest f)) > 0)"

definition BeforeFile :: "Comparator \<Rightarrow> slice option \<Rightarrow> FileMetaData \<Rightarrow> bool" where
  "BeforeFile ucmp ukey f =
     (case ukey of None \<Rightarrow> False | Some k \<Rightarrow> Compare ucmp k (InternalKey_user_key (f_smallest f)) < 0)"

definition SomeFileOverlapsRange ::
    "Comparator \<Rightarrow> bool \<Rightarrow> FileMetaData list \<Rightarrow> slice option \<Rightarrow> slice option \<Rightarrow> bool" where
  "SomeFileOverlapsRange ucmp disjoint_sorted_files files smallest_user_key largest_user_key =
     (if \<not> disjoint_sorted_files
      then list_ex (\<lambda>f. \<not> (AfterFile ucmp smallest_user_key f \<or> BeforeFile ucmp largest_user_key f)) files
      else
        (let index = (case smallest_user_key of
                        None \<Rightarrow> 0
                      | Some k \<Rightarrow> FindFile (InternalKeyComparator ucmp) files
                                   (InternalKey_new k kMaxSequenceNumber kValueTypeForSeek))
         in if index \<ge> length files then False else \<not> BeforeFile ucmp largest_user_key (files ! index)))"

text \<open>\<open>LevelFileNumIterator\<close>: its state is \<open>index_\<close>.\<close>

definition file_value :: "FileMetaData \<Rightarrow> slice" where
  "file_value f = EncodeFixed64 (f_number f) @ EncodeFixed64 (f_file_size f)"

definition LevelFileNumIterator :: "Comparator \<Rightarrow> FileMetaData list \<Rightarrow> nat Iterator" where
  "LevelFileNumIterator icmp flist =
     \<lparr> it_Valid = (\<lambda>i. i < length flist),
       it_SeekToFirst = (\<lambda>i. 0),
       it_SeekToLast = (\<lambda>i. if flist = [] then 0 else length flist - 1),
       it_Seek = (\<lambda>target i. FindFile icmp flist target),
       it_Next = (\<lambda>i. i + 1),
       it_Prev = (\<lambda>i. if i = 0 then length flist else i - 1),
       it_key = (\<lambda>i. f_largest (flist ! i)),
       it_value = (\<lambda>i. file_value (flist ! i)),
       it_status = (\<lambda>i. OK) \<rparr>"

definition LevelFileNumIterator_new :: "FileMetaData list \<Rightarrow> nat" where
  "LevelFileNumIterator_new flist = length flist"

text \<open>
  A version.  The counters \<open>allowed_seeks\<close> live in the metadata of its files; the list of versions
  and the back pointer belong to the version set.
\<close>

record Version =
  v_refs :: nat
  v_files :: "FileMetaData list list"
  v_file_to_compact :: "(FileMetaData \<times> nat) option"
  v_compaction_score :: rat
  v_compaction_level :: int

definition Version_new :: Version where
  "Version_new =
     \<lparr> v_refs = 0, v_files = replicate kNumLevels [], v_file_to_compact = None,
       v_compaction_score = -1, v_compaction_level = -1 \<rparr>"

datatype SaverState = SaverNotFound | SaverFound | SaverDeleted | SaverCorrupt

record Saver =
  saver_state :: SaverState
  saver_user_key :: slice
  saver_value :: "slice option"

definition SaveValue :: "Comparator \<Rightarrow> slice \<Rightarrow> slice \<Rightarrow> Saver \<Rightarrow> Saver" where
  "SaveValue ucmp ikey v s =
     (case ParseInternalKey ikey of
        None \<Rightarrow> s\<lparr> saver_state := SaverCorrupt \<rparr>
      | Some parsed_key \<Rightarrow>
          if Compare ucmp (user_key parsed_key) (saver_user_key s) = 0 then
            (if ikey_type parsed_key = kTypeValue
             then s\<lparr> saver_state := SaverFound, saver_value := Some v \<rparr>
             else s\<lparr> saver_state := SaverDeleted \<rparr>)
          else s)"

text \<open>
  \<open>ForEachOverlapping\<close> calls \<open>func\<close> on a state and stops when it returns \<^term>\<open>False\<close>.  Level-0 files are
  visited by descending number; \<open>std::sort\<close> leaves no choice as the numbers differ.
\<close>

fun each_file :: "('s \<Rightarrow> nat \<Rightarrow> FileMetaData \<Rightarrow> bool \<times> 's) \<Rightarrow> nat \<Rightarrow> FileMetaData list \<Rightarrow> 's \<Rightarrow> bool \<times> 's" where
  "each_file func level [] s = (True, s)"
| "each_file func level (f # fs) s =
     (case func s level f of (go, s) \<Rightarrow> if go then each_file func level fs s else (False, s))"

fun each_level ::
    "Comparator \<Rightarrow> slice \<Rightarrow> slice \<Rightarrow> ('s \<Rightarrow> nat \<Rightarrow> FileMetaData \<Rightarrow> bool \<times> 's) \<Rightarrow>
     (nat \<times> FileMetaData list) list \<Rightarrow> 's \<Rightarrow> 's" where
  "each_level ucmp ukey ikey func [] s = s"
| "each_level ucmp ukey ikey func ((level, files) # ls) s =
     (let index = FindFile (InternalKeyComparator ucmp) files ikey
      in if index < length files then
           (let f = files ! index
            in if Compare ucmp ukey (InternalKey_user_key (f_smallest f)) < 0
               then each_level ucmp ukey ikey func ls s
               else (case func s level f of
                       (go, s) \<Rightarrow> if go then each_level ucmp ukey ikey func ls s else s))
         else each_level ucmp ukey ikey func ls s)"

definition NewestFirst :: "FileMetaData list \<Rightarrow> FileMetaData list" where
  "NewestFirst files = rev (sort_key f_number files)"

definition ForEachOverlapping ::
    "Comparator \<Rightarrow> Version \<Rightarrow> slice \<Rightarrow> slice \<Rightarrow> ('s \<Rightarrow> nat \<Rightarrow> FileMetaData \<Rightarrow> bool \<times> 's) \<Rightarrow> 's \<Rightarrow> 's" where
  "ForEachOverlapping ucmp v ukey ikey func s =
     (let tmp = filter (\<lambda>f. Compare ucmp ukey (InternalKey_user_key (f_smallest f)) \<ge> 0 \<and>
                            Compare ucmp ukey (InternalKey_user_key (f_largest f)) \<le> 0) (v_files v ! 0);
          (go, s) = each_file func 0 (NewestFirst tmp) s
      in if go
         then each_level ucmp ukey ikey func (map (\<lambda>level. (level, v_files v ! level)) [1..<kNumLevels]) s
         else s)"

record GetState =
  gs_saver :: Saver
  gs_seek_file :: "(FileMetaData \<times> nat) option"
  gs_last_file_read :: "(FileMetaData \<times> nat) option"
  gs_s :: Status
  gs_found :: bool

text \<open>
  \<open>TableCache::Get\<close> as a parameter: for a file number, file size and internal key, the status and
  the entry it passes to the callback, if any.
\<close>

type_synonym table_get = "u64 \<Rightarrow> u64 \<Rightarrow> slice \<Rightarrow> Status \<times> kv option"

definition Get_Match :: "Comparator \<Rightarrow> table_get \<Rightarrow> slice \<Rightarrow> GetState \<Rightarrow> nat \<Rightarrow> FileMetaData \<Rightarrow> bool \<times> GetState" where
  "Get_Match ucmp tget ikey st level f =
     (let st = (if gs_seek_file st = None \<and> gs_last_file_read st \<noteq> None
                then st\<lparr> gs_seek_file := gs_last_file_read st \<rparr> else st);
          st = st\<lparr> gs_last_file_read := Some (f, level) \<rparr>;
          (s, entry) = tget (f_number f) (f_file_size f) ikey;
          st = st\<lparr> gs_s := s,
                   gs_saver := (case entry of None \<Rightarrow> gs_saver st | Some (k, v) \<Rightarrow> SaveValue ucmp k v (gs_saver st)) \<rparr>
      in if \<not> ok s then (False, st\<lparr> gs_found := True \<rparr>)
         else (case saver_state (gs_saver st) of
                 SaverNotFound \<Rightarrow> (True, st)
               | SaverFound \<Rightarrow> (False, st\<lparr> gs_found := True \<rparr>)
               | SaverDeleted \<Rightarrow> (False, st)
               | SaverCorrupt \<Rightarrow>
                   (False, st\<lparr> gs_s := Corruption (ascii ''corrupted key for '') (saver_user_key (gs_saver st)),
                               gs_found := True \<rparr>)))"

text \<open>The status, the value, and \<open>seek_file\<close> with its level.\<close>

definition Version_Get ::
    "Comparator \<Rightarrow> table_get \<Rightarrow> Version \<Rightarrow> LookupKey \<Rightarrow> Status \<times> slice option \<times> (FileMetaData \<times> nat) option" where
  "Version_Get ucmp tget v k =
     (let ikey = internal_key k;
          st = \<lparr> gs_saver = \<lparr> saver_state = SaverNotFound, saver_user_key = LookupKey_user_key k, saver_value = None \<rparr>,
                 gs_seek_file = None, gs_last_file_read = None, gs_s = OK, gs_found = False \<rparr>;
          st = ForEachOverlapping ucmp v (LookupKey_user_key k) ikey (Get_Match ucmp tget ikey) st
      in (if gs_found st then gs_s st else NotFound [] [], saver_value (gs_saver st), gs_seek_file st))"

text \<open>\<open>f->allowed_seeks--\<close> on the version's own metadata of the file.\<close>

definition UpdateStats :: "(FileMetaData \<times> nat) option \<Rightarrow> Version \<Rightarrow> bool \<times> Version" where
  "UpdateStats stats v =
     (case stats of
        None \<Rightarrow> (False, v)
      | Some (f, level) \<Rightarrow>
          (let seeks = f_allowed_seeks f - 1;
               f' = f\<lparr> f_allowed_seeks := seeks \<rparr>;
               v = v\<lparr> v_files := map (map (\<lambda>g. if f_number g = f_number f then g\<lparr> f_allowed_seeks := seeks \<rparr> else g))
                                  (v_files v) \<rparr>
           in if seeks \<le> 0 \<and> v_file_to_compact v = None
              then (True, v\<lparr> v_file_to_compact := Some (f', level) \<rparr>)
              else (False, v)))"

definition RecordReadSample_Match ::
    "(FileMetaData \<times> nat) option \<times> nat \<Rightarrow> nat \<Rightarrow> FileMetaData \<Rightarrow> bool \<times> (FileMetaData \<times> nat) option \<times> nat" where
  "RecordReadSample_Match st level f =
     (case st of (stats, matches) \<Rightarrow>
        (let matches = matches + 1;
             stats = (if matches = 1 then Some (f, level) else stats)
         in (matches < 2, stats, matches)))"

definition RecordReadSample :: "Comparator \<Rightarrow> slice \<Rightarrow> Version \<Rightarrow> bool \<times> Version" where
  "RecordReadSample ucmp ikey v =
     (case ParseInternalKey ikey of
        None \<Rightarrow> (False, v)
      | Some k \<Rightarrow>
          (case ForEachOverlapping ucmp v (user_key k) ikey RecordReadSample_Match (None, 0) of
             (stats, matches) \<Rightarrow> if matches \<ge> 2 then UpdateStats stats v else (False, v)))"

definition Version_Ref :: "Version \<Rightarrow> Version" where
  "Version_Ref v = v\<lparr> v_refs := v_refs v + 1 \<rparr>"

definition Version_Unref :: "Version \<Rightarrow> Version option" where
  "Version_Unref v = (let v = v\<lparr> v_refs := v_refs v - 1 \<rparr> in if v_refs v = 0 then None else Some v)"

definition OverlapInLevel :: "Comparator \<Rightarrow> Version \<Rightarrow> nat \<Rightarrow> slice option \<Rightarrow> slice option \<Rightarrow> bool" where
  "OverlapInLevel ucmp v level smallest_user_key largest_user_key =
     SomeFileOverlapsRange ucmp (level > 0) (v_files v ! level) smallest_user_key largest_user_key"

text \<open>
  The loop of \<open>GetOverlappingInputs\<close>; on level 0 it starts again when a file widens the range.  With
  a comparator that is not an order it may run for ever.
\<close>

partial_function (option) GetOverlappingInputs_loop ::
    "Comparator \<Rightarrow> nat \<Rightarrow> FileMetaData list \<Rightarrow> nat \<Rightarrow> slice option \<Rightarrow> slice option \<Rightarrow> FileMetaData list \<Rightarrow>
     FileMetaData list option" where
  "GetOverlappingInputs_loop ucmp level files i user_begin user_end inputs =
     (if i < length files then
        (let f = files ! i;
             i = i + 1;
             file_start = InternalKey_user_key (f_smallest f);
             file_limit = InternalKey_user_key (f_largest f)
         in if user_begin \<noteq> None \<and> Compare ucmp file_limit (the user_begin) < 0
            then GetOverlappingInputs_loop ucmp level files i user_begin user_end inputs
            else if user_end \<noteq> None \<and> Compare ucmp file_start (the user_end) > 0
            then GetOverlappingInputs_loop ucmp level files i user_begin user_end inputs
            else if level = 0 \<and> user_begin \<noteq> None \<and> Compare ucmp file_start (the user_begin) < 0
            then GetOverlappingInputs_loop ucmp level files 0 (Some file_start) user_end []
            else if level = 0 \<and> user_end \<noteq> None \<and> Compare ucmp file_limit (the user_end) > 0
            then GetOverlappingInputs_loop ucmp level files 0 user_begin (Some file_limit) []
            else GetOverlappingInputs_loop ucmp level files i user_begin user_end (inputs @ [f]))
      else Some inputs)"

definition GetOverlappingInputs ::
    "Comparator \<Rightarrow> Version \<Rightarrow> nat \<Rightarrow> InternalKey option \<Rightarrow> InternalKey option \<Rightarrow> FileMetaData list option" where
  "GetOverlappingInputs ucmp v level begin_key end_key =
     GetOverlappingInputs_loop ucmp level (v_files v ! level) 0
       (map_option InternalKey_user_key begin_key) (map_option InternalKey_user_key end_key) []"

text \<open>The loop of \<open>PickLevelForMemTableOutput\<close>.\<close>

function PickLevel_loop :: "Comparator \<Rightarrow> Options \<Rightarrow> Version \<Rightarrow> slice \<Rightarrow> slice \<Rightarrow> nat \<Rightarrow> nat option" where
  "PickLevel_loop ucmp options v smallest_user_key largest_user_key level =
     (if level < kMaxMemCompactLevel then
        (if OverlapInLevel ucmp v (level + 1) (Some smallest_user_key) (Some largest_user_key) then Some level
         else if level + 2 < kNumLevels then
           (case GetOverlappingInputs ucmp v (level + 2)
                   (Some (InternalKey_new smallest_user_key kMaxSequenceNumber kValueTypeForSeek))
                   (Some (InternalKey_new largest_user_key 0 kTypeDeletion)) of
              None \<Rightarrow> None
            | Some overlaps \<Rightarrow>
                if TotalFileSize overlaps > MaxGrandParentOverlapBytes options then Some level
                else PickLevel_loop ucmp options v smallest_user_key largest_user_key (level + 1))
         else PickLevel_loop ucmp options v smallest_user_key largest_user_key (level + 1))
      else Some level)"
  by pat_completeness auto
termination
  by (relation "measure (\<lambda>(ucmp, options, v, s, l, level). kMaxMemCompactLevel - level)") auto

declare PickLevel_loop.simps [simp del]

definition PickLevelForMemTableOutput :: "Comparator \<Rightarrow> Options \<Rightarrow> Version \<Rightarrow> slice \<Rightarrow> slice \<Rightarrow> nat option" where
  "PickLevelForMemTableOutput ucmp options v smallest_user_key largest_user_key =
     (if \<not> OverlapInLevel ucmp v 0 (Some smallest_user_key) (Some largest_user_key)
      then PickLevel_loop ucmp options v smallest_user_key largest_user_key 0
      else Some 0)"

definition NumFiles :: "Version \<Rightarrow> nat \<Rightarrow> nat" where
  "NumFiles v level = length (v_files v ! level)"

section \<open>Sorted levels\<close>

abbreviation file_start :: "FileMetaData \<Rightarrow> slice" where
  "file_start f \<equiv> InternalKey_user_key (f_smallest f)"

abbreviation file_limit :: "FileMetaData \<Rightarrow> slice" where
  "file_limit f \<equiv> InternalKey_user_key (f_largest f)"

definition file_kvs :: "FileMetaData list \<Rightarrow> kv list" where
  "file_kvs files = map (\<lambda>f. (f_largest f, file_value f)) files"

text \<open>The metadata of a file is valid: two well-formed internal keys in order.\<close>

definition file_ok :: "Comparator \<Rightarrow> FileMetaData \<Rightarrow> bool" where
  "file_ok c f \<longleftrightarrow> ParseInternalKey (f_smallest f) \<noteq> None \<and> ParseInternalKey (f_largest f) \<noteq> None \<and>
     InternalKey_Compare c (f_smallest f) (f_largest f) \<le> 0"

text \<open>The files of a level above 0: disjoint and in order.\<close>

definition level_sorted :: "Comparator \<Rightarrow> FileMetaData list \<Rightarrow> bool" where
  "level_sorted c files \<longleftrightarrow> (\<forall>f \<in> set files. file_ok c f) \<and>
     sorted_wrt (\<lambda>f g. InternalKey_Compare c (f_largest f) (f_smallest g) < 0) files"

text \<open>A file overlaps a range of user keys, whose ends may be missing.\<close>

definition file_overlaps :: "Comparator \<Rightarrow> slice option \<Rightarrow> slice option \<Rightarrow> FileMetaData \<Rightarrow> bool" where
  "file_overlaps c b e f \<longleftrightarrow> \<not> AfterFile c b f \<and> \<not> BeforeFile c e f"

lemma length_file_kvs [simp]: "length (file_kvs files) = length files"
  by (simp add: file_kvs_def)

lemma file_kvs_nth [simp]: "i < length files \<Longrightarrow> file_kvs files ! i = (f_largest (files ! i), file_value (files ! i))"
  by (simp add: file_kvs_def)

lemma FindFile_loop_between:
  assumes "three_way (Compare icmp)" "sorted_kvs (Compare icmp) (file_kvs files)"
    and "l \<le> lower_bound (Compare icmp) key (file_kvs files)" "lower_bound (Compare icmp) key (file_kvs files) \<le> r"
    and "r \<le> length files"
  shows "FindFile_loop icmp files key l r = lower_bound (Compare icmp) key (file_kvs files)"
  using assms(3-5)
proof (induction "r - l" arbitrary: l r rule: less_induct)
  case less
  let ?lb = "lower_bound (Compare icmp) key (file_kvs files)" and ?m = "(l + r) div 2"
  show ?case
  proof (cases "l < r")
    case True
    then have m: "?m < length files" "l \<le> ?m" "?m < r" using less.prems by auto
    have lb: "?m < ?lb \<longleftrightarrow> Compare icmp (f_largest (files ! ?m)) key < 0"
      using three_way.lower_bound_le_iff [OF assms(1,2), of ?m key] m(1) by simp
    show ?thesis
    proof (cases "?m < ?lb")
      case less_lb: True
      then have "FindFile_loop icmp files key (?m + 1) r = ?lb" using m less.prems by (intro less.hyps) auto
      then show ?thesis using True lb less_lb by (subst FindFile_loop.simps) (simp add: Let_def)
    next
      case False
      then have "FindFile_loop icmp files key l ?m = ?lb" using m less.prems by (intro less.hyps) auto
      then show ?thesis using True lb False by (subst FindFile_loop.simps) (simp add: Let_def)
    qed
  next
    case False
    then show ?thesis using less.prems by (subst FindFile_loop.simps) simp
  qed
qed

lemma FindFile_lower_bound:
  "three_way (Compare icmp) \<Longrightarrow> sorted_kvs (Compare icmp) (file_kvs files) \<Longrightarrow>
   FindFile icmp files key = lower_bound (Compare icmp) key (file_kvs files)"
  using FindFile_loop_between [of icmp files 0 key "length files"] lower_bound_le [of "Compare icmp" key "file_kvs files"]
  by (simp add: FindFile_def)

text \<open>The iterator over the files of a level is a cursor over their largest keys.\<close>

definition level_cursor :: "(slice \<Rightarrow> slice \<Rightarrow> int) \<Rightarrow> FileMetaData list \<Rightarrow> nat \<Rightarrow> kv list \<Rightarrow> nat \<Rightarrow> bool" where
  "level_cursor cmp flist i kvs j \<longleftrightarrow> kvs = file_kvs flist \<and> sorted_kvs cmp kvs \<and> i = j \<and> j \<le> length kvs"

lemma level_iterator:
  assumes "three_way (Compare icmp)"
  shows "iterator (Compare icmp) (LevelFileNumIterator icmp flist) (level_cursor (Compare icmp) flist)"
  by (intro iterator.intro [OF assms] iterator_axioms.intro)
     (auto simp: LevelFileNumIterator_def level_cursor_def FindFile_lower_bound [OF assms] lower_bound_le [of _ _ "file_kvs flist", simplified])

lemma bytewise_internal_three_way: "three_way (Compare (InternalKeyComparator BytewiseComparator))"
  unfolding InternalKeyComparator_simps by (rule bytewise_order.internal_three_way)

interpretation level_files: iterator "Compare (InternalKeyComparator BytewiseComparator)"
    "LevelFileNumIterator (InternalKeyComparator BytewiseComparator) flist"
    "level_cursor (Compare (InternalKeyComparator BytewiseComparator)) flist" for flist
  by (rule level_iterator [OF bytewise_internal_three_way])

text \<open>Valid internal keys against the seek key of a user key.\<close>

lemma valid_key_num:
  assumes "ParseInternalKey k = Some p"
  shows "ExtractUserKey k = user_key p" "ikey_num k = PackSequenceAndType (sequence p) (ikey_type p)"
    "sequence p \<le> kMaxSequenceNumber"
  using ParseInternalKey_Some [OF assms] by (auto simp: AppendInternalKey_eq)

lemma Pack_le_max:
  assumes "s \<le> kMaxSequenceNumber"
  shows "PackSequenceAndType s t \<le> PackSequenceAndType kMaxSequenceNumber kValueTypeForSeek"
proof -
  have "unat (PackSequenceAndType s t) \<le> unat (PackSequenceAndType kMaxSequenceNumber kValueTypeForSeek)"
    using assms unat_Pack [OF assms, of t] unat_Pack [of kMaxSequenceNumber kValueTypeForSeek]
    by (cases t) (simp_all add: kValueTypeForSeek_def word_le_nat_alt)
  then show ?thesis by (simp add: word_le_nat_alt)
qed

lemma InternalKey_new_parts [simp]:
  "ExtractUserKey (InternalKey_new u s t) = u" "ikey_num (InternalKey_new u s t) = PackSequenceAndType s t"
  by (simp_all add: InternalKey_new_def AppendInternalKey_eq)

lemma below_seek_key:
  assumes "ParseInternalKey k \<noteq> None"
  shows "InternalKey_Compare c k (InternalKey_new u kMaxSequenceNumber kValueTypeForSeek) < 0 \<longleftrightarrow> Compare c (ExtractUserKey k) u < 0"
proof -
  obtain p where p: "ParseInternalKey k = Some p" using assms by blast
  have "\<not> PackSequenceAndType kMaxSequenceNumber kValueTypeForSeek < ikey_num k"
    using Pack_le_max [OF valid_key_num(3) [OF p]] valid_key_num(2) [OF p] by (simp add: not_less)
  then show ?thesis by (auto simp: InternalKey_Compare_iff)
qed

context internal_order
begin

lemma level_sorted_kvs:
  assumes "level_sorted c files"
  shows "sorted_kvs (InternalKey_Compare c) (file_kvs files)"
proof -
  note ik = three_way.cmp_less_le_trans [OF internal_three_way]
  have ok: "\<forall>f \<in> set files. InternalKey_Compare c (f_smallest f) (f_largest f) \<le> 0"
    using assms by (simp add: level_sorted_def file_ok_def)
  have "sorted_wrt (\<lambda>f g. InternalKey_Compare c (f_largest f) (f_smallest g) < 0) files" using assms by (simp add: level_sorted_def)
  then have "sorted_wrt (\<lambda>f g. InternalKey_Compare c (f_largest f) (f_largest g) < 0) files"
    by (rule sorted_wrt_mono_rel [rotated]) (use ik ok in blast)
  then show ?thesis by (simp add: sorted_kvs_def file_kvs_def sorted_wrt_map)
qed

lemma FindFile_level:
  "level_sorted c files \<Longrightarrow> FindFile (InternalKeyComparator c) files key = lower_bound (InternalKey_Compare c) key (file_kvs files)"
  using FindFile_lower_bound [of "InternalKeyComparator c"] internal_three_way level_sorted_kvs by simp

lemma file_ok_user: "file_ok c f \<Longrightarrow> Compare c (file_start f) (file_limit f) \<le> 0"
  using InternalKey_Compare_iff [of c "f_smallest f" "f_largest f"]
  by (auto simp: file_ok_def InternalKey_user_key_def le_less)

text \<open>In a sorted level the starts are in order.\<close>

lemma level_starts:
  assumes "level_sorted c files" "i < j" "j < length files"
  shows "Compare c (file_limit (files ! i)) (file_start (files ! j)) \<le> 0"
    "Compare c (file_start (files ! i)) (file_start (files ! j)) \<le> 0"
proof -
  have "InternalKey_Compare c (f_largest (files ! i)) (f_smallest (files ! j)) < 0"
    using assms by (simp add: level_sorted_def sorted_wrt_iff_nth_less)
  then show 1: "Compare c (file_limit (files ! i)) (file_start (files ! j)) \<le> 0"
    by (auto simp: InternalKey_Compare_iff InternalKey_user_key_def)
  have "file_ok c (files ! i)" using assms by (simp add: level_sorted_def)
  from user.cmp_trans [OF file_ok_user [OF this] 1] show "Compare c (file_start (files ! i)) (file_start (files ! j)) \<le> 0" .
qed

lemma BeforeFile_mono: "Compare c (file_start f) (file_start g) \<le> 0 \<Longrightarrow> BeforeFile c e f \<Longrightarrow> BeforeFile c e g"
  using user.cmp_less_le_trans by (auto simp: BeforeFile_def split: option.splits)

lemma SomeFileOverlapsRange_sorted:
  assumes ls: "level_sorted c files"
  shows "SomeFileOverlapsRange c True files lo hi \<longleftrightarrow> (\<exists>f \<in> set files. file_overlaps c lo hi f)"
proof -
  define i where "i = (case lo of None \<Rightarrow> 0 | Some k \<Rightarrow> FindFile (InternalKeyComparator c) files (InternalKey_new k kMaxSequenceNumber kValueTypeForSeek))"
  have ok: "\<forall>f \<in> set files. ParseInternalKey (f_largest f) \<noteq> None" using ls by (simp add: level_sorted_def file_ok_def)
  have after: "AfterFile c lo (files ! j) \<longleftrightarrow> j < i" if "j < length files" for j
  proof (cases lo)
    case (Some k)
    have "AfterFile c lo (files ! j) \<longleftrightarrow> Compare c (file_limit (files ! j)) k < 0" using user.cmp_neg by (simp add: AfterFile_def Some)
    also have "\<dots> \<longleftrightarrow> InternalKey_Compare c (f_largest (files ! j)) (InternalKey_new k kMaxSequenceNumber kValueTypeForSeek) < 0"
      using ok that by (simp add: below_seek_key InternalKey_user_key_def)
    also have "\<dots> \<longleftrightarrow> j < i"
      using three_way.lower_bound_le_iff [OF internal_three_way level_sorted_kvs [OF ls], of j] that
      by (simp add: i_def Some FindFile_level [OF ls])
    finally show ?thesis .
  qed (simp add: AfterFile_def i_def)
  have "SomeFileOverlapsRange c True files lo hi \<longleftrightarrow> i < length files \<and> \<not> BeforeFile c hi (files ! i)"
    by (auto simp: SomeFileOverlapsRange_def i_def Let_def)
  also have "\<dots> \<longleftrightarrow> (\<exists>j < length files. \<not> AfterFile c lo (files ! j) \<and> \<not> BeforeFile c hi (files ! j))"
  proof
    assume "\<exists>j < length files. \<not> AfterFile c lo (files ! j) \<and> \<not> BeforeFile c hi (files ! j)"
    then obtain j where j: "j < length files" "i \<le> j" "\<not> BeforeFile c hi (files ! j)" using after by (auto simp: not_less)
    have "\<not> BeforeFile c hi (files ! i)"
    proof (cases "i = j")
      case False
      then have "i < j" using j(2) by simp
      from BeforeFile_mono [OF level_starts(2) [OF ls this j(1)]] j(3) show ?thesis by blast
    qed (use j(3) in simp)
    then show "i < length files \<and> \<not> BeforeFile c hi (files ! i)" using j by simp
  next
    assume "i < length files \<and> \<not> BeforeFile c hi (files ! i)"
    then show "\<exists>j < length files. \<not> AfterFile c lo (files ! j) \<and> \<not> BeforeFile c hi (files ! j)"
      using after [of i] by blast
  qed
  also have "\<dots> \<longleftrightarrow> (\<exists>f \<in> set files. file_overlaps c lo hi f)"
    unfolding file_overlaps_def by (metis in_set_conv_nth)
  finally show ?thesis .
qed

lemma SomeFileOverlapsRange_unsorted:
  "SomeFileOverlapsRange c False files lo hi \<longleftrightarrow> (\<exists>f \<in> set files. file_overlaps c lo hi f)"
  by (auto simp: SomeFileOverlapsRange_def file_overlaps_def list_ex_iff)

lemma OverlapInLevel_iff:
  assumes "level > 0 \<longrightarrow> level_sorted c (v_files v ! level)"
  shows "OverlapInLevel c v level lo hi \<longleftrightarrow> (\<exists>f \<in> set (v_files v ! level). file_overlaps c lo hi f)"
  using assms SomeFileOverlapsRange_sorted SomeFileOverlapsRange_unsorted
  by (cases "level = 0") (simp_all add: OverlapInLevel_def)

end

section \<open>Overlapping inputs\<close>

text \<open>The range covers the file.\<close>

definition file_inside :: "Comparator \<Rightarrow> slice option \<Rightarrow> slice option \<Rightarrow> FileMetaData \<Rightarrow> bool" where
  "file_inside c b e f \<longleftrightarrow>
     (\<forall>k. b = Some k \<longrightarrow> \<not> Compare c (file_start f) k < 0) \<and> (\<forall>k. e = Some k \<longrightarrow> \<not> Compare c (file_limit f) k > 0)"

text \<open>The range from \<open>b'\<close> to \<open>e'\<close> contains the one from \<open>b\<close> to \<open>e\<close>.\<close>

definition range_le :: "Comparator \<Rightarrow> slice option \<Rightarrow> slice option \<Rightarrow> slice option \<Rightarrow> slice option \<Rightarrow> bool" where
  "range_le c b e b' e' \<longleftrightarrow>
     (case b of None \<Rightarrow> b' = None | Some k \<Rightarrow> \<exists>k'. b' = Some k' \<and> Compare c k' k \<le> 0) \<and>
     (case e of None \<Rightarrow> e' = None | Some k \<Rightarrow> \<exists>k'. e' = Some k' \<and> Compare c k k' \<le> 0)"

text \<open>The number of files that can still widen the range.\<close>

definition outside :: "Comparator \<Rightarrow> FileMetaData list \<Rightarrow> slice option \<Rightarrow> slice option \<Rightarrow> nat" where
  "outside c files b e =
     length (filter (\<lambda>f. case b of None \<Rightarrow> False | Some k \<Rightarrow> Compare c (file_start f) k < 0) files) +
     length (filter (\<lambda>f. case e of None \<Rightarrow> False | Some k \<Rightarrow> Compare c (file_limit f) k > 0) files)"

lemma length_filter_strict:
  assumes "\<And>x. x \<in> set xs \<Longrightarrow> P x \<Longrightarrow> Q x" "y \<in> set xs" "Q y" "\<not> P y"
  shows "length (filter P xs) < length (filter Q xs)"
proof -
  have "filter P xs = filter P (filter Q xs)" using assms(1) by (auto intro: filter_cong)
  moreover have "length (filter P (filter Q xs)) < length (filter Q xs)"
    using assms(2-4) by (intro length_filter_less [of y]) auto
  ultimately show ?thesis by simp
qed

context internal_order
begin

lemma range_le_refl: "range_le c b e b e"
  by (simp add: range_le_def split: option.splits)

lemma outside_start:
  assumes "f \<in> set files" "Compare c (file_start f) k < 0"
  shows "outside c files (Some (file_start f)) e < outside c files (Some k) e"
proof -
  have "length (filter (\<lambda>g. Compare c (file_start g) (file_start f) < 0) files) < length (filter (\<lambda>g. Compare c (file_start g) k < 0) files)"
    using assms user.cmp_less_trans by (intro length_filter_strict [of _ _ _ f]) auto
  then show ?thesis by (simp add: outside_def)
qed

lemma outside_limit:
  assumes "f \<in> set files" "Compare c (file_limit f) k > 0"
  shows "outside c files b (Some (file_limit f)) < outside c files b (Some k)"
proof -
  have "length (filter (\<lambda>g. Compare c (file_limit g) (file_limit f) > 0) files) < length (filter (\<lambda>g. Compare c (file_limit g) k > 0) files)"
  proof (rule length_filter_strict [of _ _ _ f])
    fix g assume "0 < Compare c (file_limit g) (file_limit f)"
    then show "0 < Compare c (file_limit g) k"
      using assms(2) user.cmp_less_trans [of k "file_limit f" "file_limit g"] user.cmp_neg by simp
  qed (use assms in simp_all)
  then show ?thesis by (simp add: outside_def)
qed

lemma filter_take_Suc: "i < length xs \<Longrightarrow> filter P (take (Suc i) xs) = filter P (take i xs) @ (if P (xs ! i) then [xs ! i] else [])"
  by (simp add: take_Suc_conv_app_nth)

text \<open>On a level above 0 the loop collects the overlapping files.\<close>

lemma GOI_upper:
  assumes "level > 0" "i \<le> length files" "inputs = filter (file_overlaps c b e) (take i files)"
  shows "GetOverlappingInputs_loop c level files i b e inputs = Some (filter (file_overlaps c b e) files)"
  using assms(2,3)
proof (induction "length files - i" arbitrary: i inputs)
  case 0
  then show ?case by (subst GetOverlappingInputs_loop.simps) simp
next
  case (Suc n)
  then have i: "i < length files" by simp
  have step: "GetOverlappingInputs_loop c level files i b e inputs =
      GetOverlappingInputs_loop c level files (Suc i) b e (filter (file_overlaps c b e) (take (Suc i) files))"
    using i assms(1) Suc.prems(2) filter_take_Suc [OF i, of "file_overlaps c b e"] user.cmp_neg
    by (subst GetOverlappingInputs_loop.simps)
       (cases b; cases e; auto simp: Let_def file_overlaps_def AfterFile_def BeforeFile_def)
  then show ?case using Suc.hyps(1) [of "Suc i"] Suc.hyps(2) i by simp
qed

lemma GOI_step0:
  assumes "i < length files" and f: "f = files ! i"
  shows "GetOverlappingInputs_loop c 0 files i b e inputs =
    (if \<not> file_overlaps c b e f then GetOverlappingInputs_loop c 0 files (Suc i) b e inputs
     else if \<exists>k. b = Some k \<and> Compare c (file_start f) k < 0
     then GetOverlappingInputs_loop c 0 files 0 (Some (file_start f)) e []
     else if \<exists>k. e = Some k \<and> Compare c (file_limit f) k > 0
     then GetOverlappingInputs_loop c 0 files 0 b (Some (file_limit f)) []
     else GetOverlappingInputs_loop c 0 files (Suc i) b e (inputs @ [f]))"
  by (subst GetOverlappingInputs_loop.simps)
     (use assms(1) user.cmp_neg in \<open>cases b; cases e; auto simp: Let_def f file_overlaps_def AfterFile_def BeforeFile_def\<close>)

lemma range_le_start: "Compare c s k < 0 \<Longrightarrow> range_le c (Some s) e b' e' \<Longrightarrow> range_le c (Some k) e b' e'"
  using user.cmp_trans [of _ s k] by (auto simp: range_le_def intro: less_imp_le)

lemma range_le_limit: "Compare c l k > 0 \<Longrightarrow> range_le c b (Some l) b' e' \<Longrightarrow> range_le c b (Some k) b' e'"
  using user.cmp_trans [of k l] user.cmp_neg [of k l] by (auto simp: range_le_def)

text \<open>On level 0 it ends with a range that covers every file that overlaps it.\<close>

lemma GOI_level0:
  assumes "i \<le> length files" "inputs = filter (file_overlaps c b e) (take i files)"
    and "\<forall>f \<in> set inputs. file_inside c b e f"
  shows "\<exists>b' e'. GetOverlappingInputs_loop c 0 files i b e inputs = Some (filter (file_overlaps c b' e') files) \<and>
     (\<forall>f \<in> set files. file_overlaps c b' e' f \<longrightarrow> file_inside c b' e' f) \<and> range_le c b e b' e'"
  using assms
proof (induction "outside c files b e * Suc (length files) + (length files - i)" arbitrary: i b e inputs rule: less_induct)
  case less
  show ?case
  proof (cases "i < length files")
    case False
    then have "GetOverlappingInputs_loop c 0 files i b e inputs = Some (filter (file_overlaps c b e) files)"
      using less.prems by (subst GetOverlappingInputs_loop.simps) simp
    then show ?thesis using False less.prems range_le_refl by (intro exI [of _ b] exI [of _ e]) simp
  next
    case True
    let ?f = "files ! i"
    have f: "?f \<in> set files" using True by simp
    have again: "outside c files b'' e'' * Suc (length files) + (length files - 0) <
        outside c files b e * Suc (length files) + (length files - i)"
      if "outside c files b'' e'' < outside c files b e" for b'' e''
    proof -
      have "Suc (outside c files b'' e'') * Suc (length files) \<le> outside c files b e * Suc (length files)"
        using that by (intro mult_le_mono1) simp
      then show ?thesis by simp
    qed
    note step = GOI_step0 [OF True refl, of b e inputs]
    consider (skip) "\<not> file_overlaps c b e ?f"
      | (start) k where "file_overlaps c b e ?f" "b = Some k" "Compare c (file_start ?f) k < 0"
      | (limit) k where "file_overlaps c b e ?f" "e = Some k" "Compare c (file_limit ?f) k > 0"
          "\<not> (\<exists>k. b = Some k \<and> Compare c (file_start ?f) k < 0)"
      | (take) "file_overlaps c b e ?f" "file_inside c b e ?f"
      unfolding file_inside_def by blast
    then show ?thesis
    proof cases
      case skip
      then have "filter (file_overlaps c b e) (take (Suc i) files) = inputs"
        using filter_take_Suc [OF True] less.prems(2) by simp
      then show ?thesis using less.hyps [of b e "Suc i" inputs] True less.prems(3) step skip by simp
    next
      case start
      then show ?thesis
        using less.hyps [OF again, of "Some (file_start ?f)" e "[]"] outside_start [OF f start(3)] step range_le_start [OF start(3)]
        by (simp, metis)
    next
      case limit
      then show ?thesis
        using less.hyps [OF again, of b "Some (file_limit ?f)" "[]"] outside_limit [OF f limit(3)] step range_le_limit [OF limit(3)]
        by (simp, metis)
    next
      case take
      then have "filter (file_overlaps c b e) (take (Suc i) files) = inputs @ [?f]"
        using filter_take_Suc [OF True] less.prems(2) by simp
      moreover have no: "(\<exists>k. b = Some k \<and> Compare c (file_start ?f) k < 0) = False"
        "(\<exists>k. e = Some k \<and> Compare c (file_limit ?f) k > 0) = False"
        using take(2) by (auto simp: file_inside_def)
      have "GetOverlappingInputs_loop c 0 files i b e inputs = GetOverlappingInputs_loop c 0 files (Suc i) b e (inputs @ [?f])"
        by (subst step) (simp only: no take(1) not_True_eq_False if_False)
      ultimately show ?thesis using less.hyps [of b e "Suc i" "inputs @ [?f]"] True less.prems(3) take by simp
    qed
  qed
qed

lemma GetOverlappingInputs_result:
  "\<exists>b' e'. GetOverlappingInputs c v level lo hi = Some (filter (file_overlaps c b' e') (v_files v ! level)) \<and>
     range_le c (map_option InternalKey_user_key lo) (map_option InternalKey_user_key hi) b' e' \<and>
     (if level = 0 then \<forall>f \<in> set (v_files v ! 0). file_overlaps c b' e' f \<longrightarrow> file_inside c b' e' f
      else b' = map_option InternalKey_user_key lo \<and> e' = map_option InternalKey_user_key hi)"
proof (cases "level = 0")
  case True
  then show ?thesis using GOI_level0 [of 0 "v_files v ! 0" "[]"] by (simp add: GetOverlappingInputs_def) blast
next
  case False
  then show ?thesis using GOI_upper [of level 0 "v_files v ! level" "[]"] range_le_refl by (simp add: GetOverlappingInputs_def)
qed

end

text \<open>No file of the level overlaps the user keys from \<open>lo\<close> to \<open>hi\<close>.\<close>

definition level_free :: "Comparator \<Rightarrow> Version \<Rightarrow> nat \<Rightarrow> slice \<Rightarrow> slice \<Rightarrow> bool" where
  "level_free c v level lo hi \<longleftrightarrow> (\<forall>f \<in> set (v_files v ! level). \<not> file_overlaps c (Some lo) (Some hi) f)"

text \<open>The bytes that a compaction of a file with these keys into the level would read from the level below.\<close>

definition below_bytes :: "Comparator \<Rightarrow> Version \<Rightarrow> nat \<Rightarrow> slice \<Rightarrow> slice \<Rightarrow> int" where
  "below_bytes c v level lo hi = TotalFileSize (filter (file_overlaps c (Some lo) (Some hi)) (v_files v ! (level + 1)))"

context internal_order
begin

lemma PickLevel_loop_result:
  assumes "\<forall>l < kNumLevels. 0 < l \<longrightarrow> level_sorted c (v_files v ! l)" "level \<le> kMaxMemCompactLevel"
  shows "\<exists>r. PickLevel_loop c options v lo hi level = Some r \<and> level \<le> r \<and> r \<le> kMaxMemCompactLevel \<and>
    (\<forall>l. level < l \<longrightarrow> l \<le> r \<longrightarrow> level_free c v l lo hi \<and> below_bytes c v l lo hi \<le> MaxGrandParentOverlapBytes options) \<and>
    (r < kMaxMemCompactLevel \<longrightarrow>
       \<not> level_free c v (r + 1) lo hi \<or> below_bytes c v (r + 1) lo hi > MaxGrandParentOverlapBytes options)"
  using assms(2)
proof (induction "kMaxMemCompactLevel - level" arbitrary: level)
  case 0
  then show ?case by (subst PickLevel_loop.simps) auto
next
  case (Suc n)
  then have lt: "level < kMaxMemCompactLevel" "level + 2 < kNumLevels" by (auto simp: kMaxMemCompactLevel_def kNumLevels_def)
  have ov: "OverlapInLevel c v (level + 1) (Some lo) (Some hi) \<longleftrightarrow> \<not> level_free c v (level + 1) lo hi"
    using OverlapInLevel_iff [of "level + 1" v] assms(1) lt by (simp add: level_free_def)
  have goi: "GetOverlappingInputs c v (level + 2) (Some (InternalKey_new lo kMaxSequenceNumber kValueTypeForSeek))
      (Some (InternalKey_new hi 0 kTypeDeletion)) = Some (filter (file_overlaps c (Some lo) (Some hi)) (v_files v ! (level + 2)))"
    using GetOverlappingInputs_result [of v "level + 2" "Some (InternalKey_new lo kMaxSequenceNumber kValueTypeForSeek)"
        "Some (InternalKey_new hi 0 kTypeDeletion)"] by (auto simp: InternalKey_user_key_def)
  have bb: "below_bytes c v (level + 1) lo hi = TotalFileSize (filter (file_overlaps c (Some lo) (Some hi)) (v_files v ! (level + 2)))"
    by (simp add: below_bytes_def)
  have step: "PickLevel_loop c options v lo hi level =
      (if \<not> level_free c v (level + 1) lo hi \<or> below_bytes c v (level + 1) lo hi > MaxGrandParentOverlapBytes options
       then Some level else PickLevel_loop c options v lo hi (level + 1))"
    by (subst PickLevel_loop.simps) (simp only: lt ov goi bb if_True option.case, simp)
  have nl: "n = kMaxMemCompactLevel - (level + 1)" "level + 1 \<le> kMaxMemCompactLevel" using Suc.hyps(2) lt(1) by auto
  obtain r where r: "PickLevel_loop c options v lo hi (level + 1) = Some r" "level + 1 \<le> r" "r \<le> kMaxMemCompactLevel"
    "\<forall>l. level + 1 < l \<longrightarrow> l \<le> r \<longrightarrow> level_free c v l lo hi \<and> below_bytes c v l lo hi \<le> MaxGrandParentOverlapBytes options"
    "r < kMaxMemCompactLevel \<longrightarrow> \<not> level_free c v (r + 1) lo hi \<or> below_bytes c v (r + 1) lo hi > MaxGrandParentOverlapBytes options"
    using Suc.hyps(1) [of "level + 1"] nl by blast
  show ?case
  proof (cases "\<not> level_free c v (level + 1) lo hi \<or> below_bytes c v (level + 1) lo hi > MaxGrandParentOverlapBytes options")
    case True
    then show ?thesis using step lt by simp
  next
    case False
    have "level_free c v l lo hi \<and> below_bytes c v l lo hi \<le> MaxGrandParentOverlapBytes options" if "level < l" "l \<le> r" for l
      using r(4) False that by (cases "l = level + 1") auto
    then show ?thesis using r step False by (intro exI [of _ r]) simp
  qed
qed

end

text \<open>A sample: a level-0 file with keys 3 to 5, one with keys 4 to 8, and a level-1 file with keys 10 to 12.\<close>

definition sample_range :: "u64 \<Rightarrow> byte \<Rightarrow> byte \<Rightarrow> FileMetaData" where
  "sample_range n a b =
     FileMetaData_new\<lparr> f_number := n, f_smallest := InternalKey_new [a] 9 kTypeValue, f_largest := InternalKey_new [b] 2 kTypeValue \<rparr>"

definition sample_levels :: Version where
  "sample_levels = Version_new\<lparr> v_files := [[sample_range 1 3 5, sample_range 2 4 8], [sample_range 3 10 12], [], [], [], [], []] \<rparr>"

lemma sample_range_keys [simp]: "file_start (sample_range n a b) = [a]" "file_limit (sample_range n a b) = [b]"
  by (simp_all add: sample_range_def InternalKey_user_key_def)

lemma sample_levels_files [simp]:
  "v_files sample_levels = [[sample_range 1 3 5, sample_range 2 4 8], [sample_range 3 10 12], [], [], [], [], []]"
  by (simp add: sample_levels_def)

lemma sample_levels_sorted: "\<forall>l < kNumLevels. 0 < l \<longrightarrow> level_sorted BytewiseComparator (v_files sample_levels ! l)"
proof -
  have "ParseInternalKey (InternalKey_new [a] 9 kTypeValue) \<noteq> None" "ParseInternalKey (InternalKey_new [a] 2 kTypeValue) \<noteq> None" for a
    by (simp_all add: InternalKey_new_def ParseInternalKey_Append seq_le_max)
  then have "file_ok BytewiseComparator (sample_range 3 10 12)"
    by (simp add: file_ok_def sample_range_def InternalKey_Compare_def Let_def BytewiseComparator_def)
  then show ?thesis by (auto simp: kNumLevels_def level_sorted_def less_Suc_eq numeral_eq_Suc)
qed

section \<open>Properties\<close>

text \<open>
  Overlaps.  The check for files that overlap a range of user keys, a binary search on the sorted
  levels and a scan on level 0, says whether some file of the level overlaps the range.
\<close>

theorem overlap_in_level:
  assumes "three_way (Compare c)" "level > 0 \<longrightarrow> level_sorted c (v_files v ! level)"
  shows "OverlapInLevel c v level lo hi \<longleftrightarrow> (\<exists>f \<in> set (v_files v ! level). file_overlaps c lo hi f)"
  by (rule internal_order.OverlapInLevel_iff [OF internal_order.intro [OF assms(1)] assms(2)])

theorem overlap_in_level_witness:
  "OverlapInLevel BytewiseComparator sample_levels 1 (Some [11]) None \<and>
   \<not> OverlapInLevel BytewiseComparator sample_levels 1 None (Some [9])"
  using overlap_in_level [OF bytewise.three_way_axioms, of 1 sample_levels "Some [11]" None]
    overlap_in_level [OF bytewise.three_way_axioms, of 1 sample_levels None "Some [9]"] sample_levels_sorted [rule_format, of 1]
  by (simp add: kNumLevels_def file_overlaps_def AfterFile_def BeforeFile_def BytewiseComparator_def)

text \<open>
  C32: the inputs of a compaction.  \<open>GetOverlappingInputs\<close> returns, although it starts again whenever a
  level-0 file widens the range: above level 0 with the files that overlap the range, on level 0 with
  those that overlap a larger range, which no file of the level crosses.
\<close>

theorem get_overlapping_inputs:
  assumes "three_way (Compare c)"
  shows "\<exists>b' e'. GetOverlappingInputs c v level lo hi = Some (filter (file_overlaps c b' e') (v_files v ! level)) \<and>
     range_le c (map_option InternalKey_user_key lo) (map_option InternalKey_user_key hi) b' e' \<and>
     (if level = 0 then \<forall>f \<in> set (v_files v ! 0). file_overlaps c b' e' f \<longrightarrow> file_inside c b' e' f
      else b' = map_option InternalKey_user_key lo \<and> e' = map_option InternalKey_user_key hi)"
  by (rule internal_order.GetOverlappingInputs_result [OF internal_order.intro [OF assms]])

theorem get_overlapping_inputs_witness:
  "\<exists>b' e'. GetOverlappingInputs BytewiseComparator sample_levels 0 None (Some (InternalKey_new [3] 1 kTypeValue)) =
     Some (filter (file_overlaps BytewiseComparator b' e') [sample_range 1 3 5, sample_range 2 4 8]) \<and>
     range_le BytewiseComparator None (Some [3]) b' e'"
  using get_overlapping_inputs [OF bytewise.three_way_axioms, of sample_levels 0 None "Some (InternalKey_new [3] 1 kTypeValue)"]
  by (elim exE conjE, intro exI conjI) (simp_all add: InternalKey_user_key_def)

text \<open>
  C33: placing a memtable.  The level for the table of a flushed memtable is 0 when a level-0 file
  overlaps it; otherwise it is the deepest one up to \<open>kMaxMemCompactLevel\<close> such that neither it nor a
  level above it has an overlapping file or makes a compaction read too many bytes below.
\<close>

theorem pick_level_for_memtable:
  assumes "three_way (Compare c)" "\<forall>l < kNumLevels. 0 < l \<longrightarrow> level_sorted c (v_files v ! l)"
  shows "\<exists>r. PickLevelForMemTableOutput c options v lo hi = Some r \<and> r \<le> kMaxMemCompactLevel \<and>
    (0 < r \<longrightarrow> level_free c v 0 lo hi) \<and>
    (\<forall>l. 0 < l \<longrightarrow> l \<le> r \<longrightarrow> level_free c v l lo hi \<and> below_bytes c v l lo hi \<le> MaxGrandParentOverlapBytes options) \<and>
    (r < kMaxMemCompactLevel \<longrightarrow> \<not> level_free c v 0 lo hi \<or> \<not> level_free c v (r + 1) lo hi \<or>
       below_bytes c v (r + 1) lo hi > MaxGrandParentOverlapBytes options)"
proof -
  have ov: "OverlapInLevel c v 0 (Some lo) (Some hi) \<longleftrightarrow> \<not> level_free c v 0 lo hi"
    using internal_order.OverlapInLevel_iff [OF internal_order.intro [OF assms(1)], of 0 v] by (simp add: level_free_def)
  show ?thesis
    using internal_order.PickLevel_loop_result [OF internal_order.intro [OF assms(1)] assms(2), of 0 options lo hi]
    by (cases "level_free c v 0 lo hi") (auto simp: PickLevelForMemTableOutput_def ov)
qed

theorem pick_level_for_memtable_witness:
  "\<exists>r. PickLevelForMemTableOutput BytewiseComparator Options_new sample_levels [1] [2] = Some r \<and> r \<le> kMaxMemCompactLevel"
  using pick_level_for_memtable [OF bytewise.three_way_axioms sample_levels_sorted, of Options_new "[1]" "[2]"] by blast

end
