(* ===== verification/VersionGet.thy ===== *)
theory VersionGet
  imports Version
begin

text \<open>
  \<open>Version::Get\<close> (db/version_set.cc) answers with the newest visible entry of all files of the version,
  although it opens few of them: the level-0 files around the key from the newest to the oldest, then
  at most one file of each deeper level.
\<close>

section \<open>Lookups\<close>

text \<open>
  The table cache serves a file that holds \<open>es\<close>: the bounds in the metadata are the first and last
  keys, and a lookup hands over the newest visible entry, or at most an entry of another user key.
\<close>

definition serves :: "Comparator \<Rightarrow> table_get \<Rightarrow> FileMetaData \<Rightarrow> mem_entry list \<Rightarrow> bool" where
  "serves c tget f es \<longleftrightarrow>
     file_ok c f \<and>
     (\<forall>e \<in> set es. sequence (fst e) \<le> kMaxSequenceNumber \<and>
        InternalKey_Compare c (f_smallest f) (entry_ikey e) \<le> 0 \<and> InternalKey_Compare c (entry_ikey e) (f_largest f) \<le> 0) \<and>
     (\<exists>e \<in> set es. entry_ikey e = f_largest f) \<and>
     (\<forall>u s. s \<le> kMaxSequenceNumber \<longrightarrow>
        (\<exists>r. tget (f_number f) (f_file_size f) (InternalKey_new u s kValueTypeForSeek) = (OK, r) \<and>
           (case newest c u s es None of
              Some e \<Rightarrow> r = Some (entry_ikey e, snd e)
            | None \<Rightarrow> (\<forall>k v. r = Some (k, v) \<longrightarrow> (\<exists>p. ParseInternalKey k = Some p \<and> Compare c (user_key p) u \<noteq> 0)))))"

definition version_entries :: "(FileMetaData \<Rightarrow> mem_entry list) \<Rightarrow> Version \<Rightarrow> mem_entry list" where
  "version_entries content v = concat (map content (concat (v_files v)))"

text \<open>Entries of one user key get older from file to file in the order of the search.\<close>

definition newer :: "Comparator \<Rightarrow> mem_entry list \<Rightarrow> mem_entry list \<Rightarrow> bool" where
  "newer c es es' \<longleftrightarrow> (\<forall>e \<in> set es. \<forall>e' \<in> set es'. Compare c (user_key (fst e)) (user_key (fst e')) = 0 \<longrightarrow>
     sequence (fst e') < sequence (fst e))"

definition version_ok :: "Comparator \<Rightarrow> table_get \<Rightarrow> (FileMetaData \<Rightarrow> mem_entry list) \<Rightarrow> Version \<Rightarrow> bool" where
  "version_ok c tget content v \<longleftrightarrow>
     length (v_files v) = kNumLevels \<and> (\<forall>f \<in> set (concat (v_files v)). serves c tget f (content f)) \<and>
     (\<forall>level. 0 < level \<longrightarrow> level < kNumLevels \<longrightarrow> level_sorted c (v_files v ! level)) \<and>
     distinct (map f_number (v_files v ! 0)) \<and>
     (\<forall>f \<in> set (v_files v ! 0). \<forall>g \<in> set (v_files v ! 0). f_number g < f_number f \<longrightarrow> newer c (content f) (content g)) \<and>
     (\<forall>l m. l < m \<longrightarrow> m < kNumLevels \<longrightarrow> (\<forall>f \<in> set (v_files v ! l). \<forall>g \<in> set (v_files v ! m). newer c (content f) (content g))) \<and>
     inj_on (\<lambda>e. sequence (fst e)) (set (version_entries content v))"

lemma entry_ikey_parse: "sequence (fst e) \<le> kMaxSequenceNumber \<Longrightarrow> ParseInternalKey (entry_ikey e) = Some (fst e)"
  by (simp add: entry_ikey_def ParseInternalKey_Append)

text \<open>What the state of a search says, for a target \<open>u\<close> at \<open>s\<close>.\<close>

definition gs_ready :: "slice \<Rightarrow> GetState \<Rightarrow> bool" where
  "gs_ready u st \<longleftrightarrow> saver_state (gs_saver st) = SaverNotFound \<and> saver_user_key (gs_saver st) = u \<and>
     saver_value (gs_saver st) = None \<and> \<not> gs_found st"

definition gs_answers :: "mem_entry \<Rightarrow> GetState \<Rightarrow> bool" where
  "gs_answers e st \<longleftrightarrow>
     (case ikey_type (fst e) of
        kTypeValue \<Rightarrow> gs_found st \<and> gs_s st = OK \<and> saver_value (gs_saver st) = Some (snd e)
      | kTypeDeletion \<Rightarrow> \<not> gs_found st \<and> saver_value (gs_saver st) = None)"

text \<open>The files in the order in which they are searched.\<close>

definition level_file :: "Comparator \<Rightarrow> slice \<Rightarrow> slice \<Rightarrow> FileMetaData list \<Rightarrow> FileMetaData list" where
  "level_file c u ikey files =
     (let i = FindFile (InternalKeyComparator c) files ikey
      in if i < length files \<and> \<not> Compare c u (file_start (files ! i)) < 0 then [files ! i] else [])"

lemma Match_OK:
  assumes "tget (f_number f) (f_file_size f) ikey = (OK, r)"
    and sv: "sv = (case r of None \<Rightarrow> gs_saver st | Some (k, v) \<Rightarrow> SaveValue c k v (gs_saver st))"
  shows "\<exists>st2. gs_saver st2 = sv \<and> gs_s st2 = OK \<and> gs_found st2 = gs_found st \<and>
    Get_Match c tget ikey st level f =
      (case saver_state sv of
         SaverNotFound \<Rightarrow> (True, st2) | SaverFound \<Rightarrow> (False, st2\<lparr> gs_found := True \<rparr>) | SaverDeleted \<Rightarrow> (False, st2)
       | SaverCorrupt \<Rightarrow> (False, st2\<lparr> gs_s := Corruption (ascii ''corrupted key for '') (saver_user_key sv), gs_found := True \<rparr>))"
proof -
  define st1 where "st1 = (if gs_seek_file st = None \<and> gs_last_file_read st \<noteq> None
      then st\<lparr> gs_seek_file := gs_last_file_read st \<rparr> else st)\<lparr> gs_last_file_read := Some (f, level) \<rparr>"
  have st1: "gs_saver st1 = gs_saver st" "gs_found st1 = gs_found st" by (simp_all add: st1_def)
  have "Get_Match c tget ikey st level f =
      (case saver_state sv of
         SaverNotFound \<Rightarrow> (True, st1\<lparr> gs_s := OK, gs_saver := sv \<rparr>)
       | SaverFound \<Rightarrow> (False, st1\<lparr> gs_s := OK, gs_saver := sv \<rparr>\<lparr> gs_found := True \<rparr>)
       | SaverDeleted \<Rightarrow> (False, st1\<lparr> gs_s := OK, gs_saver := sv \<rparr>)
       | SaverCorrupt \<Rightarrow> (False, st1\<lparr> gs_s := OK, gs_saver := sv \<rparr>\<lparr>
           gs_s := Corruption (ascii ''corrupted key for '') (saver_user_key sv), gs_found := True \<rparr>))"
    unfolding Get_Match_def Let_def assms(1) prod.case st1_def [symmetric] st1(1) sv [symmetric]
    by (cases "saver_state sv") simp_all
  then show ?thesis using st1 by (intro exI [of _ "st1\<lparr> gs_s := OK, gs_saver := sv \<rparr>"]) simp
qed

lemma newest_append: "newest c u s (xs @ ys) b = newest c u s ys (newest c u s xs b)"
  by (induction xs arbitrary: b) simp_all

lemma newest_keep:
  "\<forall>e \<in> set ys. visible c u s e \<longrightarrow> \<not> sequence (fst b) < sequence (fst e) \<Longrightarrow> newest c u s ys (Some b) = Some b"
  by (induction ys) auto

text \<open>Entries that are dominated by others do not matter.\<close>

lemma newest_dominated:
  assumes "set xs \<subseteq> set ys" "inj_on (\<lambda>e. sequence (fst e)) (set ys)"
    and dom: "\<And>e. e \<in> set ys \<Longrightarrow> visible c u s e \<Longrightarrow> \<exists>x \<in> set xs. visible c u s x \<and> sequence (fst e) \<le> sequence (fst x)"
  shows "newest c u s ys None = newest c u s xs None"
proof (cases "newest c u s xs None")
  case None
  then show ?thesis using dom newest_None_iff by metis
next
  case (Some b)
  then have b: "b \<in> set xs" "visible c u s b" using newest_in [OF Some] by auto
  have "newest c u s ys None = Some b"
  proof (rule newest_unique)
    show "sequence (fst e) \<le> sequence (fst b)" if "e \<in> set ys" "visible c u s e" for e
      using dom [OF that] newest_ge [OF Some] order_trans by blast
  qed (use b assms(1,2) in auto)
  then show ?thesis using Some by simp
qed

lemma newer_concat_right: "(\<forall>x \<in> set xss. newer c xs x) \<Longrightarrow> newer c xs (concat xss)"
  by (auto simp: newer_def)

lemma newer_concat_left: "(\<forall>x \<in> set xss. newer c x ys) \<Longrightarrow> newer c (concat xss) ys"
  by (auto simp: newer_def)

lemma newer_subset: "newer c xs ys \<Longrightarrow> set xs' \<subseteq> set xs \<Longrightarrow> set ys' \<subseteq> set ys \<Longrightarrow> newer c xs' ys'"
  by (auto simp: newer_def)

text \<open>The outcome of a search of the entries \<open>es\<close>.\<close>

definition search_ok :: "Comparator \<Rightarrow> slice \<Rightarrow> SequenceNumber \<Rightarrow> mem_entry list \<Rightarrow> bool \<Rightarrow> GetState \<Rightarrow> bool" where
  "search_ok c u s es go st \<longleftrightarrow>
     (case newest c u s es None of None \<Rightarrow> go \<and> gs_ready u st | Some e \<Rightarrow> \<not> go \<and> gs_answers e st)"

lemma concat_concat: "concat (concat xss) = concat (map concat xss)"
  by (induction xss) simp_all

text \<open>Level 0: the files around the key, from the newest to the oldest.\<close>

definition around :: "Comparator \<Rightarrow> slice \<Rightarrow> FileMetaData list \<Rightarrow> FileMetaData list" where
  "around c u files = filter (\<lambda>f. Compare c u (file_start f) \<ge> 0 \<and> Compare c u (file_limit f) \<le> 0) files"

lemma set_NewestFirst [simp]: "set (NewestFirst files) = set files"
  by (simp add: NewestFirst_def)

lemma NewestFirst_sorted:
  assumes "distinct (map f_number files)"
  shows "sorted_wrt (\<lambda>f g. f_number g < f_number f) (NewestFirst files)"
proof -
  have "distinct (map f_number (sort_key f_number files))" using assms by (simp add: distinct_map)
  then have "sorted_wrt (<) (map f_number (sort_key f_number files))" by (simp add: strict_sorted_iff)
  then show ?thesis by (simp add: NewestFirst_def sorted_wrt_rev sorted_wrt_map)
qed

lemma sorted_wrt_on:
  "sorted_wrt P xs \<Longrightarrow> (\<And>x y. x \<in> set xs \<Longrightarrow> y \<in> set xs \<Longrightarrow> P x y \<Longrightarrow> Q x y) \<Longrightarrow> sorted_wrt Q xs"
  by (rule sorted_wrt_mono_rel [of xs P Q]) auto

context internal_order
begin

lemma Match_step:
  assumes "serves c tget f es" "s \<le> kMaxSequenceNumber" "gs_ready u st"
    and m: "Get_Match c tget (InternalKey_new u s kValueTypeForSeek) st level f = (go, st')"
  shows "search_ok c u s es go st'"
proof -
  obtain r where r: "tget (f_number f) (f_file_size f) (InternalKey_new u s kValueTypeForSeek) = (OK, r)"
    "case newest c u s es None of Some e \<Rightarrow> r = Some (entry_ikey e, snd e)
     | None \<Rightarrow> \<forall>k v. r = Some (k, v) \<longrightarrow> (\<exists>p. ParseInternalKey k = Some p \<and> Compare c (user_key p) u \<noteq> 0)"
    using assms(1,2) unfolding serves_def by blast
  define sv where "sv = (case r of None \<Rightarrow> gs_saver st | Some (k, v) \<Rightarrow> SaveValue c k v (gs_saver st))"
  obtain st2 where st2: "gs_saver st2 = sv" "gs_s st2 = OK" "gs_found st2 = gs_found st"
    "(go, st') = (case saver_state sv of
         SaverNotFound \<Rightarrow> (True, st2) | SaverFound \<Rightarrow> (False, st2\<lparr> gs_found := True \<rparr>) | SaverDeleted \<Rightarrow> (False, st2)
       | SaverCorrupt \<Rightarrow> (False, st2\<lparr> gs_s := Corruption (ascii ''corrupted key for '') (saver_user_key sv), gs_found := True \<rparr>))"
    using Match_OK [where tget = tget and f = f and ikey = "InternalKey_new u s kValueTypeForSeek" and r = r and c = c and st = st and sv = sv and level = level,
        OF r(1) sv_def] m by metis
  have rdy: "saver_state (gs_saver st) = SaverNotFound" "saver_user_key (gs_saver st) = u"
    "saver_value (gs_saver st) = None" "\<not> gs_found st"
    using assms(3) by (auto simp: gs_ready_def)
  show ?thesis
  proof (cases "newest c u s es None")
    case None
    then have "sv = gs_saver st"
      using r(2) rdy by (cases r) (auto simp: sv_def SaveValue_def)
    then show ?thesis using st2 rdy None by (simp add: search_ok_def gs_ready_def)
  next
    case (Some e)
    then have e: "e \<in> set es" "Compare c (user_key (fst e)) u = 0" using newest_in [of c u s es None e] by (auto simp: visible_def)
    then have p: "ParseInternalKey (entry_ikey e) = Some (fst e)" using assms(1) by (intro entry_ikey_parse) (simp add: serves_def)
    have "r = Some (entry_ikey e, snd e)" using r(2) Some by simp
    then have "sv = (if ikey_type (fst e) = kTypeValue then (gs_saver st)\<lparr> saver_state := SaverFound, saver_value := Some (snd e) \<rparr>
        else (gs_saver st)\<lparr> saver_state := SaverDeleted \<rparr>)"
      using rdy e(2) by (simp add: sv_def SaveValue_def p)
    then show ?thesis using st2 rdy Some by (cases "ikey_type (fst e)") (simp_all add: search_ok_def gs_answers_def)
  qed
qed

lemma visible_same: "visible c u s x \<Longrightarrow> visible c u s y \<Longrightarrow> Compare c (user_key (fst x)) (user_key (fst y)) = 0"
  using user.cmp_zero_trans user.cmp_zero_sym unfolding visible_def by metis

lemma newest_newer:
  assumes "newer c xs ys"
  shows "newest c u s (xs @ ys) None = (case newest c u s xs None of None \<Rightarrow> newest c u s ys None | Some e \<Rightarrow> Some e)"
proof (cases "newest c u s xs None")
  case (Some b)
  then have b: "b \<in> set xs" "visible c u s b" using newest_in [OF Some] by auto
  then have "\<forall>e \<in> set ys. visible c u s e \<longrightarrow> \<not> sequence (fst b) < sequence (fst e)"
    using assms visible_same [OF b(2)] unfolding newer_def by (metis less_asym)
  then show ?thesis using Some newest_keep by (simp add: newest_append)
qed (simp add: newest_append)

lemma search_ok_append:
  assumes "search_ok c u s xs go st" "newer c xs ys"
    and "go \<Longrightarrow> gs_ready u st \<Longrightarrow> search_ok c u s ys go' st'" "\<not> go \<Longrightarrow> \<not> go' \<and> st' = st"
  shows "search_ok c u s (xs @ ys) go' st'"
  using assms unfolding search_ok_def newest_newer [OF assms(2)] by (cases "newest c u s xs None") auto

lemma each_file_search:
  assumes "\<forall>f \<in> set fs. serves c tget f (content f)" "sorted_wrt (\<lambda>f g. newer c (content f) (content g)) fs"
    and "s \<le> kMaxSequenceNumber" "gs_ready u st"
    and "each_file (Get_Match c tget (InternalKey_new u s kValueTypeForSeek)) level fs st = (go, st')"
  shows "search_ok c u s (concat (map content fs)) go st'"
  using assms
proof (induction fs arbitrary: st)
  case Nil
  then show ?case by (simp add: search_ok_def)
next
  case (Cons f fs)
  obtain go1 st1 where m: "Get_Match c tget (InternalKey_new u s kValueTypeForSeek) st level f = (go1, st1)" by fastforce
  have "search_ok c u s (content f) go1 st1" using Cons.prems Match_step [OF _ Cons.prems(3,4) m] by simp
  moreover have "newer c (content f) (concat (map content fs))" using Cons.prems(2) by (intro newer_concat_right) simp
  ultimately show ?case using Cons m by (auto intro!: search_ok_append [of u s "content f" go1 st1])
qed

text \<open>Within one file or one sorted level.\<close>

lemma entry_below_key:
  assumes "sequence (fst e) \<le> kMaxSequenceNumber" "s \<le> kMaxSequenceNumber"
  shows "InternalKey_Compare c (entry_ikey e) (InternalKey_new u s kValueTypeForSeek) < 0 \<longleftrightarrow>
    Compare c (user_key (fst e)) u < 0 \<or> Compare c (user_key (fst e)) u = 0 \<and> s < sequence (fst e)"
  using InternalKey_Compare_packed [of "fst e" "\<lparr> user_key = u, sequence = s, ikey_type = kTypeValue \<rparr>" c] assms
  by (simp add: entry_ikey_def InternalKey_new_def kValueTypeForSeek_def)

lemma ExtractUserKey_entry: "ExtractUserKey (entry_ikey e) = user_key (fst e)"
  by (simp add: entry_ikey_def AppendInternalKey_eq)

lemma serves_user_range:
  assumes "serves c tget f es" "e \<in> set es"
  shows "Compare c (file_start f) (user_key (fst e)) \<le> 0" "Compare c (user_key (fst e)) (file_limit f) \<le> 0"
  using assms InternalKey_Compare_iff [of c "f_smallest f" "entry_ikey e"] InternalKey_Compare_iff [of c "entry_ikey e" "f_largest f"]
  by (auto simp: serves_def InternalKey_user_key_def ExtractUserKey_entry le_less)

lemma level_dominated:
  assumes ls: "level_sorted c files" and srv: "\<forall>f \<in> set files. serves c tget f (content f)"
    and s: "s \<le> kMaxSequenceNumber" and g: "g \<in> set files" "e \<in> set (content g)" and e: "visible c u s e"
  shows "\<exists>f \<in> set (level_file c u (InternalKey_new u s kValueTypeForSeek) files). \<exists>x \<in> set (content f).
    visible c u s x \<and> sequence (fst e) \<le> sequence (fst x)"
proof -
  let ?K = "InternalKey_new u s kValueTypeForSeek"
  note tw = internal_three_way
  obtain j where j: "j < length files" "files ! j = g" using g(1) by (auto simp: in_set_conv_nth)
  define i where "i = FindFile (InternalKeyComparator c) files ?K"
  have lb: "i = lower_bound (InternalKey_Compare c) ?K (file_kvs files)" unfolding i_def by (rule FindFile_level [OF ls])
  have srvg: "serves c tget g (content g)" using srv g(1) by blast
  then have sg: "sequence (fst e) \<le> kMaxSequenceNumber" "InternalKey_Compare c (entry_ikey e) (f_largest g) \<le> 0"
      "InternalKey_Compare c (f_smallest g) (entry_ikey e) \<le> 0"
    using g(2) by (auto simp: serves_def)
  have "\<not> InternalKey_Compare c (entry_ikey e) ?K < 0"
    using e entry_below_key [OF sg(1) s] by (auto simp: visible_def)
  then have "\<not> InternalKey_Compare c (f_largest g) ?K < 0" using three_way.cmp_le_less_trans [OF tw sg(2)] by blast
  then have ij: "i \<le> j"
    using lower_bound_nth_less [of j "InternalKey_Compare c" ?K "file_kvs files"] j by (force simp: lb not_less [symmetric])
  then have i: "i < length files" using j by simp
  have "Compare c (file_start (files ! i)) (file_start g) \<le> 0"
    using level_starts(2) [OF ls, of i j] ij j by (cases "i = j") auto
  then have "Compare c (file_start (files ! i)) (user_key (fst e)) \<le> 0"
    using user.cmp_trans serves_user_range(1) [OF srvg g(2)] by blast
  then have "\<not> Compare c u (file_start (files ! i)) < 0"
    using e user.cmp_zero_right user.cmp_le user.cmp_neg unfolding visible_def by (smt (verit))
  then have mem: "level_file c u ?K files = [files ! i]" using i by (simp add: level_file_def i_def [symmetric])
  show ?thesis
  proof (cases "i = j")
    case True
    then show ?thesis using mem j g e by auto
  next
    case False
    then have less: "InternalKey_Compare c (f_largest (files ! i)) (f_smallest g) < 0"
      using ls ij j False by (auto simp: level_sorted_def sorted_wrt_iff_nth_less)
    have "serves c tget (files ! i) (content (files ! i))" using srv i by simp
    then obtain x where x: "x \<in> set (content (files ! i))" "entry_ikey x = f_largest (files ! i)" "sequence (fst x) \<le> kMaxSequenceNumber"
      by (auto simp: serves_def)
    have "\<not> InternalKey_Compare c (entry_ikey x) ?K < 0"
      using lower_bound_nth_ge [of "InternalKey_Compare c" ?K "file_kvs files"] i by (simp add: lb x(2))
    then have xu: "\<not> Compare c (user_key (fst x)) u < 0" "Compare c (user_key (fst x)) u = 0 \<Longrightarrow> \<not> s < sequence (fst x)"
      using entry_below_key [OF x(3) s] by blast+
    have "InternalKey_Compare c (entry_ikey x) (entry_ikey e) < 0"
      using three_way.cmp_less_le_trans [OF tw less sg(3)] by (simp add: x(2))
    then have xe: "Compare c (user_key (fst x)) (user_key (fst e)) < 0 \<or>
        Compare c (user_key (fst x)) (user_key (fst e)) = 0 \<and> sequence (fst e) \<le> sequence (fst x)"
      using InternalKey_Compare_packed [OF x(3) sg(1), of c] by (auto simp: entry_ikey_def)
    have "Compare c (user_key (fst e)) u = 0" using e by (simp add: visible_def)
    then have "Compare c (user_key (fst x)) u = 0 \<and> sequence (fst e) \<le> sequence (fst x)"
      using xe xu(1) user.cmp_zero_right [of "user_key (fst e)" u "user_key (fst x)"]
        user.cmp_zero_trans [of "user_key (fst x)" "user_key (fst e)" u] by blast
    then show ?thesis using mem x(1) xu(2) by (auto simp: visible_def not_less)
  qed
qed

lemma level_newest:
  assumes "level_sorted c files" "\<forall>f \<in> set files. serves c tget f (content f)" "s \<le> kMaxSequenceNumber"
    and "inj_on (\<lambda>e. sequence (fst e)) (set (concat (map content files)))"
  shows "newest c u s (concat (map content files)) None =
    newest c u s (concat (map content (level_file c u (InternalKey_new u s kValueTypeForSeek) files))) None"
  using assms(4) level_dominated [OF assms(1-3), of _ _ u]
  by (intro newest_dominated) (fastforce simp: level_file_def Let_def split: if_splits)+

text \<open>The loop over the levels above 0 searches one list of files after the other.\<close>

lemma each_level_files:
  "each_level c u ikey func ((level, files) # ls) st =
     (case each_file func level (level_file c u ikey files) st of
        (go, st) \<Rightarrow> if go then each_level c u ikey func ls st else st)"
  by (simp add: level_file_def Let_def split: prod.split)

lemma each_level_search:
  assumes "\<forall>(l, files) \<in> set ls. level_sorted c files \<and> (\<forall>f \<in> set files. serves c tget f (content f))"
    and "s \<le> kMaxSequenceNumber" "gs_ready u st"
    and "inj_on (\<lambda>e. sequence (fst e)) (set (concat (map (\<lambda>(l, files). concat (map content files)) ls)))"
    and "sorted_wrt (\<lambda>(l, fs) (m, gs). newer c (concat (map content fs)) (concat (map content gs))) ls"
  shows "\<exists>go. search_ok c u s (concat (map (\<lambda>(l, files). concat (map content files)) ls)) go
    (each_level c u (InternalKey_new u s kValueTypeForSeek) (Get_Match c tget (InternalKey_new u s kValueTypeForSeek)) ls st)"
  using assms
proof (induction ls arbitrary: st)
  case Nil
  then show ?case by (auto simp: search_ok_def)
next
  case (Cons lf ls)
  obtain l files where lf: "lf = (l, files)" by (cases lf)
  let ?K = "InternalKey_new u s kValueTypeForSeek"
  let ?rest = "concat (map (\<lambda>(l, files). concat (map content files)) ls)"
  obtain go1 st1 where m: "each_file (Get_Match c tget ?K) l (level_file c u ?K files) st = (go1, st1)" by fastforce
  have files: "level_sorted c files" "\<forall>f \<in> set files. serves c tget f (content f)" using Cons.prems(1) lf by auto
  have inj: "inj_on (\<lambda>e. sequence (fst e)) (set (concat (map content files)))"
    by (rule inj_on_subset [OF Cons.prems(4)]) (simp add: lf)
  have "search_ok c u s (concat (map content (level_file c u ?K files))) go1 st1"
    using files(2) by (intro each_file_search [OF _ _ Cons.prems(2,3) m]) (auto simp: level_file_def Let_def)
  then have here: "search_ok c u s (concat (map content files)) go1 st1"
    using level_newest [OF files Cons.prems(2) inj] by (simp add: search_ok_def)
  have nw: "newer c (concat (map content files)) ?rest"
    using Cons.prems(5) lf by (intro newer_concat_right) auto
  have inj': "inj_on (\<lambda>e. sequence (fst e)) (set ?rest)" by (rule inj_on_subset [OF Cons.prems(4)]) auto
  have ih: "\<exists>go. search_ok c u s ?rest go (each_level c u ?K (Get_Match c tget ?K) ls st1)" if "gs_ready u st1"
    using Cons.IH [OF _ Cons.prems(2) that inj'] Cons.prems(1,5) by simp
  show ?case
  proof (cases go1)
    case True
    then have "gs_ready u st1" using here by (auto simp: search_ok_def split: option.splits)
    from ih [OF this] obtain go where "search_ok c u s ?rest go (each_level c u ?K (Get_Match c tget ?K) ls st1)" ..
    then have "search_ok c u s (concat (map content files) @ ?rest) go (each_level c u ?K (Get_Match c tget ?K) ls st1)"
      by (intro search_ok_append [OF here nw]) (simp_all add: True)
    then show ?thesis unfolding lf each_level_files m using True by auto
  next
    case False
    then have "search_ok c u s (concat (map content files) @ ?rest) False st1"
      by (intro search_ok_append [OF here nw]) simp_all
    then show ?thesis unfolding lf each_level_files m using False by auto
  qed
qed

lemma level0_search:
  assumes "\<forall>f \<in> set files. serves c tget f (content f)" "s \<le> kMaxSequenceNumber" "gs_ready u st"
    and "distinct (map f_number files)" "inj_on (\<lambda>e. sequence (fst e)) (set (concat (map content files)))"
    and "\<forall>f \<in> set files. \<forall>g \<in> set files. f_number g < f_number f \<longrightarrow> newer c (content f) (content g)"
    and "each_file (Get_Match c tget (InternalKey_new u s kValueTypeForSeek)) 0 (NewestFirst (around c u files)) st = (go, st')"
  shows "search_ok c u s (concat (map content files)) go st'"
proof -
  let ?fs = "NewestFirst (around c u files)"
  have sub: "set ?fs \<subseteq> set files" by (auto simp: around_def)
  have "distinct (map f_number (around c u files))" using assms(4) by (simp add: around_def distinct_map_filter)
  then have "sorted_wrt (\<lambda>f g. newer c (content f) (content g)) ?fs"
    by (rule sorted_wrt_on [OF NewestFirst_sorted]) (use sub assms(6) in blast)
  then have "search_ok c u s (concat (map content ?fs)) go st'"
    using assms(1) sub by (intro each_file_search [OF _ _ assms(2,3,7)]) auto
  moreover have "newest c u s (concat (map content files)) None = newest c u s (concat (map content ?fs)) None"
  proof (rule newest_dominated [OF _ assms(5)])
    fix e assume e: "e \<in> set (concat (map content files))" and v: "visible c u s e"
    then obtain f where f: "f \<in> set files" "e \<in> set (content f)" by auto
    note range = serves_user_range [OF bspec [OF assms(1) f(1)] f(2)]
    have "Compare c u (user_key (fst e)) = 0" using v user.cmp_zero_sym by (simp add: visible_def)
    then have "f \<in> set ?fs"
      using f(1) range user.cmp_trans [of u "user_key (fst e)" "file_limit f"] user.cmp_trans [of "file_start f" "user_key (fst e)" u]
        user.cmp_le [of "file_start f" u] v by (simp add: around_def visible_def)
    then show "\<exists>x \<in> set (concat (map content ?fs)). visible c u s x \<and> sequence (fst e) \<le> sequence (fst x)"
      using f(2) v by auto
  qed (use sub in auto)
  ultimately show ?thesis by (simp add: search_ok_def)
qed

lemma version_search:
  assumes v: "version_ok c tget content v" and s: "s \<le> kMaxSequenceNumber" and rdy: "gs_ready u st"
  shows "\<exists>go. search_ok c u s (version_entries content v) go
    (ForEachOverlapping c v u (InternalKey_new u s kValueTypeForSeek) (Get_Match c tget (InternalKey_new u s kValueTypeForSeek)) st)"
proof -
  let ?K = "InternalKey_new u s kValueTypeForSeek" and ?M = "Get_Match c tget (InternalKey_new u s kValueTypeForSeek)"
  let ?ls = "map (\<lambda>level. (level, v_files v ! level)) [1..<kNumLevels]" and ?L0 = "concat (map content (v_files v ! 0))"
  let ?all = "\<lambda>(l :: nat, files). concat (map content files)"
  let ?rest = "concat (map ?all ?ls)"
  have len: "length (v_files v) = kNumLevels" using v by (simp add: version_ok_def)
  then have "v_files v = map (\<lambda>level. v_files v ! level) [0..<kNumLevels]" by (metis map_nth)
  also have "[0..<kNumLevels] = 0 # [1..<kNumLevels]" by (simp add: kNumLevels_def upt_conv_Cons)
  finally have split: "v_files v = v_files v ! 0 # map snd ?ls" by (simp add: comp_def)
  have ents: "version_entries content v = ?L0 @ ?rest"
    unfolding version_entries_def by (subst split) (simp add: map_concat comp_def concat_concat)
  have srv: "serves c tget f (content f)" if "f \<in> set (v_files v ! l)" "l < kNumLevels" for f l
    using v that len by (auto simp: version_ok_def)
  have inj: "inj_on (\<lambda>e. sequence (fst e)) (set ?L0)" "inj_on (\<lambda>e. sequence (fst e)) (set ?rest)"
    using v unfolding version_ok_def ents by (auto elim: inj_on_subset)
  have lev: "newer c (concat (map content (v_files v ! l))) (concat (map content (v_files v ! m)))" if "l < m" "m < kNumLevels" for l m
  proof -
    have "\<forall>f \<in> set (v_files v ! l). \<forall>g \<in> set (v_files v ! m). newer c (content f) (content g)"
      using v that unfolding version_ok_def by blast
    then show ?thesis by (intro newer_concat_left newer_concat_right ballI) auto
  qed
  obtain go0 st0 where m: "each_file ?M 0 (NewestFirst (around c u (v_files v ! 0))) st = (go0, st0)" by fastforce
  have here: "search_ok c u s ?L0 go0 st0"
    using v srv [of _ 0] inj(1) by (intro level0_search [OF _ s rdy _ _ _ m]) (auto simp: version_ok_def kNumLevels_def)
  have nw: "newer c ?L0 ?rest" by (intro newer_concat_right) (auto intro: lev)
  have sw: "sorted_wrt (\<lambda>(l, fs) (m, gs). newer c (concat (map content fs)) (concat (map content gs))) ?ls"
    by (auto simp: sorted_wrt_map intro!: sorted_wrt_on [OF sorted_wrt_upt] lev)
  have deep: "\<exists>go. search_ok c u s ?rest go (each_level c u ?K ?M ?ls st0)" if "gs_ready u st0"
    using v srv by (intro each_level_search [OF _ s that inj(2) sw]) (auto simp: version_ok_def)
  have fe: "ForEachOverlapping c v u ?K ?M st = (if go0 then each_level c u ?K ?M ?ls st0 else st0)"
    unfolding ForEachOverlapping_def Let_def around_def [symmetric] m by simp
  show ?thesis
  proof (cases go0)
    case True
    then have "gs_ready u st0" using here by (auto simp: search_ok_def split: option.splits)
    from deep [OF this] obtain go where "search_ok c u s ?rest go (each_level c u ?K ?M ?ls st0)" ..
    then have "search_ok c u s (?L0 @ ?rest) go (each_level c u ?K ?M ?ls st0)"
      by (intro search_ok_append [OF here nw]) (simp_all add: True)
    then show ?thesis unfolding ents fe using True by auto
  next
    case False
    then have "search_ok c u s (?L0 @ ?rest) False st0"
      by (intro search_ok_append [OF here nw]) simp_all
    then show ?thesis unfolding ents fe using False by auto
  qed
qed

end

definition get_result :: "mem_entry option \<Rightarrow> Status \<times> slice option" where
  "get_result r =
     (case r of None \<Rightarrow> (NotFound [] [], None)
      | Some e \<Rightarrow> (case ikey_type (fst e) of kTypeValue \<Rightarrow> (OK, Some (snd e)) | kTypeDeletion \<Rightarrow> (NotFound [] [], None)))"

lemma search_result:
  "search_ok c u s es go st \<Longrightarrow>
   (if gs_found st then gs_s st else NotFound [] [], saver_value (gs_saver st)) = get_result (newest c u s es None)"
  by (auto simp: search_ok_def get_result_def gs_ready_def gs_answers_def split: option.splits ValueType.splits)

text \<open>A table without index and filter: the first entry at or after the key.\<close>

definition sorted_get :: "Comparator \<Rightarrow> mem_entry list \<Rightarrow> slice \<Rightarrow> kv option" where
  "sorted_get c es k =
     (case dropWhile (\<lambda>e. InternalKey_Compare c (entry_ikey e) k < 0) es of
        [] \<Rightarrow> None | e # rest \<Rightarrow> Some (entry_ikey e, snd e))"

lemma serves_sorted:
  assumes "three_way (Compare c)" "sorted_wrt (\<lambda>a b. entry_cmp c a b < 0) es" "\<forall>e \<in> set es. entry_small e" "es \<noteq> []"
    and inj: "inj_on (\<lambda>e. sequence (fst e)) (set es)"
    and fs: "f_smallest f = entry_ikey (hd es)" "f_largest f = entry_ikey (last es)"
    and tg: "\<And>k. tget (f_number f) (f_file_size f) k = (OK, sorted_get c es k)"
  shows "serves c tget f es"
proof -
  have tw: "three_way (InternalKey_Compare c)" by (rule internal_order.internal_three_way [OF internal_order.intro [OF assms(1)]])
  have ends: "InternalKey_Compare c (f_smallest f) (entry_ikey e) \<le> 0 \<and> InternalKey_Compare c (entry_ikey e) (f_largest f) \<le> 0"
    if "e \<in> set es" for e
  proof -
    obtain i where i: "i < length es" "e = es ! i" using \<open>e \<in> set es\<close> by (auto simp: in_set_conv_nth)
    have "0 < i \<Longrightarrow> entry_cmp c (es ! 0) (es ! i) < 0" "i \<noteq> length es - 1 \<Longrightarrow> entry_cmp c (es ! i) (es ! (length es - 1)) < 0"
      using assms(2) i by (auto simp: sorted_wrt_iff_nth_less)
    then show ?thesis using i three_way.cmp_refl [OF tw]
      by (cases "i = 0"; cases "i = length es - 1") (auto simp: assms(4) fs hd_conv_nth last_conv_nth entry_cmp_def)
  qed
  have fst_ok: "ParseInternalKey (entry_ikey e) = Some (fst e)" if "e \<in> set es" for e
    using that assms(3) by (intro entry_ikey_parse) (simp add: entry_small_def)
  have fo: "file_ok c f" using ends [of "last es"] fst_ok [of "hd es"] fst_ok [of "last es"] assms(4) fs by (simp add: file_ok_def)
  have look: "case newest c u s es None of
      Some e \<Rightarrow> sorted_get c es (InternalKey_new u s kValueTypeForSeek) = Some (entry_ikey e, snd e)
    | None \<Rightarrow> \<forall>k v. sorted_get c es (InternalKey_new u s kValueTypeForSeek) = Some (k, v) \<longrightarrow>
        (\<exists>p. ParseInternalKey k = Some p \<and> Compare c (user_key p) u \<noteq> 0)" if "s \<le> kMaxSequenceNumber" for u s
  proof -
    note pos = mem_table.seek_pos [OF mem_table.intro [OF assms(1)] assms(2,3) that, of u]
    show ?thesis
    proof (cases "dropWhile (\<lambda>e. InternalKey_Compare c (entry_ikey e) (InternalKey_new u s kValueTypeForSeek) < 0) es")
      case Nil
      then have "newest c u s es None = None" using pos newest_None_iff unfolding Nil by simp
      then show ?thesis unfolding sorted_get_def Nil by simp
    next
      case (Cons e rest)
      then have e: "e \<in> set es" by (metis list.set_intros(1) set_dropWhileD)
      show ?thesis
      proof (cases "Compare c (user_key (fst e)) u = 0")
        case True
        then have "newest c u s es None = Some e" using pos Cons inj by (intro newest_unique) auto
        then show ?thesis using Cons by (simp add: sorted_get_def)
      next
        case False
        then have "newest c u s es None = None" using pos Cons newest_None_iff by simp
        then show ?thesis using Cons False fst_ok [OF e] by (simp add: sorted_get_def)
      qed
    qed
  qed
  show ?thesis using fo ends look assms(3,4) fs tg unfolding serves_def
    by (auto simp: entry_small_def intro!: bexI [of _ "last es"])
qed

lemma Version_Get_newest:
  assumes "three_way (Compare c)" "version_ok c tget content v" "s \<le> kMaxSequenceNumber"
  shows "\<exists>seek. Version_Get c tget v (LookupKey_new u s) =
    (fst (get_result (newest c u s (version_entries content v) None)),
     snd (get_result (newest c u s (version_entries content v) None)), seek)"
proof -
  let ?st = "\<lparr> gs_saver = \<lparr> saver_state = SaverNotFound, saver_user_key = u, saver_value = None \<rparr>,
    gs_seek_file = None, gs_last_file_read = None, gs_s = OK, gs_found = False \<rparr>"
  have "gs_ready u ?st" by (simp add: gs_ready_def)
  from internal_order.version_search [OF internal_order.intro [OF assms(1)] assms(2,3) this]
  obtain go where "search_ok c u s (version_entries content v) go
    (ForEachOverlapping c v u (InternalKey_new u s kValueTypeForSeek) (Get_Match c tget (InternalKey_new u s kValueTypeForSeek)) ?st)" ..
  from search_result [OF this] show ?thesis
    by (auto simp: Version_Get_def Let_def LookupKey_parts prod_eq_iff)
qed

section \<open>Properties\<close>

text \<open>
  C6: lookups in a version.  When every file's table serves its entries, the files of levels above 0
  are disjoint and in order, and newer entries of a user key are in the level-0 file with the larger
  number or in the smaller level, \<open>Version::Get\<close> at snapshot \<open>s\<close> returns the newest entry of the key, over
  all files of all levels, that is not newer than \<open>s\<close>: its value, or \<open>NotFound\<close> when that entry is a
  deletion or there is none.
\<close>

theorem version_get:
  assumes "three_way (Compare c)" "version_ok c tget content v" "s \<le> kMaxSequenceNumber"
  shows "\<exists>seek. Version_Get c tget v (LookupKey_new u s) =
    (fst (get_result (newest c u s (version_entries content v) None)),
     snd (get_result (newest c u s (version_entries content v) None)), seek)"
  by (rule Version_Get_newest [OF assms])

text \<open>A sample: the value of a key in level 1, deleted later by an entry in level 0.\<close>

definition sample_entries :: "FileMetaData \<Rightarrow> mem_entry list" where
  "sample_entries f =
     (if f_number f = 7 then [(\<lparr> user_key = [1], sequence = 9, ikey_type = kTypeDeletion \<rparr>, [])]
      else [(\<lparr> user_key = [1], sequence = 5, ikey_type = kTypeValue \<rparr>, [7])])"

definition sample_file :: "u64 \<Rightarrow> FileMetaData" where
  "sample_file n =
     (let f = FileMetaData_new\<lparr> f_number := n, f_file_size := 100 \<rparr>; k = entry_ikey (hd (sample_entries f))
      in f\<lparr> f_smallest := k, f_largest := k \<rparr>)"

definition sample_version :: Version where
  "sample_version = Version_new\<lparr> v_files := [[sample_file 7], [sample_file 5], [], [], [], [], []] \<rparr>"

definition sample_tget :: table_get where
  "sample_tget n file_size k = (OK, sorted_get BytewiseComparator (sample_entries (sample_file n)) k)"

lemma sample_file_parts [simp]:
  "f_number (sample_file n) = n" "f_file_size (sample_file n) = 100" "sample_entries (sample_file n) \<noteq> []"
  "f_smallest (sample_file n) = entry_ikey (hd (sample_entries (sample_file n)))"
  "f_largest (sample_file n) = entry_ikey (last (sample_entries (sample_file n)))"
  by (simp_all add: sample_file_def Let_def sample_entries_def)

lemma sample_serves: "serves BytewiseComparator sample_tget (sample_file n) (sample_entries (sample_file n))"
  by (rule serves_sorted [OF bytewise.three_way_axioms])
     (simp_all add: sample_tget_def, auto simp: sample_entries_def entry_small_def seq_le_max)

lemma sample_version_ok: "version_ok BytewiseComparator sample_tget sample_entries sample_version"
proof -
  have ls: "level_sorted BytewiseComparator [sample_file n]" for n
    using sample_serves [of n] by (simp add: level_sorted_def serves_def)
  have lev: "level < kNumLevels \<Longrightarrow> level = 0 \<or> level = 1 \<or> level = 2 \<or> level = 3 \<or> level = 4 \<or> level = 5 \<or> level = 6" for level
    by (auto simp: kNumLevels_def)
  have "level_sorted BytewiseComparator (v_files sample_version ! level)" if "level < kNumLevels" for level
    using lev [OF that] ls by (auto simp: sample_version_def level_sorted_def)
  moreover have "newer BytewiseComparator (sample_entries f) (sample_entries g)"
    if "l < m" "m < kNumLevels" "f \<in> set (v_files sample_version ! l)" "g \<in> set (v_files sample_version ! m)" for l m f g
    using that lev [of m] lev [of l] by (auto simp: sample_version_def newer_def sample_entries_def)
  moreover have "\<forall>f \<in> set (concat (v_files sample_version)). serves BytewiseComparator sample_tget f (sample_entries f)"
    using sample_serves by (simp add: sample_version_def)
  moreover have "length (v_files sample_version) = kNumLevels" "v_files sample_version ! 0 = [sample_file 7]"
    "inj_on (\<lambda>e. sequence (fst e)) (set (version_entries sample_entries sample_version))"
    by (simp_all add: sample_version_def kNumLevels_def version_entries_def sample_entries_def)
  ultimately show ?thesis unfolding version_ok_def by auto
qed

theorem version_get_witness:
  "fst (Version_Get BytewiseComparator sample_tget sample_version (LookupKey_new [1] 9)) = NotFound [] [] \<and>
   (\<exists>seek. Version_Get BytewiseComparator sample_tget sample_version (LookupKey_new [1] 8) = (OK, Some [7], seek))"
  using version_get [OF bytewise.three_way_axioms sample_version_ok, of 9 "[1]"]
    version_get [OF bytewise.three_way_axioms sample_version_ok, of 8 "[1]"]
  by (auto simp: seq_le_max version_entries_def sample_version_def sample_entries_def visible_def get_result_def BytewiseComparator_def)

end
