(* ===== verification/VersionBuilder.thy ===== *)
theory VersionBuilder
  imports Version
begin

text \<open>
  \<open>VersionSet::Builder\<close> (db/version_set.cc): applying version edits to a base version and saving the
  result.  The reference counts, which decide when shared metadata and versions are freed, are left
  out; assertions are not modelled.
\<close>

section \<open>Definitions\<close>

definition BySmallestKey :: "Comparator \<Rightarrow> FileMetaData \<Rightarrow> FileMetaData \<Rightarrow> bool" where
  "BySmallestKey ucmp f1 f2 =
     (let r = InternalKey_Compare ucmp (f_smallest f1) (f_smallest f2)
      in if r \<noteq> 0 then r < 0 else f_number f1 < f_number f2)"

text \<open>\<open>FileSet\<close> is a \<open>std::set\<close> with this order: a list in order, where an equivalent element is not inserted again.\<close>

fun FileSet_insert :: "Comparator \<Rightarrow> FileMetaData \<Rightarrow> FileMetaData list \<Rightarrow> FileMetaData list" where
  "FileSet_insert ucmp f [] = [f]"
| "FileSet_insert ucmp f (g # gs) =
     (if BySmallestKey ucmp f g then f # g # gs
      else if BySmallestKey ucmp g f then g # FileSet_insert ucmp f gs
      else g # gs)"

record LevelState =
  deleted_files :: "u64 set"
  added_files :: "FileMetaData list"

record Builder =
  b_base :: Version
  b_levels :: "LevelState list"

definition Builder_new :: "Version \<Rightarrow> Builder" where
  "Builder_new base = \<lparr> b_base = base, b_levels = replicate kNumLevels \<lparr> deleted_files = {}, added_files = [] \<rparr> \<rparr>"

text \<open>The three loops of \<open>Apply\<close>; the first one writes \<open>vset_->compact_pointer_\<close>.\<close>

definition apply_compact_pointer :: "nat \<times> InternalKey \<Rightarrow> slice list \<Rightarrow> slice list" where
  "apply_compact_pointer p pointers = pointers[fst p := snd p]"

definition apply_deleted :: "nat \<times> u64 \<Rightarrow> LevelState list \<Rightarrow> LevelState list" where
  "apply_deleted d levels =
     (let level = fst d; number = snd d; ls = levels ! level
      in levels[level := ls\<lparr> deleted_files := insert number (deleted_files ls) \<rparr>])"

text \<open>The number of seeks is computed in 64 bits and cast to \<open>int\<close>.\<close>

definition with_allowed_seeks :: "FileMetaData \<Rightarrow> FileMetaData" where
  "with_allowed_seeks f =
     (let seeks = sint (ucast (f_file_size f div 16384) :: 32 word)
      in f\<lparr> f_allowed_seeks := (if seeks < 100 then 100 else seeks) \<rparr>)"

definition apply_new_file :: "Comparator \<Rightarrow> nat \<times> FileMetaData \<Rightarrow> LevelState list \<Rightarrow> LevelState list" where
  "apply_new_file ucmp nf levels =
     (let level = fst nf; f = with_allowed_seeks (snd nf); ls = levels ! level
      in levels[level := ls\<lparr> deleted_files := deleted_files ls - {f_number f},
                             added_files := FileSet_insert ucmp f (added_files ls) \<rparr>])"

definition Builder_Apply :: "Comparator \<Rightarrow> VersionEdit \<Rightarrow> slice list \<times> Builder \<Rightarrow> slice list \<times> Builder" where
  "Builder_Apply ucmp edit st =
     (case st of (pointers, b) \<Rightarrow>
        (let pointers = fold apply_compact_pointer (ve_compact_pointers edit) pointers;
             levels = fold apply_deleted (ve_deleted_files edit) (b_levels b);
             levels = fold (apply_new_file ucmp) (ve_new_files edit) levels
         in (pointers, b\<lparr> b_levels := levels \<rparr>)))"

definition MaybeAddFile :: "LevelState \<Rightarrow> FileMetaData \<Rightarrow> FileMetaData list \<Rightarrow> FileMetaData list" where
  "MaybeAddFile ls f files = (if f_number f \<in> deleted_files ls then files else files @ [f])"

text \<open>The merge for one level; \<open>std::upper_bound\<close> on the sorted rest of the base files.\<close>

fun SaveTo_level ::
    "Comparator \<Rightarrow> LevelState \<Rightarrow> FileMetaData list \<Rightarrow> FileMetaData list \<Rightarrow> FileMetaData list \<Rightarrow> FileMetaData list" where
  "SaveTo_level ucmp ls [] base files = fold (MaybeAddFile ls) base files"
| "SaveTo_level ucmp ls (added_file # rest) base files =
     (let smaller = takeWhile (\<lambda>b. \<not> BySmallestKey ucmp added_file b) base;
          files = fold (MaybeAddFile ls) smaller files;
          files = MaybeAddFile ls added_file files
      in SaveTo_level ucmp ls rest (drop (length smaller) base) files)"

definition Builder_SaveTo :: "Comparator \<Rightarrow> Builder \<Rightarrow> Version \<Rightarrow> Version" where
  "Builder_SaveTo ucmp b v =
     v\<lparr> v_files := map (\<lambda>level. SaveTo_level ucmp (b_levels b ! level) (added_files (b_levels b ! level))
                                   (v_files (b_base b) ! level) (v_files v ! level)) [0..<kNumLevels] \<rparr>"

section \<open>The merge of a level\<close>

text \<open>What a level holds: the base files and the added ones, less the deleted ones.\<close>

definition effective :: "LevelState \<Rightarrow> FileMetaData list \<Rightarrow> FileMetaData set" where
  "effective ls base = {f \<in> set base \<union> set (added_files ls). f_number f \<notin> deleted_files ls}"

lemma fold_MaybeAddFile: "fold (MaybeAddFile ls) xs files = files @ filter (\<lambda>f. f_number f \<notin> deleted_files ls) xs"
  by (induction xs arbitrary: files) (simp_all add: MaybeAddFile_def)

text \<open>Without the deletions and the accumulator, the merge is this one.\<close>

fun merge_files :: "Comparator \<Rightarrow> FileMetaData list \<Rightarrow> FileMetaData list \<Rightarrow> FileMetaData list" where
  "merge_files c [] base = base"
| "merge_files c (a # as) base =
     takeWhile (\<lambda>b. \<not> BySmallestKey c a b) base @ a # merge_files c as (dropWhile (\<lambda>b. \<not> BySmallestKey c a b) base)"

lemma SaveTo_level_merge:
  "SaveTo_level c ls as base files = files @ filter (\<lambda>f. f_number f \<notin> deleted_files ls) (merge_files c as base)"
  by (induction as arbitrary: base files)
     (simp_all add: fold_MaybeAddFile MaybeAddFile_def Let_def dropWhile_eq_drop)

lemma set_merge_files: "set (merge_files c as base) = set as \<union> set base"
proof (induction as arbitrary: base)
  case (Cons a as)
  have "set base = set (takeWhile (\<lambda>b. \<not> BySmallestKey c a b) base) \<union> set (dropWhile (\<lambda>b. \<not> BySmallestKey c a b) base)"
    by (metis set_append takeWhile_dropWhile_id)
  then show ?case using Cons.IH by auto
qed simp

lemma sorted_wrt_unique:
  assumes "sorted_wrt R xs" "sorted_wrt R ys" "set xs = set ys"
    and irrefl: "\<And>x. \<not> R x x" and asym: "\<And>x y. R x y \<Longrightarrow> \<not> R y x"
  shows "xs = ys"
  using assms(1-3)
proof (induction xs arbitrary: ys)
  case (Cons x xs)
  then obtain y ys' where ys: "ys = y # ys'" by (cases ys) auto
  have "x = y"
  proof (rule ccontr)
    assume "x \<noteq> y"
    then have "R y x" "R x y" using Cons.prems ys by auto
    then show False using asym by blast
  qed
  moreover have "x \<notin> set xs" "y \<notin> set ys'" using Cons.prems(1,2) irrefl ys by auto
  ultimately have "set xs = set ys'" using Cons.prems(3) ys by auto
  then show ?case using Cons ys \<open>x = y\<close> by simp
qed simp

lemma distinct_regroup:
  "distinct (xs @ ys @ zs) \<Longrightarrow> distinct ws \<Longrightarrow> set ws \<subseteq> set xs \<union> set ys \<Longrightarrow> distinct (ws @ zs)"
  by auto

context internal_order
begin

lemma By_irrefl: "\<not> BySmallestKey c f f"
  by (simp add: BySmallestKey_def three_way.cmp_refl [OF internal_three_way])

lemma By_iff:
  "BySmallestKey c f g \<longleftrightarrow> InternalKey_Compare c (f_smallest f) (f_smallest g) < 0 \<or>
     InternalKey_Compare c (f_smallest f) (f_smallest g) = 0 \<and> f_number f < f_number g"
  by (simp add: BySmallestKey_def Let_def)

lemma By_trans:
  assumes "BySmallestKey c f g" "BySmallestKey c g h"
  shows "BySmallestKey c f h"
proof -
  note tw = internal_three_way
  show ?thesis
    using assms three_way.cmp_less_trans [OF tw] three_way.cmp_zero_trans [OF tw]
      three_way.cmp_zero_left [OF tw] three_way.cmp_zero_right [OF tw] unfolding By_iff
    by (smt (verit) less_trans)
qed

lemma By_asym: "BySmallestKey c f g \<Longrightarrow> \<not> BySmallestKey c g f"
  using By_trans By_irrefl by blast

lemma By_total: "f_number f \<noteq> f_number g \<Longrightarrow> BySmallestKey c f g \<or> BySmallestKey c g f"
  unfolding By_iff using three_way.cmp_zero_sym [OF internal_three_way] three_way.cmp_neg [OF internal_three_way]
  by (metis linorder_neq_iff)

lemma By_le_trans: "\<not> BySmallestKey c g f \<Longrightarrow> BySmallestKey c g h \<Longrightarrow> f_number f \<noteq> f_number g \<Longrightarrow> BySmallestKey c f h"
  using By_total By_trans by blast

lemma FileSet_insert_set:
  "\<forall>g \<in> set gs. f_number g \<noteq> f_number f \<Longrightarrow> set (FileSet_insert c f gs) = insert f (set gs)"
  using By_total by (induction gs) auto

lemma FileSet_insert_sorted: "sorted_wrt (BySmallestKey c) gs \<Longrightarrow> sorted_wrt (BySmallestKey c) (FileSet_insert c f gs)"
proof (induction gs)
  case (Cons g gs)
  have "set (FileSet_insert c f gs) \<subseteq> insert f (set gs)" for gs by (induction gs) auto
  then have sub: "x = f \<or> x \<in> set gs" if "x \<in> set (FileSet_insert c f gs)" for x using that by blast
  have up: "BySmallestKey c f x" if "BySmallestKey c f g" "x \<in> set gs" for x
    using By_trans [OF that(1)] Cons.prems that(2) by simp
  show ?case using Cons sub up by auto
qed simp

lemma merge_files_sorted:
  assumes "sorted_wrt (BySmallestKey c) as" "sorted_wrt (BySmallestKey c) base"
    and "\<forall>a \<in> set as. \<forall>b \<in> set base. f_number a \<noteq> f_number b"
  shows "sorted_wrt (BySmallestKey c) (merge_files c as base)"
  using assms
proof (induction as arbitrary: base)
  case (Cons a as)
  let ?P = "\<lambda>b. \<not> BySmallestKey c a b"
  have split: "sorted_wrt (BySmallestKey c) (takeWhile ?P base)" "sorted_wrt (BySmallestKey c) (dropWhile ?P base)"
    using Cons.prems(2) sorted_wrt_append [of "BySmallestKey c" "takeWhile ?P base" "dropWhile ?P base"] by simp_all
  have sub: "set (takeWhile ?P base) \<subseteq> set base" "set (dropWhile ?P base) \<subseteq> set base"
    by (auto dest: set_takeWhileD set_dropWhileD)
  have less: "BySmallestKey c b a" if "b \<in> set (takeWhile ?P base)" for b
    using that By_total [of a b] set_takeWhileD [OF that] Cons.prems(3) by auto
  have greater: "BySmallestKey c a b" if b: "b \<in> set (dropWhile ?P base)" for b
  proof -
    obtain x xs where x: "dropWhile ?P base = x # xs" using b by (cases "dropWhile ?P base") auto
    then have "BySmallestKey c a x" using hd_dropWhile [of ?P base] by simp
    moreover have "b = x \<or> BySmallestKey c x b" using b split(2) x by auto
    ultimately show ?thesis using By_trans by blast
  qed
  have rest: "sorted_wrt (BySmallestKey c) (merge_files c as (dropWhile ?P base))"
    using Cons.prems sub(2) split(2) by (intro Cons.IH) auto
  have up: "BySmallestKey c a y" if "y \<in> set (merge_files c as (dropWhile ?P base))" for y
  proof -
    have "y \<in> set as \<or> y \<in> set (dropWhile ?P base)" using that by (simp only: set_merge_files Un_iff)
    then show ?thesis using greater [of y] Cons.prems(1) by (meson sorted_wrt.simps(2))
  qed
  have across: "\<forall>b \<in> set (takeWhile ?P base). \<forall>y \<in> set (merge_files c as (dropWhile ?P base)). BySmallestKey c b y"
  proof (intro ballI)
    fix b y
    assume "b \<in> set (takeWhile ?P base)" "y \<in> set (merge_files c as (dropWhile ?P base))"
    from By_trans [OF less [OF this(1)] up [OF this(2)]] show "BySmallestKey c b y" .
  qed
  show ?case unfolding merge_files.simps sorted_wrt_append sorted_wrt.simps(2)
  proof (intro conjI split(1) rest ballI)
    fix x y
    assume x: "x \<in> set (takeWhile ?P base)" and y: "y \<in> set (a # merge_files c as (dropWhile ?P base))"
    show "BySmallestKey c x y" by (cases "y = a") (use less [OF x] across x y in \<open>auto simp del: set_merge_files\<close>)
  qed (rule up)
qed simp

end

section \<open>Applying edits\<close>

text \<open>What an edit does to the set of files of a level.\<close>

definition new_files_at :: "VersionEdit \<Rightarrow> nat \<Rightarrow> FileMetaData list" where
  "new_files_at e l = map (\<lambda>nf. with_allowed_seeks (snd nf)) (filter (\<lambda>nf. fst nf = l) (ve_new_files e))"

definition deleted_at :: "VersionEdit \<Rightarrow> nat \<Rightarrow> u64 set" where
  "deleted_at e l = {n. (l, n) \<in> set (ve_deleted_files e)}"

definition apply_edit :: "VersionEdit \<Rightarrow> nat \<Rightarrow> FileMetaData set \<Rightarrow> FileMetaData set" where
  "apply_edit e l fs = {f \<in> fs. f_number f \<notin> deleted_at e l} \<union> set (new_files_at e l)"

text \<open>No edit adds a file number to a level that has or had it.\<close>

definition fresh_edits :: "Version \<Rightarrow> VersionEdit list \<Rightarrow> bool" where
  "fresh_edits v es \<longleftrightarrow>
     (\<forall>l < kNumLevels. distinct (map f_number (v_files v ! l) @ concat (map (\<lambda>e. map f_number (new_files_at e l)) es)))"

definition version_sorted :: "Comparator \<Rightarrow> Version \<Rightarrow> bool" where
  "version_sorted c v \<longleftrightarrow>
     length (v_files v) = kNumLevels \<and> (\<forall>l < kNumLevels. sorted_wrt (BySmallestKey c) (v_files v ! l))"

lemma with_allowed_seeks_number [simp]: "f_number (with_allowed_seeks f) = f_number f"
  by (simp add: with_allowed_seeks_def Let_def)

lemma length_fold_deleted [simp]: "length (fold apply_deleted ds levels) = length levels"
  by (induction ds arbitrary: levels) (simp_all add: apply_deleted_def Let_def)

lemma length_fold_new [simp]: "length (fold (apply_new_file c) nfs levels) = length levels"
  by (induction nfs arbitrary: levels) (simp_all add: apply_new_file_def Let_def)

lemma fold_apply_deleted:
  assumes "l < length levels"
  shows "fold apply_deleted ds levels ! l =
    (levels ! l)\<lparr> deleted_files := deleted_files (levels ! l) \<union> {n. (l, n) \<in> set ds} \<rparr>"
  using assms
proof (induction ds arbitrary: levels)
  case (Cons d ds)
  then show ?case by (cases d; cases "fst d = l") (auto simp: apply_deleted_def Let_def nth_list_update intro!: arg_cong [where f = "\<lambda>D. _\<lparr> deleted_files := D \<rparr>"])
qed simp

lemma fold_apply_new:
  assumes "l < length levels"
  shows "fold (apply_new_file c) nfs levels ! l =
    (let fs = map (\<lambda>nf. with_allowed_seeks (snd nf)) (filter (\<lambda>nf. fst nf = l) nfs)
     in \<lparr> deleted_files = deleted_files (levels ! l) - f_number ` set fs,
          added_files = fold (FileSet_insert c) fs (added_files (levels ! l)) \<rparr>)"
  using assms
proof (induction nfs arbitrary: levels)
  case Nil
  then show ?case by (cases "levels ! l") simp
next
  case (Cons nf nfs)
  have "l < length (apply_new_file c nf levels)" using Cons.prems by (simp add: apply_new_file_def Let_def)
  note IH = Cons.IH [OF this]
  show ?case unfolding fold_simps IH
    using Cons.prems by (cases "fst nf = l") (auto simp: apply_new_file_def Let_def)
qed

definition Builder_ok :: "Comparator \<Rightarrow> Version \<Rightarrow> Builder \<Rightarrow> bool" where
  "Builder_ok c v b \<longleftrightarrow>
     b_base b = v \<and> length (b_levels b) = kNumLevels \<and>
     (\<forall>l < kNumLevels. sorted_wrt (BySmallestKey c) (added_files (b_levels b ! l)) \<and>
        distinct (map f_number (v_files v ! l @ added_files (b_levels b ! l))))"

lemma Builder_new_effective: "l < kNumLevels \<Longrightarrow> effective (b_levels (Builder_new v) ! l) (v_files v ! l) = set (v_files v ! l)"
  by (simp add: Builder_new_def effective_def)

context internal_order
begin

lemma FileSet_insert_all:
  assumes "sorted_wrt (BySmallestKey c) gs" "distinct (map f_number (gs @ fs))"
  shows "sorted_wrt (BySmallestKey c) (fold (FileSet_insert c) fs gs) \<and>
    set (fold (FileSet_insert c) fs gs) = set gs \<union> set fs \<and> length (fold (FileSet_insert c) fs gs) = length gs + length fs"
  using assms
proof (induction fs arbitrary: gs)
  case (Cons f fs)
  have new: "\<forall>g \<in> set gs. f_number g \<noteq> f_number f" using Cons.prems(2) by (auto simp: image_iff)
  have len: "length (FileSet_insert c f gs) = Suc (length gs)" using new By_total by (induction gs) auto
  have "card (f_number ` set (FileSet_insert c f gs)) = length (FileSet_insert c f gs)"
    unfolding FileSet_insert_set [OF new] len using Cons.prems(2) distinct_card [of "map f_number (f # gs)"] by (simp add: image_iff)
  then have "distinct (map f_number (FileSet_insert c f gs))" by (intro card_distinct) simp
  then have "distinct (map f_number (FileSet_insert c f gs @ fs))"
    using Cons.prems(2) by (auto simp: FileSet_insert_set [OF new])
  from Cons.IH [OF FileSet_insert_sorted [OF Cons.prems(1)] this] show ?case
    by (auto simp: FileSet_insert_set [OF new] len)
qed simp

lemma Apply_level:
  fixes ps :: "slice list"
  assumes b: "Builder_ok c v b" and l: "l < kNumLevels"
    and fresh: "distinct (map f_number (v_files v ! l @ added_files (b_levels b ! l) @ new_files_at e l))"
  defines "ls' \<equiv> b_levels (snd (Builder_Apply c e (ps, b))) ! l"
  shows "sorted_wrt (BySmallestKey c) (added_files ls')" "set (added_files ls') = set (added_files (b_levels b ! l)) \<union> set (new_files_at e l)"
    "distinct (map f_number (v_files v ! l @ added_files ls'))"
    "effective ls' (v_files v ! l) = apply_edit e l (effective (b_levels b ! l) (v_files v ! l))"
proof -
  let ?ls = "b_levels b ! l" and ?new = "new_files_at e l"
  have len: "l < length (b_levels b)" "l < length (fold apply_deleted (ve_deleted_files e) (b_levels b))"
    using b l by (simp_all add: Builder_ok_def)
  have ls': "ls' = \<lparr> deleted_files = deleted_files ?ls \<union> deleted_at e l - f_number ` set ?new,
      added_files = fold (FileSet_insert c) ?new (added_files ?ls) \<rparr>"
    unfolding ls'_def Builder_Apply_def Let_def prod.case snd_conv
    by (simp add: fold_apply_new [OF len(2)] fold_apply_deleted [OF len(1)] Let_def new_files_at_def deleted_at_def)
  have srt: "sorted_wrt (BySmallestKey c) (added_files ?ls)" using b l by (simp add: Builder_ok_def)
  have "distinct (map f_number (added_files ?ls @ ?new))" using fresh by simp
  note all = FileSet_insert_all [OF srt this]
  show "sorted_wrt (BySmallestKey c) (added_files ls')" and set': "set (added_files ls') = set (added_files ?ls) \<union> set ?new"
    using all by (simp_all add: ls')
  have "distinct (map f_number (added_files ls'))"
  proof (rule card_distinct)
    have "card (f_number ` (set (added_files ?ls) \<union> set ?new)) = length (added_files ?ls @ ?new)"
      using fresh distinct_card [of "map f_number (added_files ?ls @ ?new)"] by (simp add: image_Un)
    then show "card (set (map f_number (added_files ls'))) = length (map f_number (added_files ls'))"
      using all by (simp add: ls')
  qed
  then show "distinct (map f_number (v_files v ! l @ added_files ls'))" using fresh by (auto simp: set')
  show "effective ls' (v_files v ! l) = apply_edit e l (effective ?ls (v_files v ! l))"
    using fresh unfolding effective_def apply_edit_def set' by (auto simp: ls' image_iff)
qed

lemma Builder_new_ok: "version_sorted c v \<Longrightarrow> (\<And>l. l < kNumLevels \<Longrightarrow> distinct (map f_number (v_files v ! l))) \<Longrightarrow> Builder_ok c v (Builder_new v)"
  by (simp add: Builder_ok_def Builder_new_def version_sorted_def)

text \<open>A run of edits through one builder.\<close>

lemma Apply_all:
  assumes "Builder_ok c v b"
    and "\<forall>l < kNumLevels. distinct (map f_number (v_files v ! l @ added_files (b_levels b ! l)) @ concat (map (\<lambda>e. map f_number (new_files_at e l)) es))"
  shows "Builder_ok c v (snd (fold (Builder_Apply c) es (ps, b))) \<and>
    (\<forall>l < kNumLevels. effective (b_levels (snd (fold (Builder_Apply c) es (ps, b))) ! l) (v_files v ! l) =
       fold (\<lambda>e. apply_edit e l) es (effective (b_levels b ! l) (v_files v ! l)))"
  using assms
proof (induction es arbitrary: b ps)
  case (Cons e es)
  obtain ps' b' where b': "Builder_Apply c e (ps, b) = (ps', b')" by fastforce
  then have base: "b_base b' = b_base b" "length (b_levels b') = length (b_levels b)"
    by (auto simp: Builder_Apply_def Let_def)
  have fresh: "distinct (map f_number (v_files v ! l @ added_files (b_levels b ! l) @ new_files_at e l))" if "l < kNumLevels" for l
    using Cons.prems(2) that by (simp add: Int_Un_distrib)
  note lev = Apply_level [OF Cons.prems(1) _ fresh, where ps = ps, unfolded b' snd_conv]
  have ok': "Builder_ok c v b'" using Cons.prems(1) base lev by (simp add: Builder_ok_def)
  have "distinct (map f_number (v_files v ! l @ added_files (b_levels b' ! l)) @ concat (map (\<lambda>e. map f_number (new_files_at e l)) es))"
    if l: "l < kNumLevels" for l
  proof (rule distinct_regroup [OF _ lev(3) [OF l l]])
    show "distinct (map f_number (v_files v ! l @ added_files (b_levels b ! l)) @ map f_number (new_files_at e l) @
        concat (map (\<lambda>e. map f_number (new_files_at e l)) es))"
      using Cons.prems(2) [rule_format, OF l] by simp
  qed (auto simp: lev(2) [OF l l])
  from Cons.IH [OF ok', of ps'] this show ?case using lev(4) by (simp add: b')
qed simp

text \<open>What is saved.\<close>

lemma SaveTo_files:
  assumes "Builder_ok c v b" "version_sorted c v" "l < kNumLevels"
  shows "sorted_wrt (BySmallestKey c) (v_files (Builder_SaveTo c b Version_new) ! l)"
    "set (v_files (Builder_SaveTo c b Version_new) ! l) = effective (b_levels b ! l) (v_files v ! l)"
proof -
  let ?ls = "b_levels b ! l"
  have files: "v_files (Builder_SaveTo c b Version_new) ! l =
      filter (\<lambda>f. f_number f \<notin> deleted_files ?ls) (merge_files c (added_files ?ls) (v_files v ! l))"
    using assms(1,3) by (simp add: Builder_SaveTo_def SaveTo_level_merge Version_new_def Builder_ok_def)
  have "sorted_wrt (BySmallestKey c) (merge_files c (added_files ?ls) (v_files v ! l))"
    using assms by (intro merge_files_sorted) (auto simp: Builder_ok_def version_sorted_def)
  then show "sorted_wrt (BySmallestKey c) (v_files (Builder_SaveTo c b Version_new) ! l)"
    unfolding files by (rule sorted_wrt_filter)
  show "set (v_files (Builder_SaveTo c b Version_new) ! l) = effective ?ls (v_files v ! l)"
    unfolding files by (auto simp: set_merge_files effective_def)
qed

lemma length_SaveTo [simp]: "length (v_files (Builder_SaveTo c b v)) = kNumLevels"
  by (simp add: Builder_SaveTo_def)

lemma builder_run:
  fixes ps :: "slice list"
  assumes "version_sorted c v" "fresh_edits v es"
  defines "v' \<equiv> Builder_SaveTo c (snd (fold (Builder_Apply c) es (ps, Builder_new v))) Version_new"
  shows "version_sorted c v'"
    "l < kNumLevels \<Longrightarrow> set (v_files v' ! l) = fold (\<lambda>e. apply_edit e l) es (set (v_files v ! l))"
proof -
  have d: "\<forall>l < kNumLevels. distinct (map f_number (v_files v ! l) @ concat (map (\<lambda>e. map f_number (new_files_at e l)) es))"
    using assms(2) by (simp add: fresh_edits_def)
  have ok: "Builder_ok c v (Builder_new v)" using d by (intro Builder_new_ok [OF assms(1)]) simp
  have none: "added_files (b_levels (Builder_new v) ! l) = []" if "l < kNumLevels" for l using that by (simp add: Builder_new_def)
  have run: "Builder_ok c v (snd (fold (Builder_Apply c) es (ps, Builder_new v))) \<and>
      (\<forall>l < kNumLevels. effective (b_levels (snd (fold (Builder_Apply c) es (ps, Builder_new v))) ! l) (v_files v ! l) =
         fold (\<lambda>e. apply_edit e l) es (effective (b_levels (Builder_new v) ! l) (v_files v ! l)))"
    using d none by (intro Apply_all [OF ok]) simp
  show "version_sorted c v'" using SaveTo_files(1) [OF _ assms(1)] run by (simp add: version_sorted_def v'_def)
  show "set (v_files v' ! l) = fold (\<lambda>e. apply_edit e l) es (set (v_files v ! l))" if "l < kNumLevels"
    using SaveTo_files(2) [OF _ assms(1) that] run that by (simp add: v'_def Builder_new_effective)
qed

end

text \<open>Each edit through a builder of its own, as \<open>LogAndApply\<close> does.\<close>

definition step_edit :: "Comparator \<Rightarrow> slice list \<Rightarrow> VersionEdit \<Rightarrow> Version \<Rightarrow> Version" where
  "step_edit c ps e v = Builder_SaveTo c (snd (Builder_Apply c e (ps, Builder_new v))) Version_new"

context internal_order
begin

lemma By_distinct_numbers:
  assumes "sorted_wrt (BySmallestKey c) xs" "inj_on f_number (set xs)"
  shows "distinct (map f_number xs)"
proof -
  have "distinct xs" using assms(1) By_irrefl by (induction xs) auto
  then show ?thesis using assms(2) by (simp add: distinct_map)
qed

lemma step_edit_result:
  assumes "version_sorted c v" "fresh_edits v (e # es)"
  shows "version_sorted c (step_edit c ps e v)" "fresh_edits (step_edit c ps e v) es"
    "l < kNumLevels \<Longrightarrow> set (v_files (step_edit c ps e v) ! l) = apply_edit e l (set (v_files v ! l))"
proof -
  have f1: "fresh_edits v [e]" using assms(2) by (simp add: fresh_edits_def Int_Un_distrib)
  note run = builder_run [OF assms(1) f1, where ps = ps, simplified, folded step_edit_def]
  show "version_sorted c (step_edit c ps e v)" by (rule run(1))
  show "l < kNumLevels \<Longrightarrow> set (v_files (step_edit c ps e v) ! l) = apply_edit e l (set (v_files v ! l))" by (rule run(2))
  show "fresh_edits (step_edit c ps e v) es"
    unfolding fresh_edits_def
  proof (intro allI impI)
    fix l assume l: "l < kNumLevels"
    have fr: "distinct (map f_number (v_files v ! l) @ map f_number (new_files_at e l) @ concat (map (\<lambda>e. map f_number (new_files_at e l)) es))"
      using assms(2) l by (simp add: fresh_edits_def)
    then have "inj_on f_number (set (v_files v ! l) \<union> set (new_files_at e l))"
      by (auto simp: distinct_map inj_on_Un)
    then have inj: "inj_on f_number (set (v_files (step_edit c ps e v) ! l))"
      by (rule inj_on_subset) (auto simp: run(2) [OF l] apply_edit_def)
    have "distinct (map f_number (v_files (step_edit c ps e v) ! l))"
      using run(1) l inj by (intro By_distinct_numbers) (simp_all add: version_sorted_def)
    then show "distinct (map f_number (v_files (step_edit c ps e v) ! l) @ concat (map (\<lambda>e. map f_number (new_files_at e l)) es))"
      by (rule distinct_regroup [OF fr]) (auto simp: run(2) [OF l] apply_edit_def)
  qed
qed

lemma step_edits_result:
  assumes "version_sorted c v" "fresh_edits v es"
  shows "version_sorted c (fold (step_edit c ps) es v) \<and>
    (\<forall>l < kNumLevels. set (v_files (fold (step_edit c ps) es v) ! l) = fold (\<lambda>e. apply_edit e l) es (set (v_files v ! l)))"
  using assms
proof (induction es arbitrary: v)
  case (Cons e es)
  note step = step_edit_result [OF Cons.prems, where ps = ps]
  from Cons.IH [OF step(1,2)] show ?case using step(3) by simp
qed simp

lemma recover_equals_steps:
  assumes "version_sorted c v" "fresh_edits v es"
  shows "v_files (Builder_SaveTo c (snd (fold (Builder_Apply c) es (ps, Builder_new v))) Version_new) = v_files (fold (step_edit c ps') es v)"
proof (rule nth_equalityI)
  note a = builder_run [OF assms, where ps = ps] and b = step_edits_result [OF assms, of ps']
  show "length (v_files (Builder_SaveTo c (snd (fold (Builder_Apply c) es (ps, Builder_new v))) Version_new)) = length (v_files (fold (step_edit c ps') es v))"
    using b by (simp add: version_sorted_def)
  fix l assume "l < length (v_files (Builder_SaveTo c (snd (fold (Builder_Apply c) es (ps, Builder_new v))) Version_new))"
  then have l: "l < kNumLevels" by simp
  show "v_files (Builder_SaveTo c (snd (fold (Builder_Apply c) es (ps, Builder_new v))) Version_new) ! l = v_files (fold (step_edit c ps') es v) ! l"
    by (rule sorted_wrt_unique [of "BySmallestKey c"])
       (use a b l By_asym By_irrefl in \<open>auto simp: version_sorted_def\<close>)
qed

end

end
