(* ===== verification/EnvUtil.thy ===== *)
theory EnvUtil
  imports Env Filename
begin

text \<open>
  The \<open>Env\<close> interface of \<open>include/leveldb/env.h\<close> as a record of the functions that the database calls, over a state
  \<open>'e\<close> of the file system and states \<open>'f\<close> and \<open>'w\<close> of open files; \<open>env_delete_WF\<close> is the destructor of a
  \<open>WritableFile\<close>, after which the file system has what was written; the helpers of \<open>util/env.cc\<close>; and
  \<open>SetCurrentFile\<close> of \<open>db/filename.cc\<close>.
\<close>

section \<open>Definitions\<close>

record ('e, 'f, 'w) Env =
  env_SF :: "'f SequentialFile"
  env_WF :: "'w WritableFile"
  env_NewSequentialFile :: "slice \<Rightarrow> 'e \<Rightarrow> Status \<times> 'f"
  env_NewWritableFile :: "slice \<Rightarrow> 'e \<Rightarrow> Status \<times> 'w \<times> 'e"
  env_NewAppendableFile :: "slice \<Rightarrow> 'e \<Rightarrow> Status \<times> 'w \<times> 'e"
  env_RemoveFile :: "slice \<Rightarrow> 'e \<Rightarrow> Status \<times> 'e"
  env_RenameFile :: "slice \<Rightarrow> slice \<Rightarrow> 'e \<Rightarrow> Status \<times> 'e"
  env_GetFileSize :: "slice \<Rightarrow> 'e \<Rightarrow> Status \<times> nat"
  env_FileExists :: "slice \<Rightarrow> 'e \<Rightarrow> bool"
  env_GetChildren :: "slice \<Rightarrow> 'e \<Rightarrow> Status \<times> slice list"
  env_CreateDir :: "slice \<Rightarrow> 'e \<Rightarrow> Status \<times> 'e"
  env_RemoveDir :: "slice \<Rightarrow> 'e \<Rightarrow> Status \<times> 'e"
  env_LockFile :: "slice \<Rightarrow> 'e \<Rightarrow> Status \<times> 'e"
  env_UnlockFile :: "slice \<Rightarrow> 'e \<Rightarrow> Status \<times> 'e"
  env_delete_WF :: "'w \<Rightarrow> 'e \<Rightarrow> 'e"

definition DoWriteStringToFile ::
    "('e, 'f, 'w) Env \<Rightarrow> slice \<Rightarrow> slice \<Rightarrow> bool \<Rightarrow> 'e \<Rightarrow> Status \<times> 'e" where
  "DoWriteStringToFile env data fname should_sync e =
     (case env_NewWritableFile env fname e of
        (s, w, e) \<Rightarrow>
          if \<not> ok s then (s, e)
          else
            (case WF_Append (env_WF env) w data of
               (s, w) \<Rightarrow>
                 (case (if ok s \<and> should_sync then WF_Sync (env_WF env) w else (s, w)) of
                    (s, w) \<Rightarrow>
                      (case (if ok s then WF_Close (env_WF env) w else (s, w)) of
                         (s, w) \<Rightarrow>
                           (let e = env_delete_WF env w e
                            in (s, if \<not> ok s then snd (env_RemoveFile env fname e) else e))))))"

definition WriteStringToFile :: "('e, 'f, 'w) Env \<Rightarrow> slice \<Rightarrow> slice \<Rightarrow> 'e \<Rightarrow> Status \<times> 'e" where
  "WriteStringToFile env data fname e = DoWriteStringToFile env data fname False e"

definition WriteStringToFileSync :: "('e, 'f, 'w) Env \<Rightarrow> slice \<Rightarrow> slice \<Rightarrow> 'e \<Rightarrow> Status \<times> 'e" where
  "WriteStringToFileSync env data fname e = DoWriteStringToFile env data fname True e"

text \<open>The loop of \<open>ReadFileToString\<close>, which does not end on a file that never does: \<^term>\<open>None\<close>.\<close>

partial_function (option) ReadFileToString_loop ::
    "'f SequentialFile \<Rightarrow> 'f \<Rightarrow> slice \<Rightarrow> (Status \<times> slice) option" where
  "ReadFileToString_loop F file data =
     (case SF_Read F file 8192 of
        (s, fragment, file) \<Rightarrow>
          if \<not> ok s then Some (s, data)
          else if fragment = [] then Some (s, data)
          else ReadFileToString_loop F file (data @ fragment))"

definition ReadFileToString :: "('e, 'f, 'w) Env \<Rightarrow> slice \<Rightarrow> 'e \<Rightarrow> (Status \<times> slice) option" where
  "ReadFileToString env fname e =
     (case env_NewSequentialFile env fname e of
        (s, file) \<Rightarrow> if \<not> ok s then Some (s, []) else ReadFileToString_loop (env_SF env) file [])"

definition SetCurrentFile :: "('e, 'f, 'w) Env \<Rightarrow> slice \<Rightarrow> u64 \<Rightarrow> 'e \<Rightarrow> Status \<times> 'e" where
  "SetCurrentFile env dbname descriptor_number e =
     (let manifest = DescriptorFileName dbname descriptor_number;
          contents = remove_prefix manifest (length dbname + 1);
          tmp = TempFileName dbname descriptor_number
      in case WriteStringToFileSync env (contents @ [10]) tmp e of
           (s, e) \<Rightarrow>
             (case (if ok s then env_RenameFile env tmp (CurrentFileName dbname) e else (s, e)) of
                (s, e) \<Rightarrow> (s, if \<not> ok s then snd (env_RemoveFile env tmp e) else e)))"

section \<open>Reading a whole file\<close>

context sequential_file
begin

lemma ReadFileToString_loop_all:
  assumes "good f"
  shows "ReadFileToString_loop F f data = Some (OK, data @ left f)"
  using assms
proof (induction "length (left f)" arbitrary: f data rule: less_induct)
  case less
  obtain f' where f': "SF_Read F f 8192 = (OK, take 8192 (left f), f')" "left f' = drop 8192 (left f)" "good f'"
    by (rule read_obtain [OF less.prems])
  show ?case
  proof (cases "left f")
    case Nil
    then show ?thesis by (subst ReadFileToString_loop.simps) (simp add: f'(1))
  next
    case (Cons b bs)
    then have "ReadFileToString_loop F f' (data @ take 8192 (left f)) = Some (OK, (data @ take 8192 (left f)) @ left f')"
      using f'(2,3) by (intro less.hyps) simp_all
    moreover have "take 8192 (left f) \<noteq> []" using Cons by simp
    ultimately show ?thesis by (subst ReadFileToString_loop.simps) (simp add: f'(1,2))
  qed
qed

end

lemma SetCurrentFile_contents: "remove_prefix (DescriptorFileName dbname n) (length dbname + 1) = ascii ''MANIFEST-'' @ decimal06 n"
  by (simp add: DescriptorFileName_def remove_prefix_def ascii_def)

end
