(* ===== verification/VersionSet.thy ===== *)
theory VersionSet
  imports VersionBuilder EnvUtil Log
begin

text \<open>
  \<open>VersionSet\<close> (db/version_set.h, db/version_set.cc): the versions of the file set, the counters, and their
  persistent form in the descriptor log.  The user comparator is an argument.  \<open>LogAndApply\<close> releases the
  database mutex while it writes; it is modelled as one step, as no other thread calls it meanwhile.
  Messages to the info log are left out.
\<close>

section \<open>Definitions\<close>

text \<open>
  \<open>vs_versions\<close> is the circular list that starts after \<open>dummy_versions_\<close>; its last element is
  \<open>current_\<close>.  The writer \<open>descriptor_log_\<close> holds \<open>descriptor_file_\<close>.
\<close>

record 'w VersionSet =
  vs_dbname :: slice
  vs_options :: Options
  vs_next_file_number :: u64
  vs_manifest_file_number :: u64
  vs_last_sequence :: SequenceNumber
  vs_log_number :: u64
  vs_prev_log_number :: u64
  vs_descriptor_log :: "'w Writer option"
  vs_versions :: "Version list"
  vs_compact_pointer :: "slice list"

definition vs_current :: "'w VersionSet \<Rightarrow> Version" where
  "vs_current vs = last (vs_versions vs)"

definition with_current :: "Version \<Rightarrow> 'w VersionSet \<Rightarrow> 'w VersionSet" where
  "with_current v vs = vs\<lparr> vs_versions := butlast (vs_versions vs) @ [v] \<rparr>"

definition AppendVersion :: "Version \<Rightarrow> 'w VersionSet \<Rightarrow> 'w VersionSet" where
  "AppendVersion v vs =
     (let old = (if vs_versions vs = [] then []
                 else (case Version_Unref (vs_current vs) of
                         None \<Rightarrow> butlast (vs_versions vs) | Some u \<Rightarrow> butlast (vs_versions vs) @ [u]))
      in vs\<lparr> vs_versions := old @ [Version_Ref v] \<rparr>)"

definition VersionSet_new :: "slice \<Rightarrow> Options \<Rightarrow> 'w VersionSet" where
  "VersionSet_new dbname options =
     AppendVersion Version_new
       \<lparr> vs_dbname = dbname, vs_options = options, vs_next_file_number = 2, vs_manifest_file_number = 0,
         vs_last_sequence = 0, vs_log_number = 0, vs_prev_log_number = 0, vs_descriptor_log = None,
         vs_versions = [], vs_compact_pointer = replicate kNumLevels [] \<rparr>"

definition NewFileNumber :: "'w VersionSet \<Rightarrow> u64 \<times> 'w VersionSet" where
  "NewFileNumber vs = (vs_next_file_number vs, vs\<lparr> vs_next_file_number := vs_next_file_number vs + 1 \<rparr>)"

definition ReuseFileNumber :: "u64 \<Rightarrow> 'w VersionSet \<Rightarrow> 'w VersionSet" where
  "ReuseFileNumber file_number vs =
     (if vs_next_file_number vs = file_number + 1 then vs\<lparr> vs_next_file_number := file_number \<rparr> else vs)"

definition VersionSet_SetLastSequence :: "SequenceNumber \<Rightarrow> 'w VersionSet \<Rightarrow> 'w VersionSet" where
  "VersionSet_SetLastSequence s vs = vs\<lparr> vs_last_sequence := s \<rparr>"

definition MarkFileNumberUsed :: "u64 \<Rightarrow> 'w VersionSet \<Rightarrow> 'w VersionSet" where
  "MarkFileNumberUsed number vs =
     (if vs_next_file_number vs \<le> number then vs\<lparr> vs_next_file_number := number + 1 \<rparr> else vs)"

definition NumLevelFiles :: "nat \<Rightarrow> 'w VersionSet \<Rightarrow> nat" where
  "NumLevelFiles level vs = length (v_files (vs_current vs) ! level)"

definition NumLevelBytes :: "nat \<Rightarrow> 'w VersionSet \<Rightarrow> int" where
  "NumLevelBytes level vs = TotalFileSize (v_files (vs_current vs) ! level)"

definition NeedsCompaction :: "'w VersionSet \<Rightarrow> bool" where
  "NeedsCompaction vs = (v_compaction_score (vs_current vs) \<ge> 1 \<or> v_file_to_compact (vs_current vs) \<noteq> None)"

definition AddLiveFiles :: "u64 set \<Rightarrow> 'w VersionSet \<Rightarrow> u64 set" where
  "AddLiveFiles live vs =
     fold (\<lambda>v. fold (\<lambda>level. fold (\<lambda>f. insert (f_number f)) (v_files v ! level)) [0..<kNumLevels]) (vs_versions vs) live"

text \<open>\<open>double\<close> as exact rationals.\<close>

function MaxBytes_loop :: "rat \<Rightarrow> nat \<Rightarrow> rat" where
  "MaxBytes_loop result level = (if level > 1 then MaxBytes_loop (result * 10) (level - 1) else result)"
  by pat_completeness auto
termination by (relation "measure snd") auto

definition MaxBytesForLevel :: "Options \<Rightarrow> nat \<Rightarrow> rat" where
  "MaxBytesForLevel options level = MaxBytes_loop (10 * 1048576) level"

definition level_score :: "Options \<Rightarrow> Version \<Rightarrow> nat \<Rightarrow> rat" where
  "level_score options v level =
     (if level = 0 then of_nat (length (v_files v ! level)) / of_nat kL0_CompactionTrigger
      else of_nat (unat (of_int (TotalFileSize (v_files v ! level)) :: u64)) / MaxBytesForLevel options level)"

definition Finalize_level :: "Options \<Rightarrow> Version \<Rightarrow> nat \<Rightarrow> int \<times> rat \<Rightarrow> int \<times> rat" where
  "Finalize_level options v level best =
     (let score = level_score options v level in if score > snd best then (int level, score) else best)"

definition Finalize :: "Options \<Rightarrow> Version \<Rightarrow> Version" where
  "Finalize options v =
     (let best = fold (Finalize_level options v) [0..<kNumLevels - 1] (-1, -1)
      in v\<lparr> v_compaction_level := fst best, v_compaction_score := snd best \<rparr>)"

text \<open>The edit \<open>WriteSnapshot\<close> writes: the comparator, the compaction pointers and all files.\<close>

definition snapshot_pointer :: "slice list \<Rightarrow> nat \<Rightarrow> VersionEdit \<Rightarrow> VersionEdit" where
  "snapshot_pointer pointers level edit =
     (case InternalKey_DecodeFrom (pointers ! level) of
        Some key \<Rightarrow> SetCompactPointer level key edit
      | None \<Rightarrow> edit)"

definition snapshot_files :: "Version \<Rightarrow> nat \<Rightarrow> VersionEdit \<Rightarrow> VersionEdit" where
  "snapshot_files v level edit =
     fold (\<lambda>f. VersionEdit_AddFile level (f_number f) (f_file_size f) (f_smallest f) (f_largest f)) (v_files v ! level) edit"

definition snapshot_edit :: "Comparator \<Rightarrow> 'w VersionSet \<Rightarrow> VersionEdit" where
  "snapshot_edit ucmp vs =
     (let edit = SetComparatorName (Name ucmp) VersionEdit_new;
          edit = fold (snapshot_pointer (vs_compact_pointer vs)) [0..<kNumLevels] edit
      in fold (snapshot_files (vs_current vs)) [0..<kNumLevels] edit)"

definition WriteSnapshot :: "'w WritableFile \<Rightarrow> Comparator \<Rightarrow> 'w VersionSet \<Rightarrow> 'w Writer \<Rightarrow> Status \<times> 'w Writer" where
  "WriteSnapshot W ucmp vs lw = AddRecord W (VersionEdit_EncodeTo [] (snapshot_edit ucmp vs)) lw"

section \<open>Definitions: LogAndApply\<close>

text \<open>The fields that \<open>LogAndApply\<close> fills in.\<close>

definition complete_edit :: "'w VersionSet \<Rightarrow> VersionEdit \<Rightarrow> VersionEdit" where
  "complete_edit vs edit =
     (let edit = (if ve_log_number edit = None then SetLogNumber (vs_log_number vs) edit else edit);
          edit = (if ve_prev_log_number edit = None then SetPrevLogNumber (vs_prev_log_number vs) edit else edit);
          edit = SetNextFile (vs_next_file_number vs) edit
      in SetLastSequence (vs_last_sequence vs) edit)"

text \<open>Opening a new descriptor log when there is none: its name, or \<^term>\<open>None\<close> when one is open.\<close>

definition open_descriptor ::
    "('e, 'f, 'w) Env \<Rightarrow> Comparator \<Rightarrow> 'w VersionSet \<Rightarrow> 'e \<Rightarrow> Status \<times> slice option \<times> 'w VersionSet \<times> 'e" where
  "open_descriptor env ucmp vs e =
     (if vs_descriptor_log vs = None then
        (let new_manifest_file = DescriptorFileName (vs_dbname vs) (vs_manifest_file_number vs)
         in case env_NewWritableFile env new_manifest_file e of
              (s, w, e) \<Rightarrow>
                if ok s then
                  (case WriteSnapshot (env_WF env) ucmp vs (Writer_new w 0) of
                     (s, lw) \<Rightarrow> (s, Some new_manifest_file, vs\<lparr> vs_descriptor_log := Some lw \<rparr>, e))
                else (s, Some new_manifest_file, vs, e))
      else (OK, None, vs, e))"

text \<open>Writing the edit and, for a new descriptor log, installing it.\<close>

definition log_edit ::
    "('e, 'f, 'w) Env \<Rightarrow> VersionEdit \<Rightarrow> slice option \<Rightarrow> 'w VersionSet \<Rightarrow> 'e \<Rightarrow> Status \<times> 'w VersionSet \<times> 'e" where
  "log_edit env edit new_manifest_file vs e =
     (case AddRecord (env_WF env) (VersionEdit_EncodeTo [] edit) (the (vs_descriptor_log vs)) of
        (s, lw) \<Rightarrow>
          (case (if ok s then WF_Sync (env_WF env) (wr_dest lw) else (s, wr_dest lw)) of
             (s, w) \<Rightarrow>
               (let vs = vs\<lparr> vs_descriptor_log := Some (lw\<lparr> wr_dest := w \<rparr>) \<rparr>
                in if ok s \<and> new_manifest_file \<noteq> None then
                     (case SetCurrentFile env (vs_dbname vs) (vs_manifest_file_number vs) e of
                        (s, e) \<Rightarrow> (s, vs, e))
                   else (s, vs, e))))"

definition LogAndApply ::
    "('e, 'f, 'w) Env \<Rightarrow> Comparator \<Rightarrow> VersionEdit \<Rightarrow> 'w VersionSet \<Rightarrow> 'e \<Rightarrow> Status \<times> VersionEdit \<times> 'w VersionSet \<times> 'e" where
  "LogAndApply env ucmp edit vs e =
     (let edit = complete_edit vs edit;
          (pointers, b) = Builder_Apply ucmp edit (vs_compact_pointer vs, Builder_new (vs_current vs));
          vs = vs\<lparr> vs_compact_pointer := pointers \<rparr>;
          v = Finalize (vs_options vs) (Builder_SaveTo ucmp b Version_new);
          (s, new_manifest_file, vs, e) = open_descriptor env ucmp vs e;
          (s, vs, e) = (if ok s then log_edit env edit new_manifest_file vs e else (s, vs, e))
      in if ok s then
           (s, edit, (AppendVersion v vs)\<lparr> vs_log_number := the (ve_log_number edit),
                                           vs_prev_log_number := the (ve_prev_log_number edit) \<rparr>, e)
         else
           (case new_manifest_file of
              None \<Rightarrow> (s, edit, vs, e)
            | Some fname \<Rightarrow>
                (let e = (case vs_descriptor_log vs of None \<Rightarrow> e | Some lw \<Rightarrow> env_delete_WF env (wr_dest lw) e)
                 in (s, edit, vs\<lparr> vs_descriptor_log := None \<rparr>, snd (env_RemoveFile env fname e)))))"

section \<open>Definitions: Recover\<close>

text \<open>The local variables of \<open>Recover\<close>; a number with its \<open>have_\<close> flag is an option.\<close>

record Recovery =
  rc_s :: Status
  rc_pointers :: "slice list"
  rc_builder :: Builder
  rc_log_number :: "u64 option"
  rc_prev_log_number :: "u64 option"
  rc_next_file :: "u64 option"
  rc_last_sequence :: "SequenceNumber option"
  rc_read_records :: nat

text \<open>\<open>LogReporter\<close> keeps the first of the reports.\<close>

definition report_status :: "(u64 \<times> Status) list \<Rightarrow> Status \<Rightarrow> Status" where
  "report_status reports s = fold (\<lambda>r s. if ok s then snd r else s) reports s"

definition or_else :: "'a option \<Rightarrow> 'a option \<Rightarrow> 'a option" where
  "or_else a b = (if a \<noteq> None then a else b)"

definition recover_record :: "Comparator \<Rightarrow> slice \<Rightarrow> Recovery \<Rightarrow> Recovery" where
  "recover_record ucmp record_bytes rc =
     (case VersionEdit_DecodeFrom record_bytes of
        (s, edit) \<Rightarrow>
          (let s = (if ok s \<and> ve_comparator edit \<noteq> None \<and> ve_comparator edit \<noteq> Some (Name ucmp)
                    then InvalidArgument (the (ve_comparator edit) @ ascii '' does not match existing comparator '') (Name ucmp)
                    else s);
               (pointers, b) = (if ok s then Builder_Apply ucmp edit (rc_pointers rc, rc_builder rc)
                                else (rc_pointers rc, rc_builder rc))
           in rc\<lparr> rc_s := s, rc_pointers := pointers, rc_builder := b,
                  rc_log_number := or_else (ve_log_number edit) (rc_log_number rc),
                  rc_prev_log_number := or_else (ve_prev_log_number edit) (rc_prev_log_number rc),
                  rc_next_file := or_else (ve_next_file_number edit) (rc_next_file rc),
                  rc_last_sequence := or_else (ve_last_sequence edit) (rc_last_sequence rc),
                  rc_read_records := rc_read_records rc + 1 \<rparr>))"

partial_function (option) Recover_loop ::
    "Comparator \<Rightarrow> 'f SequentialFile \<Rightarrow> 'f Reader \<Rightarrow> Recovery \<Rightarrow> Recovery option" where
  "Recover_loop ucmp F reader rc =
     (case ReadRecord F reader of
        None \<Rightarrow> None
      | Some (r, reader') \<Rightarrow>
          (let rc = rc\<lparr> rc_s := report_status (drop (length (rd_reports reader)) (rd_reports reader')) (rc_s rc) \<rparr>
           in case r of
                None \<Rightarrow> Some rc
              | Some record_bytes \<Rightarrow>
                  if ok (rc_s rc) then Recover_loop ucmp F reader' (recover_record ucmp record_bytes rc)
                  else Some rc))"

text \<open>Reusing the descriptor log instead of writing a new one.\<close>

definition ReuseManifest ::
    "('e, 'f, 'w) Env \<Rightarrow> slice \<Rightarrow> slice \<Rightarrow> 'w VersionSet \<Rightarrow> 'e \<Rightarrow> bool \<times> 'w VersionSet \<times> 'e" where
  "ReuseManifest env dscname dscbase vs e =
     (if \<not> reuse_logs (vs_options vs) then (False, vs, e)
      else
        (case ParseFileName dscbase of
           None \<Rightarrow> (False, vs, e)
         | Some (manifest_number, manifest_type) \<Rightarrow>
             (case env_GetFileSize env dscname e of
                (s, manifest_size) \<Rightarrow>
                  if manifest_type \<noteq> kDescriptorFile \<or> \<not> ok s \<or> int manifest_size \<ge> TargetFileSize (vs_options vs)
                  then (False, vs, e)
                  else
                    (case env_NewAppendableFile env dscname e of
                       (r, w, e) \<Rightarrow>
                         if \<not> ok r then (False, vs, e)
                         else (True, vs\<lparr> vs_descriptor_log := Some (Writer_new w manifest_size),
                                         vs_manifest_file_number := manifest_number \<rparr>, e)))))"

text \<open>After the records have been read: the checks, and the recovered version.\<close>

definition recover_check :: "Recovery \<Rightarrow> Status" where
  "recover_check rc =
     (if rc_next_file rc = None then Corruption (ascii ''no meta-nextfile entry in descriptor'') []
      else if rc_log_number rc = None then Corruption (ascii ''no meta-lognumber entry in descriptor'') []
      else if rc_last_sequence rc = None then Corruption (ascii ''no last-sequence-number entry in descriptor'') []
      else OK)"

definition number_or_zero :: "u64 option \<Rightarrow> u64" where
  "number_or_zero n = (case n of None \<Rightarrow> 0 | Some k \<Rightarrow> k)"

definition Recover_finish ::
    "('e, 'f, 'w) Env \<Rightarrow> Comparator \<Rightarrow> slice \<Rightarrow> slice \<Rightarrow> Recovery \<Rightarrow> 'w VersionSet \<Rightarrow> 'e \<Rightarrow>
     Status \<times> bool \<times> 'w VersionSet \<times> 'e" where
  "Recover_finish env ucmp dscname current rc vs e =
     (let vs = vs\<lparr> vs_compact_pointer := rc_pointers rc \<rparr>;
          log_number = number_or_zero (rc_log_number rc);
          prev_log_number = number_or_zero (rc_prev_log_number rc);
          (s, vs) = (if ok (rc_s rc)
                     then (recover_check rc, MarkFileNumberUsed log_number (MarkFileNumberUsed prev_log_number vs))
                     else (rc_s rc, vs))
      in if ok s then
           (let v = Finalize (vs_options vs) (Builder_SaveTo ucmp (rc_builder rc) Version_new);
                next_file = the (rc_next_file rc);
                vs = (AppendVersion v vs)\<lparr> vs_manifest_file_number := next_file, vs_next_file_number := next_file + 1,
                       vs_last_sequence := the (rc_last_sequence rc), vs_log_number := log_number,
                       vs_prev_log_number := prev_log_number \<rparr>
            in case ReuseManifest env dscname current vs e of (reused, vs, e) \<Rightarrow> (s, \<not> reused, vs, e))
         else (s, False, vs, e))"

text \<open>The status, \<open>save_manifest\<close>, and the new state; \<^term>\<open>None\<close> when a file never ends.\<close>

definition Recover ::
    "('e, 'f, 'w) Env \<Rightarrow> Comparator \<Rightarrow> 'w VersionSet \<Rightarrow> 'e \<Rightarrow> (Status \<times> bool \<times> 'w VersionSet \<times> 'e) option" where
  "Recover env ucmp vs e =
     Option.bind (ReadFileToString env (CurrentFileName (vs_dbname vs)) e) (\<lambda>(s, current).
       if \<not> ok s then Some (s, False, vs, e)
       else if current = [] \<or> last current \<noteq> 10
       then Some (Corruption (ascii ''CURRENT file does not end with newline'') [], False, vs, e)
       else
         (let current = butlast current;
              dscname = vs_dbname vs @ ascii ''/'' @ current
          in case env_NewSequentialFile env dscname e of
               (s, file) \<Rightarrow>
                 if \<not> ok s then
                   Some (if IsNotFound s
                         then Corruption (ascii ''CURRENT points to a non-existent file'') (Status_ToString s) else s,
                         False, vs, e)
                 else
                   Option.bind
                     (Recover_loop ucmp (env_SF env) (Reader_new file True True 0)
                        \<lparr> rc_s = s, rc_pointers = vs_compact_pointer vs, rc_builder = Builder_new (vs_current vs),
                          rc_log_number = None, rc_prev_log_number = None, rc_next_file = None,
                          rc_last_sequence = None, rc_read_records = 0 \<rparr>)
                     (\<lambda>rc. Some (Recover_finish env ucmp dscname current rc vs e))))"

end
