(* ===== verification/VersionRecover.thy ===== *)
theory VersionRecover
  imports VersionSet
begin

text \<open>
  Recovering the file set from a descriptor log that a crash may have cut off: \<open>VersionSet::Recover\<close> over
  the log reader, the decoder of edits and the builder.
\<close>

section \<open>Reports of the log reader\<close>

text \<open>Reading only adds reports.\<close>

definition reports_grow :: "'f Reader \<Rightarrow> 'f Reader \<Rightarrow> bool" where
  "reports_grow st st' \<longleftrightarrow> (\<exists>ext. rd_reports st' = rd_reports st @ ext)"

lemma reports_grow_same: "rd_reports st' = rd_reports st \<Longrightarrow> reports_grow st st'"
  by (simp add: reports_grow_def)

lemma reports_grow_trans [trans]: "reports_grow a b \<Longrightarrow> reports_grow b c \<Longrightarrow> reports_grow a c"
  by (auto simp: reports_grow_def)

lemma reports_grow_Drop: "reports_grow st (ReportDrop n s st)" "rd_reports st0 = rd_reports st \<Longrightarrow> reports_grow st (ReportDrop n s st0)"
  by (auto simp: reports_grow_def ReportDrop_def)

lemma reports_grow_Corruption: "rd_reports st0 = rd_reports st \<Longrightarrow> reports_grow st (ReportCorruption n s st0)"
  unfolding ReportCorruption_def by (rule reports_grow_Drop)

lemma reports_grow_Parse: "reports_grow st (snd (snd (ParsePhysicalRecord result st)))"
  unfolding ParsePhysicalRecord_def Let_def by (auto intro!: reports_grow_Corruption intro: reports_grow_same)

lemma reports_grow_Physical: "reports_grow st (snd (snd (ReadPhysicalRecord F result st)))"
proof (induction F result st rule: ReadPhysicalRecord.induct)
  case (1 F result st)
  show ?case
  proof (cases "length (rd_buffer st) < kHeaderSize \<and> \<not> rd_eof st")
    case True
    obtain s buf f where r: "SF_Read F (rd_file st) kBlockSize = (s, buf, f)" by (cases "SF_Read F (rd_file st) kBlockSize") auto
    define st0 where "st0 = st\<lparr> rd_file := f, rd_buffer := buf,
        rd_end_of_buffer_offset := rd_end_of_buffer_offset st + of_nat (length buf) \<rparr>"
    have same: "rd_reports st0 = rd_reports st" by (simp add: st0_def)
    show ?thesis
    proof (cases "ok s")
      case True
      have "reports_grow (if length buf < kBlockSize then st0\<lparr> rd_eof := True \<rparr> else st0)
          (snd (snd (ReadPhysicalRecord F result (if length buf < kBlockSize then st0\<lparr> rd_eof := True \<rparr> else st0))))"
        using \<open>length (rd_buffer st) < kHeaderSize \<and> \<not> rd_eof st\<close> True
        by (intro "1.IH" [OF _ _ r [symmetric] refl st0_def]) simp_all
      then show ?thesis
        using \<open>length (rd_buffer st) < kHeaderSize \<and> \<not> rd_eof st\<close> True same
        by (subst ReadPhysicalRecord.simps) (auto simp: r Let_def st0_def [symmetric] reports_grow_def split: if_splits)
    next
      case False
      have "reports_grow st (ReportDrop (of_nat kBlockSize) s (st0\<lparr> rd_buffer := [] \<rparr>))" using same by (intro reports_grow_Drop) simp
      then show ?thesis
        using \<open>length (rd_buffer st) < kHeaderSize \<and> \<not> rd_eof st\<close> False
        by (subst ReadPhysicalRecord.simps) (simp add: r Let_def st0_def reports_grow_def)
    qed
  next
    case False
    then show ?thesis
      by (subst ReadPhysicalRecord.simps) (auto simp: reports_grow_Parse intro: reports_grow_same)
  qed
qed

lemma reports_grow_step:
  "case ReadRecord_step F l of Inl l' \<Rightarrow> reports_grow (rl_st l) (rl_st l') | Inr (r, st') \<Rightarrow> reports_grow (rl_st l) st'"
proof -
  obtain t fr st where p: "ReadPhysicalRecord F (rl_fragment l) (rl_st l) = (t, fr, st)" by (cases "ReadPhysicalRecord F (rl_fragment l) (rl_st l)") auto
  have g: "reports_grow (rl_st l) st" using reports_grow_Physical [of "rl_st l" F "rl_fragment l"] by (simp add: p)
  have c: "reports_grow (rl_st l) (ReportCorruption n m st0)" if "rd_reports st0 = rd_reports st" for n m st0
    using reports_grow_trans [OF g reports_grow_Corruption [OF that]] .
  have s: "reports_grow (rl_st l) st0" if "rd_reports st0 = rd_reports st" for st0 using g that by (simp add: reports_grow_def)
  have c': "reports_grow (rl_st l) ((ReportCorruption n m st0)\<lparr> rd_last_record_offset := x \<rparr>)" if "rd_reports st0 = rd_reports st" for n m st0 x
    using c [OF that, of n m] by (simp add: reports_grow_def)
  show ?thesis
    unfolding ReadRecord_step_def p by (auto simp: Let_def intro!: c c' intro: s)
qed

lemma reports_grow_loop: "ReadRecord_loop F l = Some res \<Longrightarrow> reports_grow (rl_st l) (snd res)"
proof (erule ReadRecord_loop.raw_induct [rotated])
  fix f :: "'a SequentialFile \<Rightarrow> 'a ReadLoop \<Rightarrow> (slice option \<times> 'a Reader) option" and F l res
  assume IH: "\<And>F l res. f F l = Some res \<Longrightarrow> reports_grow (rl_st l) (snd res)"
    and body: "(case ReadRecord_step F l of Inl l' \<Rightarrow> f F l' | Inr r \<Rightarrow> Some r) = Some res"
  show "reports_grow (rl_st l) (snd res)"
  proof (cases "ReadRecord_step F l")
    case (Inl l')
    then have "reports_grow (rl_st l') (snd res)" using IH body by simp
    moreover have "reports_grow (rl_st l) (rl_st l')" using reports_grow_step [where F = F and l = l] Inl by simp
    ultimately show ?thesis by (rule reports_grow_trans [rotated])
  next
    case (Inr x)
    then show ?thesis using reports_grow_step [where F = F and l = l] body by auto
  qed
qed

lemma reports_grow_ReadRecord:
  assumes "ReadRecord F st = Some (r, st')"
  shows "reports_grow st st'"
proof -
  obtain skipped st0 where k: "SkipToInitialBlock F st = (skipped, st0)" by fastforce
  then have g: "reports_grow st st0"
    by (auto simp: SkipToInitialBlock_def Let_def intro!: reports_grow_Drop intro: reports_grow_same split: if_splits prod.splits)
  have "reports_grow st1 st'" if "ReadRecord_loop F (ReadLoop_start st1) = Some (r, st')" for st1
    using reports_grow_loop [OF that] by (simp add: ReadLoop_start_def)
  then show ?thesis
    using assms g reports_grow_trans by (auto simp: ReadRecord_def k split: if_splits)
qed

lemma ReadAllRecords_Cons:
  assumes "ReadAllRecords F st = Some (r # rs, st')"
  obtains st1 where "ReadRecord F st = Some (Some r, st1)" "ReadAllRecords F st1 = Some (rs, st')"
  using assms by (subst (asm) ReadAllRecords.simps) (auto split: option.splits simp: bind_eq_Some_conv)

lemma ReadAllRecords_Nil:
  assumes "ReadAllRecords F st = Some ([], st')"
  shows "ReadRecord F st = Some (None, st')"
  using assms by (subst (asm) ReadAllRecords.simps) (auto split: option.splits simp: bind_eq_Some_conv)

lemma reports_grow_ReadAll: "ReadAllRecords F st = Some (rs, st') \<Longrightarrow> reports_grow st st'"
proof (induction rs arbitrary: st)
  case Nil
  then show ?case using reports_grow_ReadRecord ReadAllRecords_Nil by blast
next
  case (Cons r rs)
  then show ?case using reports_grow_ReadRecord reports_grow_trans by (elim ReadAllRecords_Cons) blast
qed

section \<open>The loop of Recover\<close>

text \<open>On a log that is read without reports, the loop handles the records one by one.\<close>

lemma Recover_loop_records:
  assumes "ReadAllRecords F st = Some (rs, st')" "rd_reports st' = rd_reports st"
    and "\<forall>k \<le> length rs. ok (rc_s (fold (recover_record c) (take k rs) rc))"
  shows "Recover_loop c F st rc = Some (fold (recover_record c) rs rc)"
  using assms
proof (induction rs arbitrary: st rc)
  case Nil
  then show ?case
    by (subst Recover_loop.simps) (simp add: ReadAllRecords_Nil report_status_def)
next
  case (Cons r rs)
  obtain st1 where st1: "ReadRecord F st = Some (Some r, st1)" "ReadAllRecords F st1 = Some (rs, st')"
    by (rule ReadAllRecords_Cons [OF Cons.prems(1)])
  obtain ext ext' where ext: "rd_reports st1 = rd_reports st @ ext" "rd_reports st' = rd_reports st1 @ ext'"
    using reports_grow_ReadRecord [OF st1(1)] reports_grow_ReadAll [OF st1(2)] by (auto simp: reports_grow_def)
  then have "ext = [] \<and> ext' = []" using Cons.prems(2) by simp
  then have same: "rd_reports st1 = rd_reports st" "rd_reports st' = rd_reports st1" using ext by simp_all
  have "ok (rc_s (fold (recover_record c) (take k rs) (recover_record c r rc)))" if "k \<le> length rs" for k
    using Cons.prems(3) [rule_format, of "Suc k"] that by simp
  from Cons.IH [OF st1(2) same(2), of "recover_record c r rc"] this
  have "Recover_loop c F st1 (recover_record c r rc) = Some (fold (recover_record c) rs (recover_record c r rc))" by blast
  moreover have "Recover_loop c F st rc = Recover_loop c F st1 (recover_record c r rc)"
  proof -
    have "ok (rc_s rc)" using Cons.prems(3) [rule_format, of 0] by simp
    then show ?thesis by (subst Recover_loop.simps) (simp add: st1(1) same(1) report_status_def)
  qed
  ultimately show ?case by simp
qed

text \<open>The last value of a field over a list of edits.\<close>

definition last_value :: "(VersionEdit \<Rightarrow> 'a option) \<Rightarrow> VersionEdit list \<Rightarrow> 'a option" where
  "last_value field es = fold (\<lambda>e. or_else (field e)) es None"

definition edit_for :: "Comparator \<Rightarrow> VersionEdit \<Rightarrow> bool" where
  "edit_for c e \<longleftrightarrow> edit_ok e \<and> (ve_comparator e = None \<or> ve_comparator e = Some (Name c))"

lemma recover_record_edit:
  assumes "edit_for c e"
  shows "recover_record c (VersionEdit_EncodeTo [] e) rc =
    rc\<lparr> rc_s := OK, rc_pointers := fst (Builder_Apply c e (rc_pointers rc, rc_builder rc)),
       rc_builder := snd (Builder_Apply c e (rc_pointers rc, rc_builder rc)),
       rc_log_number := or_else (ve_log_number e) (rc_log_number rc),
       rc_prev_log_number := or_else (ve_prev_log_number e) (rc_prev_log_number rc),
       rc_next_file := or_else (ve_next_file_number e) (rc_next_file rc),
       rc_last_sequence := or_else (ve_last_sequence e) (rc_last_sequence rc),
       rc_read_records := rc_read_records rc + 1 \<rparr>"
proof -
  have "VersionEdit_DecodeFrom (VersionEdit_EncodeTo [] e) = (OK, e)"
    using assms by (simp add: VersionEdit_DecodeFrom_def loop_encoded edit_for_def)
  then show ?thesis using assms by (auto simp: recover_record_def edit_for_def Let_def ok_def split: prod.split)
qed

lemma recover_records:
  assumes "\<forall>e \<in> set es. edit_for c e" "rc_s rc = OK"
  defines "rc' \<equiv> fold (recover_record c) (map (VersionEdit_EncodeTo []) es) rc"
  shows "rc_s rc' = OK" "(rc_pointers rc', rc_builder rc') = fold (Builder_Apply c) es (rc_pointers rc, rc_builder rc)"
    "rc_log_number rc' = fold (\<lambda>e. or_else (ve_log_number e)) es (rc_log_number rc)"
    "rc_prev_log_number rc' = fold (\<lambda>e. or_else (ve_prev_log_number e)) es (rc_prev_log_number rc)"
    "rc_next_file rc' = fold (\<lambda>e. or_else (ve_next_file_number e)) es (rc_next_file rc)"
    "rc_last_sequence rc' = fold (\<lambda>e. or_else (ve_last_sequence e)) es (rc_last_sequence rc)"
proof -
  have "rc_s rc' = OK \<and> (rc_pointers rc', rc_builder rc') = fold (Builder_Apply c) es (rc_pointers rc, rc_builder rc) \<and>
    rc_log_number rc' = fold (\<lambda>e. or_else (ve_log_number e)) es (rc_log_number rc) \<and>
    rc_prev_log_number rc' = fold (\<lambda>e. or_else (ve_prev_log_number e)) es (rc_prev_log_number rc) \<and>
    rc_next_file rc' = fold (\<lambda>e. or_else (ve_next_file_number e)) es (rc_next_file rc) \<and>
    rc_last_sequence rc' = fold (\<lambda>e. or_else (ve_last_sequence e)) es (rc_last_sequence rc)"
    unfolding rc'_def using assms(1,2)
  proof (induction es arbitrary: rc)
    case (Cons e es)
    have "rc_s (recover_record c (VersionEdit_EncodeTo [] e) rc) = OK" using Cons.prems(1) by (simp add: recover_record_edit)
    from Cons.IH [OF _ this] Cons.prems(1) show ?case by (simp add: recover_record_edit)
  qed simp
  then show "rc_s rc' = OK" "(rc_pointers rc', rc_builder rc') = fold (Builder_Apply c) es (rc_pointers rc, rc_builder rc)"
    "rc_log_number rc' = fold (\<lambda>e. or_else (ve_log_number e)) es (rc_log_number rc)"
    "rc_prev_log_number rc' = fold (\<lambda>e. or_else (ve_prev_log_number e)) es (rc_prev_log_number rc)"
    "rc_next_file rc' = fold (\<lambda>e. or_else (ve_next_file_number e)) es (rc_next_file rc)"
    "rc_last_sequence rc' = fold (\<lambda>e. or_else (ve_last_sequence e)) es (rc_last_sequence rc)" by blast+
qed

section \<open>Recovery\<close>

text \<open>The first version of a version set, which has no files.\<close>

definition empty_version :: Version where
  "empty_version = Version_Ref Version_new"

lemma version_sorted_empty: "version_sorted c empty_version"
  by (simp add: empty_version_def version_sorted_def Version_Ref_def Version_new_def)

lemma vs_current_AppendVersion [simp]: "vs_current (AppendVersion v vs) = Version_Ref v"
  by (simp add: AppendVersion_def vs_current_def Let_def)

lemma ReuseManifest_keeps:
  assumes "ReuseManifest env dscname dscbase vs e = (r, vs', e')"
  shows "vs_current vs' = vs_current vs" "vs_last_sequence vs' = vs_last_sequence vs" "vs_log_number vs' = vs_log_number vs"
    "vs_prev_log_number vs' = vs_prev_log_number vs" "vs_next_file_number vs' = vs_next_file_number vs"
  using assms by (auto simp: ReuseManifest_def vs_current_def split: if_splits option.splits prod.splits)

text \<open>What \<open>Recover\<close> makes of the edits it has read.\<close>

definition recovered :: "Comparator \<Rightarrow> VersionEdit list \<Rightarrow> Status \<Rightarrow> 'w VersionSet \<Rightarrow> bool" where
  "recovered c es s vs \<longleftrightarrow>
     (if last_value ve_next_file_number es = None \<or> last_value ve_log_number es = None \<or> last_value ve_last_sequence es = None
      then IsCorruption s
      else s = OK \<and> v_files (vs_current vs) = v_files (fold (step_edit c []) es empty_version) \<and>
        Some (vs_last_sequence vs) = last_value ve_last_sequence es \<and> Some (vs_log_number vs) = last_value ve_log_number es \<and>
        vs_prev_log_number vs = number_or_zero (last_value ve_prev_log_number es) \<and>
        vs_next_file_number vs = the (last_value ve_next_file_number es) + 1)"

lemma Corruption_facts [simp]: "\<not> ok (Corruption m n)" "IsCorruption (Corruption m n)"
  by (simp_all add: ok_def Corruption_def Status_new_def IsCorruption_def)

lemma Recover_finish_result:
  assumes "three_way (Compare c)" "fresh_edits empty_version es" "rc_s rc = OK"
    and b: "rc_builder rc = snd (fold (Builder_Apply c) es (ps, Builder_new empty_version))"
    and f: "rc_log_number rc = last_value ve_log_number es" "rc_prev_log_number rc = last_value ve_prev_log_number es"
      "rc_next_file rc = last_value ve_next_file_number es" "rc_last_sequence rc = last_value ve_last_sequence es"
    and fin: "Recover_finish env c dscname current rc vs e = (s, save, vs', e')"
  shows "recovered c es s vs'"
proof (cases "last_value ve_next_file_number es = None \<or> last_value ve_log_number es = None \<or> last_value ve_last_sequence es = None")
  case True
  then have "IsCorruption (recover_check rc)" "\<not> ok (recover_check rc)" by (auto simp: recover_check_def f)
  then show ?thesis using fin assms(3) True by (auto simp: Recover_finish_def Let_def ok_def [of OK] recovered_def)
next
  case False
  then have chk: "recover_check rc = OK" by (auto simp: recover_check_def f)
  have files: "v_files (Builder_SaveTo c (rc_builder rc) Version_new) = v_files (fold (step_edit c []) es empty_version)"
    unfolding b using internal_order.recover_equals_steps [OF internal_order.intro [OF assms(1)] version_sorted_empty assms(2)] .
  define vs1 where "vs1 = (AppendVersion (Finalize (vs_options vs) (Builder_SaveTo c (rc_builder rc) Version_new))
      (MarkFileNumberUsed (number_or_zero (rc_log_number rc)) (MarkFileNumberUsed (number_or_zero (rc_prev_log_number rc))
         (vs\<lparr> vs_compact_pointer := rc_pointers rc \<rparr>))))\<lparr> vs_manifest_file_number := the (rc_next_file rc),
       vs_next_file_number := the (rc_next_file rc) + 1, vs_last_sequence := the (rc_last_sequence rc),
       vs_log_number := number_or_zero (rc_log_number rc), vs_prev_log_number := number_or_zero (rc_prev_log_number rc) \<rparr>"
  have opt: "vs_options (MarkFileNumberUsed a (MarkFileNumberUsed b (vs\<lparr> vs_compact_pointer := ps' \<rparr>))) = vs_options vs" for a b ps'
    by (simp add: MarkFileNumberUsed_def)
  have "s = OK \<and> (\<exists>reused. ReuseManifest env dscname current vs1 e = (reused, vs', e'))"
    using fin assms(3) chk by (auto simp: Recover_finish_def Let_def ok_def vs1_def opt split: prod.splits)
  then obtain reused where s: "s = OK" and ru: "ReuseManifest env dscname current vs1 e = (reused, vs', e')" by blast
  have "v_files (vs_current vs1) = v_files (fold (step_edit c []) es empty_version)"
    by (simp add: vs1_def vs_current_def AppendVersion_def Let_def Version_Ref_def Finalize_def files)
  then show ?thesis
    using False s ReuseManifest_keeps [OF ru] f by (auto simp: recovered_def vs1_def number_or_zero_def)
qed

lemma fresh_edits_append: "fresh_edits v (xs @ ys) \<Longrightarrow> fresh_edits v xs"
  by (simp add: fresh_edits_def Int_Un_distrib)

lemma recover_manifest:
  fixes env :: "('e, 'f, 'w) Env" and W :: "'x WritableFile"
  assumes "three_way (Compare c)" and W: "writable_file W contents wgood" and F: "sequential_file (env_SF env) left good"
    and w: "wgood w" "contents w = []"
    and cur: "env_NewSequentialFile env (CurrentFileName db) e = (OK, fc)" "good fc" "left fc = base @ [10]"
    and man: "env_NewSequentialFile env (db @ ascii ''/'' @ base) e = (OK, fm)" "good fm"
      "left fm = take n (log_file W contents w (map (VersionEdit_EncodeTo []) es))"
    and es: "\<forall>ed \<in> set es. edit_for c ed" "fresh_edits empty_version es"
  shows "\<exists>k s save vs' e'. k \<le> length es \<and> Recover env c (VersionSet_new db options) e = Some (s, save, vs', e') \<and>
    recovered c (take k es) s vs' \<and>
    length (log_file W contents w (map (VersionEdit_EncodeTo []) (take k es))) \<le> n \<and>
    (k < length es \<longrightarrow> n < length (log_file W contents w (map (VersionEdit_EncodeTo []) (take (Suc k) es))))"
proof -
  let ?rs = "map (VersionEdit_EncodeTo []) es" and ?vs = "VersionSet_new db options :: 'w VersionSet"
  obtain k st where k: "ReadAllRecords (env_SF env) (Reader_new fm True True 0) = Some (take k ?rs, st)" "rd_reports st = []"
    "k \<le> length ?rs" "length (log_file W contents w (take k ?rs)) \<le> n" "k < length ?rs \<longrightarrow> n < length (log_file W contents w (take (Suc k) ?rs))"
    using crash_read [OF log_writer.intro [OF W] log_reader.intro [OF F] w man(2,3), of True True] by blast
  have read: "ReadFileToString env (CurrentFileName db) e = Some (OK, base @ [10])"
    using sequential_file.ReadFileToString_loop_all [OF F cur(2), of "[]"] cur(1,3) by (simp add: ReadFileToString_def ok_def)
  define rc where "rc = \<lparr> rc_s = OK, rc_pointers = replicate kNumLevels [], rc_builder = Builder_new empty_version,
      rc_log_number = None, rc_prev_log_number = None, rc_next_file = None, rc_last_sequence = None, rc_read_records = 0 \<rparr>"
  define rc' where "rc' = fold (recover_record c) (map (VersionEdit_EncodeTo []) (take k es)) rc"
  have okk: "\<forall>ed \<in> set (take m es). edit_for c ed" for m using es(1) by (meson in_set_takeD)
  have loop: "Recover_loop c (env_SF env) (Reader_new fm True True 0) rc = Some rc'"
    unfolding rc'_def take_map [symmetric]
  proof (rule Recover_loop_records [OF k(1)])
    show "rd_reports st = rd_reports (Reader_new fm True True 0)" using k(2) by (simp add: Reader_new_def)
    show "\<forall>m \<le> length (take k ?rs). ok (rc_s (fold (recover_record c) (take m (take k ?rs)) rc))"
      using recover_records(1) [OF okk, of rc] by (simp add: take_map rc_def ok_def)
  qed
  have vs: "vs_dbname ?vs = db" "vs_compact_pointer ?vs = replicate kNumLevels []" "vs_current ?vs = empty_version"
    by (simp_all add: empty_version_def VersionSet_new_def AppendVersion_def vs_current_def Let_def)
  obtain s save vs' e' where fin: "Recover_finish env c (db @ ascii ''/'' @ base) base rc' ?vs e = (s, save, vs', e')"
    by (cases "Recover_finish env c (db @ ascii ''/'' @ base) base rc' ?vs e") auto
  have rec: "Recover env c ?vs e = Some (s, save, vs', e')"
    using loop fin by (simp add: Recover_def read vs man(1) rc_def Let_def ok_def)
  have "fresh_edits empty_version (take k es @ drop k es)" using es(2) by simp
  then have fresh: "fresh_edits empty_version (take k es)" by (rule fresh_edits_append)
  note rr = recover_records [OF okk, of rc k, folded rc'_def]
  have "rc_s rc = OK" by (simp add: rc_def)
  note rr = rr [OF this]
  have "recovered c (take k es) s vs'"
  proof (rule Recover_finish_result [OF assms(1) fresh rr(1) _ _ _ _ _ fin])
    show "rc_builder rc' = snd (fold (Builder_Apply c) (take k es) (replicate kNumLevels [], Builder_new empty_version))"
      using arg_cong [OF rr(2), of snd] by (simp add: rc_def)
  qed (simp_all add: rr(3-6) rc_def last_value_def)
  then show ?thesis using k rec by (auto simp: take_map)
qed

section \<open>Properties\<close>

text \<open>
  C34: recovery of the file set.  Let the edits \<open>es\<close> be written to a descriptor log through any file
  that keeps its contract, and let a crash cut the log off after any \<open>n\<close> bytes.  \<open>Recover\<close> returns; it
  recovers exactly the edits whose records are whole: the files of every level are those that
  \<open>LogAndApply\<close> had computed one edit at a time, and the counters are the last ones written.  When no
  surviving edit has the mandatory counters, it reports corruption.
\<close>

theorem manifest_recover:
  fixes env :: "('e, 'f, 'w) Env"
  assumes "three_way (Compare c)" "writable_file W contents wgood" "sequential_file (env_SF env) left good"
    and "wgood w" "contents w = []"
    and "env_NewSequentialFile env (CurrentFileName db) e = (OK, fc)" "good fc" "left fc = base @ [10]"
    and "env_NewSequentialFile env (db @ ascii ''/'' @ base) e = (OK, fm)" "good fm"
      "left fm = take n (log_file W contents w (map (VersionEdit_EncodeTo []) es))"
    and "\<forall>ed \<in> set es. edit_for c ed" "fresh_edits empty_version es"
  shows "\<exists>k s save vs' e'. k \<le> length es \<and> Recover env c (VersionSet_new db options) e = Some (s, save, vs', e') \<and>
    recovered c (take k es) s vs' \<and>
    length (log_file W contents w (map (VersionEdit_EncodeTo []) (take k es))) \<le> n \<and>
    (k < length es \<longrightarrow> n < length (log_file W contents w (map (VersionEdit_EncodeTo []) (take (Suc k) es))))"
  by (rule recover_manifest [OF assms])

text \<open>A sample: one edit that adds a file and sets the counters, in files in memory.\<close>

definition sample_edit :: VersionEdit where
  "sample_edit = VersionEdit_AddFile 1 5 100 [1] [2] (SetLastSequence 9 (SetNextFile 7 (SetLogNumber 4 VersionEdit_new)))"

definition mem_file :: "slice \<Rightarrow> SequentialFileImpl" where
  "mem_file b = \<lparr> sf_file = snd (FileState_Append FileState_new b), sf_pos = 0 \<rparr>"

definition sample_env :: "(slice, SequentialFileImpl, FileState) Env" where
  "sample_env =
     \<lparr> env_SF = MemSequentialFile, env_WF = MemWritableFile,
       env_NewSequentialFile = (\<lambda>name e. (OK, if name = CurrentFileName [100] then mem_file [109, 10] else mem_file e)),
       env_NewWritableFile = (\<lambda>name e. (OK, FileState_new, e)), env_NewAppendableFile = (\<lambda>name e. (OK, FileState_new, e)),
       env_RemoveFile = (\<lambda>name e. (OK, e)), env_RenameFile = (\<lambda>a b e. (OK, e)), env_GetFileSize = (\<lambda>name e. (OK, length e)),
       env_FileExists = (\<lambda>name e. True), env_GetChildren = (\<lambda>dir e. (OK, [])), env_CreateDir = (\<lambda>dir e. (OK, e)),
       env_RemoveDir = (\<lambda>dir e. (OK, e)), env_LockFile = (\<lambda>name e. (OK, e)), env_UnlockFile = (\<lambda>name e. (OK, e)),
       env_delete_WF = (\<lambda>w e. e) \<rparr>"

lemma mem_file_holds: "sfi_good (mem_file b)" "sfi_left (mem_file b) = b"
proof -
  have "fs_inv (snd (FileState_Append FileState_new b))" "fs_bytes (snd (FileState_Append FileState_new b)) = b"
    using FileState_append_loop_eq [OF fs_inv_new(1), of b] fs_inv_new(2) by (auto simp: FileState_Append_def)
  then show "sfi_good (mem_file b)" "sfi_left (mem_file b) = b" by (auto simp: mem_file_def sfi_good_def sfi_left_def)
qed

theorem manifest_recover_witness:
  "\<exists>k s save vs' e'. k \<le> 1 \<and>
     Recover sample_env BytewiseComparator (VersionSet_new [100] Options_new)
       (take 1000 (log_file MemWritableFile fs_bytes FileState_new [VersionEdit_EncodeTo [] sample_edit])) = Some (s, save, vs', e') \<and>
     recovered BytewiseComparator (take k [sample_edit]) s vs'"
proof -
  let ?e = "take 1000 (log_file MemWritableFile fs_bytes FileState_new [VersionEdit_EncodeTo [] sample_edit])"
  have "edit_for BytewiseComparator sample_edit" "fresh_edits empty_version [sample_edit]"
    by (simp_all add: edit_for_def sample_edit_def edit_ok_def VersionEdit_AddFile_def SetLastSequence_def SetNextFile_def SetLogNumber_def
        VersionEdit_new_def FileMetaData_new_def key_ok_def kNumLevels_def fresh_edits_def new_files_at_def empty_version_def
        Version_Ref_def Version_new_def)
  moreover have "env_NewSequentialFile sample_env (CurrentFileName [100]) ?e = (OK, mem_file [109, 10])"
    "env_NewSequentialFile sample_env ([100] @ ascii ''/'' @ [109]) ?e = (OK, mem_file ?e)" "env_SF sample_env = MemSequentialFile"
    by (simp_all add: sample_env_def CurrentFileName_def ascii_def)
  ultimately show ?thesis
    using manifest_recover [OF bytewise.three_way_axioms mem_writ.writable_file_axioms _ fs_inv_new, of sample_env sfi_left sfi_good "[100]" ?e
        "mem_file [109, 10]" "[109]" "mem_file ?e" 1000 "[sample_edit]" Options_new] mem_seq.sequential_file_axioms mem_file_holds
    by (fastforce simp: mem_file_holds)
qed

end
