(* ===== verification/Compaction.thy ===== *)
theory Compaction
  imports VersionSet "HOL-Library.Monad_Syntax"
begin

text \<open>
  Choosing the inputs of a compaction, and the \<open>Compaction\<close> class (db/version_set.h, db/version_set.cc).
  Loops that need an order on the keys to end are partial: \<^term>\<open>None\<close> when they do not.
\<close>

section \<open>Definitions\<close>

definition GetRange_step :: "Comparator \<Rightarrow> FileMetaData \<Rightarrow> InternalKey \<times> InternalKey \<Rightarrow> InternalKey \<times> InternalKey" where
  "GetRange_step ucmp f r =
     (if InternalKey_Compare ucmp (f_smallest f) (fst r) < 0 then f_smallest f else fst r,
      if InternalKey_Compare ucmp (f_largest f) (snd r) > 0 then f_largest f else snd r)"

definition GetRange :: "Comparator \<Rightarrow> FileMetaData list \<Rightarrow> InternalKey \<times> InternalKey" where
  "GetRange ucmp inputs =
     (case inputs of [] \<Rightarrow> ([], []) | f # fs \<Rightarrow> fold (GetRange_step ucmp) fs (f_smallest f, f_largest f))"

definition GetRange2 :: "Comparator \<Rightarrow> FileMetaData list \<Rightarrow> FileMetaData list \<Rightarrow> InternalKey \<times> InternalKey" where
  "GetRange2 ucmp inputs1 inputs2 = GetRange ucmp (inputs1 @ inputs2)"

definition FindLargestKey :: "Comparator \<Rightarrow> FileMetaData list \<Rightarrow> InternalKey option" where
  "FindLargestKey ucmp files =
     (case files of
        [] \<Rightarrow> None
      | f # fs \<Rightarrow>
          Some (fold (\<lambda>f k. if InternalKey_Compare ucmp (f_largest f) k > 0 then f_largest f else k) fs (f_largest f)))"

definition is_boundary_file :: "Comparator \<Rightarrow> InternalKey \<Rightarrow> FileMetaData \<Rightarrow> bool" where
  "is_boundary_file ucmp largest_key f =
     (InternalKey_Compare ucmp (f_smallest f) largest_key > 0 \<and>
      Compare ucmp (InternalKey_user_key (f_smallest f)) (InternalKey_user_key largest_key) = 0)"

definition FindSmallestBoundaryFile :: "Comparator \<Rightarrow> FileMetaData list \<Rightarrow> InternalKey \<Rightarrow> FileMetaData option" where
  "FindSmallestBoundaryFile ucmp level_files largest_key =
     fold (\<lambda>f best.
             if is_boundary_file ucmp largest_key f \<and>
                (case best of None \<Rightarrow> True | Some b \<Rightarrow> InternalKey_Compare ucmp (f_smallest f) (f_smallest b) < 0)
             then Some f else best)
       level_files None"

partial_function (option) AddBoundaryInputs_loop ::
    "Comparator \<Rightarrow> FileMetaData list \<Rightarrow> InternalKey \<Rightarrow> FileMetaData list \<Rightarrow> FileMetaData list option" where
  "AddBoundaryInputs_loop ucmp level_files largest_key compaction_files =
     (case FindSmallestBoundaryFile ucmp level_files largest_key of
        Some f \<Rightarrow> AddBoundaryInputs_loop ucmp level_files (f_largest f) (compaction_files @ [f])
      | None \<Rightarrow> Some compaction_files)"

definition AddBoundaryInputs :: "Comparator \<Rightarrow> FileMetaData list \<Rightarrow> FileMetaData list \<Rightarrow> FileMetaData list option" where
  "AddBoundaryInputs ucmp level_files compaction_files =
     (case FindLargestKey ucmp compaction_files of
        None \<Rightarrow> Some compaction_files
      | Some largest_key \<Rightarrow> AddBoundaryInputs_loop ucmp level_files largest_key compaction_files)"

record Compaction =
  cp_level :: nat
  cp_max_output_file_size :: int
  cp_input_version :: "Version option"
  cp_edit :: VersionEdit
  cp_inputs0 :: "FileMetaData list"
  cp_inputs1 :: "FileMetaData list"
  cp_grandparents :: "FileMetaData list"
  cp_grandparent_index :: nat
  cp_seen_key :: bool
  cp_overlapped_bytes :: int
  cp_level_ptrs :: "nat list"

definition Compaction_new :: "Options \<Rightarrow> nat \<Rightarrow> Compaction" where
  "Compaction_new options level =
     \<lparr> cp_level = level, cp_max_output_file_size = MaxFileSizeForLevel options level, cp_input_version = None,
       cp_edit = VersionEdit_new, cp_inputs0 = [], cp_inputs1 = [], cp_grandparents = [], cp_grandparent_index = 0,
       cp_seen_key = False, cp_overlapped_bytes = 0, cp_level_ptrs = replicate kNumLevels 0 \<rparr>"

text \<open>The inputs from the level below, and those from the level itself if it can grow at no cost.\<close>

definition expand_inputs ::
    "Comparator \<Rightarrow> Options \<Rightarrow> Version \<Rightarrow> nat \<Rightarrow> FileMetaData list \<Rightarrow> FileMetaData list \<Rightarrow>
     (FileMetaData list \<times> FileMetaData list) option" where
  "expand_inputs ucmp options v level inputs0 inputs1 =
     (let (all_start, all_limit) = GetRange2 ucmp inputs0 inputs1
      in if inputs1 = [] then Some (inputs0, inputs1)
         else do {
           overlaps \<leftarrow> GetOverlappingInputs ucmp v level (Some all_start) (Some all_limit);
           expanded0 \<leftarrow> AddBoundaryInputs ucmp (v_files v ! level) overlaps;
           if length expanded0 > length inputs0 \<and>
              TotalFileSize inputs1 + TotalFileSize expanded0 < ExpandedCompactionByteSizeLimit options
           then do {
             let (new_start, new_limit) = GetRange ucmp expanded0;
             overlaps1 \<leftarrow> GetOverlappingInputs ucmp v (level + 1) (Some new_start) (Some new_limit);
             expanded1 \<leftarrow> AddBoundaryInputs ucmp (v_files v ! (level + 1)) overlaps1;
             Some (if length expanded1 = length inputs1 then (expanded0, expanded1) else (inputs0, inputs1))
           }
           else Some (inputs0, inputs1)
         })"

definition SetupOtherInputs ::
    "Comparator \<Rightarrow> Options \<Rightarrow> Version \<Rightarrow> Compaction \<Rightarrow> slice list \<Rightarrow> (Compaction \<times> slice list) option" where
  "SetupOtherInputs ucmp options current cp pointers =
     (let level = cp_level cp in do {
        inputs0 \<leftarrow> AddBoundaryInputs ucmp (v_files current ! level) (cp_inputs0 cp);
        let (smallest, largest) = GetRange ucmp inputs0;
        overlaps \<leftarrow> GetOverlappingInputs ucmp current (level + 1) (Some smallest) (Some largest);
        inputs1 \<leftarrow> AddBoundaryInputs ucmp (v_files current ! (level + 1)) overlaps;
        (new0, new1) \<leftarrow> expand_inputs ucmp options current level inputs0 inputs1;
        let (all_start, all_limit) = GetRange2 ucmp new0 new1;
        let largest = snd (GetRange ucmp new0);
        grandparents \<leftarrow> (if level + 2 < kNumLevels
                         then GetOverlappingInputs ucmp current (level + 2) (Some all_start) (Some all_limit)
                         else Some (cp_grandparents cp));
        Some (cp\<lparr> cp_inputs0 := new0, cp_inputs1 := new1, cp_grandparents := grandparents,
                   cp_edit := SetCompactPointer level largest (cp_edit cp) \<rparr>,
              pointers[level := largest])
      })"

text \<open>The file from which a compaction of a full level goes on.\<close>

definition pick_file :: "Comparator \<Rightarrow> slice \<Rightarrow> FileMetaData list \<Rightarrow> FileMetaData" where
  "pick_file ucmp pointer files =
     (case find (\<lambda>f. pointer = [] \<or> InternalKey_Compare ucmp (f_largest f) pointer > 0) files of
        Some f \<Rightarrow> f | None \<Rightarrow> hd files)"

definition PickCompaction :: "Comparator \<Rightarrow> 'w VersionSet \<Rightarrow> (Compaction option \<times> 'w VersionSet) option" where
  "PickCompaction ucmp vs =
     (let current = vs_current vs;
          size_compaction = v_compaction_score current \<ge> 1;
          start = (if size_compaction
                   then (let level = nat (v_compaction_level current)
                         in Some (level, pick_file ucmp (vs_compact_pointer vs ! level) (v_files current ! level)))
                   else map_option (\<lambda>(f, level). (level, f)) (v_file_to_compact current))
      in case start of
           None \<Rightarrow> Some (None, vs)
         | Some (level, f) \<Rightarrow>
             (let cp = (Compaction_new (vs_options vs) level)\<lparr> cp_input_version := Some (Version_Ref current) \<rparr>;
                  vs = with_current (Version_Ref current) vs
              in do {
                   inputs0 \<leftarrow> (if level = 0
                               then (let (smallest, largest) = GetRange ucmp [f]
                                     in GetOverlappingInputs ucmp current 0 (Some smallest) (Some largest))
                               else Some [f]);
                   (cp, pointers) \<leftarrow> SetupOtherInputs ucmp (vs_options vs) current (cp\<lparr> cp_inputs0 := inputs0 \<rparr>)
                                      (vs_compact_pointer vs);
                   Some (Some cp, vs\<lparr> vs_compact_pointer := pointers \<rparr>)
                 }))"

text \<open>The first files up to the size limit; the total is an \<open>uint64_t\<close>.\<close>

fun limit_inputs :: "u64 \<Rightarrow> u64 \<Rightarrow> FileMetaData list \<Rightarrow> FileMetaData list" where
  "limit_inputs limit so_far [] = []"
| "limit_inputs limit so_far (f # fs) =
     (let so_far = so_far + f_file_size f in if so_far \<ge> limit then [f] else f # limit_inputs limit so_far fs)"

definition CompactRange ::
    "Comparator \<Rightarrow> nat \<Rightarrow> InternalKey option \<Rightarrow> InternalKey option \<Rightarrow> 'w VersionSet \<Rightarrow>
     (Compaction option \<times> 'w VersionSet) option" where
  "CompactRange ucmp level begin_key end_key vs =
     (let current = vs_current vs in do {
        inputs \<leftarrow> GetOverlappingInputs ucmp current level begin_key end_key;
        if inputs = [] then Some (None, vs)
        else do {
          let inputs = (if level > 0 then limit_inputs (of_int (MaxFileSizeForLevel (vs_options vs) level)) 0 inputs else inputs);
          let cp = (Compaction_new (vs_options vs) level)\<lparr> cp_input_version := Some (Version_Ref current), cp_inputs0 := inputs \<rparr>;
          let vs = with_current (Version_Ref current) vs;
          (cp, pointers) \<leftarrow> SetupOtherInputs ucmp (vs_options vs) current cp (vs_compact_pointer vs);
          Some (Some cp, vs\<lparr> vs_compact_pointer := pointers \<rparr>)
        }
      })"

definition IsTrivialMove :: "Options \<Rightarrow> Compaction \<Rightarrow> bool" where
  "IsTrivialMove options cp =
     (length (cp_inputs0 cp) = 1 \<and> length (cp_inputs1 cp) = 0 \<and>
      TotalFileSize (cp_grandparents cp) \<le> MaxGrandParentOverlapBytes options)"

definition AddInputDeletions :: "Compaction \<Rightarrow> VersionEdit \<Rightarrow> VersionEdit" where
  "AddInputDeletions cp edit =
     (let edit = fold (\<lambda>f. VersionEdit_RemoveFile (cp_level cp) (f_number f)) (cp_inputs0 cp) edit
      in fold (\<lambda>f. VersionEdit_RemoveFile (cp_level cp + 1) (f_number f)) (cp_inputs1 cp) edit)"

text \<open>The inner loop of \<open>IsBaseLevelForKey\<close>: whether the key is in the range of a file, and the advanced pointer.\<close>

function IsBase_level :: "Comparator \<Rightarrow> slice \<Rightarrow> FileMetaData list \<Rightarrow> nat \<Rightarrow> bool \<times> nat" where
  "IsBase_level ucmp ukey files ptr =
     (if ptr < length files then
        (let f = files ! ptr
         in if Compare ucmp ukey (InternalKey_user_key (f_largest f)) \<le> 0
            then (Compare ucmp ukey (InternalKey_user_key (f_smallest f)) \<ge> 0, ptr)
            else IsBase_level ucmp ukey files (ptr + 1))
      else (False, ptr))"
  by pat_completeness auto
termination by (relation "measure (\<lambda>(ucmp, ukey, files, ptr). length files - ptr)") auto

declare IsBase_level.simps [simp del]

fun IsBase_levels :: "Comparator \<Rightarrow> slice \<Rightarrow> Version \<Rightarrow> nat list \<Rightarrow> nat list \<Rightarrow> bool \<times> nat list" where
  "IsBase_levels ucmp ukey v [] ptrs = (True, ptrs)"
| "IsBase_levels ucmp ukey v (lvl # lvls) ptrs =
     (case IsBase_level ucmp ukey (v_files v ! lvl) (ptrs ! lvl) of
        (in_range, ptr) \<Rightarrow>
          if in_range then (False, ptrs[lvl := ptr]) else IsBase_levels ucmp ukey v lvls (ptrs[lvl := ptr]))"

definition IsBaseLevelForKey :: "Comparator \<Rightarrow> slice \<Rightarrow> Compaction \<Rightarrow> bool \<times> Compaction" where
  "IsBaseLevelForKey ucmp ukey cp =
     (case IsBase_levels ucmp ukey (the (cp_input_version cp)) [cp_level cp + 2..<kNumLevels] (cp_level_ptrs cp) of
        (base, ptrs) \<Rightarrow> (base, cp\<lparr> cp_level_ptrs := ptrs \<rparr>))"

text \<open>The loop of \<open>ShouldStopBefore\<close>.\<close>

function skip_grandparents :: "Comparator \<Rightarrow> slice \<Rightarrow> Compaction \<Rightarrow> Compaction" where
  "skip_grandparents ucmp ikey cp =
     (let i = cp_grandparent_index cp
      in if i < length (cp_grandparents cp) \<and> InternalKey_Compare ucmp ikey (f_largest (cp_grandparents cp ! i)) > 0
         then skip_grandparents ucmp ikey
                (cp\<lparr> cp_overlapped_bytes := (if cp_seen_key cp then cp_overlapped_bytes cp + uint (f_file_size (cp_grandparents cp ! i))
                                              else cp_overlapped_bytes cp),
                     cp_grandparent_index := i + 1 \<rparr>)
         else cp)"
  by pat_completeness auto
termination by (relation "measure (\<lambda>(ucmp, ikey, cp). length (cp_grandparents cp) - cp_grandparent_index cp)") auto

declare skip_grandparents.simps [simp del]

definition ShouldStopBefore :: "Comparator \<Rightarrow> Options \<Rightarrow> slice \<Rightarrow> Compaction \<Rightarrow> bool \<times> Compaction" where
  "ShouldStopBefore ucmp options ikey cp =
     (let cp = (skip_grandparents ucmp ikey cp)\<lparr> cp_seen_key := True \<rparr>
      in if cp_overlapped_bytes cp > MaxGrandParentOverlapBytes options
         then (True, cp\<lparr> cp_overlapped_bytes := 0 \<rparr>)
         else (False, cp))"

definition ReleaseInputs :: "Compaction \<Rightarrow> Compaction" where
  "ReleaseInputs cp = cp\<lparr> cp_input_version := None \<rparr>"

text \<open>\<open>VersionSet\<close> functions over all levels; a table's own \<open>ApproximateOffsetOf\<close> is a parameter, \<^term>\<open>None\<close> when it does not open.\<close>

fun offset_in_level ::
    "Comparator \<Rightarrow> (u64 \<Rightarrow> u64 \<Rightarrow> (slice \<Rightarrow> u64) option) \<Rightarrow> nat \<Rightarrow> InternalKey \<Rightarrow> FileMetaData list \<Rightarrow> u64 \<Rightarrow> u64" where
  "offset_in_level ucmp table_offset level ikey [] result = result"
| "offset_in_level ucmp table_offset level ikey (f # fs) result =
     (if InternalKey_Compare ucmp (f_largest f) ikey \<le> 0
      then offset_in_level ucmp table_offset level ikey fs (result + f_file_size f)
      else if InternalKey_Compare ucmp (f_smallest f) ikey > 0
      then (if level > 0 then result else offset_in_level ucmp table_offset level ikey fs result)
      else offset_in_level ucmp table_offset level ikey fs
             (case table_offset (f_number f) (f_file_size f) of None \<Rightarrow> result | Some off \<Rightarrow> result + off ikey))"

definition VersionSet_ApproximateOffsetOf ::
    "Comparator \<Rightarrow> (u64 \<Rightarrow> u64 \<Rightarrow> (slice \<Rightarrow> u64) option) \<Rightarrow> Version \<Rightarrow> InternalKey \<Rightarrow> u64" where
  "VersionSet_ApproximateOffsetOf ucmp table_offset v ikey =
     fold (\<lambda>level. offset_in_level ucmp table_offset level ikey (v_files v ! level)) [0..<kNumLevels] 0"

fun max_overlap :: "Comparator \<Rightarrow> Version \<Rightarrow> nat \<Rightarrow> FileMetaData list \<Rightarrow> int \<Rightarrow> int option" where
  "max_overlap ucmp v level [] result = Some result"
| "max_overlap ucmp v level (f # fs) result = do {
     overlaps \<leftarrow> GetOverlappingInputs ucmp v (level + 1) (Some (f_smallest f)) (Some (f_largest f));
     let bytes = TotalFileSize overlaps;
     max_overlap ucmp v level fs (if bytes > result then bytes else result)
   }"

definition MaxNextLevelOverlappingBytes :: "Comparator \<Rightarrow> 'w VersionSet \<Rightarrow> int option" where
  "MaxNextLevelOverlappingBytes ucmp vs =
     fold (\<lambda>level r. Option.bind r (max_overlap ucmp (vs_current vs) level (v_files (vs_current vs) ! level)))
       [1..<kNumLevels - 1] (Some 0)"

section \<open>Boundary files\<close>

context internal_order
begin

lemma FindLargestKey_append:
  assumes "FindLargestKey c files = Some k" "InternalKey_Compare c (f_largest f) k > 0"
  shows "FindLargestKey c (files @ [f]) = Some (f_largest f)"
  using assms by (cases files) (auto simp: FindLargestKey_def)

lemma level_sorted_smallest:
  assumes "level_sorted c files"
  shows "sorted_wrt (\<lambda>f g. InternalKey_Compare c (f_smallest f) (f_smallest g) < 0) files"
proof (rule sorted_wrt_mono_rel [of files "\<lambda>f g. InternalKey_Compare c (f_largest f) (f_smallest g) < 0"])
  show "InternalKey_Compare c (f_smallest f) (f_smallest g) < 0"
    if "f \<in> set files" "g \<in> set files" "InternalKey_Compare c (f_largest f) (f_smallest g) < 0" for f g
    using three_way.cmp_le_less_trans [OF internal_three_way _ that(3)] assms that(1) by (simp add: level_sorted_def file_ok_def)
qed (use assms in \<open>simp add: level_sorted_def\<close>)

text \<open>In a sorted level the scan for the smallest boundary file finds the first one.\<close>

lemma FindSmallestBoundaryFile_first:
  assumes "sorted_wrt (\<lambda>f g. InternalKey_Compare c (f_smallest f) (f_smallest g) < 0) files"
  shows "FindSmallestBoundaryFile c files k = find (is_boundary_file c k) files"
proof -
  let ?step = "\<lambda>f best. if is_boundary_file c k f \<and>
      (case best of None \<Rightarrow> True | Some b \<Rightarrow> InternalKey_Compare c (f_smallest f) (f_smallest b) < 0) then Some f else best"
  have keep: "fold ?step fs (Some b) = Some b" if "\<forall>f \<in> set fs. InternalKey_Compare c (f_smallest b) (f_smallest f) < 0" for fs b
    using that
  proof (induction fs)
    case (Cons f fs)
    have "\<not> InternalKey_Compare c (f_smallest f) (f_smallest b) < 0"
      using Cons.prems three_way.cmp_neg [OF internal_three_way, of "f_smallest b" "f_smallest f"] by simp
    then show ?case using Cons by simp
  qed simp
  show ?thesis unfolding FindSmallestBoundaryFile_def using assms
  proof (induction files)
    case (Cons f fs)
    then show ?case using keep [of fs f] by auto
  qed simp
qed

text \<open>The files of a sorted level that start after the end of another one, by user keys.\<close>

lemma not_boundary_before:
  assumes "level_sorted c files" "i \<le> j" "j < length files"
  shows "\<not> is_boundary_file c (f_largest (files ! j)) (files ! i)"
proof -
  note tw = internal_three_way
  have ok: "InternalKey_Compare c (f_smallest (files ! m)) (f_largest (files ! m)) \<le> 0" if "m < length files" for m
    using assms(1) that by (simp add: level_sorted_def file_ok_def)
  have "InternalKey_Compare c (f_smallest (files ! i)) (f_largest (files ! j)) \<le> 0"
  proof (cases "i = j")
    case False
    then have "InternalKey_Compare c (f_largest (files ! i)) (f_smallest (files ! j)) < 0"
      using assms by (simp add: level_sorted_def sorted_wrt_iff_nth_less)
    then show ?thesis
      using three_way.cmp_less_le_trans [OF tw three_way.cmp_le_less_trans [OF tw ok] ok] assms by (meson less_imp_le order_le_less_trans)
  qed (use ok assms(3) in simp)
  then show ?thesis by (simp add: is_boundary_file_def)
qed

lemma boundary_after:
  assumes "level_sorted c files" "j < m" "m < length files"
  shows "is_boundary_file c (f_largest (files ! j)) (files ! m) \<longleftrightarrow>
    Compare c (file_start (files ! m)) (file_limit (files ! j)) = 0"
proof -
  have "InternalKey_Compare c (f_largest (files ! j)) (f_smallest (files ! m)) < 0"
    using assms by (simp add: level_sorted_def sorted_wrt_iff_nth_less)
  then show ?thesis using three_way.cmp_neg [OF internal_three_way] by (simp add: is_boundary_file_def)
qed

lemma find_boundary:
  assumes ls: "level_sorted c files" and j: "j < length files"
  shows "FindSmallestBoundaryFile c files (f_largest (files ! j)) =
    (if Suc j < length files \<and> Compare c (file_start (files ! Suc j)) (file_limit (files ! j)) = 0
     then Some (files ! Suc j) else None)"
proof -
  let ?P = "is_boundary_file c (f_largest (files ! j))"
  have before: "\<not> ?P (files ! i)" if "i \<le> j" for i using not_boundary_before [OF ls that j] .
  show ?thesis
  proof (cases "Suc j < length files \<and> Compare c (file_start (files ! Suc j)) (file_limit (files ! j)) = 0")
    case True
    then have "?P (files ! Suc j)" using boundary_after [OF ls, of j "Suc j"] by simp
    then have "find ?P files = Some (files ! Suc j)" using True before by (auto simp: find_Some_iff less_Suc_eq_le)
    then show ?thesis using True FindSmallestBoundaryFile_first [OF level_sorted_smallest [OF ls]] by simp
  next
    case False
    have "\<not> ?P (files ! m)" if "j < m" "m < length files" for m
    proof
      assume "?P (files ! m)"
      then have eq: "Compare c (file_start (files ! m)) (file_limit (files ! j)) = 0" using boundary_after [OF ls that] by simp
      have le: "Compare c (file_limit (files ! j)) (file_start (files ! Suc j)) \<le> 0" using level_starts(1) [OF ls, of j "Suc j"] that by simp
      have "Compare c (file_start (files ! Suc j)) (file_start (files ! m)) \<le> 0"
        using level_starts(2) [OF ls, of "Suc j" m] that by (cases "Suc j = m") auto
      then have "Compare c (file_start (files ! Suc j)) (file_limit (files ! j)) \<le> 0"
        using user.cmp_trans eq by (metis order_refl)
      then have "Compare c (file_start (files ! Suc j)) (file_limit (files ! j)) = 0"
        using le user.cmp_le [of "file_limit (files ! j)" "file_start (files ! Suc j)"] by linarith
      then show False using False that by simp
    qed
    then have "find ?P files = None" unfolding find_None_iff
      using before by (metis in_set_conv_nth linorder_not_less)
    then show ?thesis using False FindSmallestBoundaryFile_first [OF level_sorted_smallest [OF ls]] by auto
  qed
qed

lemma AddBoundary_loop_result:
  assumes ls: "level_sorted c files" and j: "j < length files"
  shows "\<exists>k. j + k < length files \<and>
    AddBoundaryInputs_loop c files (f_largest (files ! j)) acc = Some (acc @ take k (drop (Suc j) files)) \<and>
    (Suc (j + k) < length files \<longrightarrow> Compare c (file_limit (files ! (j + k))) (file_start (files ! Suc (j + k))) < 0)"
  using j
proof (induction "length files - j" arbitrary: j acc rule: less_induct)
  case less
  show ?case
  proof (cases "Suc j < length files \<and> Compare c (file_start (files ! Suc j)) (file_limit (files ! j)) = 0")
    case True
    have "length files - Suc j < length files - j" "Suc j < length files" using True by auto
    from less.hyps [OF this, of "acc @ [files ! Suc j]"] obtain k where k: "Suc j + k < length files"
      "AddBoundaryInputs_loop c files (f_largest (files ! Suc j)) (acc @ [files ! Suc j]) =
         Some ((acc @ [files ! Suc j]) @ take k (drop (Suc (Suc j)) files))"
      "Suc (Suc j + k) < length files \<longrightarrow> Compare c (file_limit (files ! (Suc j + k))) (file_start (files ! Suc (Suc j + k))) < 0"
      by blast
    have "take (Suc k) (drop (Suc j) files) = files ! Suc j # take k (drop (Suc (Suc j)) files)"
      using True by (metis Cons_nth_drop_Suc take_Suc_Cons)
    then show ?thesis using k True
      by (intro exI [of _ "Suc k"]) (subst AddBoundaryInputs_loop.simps, simp add: find_boundary [OF ls less.prems])
  next
    case False
    then have "AddBoundaryInputs_loop c files (f_largest (files ! j)) acc = Some acc"
      by (subst AddBoundaryInputs_loop.simps) (auto simp: find_boundary [OF ls less.prems])
    moreover have "Compare c (file_limit (files ! j)) (file_start (files ! Suc j)) < 0" if "Suc j < length files"
      using level_starts(1) [OF ls, of j "Suc j"] False that user.cmp_zero_sym [of "file_limit (files ! j)"] by force
    ultimately show ?thesis using less.prems by (intro exI [of _ 0]) simp
  qed
qed

lemma FindLargestKey_sorted:
  assumes "level_sorted c files" "files \<noteq> []"
  shows "FindLargestKey c files = Some (f_largest (last files))"
  using assms
proof (induction files rule: rev_induct)
  case (snoc f fs)
  show ?case
  proof (cases "fs = []")
    case True
    then show ?thesis by (simp add: FindLargestKey_def)
  next
    case False
    have "level_sorted c fs" using snoc.prems(1) by (simp add: level_sorted_def sorted_wrt_append)
    then have ih: "FindLargestKey c fs = Some (f_largest (last fs))" using snoc.IH False by blast
    have "InternalKey_Compare c (f_largest (last fs)) (f_smallest f) < 0" "InternalKey_Compare c (f_smallest f) (f_largest f) \<le> 0"
      using snoc.prems(1) False by (auto simp: level_sorted_def sorted_wrt_append file_ok_def)
    then have "InternalKey_Compare c (f_largest f) (f_largest (last fs)) > 0"
      using three_way.cmp_less_le_trans [OF internal_three_way] three_way.cmp_neg [OF internal_three_way] by blast
    from FindLargestKey_append [OF ih this] show ?thesis by simp
  qed
qed simp

lemma AddBoundaryInputs_result:
  assumes ls: "level_sorted c (pre @ files @ post)" and ne: "files \<noteq> []"
  shows "\<exists>k. AddBoundaryInputs c (pre @ files @ post) files = Some (files @ take k post) \<and>
    (\<forall>r \<in> set (files @ take k post). \<forall>g \<in> set (drop k post). Compare c (file_limit r) (file_start g) < 0)"
proof -
  let ?all = "pre @ files @ post" and ?j = "length pre + length files - 1"
  have j: "?j < length ?all" "Suc ?j = length pre + length files" using ne by (cases files; simp)+
  have last: "?all ! ?j = last files" using ne by (cases files rule: rev_cases) (simp_all add: nth_append)
  have "level_sorted c files" using ls by (auto simp: level_sorted_def sorted_wrt_append)
  from FindLargestKey_sorted [OF this ne] have lk: "FindLargestKey c files = Some (f_largest (?all ! ?j))" by (simp only: last)
  obtain k where k: "?j + k < length ?all"
    "AddBoundaryInputs_loop c ?all (f_largest (?all ! ?j)) files = Some (files @ take k (drop (Suc ?j) ?all))"
    "Suc (?j + k) < length ?all \<longrightarrow> Compare c (file_limit (?all ! (?j + k))) (file_start (?all ! Suc (?j + k))) < 0"
    using AddBoundary_loop_result [OF ls j(1), of files] by blast
  have drop: "drop (Suc ?j) ?all = post" unfolding j(2) by simp
  have "Compare c (file_limit r) (file_start g) < 0" if r: "r \<in> set (files @ take k post)" and g: "g \<in> set (drop k post)" for r g
  proof -
    obtain a where a: "a < length (files @ take k post)" "r = (files @ take k post) ! a" using r by (metis in_set_conv_nth)
    obtain b where b: "b < length post - k" "g = post ! (k + b)" using g by (auto simp: in_set_conv_nth)
    have kp: "k < length post" using b by simp
    have ra: "r = ?all ! (length pre + a)" "length pre + a \<le> ?j + k" using a ne kp by (auto simp: nth_append)
    have gb: "g = ?all ! (Suc (?j + k) + b)" "Suc (?j + k) + b < length ?all" using b kp j(2) by (auto simp: nth_append)
    have ok: "file_ok c f" if "f \<in> set ?all" for f using ls that by (auto simp: level_sorted_def)
    have "Compare c (file_limit r) (file_limit (?all ! (?j + k))) \<le> 0"
    proof (cases "length pre + a = ?j + k")
      case False
      then have "Compare c (file_limit r) (file_start (?all ! (?j + k))) \<le> 0"
        using level_starts(1) [OF ls, of "length pre + a" "?j + k"] ra k(1) by simp
      then show ?thesis using user.cmp_trans file_ok_user [OF ok [OF nth_mem [OF k(1)]]] by blast
    qed (use ra in simp)
    moreover have "Compare c (file_limit (?all ! (?j + k))) (file_start (?all ! Suc (?j + k))) < 0" using k(3) gb(2) by simp
    moreover have "Compare c (file_start (?all ! Suc (?j + k))) (file_start g) \<le> 0"
      using level_starts(2) [OF ls, of "Suc (?j + k)" "Suc (?j + k) + b"] gb by (cases b) auto
    ultimately show ?thesis using user.cmp_le_less_trans user.cmp_less_le_trans by blast
  qed
  then show ?thesis using k(2) [unfolded drop] lk by (intro exI [of _ k]) (simp add: AddBoundaryInputs_def)
qed

end

section \<open>Base level\<close>

text \<open>Files before the pointer end before the key.\<close>

definition passed :: "Comparator \<Rightarrow> slice \<Rightarrow> FileMetaData list \<Rightarrow> nat \<Rightarrow> bool" where
  "passed c u files ptr \<longleftrightarrow> (\<forall>j < ptr. j < length files \<longrightarrow> Compare c (file_limit (files ! j)) u < 0)"

definition in_file_range :: "Comparator \<Rightarrow> slice \<Rightarrow> FileMetaData \<Rightarrow> bool" where
  "in_file_range c u f \<longleftrightarrow> Compare c (file_start f) u \<le> 0 \<and> Compare c u (file_limit f) \<le> 0"

text \<open>The state of a compaction whose keys have reached \<open>u\<close>.\<close>

definition base_ptrs_ok :: "Comparator \<Rightarrow> slice \<Rightarrow> Version \<Rightarrow> nat \<Rightarrow> nat list \<Rightarrow> bool" where
  "base_ptrs_ok c u v level ptrs \<longleftrightarrow>
     length ptrs = kNumLevels \<and> (\<forall>l. level + 2 \<le> l \<longrightarrow> l < kNumLevels \<longrightarrow> passed c u (v_files v ! l) (ptrs ! l))"

context internal_order
begin

lemma passed_mono: "passed c u files ptr \<Longrightarrow> Compare c u u' \<le> 0 \<Longrightarrow> passed c u' files ptr"
  unfolding passed_def using user.cmp_less_le_trans by blast

lemma IsBase_level_result:
  assumes ls: "level_sorted c files" and "passed c u files ptr"
  shows "fst (IsBase_level c u files ptr) \<longleftrightarrow> (\<exists>f \<in> set files. in_file_range c u f)"
    "passed c u files (snd (IsBase_level c u files ptr))"
proof -
  have "(fst (IsBase_level c u files ptr) \<longleftrightarrow> (\<exists>f \<in> set files. in_file_range c u f)) \<and>
    passed c u files (snd (IsBase_level c u files ptr))"
    using assms(2)
  proof (induction "length files - ptr" arbitrary: ptr rule: less_induct)
    case less
    show ?case
    proof (cases "ptr < length files")
      case False
      have "\<not> (\<exists>f \<in> set files. in_file_range c u f)"
        using less.prems False user.cmp_le unfolding passed_def in_file_range_def by (metis in_set_conv_nth linorder_not_less not_less_iff_gr_or_eq order.strict_trans1)
      then show ?thesis using less.prems False by (simp add: IsBase_level.simps)
    next
      case True
      let ?f = "files ! ptr"
      show ?thesis
      proof (cases "Compare c u (file_limit ?f) \<le> 0")
        case le: True
        have "(\<exists>f \<in> set files. in_file_range c u f) \<longleftrightarrow> Compare c (file_start ?f) u \<le> 0"
        proof
          assume "\<exists>f \<in> set files. in_file_range c u f"
          then obtain m where m: "m < length files" "Compare c (file_start (files ! m)) u \<le> 0" "Compare c u (file_limit (files ! m)) \<le> 0"
            unfolding in_file_range_def by (metis in_set_conv_nth)
          have "\<not> m < ptr" using less.prems m(1,3) user.cmp_le [of u "file_limit (files ! m)"] unfolding passed_def by force
          then have "Compare c (file_start ?f) (file_start (files ! m)) \<le> 0"
            using level_starts(2) [OF ls, of ptr m] m(1) by (cases "m = ptr") auto
          then show "Compare c (file_start ?f) u \<le> 0" using user.cmp_trans m(2) by blast
        qed (use le True in \<open>auto simp: in_file_range_def\<close>)
        then show ?thesis using True le less.prems user.cmp_le [of "file_start ?f" u] by (subst (1 2) IsBase_level.simps) (simp add: Let_def)
      next
        case gt: False
        then have "Compare c (file_limit ?f) u < 0" using user.cmp_le [of u "file_limit ?f"] by linarith
        then have "passed c u files (ptr + 1)" using less.prems by (auto simp: passed_def less_Suc_eq)
        then show ?thesis using less.hyps [of "ptr + 1"] True gt by (subst (1 2) IsBase_level.simps) (simp add: Let_def)
      qed
    qed
  qed
  then show "fst (IsBase_level c u files ptr) \<longleftrightarrow> (\<exists>f \<in> set files. in_file_range c u f)"
    "passed c u files (snd (IsBase_level c u files ptr))" by blast+
qed

lemma IsBase_levels_result:
  assumes "\<forall>l \<in> set lvls. l < kNumLevels \<and> level_sorted c (v_files v ! l) \<and> passed c u (v_files v ! l) (ptrs ! l)"
    and "length ptrs = kNumLevels" "distinct lvls"
  shows "(fst (IsBase_levels c u v lvls ptrs) \<longleftrightarrow> (\<forall>l \<in> set lvls. \<forall>f \<in> set (v_files v ! l). \<not> in_file_range c u f)) \<and>
    length (snd (IsBase_levels c u v lvls ptrs)) = kNumLevels \<and>
    (\<forall>l \<in> set lvls. passed c u (v_files v ! l) (snd (IsBase_levels c u v lvls ptrs) ! l)) \<and>
    (\<forall>l. l \<notin> set lvls \<longrightarrow> snd (IsBase_levels c u v lvls ptrs) ! l = ptrs ! l)"
  using assms
proof (induction lvls arbitrary: ptrs)
  case (Cons l lvls)
  obtain r p where rp: "IsBase_level c u (v_files v ! l) (ptrs ! l) = (r, p)" by fastforce
  have l: "l < length ptrs" "level_sorted c (v_files v ! l)" "passed c u (v_files v ! l) (ptrs ! l)" using Cons.prems by auto
  note res = IsBase_level_result [OF l(2,3), unfolded rp fst_conv snd_conv]
  show ?case
  proof (cases r)
    case True
    then show ?thesis using res l Cons.prems by (auto simp: rp nth_list_update)
  next
    case False
    have "\<forall>m \<in> set lvls. m < kNumLevels \<and> level_sorted c (v_files v ! m) \<and> passed c u (v_files v ! m) (ptrs[l := p] ! m)"
      using Cons.prems by (auto simp: nth_list_update)
    from Cons.IH [OF this] Cons.prems have ih: "(fst (IsBase_levels c u v lvls (ptrs[l := p])) \<longleftrightarrow> (\<forall>l \<in> set lvls. \<forall>f \<in> set (v_files v ! l). \<not> in_file_range c u f)) \<and>
      length (snd (IsBase_levels c u v lvls (ptrs[l := p]))) = kNumLevels \<and>
      (\<forall>m \<in> set lvls. passed c u (v_files v ! m) (snd (IsBase_levels c u v lvls (ptrs[l := p])) ! m)) \<and>
      (\<forall>m. m \<notin> set lvls \<longrightarrow> snd (IsBase_levels c u v lvls (ptrs[l := p])) ! m = ptrs[l := p] ! m)" by simp
    then show ?thesis using False res l Cons.prems(3) by (auto simp: rp nth_list_update)
  qed
qed simp

lemma IsBaseLevelForKey_result:
  assumes "cp_input_version cp = Some v" "\<forall>l. cp_level cp + 2 \<le> l \<longrightarrow> l < kNumLevels \<longrightarrow> level_sorted c (v_files v ! l)"
    and "base_ptrs_ok c u v (cp_level cp) (cp_level_ptrs cp)"
  shows "fst (IsBaseLevelForKey c u cp) \<longleftrightarrow>
      (\<forall>l. cp_level cp + 2 \<le> l \<longrightarrow> l < kNumLevels \<longrightarrow> (\<forall>f \<in> set (v_files v ! l). \<not> in_file_range c u f))"
    "\<exists>ptrs. snd (IsBaseLevelForKey c u cp) = cp\<lparr> cp_level_ptrs := ptrs \<rparr> \<and> base_ptrs_ok c u v (cp_level cp) ptrs"
proof -
  let ?r = "IsBase_levels c u v [cp_level cp + 2..<kNumLevels] (cp_level_ptrs cp)"
  have "(fst ?r \<longleftrightarrow> (\<forall>l \<in> set [cp_level cp + 2..<kNumLevels]. \<forall>f \<in> set (v_files v ! l). \<not> in_file_range c u f)) \<and>
    length (snd ?r) = kNumLevels \<and>
    (\<forall>l \<in> set [cp_level cp + 2..<kNumLevels]. passed c u (v_files v ! l) (snd ?r ! l)) \<and>
    (\<forall>l. l \<notin> set [cp_level cp + 2..<kNumLevels] \<longrightarrow> snd ?r ! l = cp_level_ptrs cp ! l)"
    using assms(2,3) by (intro IsBase_levels_result) (auto simp: base_ptrs_ok_def)
  then show "fst (IsBaseLevelForKey c u cp) \<longleftrightarrow>
      (\<forall>l. cp_level cp + 2 \<le> l \<longrightarrow> l < kNumLevels \<longrightarrow> (\<forall>f \<in> set (v_files v ! l). \<not> in_file_range c u f))"
    "\<exists>ptrs. snd (IsBaseLevelForKey c u cp) = cp\<lparr> cp_level_ptrs := ptrs \<rparr> \<and> base_ptrs_ok c u v (cp_level cp) ptrs"
    by (auto simp: IsBaseLevelForKey_def assms(1) base_ptrs_ok_def split: prod.split)
qed

end

section \<open>Properties\<close>

text \<open>
  C35: boundary files.  Starting from consecutive files of a sorted level, \<open>AddBoundaryInputs\<close> ends; it
  adds the files that follow as long as they share a user key with the one before.  No file that
  stays behind after them has a user key of a compacted file, so no older entry of a
  compacted key is left in the level.
\<close>

theorem add_boundary_inputs:
  assumes "three_way (Compare c)" "level_sorted c (pre @ files @ post)" "files \<noteq> []"
  shows "\<exists>k. AddBoundaryInputs c (pre @ files @ post) files = Some (files @ take k post) \<and>
    (\<forall>r \<in> set (files @ take k post). \<forall>g \<in> set (drop k post). Compare c (file_limit r) (file_start g) < 0)"
  by (rule internal_order.AddBoundaryInputs_result [OF internal_order.intro [OF assms(1)] assms(2,3)])

text \<open>A sample: two files of a level.\<close>

theorem add_boundary_inputs_witness:
  "\<exists>k. AddBoundaryInputs BytewiseComparator ([] @ [sample_range 1 3 5] @ [sample_range 2 6 8]) [sample_range 1 3 5] =
     Some ([sample_range 1 3 5] @ take k [sample_range 2 6 8])"
proof -
  have "ParseInternalKey (InternalKey_new [a] 9 kTypeValue) \<noteq> None" "ParseInternalKey (InternalKey_new [a] 2 kTypeValue) \<noteq> None" for a
    by (simp_all add: InternalKey_new_def ParseInternalKey_Append seq_le_max)
  then have "level_sorted BytewiseComparator ([] @ [sample_range 1 3 5] @ [sample_range 2 6 8])"
    by (simp add: level_sorted_def file_ok_def sample_range_def InternalKey_Compare_def Let_def BytewiseComparator_def)
  from add_boundary_inputs [OF bytewise.three_way_axioms this] show ?thesis by auto
qed

end
