(* ===== verification/MemIter.thy ===== *)
theory MemIter
  imports MemTable Iterator
begin

text \<open>
  The iterator of a memtable (\<open>db/memtable.cc\<close>) as an \<open>Iterator\<close>.  A search in the skip list that does not end
  is \<^term>\<open>None\<close>.  Clients that only scan forward use the contract \<open>forward_iterator\<close>.
\<close>

section \<open>Definitions\<close>

definition MemTableIterator :: "(MemTable \<times> sl_iter) option Iterator" where
  "MemTableIterator =
     \<lparr> it_Valid = (\<lambda>s. case s of None \<Rightarrow> False | Some (mt, it) \<Rightarrow> sl_iter_Valid it),
       it_SeekToFirst = map_option (\<lambda>(mt, it). (mt, MemTableIterator_SeekToFirst mt)),
       it_SeekToLast = (\<lambda>s. Option.bind s (\<lambda>(mt, it). map_option (Pair mt) (MemTableIterator_SeekToLast mt))),
       it_Seek = (\<lambda>k s. Option.bind s (\<lambda>(mt, it). map_option (Pair mt) (MemTableIterator_Seek mt k))),
       it_Next = map_option (\<lambda>(mt, it). (mt, MemTableIterator_Next mt it)),
       it_Prev = (\<lambda>s. Option.bind s (\<lambda>(mt, it). map_option (Pair mt) (MemTableIterator_Prev mt it))),
       it_key = (\<lambda>s. case s of None \<Rightarrow> [] | Some (mt, it) \<Rightarrow> MemTableIterator_key mt it),
       it_value = (\<lambda>s. case s of None \<Rightarrow> [] | Some (mt, it) \<Rightarrow> MemTableIterator_value mt it),
       it_status = (\<lambda>s. OK) \<rparr>"

definition MemTable_NewIterator :: "MemTable \<Rightarrow> (MemTable \<times> sl_iter) option" where
  "MemTable_NewIterator mt = Some (mt, None)"

section \<open>Forward scans\<close>

locale forward_iterator =
  fixes I :: "'s Iterator" and cursor :: "'s \<Rightarrow> kv list \<Rightarrow> nat \<Rightarrow> bool"
  assumes fwd_Valid: "cursor s kvs i \<Longrightarrow> it_Valid I s \<longleftrightarrow> i < length kvs"
    and fwd_entry: "cursor s kvs i \<Longrightarrow> i < length kvs \<Longrightarrow> (it_key I s, it_value I s) = kvs ! i"
    and fwd_SeekToFirst: "cursor s kvs i \<Longrightarrow> cursor (it_SeekToFirst I s) kvs 0"
    and fwd_Next: "cursor s kvs i \<Longrightarrow> i < length kvs \<Longrightarrow> cursor (it_Next I s) kvs (Suc i)"
    and fwd_status: "cursor s kvs i \<Longrightarrow> it_status I s = OK"

sublocale iterator \<subseteq> fwd: forward_iterator I cursor
  by unfold_locales (fact cursor_Valid cursor_entry cursor_SeekToFirst cursor_Next cursor_status)+

definition mem_kvs :: "mem_entry list \<Rightarrow> kv list" where
  "mem_kvs es = map (\<lambda>e. (entry_ikey e, snd e)) es"

definition mem_cursor :: "Comparator \<Rightarrow> (MemTable \<times> sl_iter) option \<Rightarrow> kv list \<Rightarrow> nat \<Rightarrow> bool" where
  "mem_cursor c s kvs i \<longleftrightarrow>
     (\<exists>mt es ns it. s = Some (mt, it) \<and> mt_comparator mt = c \<and> (\<forall>e \<in> set es. entry_small e) \<and>
        sl_inv (KeyComparator c) (mt_table mt) ns \<and> map entry_bytes es = sl_keys (mt_table mt) ns \<and>
        kvs = mem_kvs es \<and> it = at_pos ns i)"

context mem_table
begin

lemma mem_entry_at:
  assumes "\<forall>e \<in> set es. entry_small e" "sl_inv (KeyComparator c) (mt_table mt) ns"
    "map entry_bytes es = sl_keys (mt_table mt) ns" "i < length es"
  shows "(MemTableIterator_key mt (at_pos ns i), MemTableIterator_value mt (at_pos ns i)) = mem_kvs es ! i"
proof -
  have "length ns = length es" using arg_cong [OF assms(3), of length] by (simp add: sl_keys_def)
  then have k: "sl_iter_key (mt_table mt) (at_pos ns i) = entry_bytes (es ! i)"
    using table.iter_holds(4) [OF assms(2)] assms(3,4) by (metis nth_map)
  have e: "entry_small (es ! i)" using assms(1,4) by simp
  obtain len p where lp: "entry_varint (entry_bytes (es ! i)) = (len, p)"
    "entry_GetLengthPrefixedSlice (drop (unat len) p) = snd (es ! i)" using entry_decode [OF e] by blast
  show ?thesis using assms(4) lp entry_bytes_ikey [OF e]
    by (simp add: MemTableIterator_key_def MemTableIterator_value_def k mem_kvs_def)
qed

lemma mem_forward: "forward_iterator MemTableIterator (mem_cursor c)"
proof
  fix s kvs i assume "mem_cursor c s kvs i"
  then obtain mt es ns where m: "s = Some (mt, at_pos ns i)" "mt_comparator mt = c" "\<forall>e \<in> set es. entry_small e"
    "sl_inv (KeyComparator c) (mt_table mt) ns" "map entry_bytes es = sl_keys (mt_table mt) ns" "kvs = mem_kvs es"
    by (auto simp: mem_cursor_def)
  have len: "length ns = length kvs" using arg_cong [OF m(5), of length] by (simp add: sl_keys_def m(6) mem_kvs_def)
  note it = table.iter_holds [OF m(4)]
  show "it_Valid MemTableIterator s = (i < length kvs)"
    using len by (auto simp: MemTableIterator_def m(1) sl_iter_Valid_def at_pos_def)
  show "mem_cursor c (it_SeekToFirst MemTableIterator s) kvs 0"
    using m it(1) by (auto simp: mem_cursor_def MemTableIterator_def MemTableIterator_SeekToFirst_def)
  show "it_status MemTableIterator s = OK" by (simp add: MemTableIterator_def)
  assume i: "i < length kvs"
  then show "(it_key MemTableIterator s, it_value MemTableIterator s) = kvs ! i"
    using mem_entry_at [OF m(3-5)] by (simp add: MemTableIterator_def m(1,6) mem_kvs_def)
  show "mem_cursor c (it_Next MemTableIterator s) kvs (Suc i)"
    using m it(5) len i by (auto simp: mem_cursor_def MemTableIterator_def MemTableIterator_Next_def)
qed

lemma new_mem_cursor:
  assumes "mem_holds c mt es"
  shows "\<exists>i. mem_cursor c (MemTable_NewIterator mt) (mem_kvs es) i"
proof -
  obtain ns where ns: "sl_inv (KeyComparator c) (mt_table mt) ns" "map entry_bytes es = sl_keys (mt_table mt) ns"
    using assms by (auto simp: mem_holds_def sl_holds_def)
  then show ?thesis using assms unfolding mem_cursor_def MemTable_NewIterator_def
    by (intro exI [of _ "length ns"] exI [of _ mt] exI [of _ es] exI [of _ ns] exI [of _ None])
       (auto simp: mem_holds_def at_pos_def)
qed

end

interpretation mem_scan: forward_iterator MemTableIterator "mem_cursor BytewiseComparator"
  by (rule bytewise_mem.mem_forward)

section \<open>A sample\<close>

text \<open>A memtable with one entry.\<close>

definition sample_put :: mem_entry where
  "sample_put = (\<lparr> user_key = [1], sequence = 5, ikey_type = kTypeValue \<rparr>, [7])"

definition sample_memtable :: MemTable where
  "sample_memtable = the (MemTable_Add (\<lambda>i. 8192 * i) 5 kTypeValue [1] [7] (MemTable_new (\<lambda>i. 8192 * i) BytewiseComparator))"

lemma sample_memtable_holds: "mem_holds BytewiseComparator sample_memtable [sample_put]"
proof -
  have "entry_small sample_put" by (simp add: sample_put_def entry_small_def seq_le_max)
  then obtain mt where "MemTable_Add (\<lambda>i. 8192 * i) 5 kTypeValue [1] [7] (MemTable_new (\<lambda>i. 8192 * i) BytewiseComparator) = Some mt"
    "mem_holds BytewiseComparator mt [sample_put]"
    using bytewise_mem.add_holds [OF mem_new_holds, of "fst sample_put" "snd sample_put" "\<lambda>i. 8192 * i" "\<lambda>i. 8192 * i"]
    by (auto simp: sample_put_def insert_key_def)
  then show ?thesis by (simp add: sample_memtable_def)
qed

end
