(* ===== verification/DbImpl.thy ===== *)
theory DbImpl
  imports Compaction MemIter TableBuilder
begin

text \<open>
  The state of an open database (\<open>db/db_impl.h\<close>), its snapshots (\<open>db/snapshot.h\<close>), building a table
  (\<open>db/builder.cc\<close>), and the operations of \<open>db/db_impl.cc\<close> that flush a memtable and remove files.  What
  the code does while it holds the mutex is one step; the table cache is a parameter of the state of the
  file system.  Durations and messages to the info log are left out.
\<close>

section \<open>Definitions: state\<close>

text \<open>What the database runs on: the environment, the codecs, the allocator, and the table cache's lookups and checks.\<close>

record ('e, 'f, 'w) System =
  sys_env :: "('e, 'f, 'w) Env"
  sys_codec :: Codec
  sys_new_char :: "nat \<Rightarrow> nat"
  sys_table_get :: "'e \<Rightarrow> table_get"
  sys_table_status :: "u64 \<Rightarrow> u64 \<Rightarrow> 'e \<Rightarrow> Status"

text \<open>The list from the oldest to the newest snapshot; a snapshot is identified by a number instead of its address.\<close>

record SnapshotImpl =
  snap_id :: nat
  sequence_number :: SequenceNumber

record SnapshotList =
  sn_next_id :: nat
  sn_list :: "SnapshotImpl list"

definition SnapshotList_new :: SnapshotList where
  "SnapshotList_new = \<lparr> sn_next_id = 0, sn_list = [] \<rparr>"

definition Snapshot_empty :: "SnapshotList \<Rightarrow> bool" where
  "Snapshot_empty l = (sn_list l = [])"

definition Snapshot_oldest :: "SnapshotList \<Rightarrow> SnapshotImpl" where
  "Snapshot_oldest l = hd (sn_list l)"

definition Snapshot_newest :: "SnapshotList \<Rightarrow> SnapshotImpl" where
  "Snapshot_newest l = last (sn_list l)"

definition Snapshot_New :: "SequenceNumber \<Rightarrow> SnapshotList \<Rightarrow> SnapshotImpl \<times> SnapshotList" where
  "Snapshot_New seq l =
     (let snapshot = \<lparr> snap_id = sn_next_id l, sequence_number = seq \<rparr>
      in (snapshot, \<lparr> sn_next_id = sn_next_id l + 1, sn_list = sn_list l @ [snapshot] \<rparr>))"

definition Snapshot_Delete :: "SnapshotImpl \<Rightarrow> SnapshotList \<Rightarrow> SnapshotList" where
  "Snapshot_Delete snapshot l = l\<lparr> sn_list := filter (\<lambda>s. snap_id s \<noteq> snap_id snapshot) (sn_list l) \<rparr>"

record ManualCompaction =
  mc_level :: nat
  mc_done :: bool
  mc_begin :: "InternalKey option"
  mc_end :: "InternalKey option"

text \<open>The counters are \<open>int64_t\<close>, kept as 64-bit words.\<close>

record CompactionStats =
  st_bytes_read :: u64
  st_bytes_written :: u64

definition CompactionStats_new :: CompactionStats where
  "CompactionStats_new = \<lparr> st_bytes_read = 0, st_bytes_written = 0 \<rparr>"

definition CompactionStats_Add :: "CompactionStats \<Rightarrow> CompactionStats \<Rightarrow> CompactionStats" where
  "CompactionStats_Add a b =
     \<lparr> st_bytes_read = st_bytes_read a + st_bytes_read b, st_bytes_written = st_bytes_written a + st_bytes_written b \<rparr>"

text \<open>A queued writer; \<open>None\<close> as batch asks for a memtable compaction.\<close>

record DBWriter =
  w_id :: nat
  w_batch :: "slice option"
  w_sync :: bool
  w_done :: bool
  w_status :: Status

text \<open>The writer of the log owns \<open>logfile_\<close>; \<open>db_user_comparator\<close> is the one inside \<open>internal_comparator_\<close>.\<close>

record 'w DBImpl =
  db_user_comparator :: Comparator
  db_options :: Options
  db_dbname :: slice
  db_locked :: bool
  db_shutting_down :: bool
  db_mem :: "MemTable option"
  db_imm :: "MemTable option"
  db_has_imm :: bool
  db_logfile_number :: u64
  db_log :: "'w Writer option"
  db_seed :: u32
  db_writers :: "DBWriter list"
  db_tmp_batch :: slice
  db_snapshots :: SnapshotList
  db_pending_outputs :: "u64 set"
  db_background_compaction_scheduled :: bool
  db_manual_compaction :: "ManualCompaction option"
  db_versions :: "'w VersionSet"
  db_bg_error :: Status
  db_stats :: "CompactionStats list"

text \<open>\<open>SanitizeOptions\<close> without the info log and the default block cache, which are not fields of the options here.\<close>

definition kNumNonTableCacheFiles :: nat where
  "kNumNonTableCacheFiles = 10"

definition ClipToRange :: "nat \<Rightarrow> nat \<Rightarrow> nat \<Rightarrow> nat" where
  "ClipToRange v minvalue maxvalue =
     (let v = (if v > maxvalue then maxvalue else v) in if v < minvalue then minvalue else v)"

definition SanitizeOptions :: "Options \<Rightarrow> Options" where
  "SanitizeOptions src =
     src\<lparr> opt_comparator := InternalKeyComparator (opt_comparator src),
          opt_filter_policy := map_option InternalFilterPolicy (opt_filter_policy src),
          max_open_files := ClipToRange (max_open_files src) (64 + kNumNonTableCacheFiles) 50000,
          write_buffer_size := ClipToRange (write_buffer_size src) 65536 1073741824,
          max_file_size := ClipToRange (max_file_size src) 1048576 1073741824,
          block_size := ClipToRange (block_size src) 1024 4194304 \<rparr>"

definition TableCacheSize :: "Options \<Rightarrow> nat" where
  "TableCacheSize sanitized_options = max_open_files sanitized_options - kNumNonTableCacheFiles"

definition DBImpl_new :: "Options \<Rightarrow> slice \<Rightarrow> 'w DBImpl" where
  "DBImpl_new raw_options dbname =
     (let options = SanitizeOptions raw_options
      in \<lparr> db_user_comparator = opt_comparator raw_options, db_options = options, db_dbname = dbname, db_locked = False,
           db_shutting_down = False, db_mem = None, db_imm = None, db_has_imm = False, db_logfile_number = 0, db_log = None,
           db_seed = 0, db_writers = [], db_tmp_batch = WriteBatch_Clear, db_snapshots = SnapshotList_new,
           db_pending_outputs = {}, db_background_compaction_scheduled = False, db_manual_compaction = None,
           db_versions = VersionSet_new dbname options, db_bg_error = OK,
           db_stats = replicate kNumLevels CompactionStats_new \<rparr>)"

section \<open>Definitions: errors, scheduling, obsolete files\<close>

definition RecordBackgroundError :: "Status \<Rightarrow> 'w DBImpl \<Rightarrow> 'w DBImpl" where
  "RecordBackgroundError s db = (if ok (db_bg_error db) then db\<lparr> db_bg_error := s \<rparr> else db)"

definition MaybeScheduleCompaction :: "'w DBImpl \<Rightarrow> 'w DBImpl" where
  "MaybeScheduleCompaction db =
     (if db_background_compaction_scheduled db then db
      else if db_shutting_down db then db
      else if \<not> ok (db_bg_error db) then db
      else if db_imm db = None \<and> db_manual_compaction db = None \<and> \<not> NeedsCompaction (db_versions db) then db
      else db\<lparr> db_background_compaction_scheduled := True \<rparr>)"

text \<open>The \<open>switch\<close> of \<open>RemoveObsoleteFiles\<close>.\<close>

definition keep_file :: "'w VersionSet \<Rightarrow> u64 set \<Rightarrow> u64 \<Rightarrow> FileType \<Rightarrow> bool" where
  "keep_file vs live number type =
     (case type of
        kLogFile \<Rightarrow> number \<ge> vs_log_number vs \<or> number = vs_prev_log_number vs
      | kDescriptorFile \<Rightarrow> number \<ge> vs_manifest_file_number vs
      | kTableFile \<Rightarrow> number \<in> live
      | kTempFile \<Rightarrow> number \<in> live
      | kCurrentFile \<Rightarrow> True
      | kDBLockFile \<Rightarrow> True
      | kInfoLogFile \<Rightarrow> True)"

definition obsolete :: "'w VersionSet \<Rightarrow> u64 set \<Rightarrow> slice \<Rightarrow> bool" where
  "obsolete vs live filename =
     (case ParseFileName filename of None \<Rightarrow> False | Some (number, type) \<Rightarrow> \<not> keep_file vs live number type)"

text \<open>\<open>TableCache::Evict\<close> of the deleted tables does not change what the table cache answers.\<close>

definition RemoveObsoleteFiles :: "('e, 'f, 'w) System \<Rightarrow> 'w DBImpl \<Rightarrow> 'e \<Rightarrow> 'e" where
  "RemoveObsoleteFiles sys db e =
     (if \<not> ok (db_bg_error db) then e
      else
        (let live = AddLiveFiles (db_pending_outputs db) (db_versions db);
             filenames = snd (env_GetChildren (sys_env sys) (db_dbname db) e);
             files_to_delete = filter (obsolete (db_versions db) live) filenames
         in fold (\<lambda>filename e. snd (env_RemoveFile (sys_env sys) (db_dbname db @ ascii ''/'' @ filename) e)) files_to_delete e))"

section \<open>Definitions: building a table\<close>

partial_function (option) BuildTable_loop ::
    "Codec \<Rightarrow> 'w WritableFile \<Rightarrow> 's Iterator \<Rightarrow> 's \<Rightarrow> slice \<Rightarrow> 'w TableBuilder \<Rightarrow> (slice \<times> 's \<times> 'w TableBuilder) option" where
  "BuildTable_loop C W I iter key b =
     (if it_Valid I iter
      then BuildTable_loop C W I (it_Next I iter) (it_key I iter) (TableBuilder_Add C W (it_key I iter) (it_value I iter) b)
      else Some (key, iter, b))"

text \<open>Writing the table into the new file: the steps between opening and checking it.\<close>

definition BuildTable_file ::
    "('e, 'f, 'w) System \<Rightarrow> Options \<Rightarrow> 's Iterator \<Rightarrow> 's \<Rightarrow> 'w \<Rightarrow> FileMetaData \<Rightarrow> 'e \<Rightarrow>
     (Status \<times> FileMetaData \<times> 's \<times> 'e) option" where
  "BuildTable_file sys options I iter w meta e =
     (let W = env_WF (sys_env sys);
          meta = meta\<lparr> f_smallest := it_key I iter \<rparr>
      in do {
           (key, iter, builder) \<leftarrow> BuildTable_loop (sys_codec sys) W I iter [] (TableBuilder_new options w);
           let meta = (if key \<noteq> [] then meta\<lparr> f_largest := key \<rparr> else meta);
           let (s, builder) = TableBuilder_Finish (sys_codec sys) W builder;
           let meta = (if ok s then meta\<lparr> f_file_size := FileSize builder \<rparr> else meta);
           let (s, w) = (if ok s then WF_Sync W (tb_file builder) else (s, tb_file builder));
           let (s, w) = (if ok s then WF_Close W w else (s, w));
           let e = env_delete_WF (sys_env sys) w e;
           let s = (if ok s then sys_table_status sys (f_number meta) (f_file_size meta) e else s);
           Some (s, meta, iter, e)
         })"

definition BuildTable ::
    "('e, 'f, 'w) System \<Rightarrow> slice \<Rightarrow> Options \<Rightarrow> 's Iterator \<Rightarrow> 's \<Rightarrow> FileMetaData \<Rightarrow> 'e \<Rightarrow> (Status \<times> FileMetaData \<times> 'e) option" where
  "BuildTable sys dbname options I iter meta e =
     (let meta = meta\<lparr> f_file_size := 0 \<rparr>;
          iter = it_SeekToFirst I iter;
          fname = TableFileName dbname (f_number meta);
          finish = (\<lambda>s meta iter e.
            (let s = (if \<not> ok (it_status I iter) then it_status I iter else s)
             in if ok s \<and> f_file_size meta > 0 then (s, meta, e) else (s, meta, snd (env_RemoveFile (sys_env sys) fname e))))
      in if it_Valid I iter then
           (case env_NewWritableFile (sys_env sys) fname e of
              (s, w, e) \<Rightarrow>
                if \<not> ok s then Some (s, meta, e)
                else map_option (\<lambda>(s, meta, iter, e). finish s meta iter e) (BuildTable_file sys options I iter w meta e))
         else Some (finish OK meta iter e))"

section \<open>Definitions: memtable compaction\<close>

definition add_stats :: "nat \<Rightarrow> CompactionStats \<Rightarrow> 'w DBImpl \<Rightarrow> 'w DBImpl" where
  "add_stats level stats db = db\<lparr> db_stats := (db_stats db)[level := CompactionStats_Add (db_stats db ! level) stats] \<rparr>"

definition WriteLevel0Table ::
    "('e, 'f, 'w) System \<Rightarrow> MemTable \<Rightarrow> VersionEdit \<Rightarrow> Version option \<Rightarrow> 'w DBImpl \<Rightarrow> 'e \<Rightarrow>
     (Status \<times> VersionEdit \<times> 'w DBImpl \<times> 'e) option" where
  "WriteLevel0Table sys mem edit base db e =
     (let (number, vs) = NewFileNumber (db_versions db);
          meta = FileMetaData_new\<lparr> f_number := number \<rparr>;
          db = db\<lparr> db_versions := vs, db_pending_outputs := insert number (db_pending_outputs db) \<rparr>
      in do {
           (s, meta, e) \<leftarrow> BuildTable sys (db_dbname db) (db_options db) MemTableIterator (MemTable_NewIterator mem) meta e;
           let db = db\<lparr> db_pending_outputs := db_pending_outputs db - {number} \<rparr>;
           (level, edit) \<leftarrow>
             (if ok s \<and> f_file_size meta > 0 then do {
                level \<leftarrow> (case base of
                            None \<Rightarrow> Some 0
                          | Some v \<Rightarrow> PickLevelForMemTableOutput (db_user_comparator db) (db_options db) v
                                       (InternalKey_user_key (f_smallest meta)) (InternalKey_user_key (f_largest meta)));
                Some (level, VersionEdit_AddFile level (f_number meta) (f_file_size meta) (f_smallest meta) (f_largest meta) edit)
              }
              else Some (0, edit));
           Some (s, edit, add_stats level (CompactionStats_new\<lparr> st_bytes_written := f_file_size meta \<rparr>) db, e)
         })"

text \<open>The references that are taken and dropped on the current version and the memtable cancel out.\<close>

definition CompactMemTable :: "('e, 'f, 'w) System \<Rightarrow> 'w DBImpl \<Rightarrow> 'e \<Rightarrow> ('w DBImpl \<times> 'e) option" where
  "CompactMemTable sys db e = do {
     (s, edit, db, e) \<leftarrow> WriteLevel0Table sys (the (db_imm db)) VersionEdit_new (Some (vs_current (db_versions db))) db e;
     let s = (if ok s \<and> db_shutting_down db then IOError (ascii ''Deleting DB during memtable compaction'') [] else s);
     let (s, vs, e) =
       (if ok s then
          (let edit = SetLogNumber (db_logfile_number db) (SetPrevLogNumber 0 edit);
               (s, edit, vs, e) = LogAndApply (sys_env sys) (db_user_comparator db) edit (db_versions db) e
           in (s, vs, e))
        else (s, db_versions db, e));
     let db = db\<lparr> db_versions := vs \<rparr>;
     Some (if ok s then
             (let db = db\<lparr> db_imm := None, db_has_imm := False \<rparr> in (db, RemoveObsoleteFiles sys db e))
           else (RecordBackgroundError s db, e))
   }"

end
