(* ===== verification/DbCompaction.thy ===== *)
theory DbCompaction
  imports DbImpl VersionGet
begin

text \<open>
  Running a compaction (\<open>db/db_impl.cc\<close>): \<open>DoCompactionWork\<close>, its output files, and the background thread's
  entry points.  The mutex is released while entries are copied; \<open>others n\<close> is what the other threads
  do to the database before the \<open>n\<close>-th entry.  The input iterator of \<open>MakeInputIterator\<close> is a parameter.
\<close>

section \<open>Definitions: the state of a compaction\<close>

record Output =
  out_number :: u64
  out_file_size :: u64
  out_smallest :: InternalKey
  out_largest :: InternalKey

text \<open>While there is a builder, it holds \<open>outfile\<close>.\<close>

record 'w CompactionState =
  cs_compaction :: Compaction
  cs_smallest_snapshot :: SequenceNumber
  cs_outputs :: "Output list"
  cs_builder :: "'w TableBuilder option"
  cs_total_bytes :: u64

definition CompactionState_new :: "Compaction \<Rightarrow> 'w CompactionState" where
  "CompactionState_new cp =
     \<lparr> cs_compaction = cp, cs_smallest_snapshot = 0, cs_outputs = [], cs_builder = None, cs_total_bytes = 0 \<rparr>"

definition current_output :: "'w CompactionState \<Rightarrow> Output" where
  "current_output cs = last (cs_outputs cs)"

definition with_current_output :: "(Output \<Rightarrow> Output) \<Rightarrow> 'w CompactionState \<Rightarrow> 'w CompactionState" where
  "with_current_output f cs = cs\<lparr> cs_outputs := butlast (cs_outputs cs) @ [f (current_output cs)] \<rparr>"

definition CleanupCompaction ::
    "('e, 'f, 'w) System \<Rightarrow> 'w CompactionState \<Rightarrow> 'w DBImpl \<Rightarrow> 'e \<Rightarrow> 'w DBImpl \<times> 'e" where
  "CleanupCompaction sys cs db e =
     (db\<lparr> db_pending_outputs := fold (\<lambda>out pending. pending - {out_number out}) (cs_outputs cs) (db_pending_outputs db) \<rparr>,
      case cs_builder cs of None \<Rightarrow> e | Some b \<Rightarrow> env_delete_WF (sys_env sys) (tb_file (TableBuilder_Abandon b)) e)"

definition OpenCompactionOutputFile ::
    "('e, 'f, 'w) System \<Rightarrow> 'w CompactionState \<Rightarrow> 'w DBImpl \<Rightarrow> 'e \<Rightarrow> Status \<times> 'w CompactionState \<times> 'w DBImpl \<times> 'e" where
  "OpenCompactionOutputFile sys cs db e =
     (let (file_number, vs) = NewFileNumber (db_versions db);
          db = db\<lparr> db_versions := vs, db_pending_outputs := insert file_number (db_pending_outputs db) \<rparr>;
          out = \<lparr> out_number = file_number, out_file_size = 0, out_smallest = [], out_largest = [] \<rparr>;
          cs = cs\<lparr> cs_outputs := cs_outputs cs @ [out] \<rparr>;
          fname = TableFileName (db_dbname db) file_number
      in case env_NewWritableFile (sys_env sys) fname e of
           (s, w, e) \<Rightarrow>
             (s, if ok s then cs\<lparr> cs_builder := Some (TableBuilder_new (db_options db) w) \<rparr> else cs, db, e))"

definition FinishCompactionOutputFile ::
    "('e, 'f, 'w) System \<Rightarrow> Status \<Rightarrow> 'w CompactionState \<Rightarrow> 'e \<Rightarrow> Status \<times> 'w CompactionState \<times> 'e" where
  "FinishCompactionOutputFile sys input_status cs e =
     (let W = env_WF (sys_env sys);
          builder = the (cs_builder cs);
          output_number = out_number (current_output cs);
          current_entries = NumEntries builder;
          (s, builder) = (if ok input_status then TableBuilder_Finish (sys_codec sys) W builder
                          else (input_status, TableBuilder_Abandon builder));
          current_bytes = FileSize builder;
          cs = with_current_output (\<lambda>out. out\<lparr> out_file_size := current_bytes \<rparr>) cs;
          cs = cs\<lparr> cs_total_bytes := cs_total_bytes cs + current_bytes, cs_builder := None \<rparr>;
          (s, w) = (if ok s then WF_Sync W (tb_file builder) else (s, tb_file builder));
          (s, w) = (if ok s then WF_Close W w else (s, w));
          e = env_delete_WF (sys_env sys) w e;
          s = (if ok s \<and> current_entries > 0 then sys_table_status sys output_number current_bytes e else s)
      in (s, cs, e))"

definition InstallCompactionResults ::
    "('e, 'f, 'w) System \<Rightarrow> 'w CompactionState \<Rightarrow> 'w DBImpl \<Rightarrow> 'e \<Rightarrow> Status \<times> 'w CompactionState \<times> 'w DBImpl \<times> 'e" where
  "InstallCompactionResults sys cs db e =
     (let cp = cs_compaction cs;
          edit = AddInputDeletions cp (cp_edit cp);
          edit = fold (\<lambda>out. VersionEdit_AddFile (cp_level cp + 1) (out_number out) (out_file_size out)
                               (out_smallest out) (out_largest out)) (cs_outputs cs) edit;
          (s, edit, vs, e) = LogAndApply (sys_env sys) (db_user_comparator db) edit (db_versions db) e
      in (s, cs\<lparr> cs_compaction := cp\<lparr> cp_edit := edit \<rparr> \<rparr>, db\<lparr> db_versions := vs \<rparr>, e))"

section \<open>Definitions: DoCompactionWork\<close>

text \<open>The local variables about the current user key.\<close>

record KeyState =
  ks_has_current_user_key :: bool
  ks_current_user_key :: slice
  ks_last_sequence_for_key :: SequenceNumber

definition KeyState_new :: KeyState where
  "KeyState_new = \<lparr> ks_has_current_user_key = False, ks_current_user_key = [], ks_last_sequence_for_key = kMaxSequenceNumber \<rparr>"

text \<open>Whether the entry with this key is dropped.\<close>

definition compaction_drop ::
    "Comparator \<Rightarrow> SequenceNumber \<Rightarrow> slice \<Rightarrow> KeyState \<Rightarrow> Compaction \<Rightarrow> bool \<times> KeyState \<times> Compaction" where
  "compaction_drop ucmp smallest_snapshot key ks cp =
     (case ParseInternalKey key of
        None \<Rightarrow> (False, KeyState_new, cp)
      | Some ikey \<Rightarrow>
          (let ks = (if \<not> ks_has_current_user_key ks \<or> Compare ucmp (user_key ikey) (ks_current_user_key ks) \<noteq> 0
                     then \<lparr> ks_has_current_user_key = True, ks_current_user_key = user_key ikey,
                            ks_last_sequence_for_key = kMaxSequenceNumber \<rparr>
                     else ks);
               (drop_entry, cp) =
                 (if ks_last_sequence_for_key ks \<le> smallest_snapshot then (True, cp)
                  else if ikey_type ikey = kTypeDeletion \<and> sequence ikey \<le> smallest_snapshot
                  then IsBaseLevelForKey ucmp (user_key ikey) cp
                  else (False, cp))
           in (drop_entry, ks\<lparr> ks_last_sequence_for_key := sequence ikey \<rparr>, cp)))"

text \<open>Writing an entry that is kept: opening an output file if there is none, closing it when it is full.\<close>

definition compaction_emit ::
    "('e, 'f, 'w) System \<Rightarrow> slice \<Rightarrow> slice \<Rightarrow> Status \<Rightarrow> 'w CompactionState \<Rightarrow> 'w DBImpl \<Rightarrow> 'e \<Rightarrow>
     Status \<times> 'w CompactionState \<times> 'w DBImpl \<times> 'e" where
  "compaction_emit sys key val input_status cs db e =
     (let (s, cs, db, e) = (if cs_builder cs = None then OpenCompactionOutputFile sys cs db e else (OK, cs, db, e))
      in if \<not> ok s then (s, cs, db, e)
         else
           (let b = the (cs_builder cs);
                cs = (if NumEntries b = 0 then with_current_output (\<lambda>out. out\<lparr> out_smallest := key \<rparr>) cs else cs);
                cs = with_current_output (\<lambda>out. out\<lparr> out_largest := key \<rparr>) cs;
                b = TableBuilder_Add (sys_codec sys) (env_WF (sys_env sys)) key val b;
                cs = cs\<lparr> cs_builder := Some b \<rparr>
            in if FileSize b \<ge> of_int (cp_max_output_file_size (cs_compaction cs))
               then (case FinishCompactionOutputFile sys input_status cs e of (s, cs, e) \<Rightarrow> (s, cs, db, e))
               else (OK, cs, db, e)))"

text \<open>One iteration; a status that is not OK leaves the loop.\<close>

definition compaction_step ::
    "('e, 'f, 'w) System \<Rightarrow> 's Iterator \<Rightarrow> 's \<Rightarrow> 'w CompactionState \<Rightarrow> KeyState \<Rightarrow> 'w DBImpl \<Rightarrow> 'e \<Rightarrow>
     (Status \<times> 'w CompactionState \<times> KeyState \<times> 'w DBImpl \<times> 'e) option" where
  "compaction_step sys I input cs ks db e = do {
     (db, e) \<leftarrow> (if db_has_imm db \<and> db_imm db \<noteq> None then CompactMemTable sys db e else Some (db, e));
     let ucmp = db_user_comparator db;
     let key = it_key I input;
     let (stop, cp) = ShouldStopBefore ucmp (db_options db) key (cs_compaction cs);
     let cs = cs\<lparr> cs_compaction := cp \<rparr>;
     let (s, cs, e) = (if stop \<and> cs_builder cs \<noteq> None then FinishCompactionOutputFile sys (it_status I input) cs e
                       else (OK, cs, e));
     Some (if \<not> ok s then (s, cs, ks, db, e)
           else
             (let (drop_entry, ks, cp) = compaction_drop ucmp (cs_smallest_snapshot cs) key ks (cs_compaction cs);
                  cs = cs\<lparr> cs_compaction := cp \<rparr>
              in if drop_entry then (OK, cs, ks, db, e)
                 else (case compaction_emit sys key (it_value I input) (it_status I input) cs db e of
                         (s, cs, db, e) \<Rightarrow> (s, cs, ks, db, e))))
   }"

partial_function (option) compaction_loop ::
    "('e, 'f, 'w) System \<Rightarrow> (nat \<Rightarrow> 'w DBImpl \<times> 'e \<Rightarrow> 'w DBImpl \<times> 'e) \<Rightarrow> 's Iterator \<Rightarrow> nat \<Rightarrow> 's \<Rightarrow> 'w CompactionState \<Rightarrow>
     KeyState \<Rightarrow> 'w DBImpl \<Rightarrow> 'e \<Rightarrow> (Status \<times> 's \<times> 'w CompactionState \<times> 'w DBImpl \<times> 'e) option" where
  "compaction_loop sys others I n input cs ks db e =
     (case others n (db, e) of
        (db, e) \<Rightarrow>
          if \<not> it_Valid I input \<or> db_shutting_down db then Some (OK, input, cs, db, e)
          else
            (case compaction_step sys I input cs ks db e of
               None \<Rightarrow> None
             | Some (s, cs, ks, db, e) \<Rightarrow>
                 if \<not> ok s then Some (s, input, cs, db, e)
                 else compaction_loop sys others I (n + 1) (it_Next I input) cs ks db e))"

definition compaction_stats :: "'w CompactionState \<Rightarrow> CompactionStats" where
  "compaction_stats cs =
     \<lparr> st_bytes_read = sum_list (map f_file_size (cp_inputs0 (cs_compaction cs) @ cp_inputs1 (cs_compaction cs))),
       st_bytes_written = sum_list (map out_file_size (cs_outputs cs)) \<rparr>"

definition smallest_snapshot :: "'w DBImpl \<Rightarrow> SequenceNumber" where
  "smallest_snapshot db =
     (if Snapshot_empty (db_snapshots db) then vs_last_sequence (db_versions db)
      else sequence_number (Snapshot_oldest (db_snapshots db)))"

text \<open>Copying the entries into output files, up to where the mutex is taken again.\<close>

definition compaction_copy ::
    "('e, 'f, 'w) System \<Rightarrow> (nat \<Rightarrow> 'w DBImpl \<times> 'e \<Rightarrow> 'w DBImpl \<times> 'e) \<Rightarrow> 's Iterator \<Rightarrow> 's \<Rightarrow>
     'w CompactionState \<Rightarrow> 'w DBImpl \<Rightarrow> 'e \<Rightarrow> (Status \<times> 'w CompactionState \<times> 'w DBImpl \<times> 'e) option" where
  "compaction_copy sys others I input cs db e = do {
     (s, input, cs, db, e) \<leftarrow> compaction_loop sys others I 0 (it_SeekToFirst I input) cs KeyState_new db e;
     let s = (if ok s \<and> db_shutting_down db then IOError (ascii ''Deleting DB during compaction'') [] else s);
     let (s, cs, e) = (if ok s \<and> cs_builder cs \<noteq> None then FinishCompactionOutputFile sys (it_status I input) cs e
                       else (s, cs, e));
     Some (if ok s then it_status I input else s, cs, db, e)
   }"

definition DoCompactionWork ::
    "('e, 'f, 'w) System \<Rightarrow> (nat \<Rightarrow> 'w DBImpl \<times> 'e \<Rightarrow> 'w DBImpl \<times> 'e) \<Rightarrow> 's Iterator \<Rightarrow> (Compaction \<Rightarrow> 'e \<Rightarrow> 's) \<Rightarrow>
     'w CompactionState \<Rightarrow> 'w DBImpl \<Rightarrow> 'e \<Rightarrow> (Status \<times> 'w CompactionState \<times> 'w DBImpl \<times> 'e) option" where
  "DoCompactionWork sys others I make_input cs db e = do {
     let cs = cs\<lparr> cs_smallest_snapshot := smallest_snapshot db \<rparr>;
     (s, cs, db, e) \<leftarrow> compaction_copy sys others I (make_input (cs_compaction cs) e) cs db e;
     let db = add_stats (cp_level (cs_compaction cs) + 1) (compaction_stats cs) db;
     let (s, cs, db, e) = (if ok s then InstallCompactionResults sys cs db e else (s, cs, db, e));
     Some (s, cs, if \<not> ok s then RecordBackgroundError s db else db, e)
   }"

section \<open>Definitions: the background thread\<close>

text \<open>Dropping a reference to a version: the first of the live versions with these files.\<close>

fun unref_version :: "Version \<Rightarrow> Version list \<Rightarrow> Version list" where
  "unref_version v [] = []"
| "unref_version v (x # xs) =
     (if v_files x = v_files v then (case Version_Unref x of None \<Rightarrow> xs | Some x \<Rightarrow> x # xs) else x # unref_version v xs)"

definition release_inputs :: "Compaction \<Rightarrow> 'w DBImpl \<Rightarrow> 'w DBImpl" where
  "release_inputs cp db =
     (case cp_input_version cp of
        None \<Rightarrow> db
      | Some v \<Rightarrow> db\<lparr> db_versions := (db_versions db)\<lparr> vs_versions := unref_version v (vs_versions (db_versions db)) \<rparr> \<rparr>)"

definition trivial_move :: "('e, 'f, 'w) System \<Rightarrow> Compaction \<Rightarrow> 'w DBImpl \<Rightarrow> 'e \<Rightarrow> Status \<times> 'w DBImpl \<times> 'e" where
  "trivial_move sys cp db e =
     (let f = hd (cp_inputs0 cp);
          edit = VersionEdit_RemoveFile (cp_level cp) (f_number f) (cp_edit cp);
          edit = VersionEdit_AddFile (cp_level cp + 1) (f_number f) (f_file_size f) (f_smallest f) (f_largest f) edit;
          (s, edit, vs, e) = LogAndApply (sys_env sys) (db_user_comparator db) edit (db_versions db) e;
          db = db\<lparr> db_versions := vs \<rparr>
      in (s, if \<not> ok s then RecordBackgroundError s db else db, e))"

definition full_compaction ::
    "('e, 'f, 'w) System \<Rightarrow> (nat \<Rightarrow> 'w DBImpl \<times> 'e \<Rightarrow> 'w DBImpl \<times> 'e) \<Rightarrow> 's Iterator \<Rightarrow> (Compaction \<Rightarrow> 'e \<Rightarrow> 's) \<Rightarrow>
     Compaction \<Rightarrow> 'w DBImpl \<Rightarrow> 'e \<Rightarrow> (Status \<times> 'w DBImpl \<times> 'e) option" where
  "full_compaction sys others I make_input cp db e = do {
     (s, cs, db, e) \<leftarrow> DoCompactionWork sys others I make_input (CompactionState_new cp) db e;
     let db = (if \<not> ok s then RecordBackgroundError s db else db);
     let (db, e) = CleanupCompaction sys cs db e;
     let db = release_inputs cp db;
     Some (s, db, RemoveObsoleteFiles sys db e)
   }"

text \<open>The manual compaction belongs to the thread that asked for it: it is handed back.\<close>

definition BackgroundCompaction ::
    "('e, 'f, 'w) System \<Rightarrow> (nat \<Rightarrow> 'w DBImpl \<times> 'e \<Rightarrow> 'w DBImpl \<times> 'e) \<Rightarrow> 's Iterator \<Rightarrow> (Compaction \<Rightarrow> 'e \<Rightarrow> 's) \<Rightarrow>
     'w DBImpl \<Rightarrow> 'e \<Rightarrow> ('w DBImpl \<times> 'e \<times> ManualCompaction option) option" where
  "BackgroundCompaction sys others I make_input db e =
     (if db_imm db \<noteq> None
      then map_option (\<lambda>(db, e). (db, e, db_manual_compaction db)) (CompactMemTable sys db e)
      else do {
        let ucmp = db_user_comparator db;
        let manual = db_manual_compaction db;
        (c, vs) \<leftarrow> (case manual of
                     Some m \<Rightarrow> CompactRange ucmp (mc_level m) (mc_begin m) (mc_end m) (db_versions db)
                   | None \<Rightarrow> PickCompaction ucmp (db_versions db));
        let db = db\<lparr> db_versions := vs \<rparr>;
        (s, db, e) \<leftarrow> (case c of
                        None \<Rightarrow> Some (OK, db, e)
                      | Some cp \<Rightarrow>
                          if manual = None \<and> IsTrivialMove (db_options db) cp
                          then (case trivial_move sys cp db e of (s, db, e) \<Rightarrow> Some (s, release_inputs cp db, e))
                          else full_compaction sys others I make_input cp db e);
        Some (db\<lparr> db_manual_compaction := None \<rparr>, e,
              map_option (\<lambda>m. if \<not> ok s \<or> c = None then m\<lparr> mc_done := True \<rparr>
                              else m\<lparr> mc_done := False, mc_begin := Some (f_largest (last (cp_inputs0 (the c)))) \<rparr>) manual)
      })"

definition BackgroundCall ::
    "('e, 'f, 'w) System \<Rightarrow> (nat \<Rightarrow> 'w DBImpl \<times> 'e \<Rightarrow> 'w DBImpl \<times> 'e) \<Rightarrow> 's Iterator \<Rightarrow> (Compaction \<Rightarrow> 'e \<Rightarrow> 's) \<Rightarrow>
     'w DBImpl \<Rightarrow> 'e \<Rightarrow> ('w DBImpl \<times> 'e \<times> ManualCompaction option) option" where
  "BackgroundCall sys others I make_input db e = do {
     (db, e, manual) \<leftarrow>
       (if db_shutting_down db \<or> \<not> ok (db_bg_error db) then Some (db, e, db_manual_compaction db)
        else BackgroundCompaction sys others I make_input db e);
     Some (MaybeScheduleCompaction (db\<lparr> db_background_compaction_scheduled := False \<rparr>), e, manual)
   }"

end
