(* ===== verification/CompactionReads.thy ===== *)
theory CompactionReads
  imports DbCompaction
begin

text \<open>
  Which entries a compaction keeps, and that no lookup can tell: at every snapshot that is still in use a
  lookup has the same result before and after.
\<close>

section \<open>The entries that are kept\<close>

text \<open>
  The decisions that \<open>compaction_loop\<close> takes for the entries \<open>es\<close> in turn; \<open>ShouldStopBefore\<close> runs before each
  and also changes the compaction.
\<close>

fun kept_entries :: "Comparator \<Rightarrow> Options \<Rightarrow> SequenceNumber \<Rightarrow> mem_entry list \<Rightarrow> KeyState \<Rightarrow> Compaction \<Rightarrow> mem_entry list" where
  "kept_entries c options snap [] ks cp = []"
| "kept_entries c options snap (e # es) ks cp =
     (case compaction_drop c snap (entry_ikey e) ks (snd (ShouldStopBefore c options (entry_ikey e) cp)) of
        (drop_entry, ks, cp) \<Rightarrow>
          if drop_entry then kept_entries c options snap es ks cp else e # kept_entries c options snap es ks cp)"

lemma skip_grandparents_keeps:
  "cp_level (skip_grandparents c k cp) = cp_level cp" "cp_input_version (skip_grandparents c k cp) = cp_input_version cp"
  "cp_level_ptrs (skip_grandparents c k cp) = cp_level_ptrs cp"
  by (induction c k cp rule: skip_grandparents.induct; subst skip_grandparents.simps; simp add: Let_def)+

lemma ShouldStopBefore_keeps:
  "cp_level (snd (ShouldStopBefore c options k cp)) = cp_level cp"
  "cp_input_version (snd (ShouldStopBefore c options k cp)) = cp_input_version cp"
  "cp_level_ptrs (snd (ShouldStopBefore c options k cp)) = cp_level_ptrs cp"
  by (simp_all add: ShouldStopBefore_def Let_def skip_grandparents_keeps)

text \<open>No file below the output level has the user key in its range.\<close>

definition base_level :: "Comparator \<Rightarrow> Version \<Rightarrow> nat \<Rightarrow> slice \<Rightarrow> bool" where
  "base_level c v level u \<longleftrightarrow>
     (\<forall>l. level + 2 \<le> l \<longrightarrow> l < kNumLevels \<longrightarrow> (\<forall>f \<in> set (v_files v ! l). \<not> in_file_range c u f))"

text \<open>The decision for an entry, from the entry before it.\<close>

definition dropped :: "Comparator \<Rightarrow> SequenceNumber \<Rightarrow> Version \<Rightarrow> nat \<Rightarrow> mem_entry option \<Rightarrow> mem_entry \<Rightarrow> bool" where
  "dropped c snap v level before e \<longleftrightarrow>
     (case before of None \<Rightarrow> False
      | Some b \<Rightarrow> Compare c (user_key (fst e)) (user_key (fst b)) = 0 \<and> sequence (fst b) \<le> snap) \<or>
     ikey_type (fst e) = kTypeDeletion \<and> sequence (fst e) \<le> snap \<and> base_level c v level (user_key (fst e))"

fun survivors :: "Comparator \<Rightarrow> SequenceNumber \<Rightarrow> Version \<Rightarrow> nat \<Rightarrow> mem_entry option \<Rightarrow> mem_entry list \<Rightarrow> mem_entry list" where
  "survivors c snap v level before [] = []"
| "survivors c snap v level before (e # es) =
     (if dropped c snap v level before e then survivors c snap v level (Some e) es
      else e # survivors c snap v level (Some e) es)"

text \<open>The state of the loop after the entry \<open>before\<close>.\<close>

definition loop_at :: "Comparator \<Rightarrow> Version \<Rightarrow> nat \<Rightarrow> mem_entry option \<Rightarrow> KeyState \<Rightarrow> Compaction \<Rightarrow> bool" where
  "loop_at c v level before ks cp \<longleftrightarrow>
     cp_level cp = level \<and> cp_input_version cp = Some v \<and>
     (case before of
        None \<Rightarrow> ks = KeyState_new \<and> cp_level_ptrs cp = replicate kNumLevels 0
      | Some b \<Rightarrow> ks_has_current_user_key ks \<and> Compare c (ks_current_user_key ks) (user_key (fst b)) = 0 \<and>
                  ks_last_sequence_for_key ks = sequence (fst b) \<and>
                  base_ptrs_ok c (user_key (fst b)) v level (cp_level_ptrs cp))"

definition deep_sorted :: "Comparator \<Rightarrow> Version \<Rightarrow> nat \<Rightarrow> bool" where
  "deep_sorted c v level \<longleftrightarrow> (\<forall>l. level + 2 \<le> l \<longrightarrow> l < kNumLevels \<longrightarrow> level_sorted c (v_files v ! l))"

context internal_order
begin

lemma base_ptrs_at:
  assumes "loop_at c v level before ks cp"
    and "\<And>b. before = Some b \<Longrightarrow> Compare c (user_key (fst b)) u \<le> 0"
  shows "base_ptrs_ok c u v level (cp_level_ptrs cp)"
proof (cases before)
  case None
  then show ?thesis using assms(1) by (auto simp: loop_at_def base_ptrs_ok_def passed_def)
next
  case (Some b)
  then show ?thesis using assms passed_mono unfolding loop_at_def base_ptrs_ok_def by fastforce
qed

lemma drop_decision:
  assumes at: "loop_at c v level before ks cp" and seq: "sequence (fst e) \<le> kMaxSequenceNumber" and snap: "snap < kMaxSequenceNumber"
    and deep: "deep_sorted c v level"
    and ord: "\<And>b. before = Some b \<Longrightarrow> Compare c (user_key (fst b)) (user_key (fst e)) \<le> 0"
  obtains ks' cp' where "compaction_drop c snap (entry_ikey e) ks cp = (dropped c snap v level before e, ks', cp')"
    "loop_at c v level (Some e) ks' cp'"
proof -
  let ?u = "user_key (fst e)"
  have parse: "ParseInternalKey (entry_ikey e) = Some (fst e)" using entry_ikey_parse [OF seq] .
  note ptrs = base_ptrs_at [OF at ord]
  have cp: "cp_level cp = level" "cp_input_version cp = Some v" using at by (auto simp: loop_at_def)
  have base: "fst (IsBaseLevelForKey c ?u cp) = base_level c v level ?u"
    "\<exists>ptrs. snd (IsBaseLevelForKey c ?u cp) = cp\<lparr> cp_level_ptrs := ptrs \<rparr> \<and> base_ptrs_ok c ?u v level ptrs"
    using IsBaseLevelForKey_result [OF cp(2), of ?u] deep ptrs cp(1) by (auto simp: base_level_def deep_sorted_def)
  define ks1 where "ks1 = (if \<not> ks_has_current_user_key ks \<or> Compare c ?u (ks_current_user_key ks) \<noteq> 0
      then \<lparr> ks_has_current_user_key = True, ks_current_user_key = ?u, ks_last_sequence_for_key = kMaxSequenceNumber \<rparr> else ks)"
  have same: "Compare c ?u (ks_current_user_key ks) = 0 \<longleftrightarrow> Compare c ?u (user_key (fst b)) = 0" if "before = Some b" for b
  proof -
    have "Compare c (ks_current_user_key ks) (user_key (fst b)) = 0" using at that by (simp add: loop_at_def)
    then show ?thesis using user.cmp_zero_trans user.cmp_zero_sym by blast
  qed
  have hidden: "ks_last_sequence_for_key ks1 \<le> snap \<longleftrightarrow>
      (case before of None \<Rightarrow> False | Some b \<Rightarrow> Compare c ?u (user_key (fst b)) = 0 \<and> sequence (fst b) \<le> snap)"
    using at same snap by (cases before) (auto simp: ks1_def loop_at_def KeyState_new_def)
  have ks1: "ks_has_current_user_key ks1" "Compare c (ks_current_user_key ks1) ?u = 0"
    using user.cmp_zero_sym by (auto simp: ks1_def user.cmp_refl)
  obtain ptrs where p: "IsBaseLevelForKey c ?u cp = (base_level c v level ?u, cp\<lparr> cp_level_ptrs := ptrs \<rparr>)"
    "base_ptrs_ok c ?u v level ptrs"
    using base by (cases "IsBaseLevelForKey c ?u cp") auto
  define cp' where "cp' = (if \<not> ks_last_sequence_for_key ks1 \<le> snap \<and> ikey_type (fst e) = kTypeDeletion \<and> sequence (fst e) \<le> snap
      then cp\<lparr> cp_level_ptrs := ptrs \<rparr> else cp)"
  have cp': "(if ks_last_sequence_for_key ks1 \<le> snap then (True, cp)
      else if ikey_type (fst e) = kTypeDeletion \<and> sequence (fst e) \<le> snap then IsBaseLevelForKey c ?u cp else (False, cp)) =
      (dropped c snap v level before e, cp')"
    unfolding dropped_def hidden [symmetric] cp'_def p(1) by auto
  have fields: "cp_level cp' = level" "cp_input_version cp' = Some v" "base_ptrs_ok c ?u v level (cp_level_ptrs cp')"
    using cp ptrs p(2) by (auto simp: cp'_def)
  have "compaction_drop c snap (entry_ikey e) ks cp =
      (dropped c snap v level before e, ks1\<lparr> ks_last_sequence_for_key := sequence (fst e) \<rparr>, cp')"
    unfolding compaction_drop_def parse option.case Let_def ks1_def [symmetric] cp' prod.case ..
  then show thesis by (rule that) (use fields ks1 in \<open>simp add: loop_at_def\<close>)
qed

lemma kept_survivors:
  assumes "loop_at c v level before ks cp" "\<forall>e \<in> set es. sequence (fst e) \<le> kMaxSequenceNumber"
    "snap < kMaxSequenceNumber" "deep_sorted c v level"
    and "sorted_wrt (\<lambda>a b. Compare c (user_key (fst a)) (user_key (fst b)) \<le> 0) (case before of None \<Rightarrow> es | Some b \<Rightarrow> b # es)"
  shows "kept_entries c options snap es ks cp = survivors c snap v level before es"
  using assms
proof (induction es arbitrary: before ks cp)
  case (Cons e es)
  let ?cp = "snd (ShouldStopBefore c options (entry_ikey e) cp)"
  have "loop_at c v level before ks ?cp" using Cons.prems(1) by (cases before) (simp_all add: loop_at_def ShouldStopBefore_keeps)
  moreover have "Compare c (user_key (fst b)) (user_key (fst e)) \<le> 0" if "before = Some b" for b
    using Cons.prems(5) that by simp
  ultimately obtain ks' cp' where d: "compaction_drop c snap (entry_ikey e) ks ?cp = (dropped c snap v level before e, ks', cp')"
    "loop_at c v level (Some e) ks' cp'" using drop_decision Cons.prems(2-4) by (metis list.set_intros(1))
  have "kept_entries c options snap es ks' cp' = survivors c snap v level (Some e) es"
    using Cons.IH [OF d(2)] Cons.prems by (auto split: option.splits)
  then show ?case using d(1) by simp
qed simp


section \<open>Lookups\<close>

lemma survivors_append:
  "survivors c snap v level before (pre @ e # post) =
     survivors c snap v level before pre @
     (if dropped c snap v level (if pre = [] then before else Some (last pre)) e then [] else [e]) @
     survivors c snap v level (Some e) post"
  by (induction pre arbitrary: before) auto

lemma set_survivors: "set (survivors c snap v level before es) \<subseteq> set es"
  by (induction es arbitrary: before) auto

text \<open>In sorted entries the versions of a user key are next to each other, from the newest to the oldest.\<close>

lemma sorted_entries:
  assumes "sorted_wrt (\<lambda>a b. entry_cmp c a b < 0) (pre @ e # post)" "\<forall>x \<in> set (pre @ e # post). sequence (fst x) \<le> kMaxSequenceNumber"
    and "x \<in> set post"
  shows "Compare c (user_key (fst e)) (user_key (fst x)) \<le> 0"
    "Compare c (user_key (fst e)) (user_key (fst x)) = 0 \<Longrightarrow> sequence (fst x) \<le> sequence (fst e)"
proof -
  have "entry_cmp c e x < 0" using assms(1,3) by (simp add: sorted_wrt_append)
  then show "Compare c (user_key (fst e)) (user_key (fst x)) \<le> 0"
    "Compare c (user_key (fst e)) (user_key (fst x)) = 0 \<Longrightarrow> sequence (fst x) \<le> sequence (fst e)"
    using InternalKey_Compare_packed [of "fst e" "fst x" c] assms(2,3) by (auto simp: entry_cmp_def entry_ikey_def)
qed

lemma sorted_user_keys:
  assumes "sorted_wrt (\<lambda>a b. entry_cmp c a b < 0) es" "\<forall>x \<in> set es. sequence (fst x) \<le> kMaxSequenceNumber"
  shows "sorted_wrt (\<lambda>a b. Compare c (user_key (fst a)) (user_key (fst b)) \<le> 0) es"
proof (rule sorted_wrt_mono_rel [OF _ assms(1)])
  show "Compare c (user_key (fst a)) (user_key (fst b)) \<le> 0" if "a \<in> set es" "b \<in> set es" "entry_cmp c a b < 0" for a b
    using that InternalKey_Compare_packed [of "fst a" "fst b" c] assms(2) by (auto simp: entry_cmp_def entry_ikey_def)
qed

text \<open>An entry between two versions of a user key is one, too.\<close>

lemma between_same:
  assumes "sorted_wrt (\<lambda>a b. Compare c (user_key (fst a)) (user_key (fst b)) \<le> 0) (pre @ e # post)" "x \<in> set pre"
    and "Compare c (user_key (fst x)) (user_key (fst e)) = 0"
  shows "Compare c (user_key (fst e)) (user_key (fst (last pre))) = 0" "Compare c (user_key (fst x)) (user_key (fst (last pre))) = 0"
proof -
  let ?C = "\<lambda>a b. Compare c (user_key (fst a)) (user_key (fst b))"
  have ne: "pre \<noteq> []" using assms(2) by auto
  have le: "?C (last pre) e \<le> 0" using assms(1) ne by (simp add: sorted_wrt_append)
  have "x \<in> set (butlast pre) \<or> x = last pre" using assms(2) ne by (cases pre rule: rev_cases) auto
  moreover have "sorted_wrt (\<lambda>a b. ?C a b \<le> 0) (butlast pre @ [last pre])" using assms(1) ne by (simp add: sorted_wrt_append)
  ultimately have xl: "?C x (last pre) \<le> 0" by (auto simp: sorted_wrt_append user.cmp_refl)
  have "?C e (last pre) \<le> 0" using user.cmp_trans xl assms(3) user.cmp_zero_sym by (metis order_refl)
  then show "?C e (last pre) = 0" using le user.cmp_le by (metis order_antisym)
  then show "?C x (last pre) = 0" using user.cmp_zero_trans assms(3) by blast
qed

lemma survivors_reads:
  assumes sorted: "sorted_wrt (\<lambda>a b. entry_cmp c a b < 0) es" and seqs: "\<forall>x \<in> set es. sequence (fst x) \<le> kMaxSequenceNumber"
    and inj: "inj_on (\<lambda>e. sequence (fst e)) (set es)" and nw: "newer c es older"
    and old: "\<forall>e \<in> set older. \<not> base_level c v level (user_key (fst e))" and s: "snap \<le> s"
  shows "get_result (newest c u s (survivors c snap v level None es @ older) None) = get_result (newest c u s (es @ older) None)"
proof -
  let ?K = "survivors c snap v level None es"
  note users = sorted_user_keys [OF sorted seqs]
  have nwK: "newer c ?K older" using newer_subset [OF nw set_survivors] by blast
  have injK: "inj_on (\<lambda>e. sequence (fst e)) (set ?K)" using inj_on_subset [OF inj set_survivors] .
  show ?thesis
  proof (cases "newest c u s es None")
    case None
    then have "\<forall>x \<in> set es. \<not> visible c u s x" using newest_None_iff by blast
    then have "\<forall>x \<in> set ?K. \<not> visible c u s x" using set_survivors by blast
    then have "newest c u s ?K None = None" using newest_None_iff by blast
    then show ?thesis using None unfolding newest_newer [OF nw] newest_newer [OF nwK] by simp
  next
    case (Some e)
    then have e: "e \<in> set es" "visible c u s e" using newest_in [OF Some] by auto
    have top: "sequence (fst x) \<le> sequence (fst e)" if "x \<in> set es" "visible c u s x" for x using newest_ge [OF Some] that by blast
    obtain pre post where split: "es = pre @ e # post" using e(1) split_list by metis
    let ?b = "if pre = [] then None else Some (last pre)"
    have K: "?K = survivors c snap v level None pre @ (if dropped c snap v level ?b e then [] else [e]) @ survivors c snap v level (Some e) post"
      unfolding split by (rule survivors_append)
    show ?thesis
    proof (cases "dropped c snap v level ?b e")
      case False
      then have "e \<in> set ?K" unfolding K by simp
      then have "newest c u s ?K None = Some e"
        using e(2) top injK set_survivors by (intro newest_unique) blast+
      then show ?thesis using Some unfolding newest_newer [OF nw] newest_newer [OF nwK] by simp
    next
      case True
      have "\<not> (pre \<noteq> [] \<and> Compare c (user_key (fst e)) (user_key (fst (last pre))) = 0 \<and> sequence (fst (last pre)) \<le> snap)"
      proof
        assume hid: "pre \<noteq> [] \<and> Compare c (user_key (fst e)) (user_key (fst (last pre))) = 0 \<and> sequence (fst (last pre)) \<le> snap"
        then have "visible c u s (last pre)"
          using e(2) s user.cmp_zero_trans user.cmp_zero_sym unfolding visible_def by (metis order_trans)
        then have "sequence (fst (last pre)) \<le> sequence (fst e)" using top hid split by simp
        moreover have "es = butlast pre @ last pre # (e # post)" using split hid by simp
        then have "sequence (fst e) \<le> sequence (fst (last pre))"
          using sorted_entries(2) [of "butlast pre" "last pre" "e # post" e] sorted seqs hid user.cmp_zero_sym by simp
        ultimately have "sequence (fst (last pre)) = sequence (fst e)" by simp
        moreover have "last pre \<in> set es" using hid split by simp
        ultimately have "last pre = e" using inj_onD [OF inj] e(1) by blast
        moreover have "entry_cmp c (last pre) e < 0" using sorted hid split by (simp add: sorted_wrt_append)
        ultimately show False using three_way.cmp_refl [OF internal_three_way] by (simp add: entry_cmp_def)
      qed
      then have d: "ikey_type (fst e) = kTypeDeletion" "sequence (fst e) \<le> snap" "base_level c v level (user_key (fst e))"
        using True by (auto simp: dropped_def split: if_splits)
      have "\<not> visible c u s x" if x: "x \<in> set ?K" for x
      proof
        assume vis: "visible c u s x"
        have "x \<in> set es" using x set_survivors by blast
        then obtain p q where pq: "es = p @ x # q" using split_list by metis
        have "distinct es" using sorted three_way.cmp_refl [OF internal_three_way]
          by (metis entry_cmp_def less_irrefl sorted_wrt_iff_nth_less distinct_conv_nth linorder_neqE_nat)
        then have "\<not> dropped c snap v level (if p = [] then None else Some (last p)) x"
          using x set_survivors [of snap v level None p] set_survivors [of snap v level "Some x" q]
          unfolding pq survivors_append by (auto split: if_splits)
        then have nd: "\<not> (p \<noteq> [] \<and> Compare c (user_key (fst x)) (user_key (fst (last p))) = 0 \<and> sequence (fst (last p)) \<le> snap)"
          by (auto simp: dropped_def)
        have xe: "x \<noteq> e" using x \<open>distinct es\<close> True set_survivors [of snap v level None pre] set_survivors [of snap v level "Some e" post]
          unfolding K unfolding split by auto
        have same: "Compare c (user_key (fst x)) (user_key (fst e)) = 0" using visible_same [OF vis e(2)] .
        have "e \<in> set p \<or> e \<in> set q" using e(1) xe unfolding pq by auto
        then show False
        proof
          assume p: "e \<in> set p"
          have users': "sorted_wrt (\<lambda>a b. Compare c (user_key (fst a)) (user_key (fst b)) \<le> 0) (p @ x # q)" using users unfolding pq .
          from between_same [OF users' p] same user.cmp_zero_sym
          have b: "Compare c (user_key (fst x)) (user_key (fst (last p))) = 0" "Compare c (user_key (fst e)) (user_key (fst (last p))) = 0" by blast+
          have "sequence (fst (last p)) \<le> sequence (fst e)"
          proof (cases "last p = e")
            case False
            then obtain p1 p2 where p12: "p = p1 @ e # p2" "p2 \<noteq> []" using p by (metis split_list last_snoc)
            then have "last p \<in> set (p2 @ x # q)" by simp
            then show ?thesis using sorted_entries(2) [of p1 e "p2 @ x # q" "last p"] sorted seqs b(2) unfolding pq p12(1) by simp
          qed simp
          then show False using nd b(1) d(2) p by force
        next
          assume q: "e \<in> set q"
          have "sequence (fst e) \<le> sequence (fst x)" using sorted_entries(2) [of p x q e] sorted seqs q same unfolding pq by simp
          then have "sequence (fst x) = sequence (fst e)" using top [OF _ vis] pq by simp
          then show False using inj_onD [OF inj, of x e] xe e(1) pq by simp
        qed
      qed
      then have K0: "newest c u s ?K None = None" using newest_None_iff by blast
      have "\<not> visible c u s x" if "x \<in> set older" for x
      proof
        assume "visible c u s x"
        then have "Compare c (user_key (fst x)) (user_key (fst e)) = 0" using visible_same e(2) by blast
        then have "in_file_range c (user_key (fst x)) f = in_file_range c (user_key (fst e)) f" for f
          unfolding in_file_range_def using user.cmp_trans user.cmp_zero_sym by (metis order_refl)
        then have "base_level c v level (user_key (fst x))" using d(3) unfolding base_level_def by simp
        then show False using old that by blast
      qed
      then have "newest c u s older None = None" using newest_None_iff by blast
      then show ?thesis using Some K0 d(1) unfolding newest_newer [OF nw] newest_newer [OF nwK] by (simp add: get_result_def)
    qed
  qed
qed

end

end
