(* ===== verification/TableStore.thy ===== *)
theory TableStore
  imports DbImpl Table
begin

text \<open>
  What the database relies on when it writes a table: files of the environment keep what was appended to
  them, and the table cache accepts a finished table.  The contract is a locale; under it, finishing a
  table builder and \<open>BuildTable\<close> leave a well-formed table file.
\<close>

section \<open>Contract\<close>

definition table_options :: "Comparator \<Rightarrow> Options \<Rightarrow> bool" where
  "table_options c options \<longleftrightarrow>
     opt_comparator options = InternalKeyComparator c \<and> 1 \<le> block_restart_interval options \<and>
     (\<forall>p. opt_filter_policy options = Some p \<longrightarrow> filter_policy p)"

definition built :: "('e, 'f, 'w) System \<Rightarrow> Options \<Rightarrow> 'w \<Rightarrow> kv list \<Rightarrow> 'w TableBuilder" where
  "built sys options w kvs =
     fold (\<lambda>(k, v). TableBuilder_Add (sys_codec sys) (env_WF (sys_env sys)) k v) kvs (TableBuilder_new options w)"

definition finished :: "('e, 'f, 'w) System \<Rightarrow> Options \<Rightarrow> 'w \<Rightarrow> kv list \<Rightarrow> Status \<times> 'w TableBuilder" where
  "finished sys options w kvs = TableBuilder_Finish (sys_codec sys) (env_WF (sys_env sys)) (built sys options w kvs)"

text \<open>The bytes of a table file with the entries \<open>kvs\<close>.\<close>

definition table_bytes :: "Comparator \<Rightarrow> (slice \<Rightarrow> bool) \<Rightarrow> ('e, 'f, 'w) System \<Rightarrow> Options \<Rightarrow> slice \<Rightarrow> kv list \<Rightarrow> bool" where
  "table_bytes c valid sys options bs kvs \<longleftrightarrow>
     (\<exists>ds seps. table_file (InternalKeyComparator c) valid (sys_codec sys) (opt_filter_policy options) bs ds seps \<and>
        concat (map snd ds) = kvs)"

text \<open>
  \<open>files e\<close> are the closed files, \<open>wname w\<close> the name of the open file \<open>w\<close> and \<open>wbytes w\<close> what has been written to it.
\<close>

locale table_store =
  fixes c :: Comparator and valid :: "slice \<Rightarrow> bool" and sys :: "('e, 'f, 'w) System"
    and wbytes :: "'w \<Rightarrow> slice" and wgood :: "'w \<Rightarrow> bool" and wname :: "'w \<Rightarrow> slice"
    and files :: "'e \<Rightarrow> slice \<Rightarrow> slice option" and egood :: "'e \<Rightarrow> bool" and dbname :: slice
    and options :: Options
  assumes writer:
      "table_writer (InternalKeyComparator c) valid (env_WF (sys_env sys)) wbytes (\<lambda>w. wgood w \<and> wname w = n) (sys_codec sys)"
    and new_file: "egood e \<Longrightarrow> \<exists>w e'. env_NewWritableFile (sys_env sys) n e = (OK, w, e') \<and>
      wgood w \<and> wbytes w = [] \<and> wname w = n \<and> egood e' \<and> (\<forall>m. m \<noteq> n \<longrightarrow> files e' m = files e m)"
    and close_file: "wgood w \<Longrightarrow> WF_Close (env_WF (sys_env sys)) w = (s, w') \<Longrightarrow> wname w' = wname w \<and> wgood w'"
    and delete_file: "egood e \<Longrightarrow> wgood w \<Longrightarrow> egood (env_delete_WF (sys_env sys) w e) \<and>
      files (env_delete_WF (sys_env sys) w e) = (files e)(wname w \<mapsto> wbytes w)"
    and options_ok: "table_options c options"
    and table_status: "egood e \<Longrightarrow> files e (TableFileName dbname k) = Some bs \<Longrightarrow> table_bytes c valid sys options bs kvs \<Longrightarrow>
      length bs < 2 ^ 32 \<Longrightarrow> sys_table_status sys k (of_nat (length bs)) e = OK"
begin

lemma written_file: "writable_file (env_WF (sys_env sys)) wbytes (\<lambda>w. wgood w \<and> wname w = n)"
  using writer by (simp add: table_writer_def)

text \<open>Finishing a table, syncing and closing its file.\<close>

lemma finish_file:
  assumes kvs: "sorted_kvs (InternalKey_Compare c) kvs" "\<forall>e \<in> set kvs. valid (fst e)"
    and w: "wgood w" "wbytes w = []" "wname w = n"
    and small: "length (wbytes (tb_file (snd (finished sys options w kvs)))) < 2 ^ 32" and e: "egood e"
  obtains b w1 w2 bs where "finished sys options w kvs = (OK, b)" "WF_Sync (env_WF (sys_env sys)) (tb_file b) = (OK, w1)"
    "WF_Close (env_WF (sys_env sys)) w1 = (OK, w2)" "FileSize b = of_nat (length bs)" "table_bytes c valid sys options bs kvs" "length bs < 2 ^ 32"
    "egood (env_delete_WF (sys_env sys) w2 e)" "files (env_delete_WF (sys_env sys) w2 e) = (files e)(n \<mapsto> bs)"
proof -
  obtain s b where sb: "finished sys options w kvs = (s, b)" by fastforce
  have o: "opt_comparator options = InternalKeyComparator c" "1 \<le> block_restart_interval options"
    "\<forall>p. opt_filter_policy options = Some p \<longrightarrow> filter_policy p" using options_ok by (auto simp: table_options_def)
  have kvs': "sorted_kvs (Compare (InternalKeyComparator c)) kvs" using kvs(1) by simp
  have gw: "wgood w \<and> wname w = n" using w by simp
  have sm: "length (wbytes (tb_file b)) < 2 ^ 64" using small by (simp add: sb)
  obtain ds seps where d: "s = OK" "table_file (InternalKeyComparator c) valid (sys_codec sys) (opt_filter_policy options) (wbytes (tb_file b)) ds seps"
    "concat (map snd ds) = kvs" "wgood (tb_file b) \<and> wname (tb_file b) = n" "FileSize b = of_nat (length (wbytes (tb_file b)))"
    using table_writer.built_table [OF writer kvs' kvs(2) gw w(2) o sb [symmetric, unfolded finished_def built_def] sm] by metis
  note W = written_file
  obtain w1 where w1: "WF_Sync (env_WF (sys_env sys)) (tb_file b) = (OK, w1)" "wbytes w1 = wbytes (tb_file b)" "wgood w1 \<and> wname w1 = n"
    using writable_file.sync [OF W d(4)] by blast
  obtain w2 where w2: "WF_Close (env_WF (sys_env sys)) w1 = (OK, w2)" "wbytes w2 = wbytes w1"
    using writable_file.close [OF W w1(3)] by blast
  have n: "wname w2 = n" "wgood w2" using close_file [OF _ w2(1)] w1(3) by simp_all
  then show thesis using that [OF _ w1(1) w2(1) d(5)] sb d(1-3) w1(2) w2(2) delete_file [OF e n(2)] small
    by (auto simp: table_bytes_def)
qed

lemma table_bytes_nonempty:
  assumes "table_bytes c valid sys options bs kvs"
  shows "0 < length bs"
proof -
  obtain pre f where "bs = pre @ Footer_EncodeTo [] f" using assms unfolding table_bytes_def table_file_def by blast
  then show ?thesis by (simp add: kEncodedLength_def)
qed

section \<open>BuildTable\<close>

lemma BuildTable_loop_all:
  assumes "forward_iterator I cursor" "cursor s kvs i" "b = built sys options w (take i kvs)"
    "i \<le> length kvs" "key = (if i = 0 then [] else fst (kvs ! (i - 1)))"
  shows "\<exists>s'. BuildTable_loop (sys_codec sys) (env_WF (sys_env sys)) I s key b =
     Some (if kvs = [] then [] else fst (last kvs), s', built sys options w kvs) \<and> cursor s' kvs (length kvs)"
  using assms(2-)
proof (induction "length kvs - i" arbitrary: i s b key)
  case 0
  then have i: "i = length kvs" by simp
  have "\<not> it_Valid I s" using forward_iterator.fwd_Valid [OF assms(1) 0(2)] i by simp
  then show ?case using 0 i by (subst BuildTable_loop.simps) (auto simp: last_conv_nth)
next
  case (Suc n)
  then have i: "i < length kvs" by simp
  have kv: "(it_key I s, it_value I s) = kvs ! i" using forward_iterator.fwd_entry [OF assms(1) Suc.prems(1) i] .
  then have "TableBuilder_Add (sys_codec sys) (env_WF (sys_env sys)) (it_key I s) (it_value I s) b = built sys options w (take (Suc i) kvs)"
    using i by (simp add: Suc.prems(2) built_def take_Suc_conv_app_nth flip: kv)
  moreover have "it_key I s = fst (kvs ! i)" by (simp flip: kv)
  moreover have "n = length kvs - Suc i" using Suc.hyps(2) by simp
  ultimately have "\<exists>s'. BuildTable_loop (sys_codec sys) (env_WF (sys_env sys)) I (it_Next I s) (it_key I s)
      (TableBuilder_Add (sys_codec sys) (env_WF (sys_env sys)) (it_key I s) (it_value I s) b) =
     Some (if kvs = [] then [] else fst (last kvs), s', built sys options w kvs) \<and> cursor s' kvs (length kvs)"
    using Suc.hyps(1) [OF _ forward_iterator.fwd_Next [OF assms(1) Suc.prems(1) i]] i by simp
  moreover have "it_Valid I s" using forward_iterator.fwd_Valid [OF assms(1) Suc.prems(1)] i by simp
  ultimately show ?case by (subst BuildTable_loop.simps) simp
qed

text \<open>Building a table from an iterator with entries: it succeeds, and the metadata describes the file.\<close>

lemma BuildTable_result:
  assumes it: "forward_iterator I cursor" "cursor s kvs i" and ne: "kvs \<noteq> []"
    and kvs: "sorted_kvs (InternalKey_Compare c) kvs" "\<forall>e \<in> set kvs. valid (fst e)" "fst (last kvs) \<noteq> []"
    and small: "\<And>w. wgood w \<Longrightarrow> wbytes w = [] \<Longrightarrow> length (wbytes (tb_file (snd (finished sys options w kvs)))) < 2 ^ 32"
    and e: "egood e"
  obtains bs e' where "table_bytes c valid sys options bs kvs" "files e' (TableFileName dbname (f_number meta)) = Some bs" "egood e'"
    "\<And>m. m \<noteq> TableFileName dbname (f_number meta) \<Longrightarrow> files e' m = files e m"
    "BuildTable sys dbname options I s meta e =
       Some (OK, meta\<lparr> f_file_size := of_nat (length bs), f_smallest := fst (hd kvs), f_largest := fst (last kvs) \<rparr>, e')"
proof -
  let ?n = "TableFileName dbname (f_number meta)" and ?s = "it_SeekToFirst I s"
  note c0 = forward_iterator.fwd_SeekToFirst [OF it]
  have valid0: "it_Valid I ?s" using forward_iterator.fwd_Valid [OF it(1) c0] ne by simp
  have key0: "it_key I ?s = fst (hd kvs)"
    using forward_iterator.fwd_entry [OF it(1) c0] ne by (metis fst_conv hd_conv_nth length_greater_0_conv)
  obtain w e1 where w: "env_NewWritableFile (sys_env sys) ?n e = (OK, w, e1)" "wgood w" "wbytes w = []" "wname w = ?n" "egood e1"
    "\<forall>m. m \<noteq> ?n \<longrightarrow> files e1 m = files e m" using new_file [OF e] by blast
  obtain s' where s': "BuildTable_loop (sys_codec sys) (env_WF (sys_env sys)) I ?s [] (TableBuilder_new options w) =
     Some (fst (last kvs), s', built sys options w kvs)" "cursor s' kvs (length kvs)"
    using BuildTable_loop_all [OF it(1) c0, of "TableBuilder_new options w" w "[]"] ne by (auto simp: built_def)
  obtain b w1 w2 bs where f: "finished sys options w kvs = (OK, b)" "WF_Sync (env_WF (sys_env sys)) (tb_file b) = (OK, w1)"
    "WF_Close (env_WF (sys_env sys)) w1 = (OK, w2)" "FileSize b = of_nat (length bs)" "table_bytes c valid sys options bs kvs" "length bs < 2 ^ 32"
    "egood (env_delete_WF (sys_env sys) w2 e1)" "files (env_delete_WF (sys_env sys) w2 e1) = (files e1)(?n \<mapsto> bs)"
    by (rule finish_file [OF kvs(1,2) w(2-4) small [OF w(2,3)] w(5)])
  let ?e = "env_delete_WF (sys_env sys) w2 e1"
  have st: "sys_table_status sys (f_number meta) (of_nat (length bs)) ?e = OK" using table_status [OF f(7) _ f(5,6)] f(8) by simp
  have "unat (of_nat (length bs) :: u64) = length bs" by (rule unat_u64_of_nat) (use f(6) in simp)
  then have pos: "(of_nat (length bs) :: u64) \<noteq> 0" using table_bytes_nonempty [OF f(5)] by (metis less_irrefl unat_0)
  have "BuildTable_file sys options I ?s w (meta\<lparr> f_file_size := 0 \<rparr>) e1 =
      Some (OK, meta\<lparr> f_file_size := of_nat (length bs), f_smallest := fst (hd kvs), f_largest := fst (last kvs) \<rparr>, s', ?e)"
    unfolding BuildTable_file_def Let_def s'(1) using f(1) kvs(3) by (simp add: finished_def f(2-4) st key0)
  then have "BuildTable sys dbname options I s meta e =
       Some (OK, meta\<lparr> f_file_size := of_nat (length bs), f_smallest := fst (hd kvs), f_largest := fst (last kvs) \<rparr>, ?e)"
    unfolding BuildTable_def Let_def using forward_iterator.fwd_status [OF it(1) s'(2)]
    by (simp add: valid0 w(1) word_gt_0 pos)
  then show thesis using that [OF f(5) _ f(7)] f(8) w(6) by simp
qed

end


section \<open>Instance\<close>

text \<open>
  A file system of in-memory files, by name; the table cache opens the table anew each time.
\<close>

type_synonym mem_files = "slice \<Rightarrow> FileState option"

definition NamedWritableFile :: "(slice \<times> FileState) WritableFile" where
  "NamedWritableFile =
     \<lparr> WF_Append = (\<lambda>(n, f) d. case FileState_Append f d of (s, f) \<Rightarrow> (s, n, f)), WF_Close = (\<lambda>w. (OK, w)),
       WF_Flush = (\<lambda>w. (OK, w)), WF_Sync = (\<lambda>w. (OK, w)) \<rparr>"

definition mem_env :: "(mem_files, SequentialFileImpl, slice \<times> FileState) Env" where
  "mem_env =
     \<lparr> env_SF = MemSequentialFile, env_WF = NamedWritableFile,
       env_NewSequentialFile = (\<lambda>n e. case e n of None \<Rightarrow> (IOError n (ascii ''File not found''), \<lparr> sf_file = FileState_new, sf_pos = 0 \<rparr>)
                                                  | Some f \<Rightarrow> (OK, \<lparr> sf_file = f, sf_pos = 0 \<rparr>)),
       env_NewWritableFile = (\<lambda>n e. (OK, (n, FileState_new), e(n \<mapsto> FileState_new))),
       env_NewAppendableFile = (\<lambda>n e. case e n of None \<Rightarrow> (OK, (n, FileState_new), e(n \<mapsto> FileState_new)) | Some f \<Rightarrow> (OK, (n, f), e)),
       env_RemoveFile = (\<lambda>n e. if e n = None then (IOError n (ascii ''File not found''), e) else (OK, e(n := None))),
       env_RenameFile = (\<lambda>a b e. if e a = None then (IOError a (ascii ''File not found''), e) else (OK, e(b := e a, a := None))),
       env_GetFileSize = (\<lambda>n e. case e n of None \<Rightarrow> (IOError n (ascii ''File not found''), 0) | Some f \<Rightarrow> (OK, fs_size f)),
       env_FileExists = (\<lambda>n e. e n \<noteq> None), env_GetChildren = (\<lambda>d e. (OK, [])), env_CreateDir = (\<lambda>d e. (OK, e)),
       env_RemoveDir = (\<lambda>d e. (OK, e)), env_LockFile = (\<lambda>n e. (OK, e)), env_UnlockFile = (\<lambda>n e. (OK, e)),
       env_delete_WF = (\<lambda>(n, f) e. e(n \<mapsto> f)) \<rparr>"

definition mem_table_get :: "Options \<Rightarrow> slice \<Rightarrow> mem_files \<Rightarrow> table_get" where
  "mem_table_get options dbname e number file_size k =
     (case e (TableFileName dbname number) of
        None \<Rightarrow> (IOError (TableFileName dbname number) (ascii ''File not found''), None)
      | Some f \<Rightarrow>
          (case Table_Open port_no_codec MemRandomAccessFile True options 0 f file_size of
             (s, None) \<Rightarrow> (s, None)
           | (s, Some t) \<Rightarrow> InternalGet port_no_codec MemRandomAccessFile True t ReadOptions_new k))"

definition mem_table_status :: "Options \<Rightarrow> slice \<Rightarrow> u64 \<Rightarrow> u64 \<Rightarrow> mem_files \<Rightarrow> Status" where
  "mem_table_status options dbname number file_size e =
     (case e (TableFileName dbname number) of
        None \<Rightarrow> IOError (TableFileName dbname number) (ascii ''File not found'')
      | Some f \<Rightarrow> fst (Table_Open port_no_codec MemRandomAccessFile True options 0 f file_size))"

definition mem_system :: "Options \<Rightarrow> slice \<Rightarrow> (mem_files, SequentialFileImpl, slice \<times> FileState) System" where
  "mem_system options dbname =
     \<lparr> sys_env = mem_env, sys_codec = port_no_codec, sys_new_char = (\<lambda>i. 8192 * i),
       sys_table_get = mem_table_get options dbname, sys_table_status = mem_table_status options dbname \<rparr>"

definition mem_options :: Options where
  "mem_options = Options_new\<lparr> opt_comparator := InternalKeyComparator BytewiseComparator \<rparr>"

definition ikey_valid :: "slice \<Rightarrow> bool" where
  "ikey_valid k \<longleftrightarrow> 8 \<le> length k"

lemma mem_system_simps [simp]:
  "sys_env (mem_system options dbname) = mem_env" "sys_codec (mem_system options dbname) = port_no_codec"
  "env_WF mem_env = NamedWritableFile" "sys_table_status (mem_system options dbname) = mem_table_status options dbname"
  by (simp_all add: mem_system_def mem_env_def)

lemma named_writable:
  "writable_file NamedWritableFile (\<lambda>w. fs_bytes (snd w)) (\<lambda>w. fs_inv (snd w) \<and> fst w = n)"
proof
  fix w :: "slice \<times> FileState" and d assume w: "fs_inv (snd w) \<and> fst w = n"
  obtain f' where "WF_Append MemWritableFile (snd w) d = (OK, f')" "fs_bytes f' = fs_bytes (snd w) @ d" "fs_inv f'"
    using mem_writ.append_obtain [of "snd w" d] w by blast
  then show "\<exists>w'. WF_Append NamedWritableFile w d = (OK, w') \<and> fs_bytes (snd w') = fs_bytes (snd w) @ d \<and> fs_inv (snd w') \<and> fst w' = n"
    using w by (cases w) (auto simp: NamedWritableFile_def MemWritableFile_def)
qed (auto simp: NamedWritableFile_def)

interpretation mem_store: table_store BytewiseComparator ikey_valid "mem_system mem_options dbname"
    "\<lambda>w. fs_bytes (snd w)" "\<lambda>w. fs_inv (snd w)" fst "\<lambda>e n. map_option fs_bytes (e n)" "\<lambda>e. \<forall>n f. e n = Some f \<longrightarrow> fs_inv f"
    dbname mem_options for dbname
proof (rule table_store.intro)
  show opts: "table_options BytewiseComparator mem_options"
    by (simp add: table_options_def mem_options_def Options_new_def)
  have cmp: "comparator (InternalKeyComparator BytewiseComparator) ikey_valid"
    using ikc.ik.comparator_axioms by (simp add: ikey_valid_def [abs_def])
  show "table_writer (InternalKeyComparator BytewiseComparator) ikey_valid (env_WF (sys_env (mem_system mem_options dbname)))
      (\<lambda>w. fs_bytes (snd w)) (\<lambda>w. fs_inv (snd w) \<and> fst w = n) (sys_codec (mem_system mem_options dbname))" for n
    using cmp named_writable [of n] mem_table.table_writer_axioms unfolding table_writer_def by simp
  fix e :: mem_files
  assume e: "\<forall>n f. e n = Some f \<longrightarrow> fs_inv f"
  then show "\<exists>w e'. env_NewWritableFile (sys_env (mem_system mem_options dbname)) n e = (OK, w, e') \<and> fs_inv (snd w) \<and>
      fs_bytes (snd w) = [] \<and> fst w = n \<and> (\<forall>n f. e' n = Some f \<longrightarrow> fs_inv f) \<and>
      (\<forall>m. m \<noteq> n \<longrightarrow> map_option fs_bytes (e' m) = map_option fs_bytes (e m))" for n
    using fs_inv_new by (simp add: mem_env_def)
  show "(\<forall>n f. env_delete_WF (sys_env (mem_system mem_options dbname)) w e n = Some f \<longrightarrow> fs_inv f) \<and>
      (\<lambda>n. map_option fs_bytes (env_delete_WF (sys_env (mem_system mem_options dbname)) w e n)) =
      (\<lambda>n. map_option fs_bytes (e n))(fst w \<mapsto> fs_bytes (snd w))" if "fs_inv (snd w)" for w
    using e that by (cases w) (auto simp: mem_env_def)
  fix k bs kvs
  assume t: "map_option fs_bytes (e (TableFileName dbname k)) = Some bs" "length bs < 2 ^ 32"
    "table_bytes BytewiseComparator ikey_valid (mem_system mem_options dbname) mem_options bs kvs"
  obtain f where f: "e (TableFileName dbname k) = Some f" "bs = fs_bytes f" using t(1) by auto
  obtain ds seps where d: "table_file (InternalKeyComparator BytewiseComparator) ikey_valid port_no_codec (opt_filter_policy mem_options) (fs_bytes f) ds seps"
    using t(3) f(2) by (auto simp: table_bytes_def)
  have tr: "table_reader (InternalKeyComparator BytewiseComparator) MemRandomAccessFile fs_bytes fs_inv"
    using cmp mem_rand.random_access_file_axioms by (simp add: table_reader_def comparator_def)
  have "fs_inv f" "length (fs_bytes f) < 2 ^ 32" using e f t(2) by simp_all
  moreover have "opt_comparator mem_options = InternalKeyComparator BytewiseComparator" using opts by (simp add: table_options_def)
  ultimately obtain tb where
    "Table_Open port_no_codec MemRandomAccessFile True mem_options 0 f (of_nat (length (fs_bytes f))) = (OK, Some tb)"
    using table_reader.Open_table [OF tr d] by metis
  then show "sys_table_status (mem_system mem_options dbname) k (of_nat (length bs)) e = OK"
    by (simp add: mem_table_status_def f)
qed (auto simp: mem_env_def NamedWritableFile_def)

end
