(* ===== verification/CompactionRun.thy ===== *)
theory CompactionRun
  imports CompactionReads TableStore
begin

text \<open>
  A compaction copies exactly the entries that \<open>kept_entries\<close> describes into its output files, and lookups do
  not notice.
\<close>

section \<open>What other threads may do\<close>

text \<open>
  While the mutex is released, other threads may change the memtable, the snapshots, the versions and other
  files.  They do not change the options, do not shut the database down or fill the memtable, allocate file numbers
  upwards and leave the files in \<open>pending_outputs_\<close> alone.
\<close>

definition quiet_step ::
    "('e \<Rightarrow> slice \<Rightarrow> slice option) \<Rightarrow> ('e \<Rightarrow> bool) \<Rightarrow> nat \<Rightarrow> 'w DBImpl \<times> 'e \<Rightarrow> 'w DBImpl \<times> 'e \<Rightarrow> bool" where
  "quiet_step files egood n before after \<longleftrightarrow>
     (case before of (db, e) \<Rightarrow> case after of (db', e') \<Rightarrow>
        db_user_comparator db' = db_user_comparator db \<and> db_options db' = db_options db \<and> db_dbname db' = db_dbname db \<and>
        (\<not> db_shutting_down db \<longrightarrow> \<not> db_shutting_down db') \<and> (\<not> db_has_imm db \<longrightarrow> \<not> db_has_imm db') \<and>
        (egood e \<longrightarrow> egood e') \<and> db_pending_outputs db \<subseteq> db_pending_outputs db' \<and>
        (\<forall>k \<in> db_pending_outputs db. files e' (TableFileName (db_dbname db) k) = files e (TableFileName (db_dbname db) k)) \<and>
        vs_next_file_number (db_versions db) \<le> vs_next_file_number (db_versions db') \<and>
        (unat (vs_next_file_number (db_versions db)) \<le> 2 ^ 62 + n \<longrightarrow> unat (vs_next_file_number (db_versions db')) \<le> 2 ^ 62 + n))"

definition quiet ::
    "('e \<Rightarrow> slice \<Rightarrow> slice option) \<Rightarrow> ('e \<Rightarrow> bool) \<Rightarrow> (nat \<Rightarrow> 'w DBImpl \<times> 'e \<Rightarrow> 'w DBImpl \<times> 'e) \<Rightarrow> bool" where
  "quiet files egood others \<longleftrightarrow> (\<forall>n x. quiet_step files egood n x (others n x))"

text \<open>An output file with its metadata and the entries in it.\<close>

definition output_holds ::
    "Comparator \<Rightarrow> (slice \<Rightarrow> bool) \<Rightarrow> ('e, 'f, 'w) System \<Rightarrow> Options \<Rightarrow> (slice \<Rightarrow> slice option) \<Rightarrow> slice \<Rightarrow> Output \<Rightarrow> mem_entry list \<Rightarrow> bool" where
  "output_holds c valid sys options fs dbname out g \<longleftrightarrow>
     g \<noteq> [] \<and> out_smallest out = entry_ikey (hd g) \<and> out_largest out = entry_ikey (last g) \<and>
     (\<exists>bs. fs (TableFileName dbname (out_number out)) = Some bs \<and> out_file_size out = of_nat (length bs) \<and>
        table_bytes c valid sys options bs (mem_kvs g))"

text \<open>The state of the database a compaction runs in; \<open>n\<close> bounds how many files it has opened.\<close>

definition run_db :: "Comparator \<Rightarrow> Options \<Rightarrow> slice \<Rightarrow> nat \<Rightarrow> 'w DBImpl \<Rightarrow> bool" where
  "run_db c options dbname n db \<longleftrightarrow>
     db_user_comparator db = c \<and> db_options db = options \<and> db_dbname db = dbname \<and> \<not> db_shutting_down db \<and> \<not> db_has_imm db \<and>
     unat (vs_next_file_number (db_versions db)) \<le> 2 ^ 62 + n"

definition outputs_ok :: "'w DBImpl \<Rightarrow> Output list \<Rightarrow> bool" where
  "outputs_ok db outs \<longleftrightarrow>
     distinct (map out_number outs) \<and>
     (\<forall>out \<in> set outs. out_number out < vs_next_file_number (db_versions db) \<and> out_number out \<in> db_pending_outputs db)"

lemma TableFileName_inj: "TableFileName db a = TableFileName db b \<longleftrightarrow> a = b"
proof
  assume "TableFileName db a = TableFileName db b"
  then have "ConsumeDecimalNumber (decimal06 a @ ascii ''.ldb'') = ConsumeDecimalNumber (decimal06 b @ ascii ''.ldb'')"
    by (simp add: TableFileName_def MakeFileName_def)
  moreover have "\<not> is_digit (hd (ascii ''.ldb''))" by (simp add: ascii_def is_digit_def)
  ultimately show "a = b" using Consume_decimal06 [of "ascii ''.ldb''"] by simp
qed simp

lemma mem_kvs_sorted: "sorted_wrt (\<lambda>a b. entry_cmp c a b < 0) es \<Longrightarrow> sorted_kvs (InternalKey_Compare c) (mem_kvs es)"
  by (simp add: sorted_kvs_def mem_kvs_def sorted_wrt_map entry_cmp_def)

lemma entry_ikey_nonempty [simp]: "entry_ikey e \<noteq> []"
  using length_entry_ikey [of e] by (metis add_is_0 list.size(3) zero_neq_numeral)

lemma Flush_num_entries [simp]: "tb_num_entries (TableBuilder_Flush C W b) = tb_num_entries b"
proof -
  have raw: "tb_num_entries (snd (WriteRawBlock W z t b)) = tb_num_entries b" for z t and b :: "'a TableBuilder"
    by (simp add: WriteRawBlock_def Let_def split: prod.split)
  have "tb_num_entries (snd (snd (WriteBlock C W blk b))) = tb_num_entries b" for blk
    using raw by (simp add: WriteBlock_def split: prod.split) (metis snd_conv)
  then show ?thesis by (auto simp: TableBuilder_Flush_def Let_def split: prod.split) (metis snd_conv)+
qed

lemma Add_num_entries: "tb_num_entries (TableBuilder_Add C W k v b) = (if ok (tb_status b) then tb_num_entries b + 1 else tb_num_entries b)"
  by (simp add: TableBuilder_Add_def Let_def)

context table_store
begin

text \<open>Runs of entries that can go into one file.\<close>

definition writable_run :: "mem_entry list \<Rightarrow> bool" where
  "writable_run es \<longleftrightarrow>
     sorted_wrt (\<lambda>a b. entry_cmp c a b < 0) es \<and> (\<forall>x \<in> set es. valid (entry_ikey x)) \<and>
     (\<forall>w. wgood w \<longrightarrow> wbytes w = [] \<longrightarrow> length (wbytes (tb_file (snd (finished sys options w (mem_kvs es))))) < 2 ^ 32)"

definition holds :: "'e \<Rightarrow> Output \<Rightarrow> mem_entry list \<Rightarrow> bool" where
  "holds e out g \<longleftrightarrow> output_holds c valid sys options (files e) dbname out g"

text \<open>The entries \<open>sofar\<close> are in the finished files and in the open one.\<close>

definition run_files :: "'e \<Rightarrow> mem_entry list \<Rightarrow> Output list \<Rightarrow> 'w TableBuilder option \<Rightarrow> bool" where
  "run_files e sofar outputs builder \<longleftrightarrow>
     (case builder of
        None \<Rightarrow> (\<exists>groups. list_all2 (holds e) outputs groups \<and> sofar = concat groups)
      | Some b \<Rightarrow>
          (\<exists>outs out groups cur w. outputs = outs @ [out] \<and> list_all2 (holds e) outs groups \<and>
             sofar = concat groups @ cur \<and> cur \<noteq> [] \<and> wgood w \<and> wbytes w = [] \<and> wname w = TableFileName dbname (out_number out) \<and>
             b = built sys options w (mem_kvs cur) \<and>
             out_smallest out = entry_ikey (hd cur) \<and> out_largest out = entry_ikey (last cur)))"

definition run_inv :: "nat \<Rightarrow> mem_entry list \<Rightarrow> 'w CompactionState \<Rightarrow> 'w DBImpl \<Rightarrow> 'e \<Rightarrow> bool" where
  "run_inv n sofar cs db e \<longleftrightarrow>
     egood e \<and> run_db c options dbname n db \<and> outputs_ok db (cs_outputs cs) \<and> run_files e sofar (cs_outputs cs) (cs_builder cs)"

lemma holds_other:
  assumes "list_all2 (holds e) outs groups" "\<And>out. out \<in> set outs \<Longrightarrow> files e' (TableFileName dbname (out_number out)) = files e (TableFileName dbname (out_number out))"
  shows "list_all2 (holds e') outs groups"
  using assms(1)
proof (rule list.rel_mono_strong)
  fix out g assume "out \<in> set outs" "holds e out g"
  then show "holds e' out g" using assms(2) [of out] by (auto simp: holds_def output_holds_def)
qed

lemma run_inv_quiet:
  assumes "run_inv n sofar cs db e" "quiet_step files egood n (db, e) (db', e')"
  shows "run_inv n sofar cs db' e'"
proof -
  have q: "db_user_comparator db' = db_user_comparator db" "db_options db' = db_options db" "db_dbname db' = db_dbname db"
    "\<not> db_shutting_down db \<longrightarrow> \<not> db_shutting_down db'" "\<not> db_has_imm db \<longrightarrow> \<not> db_has_imm db'" "egood e \<longrightarrow> egood e'"
    "db_pending_outputs db \<subseteq> db_pending_outputs db'"
    "\<forall>k \<in> db_pending_outputs db. files e' (TableFileName (db_dbname db) k) = files e (TableFileName (db_dbname db) k)"
    "vs_next_file_number (db_versions db) \<le> vs_next_file_number (db_versions db')"
    "unat (vs_next_file_number (db_versions db)) \<le> 2 ^ 62 + n \<longrightarrow> unat (vs_next_file_number (db_versions db')) \<le> 2 ^ 62 + n"
    using assms(2) by (simp_all add: quiet_step_def)
  have i: "egood e" "run_db c options dbname n db" "outputs_ok db (cs_outputs cs)" using assms(1) by (auto simp: run_inv_def)
  have "outputs_ok db' (cs_outputs cs)" using i(3) q(7,9) unfolding outputs_ok_def by (meson order_less_le_trans subsetD)
  moreover have "run_db c options dbname n db'" using i(2) q by (simp add: run_db_def)
  moreover have more: "list_all2 (holds e') outs groups" if "list_all2 (holds e) outs groups" "set outs \<subseteq> set (cs_outputs cs)" for outs groups
    using that(1) by (rule holds_other) (use that(2) i(2,3) q(8) in \<open>auto simp: run_db_def outputs_ok_def\<close>)
  moreover have "run_files e' sofar (cs_outputs cs) (cs_builder cs)"
    using assms(1) more by (cases "cs_builder cs") (auto simp: run_inv_def run_files_def, fastforce)
  ultimately show ?thesis using i(1) q(6) by (simp add: run_inv_def)
qed

lemma run_inv_compaction [simp]: "run_inv n sofar (cs\<lparr> cs_compaction := cp \<rparr>) db e = run_inv n sofar cs db e"
  by (simp add: run_inv_def)

lemma Finish_output:
  assumes inv: "run_inv n sofar cs db e" and b: "cs_builder cs \<noteq> None" and run: "\<forall>pre cur. sofar = pre @ cur \<longrightarrow> writable_run cur"
  obtains cs' e' where "FinishCompactionOutputFile sys OK cs e = (OK, cs', e')" "run_inv n sofar cs' db e'" "cs_builder cs' = None"
    "cs_compaction cs' = cs_compaction cs" "cs_smallest_snapshot cs' = cs_smallest_snapshot cs"
proof -
  obtain outs out groups cur w where i: "cs_outputs cs = outs @ [out]" "list_all2 (holds e) outs groups"
    "sofar = concat groups @ cur" "cur \<noteq> []" "wgood w" "wbytes w = []" "wname w = TableFileName dbname (out_number out)"
    "cs_builder cs = Some (built sys options w (mem_kvs cur))"
    "out_smallest out = entry_ikey (hd cur)" "out_largest out = entry_ikey (last cur)"
    using inv b by (auto simp: run_inv_def run_files_def split: option.splits)
  have g: "egood e" "run_db c options dbname n db" "outputs_ok db (cs_outputs cs)" using inv by (auto simp: run_inv_def)
  have wr: "writable_run cur" using run i(3) by blast
  have kvs: "sorted_kvs (InternalKey_Compare c) (mem_kvs cur)" "\<forall>x \<in> set (mem_kvs cur). valid (fst x)"
    "length (wbytes (tb_file (snd (finished sys options w (mem_kvs cur))))) < 2 ^ 32"
    using wr i(5,6) mem_kvs_sorted by (auto simp: writable_run_def mem_kvs_def)
  obtain bd w1 w2 bs where f: "finished sys options w (mem_kvs cur) = (OK, bd)" "WF_Sync (env_WF (sys_env sys)) (tb_file bd) = (OK, w1)"
    "WF_Close (env_WF (sys_env sys)) w1 = (OK, w2)" "FileSize bd = of_nat (length bs)" "table_bytes c valid sys options bs (mem_kvs cur)"
    "length bs < 2 ^ 32" "egood (env_delete_WF (sys_env sys) w2 e)"
    "files (env_delete_WF (sys_env sys) w2 e) = (files e)(TableFileName dbname (out_number out) \<mapsto> bs)"
    by (rule finish_file [OF kvs(1,2) i(5-7) kvs(3) g(1)])
  let ?e = "env_delete_WF (sys_env sys) w2 e" and ?out = "out\<lparr> out_file_size := of_nat (length bs) \<rparr>"
  let ?cs = "cs\<lparr> cs_outputs := outs @ [?out], cs_total_bytes := cs_total_bytes cs + of_nat (length bs), cs_builder := None \<rparr>"
  have st: "sys_table_status sys (out_number out) (of_nat (length bs)) ?e = OK" using table_status [OF f(7) _ f(5,6)] f(8) by simp
  have fin: "FinishCompactionOutputFile sys OK cs e = (OK, ?cs, ?e)"
    unfolding FinishCompactionOutputFile_def Let_def i(8) option.sel
    using f(1) by (simp add: finished_def f(2-4) st current_output_def with_current_output_def i(1))
  have "out_number o' \<noteq> out_number out" if "o' \<in> set outs" for o' using g(3) that by (auto simp: outputs_ok_def i(1) image_iff)
  then have "list_all2 (holds ?e) outs groups" by (intro holds_other [OF i(2)]) (simp add: f(8) TableFileName_inj)
  moreover have "holds ?e ?out cur" using i(4,9,10) f(5,8) by (simp add: holds_def output_holds_def)
  ultimately have "list_all2 (holds ?e) (outs @ [?out]) (groups @ [cur])" by (simp add: list_all2_appendI)
  moreover have "concat (groups @ [cur]) = sofar" by (simp add: i(3))
  moreover have "outputs_ok db (outs @ [?out])" using g(3) by (auto simp: outputs_ok_def i(1))
  ultimately have "run_inv n sofar ?cs db ?e" using f(7) g(2) by (auto simp: run_inv_def run_files_def)
  then show thesis using that [OF fin] by simp
qed


text \<open>Opening an output file and adding an entry.\<close>

lemma built_snoc: "TableBuilder_Add (sys_codec sys) (env_WF (sys_env sys)) (entry_ikey x) (snd x) (built sys options w (mem_kvs cur)) =
    built sys options w (mem_kvs (cur @ [x]))"
  by (simp add: built_def mem_kvs_def)

lemma NumEntries_built: "NumEntries (built sys options w (mem_kvs cur)) = 0 \<longleftrightarrow> cur = []"
proof (cases cur)
  case Nil
  then show ?thesis by (simp add: built_def mem_kvs_def NumEntries_def TableBuilder_new_def)
next
  case (Cons x xs)
  have mono: "tb_num_entries b \<le> tb_num_entries (fold (\<lambda>(k, v). TableBuilder_Add (sys_codec sys) (env_WF (sys_env sys)) k v) ks b)"
    for ks and b :: "'w TableBuilder"
  proof (induction ks arbitrary: b)
    case (Cons e ks)
    have "tb_num_entries b \<le> tb_num_entries (TableBuilder_Add (sys_codec sys) (env_WF (sys_env sys)) (fst e) (snd e) b)"
      by (simp add: Add_num_entries)
    from order_trans [OF this Cons.IH] show ?case by (simp add: split_beta)
  qed simp
  have "tb_num_entries (TableBuilder_Add (sys_codec sys) (env_WF (sys_env sys)) (entry_ikey x) (snd x) (TableBuilder_new options w)) = 1"
    by (simp add: Add_num_entries TableBuilder_new_def)
  then show ?thesis using mono [of "TableBuilder_Add (sys_codec sys) (env_WF (sys_env sys)) (entry_ikey x) (snd x) (TableBuilder_new options w)" "mem_kvs xs"]
    by (simp add: Cons built_def mem_kvs_def NumEntries_def)
qed

lemma open_output:
  assumes inv: "run_inv n sofar cs db e" and n: "n < 2 ^ 62"
  obtains cs1 db1 e1 outs out groups cur w where
    "(if cs_builder cs = None then OpenCompactionOutputFile sys cs db e else (OK, cs, db, e)) = (OK, cs1, db1, e1)"
    "egood e1" "run_db c options dbname (Suc n) db1" "outputs_ok db1 (cs_outputs cs1)" "cs_outputs cs1 = outs @ [out]"
    "list_all2 (holds e1) outs groups" "sofar = concat groups @ cur" "wgood w" "wbytes w = []" "wname w = TableFileName dbname (out_number out)"
    "cs_builder cs1 = Some (built sys options w (mem_kvs cur))" "cur \<noteq> [] \<longrightarrow> out_smallest out = entry_ikey (hd cur)"
    "cs_compaction cs1 = cs_compaction cs" "cs_smallest_snapshot cs1 = cs_smallest_snapshot cs"
proof (cases "cs_builder cs")
  case None
  have i: "egood e" "run_db c options dbname n db" "outputs_ok db (cs_outputs cs)" using inv by (auto simp: run_inv_def)
  obtain groups where gr: "list_all2 (holds e) (cs_outputs cs) groups" "sofar = concat groups"
    using inv None by (auto simp: run_inv_def run_files_def)
  let ?k = "vs_next_file_number (db_versions db)"
  have kn: "unat ?k < 2 ^ 63" using i(2) n by (simp add: run_db_def)
  then have k: "unat (?k + 1) = unat ?k + 1" by (simp add: unat_word_ariths)
  then have k2: "?k < ?k + 1" by (simp add: word_less_nat_alt)
  obtain w e1 where w: "env_NewWritableFile (sys_env sys) (TableFileName dbname ?k) e = (OK, w, e1)" "wgood w" "wbytes w = []"
    "wname w = TableFileName dbname ?k" "egood e1" "\<forall>m. m \<noteq> TableFileName dbname ?k \<longrightarrow> files e1 m = files e m"
    using new_file [OF i(1)] by blast
  let ?out = "\<lparr> out_number = ?k, out_file_size = 0, out_smallest = [], out_largest = [] \<rparr> :: Output"
  let ?db = "db\<lparr> db_versions := (db_versions db)\<lparr> vs_next_file_number := ?k + 1 \<rparr>, db_pending_outputs := insert ?k (db_pending_outputs db) \<rparr>"
  let ?cs = "cs\<lparr> cs_outputs := cs_outputs cs @ [?out], cs_builder := Some (TableBuilder_new options w) \<rparr>"
  have "OpenCompactionOutputFile sys cs db e = (OK, ?cs, ?db, e1)"
    using i(2) by (simp add: OpenCompactionOutputFile_def NewFileNumber_def Let_def run_db_def w(1))
  moreover have "run_db c options dbname (Suc n) ?db" using i(2) k by (simp add: run_db_def)
  moreover have old: "out_number o' < ?k" if "o' \<in> set (cs_outputs cs)" for o' using i(3) that by (simp add: outputs_ok_def)
  then have "?k \<notin> out_number ` set (cs_outputs cs)" by (metis imageE less_irrefl)
  then have "outputs_ok ?db (cs_outputs cs @ [?out])"
    using i(3) k2 by (auto simp: outputs_ok_def intro: less_trans)
  moreover have "list_all2 (holds e1) (cs_outputs cs) groups"
    by (rule holds_other [OF gr(1)]) (metis old w(6) TableFileName_inj less_irrefl)
  ultimately show thesis using that [of ?cs ?db e1 "cs_outputs cs" ?out groups "[]" w] None gr(2) w(2-5)
    by (simp add: built_def mem_kvs_def)
next
  case (Some b)
  have i: "egood e" "run_db c options dbname n db" "outputs_ok db (cs_outputs cs)" using inv by (auto simp: run_inv_def)
  obtain outs out groups cur w where f: "cs_outputs cs = outs @ [out]" "list_all2 (holds e) outs groups"
    "sofar = concat groups @ cur" "wgood w" "wbytes w = []" "wname w = TableFileName dbname (out_number out)"
    "cs_builder cs = Some (built sys options w (mem_kvs cur))" "out_smallest out = entry_ikey (hd cur)"
    using inv Some by (auto simp: run_inv_def run_files_def)
  have "run_db c options dbname (Suc n) db" using i(2) by (simp add: run_db_def)
  then show thesis using that [of cs db e outs out groups cur w] i f Some by simp
qed

lemma emit_entry:
  assumes inv: "run_inv n sofar cs db e" and n: "n < 2 ^ 62"
    and run: "\<forall>pre cur. sofar @ [x] = pre @ cur \<longrightarrow> writable_run cur"
  obtains cs' db' e' where "compaction_emit sys (entry_ikey x) (snd x) OK cs db e = (OK, cs', db', e')"
    "run_inv (Suc n) (sofar @ [x]) cs' db' e'" "cs_compaction cs' = cs_compaction cs" "cs_smallest_snapshot cs' = cs_smallest_snapshot cs"
proof -
  obtain cs1 db1 e1 outs out groups cur w where o:
    "(if cs_builder cs = None then OpenCompactionOutputFile sys cs db e else (OK, cs, db, e)) = (OK, cs1, db1, e1)"
    "egood e1" "run_db c options dbname (Suc n) db1" "outputs_ok db1 (cs_outputs cs1)" "cs_outputs cs1 = outs @ [out]"
    "list_all2 (holds e1) outs groups" "sofar = concat groups @ cur" "wgood w" "wbytes w = []" "wname w = TableFileName dbname (out_number out)"
    "cs_builder cs1 = Some (built sys options w (mem_kvs cur))" "cur \<noteq> [] \<longrightarrow> out_smallest out = entry_ikey (hd cur)"
    "cs_compaction cs1 = cs_compaction cs" "cs_smallest_snapshot cs1 = cs_smallest_snapshot cs"
    using open_output [OF inv n] .
  let ?out = "out\<lparr> out_smallest := entry_ikey (hd (cur @ [x])), out_largest := entry_ikey x \<rparr>"
  let ?b = "built sys options w (mem_kvs (cur @ [x]))"
  let ?cs = "cs1\<lparr> cs_outputs := outs @ [?out], cs_builder := Some ?b \<rparr>"
  have upd: "(with_current_output (\<lambda>out. out\<lparr> out_largest := entry_ikey x \<rparr>)
       (if NumEntries (built sys options w (mem_kvs cur)) = 0 then with_current_output (\<lambda>out. out\<lparr> out_smallest := entry_ikey x \<rparr>) cs1 else cs1))
       \<lparr> cs_builder := Some ?b \<rparr> = ?cs"
    using o(5,12) by (cases out; cases cs1; cases "cur = []") (simp_all add: NumEntries_built with_current_output_def current_output_def)
  have inv': "run_inv (Suc n) (sofar @ [x]) ?cs db1 e1"
    using o(2-10) by (auto simp: run_inv_def run_files_def outputs_ok_def intro!: exI [of _ groups] exI [of _ "cur @ [x]"] exI [of _ w])
  have step: "compaction_emit sys (entry_ikey x) (snd x) OK cs db e =
     (if FileSize ?b \<ge> of_int (cp_max_output_file_size (cs_compaction ?cs))
      then (case FinishCompactionOutputFile sys OK ?cs e1 of (s, cs, e) \<Rightarrow> (s, cs, db1, e)) else (OK, ?cs, db1, e1))"
    unfolding compaction_emit_def Let_def o(1) prod.case
    by (simp only: o(11) option.sel built_snoc upd) simp
  show thesis
  proof (cases "FileSize ?b \<ge> of_int (cp_max_output_file_size (cs_compaction ?cs))")
    case True
    obtain cs' e' where f: "FinishCompactionOutputFile sys OK ?cs e1 = (OK, cs', e')" "run_inv (Suc n) (sofar @ [x]) cs' db1 e'"
      "cs_compaction cs' = cs_compaction ?cs" "cs_smallest_snapshot cs' = cs_smallest_snapshot ?cs"
      by (rule Finish_output [OF inv' _ run]) simp_all
    then show thesis using that step True o(13,14) by simp
  next
    case False
    then show thesis using that [OF _ inv'] step o(13,14) by simp
  qed
qed

section \<open>The loop\<close>

lemma writable_suffixes:
  assumes "\<forall>g. sorted_wrt (\<lambda>a b. entry_cmp c a b < 0) g \<longrightarrow> set g \<subseteq> set es \<longrightarrow> writable_run g"
    and "sorted_wrt (\<lambda>a b. entry_cmp c a b < 0) sofar" "set sofar \<subseteq> set es"
  shows "\<forall>pre cur. sofar = pre @ cur \<longrightarrow> writable_run cur"
  using assms by (auto simp: sorted_wrt_append)

lemma step_entry:
  assumes inv: "run_inv n sofar cs db e" and n: "n < 2 ^ 62"
    and it: "it_key I input = entry_ikey x" "it_value I input = snd x" "it_status I input = OK"
    and run: "\<forall>pre cur. sofar = pre @ cur \<longrightarrow> writable_run cur"
    and run': "\<forall>pre cur. sofar @ [x] = pre @ cur \<longrightarrow> writable_run cur"
    and d: "compaction_drop c (cs_smallest_snapshot cs) (entry_ikey x) ks (snd (ShouldStopBefore c options (entry_ikey x) (cs_compaction cs))) =
      (drop_entry, ks', cp')"
  obtains cs' db' e' where "compaction_step sys I input cs ks db e = Some (OK, cs', ks', db', e')"
    "run_inv (Suc n) (if drop_entry then sofar else sofar @ [x]) cs' db' e'" "cs_compaction cs' = cp'"
    "cs_smallest_snapshot cs' = cs_smallest_snapshot cs"
proof -
  have rd: "db_user_comparator db = c" "db_options db = options" "\<not> db_has_imm db" using inv by (auto simp: run_inv_def run_db_def)
  obtain stop cp where sc: "ShouldStopBefore c options (entry_ikey x) (cs_compaction cs) = (stop, cp)" by fastforce
  let ?cs = "cs\<lparr> cs_compaction := cp \<rparr>"
  obtain cs1 e1 where c1: "(if stop \<and> cs_builder ?cs \<noteq> None then FinishCompactionOutputFile sys OK ?cs e else (OK, ?cs, e)) = (OK, cs1, e1)"
    "run_inv n sofar cs1 db e1" "cs_compaction cs1 = cp" "cs_smallest_snapshot cs1 = cs_smallest_snapshot cs"
  proof (cases "stop \<and> cs_builder ?cs \<noteq> None")
    case True
    have "run_inv n sofar ?cs db e" using inv by simp
    from Finish_output [OF this _ run] True show thesis using that by (metis (lifting) CompactionState.select_convs(1) CompactionState.surjective CompactionState.update_convs(1) CompactionState.select_convs(2))
  qed (use that inv in auto)
  let ?cs1 = "cs1\<lparr> cs_compaction := cp' \<rparr>"
  have inv1: "run_inv n sofar ?cs1 db e1" using c1(2) by simp
  have st: "compaction_step sys I input cs ks db e =
      Some (if drop_entry then (OK, ?cs1, ks', db, e1)
            else (case compaction_emit sys (entry_ikey x) (snd x) OK ?cs1 db e1 of (s, cs, db, e) \<Rightarrow> (s, cs, ks', db, e)))"
  proof (cases "stop \<and> cs_builder cs \<noteq> None")
    case True
    then have "FinishCompactionOutputFile sys OK ?cs e = (OK, cs1, e1)" using c1(1) by simp
    then show ?thesis using d True by (simp add: compaction_step_def Let_def rd it sc c1(3,4))
  next
    case False
    then have "cs1 = ?cs" "e1 = e" using c1(1) by auto
    then show ?thesis using d False by (auto simp: compaction_step_def Let_def rd it sc split: prod.split)
  qed
  show thesis
  proof (cases drop_entry)
    case True
    have "run_inv (Suc n) sofar ?cs1 db e1" using inv1 by (auto simp: run_inv_def run_db_def)
    then show thesis using that st True c1(4) by simp
  next
    case False
    from emit_entry [OF inv1 n run'] obtain cs2 db2 e2 where
      "compaction_emit sys (entry_ikey x) (snd x) OK ?cs1 db e1 = (OK, cs2, db2, e2)"
      "run_inv (Suc n) (sofar @ [x]) cs2 db2 e2" "cs_compaction cs2 = cp'" "cs_smallest_snapshot cs2 = cs_smallest_snapshot cs1" by auto
    then show thesis using that st False c1(4) by simp
  qed
qed

lemma loop_entries:
  assumes it: "forward_iterator I cursor" and q: "quiet files egood others"
    and run: "\<forall>g. sorted_wrt (\<lambda>a b. entry_cmp c a b < 0) g \<longrightarrow> set g \<subseteq> set es \<longrightarrow> writable_run g"
  shows "es = pre @ rest \<Longrightarrow> cursor input (mem_kvs es) (length pre) \<Longrightarrow> run_inv n sofar cs db e \<Longrightarrow> n + length rest < 2 ^ 62 \<Longrightarrow>
    sorted_wrt (\<lambda>a b. entry_cmp c a b < 0) (sofar @ rest) \<Longrightarrow> set sofar \<subseteq> set es \<Longrightarrow>
    \<exists>input' cs' db' e'. compaction_loop sys others I n input cs ks db e = Some (OK, input', cs', db', e') \<and>
      cursor input' (mem_kvs es) (length es) \<and>
      run_inv (n + length rest) (sofar @ kept_entries c options (cs_smallest_snapshot cs) rest ks (cs_compaction cs)) cs' db' e'"
proof (induction rest arbitrary: pre input n sofar cs ks db e)
  case Nil
  obtain db1 e1 where o: "others n (db, e) = (db1, e1)" by fastforce
  have "quiet_step files egood n (db, e) (db1, e1)" using q unfolding quiet_def by (metis o)
  then have inv: "run_inv n sofar cs db1 e1" using run_inv_quiet Nil.prems(3) by blast
  have "\<not> it_Valid I input" using forward_iterator.fwd_Valid [OF it Nil.prems(2)] Nil.prems(1) by (simp add: mem_kvs_def)
  then show ?case using Nil.prems inv by (subst compaction_loop.simps) (simp add: o)
next
  case (Cons x rest)
  obtain db1 e1 where o: "others n (db, e) = (db1, e1)" by fastforce
  have "quiet_step files egood n (db, e) (db1, e1)" using q unfolding quiet_def by (metis o)
  then have inv: "run_inv n sofar cs db1 e1" using run_inv_quiet Cons.prems(3) by blast
  have len: "length pre < length (mem_kvs es)" "mem_kvs es ! length pre = (entry_ikey x, snd x)"
    using Cons.prems(1) by (simp_all add: mem_kvs_def nth_append)
  have kv: "it_key I input = entry_ikey x" "it_value I input = snd x" "it_status I input = OK" "it_Valid I input"
    using forward_iterator.fwd_entry [OF it Cons.prems(2) len(1)] len forward_iterator.fwd_status [OF it Cons.prems(2)]
      forward_iterator.fwd_Valid [OF it Cons.prems(2)] by simp_all
  obtain drop_entry ks' cp' where d: "compaction_drop c (cs_smallest_snapshot cs) (entry_ikey x) ks
      (snd (ShouldStopBefore c options (entry_ikey x) (cs_compaction cs))) = (drop_entry, ks', cp')" by (metis prod.collapse)
  let ?sofar = "if drop_entry then sofar else sofar @ [x]"
  have sorted: "sorted_wrt (\<lambda>a b. entry_cmp c a b < 0) (?sofar @ rest)" "sorted_wrt (\<lambda>a b. entry_cmp c a b < 0) (sofar @ [x])"
    "sorted_wrt (\<lambda>a b. entry_cmp c a b < 0) sofar"
    using Cons.prems(5) by (auto simp: sorted_wrt_append)
  have sub: "set (sofar @ [x]) \<subseteq> set es" "set ?sofar \<subseteq> set es" using Cons.prems(1,6) by auto
  have n: "n < 2 ^ 62" using Cons.prems(4) by simp
  obtain cs' db' e' where s: "compaction_step sys I input cs ks db1 e1 = Some (OK, cs', ks', db', e')"
    "run_inv (Suc n) ?sofar cs' db' e'" "cs_compaction cs' = cp'" "cs_smallest_snapshot cs' = cs_smallest_snapshot cs"
    by (rule step_entry [OF inv n kv(1-3) writable_suffixes [OF run sorted(3) Cons.prems(6)] writable_suffixes [OF run sorted(2) sub(1)] d])
  have "cursor (it_Next I input) (mem_kvs es) (length (pre @ [x]))"
    using forward_iterator.fwd_Next [OF it Cons.prems(2) len(1)] by simp
  from Cons.IH [OF _ this s(2) _ sorted(1) sub(2), of ks'] Cons.prems(1,4) s(3,4)
  obtain input' cs'' db'' e'' where
    "compaction_loop sys others I (Suc n) (it_Next I input) cs' ks' db' e' = Some (OK, input', cs'', db'', e'')"
    "cursor input' (mem_kvs es) (length es)"
    "run_inv (Suc n + length rest) (?sofar @ kept_entries c options (cs_smallest_snapshot cs) rest ks' cp') cs'' db'' e''" by auto
  moreover have "\<not> db_shutting_down db1" using inv by (simp add: run_inv_def run_db_def)
  ultimately show ?case using d by (cases drop_entry) (subst compaction_loop.simps, simp add: o kv(4) s(1))+
qed

lemma copy_result:
  assumes it: "forward_iterator I cursor" "cursor input (mem_kvs es) i" and q: "quiet files egood others"
    and run: "\<forall>g. sorted_wrt (\<lambda>a b. entry_cmp c a b < 0) g \<longrightarrow> set g \<subseteq> set es \<longrightarrow> writable_run g"
    and es: "sorted_wrt (\<lambda>a b. entry_cmp c a b < 0) es" "length es < 2 ^ 62"
    and start: "egood e" "run_db c options dbname 0 db" "cs_outputs cs = []" "cs_builder cs = None"
  shows "\<exists>cs' db' e' groups. compaction_copy sys others I input cs db e = Some (OK, cs', db', e') \<and>
    list_all2 (output_holds c valid sys options (files e') dbname) (cs_outputs cs') groups \<and>
    concat groups = kept_entries c options (cs_smallest_snapshot cs) es KeyState_new (cs_compaction cs)"
proof -
  let ?kept = "kept_entries c options (cs_smallest_snapshot cs) es KeyState_new (cs_compaction cs)"
  have inv0: "run_inv 0 [] cs db e" using start by (simp add: run_inv_def run_files_def outputs_ok_def)
  from loop_entries [OF it(1) q run, of "[]" es "it_SeekToFirst I input" 0 "[]" cs db e KeyState_new]
    forward_iterator.fwd_SeekToFirst [OF it] es inv0
  obtain input1 cs1 db1 e1 where l: "compaction_loop sys others I 0 (it_SeekToFirst I input) cs KeyState_new db e = Some (OK, input1, cs1, db1, e1)"
    "cursor input1 (mem_kvs es) (length es)" "run_inv (length es) ?kept cs1 db1 e1" by auto
  have st: "it_status I input1 = OK" using forward_iterator.fwd_status [OF it(1) l(2)] .
  have sd: "\<not> db_shutting_down db1" using l(3) by (simp add: run_inv_def run_db_def)
  have kept: "sorted_wrt (\<lambda>a b. entry_cmp c a b < 0) (kept_entries c options snap xs ks cp) \<and> set (kept_entries c options snap xs ks cp) \<subseteq> set xs"
    if "sorted_wrt (\<lambda>a b. entry_cmp c a b < 0) xs" for xs snap ks cp
    using that by (induction xs arbitrary: ks cp) (auto split: prod.split)
  have closed: "\<exists>groups. list_all2 (output_holds c valid sys options (files e') dbname) (cs_outputs cs') groups \<and> concat groups = ?kept"
    if "run_inv (length es) ?kept cs' db1 e'" "cs_builder cs' = None" for cs' e'
    using that by (auto simp: run_inv_def run_files_def holds_def [abs_def])
  show ?thesis
  proof (cases "cs_builder cs1 = None")
    case True
    then show ?thesis using closed [OF l(3) True] by (simp add: compaction_copy_def l(1) st sd)
  next
    case False
    obtain cs2 e2 where f: "FinishCompactionOutputFile sys OK cs1 e1 = (OK, cs2, e2)" "run_inv (length es) ?kept cs2 db1 e2" "cs_builder cs2 = None"
      using Finish_output [OF l(3) False writable_suffixes [OF run]] kept [OF es(1)] by metis
    then show ?thesis using closed [OF f(2,3)] False by (simp add: compaction_copy_def l(1) st sd)
  qed
qed

end

section \<open>Properties\<close>


text \<open>A sample: one entry, from a memtable, into files in memory.\<close>

definition sample_compaction :: Compaction where
  "sample_compaction = (Compaction_new mem_options 0)\<lparr> cp_input_version := Some Version_new \<rparr>"

lemma sample_fits:
  assumes "set g \<subseteq> {sample_put}" "sorted_wrt (\<lambda>a b. entry_cmp BytewiseComparator a b < 0) g" "fs_inv (snd w)" "fs_bytes (snd w) = []"
  shows "length (fs_bytes (snd (tb_file (snd (finished (mem_system mem_options dbname) mem_options w (mem_kvs g)))))) < 2 ^ 32"
proof -
  let ?C = port_no_codec and ?n = "TableBuilder_new mem_options w" and ?k = "entry_ikey sample_put"
  have tw: "table_writer (InternalKeyComparator BytewiseComparator) ikey_valid NamedWritableFile (\<lambda>w. fs_bytes (snd w)) (\<lambda>w'. fs_inv (snd w') \<and> fst w' = fst w) ?C"
    using mem_store.writer [of _ "fst w"] by simp
  note bound = table_writer.Finish_size [OF tw]
  have lk: "length ?k = 9" by (simp add: length_entry_ikey sample_put_def)
  have suc: "length (FindShortSuccessor (InternalKeyComparator BytewiseComparator) k) \<le> length k + 8" for k
    by (auto simp: InternalKeyComparator_def InternalKey_FindShortSuccessor_def Let_def PutFixed64_def ExtractUserKey_def)
  have n: "CurrentSizeEstimate (BlockBuilder_new i) = 8" for i by (simp add: CurrentSizeEstimate_def BlockBuilder_new_def)
  let ?b = "TableBuilder_Add ?C NamedWritableFile ?k [7] ?n"
  have b: "?b = ?n\<lparr> tb_last_key := ?k, tb_num_entries := 1, tb_data_block := BlockBuilder_Add ?k [7] (tb_data_block ?n) \<rparr>"
    using CurrentSizeEstimate_Add [of ?k "[7]" "BlockBuilder_new 16"] lk
    by (simp add: TableBuilder_Add_def TableBuilder_new_def mem_options_def Options_new_def Let_def n)
  have new: "tb_file ?n = w" "tb_filter_block ?n = None" "tb_options ?n = mem_options" "tb_last_key ?n = []"
    "opt_comparator mem_options = InternalKeyComparator BytewiseComparator"
    "tb_index_block ?n = BlockBuilder_new 1" "tb_data_block ?n = BlockBuilder_new 16"
    by (simp_all add: TableBuilder_new_def mem_options_def Options_new_def)
  have g: "g = [] \<or> g = [sample_put]"
  proof (cases g)
    case (Cons x xs)
    then have "x = sample_put" "set xs \<subseteq> {sample_put}" using assms(1) by auto
    moreover have "sample_put \<notin> set xs"
      using assms(2) three_way.cmp_refl [OF bytewise_internal_three_way] by (auto simp: Cons entry_cmp_def \<open>x = sample_put\<close>)
    ultimately show ?thesis using Cons by (cases xs) auto
  qed simp
  have "length (fs_bytes (snd (tb_file (snd (TableBuilder_Finish ?C NamedWritableFile ?n))))) \<le> 200"
    using bound [of ?n] suc [of "[]"] assms(3,4) by (simp add: new n)
  moreover have "length (fs_bytes (snd (tb_file (snd (TableBuilder_Finish ?C NamedWritableFile ?b))))) \<le> 300"
    using bound [of ?b] suc [of ?k] CurrentSizeEstimate_Add [of ?k "[7]" "BlockBuilder_new 16"] assms(3,4) unfolding b by (simp add: new n lk)
  ultimately show ?thesis using g by (auto simp: finished_def built_def mem_kvs_def sample_put_def)
qed


end
