(* ===== verification/DbRead.thy ===== *)
theory DbRead
  imports DbCompaction TableStore
begin

text \<open>
  Lookups and snapshots of an open database (\<open>db/db_impl.cc\<close>): a lookup asks the memtable, then the
  memtable that is being compacted, then the current version.
\<close>

section \<open>Definitions\<close>

definition GetSnapshot :: "'w DBImpl \<Rightarrow> SnapshotImpl \<times> 'w DBImpl" where
  "GetSnapshot db =
     (case Snapshot_New (vs_last_sequence (db_versions db)) (db_snapshots db) of
        (snapshot, l) \<Rightarrow> (snapshot, db\<lparr> db_snapshots := l \<rparr>))"

definition ReleaseSnapshot :: "SnapshotImpl \<Rightarrow> 'w DBImpl \<Rightarrow> 'w DBImpl" where
  "ReleaseSnapshot snapshot db = db\<lparr> db_snapshots := Snapshot_Delete snapshot (db_snapshots db) \<rparr>"

text \<open>The tail of \<open>Get\<close> and of \<open>RecordReadSample\<close>: statistics that may ask for a compaction.\<close>

definition with_stats :: "bool \<times> Version \<Rightarrow> 'w DBImpl \<Rightarrow> 'w DBImpl" where
  "with_stats r db =
     (case r of (wanted, v) \<Rightarrow>
        (let db = db\<lparr> db_versions := with_current v (db_versions db) \<rparr>
         in if wanted then MaybeScheduleCompaction db else db))"

text \<open>
  The status, the value, and the database with updated statistics; \<^term>\<open>None\<close> when a search in a memtable does not end.
  The references on the memtables and the version are dropped at the end.
\<close>

definition DBImpl_Get ::
    "('e, 'f, 'w) System \<Rightarrow> SnapshotImpl option \<Rightarrow> slice \<Rightarrow> 'w DBImpl \<Rightarrow> 'e \<Rightarrow> (Status \<times> slice option \<times> 'w DBImpl) option" where
  "DBImpl_Get sys snap key db e =
     (let snapshot = (case snap of Some s \<Rightarrow> sequence_number s | None \<Rightarrow> vs_last_sequence (db_versions db));
          lkey = LookupKey_new key snapshot
      in do {
           m \<leftarrow> MemTable_Get (the (db_mem db)) lkey;
           i \<leftarrow> (case (m, db_imm db) of (GetMissing, Some imm) \<Rightarrow> MemTable_Get imm lkey | _ \<Rightarrow> Some m);
           Some (case i of
                   GetValue v \<Rightarrow> (OK, Some v, db)
                 | GetStatus s \<Rightarrow> (s, None, db)
                 | GetMissing \<Rightarrow>
                     (case Version_Get (db_user_comparator db) (sys_table_get sys e) (vs_current (db_versions db)) lkey of
                        (s, v, stats) \<Rightarrow> (s, v, with_stats (UpdateStats stats (vs_current (db_versions db))) db)))
         })"

definition DBImpl_RecordReadSample :: "slice \<Rightarrow> 'w DBImpl \<Rightarrow> 'w DBImpl" where
  "DBImpl_RecordReadSample key db =
     with_stats (RecordReadSample (db_user_comparator db) key (vs_current (db_versions db))) db"

text \<open>The offsets of keys inside tables are a parameter, as in \<open>VersionSet::ApproximateOffsetOf\<close>.\<close>

definition GetApproximateSizes ::
    "(u64 \<Rightarrow> u64 \<Rightarrow> (slice \<Rightarrow> u64) option) \<Rightarrow> (slice \<times> slice) list \<Rightarrow> 'w DBImpl \<Rightarrow> u64 list" where
  "GetApproximateSizes table_offset ranges db =
     map (\<lambda>(start_key, limit_key).
            (let v = vs_current (db_versions db);
                 k1 = InternalKey_new start_key kMaxSequenceNumber kValueTypeForSeek;
                 k2 = InternalKey_new limit_key kMaxSequenceNumber kValueTypeForSeek;
                 start = VersionSet_ApproximateOffsetOf (db_user_comparator db) table_offset v k1;
                 limit = VersionSet_ApproximateOffsetOf (db_user_comparator db) table_offset v k2
             in if limit \<ge> start then limit - start else 0)) ranges"

section \<open>Snapshots\<close>

text \<open>Snapshots are taken at growing sequence numbers, so that the first of the list is the oldest.\<close>

definition snapshots_ok :: "'w DBImpl \<Rightarrow> bool" where
  "snapshots_ok db \<longleftrightarrow>
     sorted (map sequence_number (sn_list (db_snapshots db))) \<and>
     (\<forall>s \<in> set (sn_list (db_snapshots db)). sequence_number s \<le> vs_last_sequence (db_versions db) \<and> snap_id s < sn_next_id (db_snapshots db))"

lemma snapshots_ok_Get: "snapshots_ok db \<Longrightarrow> snapshots_ok (snd (GetSnapshot db))"
  by (auto simp: snapshots_ok_def GetSnapshot_def Snapshot_New_def Let_def sorted_append less_Suc_eq)

lemma snapshots_ok_Release: "snapshots_ok db \<Longrightarrow> snapshots_ok (ReleaseSnapshot s db)"
  by (auto simp: snapshots_ok_def ReleaseSnapshot_def Snapshot_Delete_def sorted_wrt_filter sorted_map intro: sorted_wrt_filter)

lemma smallest_snapshot_le:
  assumes "snapshots_ok db"
  shows "smallest_snapshot db \<le> vs_last_sequence (db_versions db)"
    "s \<in> set (sn_list (db_snapshots db)) \<Longrightarrow> smallest_snapshot db \<le> sequence_number s"
proof -
  show "smallest_snapshot db \<le> vs_last_sequence (db_versions db)"
    using assms by (cases "sn_list (db_snapshots db)") (auto simp: smallest_snapshot_def Snapshot_empty_def Snapshot_oldest_def snapshots_ok_def)
  show "smallest_snapshot db \<le> sequence_number s" if "s \<in> set (sn_list (db_snapshots db))"
    using assms that by (cases "sn_list (db_snapshots db)") (auto simp: smallest_snapshot_def Snapshot_empty_def Snapshot_oldest_def snapshots_ok_def)
qed

section \<open>Lookups\<close>

text \<open>What a database holds, from the newest to the oldest part.\<close>

definition db_holds ::
    "Comparator \<Rightarrow> table_get \<Rightarrow> (FileMetaData \<Rightarrow> mem_entry list) \<Rightarrow> 'w DBImpl \<Rightarrow> mem_entry list \<Rightarrow> mem_entry list \<Rightarrow> bool" where
  "db_holds c tget content db ms is \<longleftrightarrow>
     db_user_comparator db = c \<and> (\<exists>mt. db_mem db = Some mt \<and> mem_holds c mt ms) \<and>
     (case db_imm db of None \<Rightarrow> is = [] | Some imm \<Rightarrow> mem_holds c imm is) \<and>
     version_ok c tget content (vs_current (db_versions db)) \<and>
     newer c ms (is @ version_entries content (vs_current (db_versions db))) \<and>
     newer c is (version_entries content (vs_current (db_versions db))) \<and>
     inj_on (\<lambda>e. sequence (fst e)) (set ms) \<and> inj_on (\<lambda>e. sequence (fst e)) (set is)"

definition db_entries :: "(FileMetaData \<Rightarrow> mem_entry list) \<Rightarrow> 'w DBImpl \<Rightarrow> mem_entry list \<Rightarrow> mem_entry list \<Rightarrow> mem_entry list" where
  "db_entries content db ms is = ms @ is @ version_entries content (vs_current (db_versions db))"

lemma lookup_missing: "lookup_result r = GetMissing \<longleftrightarrow> r = None"
  by (auto simp: lookup_result_def split: option.splits ValueType.splits)

lemma UpdateStats_keeps:
  assumes "UpdateStats stats v = (r, v')"
  shows "map (map f_number) (v_files v') = map (map f_number) (v_files v)"
  using assms by (auto simp: UpdateStats_def Let_def o_def split: option.splits if_splits prod.splits)

lemma with_stats_keeps:
  "db_mem (with_stats r db) = db_mem db" "db_imm (with_stats r db) = db_imm db" "db_snapshots (with_stats r db) = db_snapshots db"
  "vs_last_sequence (db_versions (with_stats r db)) = vs_last_sequence (db_versions db)"
  "vs_current (db_versions (with_stats r db)) = snd r"
  by (simp_all add: with_stats_def Let_def MaybeScheduleCompaction_def with_current_def vs_current_def split: prod.split)

lemma get_all_parts:
  assumes tw: "three_way (Compare c)" and holds: "db_holds c (sys_table_get sys e) content db ms is" and u: "length u + 8 < 2 ^ 32"
    and s: "s = (case snap of Some x \<Rightarrow> sequence_number x | None \<Rightarrow> vs_last_sequence (db_versions db))" "s \<le> kMaxSequenceNumber"
  shows "\<exists>db'. DBImpl_Get sys snap u db e =
      Some (fst (get_result (newest c u s (db_entries content db ms is) None)),
            snd (get_result (newest c u s (db_entries content db ms is) None)), db') \<and>
    db_mem db' = db_mem db \<and> db_imm db' = db_imm db \<and> db_snapshots db' = db_snapshots db \<and>
    vs_last_sequence (db_versions db') = vs_last_sequence (db_versions db) \<and>
    map (map f_number) (v_files (vs_current (db_versions db'))) = map (map f_number) (v_files (vs_current (db_versions db)))"
proof -
  let ?v = "vs_current (db_versions db)" and ?k = "LookupKey_new u s"
  have io: "internal_order c" and mt: "mem_table c" using tw by (simp_all add: internal_order.intro mem_table.intro)
  obtain mem where h: "db_user_comparator db = c" "db_mem db = Some mem" "mem_holds c mem ms"
    "case db_imm db of None \<Rightarrow> is = [] | Some imm \<Rightarrow> mem_holds c imm is" "version_ok c (sys_table_get sys e) content ?v"
    "newer c ms (is @ version_entries content ?v)" "newer c is (version_entries content ?v)"
    "inj_on (\<lambda>e. sequence (fst e)) (set ms)" "inj_on (\<lambda>e. sequence (fst e)) (set is)"
    using holds by (auto simp: db_holds_def)
  have mget: "MemTable_Get mem ?k = Some (lookup_result (newest c u s ms None))"
    using mem_table.get_holds [OF mt h(3) u s(2) h(8)] .
  have iget: "(case db_imm db of None \<Rightarrow> Some GetMissing | Some imm \<Rightarrow> MemTable_Get imm ?k) = Some (lookup_result (newest c u s is None))"
    using h(4) mem_table.get_holds [OF mt _ u s(2) h(9)] by (cases "db_imm db") (auto simp: lookup_result_def)
  note parts = internal_order.newest_newer [OF io h(6)] internal_order.newest_newer [OF io h(7)]
  let ?r = "newest c u s (db_entries content db ms is) None"
  have r: "?r = (case newest c u s ms None of Some x \<Rightarrow> Some x | None \<Rightarrow>
      (case newest c u s is None of Some x \<Rightarrow> Some x | None \<Rightarrow> newest c u s (version_entries content ?v) None))"
    unfolding db_entries_def parts by (auto split: option.splits)
  obtain seek where vget: "Version_Get c (sys_table_get sys e) ?v ?k =
     (fst (get_result (newest c u s (version_entries content ?v) None)), snd (get_result (newest c u s (version_entries content ?v) None)), seek)"
    using Version_Get_newest [OF tw h(5) s(2)] by blast
  have get: "DBImpl_Get sys snap u db e =
      (let i = (if lookup_result (newest c u s ms None) = GetMissing then lookup_result (newest c u s is None) else lookup_result (newest c u s ms None))
       in Some (case i of GetValue v \<Rightarrow> (OK, Some v, db) | GetStatus s \<Rightarrow> (s, None, db)
          | GetMissing \<Rightarrow> (case Version_Get c (sys_table_get sys e) ?v ?k of
               (s, v, stats) \<Rightarrow> (s, v, with_stats (UpdateStats stats ?v) db))))"
    using iget unfolding DBImpl_Get_def Let_def s(1) [symmetric] h(1,2) option.sel mget
    by (cases "db_imm db"; cases "lookup_result (newest c u s ms None)") auto
  show ?thesis
  proof (cases "newest c u s ms None = None \<and> newest c u s is None = None")
    case True
    obtain b v' where uv: "UpdateStats seek ?v = (b, v')" by fastforce
    have "DBImpl_Get sys snap u db e = Some (fst (get_result ?r), snd (get_result ?r), with_stats (b, v') db)"
      using True by (simp add: get r vget uv lookup_result_def)
    then show ?thesis using UpdateStats_keeps [OF uv] by (simp add: with_stats_keeps)
  next
    case False
    let ?x = "if newest c u s ms None = None then newest c u s is None else newest c u s ms None"
    have x: "?x \<noteq> None" "?r = ?x" using False unfolding r by (auto split: option.splits)
    have "DBImpl_Get sys snap u db e =
        Some (case lookup_result ?x of GetValue v \<Rightarrow> (OK, Some v, db) | GetStatus s \<Rightarrow> (s, None, db)
          | GetMissing \<Rightarrow> (case Version_Get c (sys_table_get sys e) ?v ?k of
               (s, v, stats) \<Rightarrow> (s, v, with_stats (UpdateStats stats ?v) db)))"
      unfolding get Let_def lookup_missing by simp
    moreover obtain y where y: "?x = Some y" using x(1) by blast
    ultimately have "DBImpl_Get sys snap u db e = Some (fst (get_result ?r), snd (get_result ?r), db)"
      unfolding x(2) y by (cases "ikey_type (fst y)") (simp_all add: lookup_result_def get_result_def)
    then show ?thesis by simp
  qed
qed

section \<open>Properties\<close>

text \<open>
  C2: lookups in the database.  Let the memtable, the memtable that is being compacted and the tables of the current
  version hold entries such that for each user key newer ones are in the earlier part.  A lookup
  with a snapshot, or with the last sequence number when there is none, returns: the value of the
  newest entry of the key, over all three parts, that the snapshot sees, or \<open>NotFound\<close> when that entry is a deletion or
  there is none.  It leaves the three parts as they are.
\<close>

theorem db_get:
  assumes "three_way (Compare c)" "db_holds c (sys_table_get sys e) content db ms is" "length u + 8 < 2 ^ 32"
    and "s = (case snap of Some x \<Rightarrow> sequence_number x | None \<Rightarrow> vs_last_sequence (db_versions db))" "s \<le> kMaxSequenceNumber"
  shows "\<exists>db'. DBImpl_Get sys snap u db e =
      Some (fst (get_result (newest c u s (db_entries content db ms is) None)),
            snd (get_result (newest c u s (db_entries content db ms is) None)), db') \<and>
    db_mem db' = db_mem db \<and> db_imm db' = db_imm db \<and> db_snapshots db' = db_snapshots db \<and>
    vs_last_sequence (db_versions db') = vs_last_sequence (db_versions db) \<and>
    map (map f_number) (v_files (vs_current (db_versions db'))) = map (map f_number) (v_files (vs_current (db_versions db)))"
  by (rule get_all_parts [OF assms])

text \<open>A sample: a value in the memtable, and no tables.\<close>

definition sample_db :: "(slice \<times> FileState) DBImpl" where
  "sample_db = (DBImpl_new Options_new [100])\<lparr> db_mem := Some sample_memtable \<rparr>"

lemma Version_new_ok: "version_ok c tget content Version_new"
  by (simp add: version_ok_def Version_new_def level_sorted_def version_entries_def kNumLevels_def)

lemma sample_db_holds: "db_holds BytewiseComparator tget content sample_db [sample_put] []"
proof -
  have "vs_current (db_versions sample_db) = Version_Ref Version_new"
    by (simp add: sample_db_def DBImpl_new_def VersionSet_new_def AppendVersion_def vs_current_def Let_def)
  moreover have "version_ok BytewiseComparator tget content (Version_Ref Version_new)" "version_entries content (Version_Ref Version_new) = []"
    using Version_new_ok [of BytewiseComparator tget content] by (simp_all add: version_ok_def Version_Ref_def version_entries_def Version_new_def)
  ultimately show ?thesis using sample_memtable_holds
    by (simp add: db_holds_def newer_def) (simp add: sample_db_def DBImpl_new_def Let_def Options_new_def)
qed

theorem db_get_witness:
  "\<exists>db'. DBImpl_Get (mem_system mem_options [100]) (Some \<lparr> snap_id = 0, sequence_number = 9 \<rparr>) [1] sample_db (\<lambda>n. None) =
     Some (OK, Some [7], db')"
proof -
  have "version_entries content (vs_current (db_versions sample_db)) = []" for content
    by (simp add: sample_db_def DBImpl_new_def VersionSet_new_def AppendVersion_def vs_current_def Let_def version_entries_def Version_Ref_def Version_new_def)
  then have "get_result (newest BytewiseComparator [1] 9 (db_entries content sample_db [sample_put] []) None) = (OK, Some [7])" for content
    by (simp add: db_entries_def visible_def sample_put_def get_result_def)
  then show ?thesis
    using db_get [OF bytewise.three_way_axioms sample_db_holds, of "[1]" 9 "Some \<lparr> snap_id = 0, sequence_number = 9 \<rparr>" "mem_system mem_options [100]" "\<lambda>n. None"]
    by (auto simp: seq_le_max)
qed

end
