(* ===== verification/DbWrite.thy ===== *)
theory DbWrite
  imports DbRead
begin

text \<open>
  Writes to an open database (\<open>db/db_impl.cc\<close>): the queue of writers, grouping their batches, making room
  in the memtable, and logging and applying a group.  \<open>others n\<close> is what the other threads do while this one waits
  or sleeps for the \<open>n\<close>-th time, \<open>during\<close> what they do while the group is being written.
\<close>

section \<open>Definitions: grouping batches\<close>

definition ByteSize :: "slice \<Rightarrow> nat" where
  "ByteSize batch = length batch"

text \<open>The local variables of \<open>BuildBatchGroup\<close>: \<open>bg_in_tmp\<close> says that \<open>result\<close> is \<open>tmp_batch_\<close>, and the last writer is its number.\<close>

record BatchGroup =
  bg_result :: slice
  bg_in_tmp :: bool
  bg_size :: nat
  bg_last_writer :: nat

fun BuildBatchGroup_loop :: "DBWriter \<Rightarrow> nat \<Rightarrow> slice \<Rightarrow> BatchGroup \<Rightarrow> DBWriter list \<Rightarrow> BatchGroup" where
  "BuildBatchGroup_loop leader max_size tmp g [] = g"
| "BuildBatchGroup_loop leader max_size tmp g (w # ws) =
     (if w_sync w \<and> \<not> w_sync leader then g
      else
        (case w_batch w of
           None \<Rightarrow> BuildBatchGroup_loop leader max_size tmp (g\<lparr> bg_last_writer := w_id w \<rparr>) ws
         | Some batch \<Rightarrow>
             (let bytes = bg_size g + ByteSize batch
              in if bytes > max_size then g
                 else
                   (let result = (if bg_in_tmp g then bg_result g else WriteBatch_Append tmp (bg_result g))
                    in BuildBatchGroup_loop leader max_size tmp
                         \<lparr> bg_result = WriteBatch_Append result batch, bg_in_tmp = True, bg_size = bytes,
                           bg_last_writer = w_id w \<rparr> ws))))"

definition group_limit :: "nat \<Rightarrow> nat" where
  "group_limit bytes = (if bytes \<le> 128 * 1024 then bytes + 128 * 1024 else 1024 * 1024)"

definition BuildBatchGroup :: "slice \<Rightarrow> DBWriter list \<Rightarrow> BatchGroup" where
  "BuildBatchGroup tmp writers =
     (let leader = hd writers;
          result = the (w_batch leader);
          bytes = ByteSize result
      in BuildBatchGroup_loop leader (group_limit bytes) tmp
           \<lparr> bg_result = result, bg_in_tmp = False, bg_size = bytes, bg_last_writer = w_id leader \<rparr> (tl writers))"

section \<open>Definitions: making room\<close>

text \<open>The last branch of \<open>MakeRoomForWrite\<close>; the flag says that the loop goes on.\<close>

definition switch_memtable ::
    "('e, 'f, 'w) System \<Rightarrow> 'w DBImpl \<Rightarrow> 'e \<Rightarrow> Status \<times> bool \<times> 'w DBImpl \<times> 'e" where
  "switch_memtable sys db e =
     (let (new_log_number, vs) = NewFileNumber (db_versions db)
      in case env_NewWritableFile (sys_env sys) (LogFileName (db_dbname db) new_log_number) e of
           (s, lfile, e) \<Rightarrow>
             if \<not> ok s then (s, False, db\<lparr> db_versions := ReuseFileNumber new_log_number vs \<rparr>, e)
             else
               (case WF_Close (env_WF (sys_env sys)) (wr_dest (the (db_log db))) of
                  (s, logfile) \<Rightarrow>
                    (let db = db\<lparr> db_versions := vs \<rparr>;
                         db = (if \<not> ok s then RecordBackgroundError s db else db);
                         e = env_delete_WF (sys_env sys) logfile e;
                         db = db\<lparr> db_logfile_number := new_log_number, db_log := Some (Writer_new lfile 0),
                                  db_imm := db_mem db, db_has_imm := True,
                                  db_mem := Some (MemTable_Ref (MemTable_new (sys_new_char sys) (db_user_comparator db))) \<rparr>
                     in (s, True, MaybeScheduleCompaction db, e))))"

partial_function (option) MakeRoom_loop ::
    "('e, 'f, 'w) System \<Rightarrow> (nat \<Rightarrow> 'w DBImpl \<times> 'e \<Rightarrow> 'w DBImpl \<times> 'e) \<Rightarrow> nat \<Rightarrow> bool \<Rightarrow> bool \<Rightarrow> Status \<Rightarrow>
     'w DBImpl \<Rightarrow> 'e \<Rightarrow> (Status \<times> 'w DBImpl \<times> 'e) option" where
  "MakeRoom_loop sys others n force allow_delay s db e =
     (if \<not> ok (db_bg_error db) then Some (db_bg_error db, db, e)
      else if allow_delay \<and> NumLevelFiles 0 (db_versions db) \<ge> kL0_SlowdownWritesTrigger
      then (case others n (db, e) of (db, e) \<Rightarrow> MakeRoom_loop sys others (n + 1) force False s db e)
      else if \<not> force \<and> ApproximateMemoryUsage (the (db_mem db)) \<le> write_buffer_size (db_options db)
      then Some (s, db, e)
      else if db_imm db \<noteq> None
      then (case others n (db, e) of (db, e) \<Rightarrow> MakeRoom_loop sys others (n + 1) force allow_delay s db e)
      else if NumLevelFiles 0 (db_versions db) \<ge> kL0_StopWritesTrigger
      then (case others n (db, e) of (db, e) \<Rightarrow> MakeRoom_loop sys others (n + 1) force allow_delay s db e)
      else
        (case switch_memtable sys db e of
           (s, go_on, db, e) \<Rightarrow>
             if go_on then MakeRoom_loop sys others n False allow_delay s db e else Some (s, db, e)))"

definition MakeRoomForWrite ::
    "('e, 'f, 'w) System \<Rightarrow> (nat \<Rightarrow> 'w DBImpl \<times> 'e \<Rightarrow> 'w DBImpl \<times> 'e) \<Rightarrow> bool \<Rightarrow> 'w DBImpl \<Rightarrow> 'e \<Rightarrow>
     (Status \<times> 'w DBImpl \<times> 'e) option" where
  "MakeRoomForWrite sys others force db e = MakeRoom_loop sys others 0 force (\<not> force) OK db e"

section \<open>Definitions: writing\<close>

text \<open>
  Logging and applying a group, the part without the mutex: the status, whether a sync failed, and the
  database; \<^term>\<open>None\<close> when an insertion into the memtable does not end.
\<close>

definition Write_apply :: "('e, 'f, 'w) System \<Rightarrow> bool \<Rightarrow> slice \<Rightarrow> 'w DBImpl \<Rightarrow> (Status \<times> bool \<times> 'w DBImpl) option" where
  "Write_apply sys should_sync batch db =
     (let W = env_WF (sys_env sys);
          (s, wr) = AddRecord W batch (the (db_log db));
          (s, sync_error, wr) =
            (if ok s \<and> should_sync
             then (case WF_Sync W (wr_dest wr) of (s, logfile) \<Rightarrow> (s, \<not> ok s, wr\<lparr> wr_dest := logfile \<rparr>))
             else (s, False, wr));
          db = db\<lparr> db_log := Some wr \<rparr>
      in if ok s
         then (case InsertInto (sys_new_char sys) batch (the (db_mem db)) of
                 (s, mem) \<Rightarrow> map_option (\<lambda>mem. (s, sync_error, db\<lparr> db_mem := Some mem \<rparr>)) mem)
         else Some (s, sync_error, db))"

text \<open>Waking the writers of the group: those taken off the queue, and the rest.\<close>

fun wake_writers :: "nat \<Rightarrow> nat \<Rightarrow> Status \<Rightarrow> DBWriter list \<Rightarrow> DBWriter list \<times> DBWriter list" where
  "wake_writers self last_writer s [] = ([], [])"
| "wake_writers self last_writer s (w # ws) =
     (let ready = (if w_id w \<noteq> self then w\<lparr> w_status := s, w_done := True \<rparr> else w)
      in if w_id w = last_writer then ([ready], ws)
         else (case wake_writers self last_writer s ws of (woken, rest) \<Rightarrow> (ready # woken, rest)))"

text \<open>
  What the writer at the front of the queue does: the status, the writers it has taken off the queue, and
  the database.  \<open>SetSequence\<close> on a group of one batch changes the caller's batch.
\<close>

definition write_group ::
    "('e, 'f, 'w) System \<Rightarrow> ('w DBImpl \<times> 'e \<Rightarrow> 'w DBImpl \<times> 'e) \<Rightarrow> 'w DBImpl \<Rightarrow> 'e \<Rightarrow> (Status \<times> nat \<times> 'w DBImpl \<times> 'e) option" where
  "write_group sys during db e =
     (let w = hd (db_writers db);
          last_sequence = vs_last_sequence (db_versions db);
          g = BuildBatchGroup (db_tmp_batch db) (db_writers db);
          write_batch = SetSequence (bg_result g) (last_sequence + 1);
          last_sequence = last_sequence + scast (Count write_batch);
          db = (if bg_in_tmp g then db\<lparr> db_tmp_batch := write_batch \<rparr>
                else db\<lparr> db_writers := w\<lparr> w_batch := Some write_batch \<rparr> # tl (db_writers db) \<rparr>)
      in map_option
           (\<lambda>(s, sync_error, db).
              (case during (db, e) of
                 (db, e) \<Rightarrow>
                   (let db = (if sync_error then RecordBackgroundError s db else db);
                        db = (if bg_in_tmp g then db\<lparr> db_tmp_batch := WriteBatch_Clear \<rparr> else db)
                    in (s, bg_last_writer g, db\<lparr> db_versions := VersionSet_SetLastSequence last_sequence (db_versions db) \<rparr>, e))))
           (Write_apply sys (w_sync w) write_batch db))"

definition Write_leader ::
    "('e, 'f, 'w) System \<Rightarrow> (nat \<Rightarrow> 'w DBImpl \<times> 'e \<Rightarrow> 'w DBImpl \<times> 'e) \<Rightarrow> ('w DBImpl \<times> 'e \<Rightarrow> 'w DBImpl \<times> 'e) \<Rightarrow>
     'w DBImpl \<Rightarrow> 'e \<Rightarrow> (Status \<times> DBWriter list \<times> 'w DBImpl \<times> 'e) option" where
  "Write_leader sys others during db e = do {
     let w = hd (db_writers db);
     (s, db, e) \<leftarrow> MakeRoomForWrite sys others (w_batch w = None) db e;
     (s, last_writer, db, e) \<leftarrow>
       (if ok s \<and> w_batch w \<noteq> None then write_group sys during db e else Some (s, w_id w, db, e));
     let (woken, rest) = wake_writers (w_id w) last_writer s (db_writers db);
     Some (s, woken, db\<lparr> db_writers := rest \<rparr>, e)
   }"

text \<open>Waiting to be served or to come to the front; the other threads may finish the waiting writer.\<close>

partial_function (option) Write_wait ::
    "(nat \<Rightarrow> DBWriter \<times> 'w DBImpl \<times> 'e \<Rightarrow> DBWriter \<times> 'w DBImpl \<times> 'e) \<Rightarrow> nat \<Rightarrow> DBWriter \<Rightarrow> 'w DBImpl \<Rightarrow> 'e \<Rightarrow>
     (DBWriter \<times> 'w DBImpl \<times> 'e) option" where
  "Write_wait waiting n w db e =
     (if \<not> w_done w \<and> w_id w \<noteq> w_id (hd (db_writers db))
      then (case waiting n (w, db, e) of (w, db, e) \<Rightarrow> Write_wait waiting (n + 1) w db e)
      else Some (w, db, e))"

definition DBImpl_Write ::
    "('e, 'f, 'w) System \<Rightarrow> (nat \<Rightarrow> DBWriter \<times> 'w DBImpl \<times> 'e \<Rightarrow> DBWriter \<times> 'w DBImpl \<times> 'e) \<Rightarrow>
     (nat \<Rightarrow> 'w DBImpl \<times> 'e \<Rightarrow> 'w DBImpl \<times> 'e) \<Rightarrow> ('w DBImpl \<times> 'e \<Rightarrow> 'w DBImpl \<times> 'e) \<Rightarrow>
     nat \<Rightarrow> WriteOptions \<Rightarrow> slice option \<Rightarrow> 'w DBImpl \<Rightarrow> 'e \<Rightarrow> (Status \<times> DBWriter list \<times> 'w DBImpl \<times> 'e) option" where
  "DBImpl_Write sys waiting others during self options updates db e = do {
     let w = \<lparr> w_id = self, w_batch = updates, w_sync = sync options, w_done = False, w_status = OK \<rparr>;
     (w, db, e) \<leftarrow> Write_wait waiting 0 w (db\<lparr> db_writers := db_writers db @ [w] \<rparr>) e;
     if w_done w then Some (w_status w, [], db, e) else Write_leader sys others during db e
   }"

definition DB_Put ::
    "('e, 'f, 'w) System \<Rightarrow> (nat \<Rightarrow> DBWriter \<times> 'w DBImpl \<times> 'e \<Rightarrow> DBWriter \<times> 'w DBImpl \<times> 'e) \<Rightarrow>
     (nat \<Rightarrow> 'w DBImpl \<times> 'e \<Rightarrow> 'w DBImpl \<times> 'e) \<Rightarrow> ('w DBImpl \<times> 'e \<Rightarrow> 'w DBImpl \<times> 'e) \<Rightarrow>
     nat \<Rightarrow> WriteOptions \<Rightarrow> slice \<Rightarrow> slice \<Rightarrow> 'w DBImpl \<Rightarrow> 'e \<Rightarrow> (Status \<times> DBWriter list \<times> 'w DBImpl \<times> 'e) option" where
  "DB_Put sys waiting others during self options key val db e =
     DBImpl_Write sys waiting others during self options (Some (WriteBatch_Put WriteBatch_Clear key val)) db e"

definition DB_Delete ::
    "('e, 'f, 'w) System \<Rightarrow> (nat \<Rightarrow> DBWriter \<times> 'w DBImpl \<times> 'e \<Rightarrow> DBWriter \<times> 'w DBImpl \<times> 'e) \<Rightarrow>
     (nat \<Rightarrow> 'w DBImpl \<times> 'e \<Rightarrow> 'w DBImpl \<times> 'e) \<Rightarrow> ('w DBImpl \<times> 'e \<Rightarrow> 'w DBImpl \<times> 'e) \<Rightarrow>
     nat \<Rightarrow> WriteOptions \<Rightarrow> slice \<Rightarrow> 'w DBImpl \<Rightarrow> 'e \<Rightarrow> (Status \<times> DBWriter list \<times> 'w DBImpl \<times> 'e) option" where
  "DB_Delete sys waiting others during self options key db e =
     DBImpl_Write sys waiting others during self options (Some (WriteBatch_Delete WriteBatch_Clear key)) db e"

section \<open>Groups\<close>

text \<open>The operations a queued writer carries, and the bytes of its batch.\<close>

definition carries :: "DBWriter \<Rightarrow> batch_op list \<Rightarrow> bool" where
  "carries w ops \<longleftrightarrow> (case w_batch w of None \<Rightarrow> ops = [] | Some b \<Rightarrow> \<exists>q. b = batch_rep q ops)"

definition batch_bytes :: "DBWriter \<Rightarrow> nat" where
  "batch_bytes w = (case w_batch w of None \<Rightarrow> 0 | Some b \<Rightarrow> length b)"

definition stops_group :: "DBWriter \<Rightarrow> nat \<Rightarrow> nat \<Rightarrow> DBWriter \<Rightarrow> bool" where
  "stops_group leader max_size bytes w \<longleftrightarrow>
     w_sync w \<and> \<not> w_sync leader \<or> w_batch w \<noteq> None \<and> max_size < bytes + batch_bytes w"

text \<open>\<open>g\<close> describes the first \<open>k\<close> of the writers behind what \<open>g0\<close> describes.\<close>

definition grouped ::
    "DBWriter \<Rightarrow> nat \<Rightarrow> (DBWriter \<Rightarrow> batch_op list) \<Rightarrow> batch_op list \<Rightarrow> BatchGroup \<Rightarrow> DBWriter list \<Rightarrow> nat \<Rightarrow> BatchGroup \<Rightarrow> bool" where
  "grouped leader max_size ops ops0 g0 ws k g \<longleftrightarrow>
     k \<le> length ws \<and> (\<exists>q. bg_result g = batch_rep q (ops0 @ concat (map ops (take k ws)))) \<and>
     bg_size g = bg_size g0 + sum_list (map batch_bytes (take k ws)) \<and>
     length (bg_result g) \<le> bg_size g \<and> bg_size g \<le> max max_size (bg_size g0) \<and>
     bg_last_writer g = (if k = 0 then bg_last_writer g0 else w_id (ws ! (k - 1))) \<and>
     (\<forall>w \<in> set (take k ws). w_sync w \<longrightarrow> w_sync leader) \<and>
     (k < length ws \<longrightarrow> stops_group leader max_size (bg_size g) (ws ! k))"

lemma grouped_Cons:
  assumes "grouped leader max_size ops (ops0 @ ops w) h ws k g" "w_sync w \<longrightarrow> w_sync leader"
    and "bg_size h = bg_size g0 + batch_bytes w" "bg_last_writer h = w_id w" "bg_size h \<le> max max_size (bg_size g0)"
  shows "grouped leader max_size ops ops0 g0 (w # ws) (Suc k) g"
  using assms by (auto simp: grouped_def nth_Cons split: nat.split)

lemma length_batch_rep: "length (batch_rep q ops) = 12 + length (concat (map op_bytes ops))"
  by (simp add: batch_rep_def)

lemma group_loop:
  assumes "\<forall>w \<in> set ws. carries w (ops w)" "bg_result g = batch_rep q ops0" "length (bg_result g) \<le> bg_size g"
  shows "\<exists>k. grouped leader max_size ops ops0 g ws k (BuildBatchGroup_loop leader max_size WriteBatch_Clear g ws)"
  using assms
proof (induction ws arbitrary: g q ops0)
  case Nil
  then show ?case by (intro exI [of _ 0]) (auto simp: grouped_def)
next
  case (Cons w ws)
  have stop: "grouped leader max_size ops ops0 g (w # ws) 0 g" if "stops_group leader max_size (bg_size g) w"
    using Cons.prems that by (auto simp: grouped_def)
  consider (sync) "w_sync w" "\<not> w_sync leader" | (empty) "w_sync w \<longrightarrow> w_sync leader" "w_batch w = None"
    | (batch) b where "w_sync w \<longrightarrow> w_sync leader" "w_batch w = Some b" by fastforce
  then show ?case
  proof cases
    case sync
    then show ?thesis using stop by (intro exI [of _ 0]) (simp add: stops_group_def)
  next
    case empty
    let ?g = "g\<lparr> bg_last_writer := w_id w \<rparr>"
    have o: "ops w = []" using Cons.prems(1) empty(2) by (simp add: carries_def)
    obtain k where "grouped leader max_size ops ops0 ?g ws k (BuildBatchGroup_loop leader max_size WriteBatch_Clear ?g ws)"
      using Cons.IH [of ?g q ops0] Cons.prems by auto
    then have "grouped leader max_size ops ops0 g (w # ws) (Suc k) (BuildBatchGroup_loop leader max_size WriteBatch_Clear ?g ws)"
      using empty o by (intro grouped_Cons [where h = ?g]) (auto simp: batch_bytes_def)
    then show ?thesis using empty by auto
  next
    case (batch b)
    then obtain qb where b: "b = batch_rep qb (ops w)" using Cons.prems(1) by (auto simp: carries_def)
    show ?thesis
    proof (cases "bg_size g + ByteSize b > max_size")
      case True
      then show ?thesis using stop batch by (intro exI [of _ 0]) (auto simp: stops_group_def batch_bytes_def ByteSize_def Let_def)
    next
      case False
      let ?r = "if bg_in_tmp g then bg_result g else WriteBatch_Append WriteBatch_Clear (bg_result g)"
      let ?g = "\<lparr> bg_result = WriteBatch_Append ?r b, bg_in_tmp = True, bg_size = bg_size g + ByteSize b, bg_last_writer = w_id w \<rparr>"
      obtain q' where r: "WriteBatch_Append ?r b = batch_rep q' (ops0 @ ops w)"
        using Cons.prems(2) unfolding b Clear_batch by (cases "bg_in_tmp g") (auto simp: Append_batch)
      have "length (bg_result ?g) \<le> bg_size ?g"
        using Cons.prems(2,3) unfolding BatchGroup.simps r by (simp add: length_batch_rep ByteSize_def b)
      then obtain k where "grouped leader max_size ops (ops0 @ ops w) ?g ws k (BuildBatchGroup_loop leader max_size WriteBatch_Clear ?g ws)"
        using Cons.IH [of ?g q' "ops0 @ ops w"] Cons.prems(1) r by auto
      then have "grouped leader max_size ops ops0 g (w # ws) (Suc k) (BuildBatchGroup_loop leader max_size WriteBatch_Clear ?g ws)"
        using batch False by (intro grouped_Cons [where h = ?g]) (auto simp: batch_bytes_def ByteSize_def)
      then show ?thesis using batch False by (auto simp: Let_def)
    qed
  qed
qed

lemma group_built:
  assumes "\<forall>x \<in> set (w # ws). carries x (ops x)" "w_batch w \<noteq> None"
  shows "\<exists>k q. let g = BuildBatchGroup WriteBatch_Clear (w # ws); members = w # take k ws; bytes = sum_list (map batch_bytes members)
    in k \<le> length ws \<and> bg_result g = batch_rep q (concat (map ops members)) \<and> bg_last_writer g = w_id (last members) \<and>
       (\<forall>x \<in> set members. w_sync x \<longrightarrow> w_sync w) \<and> length (bg_result g) \<le> bytes \<and>
       bytes \<le> max (batch_bytes w) (group_limit (batch_bytes w)) \<and>
       (k < length ws \<longrightarrow> stops_group w (group_limit (batch_bytes w)) bytes (ws ! k))"
proof -
  obtain q where b: "w_batch w = Some (batch_rep q (ops w))" using assms by (auto simp: carries_def)
  let ?r = "batch_rep q (ops w)"
  let ?g = "\<lparr> bg_result = ?r, bg_in_tmp = False, bg_size = length ?r, bg_last_writer = w_id w \<rparr>"
  let ?h = "BuildBatchGroup WriteBatch_Clear (w # ws)"
  have h: "?h = BuildBatchGroup_loop w (group_limit (length ?r)) WriteBatch_Clear ?g ws"
    by (simp add: BuildBatchGroup_def b ByteSize_def Let_def)
  have "\<exists>k. grouped w (group_limit (length ?r)) ops (ops w) ?g ws k ?h"
    unfolding h using assms(1) by (intro group_loop) auto
  then obtain k where k: "grouped w (group_limit (length ?r)) ops (ops w) ?g ws k ?h" by blast
  have l: "last (w # take k ws) = (if k = 0 then w else ws ! (k - 1))" if "k \<le> length ws"
    using that by (cases k) (auto simp: last_conv_nth nth_Cons')
  show ?thesis using k l b
    by (intro exI [of _ k]) (auto simp: grouped_def batch_bytes_def Let_def max.commute)
qed

section \<open>Writing a group\<close>

lemma op_entries_range:
  assumes "unat q + length ops \<le> 2 ^ 56" "x \<in> set (op_entries q ops)"
  shows "q \<le> sequence (fst x) \<and> unat (sequence (fst x)) < unat q + length ops"
proof -
  have "sequence (fst x) \<in> set (map (\<lambda>e. sequence (fst e)) (op_entries q ops))" using assms(2) by simp
  then obtain i where i: "i < length ops" "sequence (fst x) = q + of_nat i" unfolding op_entries_sequence by auto
  have "unat (of_nat (unat q + i) :: u64) = unat q + i" using i(1) assms(1) by (intro unat_u64_of_nat) simp
  then have "unat (q + of_nat i) = unat q + i" by simp
  then show ?thesis using i by (simp add: word_le_nat_alt)
qed


lemma insert_batch:
  assumes "mem_table c" "mem_holds c mt es" "\<forall>op \<in> set ops. op_fits op" "length ops < 2 ^ 31"
    and "unat q + length ops \<le> 2 ^ 56" "\<forall>x \<in> set es. sequence (fst x) < q"
  shows "\<exists>mt' es'. InsertInto new_char (batch_rep q ops) mt = (OK, Some mt') \<and> mem_holds c mt' es' \<and>
    set es' = set es \<union> set (op_entries q ops)"
proof -
  have small: "\<forall>op \<in> set ops. op_small op" using assms(3) op_fits_small by blast
  have ok: "\<forall>e \<in> set (op_entries q ops). entry_small e" "distinct (map (\<lambda>e. sequence (fst e)) (op_entries q ops))"
    using op_entries_ok [OF assms(3,5)] by auto
  have "\<forall>e \<in> set (op_entries q ops). q \<le> sequence (fst e)"
    using op_entries_range [OF assms(5)] by blast
  then have "\<forall>e \<in> set (op_entries q ops). \<forall>x \<in> set es. sequence (fst e) \<noteq> sequence (fst x)"
    using assms(6) by fastforce
  from mem_table.add_all_holds [OF assms(1,2) ok this, of new_char] obtain mt' es' where
    mt': "mem_add_all new_char (op_entries q ops) mt = Some mt'" "mem_holds c mt' es'" "set es' = set es \<union> set (op_entries q ops)"
    by blast
  have "Iterate (MemTableInserter new_char) (batch_rep q ops) (q, Some mt) = (OK, q + of_nat (length ops), Some mt')"
    using Iterate_batch [OF small assms(4), of "MemTableInserter new_char" q "(q, Some mt)"] mt'(1) by (simp add: fold_inserter)
  then show ?thesis using mt'(2,3) by (auto simp: InsertInto_def)
qed

lemma apply_group:
  assumes "mem_table c" "writable_file (env_WF (sys_env sys)) contents good"
    and "db_log db = Some wr" "writer_inv good wr" "db_mem db = Some mt" "mem_holds c mt ms"
    and "\<forall>op \<in> set ops. op_fits op" "length ops < 2 ^ 31" "unat q + length ops \<le> 2 ^ 56" "\<forall>x \<in> set ms. sequence (fst x) < q"
  shows "\<exists>wr' out mt' ms'. Write_apply sys should_sync (batch_rep q ops) db = Some (OK, False, db\<lparr> db_log := Some wr', db_mem := Some mt' \<rparr>) \<and>
    writer_inv good wr' \<and> emits (wr_block_offset wr) True (batch_rep q ops) out (wr_block_offset wr') \<and>
    contents (wr_dest wr') = contents (wr_dest wr) @ out \<and>
    mem_holds c mt' ms' \<and> set ms' = set ms \<union> set (op_entries q ops)"
proof -
  let ?W = "env_WF (sys_env sys)"
  obtain wr1 out where w1: "AddRecord ?W (batch_rep q ops) wr = (OK, wr1)" "writer_inv good wr1"
    "emits (wr_block_offset wr) True (batch_rep q ops) out (wr_block_offset wr1)" "contents (wr_dest wr1) = contents (wr_dest wr) @ out"
    using log_writer.add_loop [OF log_writer.intro [OF assms(2)] refl assms(4), of "batch_rep q ops" True] by (auto simp: AddRecord_def)
  obtain d where d: "WF_Sync ?W (wr_dest wr1) = (OK, d)" "contents d = contents (wr_dest wr1)" "good d"
    using writable_file.sync [OF assms(2), of "wr_dest wr1"] w1(2) by (auto simp: writer_inv_def)
  obtain mt' ms' where m: "InsertInto (sys_new_char sys) (batch_rep q ops) mt = (OK, Some mt')" "mem_holds c mt' ms'"
    "set ms' = set ms \<union> set (op_entries q ops)"
    using insert_batch [OF assms(1,6-10)] by blast
  let ?wr = "if should_sync then wr1\<lparr> wr_dest := d \<rparr> else wr1"
  have "Write_apply sys should_sync (batch_rep q ops) db = Some (OK, False, db\<lparr> db_log := Some ?wr, db_mem := Some mt' \<rparr>)"
    using assms(3,5) w1(1) d(1) m(1) by (simp add: Write_apply_def Let_def)
  moreover have "writer_inv good ?wr" "wr_block_offset ?wr = wr_block_offset wr1" "contents (wr_dest ?wr) = contents (wr_dest wr1)"
    using w1(2) d by (auto simp: writer_inv_def)
  ultimately show ?thesis using w1(3,4) m(2,3)
    by (intro exI [of _ ?wr] exI [of _ out] exI [of _ mt'] exI [of _ ms']) simp
qed

text \<open>The writers of the group leave the queue, those behind them stay.\<close>

lemma wake_prefix:
  assumes "distinct (map w_id (xs @ [x]))"
  shows "wake_writers self (w_id x) s (xs @ x # ys) =
    (map (\<lambda>w. if w_id w \<noteq> self then w\<lparr> w_status := s, w_done := True \<rparr> else w) (xs @ [x]), ys)"
  using assms by (induction xs) (auto simp: Let_def)

text \<open>
  What the other threads may do while a group is written: queue writers behind those that wait, and rearrange what is below the memtable without
  changing the newest entries.
\<close>

definition background :: "Comparator \<Rightarrow> ('e, 'f, 'w) System \<Rightarrow> ('w DBImpl \<times> 'e \<Rightarrow> 'w DBImpl \<times> 'e) \<Rightarrow> bool" where
  "background c sys during \<longleftrightarrow>
     (\<forall>db e db' e'. during (db, e) = (db', e') \<longrightarrow>
        db_log db' = db_log db \<and> vs_last_sequence (db_versions db') = vs_last_sequence (db_versions db) \<and>
        (\<exists>queued. db_writers db' = db_writers db @ queued) \<and>
        (\<forall>content ms is. db_holds c (sys_table_get sys e) content db ms is \<longrightarrow>
           (\<exists>content' is'. db_holds c (sys_table_get sys e') content' db' ms is' \<and>
              (\<forall>u s. vs_last_sequence (db_versions db) \<le> s \<longrightarrow>
                 newest c u s (is' @ version_entries content' (vs_current (db_versions db'))) None =
                 newest c u s (is @ version_entries content (vs_current (db_versions db))) None))))"

lemma scast_count: "n < 2 ^ 31 \<Longrightarrow> (scast (of_nat n :: u32) :: u64) = of_nat n"
  by (simp add: scast_eq sint_count)

lemma newer_later:
  assumes "\<forall>x \<in> set ys. sequence (fst x) \<le> q" "\<forall>x \<in> set xs. q < sequence (fst x)"
  shows "newer c xs ys"
  using assms by (fastforce simp: newer_def)

text \<open>Entries with later sequence numbers join the memtable.\<close>

lemma holds_grown:
  assumes "three_way (Compare c)" "db_holds c tget content db ms is" "\<forall>x \<in> set (db_entries content db ms is). sequence (fst x) \<le> q"
    and "mem_holds c mt' ms'" "set ms' = set ms \<union> set new" "\<forall>x \<in> set new. q < sequence (fst x)" "inj_on (\<lambda>e. sequence (fst e)) (set new)"
  shows "db_holds c tget content (db\<lparr> db_log := wr', db_mem := Some mt' \<rparr>) ms' is"
    and "newest c u s ms' None = newest c u s (new @ ms) None"
    and "newer c (new @ ms) (is @ version_entries content (vs_current (db_versions db)))"
proof -
  let ?rest = "is @ version_entries content (vs_current (db_versions db))"
  have old: "\<forall>x \<in> set ms. sequence (fst x) \<le> q" "\<forall>x \<in> set ?rest. sequence (fst x) \<le> q" using assms(3) by (auto simp: db_entries_def)
  have "newer c new ?rest" using newer_later [OF old(2) assms(6)] .
  then show nw: "newer c (new @ ms) ?rest" using assms(2) by (auto simp: newer_def db_holds_def)
  have inj: "inj_on (\<lambda>e. sequence (fst e)) (set (new @ ms))"
    using assms(2,6,7) old(1) by (fastforce simp: inj_on_Un db_holds_def)
  then show "newest c u s ms' None = newest c u s (new @ ms) None"
    using assms(5) by (intro newest_set) (auto simp: Un_commute)
  show "db_holds c tget content (db\<lparr> db_log := wr', db_mem := Some mt' \<rparr>) ms' is"
    using assms(2,4,5) nw inj by (auto simp: db_holds_def newer_def Un_commute)
qed

lemma group_written:
  assumes tw: "three_way (Compare c)" and W: "writable_file (env_WF (sys_env sys)) contents good"
    and db: "db_holds c (sys_table_get sys e) content db ms is" "\<forall>x \<in> set (db_entries content db ms is). sequence (fst x) \<le> q"
    and log: "db_log db = Some wr" "writer_inv good wr"
    and g: "db_writers db = w # ws" "BuildBatchGroup (db_tmp_batch db) (db_writers db) = g" "bg_result g = batch_rep q0 ops"
    and fits: "\<forall>op \<in> set ops. op_fits op" "length ops < 2 ^ 31" "unat q + 1 + length ops \<le> 2 ^ 56"
    and q: "q = vs_last_sequence (db_versions db)" and other: "background c sys during"
  shows "\<exists>db' e' content' ms' is' wr' out queued.
    write_group sys during db e = Some (OK, bg_last_writer g, db', e') \<and>
    map w_id (db_writers db') = map w_id (db_writers db @ queued) \<and> tl (db_writers db') = tl (db_writers db @ queued) \<and>
    vs_last_sequence (db_versions db') = q + of_nat (length ops) \<and> db_log db' = Some wr' \<and> writer_inv good wr' \<and>
    emits (wr_block_offset wr) True (batch_rep (q + 1) ops) out (wr_block_offset wr') \<and>
    contents (wr_dest wr') = contents (wr_dest wr) @ out \<and>
    db_holds c (sys_table_get sys e') content' db' ms' is' \<and>
    (\<forall>u s. q \<le> s \<longrightarrow> newest c u s (db_entries content' db' ms' is') None =
       newest c u s (op_entries (q + 1) ops @ db_entries content db ms is) None)"
proof -
  have io: "internal_order c" and mt: "mem_table c" using tw by (simp_all add: internal_order.intro mem_table.intro)
  let ?new = "op_entries (q + 1) ops"
  have q1: "unat (q + 1) = unat q + 1" using fits(3) by (simp add: unat_word_ariths)
  have range: "\<forall>x \<in> set ?new. q < sequence (fst x)"
    using op_entries_range [of "q + 1" ops] q1 fits(3) by (fastforce simp: word_le_nat_alt word_less_nat_alt)
  have inj: "inj_on (\<lambda>e. sequence (fst e)) (set ?new)" using op_entries_ok [of ops "q + 1"] fits q1 by (simp add: inj_on_distinct)
  define db1 where "db1 = (if bg_in_tmp g then db\<lparr> db_tmp_batch := batch_rep (q + 1) ops \<rparr>
      else db\<lparr> db_writers := (hd (db_writers db))\<lparr> w_batch := Some (batch_rep (q + 1) ops) \<rparr> # tl (db_writers db) \<rparr>)"
  have s1: "db_holds c (sys_table_get sys e) content db1 ms is" "db_log db1 = Some wr" "db_versions db1 = db_versions db"
    "db_entries content db1 ms is = db_entries content db ms is" "tl (db_writers db1) = tl (db_writers db)"
    "db_writers db1 \<noteq> []" "map w_id (db_writers db1) = map w_id (db_writers db)"
    using db(1) log(1) g(1) by (auto simp: db1_def db_holds_def db_entries_def)
  obtain m where m: "db_mem db1 = Some m" "mem_holds c m ms" using s1(1) by (auto simp: db_holds_def)
  have "\<forall>x \<in> set ms. sequence (fst x) < q + 1"
    using db(2) q1 by (simp add: db_entries_def ball_Un word_less_nat_alt word_le_nat_alt less_Suc_eq_le)
  then obtain wr' out mt' ms' where ap: "Write_apply sys (w_sync w) (batch_rep (q + 1) ops) db1 = Some (OK, False, db1\<lparr> db_log := Some wr', db_mem := Some mt' \<rparr>)"
    "writer_inv good wr'" "emits (wr_block_offset wr) True (batch_rep (q + 1) ops) out (wr_block_offset wr')"
    "contents (wr_dest wr') = contents (wr_dest wr) @ out" "mem_holds c mt' ms'" "set ms' = set ms \<union> set ?new"
    using apply_group [OF mt W s1(2) log(2) m fits(1,2), of "q + 1"] q1 fits(3) by force
  let ?db2 = "db1\<lparr> db_log := Some wr', db_mem := Some mt' \<rparr>"
  note grown = holds_grown [OF tw s1(1) _ ap(5,6) range inj, unfolded s1(4), OF db(2)]
  obtain db3 e' where d: "during (?db2, e) = (db3, e')" by fastforce
  obtain queued content' is' where d3: "db_log db3 = Some wr'" "vs_last_sequence (db_versions db3) = q" "db_writers db3 = db_writers db1 @ queued"
    "db_holds c (sys_table_get sys e') content' db3 ms' is'"
    "\<forall>u s. q \<le> s \<longrightarrow> newest c u s (is' @ version_entries content' (vs_current (db_versions db3))) None =
        newest c u s (is @ version_entries content (vs_current (db_versions db))) None"
    using other [unfolded background_def, rule_format, OF d] grown(1) s1(3) q by fastforce
  define db' where "db' = (if bg_in_tmp g then db3\<lparr> db_tmp_batch := WriteBatch_Clear \<rparr> else db3)
      \<lparr> db_versions := VersionSet_SetLastSequence (q + of_nat (length ops)) (db_versions db3) \<rparr>"
  have run: "write_group sys during db e = Some (OK, bg_last_writer g, db', e')"
    using ap(1) d fits(2) unfolding write_group_def Let_def q [symmetric] g(2,3) batch_header(3) db1_def [symmetric]
    by (simp add: scast_count db'_def g(1))
  have keep: "vs_current (db_versions db') = vs_current (db_versions db3)" "db_writers db' = db_writers db3" "db_log db' = db_log db3"
    "vs_last_sequence (db_versions db') = q + of_nat (length ops)" "db_holds c (sys_table_get sys e') content' db' ms' is'"
    using d3(4) by (auto simp: db'_def VersionSet_SetLastSequence_def vs_current_def db_holds_def)
  have "newest c u s (db_entries content' db' ms' is') None = newest c u s (?new @ db_entries content db ms is) None" if "q \<le> s" for u s
  proof -
    have "newer c ms' (is' @ version_entries content' (vs_current (db_versions db3)))" using d3(4) by (simp add: db_holds_def)
    then show ?thesis
      using internal_order.newest_newer [OF io, of ms'] internal_order.newest_newer [OF io grown(3), of u s] d3(5) that s1(3) grown(2) [of u s]
      by (simp add: db_entries_def keep(1) cong: option.case_cong)
  qed
  then show ?thesis using run keep d3 ap(2-4) s1(5-7) g(1) 
    by (intro exI [of _ db'] exI [of _ e'] exI [of _ content'] exI [of _ ms'] exI [of _ is'] exI [of _ wr'] exI [of _ out] exI [of _ queued]) simp
qed

section \<open>Making room\<close>

text \<open>The states while a writer waits, and when it need not.\<close>

primrec others_run :: "(nat \<Rightarrow> 'x \<Rightarrow> 'x) \<Rightarrow> nat \<Rightarrow> nat \<Rightarrow> 'x \<Rightarrow> 'x" where
  "others_run others n 0 x = x"
| "others_run others n (Suc k) x = others_run others (n + 1) k (others n x)"

definition can_switch :: "'w DBImpl \<Rightarrow> bool" where
  "can_switch db \<longleftrightarrow> \<not> ok (db_bg_error db) \<or> db_imm db = None \<and> NumLevelFiles 0 (db_versions db) < kL0_StopWritesTrigger"

definition fresh_mem :: "('e, 'f, 'w) System \<Rightarrow> Comparator \<Rightarrow> MemTable" where
  "fresh_mem sys c = MemTable_Ref (MemTable_new (sys_new_char sys) c)"

lemma fresh_usage: "ApproximateMemoryUsage (fresh_mem sys c) = 4104"
  by (simp add: fresh_mem_def MemTable_Ref_def MemTable_new_def ApproximateMemoryUsage_def MemoryUsage_def SkipList_new_def
      NewNode_def AllocateAligned_def AllocateFallback_def AllocateNewBlock_def Arena_new_def kArenaBlockSize_def kMaxHeight_def Let_def)

text \<open>What \<open>MakeRoomForWrite\<close> promises when it returns \<open>s\<close> and \<open>db'\<close>.\<close>

definition room_made :: "('e, 'f, 'w) System \<Rightarrow> Comparator \<Rightarrow> bool \<Rightarrow> Status \<Rightarrow> 'w DBImpl \<Rightarrow> bool" where
  "room_made sys c force s db' \<longleftrightarrow>
     (ok s \<longrightarrow> ApproximateMemoryUsage (the (db_mem db')) \<le> write_buffer_size (db_options db') \<and>
        (force \<longrightarrow> db_mem db' = Some (fresh_mem sys c)))"

text \<open>The other threads leave the memtable, the options and the comparator alone.\<close>

definition keeps_mem :: "(nat \<Rightarrow> 'w DBImpl \<times> 'e \<Rightarrow> 'w DBImpl \<times> 'e) \<Rightarrow> bool" where
  "keeps_mem others \<longleftrightarrow>
     (\<forall>n db e db' e'. others n (db, e) = (db', e') \<longrightarrow>
        db_mem db' = db_mem db \<and> db_options db' = db_options db \<and> db_user_comparator db' = db_user_comparator db)"

lemma keeps_memD:
  "keeps_mem others \<Longrightarrow> others n (db, e) = (db', e') \<Longrightarrow>
   db_mem db' = db_mem db \<and> db_options db' = db_options db \<and> db_user_comparator db' = db_user_comparator db"
  unfolding keeps_mem_def by blast

lemma switch_makes_room:
  assumes "switch_memtable sys db e = (s, go_on, db', e')"
  shows "(go_on \<longrightarrow> db_mem db' = Some (fresh_mem sys (db_user_comparator db)) \<and> db_options db' = db_options db) \<and> (\<not> go_on \<longrightarrow> \<not> ok s)"
  using assms by (auto simp: switch_memtable_def Let_def fresh_mem_def MaybeScheduleCompaction_def RecordBackgroundError_def
      split: prod.splits if_splits)

lemma room_now:
  assumes "keeps_mem others" "db_mem db = Some m" "ApproximateMemoryUsage m \<le> write_buffer_size (db_options db)"
  shows "\<exists>s' db' e'. MakeRoom_loop sys others n False d s db e = Some (s', db', e') \<and> (ok s' \<longrightarrow> db_mem db' = Some m \<and> db_options db' = db_options db)"
proof (cases "ok (db_bg_error db) \<and> d \<and> NumLevelFiles 0 (db_versions db) \<ge> kL0_SlowdownWritesTrigger")
  case True
  obtain db1 e1 where o: "others n (db, e) = (db1, e1)" by fastforce
  then have "db_mem db1 = Some m" "db_options db1 = db_options db" using assms keeps_memD [OF assms(1) o] by auto
  moreover have "MakeRoom_loop sys others n False d s db e = MakeRoom_loop sys others (n + 1) False False s db1 e1"
    using True o by (subst MakeRoom_loop.simps) simp
  ultimately show ?thesis using assms(3) by (auto simp: MakeRoom_loop.simps [of sys others "Suc n"])
next
  case False
  then show ?thesis using assms by (subst MakeRoom_loop.simps) auto
qed

lemma switch_then_room:
  assumes "keeps_mem others" "switch_memtable sys db e = (s1, go_on, db1, e1)" "65536 \<le> write_buffer_size (db_options db)"
  shows "\<exists>s' db' e'. (if go_on then MakeRoom_loop sys others n False d s1 db1 e1 else Some (s1, db1, e1)) = Some (s', db', e') \<and>
    room_made sys (db_user_comparator db) force s' db'"
proof (cases go_on)
  case True
  then have m: "db_mem db1 = Some (fresh_mem sys (db_user_comparator db))" "db_options db1 = db_options db"
    using switch_makes_room [OF assms(2)] by auto
  then have "ApproximateMemoryUsage (fresh_mem sys (db_user_comparator db)) \<le> write_buffer_size (db_options db1)"
    using assms(3) by (simp add: fresh_usage)
  then show ?thesis using True room_now [OF assms(1) m(1), of sys n d s1 e1] m(2) assms(3)
    by (auto simp: room_made_def fresh_usage)
next
  case False
  then show ?thesis using switch_makes_room [OF assms(2)] by (auto simp: room_made_def)
qed

definition gives_room ::
    "('e, 'f, 'w) System \<Rightarrow> (nat \<Rightarrow> 'w DBImpl \<times> 'e \<Rightarrow> 'w DBImpl \<times> 'e) \<Rightarrow> nat \<Rightarrow> bool \<Rightarrow> bool \<Rightarrow> 'w DBImpl \<Rightarrow> 'e \<Rightarrow> bool" where
  "gives_room sys others n force d db e \<longleftrightarrow>
     (\<exists>s' db' e'. MakeRoom_loop sys others n force d OK db e = Some (s', db', e') \<and> room_made sys (db_user_comparator db) force s' db')"

text \<open>Again and again while the writer waits, there is a moment at which it need not.\<close>

definition progress :: "(nat \<Rightarrow> 'w DBImpl \<times> 'e \<Rightarrow> 'w DBImpl \<times> 'e) \<Rightarrow> nat \<Rightarrow> 'w DBImpl \<times> 'e \<Rightarrow> bool" where
  "progress others n x \<longleftrightarrow> (\<forall>m. \<exists>k \<ge> m. can_switch (fst (others_run others n k x)))"

lemma progress_step: "progress others n x \<Longrightarrow> progress others (n + 1) (others n x)"
  unfolding progress_def by (metis Suc_le_D Suc_le_mono others_run.simps(2))

lemma gives_room_step:
  assumes "keeps_mem others" "65536 \<le> write_buffer_size (db_options db)" "others n (db, e) = (db1, e1)"
    and "d \<longrightarrow> gives_room sys others (n + 1) force False db1 e1"
    and "\<not> can_switch db \<longrightarrow> gives_room sys others (n + 1) force d db1 e1"
  shows "gives_room sys others n force d db e"
proof -
  note keep = keeps_memD [OF assms(1,3)]
  obtain s2 go_on db2 e2 where sw: "switch_memtable sys db e = (s2, go_on, db2, e2)" by (metis prod_cases4)
  consider (err) "\<not> ok (db_bg_error db)"
    | (delay) "ok (db_bg_error db)" "d" "NumLevelFiles 0 (db_versions db) \<ge> kL0_SlowdownWritesTrigger"
    | (room) "ok (db_bg_error db)" "\<not> (d \<and> NumLevelFiles 0 (db_versions db) \<ge> kL0_SlowdownWritesTrigger)"
        "\<not> force \<and> ApproximateMemoryUsage (the (db_mem db)) \<le> write_buffer_size (db_options db)"
    | (wait) "ok (db_bg_error db)" "\<not> (d \<and> NumLevelFiles 0 (db_versions db) \<ge> kL0_SlowdownWritesTrigger)"
        "\<not> (\<not> force \<and> ApproximateMemoryUsage (the (db_mem db)) \<le> write_buffer_size (db_options db))" "\<not> can_switch db"
    | (switch) "ok (db_bg_error db)" "\<not> (d \<and> NumLevelFiles 0 (db_versions db) \<ge> kL0_SlowdownWritesTrigger)"
        "\<not> (\<not> force \<and> ApproximateMemoryUsage (the (db_mem db)) \<le> write_buffer_size (db_options db))" "can_switch db"
    by blast
  then show ?thesis
  proof cases
    case err
    then show ?thesis unfolding gives_room_def by (subst MakeRoom_loop.simps) (simp add: room_made_def)
  next
    case delay
    then have "MakeRoom_loop sys others n force d OK db e = MakeRoom_loop sys others (n + 1) force False OK db1 e1"
      using assms(3) by (subst MakeRoom_loop.simps) simp
    then show ?thesis using assms(4) delay keep by (simp add: gives_room_def)
  next
    case room
    then have "MakeRoom_loop sys others n force d OK db e = Some (OK, db, e)" 
      unfolding MakeRoom_loop.simps [of sys others n force d OK db e] if_not_P [OF room(2)] if_P [OF room(3)] using room(1) by simp
    then show ?thesis using room by (simp add: gives_room_def room_made_def)
  next
    case wait
    then have "MakeRoom_loop sys others n force d OK db e = MakeRoom_loop sys others (n + 1) force d OK db1 e1"
      unfolding MakeRoom_loop.simps [of sys others n force d OK db e] if_not_P [OF wait(2)] if_not_P [OF wait(3)]
      using assms(3) wait(1,4) by (auto simp: can_switch_def)
    then show ?thesis using assms(5) wait keep by (simp add: gives_room_def)
  next
    case switch
    then have "MakeRoom_loop sys others n force d OK db e =
        (if go_on then MakeRoom_loop sys others n False d s2 db2 e2 else Some (s2, db2, e2))"
      unfolding MakeRoom_loop.simps [of sys others n force d OK db e] if_not_P [OF switch(2)] if_not_P [OF switch(3)]
      by (simp add: sw can_switch_def)
    then show ?thesis using switch_then_room [OF assms(1) sw assms(2), of n d force] by (simp add: gives_room_def)
  qed
qed

lemma room_after_waiting:
  assumes "keeps_mem others"
    and "d \<longrightarrow> (\<forall>n db e. progress others n (db, e) \<longrightarrow> 65536 \<le> write_buffer_size (db_options db) \<longrightarrow> gives_room sys others n force False db e)"
    and "can_switch (fst (others_run others n k (db, e)))" "progress others n (db, e)" "65536 \<le> write_buffer_size (db_options db)"
  shows "gives_room sys others n force d db e"
  using assms(3-)
proof (induction k arbitrary: n db e)
  case 0
  obtain db1 e1 where o: "others n (db, e) = (db1, e1)" by fastforce
  have "d \<longrightarrow> gives_room sys others (n + 1) force False db1 e1"
    using assms(2) 0(3) keeps_memD [OF assms(1) o] progress_step [OF 0(2)] o by simp
  then show ?case using 0 by (intro gives_room_step [OF assms(1) _ o]) auto
next
  case (Suc k)
  obtain db1 e1 where o: "others n (db, e) = (db1, e1)" by fastforce
  note keep = keeps_memD [OF assms(1) o] and step = progress_step [OF Suc.prems(2), unfolded o]
  have "gives_room sys others (n + 1) force d db1 e1" using Suc.IH [of "n + 1" db1 e1] Suc.prems o keep step by simp
  moreover have "d \<longrightarrow> gives_room sys others (n + 1) force False db1 e1" using assms(2) Suc.prems(3) keep step by simp
  ultimately show ?case using Suc.prems(3) by (intro gives_room_step [OF assms(1) _ o]) auto
qed

lemma always_room:
  assumes "keeps_mem others" "progress others n (db, e)" "65536 \<le> write_buffer_size (db_options db)"
  shows "gives_room sys others n force d db e"
proof -
  have once: "gives_room sys others n force False db e"
    if "progress others n (db, e)" "65536 \<le> write_buffer_size (db_options db)" for n db e
    using room_after_waiting [OF assms(1), of False sys force n _ db e] that unfolding progress_def by blast
  show ?thesis using room_after_waiting [OF assms(1), of d sys force n _ db e] assms(2,3) once unfolding progress_def by blast
qed

text \<open>There is room already.\<close>

lemma room_at_once:
  assumes "ok (db_bg_error db)" "NumLevelFiles 0 (db_versions db) < kL0_SlowdownWritesTrigger"
    and "ApproximateMemoryUsage (the (db_mem db)) \<le> write_buffer_size (db_options db)"
  shows "MakeRoomForWrite sys others False db e = Some (OK, db, e)"
  using assms unfolding MakeRoomForWrite_def by (subst MakeRoom_loop.simps) simp

text \<open>The front writer with a batch, when there is room.\<close>

lemma leader_writes:
  assumes tw: "three_way (Compare c)" and W: "writable_file (env_WF (sys_env sys)) contents good"
    and db: "db_holds c (sys_table_get sys e) content db ms is" "\<forall>x \<in> set (db_entries content db ms is). sequence (fst x) \<le> q"
    and log: "db_log db = Some wr" "writer_inv good wr"
    and queue: "db_writers db = w # ws" "distinct (map w_id (w # ws))" "\<forall>x \<in> set (w # ws). carries x (ops x)" "w_batch w \<noteq> None"
      "db_tmp_batch db = WriteBatch_Clear"
    and fits: "\<forall>x \<in> set (w # ws). \<forall>op \<in> set (ops x). op_fits op" "length (concat (map ops (w # ws))) < 2 ^ 31"
      "unat q + 1 + length (concat (map ops (w # ws))) \<le> 2 ^ 56"
    and room: "ok (db_bg_error db)" "NumLevelFiles 0 (db_versions db) < kL0_SlowdownWritesTrigger"
      "ApproximateMemoryUsage (the (db_mem db)) \<le> write_buffer_size (db_options db)"
    and q: "q = vs_last_sequence (db_versions db)" and other: "background c sys during"
  shows "\<exists>k woken queued db' e' content' ms' is' wr' out. let new = concat (map ops (w # take k ws)) in
    Write_leader sys others during db e = Some (OK, woken, db', e') \<and>
    map w_id woken = map w_id (w # take k ws) \<and> (\<forall>x \<in> set (tl woken). w_done x \<and> w_status x = OK) \<and>
    db_writers db' = drop k ws @ queued \<and> vs_last_sequence (db_versions db') = q + of_nat (length new) \<and>
    db_log db' = Some wr' \<and> writer_inv good wr' \<and>
    emits (wr_block_offset wr) True (batch_rep (q + 1) new) out (wr_block_offset wr') \<and>
    contents (wr_dest wr') = contents (wr_dest wr) @ out \<and>
    db_holds c (sys_table_get sys e') content' db' ms' is' \<and>
    (\<forall>u s. q \<le> s \<longrightarrow> newest c u s (db_entries content' db' ms' is') None =
       newest c u s (op_entries (q + 1) new @ db_entries content db ms is) None)"
proof -
  obtain k q0 g where k: "k \<le> length ws" "g = BuildBatchGroup (db_tmp_batch db) (db_writers db)"
    "bg_result g = batch_rep q0 (concat (map ops (w # take k ws)))" "bg_last_writer g = w_id (last (w # take k ws))"
    using group_built [OF queue(3,4)] unfolding queue(1,5) Let_def by blast
  let ?new = "concat (map ops (w # take k ws))"
  have tot: "concat (map ops (w # ws)) = ?new @ concat (map ops (drop k ws))"
    by (metis append.simps(2) append_take_drop_id concat_append map_append)
  have f: "\<forall>op \<in> set ?new. op_fits op" "length ?new < 2 ^ 31" "unat q + 1 + length ?new \<le> 2 ^ 56"
    using fits in_set_takeD [of _ k ws] unfolding tot by auto
  note gw = group_written [OF tw W db log queue(1) k(2) [symmetric] k(3) f q other]
  obtain db1 e' content' ms' is' wr' out queued where r: "write_group sys during db e = Some (OK, bg_last_writer g, db1, e')"
    "map w_id (db_writers db1) = map w_id (db_writers db @ queued)" "tl (db_writers db1) = tl (db_writers db @ queued)"
    "vs_last_sequence (db_versions db1) = q + of_nat (length ?new)" "db_log db1 = Some wr'" "writer_inv good wr'"
    "emits (wr_block_offset wr) True (batch_rep (q + 1) ?new) out (wr_block_offset wr')"
    "contents (wr_dest wr') = contents (wr_dest wr) @ out" "db_holds c (sys_table_get sys e') content' db1 ms' is'"
    "\<forall>u s. q \<le> s \<longrightarrow> newest c u s (db_entries content' db1 ms' is') None = newest c u s (op_entries (q + 1) ?new @ db_entries content db ms is) None"
    using gw by blast
  obtain w' where q1: "db_writers db1 = w' # ws @ queued" "w_id w' = w_id w"
    using r(2,3) queue(1) by (cases "db_writers db1") auto
  have split: "w' # ws @ queued = butlast (w' # take k ws) @ last (w' # take k ws) # drop k ws @ queued"
    by (metis append.assoc append_Cons append_butlast_last_id append_take_drop_id list.discI append_Nil)
  have last: "w_id (last (w' # take k ws)) = w_id (last (w # take k ws))" using q1(2) by (cases "take k ws") auto
  have "distinct (map w_id (w' # take k ws))"
    using queue(2) q1(2) in_set_takeD [of _ k ws] by (fastforce simp: distinct_map inj_on_def)
  then have dist: "distinct (map w_id (butlast (w' # take k ws) @ [last (w' # take k ws)]))"
    by (subst append_butlast_last_id) auto
  let ?ready = "\<lambda>x. if w_id x \<noteq> w_id w then x\<lparr> w_status := OK, w_done := True \<rparr> else x"
  have wake: "wake_writers (w_id w) (bg_last_writer g) OK (db_writers db1) = (map ?ready (w' # take k ws), drop k ws @ queued)"
    using wake_prefix [OF dist, of "w_id w" OK "drop k ws @ queued"] append_butlast_last_id [of "w' # take k ws"]
    unfolding q1(1) split k(4) last by (simp only: list.simps(3) not_False_eq_True simp_thms)
  define woken where "woken = map ?ready (w' # take k ws)"
  define db' where "db' = db1\<lparr> db_writers := drop k ws @ queued \<rparr>"
  have run: "Write_leader sys others during db e = Some (OK, woken, db', e')"
    using queue(1,4) room_at_once [OF room, of sys others e] r(1) wake by (cases "w_batch w") (simp_all add: Write_leader_def woken_def db'_def)
  have ids: "map w_id woken = map w_id (w # take k ws)" using q1(2) by (auto simp: woken_def)
  have "w_id x \<noteq> w_id w" if "x \<in> set (take k ws)" for x using queue(2) in_set_takeD [OF that] by (auto simp: image_iff)
  then have finished: "\<forall>x \<in> set (tl woken). w_done x \<and> w_status x = OK" by (simp add: woken_def)
  have keep: "db_writers db' = drop k ws @ queued" "db_versions db' = db_versions db1" "db_log db' = Some wr'"
    "db_holds c (sys_table_get sys e') content' db' ms' is'" "db_entries content' db' ms' is' = db_entries content' db1 ms' is'"
    using r(5,9) by (simp_all add: db'_def db_holds_def db_entries_def)
  show ?thesis unfolding Let_def using run ids finished keep(1,3,4) r(4,6-8,10) unfolding keep(2,5) [symmetric] by blast
qed

section \<open>Properties\<close>

text \<open>
  C3: writes.  Let the memtables and tables of a database hold entries up to its last sequence number, its log be
  intact and its memtable have room.  The writer at the front of the queue then appends one record to the log, the batch of
  its group with the next sequence numbers, in the format the log reader accepts; enters
  all operations of the group into the memtable; takes exactly the group's writers off the queue with status \<open>OK\<close>; and
  advances the last sequence number by the number of operations.  Afterwards a lookup sees the newest among the new
  and the old entries.  Meanwhile other threads may queue writers and compact.
\<close>

theorem db_write:
  assumes "three_way (Compare c)" "writable_file (env_WF (sys_env sys)) contents good"
    and "db_holds c (sys_table_get sys e) content db ms is" "\<forall>x \<in> set (db_entries content db ms is). sequence (fst x) \<le> q"
    and "db_log db = Some wr" "writer_inv good wr"
    and "db_writers db = w # ws" "distinct (map w_id (w # ws))" "\<forall>x \<in> set (w # ws). carries x (ops x)" "w_batch w \<noteq> None"
      "db_tmp_batch db = WriteBatch_Clear"
    and "\<forall>x \<in> set (w # ws). \<forall>op \<in> set (ops x). op_fits op" "length (concat (map ops (w # ws))) < 2 ^ 31"
      "unat q + 1 + length (concat (map ops (w # ws))) \<le> 2 ^ 56"
    and "ok (db_bg_error db)" "NumLevelFiles 0 (db_versions db) < kL0_SlowdownWritesTrigger"
      "ApproximateMemoryUsage (the (db_mem db)) \<le> write_buffer_size (db_options db)"
    and "q = vs_last_sequence (db_versions db)" "background c sys during"
  shows "\<exists>k woken queued db' e' wr' out. let new = concat (map ops (w # take k ws)); q' = q + of_nat (length new) in
    Write_leader sys others during db e = Some (OK, woken, db', e') \<and>
    map w_id woken = map w_id (w # take k ws) \<and> (\<forall>x \<in> set (tl woken). w_done x \<and> w_status x = OK) \<and>
    db_writers db' = drop k ws @ queued \<and> vs_last_sequence (db_versions db') = q' \<and>
    db_log db' = Some wr' \<and> writer_inv good wr' \<and>
    emits (wr_block_offset wr) True (batch_rep (q + 1) new) out (wr_block_offset wr') \<and>
    contents (wr_dest wr') = contents (wr_dest wr) @ out \<and>
    (\<forall>u. length u + 8 < 2 ^ 32 \<longrightarrow> (\<exists>db''. DBImpl_Get sys None u db' e' =
       Some (fst (get_result (newest c u q' (op_entries (q + 1) new @ db_entries content db ms is) None)),
             snd (get_result (newest c u q' (op_entries (q + 1) new @ db_entries content db ms is) None)), db'')))"
proof -
  obtain k woken queued db' e' content' ms' is' wr' out where r:
    "Write_leader sys others during db e = Some (OK, woken, db', e')"
    "map w_id woken = map w_id (w # take k ws)" "\<forall>x \<in> set (tl woken). w_done x \<and> w_status x = OK"
    "db_writers db' = drop k ws @ queued"
    "vs_last_sequence (db_versions db') = q + of_nat (length (concat (map ops (w # take k ws))))"
    "db_log db' = Some wr'" "writer_inv good wr'"
    "emits (wr_block_offset wr) True (batch_rep (q + 1) (concat (map ops (w # take k ws)))) out (wr_block_offset wr')"
    "contents (wr_dest wr') = contents (wr_dest wr) @ out" "db_holds c (sys_table_get sys e') content' db' ms' is'"
    "\<forall>u s. q \<le> s \<longrightarrow> newest c u s (db_entries content' db' ms' is') None =
       newest c u s (op_entries (q + 1) (concat (map ops (w # take k ws))) @ db_entries content db ms is) None"
    using leader_writes [OF assms, of others] unfolding Let_def by blast
  let ?n = "length (concat (map ops (w # take k ws)))"
  let ?q' = "q + of_nat ?n"
  have "concat (map ops (w # ws)) = concat (map ops (w # take k ws)) @ concat (map ops (drop k ws))"
    by (metis append.simps(2) append_take_drop_id concat_append map_append)
  then have le: "unat q + 1 + ?n \<le> 2 ^ 56" using assms(14) by simp
  then have "unat (of_nat (unat q + ?n) :: u64) = unat q + ?n" by (intro unat_u64_of_nat) simp
  then have un: "unat ?q' = unat q + ?n" by simp
  then have q': "q \<le> ?q'" "?q' \<le> kMaxSequenceNumber" using le unfolding seq_le_max by (simp_all add: word_le_nat_alt)
  show ?thesis
    using r get_all_parts [OF assms(1) r(10) _ _ q'(2), where snap = None] r(5) q'(1) unfolding Let_def
    by (intro exI [of _ k] exI [of _ woken] exI [of _ queued] exI [of _ db'] exI [of _ e'] exI [of _ wr'] exI [of _ out]) fastforce
qed

text \<open>A sample: an empty database with one writer in the queue.\<close>

definition sample_writer :: DBWriter where
  "sample_writer = \<lparr> w_id = 1, w_batch = Some (batch_rep 0 [PutOp [1] [2]]), w_sync = True, w_done = False, w_status = OK \<rparr>"

definition sample_writing :: "(slice \<times> FileState) DBImpl" where
  "sample_writing = (DBImpl_new Options_new [100])
     \<lparr> db_mem := Some (fresh_mem (mem_system mem_options [100]) BytewiseComparator),
       db_log := Some (Writer_new ([108], FileState_new) 0), db_writers := [sample_writer] \<rparr>"

lemma sample_writing_simps:
  "vs_current (db_versions sample_writing) = Version_Ref Version_new" "vs_last_sequence (db_versions sample_writing) = 0"
  "db_imm sample_writing = None" "db_mem sample_writing = Some (fresh_mem (mem_system mem_options [100]) BytewiseComparator)"
  "db_user_comparator sample_writing = BytewiseComparator" "write_buffer_size (db_options sample_writing) = 4194304"
  "ok (db_bg_error sample_writing)" "NumLevelFiles 0 (db_versions sample_writing) = 0"
  by (simp_all add: sample_writing_def DBImpl_new_def VersionSet_new_def AppendVersion_def vs_current_def Let_def Options_new_def
      SanitizeOptions_def ClipToRange_def NumLevelFiles_def Version_Ref_def Version_new_def kNumLevels_def)

lemma sample_writing_holds: "db_holds BytewiseComparator tget content sample_writing [] []"
proof -
  have "mem_holds BytewiseComparator (fresh_mem (mem_system mem_options [100]) BytewiseComparator) []"
    using mem_new_holds [of BytewiseComparator "sys_new_char (mem_system mem_options [100])"]
    by (simp add: fresh_mem_def MemTable_Ref_def mem_holds_def)
  moreover have "version_ok BytewiseComparator tget content (Version_Ref Version_new)" "version_entries content (Version_Ref Version_new) = []"
    using Version_new_ok [of BytewiseComparator tget content] by (simp_all add: version_ok_def Version_Ref_def version_entries_def Version_new_def)
  ultimately show ?thesis by (simp add: db_holds_def sample_writing_simps newer_def)
qed

theorem db_write_witness:
  "\<exists>woken db' e' db''. Write_leader (mem_system mem_options [100]) (\<lambda>n x. x) (\<lambda>x. x) sample_writing (\<lambda>n. None) = Some (OK, woken, db', e') \<and>
     DBImpl_Get (mem_system mem_options [100]) None [1] db' e' = Some (OK, Some [2], db'')"
proof -
  let ?sys = "mem_system mem_options [100]" and ?ops = "\<lambda>w::DBWriter. [PutOp [1] [2]]"
  have bg: "background BytewiseComparator ?sys (\<lambda>x. x)" unfolding background_def by auto
  have inv: "writer_inv (\<lambda>w. fs_inv (snd w) \<and> fst w = [108]) (Writer_new ([108], FileState_new) 0)"
    by (simp add: writer_inv_def Writer_new_def fs_inv_new)
  have W: "writable_file (env_WF (sys_env ?sys)) (\<lambda>w. fs_bytes (snd w)) (\<lambda>w. fs_inv (snd w) \<and> fst w = [108])"
    using named_writable [of "[108]"] by simp
  have ent: "db_entries content sample_writing [] [] = []" for content
    by (simp add: db_entries_def sample_writing_simps version_entries_def Version_Ref_def Version_new_def)
  have log: "db_log sample_writing = Some (Writer_new ([108], FileState_new) 0)" "db_writers sample_writing = sample_writer # []"
    "db_tmp_batch sample_writing = WriteBatch_Clear"
    by (simp_all add: sample_writing_def DBImpl_new_def Let_def)
  have old: "\<forall>x \<in> set (db_entries (\<lambda>f. []) sample_writing [] []). sequence (fst x) \<le> 0" unfolding ent by simp
  have pre: "distinct (map w_id [sample_writer])" "\<forall>x \<in> set [sample_writer]. carries x (?ops x)" "w_batch sample_writer \<noteq> None"
    "\<forall>x \<in> set [sample_writer]. \<forall>op \<in> set (?ops x). op_fits op" "length (concat (map ?ops [sample_writer])) < 2 ^ 31"
    "unat (0 :: u64) + 1 + length (concat (map ?ops [sample_writer])) \<le> 2 ^ 56"
    "NumLevelFiles 0 (db_versions sample_writing) < kL0_SlowdownWritesTrigger"
    "ApproximateMemoryUsage (the (db_mem sample_writing)) \<le> write_buffer_size (db_options sample_writing)"
    by (auto simp: sample_writer_def carries_def sample_writing_simps fresh_usage kL0_SlowdownWritesTrigger_def)
  note w = db_write [OF bytewise.three_way_axioms W sample_writing_holds [of _ "\<lambda>f. []"] old log(1) inv log(2) pre(1-3) log(3) pre(4-6)
      sample_writing_simps(7) pre(7,8) sample_writing_simps(2) [symmetric] bg, where others = "\<lambda>n x. x" and e = "\<lambda>n. None"]
  let ?e = "\<lambda>k::nat. op_entries (0 + 1) (concat (map ?ops (sample_writer # take k []))) @ db_entries (\<lambda>f. []) sample_writing [] []"
  let ?q = "\<lambda>k::nat. 0 + of_nat (length (concat (map ?ops (sample_writer # take k []))))"
  obtain k :: nat and woken db' e' where r: "Write_leader ?sys (\<lambda>n x. x) (\<lambda>x. x) sample_writing (\<lambda>n. None) = Some (OK, woken, db', e')"
    "\<forall>u. length u + 8 < 2 ^ 32 \<longrightarrow> (\<exists>db''. DBImpl_Get ?sys None u db' e' =
       Some (fst (get_result (newest BytewiseComparator u (?q k) (?e k) None)),
             snd (get_result (newest BytewiseComparator u (?q k) (?e k) None)), db''))"
    using w unfolding Let_def by blast
  have "get_result (newest BytewiseComparator [1] (?q k) (?e k) None) = (OK, Some [2])"
    unfolding ent by (simp add: visible_def get_result_def)
  then show ?thesis using r(1) r(2) [rule_format, of "[1]"] by auto
qed

text \<open>
  C36: waiting for room ends.  When background work leaves the writer's memtable alone and, however long the writer
  has waited, comes again to a point where no memtable is waiting to be flushed and level 0 has less than 12 files, or to an
  error, then \<open>MakeRoomForWrite\<close> returns: with an error, or with a memtable that has room, which is a new one
  when the switch was forced.
\<close>

theorem make_room_returns:
  assumes "keeps_mem others" "progress others 0 (db, e)" "65536 \<le> write_buffer_size (db_options db)"
  shows "\<exists>s' db' e'. MakeRoomForWrite sys others force db e = Some (s', db', e') \<and>
    (ok s' \<longrightarrow> ApproximateMemoryUsage (the (db_mem db')) \<le> write_buffer_size (db_options db') \<and>
       (force \<longrightarrow> db_mem db' = Some (fresh_mem sys (db_user_comparator db))))"
  using always_room [OF assms, of sys force "\<not> force"] unfolding MakeRoomForWrite_def gives_room_def room_made_def .

theorem make_room_returns_witness:
  "\<exists>s' db' e'. MakeRoomForWrite (mem_system mem_options [100]) (\<lambda>n x. x) True sample_writing (\<lambda>n. None) = Some (s', db', e')"
proof -
  have run: "others_run (\<lambda>n x. x) n k x = x" for n k and x :: "(slice \<times> FileState) DBImpl \<times> mem_files"
    by (induction k arbitrary: n) auto
  have "progress (\<lambda>n x. x) 0 (sample_writing, \<lambda>n::slice. None :: FileState option)"
    by (auto simp: progress_def run can_switch_def sample_writing_simps kL0_StopWritesTrigger_def)
  then show ?thesis
    using make_room_returns [of "\<lambda>n x. x" sample_writing "\<lambda>n. None" "mem_system mem_options [100]" True]
    by (auto simp: keeps_mem_def sample_writing_simps)
qed



end
