(* ===== verification/DbOpen.thy ===== *)
theory DbOpen
  imports DbWrite VersionRecover
begin

text \<open>
  Creating, recovering, opening and destroying a database, and compactions that the client asks for
  (\<open>db/db_impl.cc\<close>).  Opening a database reads its manifest, then replays the logs that are newer than it.
\<close>

section \<open>Definitions: creating a database\<close>

definition NewDB :: "('e, 'f, 'w) System \<Rightarrow> 'w DBImpl \<Rightarrow> 'e \<Rightarrow> Status \<times> 'e" where
  "NewDB sys db e =
     (let env = sys_env sys;
          new_db = SetLastSequence 0 (SetNextFile 2 (SetLogNumber 0
                     (SetComparatorName (Name (db_user_comparator db)) VersionEdit_new)));
          manifest = DescriptorFileName (db_dbname db) 1
      in case env_NewWritableFile env manifest e of
           (s, w, e) \<Rightarrow>
             if \<not> ok s then (s, e)
             else
               (let (s, wr) = AddRecord (env_WF env) (VersionEdit_EncodeTo [] new_db) (Writer_new w 0);
                    (s, w) = (if ok s then WF_Sync (env_WF env) (wr_dest wr) else (s, wr_dest wr));
                    (s, w) = (if ok s then WF_Close (env_WF env) w else (s, w));
                    e = env_delete_WF env w e
                in if ok s then SetCurrentFile env (db_dbname db) 1 e else (s, snd (env_RemoveFile env manifest e))))"

definition MaybeIgnoreError :: "Options \<Rightarrow> Status \<Rightarrow> Status" where
  "MaybeIgnoreError options s = (if ok s \<or> paranoid_checks options then s else OK)"

section \<open>Definitions: replaying a log\<close>

text \<open>The variables of \<open>RecoverLogFile\<close> and what its pointer arguments refer to.\<close>

record ('e, 'w) LogRecovery =
  lr_status :: Status
  lr_compactions :: nat
  lr_mem :: "MemTable option"
  lr_save_manifest :: bool
  lr_edit :: VersionEdit
  lr_max_sequence :: SequenceNumber
  lr_db :: "'w DBImpl"
  lr_env :: 'e

text \<open>The reporter only sets the status under \<open>paranoid_checks\<close>.\<close>

definition log_reported :: "(u64 \<times> Status) list \<Rightarrow> ('e, 'w) LogRecovery \<Rightarrow> ('e, 'w) LogRecovery" where
  "log_reported reports lr =
     (if paranoid_checks (db_options (lr_db lr)) then lr\<lparr> lr_status := report_status reports (lr_status lr) \<rparr> else lr)"

text \<open>Writing a recovered memtable to level 0.\<close>

definition flush_recovered :: "('e, 'f, 'w) System \<Rightarrow> MemTable \<Rightarrow> ('e, 'w) LogRecovery \<Rightarrow> ('e, 'w) LogRecovery option" where
  "flush_recovered sys mem lr =
     map_option
       (\<lambda>(s, edit, db, e). lr\<lparr> lr_status := s, lr_mem := None, lr_save_manifest := True, lr_edit := edit, lr_db := db, lr_env := e \<rparr>)
       (WriteLevel0Table sys mem (lr_edit lr) None (lr_db lr) (lr_env lr))"

text \<open>One record: the loop goes on, or stops on an error; \<^term>\<open>None\<close> when an insertion does not end.\<close>

definition recover_log_record ::
    "('e, 'f, 'w) System \<Rightarrow> slice \<Rightarrow> ('e, 'w) LogRecovery \<Rightarrow> (bool \<times> ('e, 'w) LogRecovery) option" where
  "recover_log_record sys record_bytes lr =
     (if length record_bytes < 12
      then Some (True, log_reported [(of_nat (length record_bytes), Corruption (ascii ''log record too small'') [])] lr)
      else
        (let options = db_options (lr_db lr);
             batch = SetContents record_bytes;
             mem = (case lr_mem lr of
                      None \<Rightarrow> MemTable_Ref (MemTable_new (sys_new_char sys) (db_user_comparator (lr_db lr)))
                    | Some mem \<Rightarrow> mem)
         in case InsertInto (sys_new_char sys) batch mem of
              (s, None) \<Rightarrow> None
            | (s, Some mem) \<Rightarrow>
                (let s = MaybeIgnoreError options s;
                     lr = lr\<lparr> lr_status := s, lr_mem := Some mem \<rparr>
                 in if \<not> ok s then Some (False, lr)
                    else
                      (let last_seq = Sequence batch + scast (Count batch) - 1;
                           lr = (if last_seq > lr_max_sequence lr then lr\<lparr> lr_max_sequence := last_seq \<rparr> else lr)
                       in if ApproximateMemoryUsage mem > write_buffer_size options
                          then map_option (\<lambda>lr. (ok (lr_status lr), lr))
                                 (flush_recovered sys mem (lr\<lparr> lr_compactions := lr_compactions lr + 1 \<rparr>))
                          else Some (True, lr)))))"

partial_function (option) RecoverLog_loop ::
    "('e, 'f, 'w) System \<Rightarrow> 'f SequentialFile \<Rightarrow> 'f Reader \<Rightarrow> ('e, 'w) LogRecovery \<Rightarrow> ('e, 'w) LogRecovery option" where
  "RecoverLog_loop sys F reader lr =
     (case ReadRecord F reader of
        None \<Rightarrow> None
      | Some (r, reader') \<Rightarrow>
          (let lr = log_reported (drop (length (rd_reports reader)) (rd_reports reader')) lr
           in case r of
                None \<Rightarrow> Some lr
              | Some record_bytes \<Rightarrow>
                  if ok (lr_status lr) then
                    (case recover_log_record sys record_bytes lr of
                       None \<Rightarrow> None
                     | Some (go_on, lr) \<Rightarrow> if go_on then RecoverLog_loop sys F reader' lr else Some lr)
                  else Some lr))"

text \<open>Going on with the last log file and its memtable.\<close>

definition reuse_log :: "('e, 'f, 'w) System \<Rightarrow> u64 \<Rightarrow> ('e, 'w) LogRecovery \<Rightarrow> ('e, 'w) LogRecovery" where
  "reuse_log sys log_number lr =
     (let db = lr_db lr;
          fname = LogFileName (db_dbname db) log_number;
          (s, lfile_size) = env_GetFileSize (sys_env sys) fname (lr_env lr)
      in if \<not> ok s then lr
         else
           (case env_NewAppendableFile (sys_env sys) fname (lr_env lr) of
              (s, logfile, e) \<Rightarrow>
                if \<not> ok s then lr\<lparr> lr_env := e \<rparr>
                else
                  (let mem = (case lr_mem lr of
                                None \<Rightarrow> MemTable_Ref (MemTable_new (sys_new_char sys) (db_user_comparator db))
                              | Some mem \<Rightarrow> mem)
                   in lr\<lparr> lr_mem := None, lr_env := e,
                          lr_db := db\<lparr> db_log := Some (Writer_new logfile lfile_size), db_logfile_number := log_number,
                                       db_mem := Some mem \<rparr> \<rparr>)))"

definition RecoverLogFile ::
    "('e, 'f, 'w) System \<Rightarrow> u64 \<Rightarrow> bool \<Rightarrow> ('e, 'w) LogRecovery \<Rightarrow> ('e, 'w) LogRecovery option" where
  "RecoverLogFile sys log_number last_log lr =
     (let options = db_options (lr_db lr)
      in case env_NewSequentialFile (sys_env sys) (LogFileName (db_dbname (lr_db lr)) log_number) (lr_env lr) of
           (s, f) \<Rightarrow>
             if \<not> ok s then Some (lr\<lparr> lr_status := MaybeIgnoreError options s \<rparr>)
             else do {
               lr \<leftarrow> RecoverLog_loop sys (env_SF (sys_env sys)) (Reader_new f True True 0)
                       (lr\<lparr> lr_status := s, lr_compactions := 0, lr_mem := None \<rparr>);
               let lr = (if ok (lr_status lr) \<and> reuse_logs options \<and> last_log \<and> lr_compactions lr = 0
                         then reuse_log sys log_number lr else lr);
               (case lr_mem lr of
                  None \<Rightarrow> Some lr
                | Some mem \<Rightarrow> if ok (lr_status lr) then flush_recovered sys mem lr else Some (lr\<lparr> lr_mem := None \<rparr>))
             })"

section \<open>Definitions: recovering and opening a database\<close>

fun RecoverLogs :: "('e, 'f, 'w) System \<Rightarrow> u64 list \<Rightarrow> ('e, 'w) LogRecovery \<Rightarrow> ('e, 'w) LogRecovery option" where
  "RecoverLogs sys [] lr = Some lr"
| "RecoverLogs sys (log_number # logs) lr =
     (case RecoverLogFile sys log_number (logs = []) lr of
        None \<Rightarrow> None
      | Some lr \<Rightarrow>
          if \<not> ok (lr_status lr) then Some lr
          else RecoverLogs sys logs
                 (lr\<lparr> lr_db := (lr_db lr)\<lparr> db_versions := MarkFileNumberUsed log_number (db_versions (lr_db lr)) \<rparr> \<rparr>))"

definition recover_logs_needed :: "'w VersionSet \<Rightarrow> slice list \<Rightarrow> u64 list" where
  "recover_logs_needed vs filenames =
     sort (concat (map (\<lambda>filename. case ParseFileName filename of
                                     Some (number, kLogFile) \<Rightarrow>
                                       if number \<ge> vs_log_number vs \<or> number = vs_prev_log_number vs then [number] else []
                                   | _ \<Rightarrow> []) filenames))"

definition missing_files :: "'w VersionSet \<Rightarrow> slice list \<Rightarrow> u64 set" where
  "missing_files vs filenames =
     fold (\<lambda>filename expected. case ParseFileName filename of None \<Rightarrow> expected | Some (number, type) \<Rightarrow> expected - {number})
       filenames (AddLiveFiles {} vs)"

text \<open>The part after the manifest has been read.\<close>

definition Recover_logs :: "('e, 'f, 'w) System \<Rightarrow> bool \<Rightarrow> 'w DBImpl \<Rightarrow> 'e \<Rightarrow> ('e, 'w) LogRecovery option" where
  "Recover_logs sys save_manifest db e =
     (let (s, filenames) = env_GetChildren (sys_env sys) (db_dbname db) e;
          lr = \<lparr> lr_status = s, lr_compactions = 0, lr_mem = None, lr_save_manifest = save_manifest, lr_edit = VersionEdit_new,
                 lr_max_sequence = 0, lr_db = db, lr_env = e \<rparr>;
          expected = missing_files (db_versions db) filenames
      in if \<not> ok s then Some lr
         else if expected \<noteq> {}
         then Some (lr\<lparr> lr_status := Corruption (decimal (card expected) @ ascii '' missing files; e.g.'')
                                                (TableFileName (db_dbname db) (Min expected)) \<rparr>)
         else
           (case RecoverLogs sys (recover_logs_needed (db_versions db) filenames) lr of
              None \<Rightarrow> None
            | Some lr \<Rightarrow>
                Some (if \<not> ok (lr_status lr) then lr
                      else
                        (let vs = db_versions (lr_db lr)
                         in if vs_last_sequence vs < lr_max_sequence lr
                            then lr\<lparr> lr_db := (lr_db lr)\<lparr> db_versions := VersionSet_SetLastSequence (lr_max_sequence lr) vs \<rparr> \<rparr>
                            else lr))))"

definition DBImpl_Recover :: "('e, 'f, 'w) System \<Rightarrow> 'w DBImpl \<Rightarrow> 'e \<Rightarrow> ('e, 'w) LogRecovery option" where
  "DBImpl_Recover sys db e =
     (let env = sys_env sys;
          e = snd (env_CreateDir env (db_dbname db) e);
          (s, e) = env_LockFile env (LockFileName (db_dbname db)) e;
          failed = (\<lambda>s db e. \<lparr> lr_status = s, lr_compactions = 0, lr_mem = None, lr_save_manifest = False,
                               lr_edit = VersionEdit_new, lr_max_sequence = 0, lr_db = db, lr_env = e \<rparr>)
      in if \<not> ok s then Some (failed s db e)
         else
           (let db = db\<lparr> db_locked := True \<rparr>;
                (s, e) =
                  (if \<not> env_FileExists env (CurrentFileName (db_dbname db)) e
                   then (if create_if_missing (db_options db) then NewDB sys db e
                         else (InvalidArgument (db_dbname db) (ascii ''does not exist (create_if_missing is false)''), e))
                   else if error_if_exists (db_options db)
                   then (InvalidArgument (db_dbname db) (ascii ''exists (error_if_exists is true)''), e)
                   else (OK, e))
            in if \<not> ok s then Some (failed s db e)
               else
                 (case Recover env (db_user_comparator db) (db_versions db) e of
                    None \<Rightarrow> None
                  | Some (s, save_manifest, vs, e) \<Rightarrow>
                      (let db = db\<lparr> db_versions := vs \<rparr>
                       in if \<not> ok s then Some (failed s db e) else Recover_logs sys save_manifest db e))))"

text \<open>The destructor, once background work has finished: the lock and the open files.\<close>

definition DBImpl_delete :: "('e, 'f, 'w) System \<Rightarrow> 'w DBImpl \<Rightarrow> 'e \<Rightarrow> 'e" where
  "DBImpl_delete sys db e =
     (let env = sys_env sys;
          e = (if db_locked db then snd (env_UnlockFile env (LockFileName (db_dbname db)) e) else e);
          e = (case vs_descriptor_log (db_versions db) of None \<Rightarrow> e | Some wr \<Rightarrow> env_delete_WF env (wr_dest wr) e)
      in case db_log db of None \<Rightarrow> e | Some wr \<Rightarrow> env_delete_WF env (wr_dest wr) e)"

text \<open>A new log and memtable.\<close>

definition Open_new_log ::
    "('e, 'f, 'w) System \<Rightarrow> VersionEdit \<Rightarrow> 'w DBImpl \<Rightarrow> 'e \<Rightarrow> Status \<times> VersionEdit \<times> 'w DBImpl \<times> 'e" where
  "Open_new_log sys edit db e =
     (let (new_log_number, vs) = NewFileNumber (db_versions db);
          db = db\<lparr> db_versions := vs \<rparr>
      in case env_NewWritableFile (sys_env sys) (LogFileName (db_dbname db) new_log_number) e of
           (s, lfile, e) \<Rightarrow>
             if \<not> ok s then (s, edit, db, e)
             else (s, SetLogNumber new_log_number edit,
                   db\<lparr> db_logfile_number := new_log_number, db_log := Some (Writer_new lfile 0),
                       db_mem := Some (MemTable_Ref (MemTable_new (sys_new_char sys) (db_user_comparator db))) \<rparr>, e))"

definition DB_Open ::
    "('e, 'f, 'w) System \<Rightarrow> Options \<Rightarrow> slice \<Rightarrow> 'e \<Rightarrow> (Status \<times> 'w DBImpl option \<times> 'e) option" where
  "DB_Open sys options dbname e =
     (case DBImpl_Recover sys (DBImpl_new options dbname) e of
        None \<Rightarrow> None
      | Some lr \<Rightarrow>
          (let s = lr_status lr; db = lr_db lr; e = lr_env lr; edit = lr_edit lr;
               (s, edit, db, e) = (if ok s \<and> db_mem db = None then Open_new_log sys edit db e else (s, edit, db, e));
               (s, db, e) =
                 (if ok s \<and> lr_save_manifest lr
                  then (case LogAndApply (sys_env sys) (db_user_comparator db)
                               (SetLogNumber (db_logfile_number db) (SetPrevLogNumber 0 edit)) (db_versions db) e of
                          (s, edit, vs, e) \<Rightarrow> (s, db\<lparr> db_versions := vs \<rparr>, e))
                  else (s, db, e))
           in Some (if ok s then (s, Some (MaybeScheduleCompaction db), RemoveObsoleteFiles sys db e)
                    else (s, None, DBImpl_delete sys db e))))"

definition DestroyDB :: "('e, 'f, 'w) System \<Rightarrow> slice \<Rightarrow> 'e \<Rightarrow> Status \<times> 'e" where
  "DestroyDB sys dbname e =
     (let env = sys_env sys
      in case env_GetChildren env dbname e of
           (result, filenames) \<Rightarrow>
             if \<not> ok result then (OK, e)
             else
               (case env_LockFile env (LockFileName dbname) e of
                  (result, e) \<Rightarrow>
                    if \<not> ok result then (result, e)
                    else
                      (let (result, e) =
                             fold (\<lambda>filename (result, e).
                                     case ParseFileName filename of
                                       None \<Rightarrow> (result, e)
                                     | Some (number, type) \<Rightarrow>
                                         if type = kDBLockFile then (result, e)
                                         else (case env_RemoveFile env (dbname @ ascii ''/'' @ filename) e of
                                                 (del, e) \<Rightarrow> (if ok result \<and> \<not> ok del then del else result, e)))
                               filenames (result, e);
                           e = snd (env_UnlockFile env (LockFileName dbname) e);
                           e = snd (env_RemoveFile env (LockFileName dbname) e);
                           e = snd (env_RemoveDir env dbname e)
                       in (result, e))))"

section \<open>Definitions: compactions the client asks for\<close>

partial_function (option) flush_wait ::
    "(nat \<Rightarrow> 'w DBImpl \<times> 'e \<Rightarrow> 'w DBImpl \<times> 'e) \<Rightarrow> nat \<Rightarrow> 'w DBImpl \<Rightarrow> 'e \<Rightarrow> ('w DBImpl \<times> 'e) option" where
  "flush_wait others n db e =
     (if db_imm db \<noteq> None \<and> ok (db_bg_error db)
      then (case others n (db, e) of (db, e) \<Rightarrow> flush_wait others (n + 1) db e)
      else Some (db, e))"

text \<open>What the other threads do: while this one is queued, while it makes room, and while it waits for the flush.\<close>

definition TEST_CompactMemTable ::
    "('e, 'f, 'w) System \<Rightarrow> (nat \<Rightarrow> DBWriter \<times> 'w DBImpl \<times> 'e \<Rightarrow> DBWriter \<times> 'w DBImpl \<times> 'e) \<Rightarrow>
     (nat \<Rightarrow> 'w DBImpl \<times> 'e \<Rightarrow> 'w DBImpl \<times> 'e) \<Rightarrow> (nat \<Rightarrow> 'w DBImpl \<times> 'e \<Rightarrow> 'w DBImpl \<times> 'e) \<Rightarrow>
     nat \<Rightarrow> 'w DBImpl \<Rightarrow> 'e \<Rightarrow> (Status \<times> DBWriter list \<times> 'w DBImpl \<times> 'e) option" where
  "TEST_CompactMemTable sys waiting others flushing self db e = do {
     (s, woken, db, e) \<leftarrow> DBImpl_Write sys waiting others (\<lambda>x. x) self WriteOptions_new None db e;
     if \<not> ok s then Some (s, woken, db, e)
     else do {
       (db, e) \<leftarrow> flush_wait flushing 0 db e;
       Some (if db_imm db \<noteq> None then db_bg_error db else s, woken, db, e)
     }
   }"

text \<open>\<open>mine\<close> says that \<open>manual_compaction_\<close> points to this thread's request, which the background thread updates.\<close>

partial_function (option) manual_wait ::
    "(nat \<Rightarrow> bool \<times> ManualCompaction \<times> 'w DBImpl \<times> 'e \<Rightarrow> bool \<times> ManualCompaction \<times> 'w DBImpl \<times> 'e) \<Rightarrow> nat \<Rightarrow> bool \<Rightarrow>
     ManualCompaction \<Rightarrow> 'w DBImpl \<Rightarrow> 'e \<Rightarrow> (bool \<times> 'w DBImpl \<times> 'e) option" where
  "manual_wait others n mine manual db e =
     (if \<not> mc_done manual \<and> \<not> db_shutting_down db \<and> ok (db_bg_error db)
      then (if db_manual_compaction db = None
            then manual_wait others n True manual (MaybeScheduleCompaction (db\<lparr> db_manual_compaction := Some manual \<rparr>)) e
            else (case others n (mine, manual, db, e) of (mine, manual, db, e) \<Rightarrow> manual_wait others (n + 1) mine manual db e))
      else Some (mine, db, e))"

definition TEST_CompactRange ::
    "(nat \<Rightarrow> bool \<times> ManualCompaction \<times> 'w DBImpl \<times> 'e \<Rightarrow> bool \<times> ManualCompaction \<times> 'w DBImpl \<times> 'e) \<Rightarrow> nat \<Rightarrow>
     slice option \<Rightarrow> slice option \<Rightarrow> 'w DBImpl \<Rightarrow> 'e \<Rightarrow> ('w DBImpl \<times> 'e) option" where
  "TEST_CompactRange others level begin_key end_key db e =
     (let manual = \<lparr> mc_level = level, mc_done = False,
                     mc_begin = map_option (\<lambda>k. InternalKey_new k kMaxSequenceNumber kValueTypeForSeek) begin_key,
                     mc_end = map_option (\<lambda>k. InternalKey_new k 0 kTypeDeletion) end_key \<rparr>
      in map_option (\<lambda>(mine, db, e). (if mine then db\<lparr> db_manual_compaction := None \<rparr> else db, e))
           (manual_wait others 0 False manual db e))"

definition max_level_with_files :: "Comparator \<Rightarrow> Version \<Rightarrow> slice option \<Rightarrow> slice option \<Rightarrow> nat" where
  "max_level_with_files ucmp base begin_key end_key =
     fold (\<lambda>level m. if OverlapInLevel ucmp base level begin_key end_key then level else m) [1..<kNumLevels] 1"

fun compact_levels ::
    "(nat \<Rightarrow> nat \<Rightarrow> bool \<times> ManualCompaction \<times> 'w DBImpl \<times> 'e \<Rightarrow> bool \<times> ManualCompaction \<times> 'w DBImpl \<times> 'e) \<Rightarrow> nat list \<Rightarrow>
     slice option \<Rightarrow> slice option \<Rightarrow> 'w DBImpl \<Rightarrow> 'e \<Rightarrow> ('w DBImpl \<times> 'e) option" where
  "compact_levels others [] begin_key end_key db e = Some (db, e)"
| "compact_levels others (level # levels) begin_key end_key db e =
     (case TEST_CompactRange (others level) level begin_key end_key db e of
        None \<Rightarrow> None
      | Some (db, e) \<Rightarrow> compact_levels others levels begin_key end_key db e)"

definition DBImpl_CompactRange ::
    "('e, 'f, 'w) System \<Rightarrow> (nat \<Rightarrow> DBWriter \<times> 'w DBImpl \<times> 'e \<Rightarrow> DBWriter \<times> 'w DBImpl \<times> 'e) \<Rightarrow>
     (nat \<Rightarrow> 'w DBImpl \<times> 'e \<Rightarrow> 'w DBImpl \<times> 'e) \<Rightarrow> (nat \<Rightarrow> 'w DBImpl \<times> 'e \<Rightarrow> 'w DBImpl \<times> 'e) \<Rightarrow>
     (nat \<Rightarrow> nat \<Rightarrow> bool \<times> ManualCompaction \<times> 'w DBImpl \<times> 'e \<Rightarrow> bool \<times> ManualCompaction \<times> 'w DBImpl \<times> 'e) \<Rightarrow>
     nat \<Rightarrow> slice option \<Rightarrow> slice option \<Rightarrow> 'w DBImpl \<Rightarrow> 'e \<Rightarrow> ('w DBImpl \<times> 'e) option" where
  "DBImpl_CompactRange sys waiting others flushing compacting self begin_key end_key db e = do {
     let levels = max_level_with_files (db_user_comparator db) (vs_current (db_versions db)) begin_key end_key;
     (s, woken, db, e) \<leftarrow> TEST_CompactMemTable sys waiting others flushing self db e;
     compact_levels compacting [0..<levels] begin_key end_key db e
   }"

end
