(* ===== verification/Cache.thy ===== *)
theory Cache
  imports Bloom "HOL-Library.Multiset" "HOL-Library.Monad_Syntax"
begin

text \<open>
  The sharded LRU cache of \<open>util/cache.cc\<close>.  A pointer to a handle is a number into a store of handles, which
  has \<^term>\<open>None\<close> for a handle that has been freed.  The circular lists \<open>lru_\<close> and \<open>in_use_\<close> are the lists of their
  elements from oldest to newest, and the chain of a bucket of the hash table is a list.  Calls of the
  deleter are recorded in order; a value stands for the object with its deleter.  Reference counts and charges are natural numbers.
\<close>

section \<open>Definitions: handles and the hash table\<close>

record 'v LRUHandle =
  h_value :: 'v
  h_charge :: nat
  h_key :: slice
  h_in_cache :: bool
  h_refs :: nat
  h_hash :: u32

type_synonym 'v store = "nat \<Rightarrow> 'v LRUHandle option"

record HandleTable =
  ht_length :: nat
  ht_elems :: nat
  ht_list :: "nat list list"

definition bucket :: "u32 \<Rightarrow> nat \<Rightarrow> nat" where
  "bucket hash len = unat (hash AND (of_nat len - 1))"

definition slot_matches :: "'v store \<Rightarrow> slice \<Rightarrow> u32 \<Rightarrow> nat \<Rightarrow> bool" where
  "slot_matches hs key hash p = (h_hash (the (hs p)) = hash \<and> h_key (the (hs p)) = key)"

text \<open>The bucket and the position in its chain: that of the matching handle, or the end.\<close>

definition FindPointer :: "'v store \<Rightarrow> slice \<Rightarrow> u32 \<Rightarrow> HandleTable \<Rightarrow> nat \<times> nat" where
  "FindPointer hs key hash t =
     (let i = bucket hash (ht_length t)
      in (i, length (takeWhile (\<lambda>p. \<not> slot_matches hs key hash p) (ht_list t ! i))))"

definition slot :: "nat \<times> nat \<Rightarrow> HandleTable \<Rightarrow> nat option" where
  "slot ptr t = (case ptr of (i, j) \<Rightarrow> if j < length (ht_list t ! i) then Some (ht_list t ! i ! j) else None)"

definition HandleTable_Lookup :: "'v store \<Rightarrow> slice \<Rightarrow> u32 \<Rightarrow> HandleTable \<Rightarrow> nat option" where
  "HandleTable_Lookup hs key hash t = slot (FindPointer hs key hash t) t"

function grow_length :: "nat \<Rightarrow> nat \<Rightarrow> nat" where
  "grow_length new_length elems = (if 0 < new_length \<and> new_length < elems then grow_length (new_length * 2) elems else new_length)"
  by pat_completeness auto
termination by (relation "measure (\<lambda>(n, m). m - n)") auto

definition rehash :: "'v store \<Rightarrow> nat \<Rightarrow> nat \<Rightarrow> nat list list \<Rightarrow> nat list list" where
  "rehash hs new_length p new_list =
     (let i = bucket (h_hash (the (hs p))) new_length in new_list[i := p # new_list ! i])"

definition Resize :: "'v store \<Rightarrow> HandleTable \<Rightarrow> HandleTable" where
  "Resize hs t =
     (let new_length = grow_length 4 (ht_elems t)
      in t\<lparr> ht_length := new_length,
            ht_list := fold (rehash hs new_length) (concat (ht_list t)) (replicate new_length []) \<rparr>)"

definition HandleTable_new :: HandleTable where
  "HandleTable_new = Resize (\<lambda>p. None :: unit LRUHandle option) \<lparr> ht_length = 0, ht_elems = 0, ht_list = [] \<rparr>"

definition HandleTable_Insert :: "'v store \<Rightarrow> nat \<Rightarrow> HandleTable \<Rightarrow> nat option \<times> HandleTable" where
  "HandleTable_Insert hs h t =
     (let (i, j) = FindPointer hs (h_key (the (hs h))) (h_hash (the (hs h))) t
      in case slot (i, j) t of
           Some old \<Rightarrow> (Some old, t\<lparr> ht_list := (ht_list t)[i := (ht_list t ! i)[j := h]] \<rparr>)
         | None \<Rightarrow>
             (let t = t\<lparr> ht_list := (ht_list t)[i := ht_list t ! i @ [h]], ht_elems := ht_elems t + 1 \<rparr>
              in (None, if ht_elems t > ht_length t then Resize hs t else t)))"

definition HandleTable_Remove :: "'v store \<Rightarrow> slice \<Rightarrow> u32 \<Rightarrow> HandleTable \<Rightarrow> nat option \<times> HandleTable" where
  "HandleTable_Remove hs key hash t =
     (let (i, j) = FindPointer hs key hash t
      in case slot (i, j) t of
           None \<Rightarrow> (None, t)
         | Some result \<Rightarrow>
             (Some result, t\<lparr> ht_list := (ht_list t)[i := take j (ht_list t ! i) @ drop (j + 1) (ht_list t ! i)],
                              ht_elems := ht_elems t - 1 \<rparr>))"

section \<open>Definitions: a shard\<close>

record 'v LRUCache =
  lc_capacity :: nat
  lc_usage :: nat
  lc_store :: "'v store"
  lc_next :: nat
  lc_lru :: "nat list"
  lc_in_use :: "nat list"
  lc_table :: HandleTable
  lc_deleted :: "(slice \<times> 'v) list"

definition LRUCache_new :: "'v LRUCache" where
  "LRUCache_new =
     \<lparr> lc_capacity = 0, lc_usage = 0, lc_store = (\<lambda>p. None), lc_next = 0, lc_lru = [], lc_in_use = [],
       lc_table = HandleTable_new, lc_deleted = [] \<rparr>"

definition SetCapacity :: "nat \<Rightarrow> 'v LRUCache \<Rightarrow> 'v LRUCache" where
  "SetCapacity capacity c = c\<lparr> lc_capacity := capacity \<rparr>"

definition LRU_Remove :: "nat \<Rightarrow> 'v LRUCache \<Rightarrow> 'v LRUCache" where
  "LRU_Remove e c = c\<lparr> lc_lru := remove1 e (lc_lru c), lc_in_use := remove1 e (lc_in_use c) \<rparr>"

definition LRU_Append_lru :: "nat \<Rightarrow> 'v LRUCache \<Rightarrow> 'v LRUCache" where
  "LRU_Append_lru e c = c\<lparr> lc_lru := lc_lru c @ [e] \<rparr>"

definition LRU_Append_in_use :: "nat \<Rightarrow> 'v LRUCache \<Rightarrow> 'v LRUCache" where
  "LRU_Append_in_use e c = c\<lparr> lc_in_use := lc_in_use c @ [e] \<rparr>"

definition with_handle :: "nat \<Rightarrow> 'v LRUHandle \<Rightarrow> 'v LRUCache \<Rightarrow> 'v LRUCache" where
  "with_handle e h c = c\<lparr> lc_store := (lc_store c)(e \<mapsto> h) \<rparr>"

definition LRUCache_Ref :: "nat \<Rightarrow> 'v LRUCache \<Rightarrow> 'v LRUCache" where
  "LRUCache_Ref e c =
     (let h = the (lc_store c e);
          c = (if h_refs h = 1 \<and> h_in_cache h then LRU_Append_in_use e (LRU_Remove e c) else c)
      in with_handle e (h\<lparr> h_refs := h_refs h + 1 \<rparr>) c)"

definition LRUCache_Unref :: "nat \<Rightarrow> 'v LRUCache \<Rightarrow> 'v LRUCache" where
  "LRUCache_Unref e c =
     (let h = (the (lc_store c e))\<lparr> h_refs := h_refs (the (lc_store c e)) - 1 \<rparr>;
          c = with_handle e h c
      in if h_refs h = 0
         then c\<lparr> lc_deleted := lc_deleted c @ [(h_key h, h_value h)], lc_store := (lc_store c)(e := None) \<rparr>
         else if h_in_cache h \<and> h_refs h = 1 then LRU_Append_lru e (LRU_Remove e c)
         else c)"

definition LRUCache_Lookup :: "slice \<Rightarrow> u32 \<Rightarrow> 'v LRUCache \<Rightarrow> nat option \<times> 'v LRUCache" where
  "LRUCache_Lookup key hash c =
     (case HandleTable_Lookup (lc_store c) key hash (lc_table c) of
        None \<Rightarrow> (None, c)
      | Some e \<Rightarrow> (Some e, LRUCache_Ref e c))"

definition LRUCache_Release :: "nat \<Rightarrow> 'v LRUCache \<Rightarrow> 'v LRUCache" where
  "LRUCache_Release e c = LRUCache_Unref e c"

definition FinishErase :: "nat option \<Rightarrow> 'v LRUCache \<Rightarrow> bool \<times> 'v LRUCache" where
  "FinishErase p c =
     (case p of
        None \<Rightarrow> (False, c)
      | Some e \<Rightarrow>
          (let c = LRU_Remove e c;
               h = (the (lc_store c e))\<lparr> h_in_cache := False \<rparr>;
               c = (with_handle e h c)\<lparr> lc_usage := lc_usage c - h_charge h \<rparr>
           in (True, LRUCache_Unref e c)))"

text \<open>Removing a handle of the table by its key, as the loops below and \<open>Erase\<close> do.\<close>

definition erase_key :: "slice \<Rightarrow> u32 \<Rightarrow> 'v LRUCache \<Rightarrow> 'v LRUCache" where
  "erase_key key hash c =
     (case HandleTable_Remove (lc_store c) key hash (lc_table c) of
        (p, t) \<Rightarrow> snd (FinishErase p (c\<lparr> lc_table := t \<rparr>)))"

text \<open>Evicting from the oldest entry on, while the condition holds: \<^term>\<open>None\<close> when it never stops.\<close>

partial_function (option) evict_while :: "('v LRUCache \<Rightarrow> bool) \<Rightarrow> 'v LRUCache \<Rightarrow> 'v LRUCache option" where
  "evict_while full c =
     (if full c \<and> lc_lru c \<noteq> []
      then (let old = the (lc_store c (hd (lc_lru c))) in evict_while full (erase_key (h_key old) (h_hash old) c))
      else Some c)"

definition LRUCache_Insert :: "slice \<Rightarrow> u32 \<Rightarrow> 'v \<Rightarrow> nat \<Rightarrow> 'v LRUCache \<Rightarrow> (nat \<times> 'v LRUCache) option" where
  "LRUCache_Insert key hash val charge c =
     (let e = lc_next c;
          h = \<lparr> h_value = val, h_charge = charge, h_key = key, h_in_cache = False, h_refs = 1, h_hash = hash \<rparr>;
          c = c\<lparr> lc_next := e + 1 \<rparr>;
          c = (if lc_capacity c > 0
               then (let c = LRU_Append_in_use e (with_handle e (h\<lparr> h_refs := 2, h_in_cache := True \<rparr>) c);
                         c = c\<lparr> lc_usage := lc_usage c + charge \<rparr>;
                         (old, t) = HandleTable_Insert (lc_store c) e (lc_table c)
                     in snd (FinishErase old (c\<lparr> lc_table := t \<rparr>)))
               else with_handle e h c)
      in map_option (\<lambda>c. (e, c)) (evict_while (\<lambda>c. lc_usage c > lc_capacity c) c))"

definition LRUCache_Erase :: "slice \<Rightarrow> u32 \<Rightarrow> 'v LRUCache \<Rightarrow> 'v LRUCache" where
  "LRUCache_Erase key hash c = erase_key key hash c"

definition LRUCache_Prune :: "'v LRUCache \<Rightarrow> 'v LRUCache option" where
  "LRUCache_Prune c = evict_while (\<lambda>c. True) c"

definition LRUCache_TotalCharge :: "'v LRUCache \<Rightarrow> nat" where
  "LRUCache_TotalCharge c = lc_usage c"

text \<open>The destructor: every entry of \<open>lru_\<close> loses the cache's reference.\<close>

definition LRUCache_delete :: "'v LRUCache \<Rightarrow> 'v LRUCache" where
  "LRUCache_delete c =
     fold (\<lambda>e c. LRUCache_Unref e (with_handle e ((the (lc_store c e))\<lparr> h_in_cache := False \<rparr>) c)) (lc_lru c) c"

section \<open>Definitions: the sharded cache\<close>

definition kNumShardBits :: nat where
  "kNumShardBits = 4"

definition kNumShards :: nat where
  "kNumShards = 2 ^ kNumShardBits"

record 'v ShardedLRUCache =
  sc_shard :: "'v LRUCache list"
  sc_last_id :: u64

type_synonym Handle = "u32 \<times> nat"

definition HashSlice :: "slice \<Rightarrow> u32" where
  "HashSlice s = Hash s 0"

definition Shard :: "u32 \<Rightarrow> nat" where
  "Shard hash = unat (drop_bit (32 - kNumShardBits) hash)"

definition NewLRUCache :: "nat \<Rightarrow> 'v ShardedLRUCache" where
  "NewLRUCache capacity =
     (let per_shard = (capacity + (kNumShards - 1)) div kNumShards
      in \<lparr> sc_shard = replicate kNumShards (SetCapacity per_shard LRUCache_new), sc_last_id = 0 \<rparr>)"

definition with_shard :: "u32 \<Rightarrow> 'v LRUCache \<Rightarrow> 'v ShardedLRUCache \<Rightarrow> 'v ShardedLRUCache" where
  "with_shard hash s c = c\<lparr> sc_shard := (sc_shard c)[Shard hash := s] \<rparr>"

definition Sharded_Insert :: "slice \<Rightarrow> 'v \<Rightarrow> nat \<Rightarrow> 'v ShardedLRUCache \<Rightarrow> (Handle \<times> 'v ShardedLRUCache) option" where
  "Sharded_Insert key val charge c =
     (let hash = HashSlice key
      in map_option (\<lambda>(e, s). ((hash, e), with_shard hash s c)) (LRUCache_Insert key hash val charge (sc_shard c ! Shard hash)))"

definition Sharded_Lookup :: "slice \<Rightarrow> 'v ShardedLRUCache \<Rightarrow> Handle option \<times> 'v ShardedLRUCache" where
  "Sharded_Lookup key c =
     (let hash = HashSlice key
      in case LRUCache_Lookup key hash (sc_shard c ! Shard hash) of
           (e, s) \<Rightarrow> (map_option (Pair hash) e, with_shard hash s c))"

definition Sharded_Release :: "Handle \<Rightarrow> 'v ShardedLRUCache \<Rightarrow> 'v ShardedLRUCache" where
  "Sharded_Release handle c =
     (case handle of (hash, e) \<Rightarrow> with_shard hash (LRUCache_Release e (sc_shard c ! Shard hash)) c)"

definition Sharded_Erase :: "slice \<Rightarrow> 'v ShardedLRUCache \<Rightarrow> 'v ShardedLRUCache" where
  "Sharded_Erase key c =
     (let hash = HashSlice key in with_shard hash (LRUCache_Erase key hash (sc_shard c ! Shard hash)) c)"

definition Sharded_Value :: "Handle \<Rightarrow> 'v ShardedLRUCache \<Rightarrow> 'v" where
  "Sharded_Value handle c = (case handle of (hash, e) \<Rightarrow> h_value (the (lc_store (sc_shard c ! Shard hash) e)))"

definition Sharded_NewId :: "'v ShardedLRUCache \<Rightarrow> u64 \<times> 'v ShardedLRUCache" where
  "Sharded_NewId c = (sc_last_id c + 1, c\<lparr> sc_last_id := sc_last_id c + 1 \<rparr>)"

fun prune_shards :: "'v LRUCache list \<Rightarrow> 'v LRUCache list option" where
  "prune_shards [] = Some []"
| "prune_shards (s # ss) = do { s \<leftarrow> LRUCache_Prune s; ss \<leftarrow> prune_shards ss; Some (s # ss) }"

definition Sharded_Prune :: "'v ShardedLRUCache \<Rightarrow> 'v ShardedLRUCache option" where
  "Sharded_Prune c = map_option (\<lambda>ss. c\<lparr> sc_shard := ss \<rparr>) (prune_shards (sc_shard c))"

definition Sharded_TotalCharge :: "'v ShardedLRUCache \<Rightarrow> nat" where
  "Sharded_TotalCharge c = sum_list (map LRUCache_TotalCharge (sc_shard c))"

declare grow_length.simps [simp del]

section \<open>The hash table\<close>

lemma takeWhile_shorter: "x \<in> set xs \<Longrightarrow> \<not> P x \<Longrightarrow> length (takeWhile P xs) < length xs"
  by (induction xs) auto

lemma in_set_concatE: "p \<in> set (concat xss) \<Longrightarrow> \<exists>xs \<in> set xss. p \<in> set xs"
  by auto

lemma bucket_less:
  assumes "k \<le> 31"
  shows "bucket hash (2 ^ k) < 2 ^ k"
proof -
  have "hash AND (of_nat (2 ^ k) - 1) = take_bit k hash" by (simp add: take_bit_eq_mask mask_eq_exp_minus_1)
  then show ?thesis by (simp add: bucket_def unsigned_take_bit_eq take_bit_nat_less_exp)
qed

lemma grow_length_power: "\<exists>j \<ge> k. grow_length (2 ^ k) n = 2 ^ j \<and> n \<le> 2 ^ j \<and> (j = k \<or> 2 ^ j < 2 * n)"
proof (induction "n - 2 ^ k" arbitrary: k rule: less_induct)
  case less
  show ?case
  proof (cases "2 ^ k < n")
    case True
    have "n - 2 ^ Suc k < n - 2 ^ k" using True by (intro diff_less_mono2) auto
    from less [OF this] obtain j where j: "j \<ge> Suc k" "grow_length (2 ^ Suc k) n = 2 ^ j" "n \<le> 2 ^ j" "j = Suc k \<or> 2 ^ j < 2 * n" by blast
    have "grow_length (2 ^ k) n = 2 ^ j" using True j(2) by (subst grow_length.simps) (simp add: mult.commute)
    moreover have "2 ^ j < 2 * n" using j(4) True by auto
    ultimately show ?thesis using j by (intro exI [of _ j]) simp
  next
    case False
    then show ?thesis by (subst grow_length.simps) auto
  qed
qed

lemma grow_length_4:
  assumes "n \<le> 2 ^ 31"
  obtains j where "grow_length 4 n = 2 ^ j" "n \<le> 2 ^ j" "2 \<le> j" "j \<le> 31"
proof -
  obtain j where j: "j \<ge> 2" "grow_length (2 ^ 2) n = 2 ^ j" "n \<le> 2 ^ j" "j = 2 \<or> 2 ^ j < 2 * n" using grow_length_power [of 2 n] by blast
  have "(2::nat) ^ j < 2 ^ 32" if "j \<noteq> 2" using j(4) assms that by simp
  then have "j \<le> 31" using power_strict_increasing_iff [of "2::nat" j 32] by (cases "j = 2") auto
  then show thesis using that j by simp
qed

text \<open>The chains hold the handles \<open>ps\<close>, each in the bucket of its hash.\<close>

definition placed :: "'v store \<Rightarrow> nat \<Rightarrow> nat list list \<Rightarrow> bool" where
  "placed hs n chs \<longleftrightarrow> (\<forall>i < n. \<forall>p \<in> set (chs ! i). bucket (h_hash (the (hs p))) n = i)"

lemma placed_update:
  assumes "placed hs n chs" "length chs = n" "\<forall>p \<in> set ys. p \<in> set (chs ! i) \<or> bucket (h_hash (the (hs p))) n = i"
  shows "placed hs n (chs[i := ys])"
  unfolding placed_def
proof (intro allI impI ballI)
  fix a p assume a: "a < n" "p \<in> set (chs[i := ys] ! a)"
  show "bucket (h_hash (the (hs p))) n = a"
  proof (cases "a = i")
    case True
    then show ?thesis using a assms unfolding placed_def by auto
  next
    case False
    then show ?thesis using a assms(1) unfolding placed_def by simp
  qed
qed

definition table_inv :: "'v store \<Rightarrow> HandleTable \<Rightarrow> nat set \<Rightarrow> bool" where
  "table_inv hs t ps \<longleftrightarrow>
     (\<exists>k. 2 \<le> k \<and> k \<le> 31 \<and> ht_length t = 2 ^ k) \<and> length (ht_list t) = ht_length t \<and> finite ps \<and>
     mset (concat (ht_list t)) = mset_set ps \<and> ht_elems t = card ps \<and> ht_elems t \<le> ht_length t \<and>
     placed hs (ht_length t) (ht_list t)"

definition keyed :: "(slice \<Rightarrow> u32) \<Rightarrow> 'v store \<Rightarrow> nat set \<Rightarrow> bool" where
  "keyed H hs ps \<longleftrightarrow> (\<forall>p \<in> ps. h_hash (the (hs p)) = H (h_key (the (hs p)))) \<and> inj_on (\<lambda>p. h_key (the (hs p))) ps"

lemma table_inv_cong:
  assumes "table_inv hs t ps" "\<And>p. p \<in> ps \<Longrightarrow> h_hash (the (hs' p)) = h_hash (the (hs p))"
  shows "table_inv hs' t ps"
proof -
  have "p \<in> ps" if "i < ht_length t" "p \<in> set (ht_list t ! i)" for i p
  proof -
    have "p \<in> set (concat (ht_list t))" using assms(1) that by (auto simp: table_inv_def)
    then show ?thesis using assms(1) by (metis finite_set_mset_mset_set set_mset_mset table_inv_def)
  qed
  then show ?thesis using assms by (simp add: table_inv_def placed_def)
qed

lemma mset_concat_update:
  assumes "i < length xss"
  shows "mset (concat (xss[i := ys])) + mset (xss ! i) = mset (concat xss) + mset ys"
  using assms by (induction xss arbitrary: i) (auto simp: nth_Cons split: nat.split)

lemma table_set: "table_inv hs t ps \<Longrightarrow> set (concat (ht_list t)) = ps"
  by (metis finite_set_mset_mset_set set_mset_mset table_inv_def)

lemma chain_of:
  assumes "table_inv hs t ps" "p \<in> ps"
  shows "p \<in> set (ht_list t ! bucket (h_hash (the (hs p))) (ht_length t))"
proof -
  have "p \<in> set (concat (ht_list t))" using table_set [OF assms(1)] assms(2) by blast
  then obtain i where "i < length (ht_list t)" "p \<in> set (ht_list t ! i)" by (metis in_set_conv_nth in_set_concatE)
  then show ?thesis using assms(1) by (auto simp: table_inv_def placed_def)
qed

lemma chain_subset:
  assumes "table_inv hs t ps" "p \<in> set (ht_list t ! bucket hash (ht_length t))"
  shows "p \<in> ps"
proof -
  have "bucket hash (ht_length t) < length (ht_list t)" using assms(1) bucket_less by (auto simp: table_inv_def)
  then have "p \<in> set (concat (ht_list t))" using assms(2) by auto
  then show ?thesis using table_set [OF assms(1)] by blast
qed

text \<open>What \<open>FindPointer\<close> finds.\<close>

lemma find_slot:
  assumes "table_inv hs t ps" "keyed H hs ps" "FindPointer hs key (H key) t = (i, j)"
  shows "i = bucket (H key) (ht_length t)" "i < length (ht_list t)"
    "slot (i, j) t = Some p \<longleftrightarrow> p \<in> ps \<and> h_key (the (hs p)) = key"
    "slot (i, j) t = Some p \<Longrightarrow> j < length (ht_list t ! i) \<and> ht_list t ! i ! j = p"
proof -
  show i: "i = bucket (H key) (ht_length t)" using assms(3) by (auto simp: FindPointer_def Let_def)
  show "i < length (ht_list t)" using assms(1) bucket_less unfolding i by (auto simp: table_inv_def)
  let ?c = "ht_list t ! i"
  have j: "j = length (takeWhile (\<lambda>p. \<not> slot_matches hs key (H key) p) ?c)" using assms(3) by (auto simp: FindPointer_def Let_def)
  show "slot (i, j) t = Some p \<Longrightarrow> j < length ?c \<and> ?c ! j = p" by (auto simp: slot_def split: if_splits)
  show "slot (i, j) t = Some p \<longleftrightarrow> p \<in> ps \<and> h_key (the (hs p)) = key"
  proof
    assume "slot (i, j) t = Some p"
    then have p: "j < length ?c" "p = ?c ! j" by (auto simp: slot_def split: if_splits)
    then have "slot_matches hs key (H key) p" using nth_length_takeWhile [of "\<lambda>p. \<not> slot_matches hs key (H key) p" ?c] j by simp
    moreover have "p \<in> set ?c" using p by simp
    ultimately show "p \<in> ps \<and> h_key (the (hs p)) = key" using chain_subset [OF assms(1)] i by (auto simp: slot_matches_def)
  next
    assume p: "p \<in> ps \<and> h_key (the (hs p)) = key"
    then have m: "slot_matches hs key (H key) p" using assms(2) by (auto simp: keyed_def slot_matches_def)
    have "p \<in> set ?c" using chain_of [OF assms(1), of p] p assms(2) i by (auto simp: keyed_def)
    then have "j < length ?c" unfolding j using m by (intro takeWhile_shorter) auto
    moreover from this have "slot_matches hs key (H key) (?c ! j)"
      using nth_length_takeWhile [of "\<lambda>p. \<not> slot_matches hs key (H key) p" ?c] j by simp
    moreover have "?c ! j \<in> ps" using chain_subset [OF assms(1), of _ "H key"] calculation(1) i by simp
    ultimately have "?c ! j = p" using assms(2) p unfolding keyed_def inj_on_def slot_matches_def by blast
    then show "slot (i, j) t = Some p" using \<open>j < length ?c\<close> by (simp add: slot_def)
  qed
qed

lemma lookup_table:
  assumes "table_inv hs t ps" "keyed H hs ps"
  shows "HandleTable_Lookup hs key (H key) t = Some p \<longleftrightarrow> p \<in> ps \<and> h_key (the (hs p)) = key"
proof -
  obtain i j where ij: "FindPointer hs key (H key) t = (i, j)" by fastforce
  show ?thesis using find_slot(3) [OF assms ij] by (simp add: HandleTable_Lookup_def ij)
qed

lemma rehash_all:
  assumes "k \<le> 31" "length new_list = 2 ^ k" "placed hs (2 ^ k) new_list"
  shows "length (fold (rehash hs (2 ^ k)) ps new_list) = 2 ^ k \<and>
    mset (concat (fold (rehash hs (2 ^ k)) ps new_list)) = mset ps + mset (concat new_list) \<and>
    placed hs (2 ^ k) (fold (rehash hs (2 ^ k)) ps new_list)"
  using assms(2,3)
proof (induction ps arbitrary: new_list)
  case (Cons p ps)
  let ?b = "bucket (h_hash (the (hs p))) (2 ^ k)"
  let ?l = "rehash hs (2 ^ k) p new_list"
  have b: "?b < 2 ^ k" using bucket_less [OF assms(1)] .
  have l: "?l = new_list[?b := p # new_list ! ?b]" by (simp add: rehash_def Let_def)
  have "mset (concat ?l) + mset (new_list ! ?b) = mset (concat new_list) + mset (p # new_list ! ?b)"
    unfolding l using b Cons.prems by (intro mset_concat_update) simp
  then have m: "mset (concat ?l) = add_mset p (mset (concat new_list))" by simp
  have "placed hs (2 ^ k) ?l" unfolding l using Cons.prems by (intro placed_update) auto
  moreover have "length ?l = 2 ^ k" using Cons.prems by (simp add: l)
  ultimately show ?case using Cons.IH [of ?l] m by simp
qed simp

lemma resize_table:
  assumes "mset (concat (ht_list t)) = mset_set ps" "finite ps" "ht_elems t = card ps" "card ps \<le> 2 ^ 31"
  shows "table_inv hs (Resize hs t) ps"
proof -
  obtain j where j: "grow_length 4 (ht_elems t) = 2 ^ j" "ht_elems t \<le> 2 ^ j" "2 \<le> j" "j \<le> 31"
    using grow_length_4 [of "ht_elems t"] assms(3,4) by auto
  have "mset (concat (replicate (2 ^ j) [])) = {#}" by simp
  moreover have "placed hs (2 ^ j) (replicate (2 ^ j) [])" by (simp add: placed_def)
  ultimately show ?thesis
    using rehash_all [OF j(4), of "replicate (2 ^ j) []" hs "concat (ht_list t)"] assms j by (auto simp: table_inv_def Resize_def Let_def)
qed

lemma insert_table:
  assumes "table_inv hs t ps" "keyed H hs ps" "h_key (the (hs e)) = key" "h_hash (the (hs e)) = H key" "e \<notin> ps" "card ps < 2 ^ 31"
    and "HandleTable_Insert hs e t = (old, t')"
  shows "table_inv hs t' (insert e (case old of None \<Rightarrow> ps | Some p \<Rightarrow> ps - {p}))"
    "old = Some p \<longleftrightarrow> p \<in> ps \<and> h_key (the (hs p)) = key"
proof -
  obtain i j where ij: "FindPointer hs key (H key) t = (i, j)" by fastforce
  note f = find_slot [OF assms(1,2) ij]
  have old: "old = slot (i, j) t" using assms(7) by (auto simp: HandleTable_Insert_def assms(3,4) ij Let_def split: option.splits)
  then show "old = Some p \<longleftrightarrow> p \<in> ps \<and> h_key (the (hs p)) = key" using f(3) by simp
  have inv: "finite ps" "mset (concat (ht_list t)) = mset_set ps" "length (ht_list t) = ht_length t" "ht_elems t = card ps" "ht_elems t \<le> ht_length t"
    "placed hs (ht_length t) (ht_list t)"
    using assms(1) by (auto simp: table_inv_def)
  show "table_inv hs t' (insert e (case old of None \<Rightarrow> ps | Some p \<Rightarrow> ps - {p}))"
  proof (cases old)
    case None
    let ?t = "t\<lparr> ht_list := (ht_list t)[i := ht_list t ! i @ [e]], ht_elems := ht_elems t + 1 \<rparr>"
    have t': "t' = (if ht_elems ?t > ht_length ?t then Resize hs ?t else ?t)"
      using assms(7) old None by (auto simp: HandleTable_Insert_def assms(3,4) ij Let_def split: option.splits)
    have "mset (concat (ht_list ?t)) + mset (ht_list t ! i) = mset (concat (ht_list t)) + mset (ht_list t ! i @ [e])"
      using mset_concat_update [OF f(2)] by simp
    then have m: "mset (concat (ht_list ?t)) = mset_set (insert e ps)" using inv(1,2) assms(5) by simp
    have "placed hs (ht_length t) (ht_list ?t)"
      using placed_update [OF inv(6,3), of "ht_list t ! i @ [e]" i] f(1) assms(4) by auto
    then have "table_inv hs ?t (insert e ps)" if "\<not> ht_elems ?t > ht_length ?t"
      using assms(1,5) m that unfolding table_inv_def by auto
    then show ?thesis using t' m inv(1,4) assms(5,6) None resize_table [of ?t "insert e ps" hs] by auto
  next
    case (Some q)
    let ?t = "t\<lparr> ht_list := (ht_list t)[i := (ht_list t ! i)[j := e]] \<rparr>"
    have t': "t' = ?t" using assms(7) old Some by (auto simp: HandleTable_Insert_def assms(3,4) ij Let_def split: option.splits)
    have q: "j < length (ht_list t ! i)" "ht_list t ! i ! j = q" "q \<in> ps" using f(3,4) [of q] old Some by auto
    have "mset (concat (ht_list ?t)) + mset (ht_list t ! i) = mset (concat (ht_list t)) + mset ((ht_list t ! i)[j := e])"
      using mset_concat_update [OF f(2)] by simp
    moreover have "mset ((ht_list t ! i)[j := e]) = add_mset e (mset (ht_list t ! i) - {#q#})" using q by (simp add: mset_update)
    moreover have "mset (ht_list t ! i) = add_mset q (mset (ht_list t ! i) - {#q#})" using q by (metis insert_DiffM nth_mem_mset)
    ultimately have "mset (concat (ht_list ?t)) + add_mset q (mset (ht_list t ! i) - {#q#}) =
        mset (concat (ht_list t)) + add_mset e (mset (ht_list t ! i) - {#q#})" by simp
    then have "add_mset q (mset (concat (ht_list ?t))) = add_mset e (mset (concat (ht_list t)))"
      by (metis add_right_cancel union_mset_add_mset_left union_mset_add_mset_right)
    also have "\<dots> = add_mset e (add_mset q (mset_set (ps - {q})))" using inv(1,2) q(3) by (simp add: mset_set.remove)
    finally have m: "mset (concat (ht_list ?t)) = mset_set (insert e (ps - {q}))" using inv(1) assms(5) by simp
    have "p \<in> set (ht_list t ! i) \<or> bucket (h_hash (the (hs p))) (ht_length t) = i" if "p \<in> set ((ht_list t ! i)[j := e])" for p
      using set_update_subset_insert [THEN subsetD, OF that] f(1) assms(4) by auto
    then have "placed hs (ht_length t) (ht_list ?t)" using placed_update [OF inv(6,3)] by simp
    moreover have "card (insert e (ps - {q})) = card ps" using inv(1) q(3) assms(5) by (metis Diff_iff card.remove card_insert_disjoint finite_Diff)
    ultimately show ?thesis using assms(1) m t' Some unfolding table_inv_def by auto
  qed
qed

lemma remove_table:
  assumes "table_inv hs t ps" "keyed H hs ps" "HandleTable_Remove hs key (H key) t = (r, t')"
  shows "table_inv hs t' (case r of None \<Rightarrow> ps | Some p \<Rightarrow> ps - {p})"
    "r = Some p \<longleftrightarrow> p \<in> ps \<and> h_key (the (hs p)) = key"
proof -
  obtain i j where ij: "FindPointer hs key (H key) t = (i, j)" by fastforce
  note f = find_slot [OF assms(1,2) ij]
  have r: "r = slot (i, j) t" using assms(3) by (auto simp: HandleTable_Remove_def ij Let_def split: option.splits)
  then show "r = Some p \<longleftrightarrow> p \<in> ps \<and> h_key (the (hs p)) = key" using f(3) by simp
  have inv: "finite ps" "mset (concat (ht_list t)) = mset_set ps" "length (ht_list t) = ht_length t" "ht_elems t = card ps" "ht_elems t \<le> ht_length t"
    "placed hs (ht_length t) (ht_list t)"
    using assms(1) by (auto simp: table_inv_def)
  show "table_inv hs t' (case r of None \<Rightarrow> ps | Some p \<Rightarrow> ps - {p})"
  proof (cases r)
    case None
    then show ?thesis using assms r by (auto simp: HandleTable_Remove_def ij Let_def split: option.splits)
  next
    case (Some q)
    let ?c = "ht_list t ! i"
    let ?t = "t\<lparr> ht_list := (ht_list t)[i := take j ?c @ drop (j + 1) ?c], ht_elems := ht_elems t - 1 \<rparr>"
    have t': "t' = ?t" using assms(3) r Some by (auto simp: HandleTable_Remove_def ij Let_def split: option.splits)
    have q: "j < length ?c" "?c ! j = q" "q \<in> ps" using f(3,4) [of q] r Some by auto
    have c: "mset ?c = add_mset q (mset (take j ?c @ drop (j + 1) ?c))" using id_take_nth_drop [OF q(1)] q(2)
      by (metis Suc_eq_plus1 append_Cons mset.simps(2) mset_append union_mset_add_mset_right)
    have "mset (concat (ht_list ?t)) + mset ?c = mset (concat (ht_list t)) + mset (take j ?c @ drop (j + 1) ?c)"
      using mset_concat_update [OF f(2)] by simp
    then have "add_mset q (mset (concat (ht_list ?t))) = mset (concat (ht_list t))" unfolding c by simp
    also have "\<dots> = add_mset q (mset_set (ps - {q}))" using inv(1,2) q(3) by (simp add: mset_set.remove)
    finally have m: "mset (concat (ht_list ?t)) = mset_set (ps - {q})" by simp
    have "placed hs (ht_length t) (ht_list ?t)"
      using placed_update [OF inv(6,3), of "take j ?c @ drop (j + 1) ?c" i] by (auto dest: in_set_takeD in_set_dropD)
    moreover have "card (ps - {q}) = card ps - 1" using inv(1) q(3) by simp
    ultimately show ?thesis using assms(1) m t' Some inv(1,4,5) unfolding table_inv_def by auto
  qed
qed

section \<open>The invariant of a shard\<close>

definition cached :: "'v LRUCache \<Rightarrow> nat set" where
  "cached c = set (lc_lru c) \<union> set (lc_in_use c)"

definition charge_of :: "'v store \<Rightarrow> nat \<Rightarrow> nat" where
  "charge_of hs p = h_charge (the (hs p))"

text \<open>Everything but the table, which holds the handles \<open>T\<close>.\<close>

definition lru_inv_of :: "(slice \<Rightarrow> u32) \<Rightarrow> nat set \<Rightarrow> 'v LRUCache \<Rightarrow> bool" where
  "lru_inv_of H T c \<longleftrightarrow>
     distinct (lc_lru c @ lc_in_use c) \<and>
     (\<forall>p \<in> set (lc_lru c). \<exists>h. lc_store c p = Some h \<and> h_in_cache h \<and> h_refs h = 1) \<and>
     (\<forall>p \<in> set (lc_in_use c). \<exists>h. lc_store c p = Some h \<and> h_in_cache h \<and> 2 \<le> h_refs h) \<and>
     (\<forall>p h. lc_store c p = Some h \<longrightarrow> p < lc_next c \<and> 1 \<le> h_refs h \<and> (h_in_cache h \<longrightarrow> p \<in> cached c)) \<and>
     table_inv (lc_store c) (lc_table c) T \<and> keyed H (lc_store c) T \<and>
     lc_usage c = (\<Sum>p \<in> cached c. charge_of (lc_store c) p)"

definition lru_inv :: "(slice \<Rightarrow> u32) \<Rightarrow> 'v LRUCache \<Rightarrow> bool" where
  "lru_inv H c \<longleftrightarrow> lru_inv_of H (cached c) c"

text \<open>The references that clients hold.\<close>

definition client_refs :: "'v store \<Rightarrow> nat \<Rightarrow> nat" where
  "client_refs hs p = (case hs p of None \<Rightarrow> 0 | Some h \<Rightarrow> h_refs h - (if h_in_cache h then 1 else 0))"

lemma keyed_cong:
  assumes "keyed H hs ps" "\<And>p. p \<in> ps \<Longrightarrow> h_hash (the (hs' p)) = h_hash (the (hs p)) \<and> h_key (the (hs' p)) = h_key (the (hs p))"
  shows "keyed H hs' ps"
  using assms by (simp add: keyed_def inj_on_def)

lemma lru_inv_facts:
  assumes "lru_inv H c"
  shows "distinct (lc_lru c @ lc_in_use c)" "p \<in> set (lc_lru c) \<Longrightarrow> \<exists>h. lc_store c p = Some h \<and> h_in_cache h \<and> h_refs h = 1"
    "p \<in> set (lc_in_use c) \<Longrightarrow> \<exists>h. lc_store c p = Some h \<and> h_in_cache h \<and> 2 \<le> h_refs h"
    "lc_store c p = Some h \<Longrightarrow> p < lc_next c \<and> 1 \<le> h_refs h \<and> (h_in_cache h \<longrightarrow> p \<in> cached c)"
    "table_inv (lc_store c) (lc_table c) (cached c)" "keyed H (lc_store c) (cached c)"
    "lc_usage c = (\<Sum>p \<in> cached c. charge_of (lc_store c) p)" "finite (cached c)"
  using assms by (auto simp: lru_inv_def lru_inv_of_def cached_def)

text \<open>A handle changes its count, and its list accordingly.\<close>

lemma recount_inv:
  assumes "lru_inv H c" "lc_store c e = Some h" "1 \<le> n"
    and "lru = (if h_in_cache h \<and> n = 1 then (if h_refs h = 1 then lc_lru c else lc_lru c @ [e]) else remove1 e (lc_lru c))"
    and "use = (if h_in_cache h \<and> n \<noteq> 1 then (if h_refs h \<noteq> 1 then lc_in_use c else lc_in_use c @ [e]) else remove1 e (lc_in_use c))"
  shows "lru_inv H (c\<lparr> lc_store := (lc_store c)(e \<mapsto> h\<lparr> h_refs := n \<rparr>), lc_lru := lru, lc_in_use := use \<rparr>)"
    and "set lru \<union> set use = cached c"
proof -
  note i = lru_inv_facts [OF assms(1)]
  have d: "distinct (lc_lru c)" "distinct (lc_in_use c)" "set (lc_lru c) \<inter> set (lc_in_use c) = {}" using i(1) by auto
  have e: "h_in_cache h \<longrightarrow> (if h_refs h = 1 then e \<in> set (lc_lru c) \<and> e \<notin> set (lc_in_use c) else e \<in> set (lc_in_use c) \<and> e \<notin> set (lc_lru c))"
    using i(2) [of e] i(3) [of e] i(4) [OF assms(2)] assms(2) by (auto simp: cached_def)
  have ne: "\<not> h_in_cache h \<longrightarrow> e \<notin> set (lc_lru c) \<and> e \<notin> set (lc_in_use c)" using i(2,3) [of e] assms(2) by auto
  show C: "set lru \<union> set use = cached c"
    using assms(4,5) e ne d by (auto simp: cached_def set_remove1_eq remove1_idem split: if_splits)
  let ?s = "(lc_store c)(e \<mapsto> h\<lparr> h_refs := n \<rparr>)"
  let ?c = "c\<lparr> lc_store := ?s, lc_lru := lru, lc_in_use := use \<rparr>"
  have C': "cached ?c = cached c" using C by (simp add: cached_def)
  have "distinct (lru @ use)" using assms(4,5) e ne d by (auto simp: distinct_remove1 set_remove1_eq remove1_idem)
  moreover have "\<forall>p \<in> set lru. \<exists>h. ?s p = Some h \<and> h_in_cache h \<and> h_refs h = 1"
    using assms(4) e ne d i(2) by (auto simp: set_remove1_eq remove1_idem split: if_splits)
  moreover have "\<forall>p \<in> set use. \<exists>h. ?s p = Some h \<and> h_in_cache h \<and> 2 \<le> h_refs h"
    using assms(3,5) e ne d i(3) by (auto simp: set_remove1_eq remove1_idem split: if_splits)
  moreover have "\<forall>p h. ?s p = Some h \<longrightarrow> p < lc_next c \<and> 1 \<le> h_refs h \<and> (h_in_cache h \<longrightarrow> p \<in> cached c)"
    using i(4) assms(2,3) by auto
  moreover have "table_inv ?s (lc_table c) (cached c)" using assms(2) by (intro table_inv_cong [OF i(5)]) auto
  moreover have "keyed H ?s (cached c)" using assms(2) by (intro keyed_cong [OF i(6)]) auto
  moreover have "lc_usage c = (\<Sum>p \<in> cached c. charge_of ?s p)" unfolding i(7) using assms(2) by (intro sum.cong) (auto simp: charge_of_def)
  ultimately show "lru_inv H ?c" unfolding lru_inv_def lru_inv_of_def C' by simp
qed

lemma ref_inv:
  assumes "lru_inv H c" "lc_store c e = Some h"
  shows "lru_inv H (LRUCache_Ref e c)" "cached (LRUCache_Ref e c) = cached c"
    "lc_store (LRUCache_Ref e c) = (lc_store c)(e \<mapsto> h\<lparr> h_refs := h_refs h + 1 \<rparr>)"
    "lc_deleted (LRUCache_Ref e c) = lc_deleted c" "lc_next (LRUCache_Ref e c) = lc_next c"
proof -
  note i = lru_inv_facts [OF assms(1)]
  let ?m = "h_refs h = 1 \<and> h_in_cache h"
  let ?lru = "if ?m then remove1 e (lc_lru c) else lc_lru c" and ?use = "if ?m then remove1 e (lc_in_use c) @ [e] else lc_in_use c"
  have c: "LRUCache_Ref e c = c\<lparr> lc_store := (lc_store c)(e \<mapsto> h\<lparr> h_refs := h_refs h + 1 \<rparr>), lc_lru := ?lru, lc_in_use := ?use \<rparr>"
    using assms(2) by (simp add: LRUCache_Ref_def Let_def LRU_Append_in_use_def LRU_Remove_def with_handle_def)
  have n: "h_refs h + 1 \<noteq> 1" using i(4) [OF assms(2)] by simp
  have nu: "?m \<longrightarrow> e \<notin> set (lc_in_use c)" "\<not> ?m \<longrightarrow> e \<notin> set (lc_lru c)" using i(2,3) [of e] assms(2) by auto
  have nc: "\<not> h_in_cache h \<longrightarrow> e \<notin> set (lc_in_use c)" using i(3) [of e] assms(2) by auto
  have l: "?lru = (if h_in_cache h \<and> h_refs h + 1 = 1 then (if h_refs h = 1 then lc_lru c else lc_lru c @ [e]) else remove1 e (lc_lru c))"
    "?use = (if h_in_cache h \<and> h_refs h + 1 \<noteq> 1 then (if h_refs h \<noteq> 1 then lc_in_use c else lc_in_use c @ [e]) else remove1 e (lc_in_use c))"
    using n nu nc by (auto simp: remove1_idem)
  show "lru_inv H (LRUCache_Ref e c)" unfolding c by (rule recount_inv(1) [OF assms _ l]) simp
  show "cached (LRUCache_Ref e c) = cached c" using recount_inv(2) [OF assms _ l] by (simp add: c cached_def)
qed (simp_all add: LRUCache_Ref_def Let_def LRU_Append_in_use_def LRU_Remove_def with_handle_def assms(2))

text \<open>A client gives a reference back: the handle is freed, or goes back to the LRU list, or nothing else happens.\<close>

lemma unref_inv:
  assumes "lru_inv H c" "lc_store c e = Some h" "0 < client_refs (lc_store c) e"
  shows "lru_inv H (LRUCache_Unref e c)" "cached (LRUCache_Unref e c) = cached c"
    "lc_store (LRUCache_Unref e c) = (lc_store c)(e := if h_refs h = 1 then None else Some (h\<lparr> h_refs := h_refs h - 1 \<rparr>))"
    "lc_deleted (LRUCache_Unref e c) = lc_deleted c @ (if h_refs h = 1 then [(h_key h, h_value h)] else [])" "lc_next (LRUCache_Unref e c) = lc_next c"
proof -
  note i = lru_inv_facts [OF assms(1)]
  have r: "1 \<le> h_refs h" "h_in_cache h \<longrightarrow> 2 \<le> h_refs h" using i(4) [OF assms(2)] assms(2,3) by (auto simp: client_refs_def)
  show "lc_store (LRUCache_Unref e c) = (lc_store c)(e := if h_refs h = 1 then None else Some (h\<lparr> h_refs := h_refs h - 1 \<rparr>))"
    "lc_deleted (LRUCache_Unref e c) = lc_deleted c @ (if h_refs h = 1 then [(h_key h, h_value h)] else [])" "lc_next (LRUCache_Unref e c) = lc_next c"
    using r(1) by (auto simp: LRUCache_Unref_def Let_def LRU_Append_lru_def LRU_Remove_def with_handle_def assms(2))
  have "lru_inv H (LRUCache_Unref e c) \<and> cached (LRUCache_Unref e c) = cached c"
  proof (cases "h_refs h = 1")
    case True
    then have e: "e \<notin> cached c" using r i(2,3) [of e] assms(2) by (auto simp: cached_def)
    have c: "LRUCache_Unref e c = c\<lparr> lc_store := (lc_store c)(e := None), lc_deleted := lc_deleted c @ [(h_key h, h_value h)] \<rparr>"
      using True by (simp add: LRUCache_Unref_def Let_def with_handle_def assms(2))
    have s: "\<And>p. p \<in> cached c \<Longrightarrow> ((lc_store c)(e := None)) p = lc_store c p" using e by auto
    have "table_inv ((lc_store c)(e := None)) (lc_table c) (cached c)" using s by (intro table_inv_cong [OF i(5)]) simp
    moreover have "keyed H ((lc_store c)(e := None)) (cached c)" using s by (intro keyed_cong [OF i(6)]) simp
    moreover have "lc_usage c = (\<Sum>p \<in> cached c. charge_of ((lc_store c)(e := None)) p)"
      unfolding i(7) using s by (intro sum.cong) (simp_all add: charge_of_def)
    ultimately show ?thesis using i(1-4) e unfolding c lru_inv_def lru_inv_of_def cached_def by auto
  next
    case False
    let ?n = "h_refs h - 1"
    let ?m = "h_in_cache h \<and> ?n = 1"
    let ?lru = "if ?m then remove1 e (lc_lru c) @ [e] else lc_lru c" and ?use = "if ?m then remove1 e (lc_in_use c) else lc_in_use c"
    have c: "LRUCache_Unref e c = c\<lparr> lc_store := (lc_store c)(e \<mapsto> h\<lparr> h_refs := ?n \<rparr>), lc_lru := ?lru, lc_in_use := ?use \<rparr>"
      using False r by (simp add: LRUCache_Unref_def Let_def LRU_Append_lru_def LRU_Remove_def with_handle_def assms(2))
    have e: "e \<notin> set (lc_lru c)" using i(2) [of e] assms(2) False by auto
    have nc: "\<not> h_in_cache h \<longrightarrow> e \<notin> set (lc_in_use c)" using i(3) [of e] assms(2) by auto
    have l: "?lru = (if h_in_cache h \<and> ?n = 1 then (if h_refs h = 1 then lc_lru c else lc_lru c @ [e]) else remove1 e (lc_lru c))"
      "?use = (if h_in_cache h \<and> ?n \<noteq> 1 then (if h_refs h \<noteq> 1 then lc_in_use c else lc_in_use c @ [e]) else remove1 e (lc_in_use c))"
      using False e nc r by (auto simp: remove1_idem)
    have n: "1 \<le> ?n" using False r by simp
    show ?thesis using recount_inv [OF assms(1,2) n l] unfolding c by (simp add: cached_def)
  qed
  then show "lru_inv H (LRUCache_Unref e c)" "cached (LRUCache_Unref e c) = cached c" by simp_all
qed

section \<open>Leaving the cache\<close>

text \<open>A handle that leaves the cache is freed unless clients hold it.\<close>

definition uncached :: "'v LRUHandle \<Rightarrow> 'v LRUHandle option" where
  "uncached h = (if h_refs h = 1 then None else Some (h\<lparr> h_in_cache := False, h_refs := h_refs h - 1 \<rparr>))"

lemma finish_erase:
  assumes "lru_inv_of H (cached c - {e}) c" "e \<in> cached c" "lc_store c e = Some h" "FinishErase (Some e) c = (r, c')"
  shows "lru_inv H c'" "cached c' = cached c - {e}"
    "c' = c\<lparr> lc_lru := remove1 e (lc_lru c), lc_in_use := remove1 e (lc_in_use c), lc_store := (lc_store c)(e := uncached h),
             lc_usage := lc_usage c - h_charge h, lc_deleted := lc_deleted c @ (if h_refs h = 1 then [(h_key h, h_value h)] else []) \<rparr>"
proof -
  have i: "distinct (lc_lru c @ lc_in_use c)" "\<And>p. p \<in> set (lc_lru c) \<Longrightarrow> \<exists>h. lc_store c p = Some h \<and> h_in_cache h \<and> h_refs h = 1"
    "\<And>p. p \<in> set (lc_in_use c) \<Longrightarrow> \<exists>h. lc_store c p = Some h \<and> h_in_cache h \<and> 2 \<le> h_refs h"
    "\<And>p h. lc_store c p = Some h \<Longrightarrow> p < lc_next c \<and> 1 \<le> h_refs h \<and> (h_in_cache h \<longrightarrow> p \<in> cached c)"
    "table_inv (lc_store c) (lc_table c) (cached c - {e})" "keyed H (lc_store c) (cached c - {e})"
    "lc_usage c = (\<Sum>p \<in> cached c. charge_of (lc_store c) p)" "finite (cached c)"
    using assms(1) by (auto simp: lru_inv_of_def cached_def)
  have r: "1 \<le> h_refs h" using i(4) [OF assms(3)] by simp
  then have r2: "h_refs h \<noteq> 1 \<Longrightarrow> 2 \<le> h_refs h" by simp
  show c': "c' = c\<lparr> lc_lru := remove1 e (lc_lru c), lc_in_use := remove1 e (lc_in_use c), lc_store := (lc_store c)(e := uncached h),
             lc_usage := lc_usage c - h_charge h, lc_deleted := lc_deleted c @ (if h_refs h = 1 then [(h_key h, h_value h)] else []) \<rparr>"
    using assms(3,4) r by (auto simp: FinishErase_def Let_def LRUCache_Unref_def LRU_Remove_def with_handle_def uncached_def)
  show C: "cached c' = cached c - {e}" using i(1) by (auto simp: c' cached_def)
  let ?s = "(lc_store c)(e := uncached h)"
  have s: "\<And>p. p \<in> cached c - {e} \<Longrightarrow> ?s p = lc_store c p" by auto
  have "lc_usage c' = (\<Sum>p \<in> cached c - {e}. charge_of (lc_store c) p)"
    using i(7,8) assms(2,3) by (simp add: c' sum_diff1_nat charge_of_def)
  also have "\<dots> = (\<Sum>p \<in> cached c - {e}. charge_of ?s p)" using s by (intro sum.cong) (simp_all add: charge_of_def)
  finally have "lc_usage c' = (\<Sum>p \<in> cached c - {e}. charge_of ?s p)" .
  moreover have "table_inv ?s (lc_table c) (cached c - {e})" using s by (intro table_inv_cong [OF i(5)]) simp
  moreover have "keyed H ?s (cached c - {e})" using s by (intro keyed_cong [OF i(6)]) simp
  moreover have "distinct (lc_lru c' @ lc_in_use c')" using i(1) by (auto simp: c')
  moreover have "\<forall>p \<in> set (lc_lru c'). \<exists>h. ?s p = Some h \<and> h_in_cache h \<and> h_refs h = 1" using i(1,2) by (auto simp: c')
  moreover have "\<forall>p \<in> set (lc_in_use c'). \<exists>h. ?s p = Some h \<and> h_in_cache h \<and> 2 \<le> h_refs h" using i(1,3) by (auto simp: c')
  moreover have "\<forall>p h. ?s p = Some h \<longrightarrow> p < lc_next c \<and> 1 \<le> h_refs h \<and> (h_in_cache h \<longrightarrow> p \<in> cached c - {e})"
    using i(4) r2 i(4) [OF assms(3)] by (auto simp: uncached_def)
  moreover have "uncached h = Some k \<Longrightarrow> \<not> h_in_cache k" for k by (auto simp: uncached_def split: if_splits)
  ultimately show "lru_inv H c'" unfolding lru_inv_def lru_inv_of_def C by (simp add: c')
qed

lemma erase_cached:
  assumes "lru_inv H c" "e \<in> cached c" "lc_store c e = Some h"
  shows "lru_inv H (erase_key (h_key h) (H (h_key h)) c)" "cached (erase_key (h_key h) (H (h_key h)) c) = cached c - {e}"
    "\<exists>t. erase_key (h_key h) (H (h_key h)) c =
       c\<lparr> lc_lru := remove1 e (lc_lru c), lc_in_use := remove1 e (lc_in_use c), lc_store := (lc_store c)(e := uncached h),
          lc_usage := lc_usage c - h_charge h, lc_deleted := lc_deleted c @ (if h_refs h = 1 then [(h_key h, h_value h)] else []),
          lc_table := t \<rparr>"
proof -
  note i = lru_inv_facts [OF assms(1)]
  obtain p t where rm: "HandleTable_Remove (lc_store c) (h_key h) (H (h_key h)) (lc_table c) = (p, t)" by fastforce
  have p: "p = Some e" using remove_table(2) [OF i(5,6) rm, of e] assms(2,3) by simp
  let ?c = "c\<lparr> lc_table := t \<rparr>"
  have C: "cached ?c = cached c" by (simp add: cached_def)
  have t: "table_inv (lc_store c) t (cached c - {e})" using remove_table(1) [OF i(5,6) rm] p by simp
  have k: "keyed H (lc_store c) (cached c - {e})" using i(6) by (auto simp: keyed_def inj_on_def)
  have inv: "lru_inv_of H (cached ?c - {e}) ?c"
    using assms(1) t k unfolding lru_inv_def lru_inv_of_def C by simp
  obtain r c' where f: "FinishErase (Some e) ?c = (r, c')" by fastforce
  have er: "erase_key (h_key h) (H (h_key h)) c = c'" using f by (simp add: erase_key_def rm p)
  have e: "e \<in> cached ?c" "lc_store ?c e = Some h" using assms(2,3) C by simp_all
  note fe = finish_erase [OF inv e f]
  show "lru_inv H (erase_key (h_key h) (H (h_key h)) c)" "cached (erase_key (h_key h) (H (h_key h)) c) = cached c - {e}"
    using fe(1,2) C by (simp_all add: er)
  show "\<exists>t. erase_key (h_key h) (H (h_key h)) c =
       c\<lparr> lc_lru := remove1 e (lc_lru c), lc_in_use := remove1 e (lc_in_use c), lc_store := (lc_store c)(e := uncached h),
          lc_usage := lc_usage c - h_charge h, lc_deleted := lc_deleted c @ (if h_refs h = 1 then [(h_key h, h_value h)] else []),
          lc_table := t \<rparr>"
    unfolding er fe(3) by (intro exI [of _ t]) (cases c, simp)
qed

lemma erase_absent:
  assumes "lru_inv H c" "\<forall>p \<in> cached c. h_key (the (lc_store c p)) \<noteq> key"
  shows "erase_key key (H key) c = c"
proof -
  note i = lru_inv_facts [OF assms(1)]
  obtain p t where rm: "HandleTable_Remove (lc_store c) key (H key) (lc_table c) = (p, t)" by fastforce
  have "p = None" using remove_table(2) [OF i(5,6) rm] assms(2) by (cases p) auto
  then show ?thesis using rm by (auto simp: erase_key_def FinishErase_def HandleTable_Remove_def Let_def split: option.splits prod.splits)
qed

text \<open>Evicting removes and frees the oldest unused entries, one at a time, as long as the condition holds.\<close>

definition evicted :: "nat \<Rightarrow> 'v LRUCache \<Rightarrow> 'v LRUCache \<Rightarrow> bool" where
  "evicted n c c' \<longleftrightarrow>
     n \<le> length (lc_lru c) \<and> lc_lru c' = drop n (lc_lru c) \<and> lc_in_use c' = lc_in_use c \<and> lc_capacity c' = lc_capacity c \<and> lc_next c' = lc_next c \<and>
     lc_usage c' = lc_usage c - (\<Sum>p \<leftarrow> take n (lc_lru c). charge_of (lc_store c) p) \<and>
     lc_store c' = (\<lambda>p. if p \<in> set (take n (lc_lru c)) then None else lc_store c p) \<and>
     lc_deleted c' = lc_deleted c @ map (\<lambda>p. (h_key (the (lc_store c p)), h_value (the (lc_store c p)))) (take n (lc_lru c))"

lemma evict_one:
  assumes "lru_inv H c" "lc_lru c = e # es" "lc_store c e = Some h"
  shows "h_hash h = H (h_key h)" "lru_inv H (erase_key (h_key h) (H (h_key h)) c)" "evicted 1 c (erase_key (h_key h) (H (h_key h)) c)"
proof -
  note i = lru_inv_facts [OF assms(1)]
  have e: "e \<in> cached c" using assms(2) by (simp add: cached_def)
  show "h_hash h = H (h_key h)" using i(6) e assms(3) by (auto simp: keyed_def)
  show "lru_inv H (erase_key (h_key h) (H (h_key h)) c)" using erase_cached(1) [OF assms(1) e assms(3)] .
  have r: "h_refs h = 1" using i(2) [of e] assms(2,3) by auto
  have u: "remove1 e (lc_in_use c) = lc_in_use c" using i(1) assms(2) by (simp add: remove1_idem)
  show "evicted 1 c (erase_key (h_key h) (H (h_key h)) c)"
    using erase_cached(3) [OF assms(1) e assms(3)] assms(2,3) r u by (auto simp: evicted_def uncached_def charge_of_def)
qed

lemma evicted_trans:
  assumes "evicted 1 c c1" "lc_lru c = e # es" "distinct (lc_lru c)" "evicted n c1 c2"
  shows "evicted (Suc n) c c2"
proof -
  have l: "lc_lru c1 = es" using assms(1,2) by (simp add: evicted_def)
  have st: "lc_store c1 p = lc_store c p" if "p \<in> set (take n es)" for p
    using assms(1-3) in_set_takeD [OF that] by (auto simp: evicted_def)
  then have m: "map (charge_of (lc_store c1)) (take n es) = map (charge_of (lc_store c)) (take n es)"
    "map (\<lambda>p. (h_key (the (lc_store c1 p)), h_value (the (lc_store c1 p)))) (take n es) =
     map (\<lambda>p. (h_key (the (lc_store c p)), h_value (the (lc_store c p)))) (take n es)"
    by (simp_all add: charge_of_def)
  show ?thesis using assms(1,4) unfolding evicted_def l m by (auto simp: fun_eq_iff assms(2))
qed

lemma evict_returns:
  assumes "lru_inv H c"
  shows "\<exists>c' n. evict_while full c = Some c' \<and> lru_inv H c' \<and> evicted n c c' \<and> (\<not> full c' \<or> lc_lru c' = []) \<and>
    (\<forall>k < n. \<exists>ck. evicted k c ck \<and> full ck)"
  using assms
proof (induction "length (lc_lru c)" arbitrary: c)
  case 0
  then show ?case by (subst evict_while.simps) (auto simp: evicted_def intro!: exI [of _ 0])
next
  case (Suc m)
  then obtain e es where l: "lc_lru c = e # es" by (cases "lc_lru c") auto
  show ?case
  proof (cases "full c")
    case False
    then show ?thesis using Suc.prems by (subst evict_while.simps) (auto simp: evicted_def intro!: exI [of _ 0])
  next
    case True
    obtain h where h: "lc_store c e = Some h" using lru_inv_facts(2) [OF Suc.prems, of e] l by auto
    note one = evict_one [OF Suc.prems l h]
    let ?c = "erase_key (h_key h) (H (h_key h)) c"
    have "m = length (lc_lru ?c)" using one(3) Suc.hyps(2) l by (simp add: evicted_def)
    from Suc.hyps(1) [OF this one(2)] obtain c' n where n: "evict_while full ?c = Some c'" "lru_inv H c'" "evicted n ?c c'"
      "\<not> full c' \<or> lc_lru c' = []" "\<forall>k < n. \<exists>ck. evicted k ?c ck \<and> full ck" by blast
    have "evict_while full c = Some c'" using True l h one(1) n(1) by (subst evict_while.simps) (simp add: Let_def)
    moreover have d: "distinct (lc_lru c)" using lru_inv_facts(1) [OF Suc.prems] by simp
    moreover have "\<exists>ck. evicted k c ck \<and> full ck" if "k < Suc n" for k
    proof (cases k)
      case 0
      then show ?thesis using True by (intro exI [of _ c]) (simp add: evicted_def)
    next
      case (Suc k')
      then show ?thesis using n(5) that evicted_trans [OF one(3) l d] by (metis Suc_less_eq)
    qed
    ultimately show ?thesis using n evicted_trans [OF one(3) l d n(3)] by blast
  qed
qed

section \<open>Insertion\<close>

lemma lookup_finds:
  assumes "lru_inv H c"
  shows "fst (LRUCache_Lookup key (H key) c) = Some p \<longleftrightarrow> p \<in> cached c \<and> h_key (the (lc_store c p)) = key"
  using lookup_table [OF lru_inv_facts(5,6) [OF assms], of key p] by (auto simp: LRUCache_Lookup_def split: option.splits)

text \<open>The state before the eviction: the new handle is in use, an old one of the key has left.\<close>

definition entered :: "slice \<Rightarrow> u32 \<Rightarrow> 'v \<Rightarrow> nat \<Rightarrow> 'v LRUCache \<Rightarrow> 'v LRUCache" where
  "entered key hash val charge c =
     (let e = lc_next c;
          h = \<lparr> h_value = val, h_charge = charge, h_key = key, h_in_cache = False, h_refs = 1, h_hash = hash \<rparr>;
          c = c\<lparr> lc_next := e + 1 \<rparr>
      in if lc_capacity c > 0
         then (let c = LRU_Append_in_use e (with_handle e (h\<lparr> h_refs := 2, h_in_cache := True \<rparr>) c);
                   c = c\<lparr> lc_usage := lc_usage c + charge \<rparr>;
                   (old, t) = HandleTable_Insert (lc_store c) e (lc_table c)
               in snd (FinishErase old (c\<lparr> lc_table := t \<rparr>)))
         else with_handle e h c)"

lemma Insert_entered:
  "LRUCache_Insert key hash val charge c =
     map_option (Pair (lc_next c)) (evict_while (\<lambda>c. lc_usage c > lc_capacity c) (entered key hash val charge c))"
  by (simp add: LRUCache_Insert_def entered_def Let_def)

text \<open>The store and the deletions, as one step on the old handle of the key.\<close>

definition replaced :: "'v LRUCache \<Rightarrow> slice \<Rightarrow> nat set" where
  "replaced c key = {p \<in> cached c. h_key (the (lc_store c p)) = key}"

lemma entered_plain:
  assumes "lru_inv H c" "lc_capacity c = 0"
  shows "lru_inv H (entered key hash val charge c)" "cached (entered key hash val charge c) = cached c"
    "entered key hash val charge c = c\<lparr> lc_next := lc_next c + 1,
       lc_store := (lc_store c)(lc_next c \<mapsto> \<lparr> h_value = val, h_charge = charge, h_key = key, h_in_cache = False, h_refs = 1, h_hash = hash \<rparr>) \<rparr>"
proof -
  note i = lru_inv_facts [OF assms(1)]
  let ?e = "lc_next c"
  show en: "entered key hash val charge c = c\<lparr> lc_next := lc_next c + 1,
       lc_store := (lc_store c)(lc_next c \<mapsto> \<lparr> h_value = val, h_charge = charge, h_key = key, h_in_cache = False, h_refs = 1, h_hash = hash \<rparr>) \<rparr>"
    using assms(2) by (simp add: entered_def Let_def with_handle_def)
  show C: "cached (entered key hash val charge c) = cached c" by (simp add: en cached_def)
  have e: "?e \<notin> cached c" using i(2,3,4) [of ?e] by (fastforce simp: cached_def)
  let ?s = "lc_store (entered key hash val charge c)"
  have s: "\<And>p. p \<in> cached c \<Longrightarrow> ?s p = lc_store c p" using e by (auto simp: en)
  have "table_inv ?s (lc_table c) (cached c)" using s by (intro table_inv_cong [OF i(5)]) simp
  moreover have "keyed H ?s (cached c)" using s by (intro keyed_cong [OF i(6)]) simp
  moreover have "lc_usage c = (\<Sum>p \<in> cached c. charge_of ?s p)" unfolding i(7) using s by (intro sum.cong) (simp_all add: charge_of_def)
  moreover have "\<forall>p \<in> set (lc_lru c). \<exists>h. ?s p = Some h \<and> h_in_cache h \<and> h_refs h = 1" using s i(2) by (simp add: cached_def)
  moreover have "\<forall>p \<in> set (lc_in_use c). \<exists>h. ?s p = Some h \<and> h_in_cache h \<and> 2 \<le> h_refs h" using s i(3) by (simp add: cached_def)
  moreover have "\<forall>p h. ?s p = Some h \<longrightarrow> p < ?e + 1 \<and> 1 \<le> h_refs h \<and> (h_in_cache h \<longrightarrow> p \<in> cached c)" using i(4) by (auto simp: en less_SucI)
  ultimately show "lru_inv H (entered key hash val charge c)" using i(1) unfolding lru_inv_def lru_inv_of_def C by (simp add: en)
qed

text \<open>With the new handle in the lists and in the table, and the old handle of the key out of the table only.\<close>

lemma entering:
  assumes "lru_inv H c" "card (cached c) < 2 ^ 31"
    and h: "h = \<lparr> h_value = val, h_charge = charge, h_key = key, h_in_cache = True, h_refs = 2, h_hash = H key \<rparr>"
    and s: "s = (lc_store c)(lc_next c \<mapsto> h)" and t: "HandleTable_Insert s (lc_next c) (lc_table c) = (old, t)"
    and c1: "c1 = c\<lparr> lc_next := lc_next c + 1, lc_store := s, lc_in_use := lc_in_use c @ [lc_next c], lc_usage := lc_usage c + charge, lc_table := t \<rparr>"
  shows "lru_inv_of H (case old of None \<Rightarrow> cached c1 | Some p \<Rightarrow> cached c1 - {p}) c1" "cached c1 = insert (lc_next c) (cached c)"
    "lc_next c \<notin> cached c" "old = Some p \<longleftrightarrow> p \<in> replaced c key" "\<And>p. p \<in> cached c \<Longrightarrow> lc_store c1 p = lc_store c p"
proof -
  note i = lru_inv_facts [OF assms(1)]
  let ?e = "lc_next c"
  show e: "?e \<notin> cached c" using i(2,3,4) [of ?e] by (fastforce simp: cached_def)
  show C: "cached c1 = insert ?e (cached c)" by (auto simp: c1 cached_def)
  have s1: "\<And>p. p \<in> cached c \<Longrightarrow> s p = lc_store c p" using e by (auto simp: s)
  then show "\<And>p. p \<in> cached c \<Longrightarrow> lc_store c1 p = lc_store c p" by (simp add: c1)
  have ti: "table_inv s (lc_table c) (cached c)" using s1 by (intro table_inv_cong [OF i(5)]) simp
  have ki: "keyed H s (cached c)" using s1 by (intro keyed_cong [OF i(6)]) simp
  have he: "h_key (the (s ?e)) = key" "h_hash (the (s ?e)) = H key" by (simp_all add: s h)
  note it = insert_table [OF ti ki he e assms(2) t]
  show old: "old = Some p \<longleftrightarrow> p \<in> replaced c key" for p using it(2) [of p] s1 by (auto simp: replaced_def)
  let ?T = "case old of None \<Rightarrow> cached c1 | Some p \<Rightarrow> cached c1 - {p}"
  have T: "?T = insert ?e (case old of None \<Rightarrow> cached c | Some p \<Rightarrow> cached c - {p})"
  proof (cases old)
    case (Some p)
    then have "p \<noteq> ?e" using e old [of p] by (auto simp: replaced_def)
    then show ?thesis by (auto simp: Some C)
  qed (simp add: C)
  have sub: "p \<in> cached c \<and> h_key (the (s p)) \<noteq> key" if "p \<in> ?T" "p \<noteq> ?e" for p
    using that it(2) [of p] unfolding T by (cases old) auto
  have "h_hash (the (s p)) = H (h_key (the (s p)))" if "p \<in> ?T" for p
    using that sub [OF that] ki he by (cases "p = ?e") (simp_all add: keyed_def)
  moreover have "inj_on (\<lambda>p. h_key (the (s p))) ?T"
  proof (rule inj_onI)
    fix p q assume pq: "p \<in> ?T" "q \<in> ?T" and eq: "h_key (the (s p)) = h_key (the (s q))"
    consider "p = ?e" "q = ?e" | "p = ?e" "q \<noteq> ?e" | "p \<noteq> ?e" "q = ?e" | "p \<noteq> ?e" "q \<noteq> ?e" by blast
    then show "p = q"
    proof cases
      case 2
      then show ?thesis using sub [OF pq(2) 2(2)] eq he(1) by simp
    next
      case 3
      then show ?thesis using sub [OF pq(1) 3(1)] eq he(1) by simp
    next
      case 4
      then show ?thesis using sub [OF pq(1) 4(1)] sub [OF pq(2) 4(2)] ki eq unfolding keyed_def inj_on_def by blast
    qed simp
  qed
  ultimately have "keyed H s ?T" by (simp add: keyed_def)
  moreover have "table_inv s t ?T" using it(1) T by simp
  moreover have "lc_usage c + charge = (\<Sum>p \<in> cached c1. charge_of s p)"
    using i(7,8) e s1 by (simp add: C s h charge_of_def) 
  moreover have "distinct (lc_lru c @ lc_in_use c @ [?e])" using i(1) e by (auto simp: cached_def)
  moreover have "\<forall>p \<in> set (lc_lru c). \<exists>h. s p = Some h \<and> h_in_cache h \<and> h_refs h = 1" using s1 i(2) by (simp add: cached_def)
  moreover have "\<forall>p \<in> set (lc_in_use c @ [?e]). \<exists>h. s p = Some h \<and> h_in_cache h \<and> 2 \<le> h_refs h"
    using s1 i(3) by (auto simp: cached_def) (simp add: s h)
  moreover have "\<forall>p h. s p = Some h \<longrightarrow> p < ?e + 1 \<and> 1 \<le> h_refs h \<and> (h_in_cache h \<longrightarrow> p \<in> cached c1)"
    using i(4) by (auto simp: s h C less_SucI)
  ultimately show "lru_inv_of H ?T c1" unfolding lru_inv_of_def by (simp add: c1)
qed

lemma entered_cached:
  fixes key val charge c
  assumes "lru_inv H c" "0 < lc_capacity c" "card (cached c) < 2 ^ 31"
  defines "h \<equiv> \<lparr> h_value = val, h_charge = charge, h_key = key, h_in_cache = True, h_refs = 2, h_hash = H key \<rparr>"
    and "c' \<equiv> entered key (H key) val charge c"
  shows "lru_inv H c'" "cached c' = insert (lc_next c) (cached c - replaced c key)"
    "lc_lru c' = filter (\<lambda>p. p \<notin> replaced c key) (lc_lru c)" "lc_capacity c' = lc_capacity c" "lc_next c' = lc_next c + 1"
    "lc_store c' = (\<lambda>p. if p = lc_next c then Some h
       else if p \<in> replaced c key then uncached (the (lc_store c p)) else lc_store c p)"
    "length (lc_deleted c') = length (lc_deleted c) + card {p \<in> replaced c key. h_refs (the (lc_store c p)) = 1}"
proof -
  note i = lru_inv_facts [OF assms(1)]
  let ?s = "(lc_store c)(lc_next c \<mapsto> h)"
  obtain old t where t: "HandleTable_Insert ?s (lc_next c) (lc_table c) = (old, t)" by fastforce
  define c1 where "c1 = c\<lparr> lc_next := lc_next c + 1, lc_store := ?s, lc_in_use := lc_in_use c @ [lc_next c], lc_usage := lc_usage c + charge, lc_table := t \<rparr>"
  note en = entering [OF assms(1,3) h_def [THEN meta_eq_to_obj_eq] refl t c1_def]
  have c': "c' = snd (FinishErase old c1)"
    using assms(2) t by (simp add: c'_def entered_def Let_def LRU_Append_in_use_def with_handle_def c1_def h_def)
  have d: "distinct (lc_lru c)" "lc_next c \<notin> replaced c key" using i(1) en(3) by (auto simp: replaced_def)
  have "lru_inv H c' \<and> cached c' = insert (lc_next c) (cached c - replaced c key) \<and>
    lc_lru c' = filter (\<lambda>p. p \<notin> replaced c key) (lc_lru c) \<and> lc_capacity c' = lc_capacity c \<and> lc_next c' = lc_next c + 1 \<and>
    lc_store c' = (\<lambda>p. if p = lc_next c then Some h
       else if p \<in> replaced c key then uncached (the (lc_store c p)) else lc_store c p) \<and>
    length (lc_deleted c') = length (lc_deleted c) + card {p \<in> replaced c key. h_refs (the (lc_store c p)) = 1}"
  proof (cases old)
    case None
    then have "replaced c key = {}" using en(4) by auto
    then show ?thesis using en(1,2) None by (auto simp: c' FinishErase_def lru_inv_def c1_def)
  next
    case (Some p)
    then have r: "replaced c key = {p}" unfolding set_eq_iff singleton_iff en(4) [symmetric] by blast
    then have p: "p \<in> cached c" by (auto simp: replaced_def)
    then obtain hp where hp: "lc_store c p = Some hp" using i(2,3) [of p] by (auto simp: cached_def)
    have inv: "lru_inv_of H (cached c1 - {p}) c1" using en(1) Some by simp
    have pc: "p \<in> cached c1" "lc_store c1 p = Some hp" using p en(2) en(5) [OF p] hp by auto
    have f: "FinishErase (Some p) c1 = (True, c')" by (simp add: c' Some FinishErase_def Let_def)
    note fe = finish_erase [OF inv pc f]
    have l: "remove1 p (lc_lru c) = filter (\<lambda>q. q \<notin> {p}) (lc_lru c)" using d(1) by (auto simp: distinct_remove1_removeAll removeAll_filter_not_eq intro: filter_cong)
    have cd: "{q \<in> {p}. h_refs (the (lc_store c q)) = 1} = (if h_refs hp = 1 then {p} else {})" using hp by auto
    have "p \<noteq> lc_next c" using p en(3) by auto
    then show ?thesis using fe en(2) unfolding r l [symmetric] cd by (auto simp: c1_def hp)
  qed
  then show "lru_inv H c'" "cached c' = insert (lc_next c) (cached c - replaced c key)"
    "lc_lru c' = filter (\<lambda>p. p \<notin> replaced c key) (lc_lru c)" "lc_capacity c' = lc_capacity c" "lc_next c' = lc_next c + 1"
    "lc_store c' = (\<lambda>p. if p = lc_next c then Some h
       else if p \<in> replaced c key then uncached (the (lc_store c p)) else lc_store c p)"
    "length (lc_deleted c') = length (lc_deleted c) + card {p \<in> replaced c key. h_refs (the (lc_store c p)) = 1}" by blast+
qed

section \<open>Clients of a shard\<close>

text \<open>
  The sequences of calls that clients may make: each handle that \<open>Insert\<close> and \<open>Lookup\<close> return is held until it is
  released, and only handles that are held are released.  The table's length, a 32-bit number, bounds the entries.
\<close>

inductive cache_reach :: "(slice \<Rightarrow> u32) \<Rightarrow> nat multiset \<Rightarrow> 'v LRUCache \<Rightarrow> bool" for H where
  reach_new: "cache_reach H {#} (SetCapacity capacity LRUCache_new)"
| reach_insert: "cache_reach H held c \<Longrightarrow> ht_elems (lc_table c) < 2 ^ 31 \<Longrightarrow> LRUCache_Insert key (H key) val charge c = Some (e, c') \<Longrightarrow>
    cache_reach H (add_mset e held) c'"
| reach_found: "cache_reach H held c \<Longrightarrow> LRUCache_Lookup key (H key) c = (Some e, c') \<Longrightarrow> cache_reach H (add_mset e held) c'"
| reach_missing: "cache_reach H held c \<Longrightarrow> LRUCache_Lookup key (H key) c = (None, c') \<Longrightarrow> cache_reach H held c'"
| reach_release: "cache_reach H (add_mset e held) c \<Longrightarrow> cache_reach H held (LRUCache_Release e c)"
| reach_erase: "cache_reach H held c \<Longrightarrow> cache_reach H held (LRUCache_Erase key (H key) c)"
| reach_prune: "cache_reach H held c \<Longrightarrow> LRUCache_Prune c = Some c' \<Longrightarrow> cache_reach H held c'"

text \<open>Counts agree with the handles that clients hold, and every handle is live or was deleted once.\<close>

definition accounted :: "nat multiset \<Rightarrow> 'v LRUCache \<Rightarrow> bool" where
  "accounted held c \<longleftrightarrow> (\<forall>p. count held p = client_refs (lc_store c) p) \<and> length (lc_deleted c) + card (dom (lc_store c)) = lc_next c"

lemma live_finite: "lru_inv H c \<Longrightarrow> finite (dom (lc_store c))"
  by (rule finite_subset [of _ "{..< lc_next c}"]) (auto dest: lru_inv_facts(4))

lemma client_refs_uncached:
  "1 \<le> h_refs h \<Longrightarrow> h_in_cache h \<Longrightarrow> hs e = Some h \<Longrightarrow> client_refs (hs(e := uncached h)) = client_refs hs"
  by (auto simp: fun_eq_iff client_refs_def uncached_def)

lemma accounted_erase:
  assumes "lru_inv H c" "accounted held c"
  shows "lru_inv H (erase_key key (H key) c) \<and> accounted held (erase_key key (H key) c)"
proof (cases "\<exists>p \<in> cached c. h_key (the (lc_store c p)) = key")
  case True
  then obtain e h where e: "e \<in> cached c" "lc_store c e = Some h" "h_key h = key"
    using lru_inv_facts(2,3) [OF assms(1)] by (fastforce simp: cached_def)
  have h: "1 \<le> h_refs h" "h_in_cache h" using lru_inv_facts(2,3,4) [OF assms(1), of e] e(1,2) by (auto simp: cached_def)
  note er = erase_cached [OF assms(1) e(1,2), unfolded e(3)]
  have dom: "e \<in> dom (lc_store c)" "finite (dom (lc_store c))" using e(2) live_finite [OF assms(1)] by auto
  then have "card (dom (lc_store c)) = Suc (card (dom (lc_store c) - {e}))" by (metis card.remove)
  moreover have "dom ((lc_store c)(e := uncached h)) = (if h_refs h = 1 then dom (lc_store c) - {e} else dom (lc_store c))"
    using e(2) by (auto simp: uncached_def)
  ultimately have "accounted held (erase_key key (H key) c)"
    using er(3) assms(2) client_refs_uncached [where hs = "lc_store c", OF h e(2)] by (auto simp: accounted_def)
  then show ?thesis using er(1) by blast
next
  case False
  then show ?thesis using erase_absent [OF assms(1)] assms by simp
qed

lemma accounted_evicted:
  assumes "lru_inv H c" "accounted held c" "evicted n c c'"
  shows "accounted held c'"
proof -
  note i = lru_inv_facts [OF assms(1)]
  let ?out = "set (take n (lc_lru c))"
  have "client_refs (lc_store c) p = 0" if "p \<in> ?out" for p
    using i(2) [of p] in_set_takeD [OF that] by (auto simp: client_refs_def)
  then have "client_refs (lc_store c') = client_refs (lc_store c)" using assms(3) by (auto simp: evicted_def client_refs_def fun_eq_iff)
  moreover have "?out \<subseteq> dom (lc_store c)" using i(2) by (auto dest!: in_set_takeD)
  then have "card (dom (lc_store c)) = card (dom (lc_store c) - ?out) + card ?out" using live_finite [OF assms(1)]
    by (metis Diff_partition card_Un_disjoint Diff_disjoint add.commute finite_Diff finite_set)
  moreover have "card ?out = n" using i(1) assms(3) by (simp add: distinct_card evicted_def)
  moreover have "dom (lc_store c') = dom (lc_store c) - ?out" using assms(3) by (auto simp: evicted_def split: if_splits)
  ultimately show ?thesis using assms(2,3) by (simp add: accounted_def evicted_def)
qed

lemma insert_accounted:
  fixes key val charge c
  assumes "lru_inv H c" "accounted held c" "ht_elems (lc_table c) < 2 ^ 31"
  defines "c1 \<equiv> entered key (H key) val charge c"
  shows "lru_inv H c1" "accounted (add_mset (lc_next c) held) c1"
proof -
  note i = lru_inv_facts [OF assms(1)]
  have cd: "card (cached c) < 2 ^ 31" using i(5) assms(3) by (simp add: table_inv_def)
  have n: "lc_store c (lc_next c) = None" using i(4) [of "lc_next c"] by (cases "lc_store c (lc_next c)") auto
  have fin: "finite (dom (lc_store c))" using live_finite [OF assms(1)] .
  have "lru_inv H c1 \<and> accounted (add_mset (lc_next c) held) c1"
  proof (cases "lc_capacity c = 0")
    case True
    note en = entered_plain [OF assms(1) True, of key "H key" val charge]
    have "dom (lc_store c1) = insert (lc_next c) (dom (lc_store c))" by (auto simp: c1_def en(3))
    moreover have "client_refs (lc_store c1) p = client_refs (lc_store c) p + (if p = lc_next c then 1 else 0)" for p
      using n by (simp add: c1_def en(3) client_refs_def)
    ultimately show ?thesis using en(1) assms(2) n fin by (auto simp: accounted_def c1_def en(3) domIff)
  next
    case False
    then have cap: "0 < lc_capacity c" by simp
    note en = entered_cached [OF assms(1) cap cd, where key = key and val = val and charge = charge, folded c1_def]
    have r: "\<exists>h. lc_store c p = Some h \<and> 1 \<le> h_refs h \<and> h_in_cache h" if "p \<in> replaced c key" for p
      using that i(2,3) [of p] by (fastforce simp: replaced_def cached_def)
    have rn: "lc_next c \<notin> replaced c key" using r n by fastforce
    let ?out = "{p \<in> replaced c key. h_refs (the (lc_store c p)) = 1}"
    have out: "?out \<subseteq> dom (lc_store c)" using r by fastforce
    have "dom (lc_store c1) = insert (lc_next c) (dom (lc_store c) - ?out)"
      using r rn by (fastforce simp: en(6) uncached_def split: if_splits)
    then have "card (dom (lc_store c1)) = 1 + (card (dom (lc_store c)) - card ?out)"
      using n fin card_Diff_subset [OF finite_subset [OF out fin] out] by (simp add: domIff)
    moreover have "card ?out \<le> card (dom (lc_store c))" using out fin by (rule card_mono [rotated])
    moreover have "client_refs (lc_store c1) p = client_refs (lc_store c) p + (if p = lc_next c then 1 else 0)" for p
      using n rn r [of p] by (auto simp: en(6) client_refs_def uncached_def)
    ultimately show ?thesis using en(1,5,7) assms(2) by (simp add: accounted_def)
  qed
  then show "lru_inv H c1" "accounted (add_mset (lc_next c) held) c1" by blast+
qed

lemma new_accounted: "lru_inv H (SetCapacity capacity LRUCache_new :: 'v LRUCache)" "accounted {#} (SetCapacity capacity LRUCache_new :: 'v LRUCache)"
proof -
  have g: "grow_length 4 0 = 4" by (simp add: grow_length.simps)
  have t: "HandleTable_new = \<lparr> ht_length = 4, ht_elems = 0, ht_list = replicate 4 [] \<rparr>" by (simp add: HandleTable_new_def Resize_def g Let_def)
  have "table_inv (\<lambda>p. None :: 'v LRUHandle option) HandleTable_new {}"
    by (auto simp: t table_inv_def placed_def intro!: exI [of _ 2])
  then show "lru_inv H (SetCapacity capacity LRUCache_new :: 'v LRUCache)"
    by (simp add: lru_inv_def lru_inv_of_def SetCapacity_def LRUCache_new_def cached_def keyed_def)
qed (simp add: accounted_def SetCapacity_def LRUCache_new_def client_refs_def)

lemma lookup_accounted:
  assumes "lru_inv H c" "accounted held c" "LRUCache_Lookup key (H key) c = (Some e, c')"
  shows "lru_inv H c'" "accounted (add_mset e held) c'"
proof -
  have c': "c' = LRUCache_Ref e c" using assms(3) by (auto simp: LRUCache_Lookup_def split: option.splits)
  have "e \<in> cached c" using lookup_finds [OF assms(1), of key e] assms(3) by simp
  then obtain h where h: "lc_store c e = Some h" using lru_inv_facts(2,3) [OF assms(1), of e] by (auto simp: cached_def)
  note r = ref_inv [OF assms(1) h]
  show "lru_inv H c'" using r(1) c' by simp
  have "1 \<le> h_refs h" using lru_inv_facts(4) [OF assms(1) h] by simp
  then show "accounted (add_mset e held) c'" using assms(2) h by (auto simp: accounted_def c' r client_refs_def insert_absorb domI)
qed

lemma release_accounted:
  assumes "lru_inv H c" "accounted (add_mset e held) c"
  shows "lru_inv H (LRUCache_Release e c)" "accounted held (LRUCache_Release e c)"
proof -
  have ct: "\<And>p. client_refs (lc_store c) p = count (add_mset e held) p" using assms(2) by (simp add: accounted_def)
  then have pos: "0 < client_refs (lc_store c) e" by simp
  then obtain h where h: "lc_store c e = Some h" by (auto simp: client_refs_def split: option.splits)
  note u = unref_inv [OF assms(1) h pos]
  show "lru_inv H (LRUCache_Release e c)" using u(1) by (simp add: LRUCache_Release_def)
  have "e \<in> dom (lc_store c)" "finite (dom (lc_store c))" using h live_finite [OF assms(1)] by auto
  then have cd: "card (dom (lc_store c)) = Suc (card (dom (lc_store c) - {e}))" by (metis card.remove)
  have "1 \<le> h_refs h" using lru_inv_facts(4) [OF assms(1) h] by simp
  moreover have "client_refs (lc_store (LRUCache_Unref e c)) p = count held p" for p
  proof (cases "p = e")
    case True
    have "h_refs h - (if h_in_cache h then 1 else 0) = count held e + 1" using ct [of e] h by (simp add: client_refs_def)
    then show ?thesis using True by (cases "h_refs h = 1"; cases "h_in_cache h") (simp_all add: u(3) client_refs_def)
  next
    case False
    then show ?thesis using ct [of p] by (simp add: u(3) client_refs_def)
  qed
  moreover have "length (lc_deleted (LRUCache_Unref e c)) + card (dom (lc_store (LRUCache_Unref e c))) = lc_next c"
  proof (cases "h_refs h = 1")
    case True
    then show ?thesis using assms(2) cd by (simp add: accounted_def u(3,4))
  next
    case False
    then have "dom (lc_store (LRUCache_Unref e c)) = dom (lc_store c)" using h by (auto simp: u(3))
    then show ?thesis using False assms(2) by (simp add: accounted_def u(4))
  qed
  ultimately show "accounted held (LRUCache_Release e c)" by (simp add: accounted_def LRUCache_Release_def u(5))
qed

lemma reach_accounted: "cache_reach H held c \<Longrightarrow> lru_inv H c \<and> accounted held c"
proof (induction rule: cache_reach.induct)
  case (reach_insert held c key val charge e c')
  note ins = insert_accounted [OF conjunct1 [OF reach_insert.IH] conjunct2 [OF reach_insert.IH] reach_insert.hyps(2), of key val charge]
  obtain c2 n where ev: "evict_while (\<lambda>c. lc_usage c > lc_capacity c) (entered key (H key) val charge c) = Some c2"
    "lru_inv H c2" "evicted n (entered key (H key) val charge c) c2" using evict_returns [OF ins(1)] by blast
  have "e = lc_next c" "c' = c2" using reach_insert.hyps(3) ev(1) by (auto simp: Insert_entered)
  then show ?case using ev(2) accounted_evicted [OF ins ev(3)] by simp
next
  case (reach_found held c key e c')
  then show ?case using lookup_accounted by blast
next
  case (reach_prune held c c')
  obtain n where "lru_inv H c'" "evicted n c c'"
    using evict_returns [OF conjunct1 [OF reach_prune.IH], of "\<lambda>c. True"] reach_prune.hyps(2) by (auto simp: LRUCache_Prune_def)
  then show ?case using accounted_evicted reach_prune.IH by blast
qed (auto simp: new_accounted LRUCache_Erase_def LRUCache_Lookup_def accounted_erase release_accounted split: option.splits)

lemma insert_shard:
  fixes key c
  assumes "cache_reach H held c" "ht_elems (lc_table c) < 2 ^ 31"
  defines "l \<equiv> filter (\<lambda>p. lc_capacity c = 0 \<or> h_key (the (lc_store c p)) \<noteq> key) (lc_lru c)"
  obtains c' n where "LRUCache_Insert key (H key) val charge c = Some (lc_next c, c')" "lru_inv H c'"
    "h_value (the (lc_store c' (lc_next c))) = val" "lc_capacity c' = lc_capacity c"
    "lc_capacity c = 0 \<or> fst (LRUCache_Lookup key (H key) c') = Some (lc_next c)"
    "lc_lru c' = drop n l" "lc_usage c' \<le> lc_capacity c \<or> lc_lru c' = []"
    "n \<le> length l" "n = 0 \<or> lc_capacity c < lc_usage c' + charge_of (lc_store c) (l ! (n - 1))"
proof -
  let ?e = "lc_next c"
  define c1 where "c1 = entered key (H key) val charge c"
  have inv: "lru_inv H c" and acc: "accounted held c" using reach_accounted [OF assms(1)] by auto
  note i = lru_inv_facts [OF inv]
  have inv1: "lru_inv H c1" using insert_accounted(1) [OF inv acc assms(2)] by (simp add: c1_def)
  have cd: "card (cached c) < 2 ^ 31" using i(5) assms(2) by (simp add: table_inv_def)
  have e: "?e \<notin> cached c" using i(2,3,4) [of ?e] by (fastforce simp: cached_def)
  have en: "lc_lru c1 = l \<and> lc_capacity c1 = lc_capacity c \<and> (\<exists>h. lc_store c1 ?e = Some h \<and> h_value h = val \<and> h_key h = key) \<and>
    (\<forall>p \<in> set l. lc_store c1 p = lc_store c p) \<and> (lc_capacity c = 0 \<or> ?e \<in> set (lc_in_use c1))"
  proof (cases "lc_capacity c = 0")
    case True
    then show ?thesis using entered_plain [OF inv True, of key "H key" val charge] e by (auto simp: c1_def l_def cached_def)
  next
    case False
    then have cap: "0 < lc_capacity c" by simp
    note en = entered_cached [OF inv cap cd, where key = key and val = val and charge = charge, folded c1_def]
    have r: "p \<in> replaced c key \<longleftrightarrow> h_key (the (lc_store c p)) = key" if "p \<in> set (lc_lru c)" for p
      using that by (simp add: replaced_def cached_def)
    then have l: "l = filter (\<lambda>p. p \<notin> replaced c key) (lc_lru c)" using cap by (auto simp: l_def intro: filter_cong)
    have "?e \<notin> set (lc_lru c1)" "?e \<in> cached c1" using en(2,3) e by (auto simp: cached_def)
    then have u: "?e \<in> set (lc_in_use c1)" by (simp add: cached_def)
    have "?e \<notin> set l" using e by (auto simp: l_def cached_def)
    then show ?thesis using en(3,4,6) l u by auto
  qed
  obtain c' n where ev: "evict_while (\<lambda>c. lc_usage c > lc_capacity c) c1 = Some c'" "lru_inv H c'" "evicted n c1 c'"
    "\<not> lc_capacity c' < lc_usage c' \<or> lc_lru c' = []" "\<forall>k < n. \<exists>ck. evicted k c1 ck \<and> lc_capacity ck < lc_usage ck"
    using evict_returns [OF inv1, of "\<lambda>c. lc_usage c > lc_capacity c"] by blast
  have evn: "n \<le> length l" "lc_lru c' = drop n l" "lc_capacity c' = lc_capacity c" "lc_in_use c' = lc_in_use c1"
    "lc_usage c' = lc_usage c1 - (\<Sum>p \<leftarrow> take n l. charge_of (lc_store c1) p)"
    "lc_store c' = (\<lambda>p. if p \<in> set (take n l) then None else lc_store c1 p)"
    using ev(3) en by (simp_all add: evicted_def)
  have sub: "(\<Sum>p \<leftarrow> take n l. charge_of (lc_store c1) p) \<le> lc_usage c1"
  proof -
    have "distinct (take n l)" using i(1) by (simp add: l_def)
    then have "(\<Sum>p \<leftarrow> take n l. charge_of (lc_store c1) p) = (\<Sum>p \<in> set (take n l). charge_of (lc_store c1) p)"
      by (simp add: sum_list_distinct_conv_sum_set)
    also have "\<dots> \<le> (\<Sum>p \<in> cached c1. charge_of (lc_store c1) p)"
      using en lru_inv_facts(8) [OF inv1] by (intro sum_mono2) (auto simp: cached_def dest: in_set_takeD)
    finally show ?thesis using lru_inv_facts(7) [OF inv1] by simp
  qed
  have el: "?e \<notin> set (take n l)" using e by (auto simp: l_def cached_def dest!: in_set_takeD)
  have last: "n = 0 \<or> lc_capacity c < lc_usage c' + charge_of (lc_store c) (l ! (n - 1))"
  proof (cases n)
    case (Suc k)
    obtain ck where ck: "evicted k c1 ck" "lc_capacity ck < lc_usage ck" using ev(5) Suc by auto
    have kl: "k < length l" using evn(1) Suc by simp
    have "take n l = take k l @ [l ! k]" using take_Suc_conv_app_nth [OF kl] Suc by simp
    moreover have "charge_of (lc_store c1) (l ! k) = charge_of (lc_store c) (l ! k)" using en kl by (simp add: charge_of_def)
    moreover have "lc_usage ck = lc_usage c1 - (\<Sum>p \<leftarrow> take k l. charge_of (lc_store c1) p)" "lc_capacity ck = lc_capacity c"
      using ck(1) en by (simp_all add: evicted_def)
    ultimately show ?thesis using ck(2) evn(5) sub Suc by simp
  qed simp
  show thesis
  proof (rule that [of c' n])
    show "LRUCache_Insert key (H key) val charge c = Some (?e, c')" using ev(1) by (simp add: Insert_entered c1_def)
    show "h_value (the (lc_store c' ?e)) = val" using en el by (auto simp: evn(6))
    show "lc_capacity c = 0 \<or> fst (LRUCache_Lookup key (H key) c') = Some ?e"
      unfolding lookup_finds [OF ev(2)] using en el by (auto simp: evn(4,6) cached_def)
    show "lc_usage c' \<le> lc_capacity c \<or> lc_lru c' = []" using ev(4) evn(3) by auto
  qed (fact ev(2) evn(1-3) last)+
qed

text \<open>The entries after an insertion: the new one, and old ones unchanged.\<close>

lemma insert_keeps:
  assumes "cache_reach H held c" "ht_elems (lc_table c) < 2 ^ 31" "LRUCache_Insert key (H key) val charge c = Some (e, c')" "p \<in> cached c'"
  obtains (fresh) "p = e" "h_key (the (lc_store c' p)) = key" "h_value (the (lc_store c' p)) = val"
  | (old) "p \<in> cached c" "h_key (the (lc_store c' p)) = h_key (the (lc_store c p))" "h_value (the (lc_store c' p)) = h_value (the (lc_store c p))"
proof -
  define c1 where "c1 = entered key (H key) val charge c"
  have inv: "lru_inv H c" and acc: "accounted held c" using reach_accounted [OF assms(1)] by auto
  note i = lru_inv_facts [OF inv]
  have inv1: "lru_inv H c1" using insert_accounted(1) [OF inv acc assms(2)] by (simp add: c1_def)
  have cd: "card (cached c) < 2 ^ 31" using i(5) assms(2) by (simp add: table_inv_def)
  have n: "lc_next c \<notin> cached c" using i(2,3,4) [of "lc_next c"] by (fastforce simp: cached_def)
  obtain c2 k where ev: "evict_while (\<lambda>c. lc_usage c > lc_capacity c) c1 = Some c2" "evicted k c1 c2"
    using evict_returns [OF inv1, of "\<lambda>c. lc_usage c > lc_capacity c"] by blast
  have e: "e = lc_next c" "c' = c2" using assms(3) ev(1) by (auto simp: Insert_entered c1_def)
  have l: "lc_lru c' = drop k (lc_lru c1)" "lc_in_use c' = lc_in_use c1"
    "lc_store c' = (\<lambda>p. if p \<in> set (take k (lc_lru c1)) then None else lc_store c1 p)" using ev(2) e by (simp_all add: evicted_def)
  have "p \<notin> set (take k (lc_lru c1))"
    using assms(4) l(1,2) lru_inv_facts(1) [OF inv1] by (auto simp: cached_def dest: in_set_takeD) (metis append_take_drop_id disjoint_iff distinct_append)
  then have p1: "lc_store c' p = lc_store c1 p" "p \<in> cached c1" using assms(4) l by (auto simp: cached_def dest: in_set_dropD)
  show thesis
  proof (cases "lc_capacity c = 0")
    case True
    note en = entered_plain [OF inv True, of key "H key" val charge, folded c1_def]
    have "p \<in> cached c" "p \<noteq> lc_next c" using p1(2) en(2) n by auto
    then show thesis using old en(3) p1(1) by simp
  next
    case False
    then have cap: "0 < lc_capacity c" by simp
    note en = entered_cached [OF inv cap cd, where key = key and val = val and charge = charge, folded c1_def]
    show thesis using en(2,6) p1 e(1) n fresh old by (cases "p = lc_next c") auto
  qed
qed

lemma lookup_keeps:
  assumes "lru_inv H c" "LRUCache_Lookup key (H key) c = (r, c')"
  shows "cached c' = cached c" "h_key (the (lc_store c' p)) = h_key (the (lc_store c p))" "h_value (the (lc_store c' p)) = h_value (the (lc_store c p))"
proof -
  have "cached c' = cached c \<and> h_key (the (lc_store c' p)) = h_key (the (lc_store c p)) \<and> h_value (the (lc_store c' p)) = h_value (the (lc_store c p))"
  proof (cases r)
    case None
    then have "c' = c" using assms(2) by (auto simp: LRUCache_Lookup_def split: option.splits)
    then show ?thesis by simp
  next
    case (Some e)
    have c': "c' = LRUCache_Ref e c" using assms(2) Some by (auto simp: LRUCache_Lookup_def split: option.splits)
    have "e \<in> cached c" using lookup_finds [OF assms(1), of key e] assms(2) Some by simp
    then obtain h where h: "lc_store c e = Some h" using lru_inv_facts(2,3) [OF assms(1), of e] by (auto simp: cached_def)
    show ?thesis using ref_inv [OF assms(1) h] h by (simp add: c')
  qed
  then show "cached c' = cached c" "h_key (the (lc_store c' p)) = h_key (the (lc_store c p))" "h_value (the (lc_store c' p)) = h_value (the (lc_store c p))"
    by blast+
qed

lemma release_keeps:
  assumes "lru_inv H c" "accounted (add_mset e held) c"
  shows "cached (LRUCache_Release e c) = cached c"
    "p \<in> cached c \<Longrightarrow> h_key (the (lc_store (LRUCache_Release e c) p)) = h_key (the (lc_store c p)) \<and>
       h_value (the (lc_store (LRUCache_Release e c) p)) = h_value (the (lc_store c p))"
proof -
  have pos: "0 < client_refs (lc_store c) e" using assms(2) by (metis accounted_def add_mset_add_single count_add_mset zero_less_Suc)
  then obtain h where h: "lc_store c e = Some h" by (auto simp: client_refs_def split: option.splits)
  note u = unref_inv [OF assms(1) h pos]
  show C: "cached (LRUCache_Release e c) = cached c" using u(2) by (simp add: LRUCache_Release_def)
  have r: "h_refs h \<noteq> 1" if "h_in_cache h" using pos h that by (auto simp: client_refs_def)
  show "h_key (the (lc_store (LRUCache_Release e c) p)) = h_key (the (lc_store c p)) \<and>
       h_value (the (lc_store (LRUCache_Release e c) p)) = h_value (the (lc_store c p))" if "p \<in> cached c"
  proof (cases "p = e")
    case True
    then have "h_in_cache h" using that lru_inv_facts(2,3) [OF assms(1), of e] h by (auto simp: cached_def)
    then show ?thesis using u(3) r h True by (simp add: LRUCache_Release_def)
  qed (simp add: u(3) LRUCache_Release_def)
qed

lemma erase_keeps:
  assumes "lru_inv H c" "p \<in> cached (LRUCache_Erase key (H key) c)"
  shows "p \<in> cached c" "h_key (the (lc_store (LRUCache_Erase key (H key) c) p)) = h_key (the (lc_store c p))"
    "h_value (the (lc_store (LRUCache_Erase key (H key) c) p)) = h_value (the (lc_store c p))"
proof -
  have "p \<in> cached c \<and> h_key (the (lc_store (LRUCache_Erase key (H key) c) p)) = h_key (the (lc_store c p)) \<and>
    h_value (the (lc_store (LRUCache_Erase key (H key) c) p)) = h_value (the (lc_store c p))"
  proof (cases "\<exists>q \<in> cached c. h_key (the (lc_store c q)) = key")
    case True
    then obtain q h where q: "q \<in> cached c" "lc_store c q = Some h" "h_key h = key"
      using lru_inv_facts(2,3) [OF assms(1)] by (fastforce simp: cached_def)
    note er = erase_cached [OF assms(1) q(1,2), unfolded q(3)]
    have "p \<in> cached c - {q}" using assms(2) er(2) by (simp add: LRUCache_Erase_def)
    then show ?thesis using er(3) by (auto simp: LRUCache_Erase_def)
  next
    case False
    then show ?thesis using assms erase_absent [OF assms(1)] by (simp add: LRUCache_Erase_def)
  qed
  then show "p \<in> cached c" "h_key (the (lc_store (LRUCache_Erase key (H key) c) p)) = h_key (the (lc_store c p))"
    "h_value (the (lc_store (LRUCache_Erase key (H key) c) p)) = h_value (the (lc_store c p))" by blast+
qed

lemma Shard_less: "Shard hash < kNumShards"
proof -
  have "unat (drop_bit 28 hash) = unat hash div 2 ^ 28" unfolding unat_drop_bit_eq by (simp add: drop_bit_eq_div)
  moreover have "unat hash < 2 ^ 32" using unsigned_less [of hash] by simp
  ultimately show ?thesis by (simp add: Shard_def kNumShards_def kNumShardBits_def)
qed

section \<open>What the cache promises\<close>





end
