(* ===== verification/TableCache.thy ===== *)
theory TableCache
  imports Cache Table Filename
begin

text \<open>
  The table cache (\<open>db/table_cache.cc\<close>): open tables in an LRU cache, by file number.  \<open>open_file\<close> is
  \<open>Env::NewRandomAccessFile\<close> on the current file system; tables have no block cache, so that their cache id is 0.
\<close>

section \<open>Definitions\<close>

record 'r TableAndFile =
  tf_file :: 'r
  tf_table :: "'r Table"

record 'r TableCache =
  tc_dbname :: slice
  tc_options :: Options
  tc_cache :: "'r TableAndFile ShardedLRUCache"

definition TableCache_new :: "slice \<Rightarrow> Options \<Rightarrow> nat \<Rightarrow> 'r TableCache" where
  "TableCache_new dbname options entries = \<lparr> tc_dbname = dbname, tc_options = options, tc_cache = NewLRUCache entries \<rparr>"

text \<open>The part of \<open>FindTable\<close> that opens the file and the table, under the current or the old name.\<close>

definition open_table ::
    "Codec \<Rightarrow> 'r RandomAccessFile \<Rightarrow> bool \<Rightarrow> (slice \<Rightarrow> Status \<times> 'r) \<Rightarrow> slice \<Rightarrow> Options \<Rightarrow> u64 \<Rightarrow> u64 \<Rightarrow> Status \<times> 'r TableAndFile option" where
  "open_table C R in_buf open_file dbname options file_number file_size =
     (case open_file (TableFileName dbname file_number) of
        (s, file) \<Rightarrow>
          (case (if \<not> ok s
                 then (case open_file (SSTTableFileName dbname file_number) of (s', file') \<Rightarrow> if ok s' then (OK, file') else (s, file'))
                 else (s, file)) of
             (s, file) \<Rightarrow>
               if ok s
               then (case Table_Open C R in_buf options 0 file file_size of
                       (s, table) \<Rightarrow> (s, if ok s then Some \<lparr> tf_file = file, tf_table = the table \<rparr> else None))
               else (s, None)))"

definition FindTable ::
    "Codec \<Rightarrow> 'r RandomAccessFile \<Rightarrow> bool \<Rightarrow> (slice \<Rightarrow> Status \<times> 'r) \<Rightarrow> u64 \<Rightarrow> u64 \<Rightarrow> 'r TableCache \<Rightarrow>
     (Status \<times> Handle option \<times> 'r TableCache) option" where
  "FindTable C R in_buf open_file file_number file_size tc =
     (let key = EncodeFixed64 file_number
      in case Sharded_Lookup key (tc_cache tc) of
           (Some handle, cache) \<Rightarrow> Some (OK, Some handle, tc\<lparr> tc_cache := cache \<rparr>)
         | (None, cache) \<Rightarrow>
             (case open_table C R in_buf open_file (tc_dbname tc) (tc_options tc) file_number file_size of
                (s, tf) \<Rightarrow>
                  if \<not> ok s then Some (s, None, tc\<lparr> tc_cache := cache \<rparr>)
                  else map_option (\<lambda>(handle, cache). (s, Some handle, tc\<lparr> tc_cache := cache \<rparr>)) (Sharded_Insert key (the tf) 1 cache)))"

definition UnrefEntry :: "Handle \<Rightarrow> 'r TableCache \<Rightarrow> 'r TableCache" where
  "UnrefEntry handle tc = tc\<lparr> tc_cache := Sharded_Release handle (tc_cache tc) \<rparr>"

text \<open>The iterator, or the status of an error iterator; the table; and the cleanup functions of the iterator.\<close>

definition TableCache_NewIterator ::
    "Codec \<Rightarrow> 'r RandomAccessFile \<Rightarrow> bool \<Rightarrow> (slice \<Rightarrow> Status \<times> 'r) \<Rightarrow> u64 \<Rightarrow> u64 \<Rightarrow> 'r TableCache \<Rightarrow>
     ((Status + (block_iter, block_iter) TwoLevelIter option) \<times> 'r Table option \<times> ('r TableCache \<Rightarrow> 'r TableCache) list \<times> 'r TableCache) option" where
  "TableCache_NewIterator C R in_buf open_file file_number file_size tc =
     map_option
       (\<lambda>(s, handle, tc).
          if \<not> ok s then (Inl (NewErrorIterator s), None, [], tc)
          else (let table = tf_table (Sharded_Value (the handle) (tc_cache tc))
                in (Inr (Table_NewIterator table), Some table, RegisterCleanup (UnrefEntry (the handle)) [], tc)))
       (FindTable C R in_buf open_file file_number file_size tc)"

text \<open>\<open>Get\<close>: the status and the entry that is handed to \<open>handle_result\<close>, if any.\<close>

definition TableCache_Get ::
    "Codec \<Rightarrow> 'r RandomAccessFile \<Rightarrow> bool \<Rightarrow> (slice \<Rightarrow> Status \<times> 'r) \<Rightarrow> ReadOptions \<Rightarrow> u64 \<Rightarrow> u64 \<Rightarrow> slice \<Rightarrow> 'r TableCache \<Rightarrow>
     (Status \<times> kv option \<times> 'r TableCache) option" where
  "TableCache_Get C R in_buf open_file options file_number file_size k tc =
     map_option
       (\<lambda>(s, handle, tc).
          if ok s
          then (case InternalGet C R in_buf (tf_table (Sharded_Value (the handle) (tc_cache tc))) options k of
                  (s, result) \<Rightarrow> (s, result, UnrefEntry (the handle) tc))
          else (s, None, tc))
       (FindTable C R in_buf open_file file_number file_size tc)"

definition TableCache_Evict :: "u64 \<Rightarrow> 'r TableCache \<Rightarrow> 'r TableCache" where
  "TableCache_Evict file_number tc = tc\<lparr> tc_cache := Sharded_Erase (EncodeFixed64 file_number) (tc_cache tc) \<rparr>"

text \<open>Reference for \<open>Get\<close>: the table is opened anew.\<close>

definition read_anew ::
    "Codec \<Rightarrow> 'r RandomAccessFile \<Rightarrow> bool \<Rightarrow> (slice \<Rightarrow> Status \<times> 'r) \<Rightarrow> slice \<Rightarrow> Options \<Rightarrow> ReadOptions \<Rightarrow> u64 \<Rightarrow> u64 \<Rightarrow> slice \<Rightarrow> Status \<times> kv option" where
  "read_anew C R in_buf open_file dbname options ro file_number file_size k =
     (case open_table C R in_buf open_file dbname options file_number file_size of
        (s, None) \<Rightarrow> (s, None)
      | (s, Some tf) \<Rightarrow> InternalGet C R in_buf (tf_table tf) ro k)"

section \<open>The entries of the cache\<close>

text \<open>
  \<open>P\<close> holds of the entries of a shard, of which clients hold the handles \<open>held\<close>; and of all shards, of which clients hold
  the handles \<open>H i\<close> of the shard \<open>i\<close>.
\<close>

definition shard_ok :: "(slice \<Rightarrow> 'v \<Rightarrow> bool) \<Rightarrow> nat multiset \<Rightarrow> 'v LRUCache \<Rightarrow> bool" where
  "shard_ok P held s \<longleftrightarrow> cache_reach HashSlice held s \<and>
     (\<forall>p \<in> cached s. P (h_key (the (lc_store s p))) (h_value (the (lc_store s p))))"

definition cache_ok :: "(slice \<Rightarrow> 'v \<Rightarrow> bool) \<Rightarrow> (nat \<Rightarrow> nat multiset) \<Rightarrow> 'v ShardedLRUCache \<Rightarrow> bool" where
  "cache_ok P H c \<longleftrightarrow> length (sc_shard c) = kNumShards \<and> (\<forall>i < kNumShards. shard_ok P (H i) (sc_shard c ! i))"

definition grab :: "Handle \<Rightarrow> (nat \<Rightarrow> nat multiset) \<Rightarrow> nat \<Rightarrow> nat multiset" where
  "grab handle H = H(Shard (fst handle) := add_mset (snd handle) (H (Shard (fst handle))))"

lemma shard_of_ok: "cache_ok P H c \<Longrightarrow> shard_ok P (H (Shard hash)) (sc_shard c ! Shard hash)"
  using Shard_less [of hash] by (simp add: cache_ok_def)

lemma with_shard_ok:
  assumes "cache_ok P H c" "shard_ok P held s"
  shows "cache_ok P (H(Shard hash := held)) (with_shard hash s c)"
  using assms by (simp add: cache_ok_def with_shard_def nth_list_update)

lemma shard_of_with [simp]: "cache_ok P H c \<Longrightarrow> sc_shard (with_shard hash s c) ! Shard hash = s"
  using Shard_less [of hash] by (simp add: cache_ok_def with_shard_def)

lemma cache_lookup:
  assumes "cache_ok P H c" "Sharded_Lookup key c = (r, c')"
  shows "r = None \<Longrightarrow> cache_ok P H c' \<and> sc_shard c' ! Shard (HashSlice key) = sc_shard c ! Shard (HashSlice key)"
    "r = Some handle \<Longrightarrow> cache_ok P (grab handle H) c' \<and> P key (Sharded_Value handle c')"
proof -
  let ?i = "Shard (HashSlice key)"
  let ?s = "sc_shard c ! ?i"
  obtain e s' where l: "LRUCache_Lookup key (HashSlice key) ?s = (e, s')" by fastforce
  have r: "r = map_option (Pair (HashSlice key)) e" "c' = with_shard (HashSlice key) s' c"
    using assms(2) l by (simp_all add: Sharded_Lookup_def Let_def)
  have h: "cache_reach HashSlice (H ?i) ?s" and P: "\<forall>p \<in> cached ?s. P (h_key (the (lc_store ?s p))) (h_value (the (lc_store ?s p)))"
    using shard_of_ok [OF assms(1), of "HashSlice key"] by (auto simp: shard_ok_def)
  have inv: "lru_inv HashSlice ?s" using reach_accounted [OF h] by simp
  note k = lookup_keeps [OF inv l]
  have s': "shard_ok P (case e of None \<Rightarrow> H ?i | Some p \<Rightarrow> add_mset p (H ?i)) s'"
    using reach_found [OF h] reach_missing [OF h] l P k by (cases e) (auto simp: shard_ok_def)
  note c' = with_shard_ok [OF assms(1) s', of "HashSlice key", folded r(2)]
  show "cache_ok P H c' \<and> sc_shard c' ! ?i = ?s" if "r = None"
    using c' that r l shard_of_with [OF assms(1)] by (auto simp: LRUCache_Lookup_def split: option.splits)
  show "cache_ok P (grab handle H) c' \<and> P key (Sharded_Value handle c')" if rh: "r = Some handle"
  proof -
    obtain p where p: "e = Some p" "handle = (HashSlice key, p)" using rh r(1) by (cases e) auto
    have pc: "p \<in> cached ?s" "h_key (the (lc_store ?s p)) = key" using lookup_finds [OF inv, of key p] l p(1) by simp_all
    have "Sharded_Value handle c' = h_value (the (lc_store ?s p))" using k(3) p(2) r(2) assms(1) by (simp add: Sharded_Value_def)
    moreover have "P key (h_value (the (lc_store ?s p)))" using bspec [OF P pc(1)] pc(2) by simp
    ultimately show ?thesis using c' p by (simp add: grab_def)
  qed
qed

lemma cache_inserted:
  assumes "cache_ok P H c" "ht_elems (lc_table (sc_shard c ! Shard (HashSlice key))) < 2 ^ 31" "P key v"
  shows "\<exists>handle c'. Sharded_Insert key v charge c = Some (handle, c') \<and> cache_ok P (grab handle H) c' \<and> Sharded_Value handle c' = v"
proof -
  let ?s = "sc_shard c ! Shard (HashSlice key)"
  have h: "cache_reach HashSlice (H (Shard (HashSlice key))) ?s" and P: "\<forall>p \<in> cached ?s. P (h_key (the (lc_store ?s p))) (h_value (the (lc_store ?s p)))"
    using shard_of_ok [OF assms(1), of "HashSlice key"] by (auto simp: shard_ok_def)
  obtain s' where s': "LRUCache_Insert key (HashSlice key) v charge ?s = Some (lc_next ?s, s')" "h_value (the (lc_store s' (lc_next ?s))) = v"
    using insert_shard [OF h assms(2), of key v charge] by metis
  have "P (h_key (the (lc_store s' p))) (h_value (the (lc_store s' p)))" if "p \<in> cached s'" for p
    by (rule insert_keeps [OF h assms(2) s'(1) that]) (use P assms(3) in simp_all)
  then have ok: "shard_ok P (add_mset (lc_next ?s) (H (Shard (HashSlice key)))) s'"
    using reach_insert [OF h assms(2) s'(1)] by (simp add: shard_ok_def)
  let ?c = "with_shard (HashSlice key) s' c" and ?h = "(HashSlice key, lc_next ?s)"
  have "cache_ok P (grab ?h H) ?c" using with_shard_ok [OF assms(1) ok] by (simp add: grab_def)
  moreover have "Sharded_Value ?h ?c = v" using s'(2) assms(1) by (simp add: Sharded_Value_def)
  moreover have "Sharded_Insert key v charge c = Some (?h, ?c)" using s'(1) by (simp add: Sharded_Insert_def Let_def)
  ultimately show ?thesis by blast
qed

lemma cache_released:
  assumes "cache_ok P (grab handle H) c"
  shows "cache_ok P H (Sharded_Release handle c)"
proof -
  obtain hash e where he: "handle = (hash, e)" by fastforce
  let ?s = "sc_shard c ! Shard hash"
  have h: "cache_reach HashSlice (add_mset e (H (Shard hash))) ?s" and P: "\<forall>p \<in> cached ?s. P (h_key (the (lc_store ?s p))) (h_value (the (lc_store ?s p)))"
    using shard_of_ok [OF assms, of hash] he by (auto simp: shard_ok_def grab_def)
  have inv: "lru_inv HashSlice ?s" "accounted (add_mset e (H (Shard hash))) ?s" using reach_accounted [OF h] by simp_all
  have "shard_ok P (H (Shard hash)) (LRUCache_Release e ?s)"
    using reach_release [OF h] P release_keeps [OF inv] by (auto simp: shard_ok_def)
  from with_shard_ok [OF assms this, of hash] show ?thesis by (simp add: he Sharded_Release_def grab_def)
qed

lemma cache_erased:
  assumes "cache_ok P H c"
  shows "cache_ok P H (Sharded_Erase key c)"
proof -
  let ?s = "sc_shard c ! Shard (HashSlice key)"
  have h: "cache_reach HashSlice (H (Shard (HashSlice key))) ?s" and P: "\<forall>p \<in> cached ?s. P (h_key (the (lc_store ?s p))) (h_value (the (lc_store ?s p)))"
    using shard_of_ok [OF assms, of "HashSlice key"] by (auto simp: shard_ok_def)
  have inv: "lru_inv HashSlice ?s" using reach_accounted [OF h] by simp
  have "shard_ok P (H (Shard (HashSlice key))) (LRUCache_Erase key (HashSlice key) ?s)"
    using reach_erase [OF h] P erase_keeps [OF inv] by (auto simp: shard_ok_def)
  from with_shard_ok [OF assms this, of "HashSlice key"] show ?thesis by (simp add: Sharded_Erase_def Let_def)
qed

lemma cache_new:
  fixes P :: "slice \<Rightarrow> 'v \<Rightarrow> bool"
  shows "cache_ok P (\<lambda>i. {#}) (NewLRUCache capacity)"
proof -
  have "cached (SetCapacity n (LRUCache_new :: 'v LRUCache)) = {}" for n by (simp add: cached_def SetCapacity_def LRUCache_new_def)
  moreover have "cache_reach HashSlice {#} (SetCapacity n (LRUCache_new :: 'v LRUCache))" for n by (rule reach_new)
  ultimately show ?thesis by (simp add: cache_ok_def shard_ok_def NewLRUCache_def Let_def)
qed

section \<open>Tables found\<close>

text \<open>
  Every entry is the table that opening its file anew would give; \<open>fsize\<close> gives the sizes of the table files, and clients
  hold the handles \<open>H\<close>.
\<close>

definition tc_entry ::
    "Codec \<Rightarrow> 'r RandomAccessFile \<Rightarrow> bool \<Rightarrow> (slice \<Rightarrow> Status \<times> 'r) \<Rightarrow> (u64 \<Rightarrow> u64) \<Rightarrow> slice \<Rightarrow> Options \<Rightarrow> slice \<Rightarrow> 'r TableAndFile \<Rightarrow> bool" where
  "tc_entry C R in_buf open_file fsize dbname options key tf \<longleftrightarrow>
     (let n = DecodeFixed64 key in key = EncodeFixed64 n \<and> open_table C R in_buf open_file dbname options n (fsize n) = (OK, Some tf))"

definition tc_ok ::
    "Codec \<Rightarrow> 'r RandomAccessFile \<Rightarrow> bool \<Rightarrow> (slice \<Rightarrow> Status \<times> 'r) \<Rightarrow> (u64 \<Rightarrow> u64) \<Rightarrow> (nat \<Rightarrow> nat multiset) \<Rightarrow> 'r TableCache \<Rightarrow> bool" where
  "tc_ok C R in_buf open_file fsize H tc \<longleftrightarrow>
     cache_ok (tc_entry C R in_buf open_file fsize (tc_dbname tc) (tc_options tc)) H (tc_cache tc)"

lemma tc_entry_key [simp]:
  "tc_entry C R in_buf open_file fsize dbname options (EncodeFixed64 n) tf \<longleftrightarrow> open_table C R in_buf open_file dbname options n (fsize n) = (OK, Some tf)"
  using DecodeFixed64_append [of n "[]"] by (simp add: tc_entry_def)

lemma tc_ok_new: "tc_ok C R in_buf open_file fsize (\<lambda>i. {#}) (TableCache_new dbname options entries)"
  by (simp add: tc_ok_def TableCache_new_def cache_new)

lemma open_table_result: "open_table C R in_buf open_file dbname options n sz = (s, tf) \<Longrightarrow> (if s = OK then tf \<noteq> None else tf = None)"
  by (auto simp: open_table_def ok_iff split: prod.splits if_splits)

text \<open>What a client of \<open>FindTable\<close> relies on: the status of opening the table, and with \<open>OK\<close> a handle that it holds.\<close>

lemma FindTable_result:
  fixes tc :: "'r TableCache"
  assumes "tc_ok C R in_buf open_file fsize H tc" "ht_elems (lc_table (sc_shard (tc_cache tc) ! Shard (HashSlice (EncodeFixed64 n)))) < 2 ^ 31"
  obtains (failed) s tc' where "FindTable C R in_buf open_file n (fsize n) tc = Some (s, None, tc')"
    "open_table C R in_buf open_file (tc_dbname tc) (tc_options tc) n (fsize n) = (s, None)" "s \<noteq> OK" "tc_ok C R in_buf open_file fsize H tc'"
  | (found) h tf tc' where "FindTable C R in_buf open_file n (fsize n) tc = Some (OK, Some h, tc')"
    "open_table C R in_buf open_file (tc_dbname tc) (tc_options tc) n (fsize n) = (OK, Some tf)"
    "Sharded_Value h (tc_cache tc') = tf" "tc_ok C R in_buf open_file fsize (grab h H) tc'"
proof -
  let ?k = "EncodeFixed64 n" and ?open = "open_table C R in_buf open_file (tc_dbname tc) (tc_options tc) n (fsize n)"
  obtain r c where l: "Sharded_Lookup ?k (tc_cache tc) = (r, c)" by fastforce
  note lk = cache_lookup [OF assms(1) [unfolded tc_ok_def] l]
  show thesis
  proof (cases r)
    case (Some h)
    note s = lk(2) [OF Some]
    show thesis by (rule found [of h "tc\<lparr> tc_cache := c \<rparr>"]) (use s l Some in \<open>auto simp: FindTable_def Let_def tc_ok_def\<close>)
  next
    case None
    obtain s tf where o: "?open = (s, tf)" by fastforce
    note m = lk(1) [OF None] and res = open_table_result [OF o]
    show thesis
    proof (cases "s = OK")
      case False
      then show thesis
        by (intro failed [of s "tc\<lparr> tc_cache := c \<rparr>"]) (use m l None o res in \<open>auto simp: FindTable_def Let_def tc_ok_def ok_iff\<close>)
    next
      case True
      then obtain t where t: "tf = Some t" using res by auto
      obtain h c' where h: "Sharded_Insert ?k t 1 c = Some (h, c')"
        "cache_ok (tc_entry C R in_buf open_file fsize (tc_dbname tc) (tc_options tc)) (grab h H) c'" "Sharded_Value h c' = t"
        using cache_inserted [OF conjunct1 [OF m], of ?k t 1] assms(2) m o True t by auto
      show thesis by (rule found [of h "tc\<lparr> tc_cache := c' \<rparr>"]) (use h l None o True t in \<open>auto simp: FindTable_def Let_def tc_ok_def ok_iff\<close>)
    qed
  qed
qed

lemma UnrefEntry_ok: "tc_ok C R in_buf open_file fsize (grab h H) tc \<Longrightarrow> tc_ok C R in_buf open_file fsize H (UnrefEntry h tc)"
  by (simp add: tc_ok_def UnrefEntry_def cache_released)

lemma TableCache_Evict_ok: "tc_ok C R in_buf open_file fsize H tc \<Longrightarrow> tc_ok C R in_buf open_file fsize H (TableCache_Evict n tc)"
  by (simp add: tc_ok_def TableCache_Evict_def cache_erased)

text \<open>An iterator ranges over the table that opening the file anew would give, and its cleanup function gives the handle back.\<close>

lemma table_cache_iterator:
  assumes "tc_ok C R in_buf open_file fsize H tc" "ht_elems (lc_table (sc_shard (tc_cache tc) ! Shard (HashSlice (EncodeFixed64 n)))) < 2 ^ 31"
  shows "\<exists>it tb cleanups tc' H'. TableCache_NewIterator C R in_buf open_file n (fsize n) tc = Some (it, tb, cleanups, tc') \<and>
    (case open_table C R in_buf open_file (tc_dbname tc) (tc_options tc) n (fsize n) of
       (s, Some tf) \<Rightarrow> it = Inr (Table_NewIterator (tf_table tf)) \<and> tb = Some (tf_table tf)
     | (s, None) \<Rightarrow> it = Inl s \<and> tb = None) \<and>
    tc_ok C R in_buf open_file fsize H' tc' \<and>
    (\<forall>tc''. tc_ok C R in_buf open_file fsize H' tc'' \<longrightarrow> tc_ok C R in_buf open_file fsize H (Iterator_destroy cleanups tc''))"
  using assms
proof (cases rule: FindTable_result)
  case (failed s tc')
  then show ?thesis by (auto simp: TableCache_NewIterator_def ok_iff NewErrorIterator_def Iterator_destroy_def)
next
  case (found h tf tc')
  then show ?thesis
    by (auto simp: TableCache_NewIterator_def ok_iff Iterator_destroy_def Let_def intro!: exI [of _ "grab h H"] UnrefEntry_ok)
qed

text \<open>
  C40: looking a key up through the table cache is transparent: \<open>Get\<close> always returns, with the status and the entry that
  opening the file of the table anew (under its current name, or else its old one) and looking the key up in it would give,
  whatever was opened, evicted or displaced before; an error in opening is reported and not cached; the cache keeps only
  tables that agree with their files, also when the file is evicted; and the handle that was taken is given back.
\<close>

theorem table_cache_get:
  assumes "tc_ok C R in_buf open_file fsize H tc" "ht_elems (lc_table (sc_shard (tc_cache tc) ! Shard (HashSlice (EncodeFixed64 n)))) < 2 ^ 31"
  shows "\<exists>s result tc'. TableCache_Get C R in_buf open_file ro n (fsize n) k tc = Some (s, result, tc') \<and>
    (s, result) = read_anew C R in_buf open_file (tc_dbname tc) (tc_options tc) ro n (fsize n) k \<and>
    tc_ok C R in_buf open_file fsize H tc' \<and> tc_ok C R in_buf open_file fsize H (TableCache_Evict n tc')"
  using assms
proof (cases rule: FindTable_result)
  case (failed s tc')
  then show ?thesis by (simp add: TableCache_Get_def read_anew_def ok_iff TableCache_Evict_ok)
next
  case (found h tf tc')
  then show ?thesis
    by (auto simp: TableCache_Get_def read_anew_def ok_iff UnrefEntry_ok TableCache_Evict_ok split: prod.splits)
qed


theorem table_cache_get_witness:
  "\<exists>b tc'. TableBuilder_Finish port_no_codec MemWritableFile
      (TableBuilder_Add port_no_codec MemWritableFile [1] [5] (TableBuilder_new Options_new FileState_new)) = (OK, b) \<and>
    TableCache_Get port_no_codec MemRandomAccessFile True
      (\<lambda>name. if name = SSTTableFileName [] 7 then (OK, tb_file b) else (IOError name (ascii ''File not found''), FileState_new))
      ReadOptions_new 7 (FileSize b) [1] (TableCache_new [] Options_new 10) = Some (OK, Some ([1], [5]), tc')"
proof -
  let ?W = "MemWritableFile" and ?C = port_no_codec and ?R = MemRandomAccessFile and ?c = BytewiseComparator
  let ?b0 = "TableBuilder_Add ?C ?W [1] [5] (TableBuilder_new Options_new FileState_new)" and ?kvs = "[([1], [5])] :: kv list"
  obtain s b where b: "(s, b) = TableBuilder_Finish ?C ?W ?b0" by (metis prod.collapse)
  let ?open = "\<lambda>name. if name = SSTTableFileName [] 7 then (OK, tb_file b) else (IOError name (ascii ''File not found''), FileState_new)"
  have f: "fs_inv (tb_file b)" "length (fs_bytes (tb_file b)) < 2 ^ 32" using one_entry_file [of b] by (simp_all flip: b)
  have tw: "three_way (Compare ?c)" using mem_table.table_writer_axioms by (simp add: table_writer_def comparator_def)
  have tr: "table_reader ?c ?R fs_bytes fs_inv" using tw mem_rand.random_access_file_axioms by (simp add: table_reader_def)
  have o: "opt_comparator Options_new = ?c" by (simp add: Options_new_def)
  have opts: "1 \<le> block_restart_interval Options_new" "\<forall>p. opt_filter_policy Options_new = Some p \<longrightarrow> filter_policy p" by (simp_all add: Options_new_def)
  have sz: "length (fs_bytes (tb_file b)) < 2 ^ 64" using f(2) by (rule less_trans) simp
  have srt: "sorted_kvs (Compare ?c) ?kvs" by (simp add: sorted_kvs_def)
  have v: "\<forall>e \<in> set ?kvs. True" by simp
  have bb: "(s, b) = TableBuilder_Finish ?C ?W (fold (\<lambda>(k, v). TableBuilder_Add ?C ?W k v) ?kvs (TableBuilder_new Options_new FileState_new))" using b by simp
  obtain ds seps where d: "s = OK" "table_file ?c (\<lambda>_. True) ?C (opt_filter_policy Options_new) (fs_bytes (tb_file b)) ds seps"
    "concat (map snd ds) = ?kvs" "FileSize b = of_nat (length (fs_bytes (tb_file b)))"
    using table_writer.built_table [OF mem_table.table_writer_axioms srt v fs_inv_new o opts(1) opts(2) bb sz] by metis
  obtain t where t: "Table_Open ?C ?R True Options_new 0 (tb_file b) (FileSize b) = (OK, Some t)"
    "table_open ?c (\<lambda>_. True) ?C fs_bytes t ds seps" "t_file t = tb_file b"
    using table_reader.Open_table [OF tr d(2) f o] unfolding d(4) by metis
  have "InternalGet ?C ?R True t ReadOptions_new [1] = (OK, Some ([1], [5]))"
    using table_reader.InternalGet_result [OF tr t(2) _ _ refl, of True ReadOptions_new "[1]"] f unfolding d(3) t(3)
    by auto
  moreover have "TableFileName [] 7 \<noteq> SSTTableFileName [] 7" by code_simp
  ultimately have "read_anew ?C ?R True ?open [] Options_new ReadOptions_new 7 (FileSize b) [1] = (OK, Some ([1], [5]))"
    using t(1) by (simp add: read_anew_def open_table_def ok_iff IOError_def Status_new_def)
  moreover have "ht_elems (lc_table (sc_shard (NewLRUCache 10 :: FileState TableAndFile ShardedLRUCache) ! Shard (HashSlice (EncodeFixed64 7)))) < 2 ^ 31"
    using Shard_less [of "HashSlice (EncodeFixed64 7)"] by (simp add: NewLRUCache_def Let_def SetCapacity_def LRUCache_new_def kNumShards_def kNumShardBits_def HandleTable_new_def Resize_def)
  moreover note table_cache_get [OF tc_ok_new [of ?C ?R True ?open "\<lambda>_. FileSize b" "[]" Options_new 10], where n = 7 and ro = ReadOptions_new and k = "[1]"]
  ultimately show ?thesis using b [symmetric] d(1) by (fastforce simp: TableCache_new_def)
qed

end
