(* ===== verification/DBIter.thy ===== *)
theory DBIter
  imports DbRead CompactionReads RandomGen Block
begin

text \<open>
  The iterator over the user keys of a database at a snapshot (\<open>db/db_iter.cc\<close>), over any iterator on internal
  keys.  Operations give \<^term>\<open>None\<close> when a loop does not end.  The database is part of the state because reads are
  sampled; \<open>sample\<close> is \<open>DBImpl::RecordReadSample\<close>.  How much memory \<open>saved_value_\<close> keeps is not modelled.
\<close>

section \<open>Definitions\<close>

datatype DBIter_Direction = kForward | kReverse

record ('s, 'd) DBIter =
  di_db :: 'd
  di_iter :: 's
  di_sequence :: SequenceNumber
  di_status :: Status
  di_saved_key :: slice
  di_saved_value :: slice
  di_direction :: DBIter_Direction
  di_valid :: bool
  di_rnd :: u32
  di_bytes_until_read_sampling :: nat

definition RandomCompactionPeriod :: "('s, 'd) DBIter \<Rightarrow> nat \<times> ('s, 'd) DBIter" where
  "RandomCompactionPeriod it =
     (case Random_Uniform (2 * kReadBytesPeriod) (di_rnd it) of (n, seed) \<Rightarrow> (unat n, it\<lparr> di_rnd := seed \<rparr>))"

definition NewDBIterator :: "'d \<Rightarrow> 's \<Rightarrow> SequenceNumber \<Rightarrow> u32 \<Rightarrow> ('s, 'd) DBIter" where
  "NewDBIterator db internal_iter s seed =
     (case RandomCompactionPeriod
             \<lparr> di_db = db, di_iter = internal_iter, di_sequence = s, di_status = OK, di_saved_key = [], di_saved_value = [],
               di_direction = kForward, di_valid = False, di_rnd = Random_new seed, di_bytes_until_read_sampling = 0 \<rparr> of
        (n, it) \<Rightarrow> it\<lparr> di_bytes_until_read_sampling := n \<rparr>)"

definition DBIter_key :: "'s Iterator \<Rightarrow> ('s, 'd) DBIter \<Rightarrow> slice" where
  "DBIter_key I it = (if di_direction it = kForward then ExtractUserKey (it_key I (di_iter it)) else di_saved_key it)"

definition DBIter_value :: "'s Iterator \<Rightarrow> ('s, 'd) DBIter \<Rightarrow> slice" where
  "DBIter_value I it = (if di_direction it = kForward then it_value I (di_iter it) else di_saved_value it)"

definition DBIter_status :: "'s Iterator \<Rightarrow> ('s, 'd) DBIter \<Rightarrow> Status" where
  "DBIter_status I it = (if ok (di_status it) then it_status I (di_iter it) else di_status it)"

definition ClearSavedValue :: "('s, 'd) DBIter \<Rightarrow> ('s, 'd) DBIter" where
  "ClearSavedValue it = it\<lparr> di_saved_value := [] \<rparr>"

partial_function (option) sample_reads ::
    "(slice \<Rightarrow> 'd \<Rightarrow> 'd) \<Rightarrow> slice \<Rightarrow> nat \<Rightarrow> ('s, 'd) DBIter \<Rightarrow> ('s, 'd) DBIter option" where
  "sample_reads sample k bytes_read it =
     (if di_bytes_until_read_sampling it < bytes_read
      then (case RandomCompactionPeriod it of
              (n, it) \<Rightarrow> sample_reads sample k bytes_read
                 (it\<lparr> di_bytes_until_read_sampling := di_bytes_until_read_sampling it + n, di_db := sample k (di_db it) \<rparr>))
      else Some it)"

definition ParseKey ::
    "'s Iterator \<Rightarrow> (slice \<Rightarrow> 'd \<Rightarrow> 'd) \<Rightarrow> ('s, 'd) DBIter \<Rightarrow> (ParsedInternalKey option \<times> ('s, 'd) DBIter) option" where
  "ParseKey I sample it =
     (let k = it_key I (di_iter it);
          bytes_read = length k + length (it_value I (di_iter it))
      in do {
           it \<leftarrow> sample_reads sample k bytes_read it;
           let it = it\<lparr> di_bytes_until_read_sampling := di_bytes_until_read_sampling it - bytes_read \<rparr>;
           Some (case ParseInternalKey k of
                   None \<Rightarrow> (None, it\<lparr> di_status := Corruption (ascii ''corrupted internal key in DBIter'') [] \<rparr>)
                 | Some ikey \<Rightarrow> (Some ikey, it))
         })"

text \<open>
  The body of the loop of \<open>FindNextUserEntry\<close>: \<^term>\<open>Inl\<close> when it returns at an acceptable entry.  The string \<open>skip\<close> is
  always \<open>saved_key_\<close>.
\<close>

definition next_user_entry_step ::
    "Comparator \<Rightarrow> ParsedInternalKey option \<Rightarrow> bool \<Rightarrow> ('s, 'd) DBIter \<Rightarrow> ('s, 'd) DBIter + (bool \<times> ('s, 'd) DBIter)" where
  "next_user_entry_step c ikey skipping it =
     (case ikey of
        None \<Rightarrow> Inr (skipping, it)
      | Some ikey \<Rightarrow>
          if sequence ikey \<le> di_sequence it then
            (case ikey_type ikey of
               kTypeDeletion \<Rightarrow> Inr (True, it\<lparr> di_saved_key := user_key ikey \<rparr>)
             | kTypeValue \<Rightarrow>
                 if skipping \<and> Compare c (user_key ikey) (di_saved_key it) \<le> 0 then Inr (skipping, it)
                 else Inl (it\<lparr> di_valid := True, di_saved_key := [] \<rparr>))
          else Inr (skipping, it))"

partial_function (option) FindNextUserEntry ::
    "Comparator \<Rightarrow> 's Iterator \<Rightarrow> (slice \<Rightarrow> 'd \<Rightarrow> 'd) \<Rightarrow> bool \<Rightarrow> ('s, 'd) DBIter \<Rightarrow> ('s, 'd) DBIter option" where
  "FindNextUserEntry c I sample skipping it = do {
     (ikey, it) \<leftarrow> ParseKey I sample it;
     case next_user_entry_step c ikey skipping it of
       Inl it \<Rightarrow> Some it
     | Inr (skipping, it) \<Rightarrow>
         (let it = it\<lparr> di_iter := it_Next I (di_iter it) \<rparr>
          in if it_Valid I (di_iter it) then FindNextUserEntry c I sample skipping it
             else Some (it\<lparr> di_saved_key := [], di_valid := False \<rparr>))
   }"

definition DBIter_Next ::
    "Comparator \<Rightarrow> 's Iterator \<Rightarrow> (slice \<Rightarrow> 'd \<Rightarrow> 'd) \<Rightarrow> ('s, 'd) DBIter \<Rightarrow> ('s, 'd) DBIter option" where
  "DBIter_Next c I sample it =
     (let it = (if di_direction it = kReverse
                then it\<lparr> di_direction := kForward,
                         di_iter := (if \<not> it_Valid I (di_iter it) then it_SeekToFirst I (di_iter it) else it_Next I (di_iter it)) \<rparr>
                else it\<lparr> di_saved_key := ExtractUserKey (it_key I (di_iter it)), di_iter := it_Next I (di_iter it) \<rparr>)
      in if \<not> it_Valid I (di_iter it) then Some (it\<lparr> di_valid := False, di_saved_key := [] \<rparr>)
         else FindNextUserEntry c I sample True it)"

text \<open>The loop of \<open>Prev\<close> that leaves the entries of the current key; it ends before them or not valid.\<close>

partial_function (option) prev_before :: "Comparator \<Rightarrow> 's Iterator \<Rightarrow> slice \<Rightarrow> 's \<Rightarrow> 's option" where
  "prev_before c I saved_key s =
     (let s = it_Prev I s
      in if \<not> it_Valid I s then Some s
         else if Compare c (ExtractUserKey (it_key I s)) saved_key < 0 then Some s
         else prev_before c I saved_key s)"

text \<open>The body of the loop of \<open>FindPrevUserEntry\<close>, with \<open>value_type\<close>: \<^term>\<open>None\<close> for its \<open>break\<close>.\<close>

definition prev_user_entry_step ::
    "Comparator \<Rightarrow> 's Iterator \<Rightarrow> ParsedInternalKey option \<Rightarrow> ValueType \<Rightarrow> ('s, 'd) DBIter \<Rightarrow> (ValueType \<times> ('s, 'd) DBIter) option" where
  "prev_user_entry_step c I ikey value_type it =
     (case ikey of
        None \<Rightarrow> Some (value_type, it)
      | Some ikey \<Rightarrow>
          if sequence ikey \<le> di_sequence it then
            (if value_type \<noteq> kTypeDeletion \<and> Compare c (user_key ikey) (di_saved_key it) < 0 then None
             else Some (ikey_type ikey,
                    case ikey_type ikey of
                      kTypeDeletion \<Rightarrow> ClearSavedValue (it\<lparr> di_saved_key := [] \<rparr>)
                    | kTypeValue \<Rightarrow>
                        it\<lparr> di_saved_key := ExtractUserKey (it_key I (di_iter it)), di_saved_value := it_value I (di_iter it) \<rparr>))
          else Some (value_type, it))"

partial_function (option) FindPrevUserEntry_loop ::
    "Comparator \<Rightarrow> 's Iterator \<Rightarrow> (slice \<Rightarrow> 'd \<Rightarrow> 'd) \<Rightarrow> ValueType \<Rightarrow> ('s, 'd) DBIter \<Rightarrow> (ValueType \<times> ('s, 'd) DBIter) option" where
  "FindPrevUserEntry_loop c I sample value_type it = do {
     (ikey, it) \<leftarrow> ParseKey I sample it;
     case prev_user_entry_step c I ikey value_type it of
       None \<Rightarrow> Some (value_type, it)
     | Some (value_type, it) \<Rightarrow>
         (let it = it\<lparr> di_iter := it_Prev I (di_iter it) \<rparr>
          in if it_Valid I (di_iter it) then FindPrevUserEntry_loop c I sample value_type it else Some (value_type, it))
   }"

definition FindPrevUserEntry ::
    "Comparator \<Rightarrow> 's Iterator \<Rightarrow> (slice \<Rightarrow> 'd \<Rightarrow> 'd) \<Rightarrow> ('s, 'd) DBIter \<Rightarrow> ('s, 'd) DBIter option" where
  "FindPrevUserEntry c I sample it = do {
     (value_type, it) \<leftarrow> (if it_Valid I (di_iter it) then FindPrevUserEntry_loop c I sample kTypeDeletion it
                         else Some (kTypeDeletion, it));
     Some (if value_type = kTypeDeletion
           then (ClearSavedValue (it\<lparr> di_valid := False, di_saved_key := [] \<rparr>))\<lparr> di_direction := kForward \<rparr>
           else it\<lparr> di_valid := True \<rparr>)
   }"

definition DBIter_Prev ::
    "Comparator \<Rightarrow> 's Iterator \<Rightarrow> (slice \<Rightarrow> 'd \<Rightarrow> 'd) \<Rightarrow> ('s, 'd) DBIter \<Rightarrow> ('s, 'd) DBIter option" where
  "DBIter_Prev c I sample it =
     (if di_direction it = kForward
      then do {
        let it = it\<lparr> di_saved_key := ExtractUserKey (it_key I (di_iter it)) \<rparr>;
        s \<leftarrow> prev_before c I (di_saved_key it) (di_iter it);
        let it = it\<lparr> di_iter := s \<rparr>;
        if \<not> it_Valid I s then Some (ClearSavedValue (it\<lparr> di_valid := False, di_saved_key := [] \<rparr>))
        else FindPrevUserEntry c I sample (it\<lparr> di_direction := kReverse \<rparr>)
      }
      else FindPrevUserEntry c I sample it)"

text \<open>The common end of \<open>Seek\<close> and \<open>SeekToFirst\<close>.\<close>

definition find_first ::
    "Comparator \<Rightarrow> 's Iterator \<Rightarrow> (slice \<Rightarrow> 'd \<Rightarrow> 'd) \<Rightarrow> ('s, 'd) DBIter \<Rightarrow> ('s, 'd) DBIter option" where
  "find_first c I sample it =
     (if it_Valid I (di_iter it) then FindNextUserEntry c I sample False it else Some (it\<lparr> di_valid := False \<rparr>))"

definition DBIter_Seek ::
    "Comparator \<Rightarrow> 's Iterator \<Rightarrow> (slice \<Rightarrow> 'd \<Rightarrow> 'd) \<Rightarrow> slice \<Rightarrow> ('s, 'd) DBIter \<Rightarrow> ('s, 'd) DBIter option" where
  "DBIter_Seek c I sample target it =
     (let it = ClearSavedValue (it\<lparr> di_direction := kForward \<rparr>);
          it = it\<lparr> di_saved_key := AppendInternalKey [] \<lparr> user_key = target, sequence = di_sequence it, ikey_type = kValueTypeForSeek \<rparr> \<rparr>
      in find_first c I sample (it\<lparr> di_iter := it_Seek I (di_saved_key it) (di_iter it) \<rparr>))"

definition DBIter_SeekToFirst ::
    "Comparator \<Rightarrow> 's Iterator \<Rightarrow> (slice \<Rightarrow> 'd \<Rightarrow> 'd) \<Rightarrow> ('s, 'd) DBIter \<Rightarrow> ('s, 'd) DBIter option" where
  "DBIter_SeekToFirst c I sample it =
     (let it = ClearSavedValue (it\<lparr> di_direction := kForward \<rparr>)
      in find_first c I sample (it\<lparr> di_iter := it_SeekToFirst I (di_iter it) \<rparr>))"

definition DBIter_SeekToLast ::
    "Comparator \<Rightarrow> 's Iterator \<Rightarrow> (slice \<Rightarrow> 'd \<Rightarrow> 'd) \<Rightarrow> ('s, 'd) DBIter \<Rightarrow> ('s, 'd) DBIter option" where
  "DBIter_SeekToLast c I sample it =
     (let it = ClearSavedValue (it\<lparr> di_direction := kReverse \<rparr>)
      in FindPrevUserEntry c I sample (it\<lparr> di_iter := it_SeekToLast I (di_iter it) \<rparr>))"

definition DBIterator :: "Comparator \<Rightarrow> 's Iterator \<Rightarrow> (slice \<Rightarrow> 'd \<Rightarrow> 'd) \<Rightarrow> ('s, 'd) DBIter option Iterator" where
  "DBIterator c I sample =
     \<lparr> it_Valid = (\<lambda>s. case s of None \<Rightarrow> False | Some it \<Rightarrow> di_valid it),
       it_SeekToFirst = (\<lambda>s. Option.bind s (DBIter_SeekToFirst c I sample)),
       it_SeekToLast = (\<lambda>s. Option.bind s (DBIter_SeekToLast c I sample)),
       it_Seek = (\<lambda>target s. Option.bind s (DBIter_Seek c I sample target)),
       it_Next = (\<lambda>s. Option.bind s (DBIter_Next c I sample)),
       it_Prev = (\<lambda>s. Option.bind s (DBIter_Prev c I sample)),
       it_key = (\<lambda>s. DBIter_key I (the s)),
       it_value = (\<lambda>s. DBIter_value I (the s)),
       it_status = (\<lambda>s. DBIter_status I (the s)) \<rparr>"

section \<open>Sampling of reads\<close>

text \<open>Two draws in a row are not both zero, so that the loop advances.\<close>

lemma zero_draws:
  assumes "seed_ok s" "unat s mod 2097152 = 0"
  shows "unat (Random_Next s) mod 2097152 \<noteq> 0"
proof -
  obtain k where k: "unat s = 2097152 * k" using assms(2) by (metis mod_0_imp_dvd dvdE)
  have k1: "0 < k" "k < 1024" using assms(1) by (auto simp: seed_ok_def k)
  define q r where "q = k * 16807 div 1024" and "r = k * 16807 mod 1024"
  have qr: "k * 16807 = 1024 * q + r" "r < 1024" by (simp_all add: q_def r_def)
  have q: "0 < q" "q < 16807" using k1 qr by auto
  have "unat s * 16807 = 2147483647 * q + (2097152 * r + q)" using qr(1) by (simp add: k)
  then have "unat s * 16807 mod 2147483647 = (2097152 * r + q) mod 2147483647" by (metis mod_mult_self4)
  also have "\<dots> = 2097152 * r + q" using qr(2) q(2) by (intro mod_less) linarith
  finally have "unat (Random_Next s) = 2097152 * r + q" using Random_Next_nat [OF assms(1)] by simp
  then show ?thesis using q by simp
qed

definition sampled :: "('s, 'd) DBIter \<Rightarrow> ('s, 'd) DBIter \<Rightarrow> bool" where
  "sampled it it' \<longleftrightarrow> seed_ok (di_rnd it') \<and> di_iter it' = di_iter it \<and> di_sequence it' = di_sequence it \<and>
     di_status it' = di_status it \<and> di_saved_key it' = di_saved_key it \<and> di_saved_value it' = di_saved_value it \<and>
     di_direction it' = di_direction it \<and> di_valid it' = di_valid it"

lemma draw:
  assumes "seed_ok (di_rnd it)"
  shows "RandomCompactionPeriod it = (unat (Random_Next (di_rnd it)) mod 2097152, it\<lparr> di_rnd := Random_Next (di_rnd it) \<rparr>)"
    "seed_ok (Random_Next (di_rnd it))"
  using Random_Next_nat [OF assms]
  by (simp_all add: RandomCompactionPeriod_def Random_Uniform_def Let_def kReadBytesPeriod_def unat_mod)

lemma sample_returns:
  assumes "seed_ok (di_rnd it)"
  shows "\<exists>it'. sample_reads sample k n it = Some it' \<and> sampled it it'"
  using assms
proof (induction "2 * (n - di_bytes_until_read_sampling it) + (if unat (di_rnd it) mod 2097152 = 0 then 0 else 1)" arbitrary: it rule: less_induct)
  case less
  let ?s = "Random_Next (di_rnd it)"
  show ?case
  proof (cases "di_bytes_until_read_sampling it < n")
    case True
    define it1 where "it1 = it\<lparr> di_rnd := ?s, di_bytes_until_read_sampling := di_bytes_until_read_sampling it + unat ?s mod 2097152,
      di_db := sample k (di_db it) \<rparr>"
    have step: "sample_reads sample k n it = sample_reads sample k n it1"
      using True draw(1) [OF less.prems] by (subst sample_reads.simps) (simp add: it1_def)
    have "2 * (n - di_bytes_until_read_sampling it1) + (if unat (di_rnd it1) mod 2097152 = 0 then 0 else 1) <
      2 * (n - di_bytes_until_read_sampling it) + (if unat (di_rnd it) mod 2097152 = 0 then 0 else (1::nat))"
      using True zero_draws [OF less.prems] by (simp add: it1_def del: mod_0_imp_dvd) linarith
    moreover have "seed_ok (di_rnd it1)" using draw(2) [OF less.prems] by (simp add: it1_def)
    ultimately obtain it' where it': "sample_reads sample k n it1 = Some it'" "sampled it1 it'" using less.hyps by blast
    then have "sampled it it'" by (simp add: sampled_def it1_def)
    then show ?thesis using it'(1) step by simp
  next
    case False
    then show ?thesis using less.prems
      by (subst sample_reads.simps) (simp add: sampled_def)
  qed
qed

section \<open>The view of a snapshot\<close>

definition in_snapshot :: "SequenceNumber \<Rightarrow> mem_entry \<Rightarrow> bool" where
  "in_snapshot s e \<longleftrightarrow> sequence (fst e) \<le> s"

text \<open>An entry is shown if it is a value of the snapshot and no entry of its key in the snapshot comes before it.\<close>

definition shown :: "Comparator \<Rightarrow> SequenceNumber \<Rightarrow> mem_entry list \<Rightarrow> nat \<Rightarrow> bool" where
  "shown c s es j \<longleftrightarrow> in_snapshot s (es ! j) \<and> ikey_type (fst (es ! j)) = kTypeValue \<and>
     (\<forall>k < j. in_snapshot s (es ! k) \<longrightarrow> Compare c (user_key (fst (es ! k))) (user_key (fst (es ! j))) < 0)"

definition user_view :: "Comparator \<Rightarrow> SequenceNumber \<Rightarrow> mem_entry list \<Rightarrow> kv list" where
  "user_view c s es = map (\<lambda>j. (user_key (fst (es ! j)), snd (es ! j))) (filter (shown c s es) [0 ..< length es])"

text \<open>How many entries before \<open>p\<close> are shown.\<close>

definition shown_before :: "Comparator \<Rightarrow> SequenceNumber \<Rightarrow> mem_entry list \<Rightarrow> nat \<Rightarrow> nat" where
  "shown_before c s es p = length (filter (shown c s es) [0 ..< p])"

lemma shown_before_0 [simp]: "shown_before c s es 0 = 0"
  by (simp add: shown_before_def)

lemma shown_before_Suc: "shown_before c s es (Suc p) = shown_before c s es p + (if shown c s es p then 1 else 0)"
  by (simp add: shown_before_def)

lemma shown_before_gap:
  assumes "p \<le> q" "\<And>j. p \<le> j \<Longrightarrow> j < q \<Longrightarrow> \<not> shown c s es j"
  shows "shown_before c s es q = shown_before c s es p"
  using assms by (induction rule: dec_induct) (simp_all add: shown_before_Suc)

lemma length_user_view: "length (user_view c s es) = shown_before c s es (length es)"
  by (simp add: user_view_def shown_before_def)

lemma user_view_at:
  assumes "shown c s es j" "j < length es"
  shows "shown_before c s es j < length (user_view c s es)"
    "user_view c s es ! shown_before c s es j = (user_key (fst (es ! j)), snd (es ! j))"
proof -
  have "[0 ..< length es] = [0 ..< j] @ j # [Suc j ..< length es]" using assms(2)
    by (metis le_add1 less_imp_add_positive upt_add_eq_append upt_conv_Cons add.left_neutral zero_le less_imp_le_nat less_eqE)
  then have v: "user_view c s es = map (\<lambda>j. (user_key (fst (es ! j)), snd (es ! j))) (filter (shown c s es) [0 ..< j]) @
      (user_key (fst (es ! j)), snd (es ! j)) # map (\<lambda>j. (user_key (fst (es ! j)), snd (es ! j))) (filter (shown c s es) [Suc j ..< length es])"
    using assms(1) by (simp add: user_view_def)
  then show "shown_before c s es j < length (user_view c s es)" by (simp add: shown_before_def)
  show "user_view c s es ! shown_before c s es j = (user_key (fst (es ! j)), snd (es ! j))"
    unfolding v shown_before_def by (simp add: nth_append)
qed

locale db_iter = entries: iterator "InternalKey_Compare c" I cursor + internal_order c
  for c :: Comparator and I :: "'s Iterator" and cursor +
  fixes sample :: "slice \<Rightarrow> 'd \<Rightarrow> 'd"
begin

lemma parse_entry:
  assumes "cursor (di_iter it) (mem_kvs es) p" "p < length es" "\<forall>e \<in> set es. sequence (fst e) \<le> kMaxSequenceNumber" "seed_ok (di_rnd it)"
  obtains it' where "ParseKey I sample it = Some (Some (fst (es ! p)), it')" "sampled it it'"
proof -
  have k: "it_key I (di_iter it) = entry_ikey (es ! p)"
    using entries.cursor_key [OF assms(1)] assms(2) by (simp add: mem_kvs_def)
  have pk: "ParseInternalKey (entry_ikey (es ! p)) = Some (fst (es ! p))" using assms(2,3) by (intro entry_ikey_parse) simp
  obtain it1 where it1: "sample_reads sample (it_key I (di_iter it)) (length (it_key I (di_iter it)) + length (it_value I (di_iter it))) it = Some it1"
    "sampled it it1" using sample_returns [OF assms(4)] by blast
  let ?it = "it1\<lparr> di_bytes_until_read_sampling := di_bytes_until_read_sampling it1 -
     (length (it_key I (di_iter it)) + length (it_value I (di_iter it))) \<rparr>"
  have "ParseKey I sample it = Some (Some (fst (es ! p)), ?it)" using it1(1) pk by (simp add: ParseKey_def Let_def k)
  moreover have "sampled it ?it" using it1(2) by (simp add: sampled_def)
  ultimately show thesis by (rule that)
qed

text \<open>The entries below an iterator over a snapshot.\<close>

definition ready :: "mem_entry list \<Rightarrow> nat \<Rightarrow> ('s, 'd) DBIter \<Rightarrow> bool" where
  "ready es p it \<longleftrightarrow> cursor (di_iter it) (mem_kvs es) p \<and> (\<forall>e \<in> set es. sequence (fst e) \<le> kMaxSequenceNumber) \<and>
     seed_ok (di_rnd it) \<and> di_status it = OK"

abbreviation key_cmp :: "mem_entry list \<Rightarrow> nat \<Rightarrow> nat \<Rightarrow> int" where
  "key_cmp es j k \<equiv> Compare c (user_key (fst (es ! j))) (user_key (fst (es ! k)))"

lemma ready_sampled: "ready es p it \<Longrightarrow> sampled it it' \<Longrightarrow> ready es p it'"
  by (simp add: ready_def sampled_def)

lemma ready_sorted:
  assumes "ready es p it"
  shows "sorted_wrt (\<lambda>a b. entry_cmp c a b < 0) es" "j \<le> k \<Longrightarrow> k < length es \<Longrightarrow> key_cmp es j k \<le> 0"
proof -
  show s: "sorted_wrt (\<lambda>a b. entry_cmp c a b < 0) es"
  proof -
    have "sorted_kvs (InternalKey_Compare c) (mem_kvs es)" using entries.cursor_sorted assms unfolding ready_def by blast
    then show ?thesis by (simp add: sorted_kvs_def mem_kvs_def sorted_wrt_map entry_cmp_def)
  qed
  show "key_cmp es j k \<le> 0" if "j \<le> k" "k < length es"
    using sorted_user_keys [OF s] assms that by (cases "j = k") (auto simp: ready_def sorted_wrt_iff_nth_less user.cmp_refl)
qed

lemma same_key:
  assumes "ready es p it" "j \<le> k" "k \<le> q" "q < length es" "\<not> key_cmp es j q < 0"
  shows "\<not> key_cmp es k q < 0" "\<not> key_cmp es j k < 0"
proof -
  have jk: "key_cmp es j k \<le> 0" "key_cmp es k q \<le> 0" using ready_sorted(2) [OF assms(1)] assms(2-4) by auto
  show "\<not> key_cmp es k q < 0" using user.cmp_le_less_trans [OF jk(1)] assms(5) by blast
  show "\<not> key_cmp es j k < 0" using user.cmp_less_le_trans [OF _ jk(2)] assms(5) by blast
qed

section \<open>Moving forward\<close>

text \<open>
  What the loop skips: with \<open>b\<close> the first entry that may be shown, exactly the values that an entry of the snapshot before
  \<open>b\<close> hides.
\<close>

definition skips :: "mem_entry list \<Rightarrow> nat \<Rightarrow> nat \<Rightarrow> bool \<Rightarrow> ('s, 'd) DBIter \<Rightarrow> bool" where
  "skips es p b skipping it \<longleftrightarrow> p \<le> b \<and>
     (\<forall>q < b. p \<le> q \<longrightarrow> in_snapshot (di_sequence it) (es ! q) \<longrightarrow> ikey_type (fst (es ! q)) = kTypeValue) \<and>
     (\<forall>q. p \<le> q \<longrightarrow> q < length es \<longrightarrow> in_snapshot (di_sequence it) (es ! q) \<longrightarrow>
        (skipping \<and> Compare c (user_key (fst (es ! q))) (di_saved_key it) \<le> 0 \<longleftrightarrow>
         (\<exists>k < b. in_snapshot (di_sequence it) (es ! k) \<and> \<not> key_cmp es k q < 0)))"

text \<open>The iterator is at the first entry from \<open>b\<close> on that is shown, or not valid if there is none.\<close>

definition found_next :: "mem_entry list \<Rightarrow> nat \<Rightarrow> ('s, 'd) DBIter \<Rightarrow> ('s, 'd) DBIter \<Rightarrow> bool" where
  "found_next es b it it' \<longleftrightarrow> di_sequence it' = di_sequence it \<and> di_direction it' = di_direction it \<and>
     (\<exists>j. ready es j it' \<and> di_valid it' = (j < length es) \<and>
        (j < length es \<longrightarrow> shown c (di_sequence it) es j) \<and> shown_before c (di_sequence it) es j = shown_before c (di_sequence it) es b)"

lemma skips_on:
  assumes "skips es p b skipping it"
    and "\<And>q. p \<le> q \<Longrightarrow> q < length es \<Longrightarrow> (\<exists>k < max b (Suc p). in_snapshot (di_sequence it) (es ! k) \<and> \<not> key_cmp es k q < 0) \<longleftrightarrow>
      (\<exists>k < b. in_snapshot (di_sequence it) (es ! k) \<and> \<not> key_cmp es k q < 0)"
  shows "skips es (Suc p) (max b (Suc p)) skipping it"
proof -
  have "q < b" if "q < max b (Suc p)" "Suc p \<le> q" for q using that by linarith
  moreover have "Suc p \<le> q \<Longrightarrow> p \<le> q" for q by simp
  ultimately show ?thesis using assms unfolding skips_def by (metis max.cobounded2)
qed

lemma next_step:
  assumes "ready es p it" "p < length es" "b \<le> length es" "skips es p b skipping it"
  shows "case next_user_entry_step c (Some (fst (es ! p))) skipping it of
     Inl it' \<Rightarrow> b = p \<and> shown c (di_sequence it) es p \<and> it' = it\<lparr> di_valid := True, di_saved_key := [] \<rparr>
   | Inr (skipping', it') \<Rightarrow> skips es (Suc p) (max b (Suc p)) skipping' it' \<and> (\<exists>key. it' = it\<lparr> di_saved_key := key \<rparr>) \<and>
       (b = p \<longrightarrow> \<not> shown c (di_sequence it) es p)"
proof -
  let ?s = "di_sequence it"
  let ?in = "\<lambda>k. in_snapshot ?s (es ! k)"
  have sk: "p \<le> b" "\<And>q. q < b \<Longrightarrow> p \<le> q \<Longrightarrow> ?in q \<Longrightarrow> ikey_type (fst (es ! q)) = kTypeValue"
    "\<And>q. p \<le> q \<Longrightarrow> q < length es \<Longrightarrow> ?in q \<Longrightarrow>
        (skipping \<and> Compare c (user_key (fst (es ! q))) (di_saved_key it) \<le> 0 \<longleftrightarrow> (\<exists>k < b. ?in k \<and> \<not> key_cmp es k q < 0))"
    using assms(4) unfolding skips_def by blast+
  have mx: "k < max b (Suc p) \<longleftrightarrow> k < b \<or> k = p" for k using sk(1) by linarith
  have ex: "\<exists>key. it = it\<lparr> di_saved_key := key \<rparr>" by (rule exI [of _ "di_saved_key it"]) simp
  consider (out) "\<not> ?in p" | (del) "?in p" "ikey_type (fst (es ! p)) = kTypeDeletion"
    | (hid) "?in p" "ikey_type (fst (es ! p)) = kTypeValue" "\<exists>k < b. ?in k \<and> \<not> key_cmp es k p < 0"
    | (acc) "?in p" "ikey_type (fst (es ! p)) = kTypeValue" "\<not> (\<exists>k < b. ?in k \<and> \<not> key_cmp es k p < 0)"
    by (cases "ikey_type (fst (es ! p))") auto
  then show ?thesis
  proof cases
    case out
    have "next_user_entry_step c (Some (fst (es ! p))) skipping it = Inr (skipping, it)"
      using out by (simp add: next_user_entry_step_def in_snapshot_def)
    moreover have "(\<exists>k < max b (Suc p). ?in k \<and> \<not> key_cmp es k q < 0) \<longleftrightarrow> (\<exists>k < b. ?in k \<and> \<not> key_cmp es k q < 0)" for q
      unfolding mx using out by blast
    then have "skips es (Suc p) (max b (Suc p)) skipping it" by (rule skips_on [OF assms(4)])
    moreover have "\<not> shown c ?s es p" using out by (simp add: shown_def)
    ultimately show ?thesis using ex by simp
  next
    case del
    have b: "b = p" using sk(1) sk(2) [of p] del by (metis ValueType.distinct(1) order_le_less order_refl)
    let ?it = "it\<lparr> di_saved_key := user_key (fst (es ! p)) \<rparr>"
    have "next_user_entry_step c (Some (fst (es ! p))) skipping it = Inr (True, ?it)"
      using del by (simp add: next_user_entry_step_def in_snapshot_def)
    moreover have "skips es (Suc p) (max b (Suc p)) True ?it" unfolding skips_def
    proof (intro conjI allI impI)
      fix q assume q: "Suc p \<le> q" "q < length es"
      have bk: "\<not> key_cmp es p q < 0" if "k < b \<or> k = p" "\<not> key_cmp es k q < 0" for k
        using same_key(1) [OF assms(1), of k p q] q that b by force
      have "Compare c (user_key (fst (es ! q))) (user_key (fst (es ! p))) \<le> 0 \<longleftrightarrow> \<not> key_cmp es p q < 0"
        using user.cmp_le [of "user_key (fst (es ! q))" "user_key (fst (es ! p))"] by linarith
      also have "\<dots> \<longleftrightarrow> (\<exists>k < max b (Suc p). ?in k \<and> \<not> key_cmp es k q < 0)"
        unfolding mx using del(1) bk by blast
      finally show "(True \<and> Compare c (user_key (fst (es ! q))) (di_saved_key ?it) \<le> 0) =
         (\<exists>k < max b (Suc p). in_snapshot (di_sequence ?it) (es ! k) \<and> \<not> key_cmp es k q < 0)" by simp
    qed (use b in auto)
    moreover have "\<not> shown c ?s es p" using del by (simp add: shown_def)
    ultimately show ?thesis by auto
  next
    case hid
    have "next_user_entry_step c (Some (fst (es ! p))) skipping it = Inr (skipping, it)"
      using hid sk(3) [of p] assms(2) by (simp add: next_user_entry_step_def in_snapshot_def)
    moreover have "(\<exists>k < max b (Suc p). ?in k \<and> \<not> key_cmp es k q < 0) \<longleftrightarrow> (\<exists>k < b. ?in k \<and> \<not> key_cmp es k q < 0)"
      if q: "p \<le> q" "q < length es" for q
    proof -
      obtain k where k: "k < b" "?in k" "\<not> key_cmp es k p < 0" using hid(3) by blast
      have "\<not> key_cmp es k q < 0" if "\<not> key_cmp es p q < 0"
        using k(3) that user.cmp_trans user.cmp_le by (meson linorder_not_less)
      then show ?thesis unfolding mx using k by blast
    qed
    then have "skips es (Suc p) (max b (Suc p)) skipping it" by (rule skips_on [OF assms(4)])
    moreover have "\<not> shown c ?s es p" if "b = p" using hid(3) that by (auto simp: shown_def)
    ultimately show ?thesis using ex by simp
  next
    case acc
    have "b = p" using acc(1,3) sk(1) user.cmp_refl by (metis less_irrefl order_le_less)
    moreover have "next_user_entry_step c (Some (fst (es ! p))) skipping it = Inl (it\<lparr> di_valid := True, di_saved_key := [] \<rparr>)"
      using acc sk(3) [of p] assms(2) by (simp add: next_user_entry_step_def in_snapshot_def)
    moreover have "shown c ?s es p" using acc calculation(1) unfolding shown_def by blast
    ultimately show ?thesis by simp
  qed
qed

lemma find_next:
  assumes "ready es p it" "p < length es" "b \<le> length es" "skips es p b skipping it"
  shows "\<exists>it'. FindNextUserEntry c I sample skipping it = Some it' \<and> found_next es b it it'"
  using assms
proof (induction "length es - p" arbitrary: p b skipping it rule: less_induct)
  case less
  have lk: "length (mem_kvs es) = length es" by (simp add: mem_kvs_def)
  obtain it1 where it1: "ParseKey I sample it = Some (Some (fst (es ! p)), it1)" "sampled it it1"
    using parse_entry less.prems(1,2) unfolding ready_def by metis
  have r1: "ready es p it1" using ready_sampled [OF less.prems(1) it1(2)] .
  have same: "di_sequence it1 = di_sequence it" "di_direction it1 = di_direction it" "di_saved_key it1 = di_saved_key it"
    using it1(2) by (simp_all add: sampled_def)
  have sk1: "skips es p b skipping it1" using less.prems(4) by (simp add: skips_def same)
  note step = next_step [OF r1 less.prems(2,3) sk1]
  show ?case
  proof (cases "next_user_entry_step c (Some (fst (es ! p))) skipping it1")
    case (Inl it2)
    then have i2: "b = p" "shown c (di_sequence it) es p" "it2 = it1\<lparr> di_valid := True, di_saved_key := [] \<rparr>" using step same by auto
    have "found_next es b it it2" unfolding found_next_def using i2 r1 less.prems(2) same
      by (auto simp: ready_def intro!: exI [of _ p])
    then show ?thesis using it1(1) Inl by (subst FindNextUserEntry.simps) simp
  next
    case (Inr r)
    then obtain skipping' key where i2: "r = (skipping', it1\<lparr> di_saved_key := key \<rparr>)"
      "skips es (Suc p) (max b (Suc p)) skipping' (it1\<lparr> di_saved_key := key \<rparr>)" "b = p \<longrightarrow> \<not> shown c (di_sequence it) es p"
      using step same by (cases r) auto
    let ?it = "it1\<lparr> di_saved_key := key, di_iter := it_Next I (di_iter it1) \<rparr>"
    have cur: "cursor (it_Next I (di_iter it1)) (mem_kvs es) (Suc p)"
      using entries.cursor_Next r1 less.prems(2) lk unfolding ready_def by metis
    then have r2: "ready es (Suc p) ?it" using r1 by (simp add: ready_def)
    have bs: "shown_before c (di_sequence it) es (max b (Suc p)) = shown_before c (di_sequence it) es b"
    proof (cases "b = p")
      case False
      then have "max b (Suc p) = b" using less.prems(4) by (simp add: skips_def)
      then show ?thesis by simp
    qed (use i2(3) in \<open>simp add: shown_before_Suc\<close>)
    have v: "it_Valid I (it_Next I (di_iter it1)) \<longleftrightarrow> Suc p < length es" using entries.cursor_Valid [OF cur] lk by simp
    show ?thesis
    proof (cases "Suc p < length es")
      case True
      have "skips es (Suc p) (max b (Suc p)) skipping' ?it" using i2(2) by (simp add: skips_def)
      then obtain it' where it': "FindNextUserEntry c I sample skipping' ?it = Some it'" "found_next es (max b (Suc p)) ?it it'"
        using less.hyps [OF diff_less_mono2 [OF lessI less.prems(2)] r2 True, of "max b (Suc p)" skipping'] less.prems(3) True by auto
      have "found_next es b it it'" using it'(2) bs by (simp add: found_next_def same)
      then show ?thesis using it1(1) Inr i2(1) it'(1) True v by (subst FindNextUserEntry.simps) (simp add: Let_def)
    next
      case False
      then have p: "Suc p = length es" "max b (Suc p) = length es" using less.prems(2,3) by auto
      let ?it' = "?it\<lparr> di_saved_key := [], di_valid := False \<rparr>"
      have "found_next es b it ?it'" unfolding found_next_def using r2 bs p same
        by (auto simp: ready_def intro!: exI [of _ "length es"])
      then show ?thesis using it1(1) Inr i2(1) False v by (subst FindNextUserEntry.simps) (simp add: Let_def)
    qed
  qed
qed

section \<open>Moving backward\<close>

text \<open>The position of an iterator that has the first \<open>p\<close> entries at or before it.\<close>

definition back_at :: "mem_entry list \<Rightarrow> nat \<Rightarrow> nat" where
  "back_at es p = (if p = 0 then length es else p - 1)"

lemma cursor_back:
  assumes "cursor st (mem_kvs es) p" "p < length es"
  shows "cursor (it_Prev I st) (mem_kvs es) (back_at es p)"
  using entries.cursor_Prev [OF assms(1)] assms(2) by (cases p) (simp_all add: back_at_def mem_kvs_def)

text \<open>The saved entry \<open>m\<close>, when the entries from \<open>p\<close> to \<open>P\<close> have been visited.\<close>

definition saved :: "mem_entry list \<Rightarrow> nat \<Rightarrow> nat \<Rightarrow> nat \<Rightarrow> ('s, 'd) DBIter \<Rightarrow> bool" where
  "saved es p P m it \<longleftrightarrow> p \<le> m \<and> m < P \<and> P \<le> length es \<and> di_saved_key it = user_key (fst (es ! m)) \<and> di_saved_value it = snd (es ! m) \<and>
     in_snapshot (di_sequence it) (es ! m) \<and> ikey_type (fst (es ! m)) = kTypeValue \<and>
     (\<forall>k. p \<le> k \<longrightarrow> k < m \<longrightarrow> \<not> in_snapshot (di_sequence it) (es ! k)) \<and>
     (\<forall>j. m < j \<longrightarrow> j < P \<longrightarrow> \<not> shown c (di_sequence it) es j)"

definition visited :: "mem_entry list \<Rightarrow> nat \<Rightarrow> nat \<Rightarrow> ValueType \<Rightarrow> ('s, 'd) DBIter \<Rightarrow> bool" where
  "visited es p P t it \<longleftrightarrow>
     (case t of
        kTypeDeletion \<Rightarrow> \<forall>j. p \<le> j \<longrightarrow> j < P \<longrightarrow> \<not> shown c (di_sequence it) es j
      | kTypeValue \<Rightarrow> \<exists>m. saved es p P m it)"

lemma shown_last:
  assumes "ready es q it" "saved es (Suc p) P m it" "in_snapshot (di_sequence it) (es ! p)"
  shows "shown c (di_sequence it) es m \<longleftrightarrow> key_cmp es p m < 0"
proof -
  have m: "Suc p \<le> m" "m < length es" "in_snapshot (di_sequence it) (es ! m)" "ikey_type (fst (es ! m)) = kTypeValue"
    "\<And>k. Suc p \<le> k \<Longrightarrow> k < m \<Longrightarrow> \<not> in_snapshot (di_sequence it) (es ! k)" using assms(2) by (auto simp: saved_def)
  have "key_cmp es k m < 0" if "key_cmp es p m < 0" "k < m" "in_snapshot (di_sequence it) (es ! k)" for k
  proof -
    have "k \<le> p" using m(5) that(2,3) not_less_eq_eq by blast
    then have "key_cmp es k p \<le> 0" using ready_sorted(2) [OF assms(1)] m(1,2) by simp
    then show ?thesis using user.cmp_le_less_trans that(1) by blast
  qed
  then show ?thesis using m(1,3,4) assms(3) unfolding shown_def by auto
qed

lemma prev_step:
  assumes "ready es p it" "p < P" "P \<le> length es" "visited es (Suc p) P t it"
  shows "case prev_user_entry_step c I (Some (fst (es ! p))) t it of
     None \<Rightarrow> t = kTypeValue \<and> (\<exists>m. saved es (Suc p) P m it \<and> shown c (di_sequence it) es m)
   | Some (t', it') \<Rightarrow> visited es p P t' it' \<and> (\<exists>k v. it' = it\<lparr> di_saved_key := k, di_saved_value := v \<rparr>)"
proof -
  let ?s = "di_sequence it"
  have lk: "length (mem_kvs es) = length es" "p < length es" using assms(2,3) by (simp_all add: mem_kvs_def)
  have cur: "cursor (di_iter it) (mem_kvs es) p" using assms(1) by (simp add: ready_def)
  have k: "ExtractUserKey (it_key I (di_iter it)) = user_key (fst (es ! p))" "it_value I (di_iter it) = snd (es ! p)"
    using entries.cursor_key [OF cur] entries.cursor_value [OF cur] lk
    by (simp_all add: mem_kvs_def entry_ikey_def ExtractUserKey_Append)
  have ex: "\<exists>k v. it = it\<lparr> di_saved_key := k, di_saved_value := v \<rparr>"
    by (rule exI [of _ "di_saved_key it"], rule exI [of _ "di_saved_value it"]) simp
  have step: "\<And>j. p \<le> j \<Longrightarrow> j = p \<or> Suc p \<le> j" by linarith
  show ?thesis
  proof (cases "in_snapshot ?s (es ! p)")
    case False
    have "\<not> shown c ?s es p" using False by (simp add: shown_def)
    then have "visited es p P t it" using assms(4) False step unfolding visited_def saved_def
      by (cases t) (auto, metis Suc_leD step)
    moreover have "prev_user_entry_step c I (Some (fst (es ! p))) t it = Some (t, it)"
      using False by (simp add: prev_user_entry_step_def in_snapshot_def)
    ultimately show ?thesis using ex by simp
  next
    case True
    have hid: "\<not> shown c ?s es j" if j: "p < j" "j < P" and new: "t = kTypeValue \<Longrightarrow> \<not> Compare c (user_key (fst (es ! p))) (di_saved_key it) < 0" for j
    proof (cases t)
      case kTypeDeletion
      then show ?thesis using assms(4) j by (simp add: visited_def)
    next
      case kTypeValue
      then obtain m where m: "saved es (Suc p) P m it" using assms(4) by (auto simp: visited_def)
      have "\<not> key_cmp es p m < 0" using new [OF kTypeValue] m by (simp add: saved_def)
      then have nm: "\<not> shown c ?s es m" using shown_last [OF assms(1) m True] by blast
      consider "j < m" | "j = m" | "m < j" by linarith
      then show ?thesis
      proof cases
        case 1
        then have "\<not> in_snapshot ?s (es ! j)" using m j(1) unfolding saved_def by (metis Suc_leI)
        then show ?thesis by (simp add: shown_def)
      qed (use nm m j(2) in \<open>auto simp: saved_def\<close>)
    qed
    show ?thesis
    proof (cases "t \<noteq> kTypeDeletion \<and> Compare c (user_key (fst (es ! p))) (di_saved_key it) < 0")
      case brk: True
      then have t: "t = kTypeValue" by (cases t) auto
      then obtain m where m: "saved es (Suc p) P m it" using assms(4) by (auto simp: visited_def)
      have "key_cmp es p m < 0" using brk m by (simp add: saved_def)
      then have "shown c ?s es m" using shown_last [OF assms(1) m True] by blast
      moreover have "prev_user_entry_step c I (Some (fst (es ! p))) t it = None"
        using brk True by (simp add: prev_user_entry_step_def in_snapshot_def)
      ultimately show ?thesis using t m by auto
    next
      case False
      then have new: "t = kTypeValue \<Longrightarrow> \<not> Compare c (user_key (fst (es ! p))) (di_saved_key it) < 0" by auto
      show ?thesis
      proof (cases "ikey_type (fst (es ! p))")
        case kTypeDeletion
        let ?it = "it\<lparr> di_saved_key := [], di_saved_value := [] \<rparr>"
        have "\<not> shown c ?s es p" using kTypeDeletion by (simp add: shown_def)
        then have "visited es p P kTypeDeletion ?it" using hid [OF _ _ new] unfolding visited_def
          by (auto simp: le_eq_less_or_eq)
        moreover have "prev_user_entry_step c I (Some (fst (es ! p))) t it = Some (kTypeDeletion, ?it)"
          using False True kTypeDeletion by (simp add: prev_user_entry_step_def in_snapshot_def ClearSavedValue_def)
        ultimately show ?thesis by auto
      next
        case kTypeValue
        let ?it = "it\<lparr> di_saved_key := user_key (fst (es ! p)), di_saved_value := snd (es ! p) \<rparr>"
        have "saved es p P p ?it" using True kTypeValue hid [OF _ _ new] assms(2,3) by (auto simp: saved_def)
        then have "visited es p P kTypeValue ?it" by (auto simp: visited_def)
        moreover have "prev_user_entry_step c I (Some (fst (es ! p))) t it = Some (kTypeValue, ?it)"
          using False True kTypeValue k by (simp add: prev_user_entry_step_def in_snapshot_def)
        ultimately show ?thesis by auto
      qed
    qed
  qed
qed

text \<open>The loop ends with no entry before \<open>P\<close> shown, or with the last one saved.\<close>

definition found_prev :: "mem_entry list \<Rightarrow> nat \<Rightarrow> ('s, 'd) DBIter \<Rightarrow> ValueType \<Rightarrow> ('s, 'd) DBIter \<Rightarrow> bool" where
  "found_prev es P it t it' \<longleftrightarrow> di_sequence it' = di_sequence it \<and> di_direction it' = di_direction it \<and>
     (\<exists>p \<le> P. ready es (back_at es p) it' \<and>
        (case t of
           kTypeDeletion \<Rightarrow> \<forall>j < P. \<not> shown c (di_sequence it) es j
         | kTypeValue \<Rightarrow> \<exists>m. saved es p P m it' \<and> shown c (di_sequence it) es m))"

lemma prev_loop:
  assumes "ready es p it" "p < P" "P \<le> length es" "visited es (Suc p) P t it"
  shows "\<exists>t' it'. FindPrevUserEntry_loop c I sample t it = Some (t', it') \<and> found_prev es P it t' it'"
  using assms
proof (induction p arbitrary: t it rule: less_induct)
  case (less p)
  have lk: "length (mem_kvs es) = length es" "p < length es" using less.prems(2,3) by (simp_all add: mem_kvs_def)
  obtain it1 where it1: "ParseKey I sample it = Some (Some (fst (es ! p)), it1)" "sampled it it1"
    using parse_entry less.prems(1) lk(2) unfolding ready_def by metis
  have r1: "ready es p it1" using ready_sampled [OF less.prems(1) it1(2)] .
  have same: "di_sequence it1 = di_sequence it" "di_direction it1 = di_direction it"
    "di_saved_key it1 = di_saved_key it" "di_saved_value it1 = di_saved_value it"
    using it1(2) by (simp_all add: sampled_def)
  have v1: "visited es (Suc p) P t it1" using less.prems(4) by (cases t) (simp_all add: visited_def saved_def same)
  note step = prev_step [OF r1 less.prems(2,3) v1]
  show ?case
  proof (cases "prev_user_entry_step c I (Some (fst (es ! p))) t it1")
    case None
    then obtain m where m: "t = kTypeValue" "saved es (Suc p) P m it1" "shown c (di_sequence it) es m" using step same by auto
    have "ready es (back_at es (Suc p)) it1" using r1 by (simp add: back_at_def)
    then have "found_prev es P it t it1" unfolding found_prev_def using m(2,3) Suc_leI [OF less.prems(2)] same by (simp add: m(1)) blast
    then show ?thesis using it1(1) None by (subst FindPrevUserEntry_loop.simps) simp
  next
    case (Some r)
    then obtain t' k v where r: "r = (t', it1\<lparr> di_saved_key := k, di_saved_value := v \<rparr>)"
      "visited es p P t' (it1\<lparr> di_saved_key := k, di_saved_value := v \<rparr>)" using step by (cases r) auto
    let ?it = "it1\<lparr> di_saved_key := k, di_saved_value := v, di_iter := it_Prev I (di_iter it1) \<rparr>"
    have vis: "visited es p P t' ?it" using r(2) by (cases t') (simp_all add: visited_def saved_def)
    have cur: "cursor (it_Prev I (di_iter it1)) (mem_kvs es) (back_at es p)"
      using cursor_back r1 lk by (simp add: ready_def)
    then have r2: "ready es (back_at es p) ?it" using r1 by (simp add: ready_def)
    have v: "it_Valid I (it_Prev I (di_iter it1)) \<longleftrightarrow> 0 < p" using entries.cursor_Valid [OF cur] lk by (auto simp: back_at_def)
    show ?thesis
    proof (cases p)
      case 0
      have "case t' of kTypeDeletion \<Rightarrow> \<forall>j < P. \<not> shown c (di_sequence it) es j
         | kTypeValue \<Rightarrow> \<exists>m. saved es 0 P m ?it \<and> shown c (di_sequence it) es m"
      proof (cases t')
        case kTypeDeletion
        then show ?thesis using vis same(1) 0 by (simp add: visited_def)
      next
        case kTypeValue
        then obtain m where "saved es 0 P m ?it" using vis 0 by (auto simp: visited_def)
        moreover from this have "shown c (di_sequence it) es m" using same(1) by (simp add: saved_def shown_def)
        ultimately show ?thesis using kTypeValue by auto
      qed
      then have "found_prev es P it t' ?it" unfolding found_prev_def using r2 same 0 by (auto intro!: exI [of _ "0 :: nat"])
      then show ?thesis using it1(1) Some r(1) v 0 by (subst FindPrevUserEntry_loop.simps) (simp add: Let_def)
    next
      case (Suc q)
      obtain t2 it2 where it2: "FindPrevUserEntry_loop c I sample t' ?it = Some (t2, it2)" "found_prev es P ?it t2 it2"
        using less.IH [of q ?it t'] r2 vis less.prems(2,3) Suc by (auto simp: back_at_def)
      have "found_prev es P it t2 it2" using it2(2) by (cases t2) (simp_all add: found_prev_def same)
      then show ?thesis using it1(1) Some r(1) v Suc it2(1) by (subst FindPrevUserEntry_loop.simps) (simp add: Let_def)
    qed
  qed
qed

text \<open>The iterator shows entry number \<open>i\<close> of the view, in the reverse direction.\<close>

definition at_reverse :: "mem_entry list \<Rightarrow> nat \<Rightarrow> ('s, 'd) DBIter \<Rightarrow> bool" where
  "at_reverse es i it \<longleftrightarrow> di_valid it \<and> di_direction it = kReverse \<and>
     (\<exists>p P m. ready es (back_at es p) it \<and> saved es p P m it \<and> shown c (di_sequence it) es m \<and> i = shown_before c (di_sequence it) es m)"

lemma find_prev:
  assumes "ready es (back_at es P) it" "P \<le> length es" "di_direction it = kReverse"
  shows "\<exists>it'. FindPrevUserEntry c I sample it = Some it' \<and> di_sequence it' = di_sequence it \<and>
    (if shown_before c (di_sequence it) es P = 0 then \<not> di_valid it' \<and> (\<exists>j. ready es j it')
     else at_reverse es (shown_before c (di_sequence it) es P - 1) it')"
proof -
  let ?s = "di_sequence it"
  have lk: "length (mem_kvs es) = length es" by (simp add: mem_kvs_def)
  have cur: "cursor (di_iter it) (mem_kvs es) (back_at es P)" using assms(1) by (simp add: ready_def)
  have v: "it_Valid I (di_iter it) \<longleftrightarrow> 0 < P" using entries.cursor_Valid [OF cur] lk assms(2) by (auto simp: back_at_def)
  obtain t it1 where l: "(if it_Valid I (di_iter it) then FindPrevUserEntry_loop c I sample kTypeDeletion it else Some (kTypeDeletion, it)) = Some (t, it1)"
    "found_prev es P it t it1"
  proof (cases P)
    case 0
    have "found_prev es P it kTypeDeletion it" using assms(1) 0 by (auto simp: found_prev_def)
    then show thesis using that v 0 by simp
  next
    case (Suc p)
    have "visited es (Suc p) P kTypeDeletion it" using Suc by (simp add: visited_def)
    moreover have "ready es p it" using assms(1) Suc by (simp add: back_at_def)
    ultimately show thesis using prev_loop [of es p it P kTypeDeletion] that v Suc assms(2) by auto
  qed
  obtain p where p: "p \<le> P" "ready es (back_at es p) it1" "di_sequence it1 = ?s" "di_direction it1 = kReverse"
    "case t of kTypeDeletion \<Rightarrow> \<forall>j < P. \<not> shown c ?s es j | kTypeValue \<Rightarrow> \<exists>m. saved es p P m it1 \<and> shown c ?s es m"
    using l(2) assms(3) by (auto simp: found_prev_def)
  show ?thesis
  proof (cases t)
    case kTypeDeletion
    let ?it = "(ClearSavedValue (it1\<lparr> di_valid := False, di_saved_key := [] \<rparr>))\<lparr> di_direction := kForward \<rparr>"
    have "FindPrevUserEntry c I sample it = Some ?it" using l(1) kTypeDeletion unfolding FindPrevUserEntry_def by simp
    moreover have "shown_before c ?s es P = 0" using shown_before_gap [of 0 P c ?s es] p(5) kTypeDeletion by simp
    moreover have "ready es (back_at es p) ?it" using p(2) by (simp add: ready_def ClearSavedValue_def)
    ultimately show ?thesis using p(3) by (auto simp: ClearSavedValue_def)
  next
    case kTypeValue
    then obtain m where m: "saved es p P m it1" "shown c ?s es m" using p(5) by auto
    let ?it = "it1\<lparr> di_valid := True \<rparr>"
    have "FindPrevUserEntry c I sample it = Some ?it" using l(1) kTypeValue unfolding FindPrevUserEntry_def by simp
    moreover have "shown_before c ?s es P = Suc (shown_before c ?s es m)"
      using shown_before_gap [of "Suc m" P c ?s es] m p(3) by (simp add: saved_def shown_before_Suc)
    moreover have "ready es (back_at es p) ?it" "saved es p P m ?it" using p(2) m(1) by (simp_all add: ready_def saved_def)
    ultimately show ?thesis using p(3,4) m(2) unfolding at_reverse_def by auto
  qed
qed

section \<open>The iterator over the view\<close>

definition user_cursor :: "('s, 'd) DBIter option \<Rightarrow> kv list \<Rightarrow> nat \<Rightarrow> bool" where
  "user_cursor st kvs i \<longleftrightarrow>
     (\<exists>it es. st = Some it \<and> kvs = user_view c (di_sequence it) es \<and> di_sequence it \<le> kMaxSequenceNumber \<and> i \<le> length kvs \<and>
        (if i < length kvs
         then (di_valid it \<and> di_direction it = kForward \<and>
                (\<exists>j < length es. ready es j it \<and> shown c (di_sequence it) es j \<and> i = shown_before c (di_sequence it) es j))
              \<or> at_reverse es i it
         else \<not> di_valid it \<and> (\<exists>j. ready es j it)))"

lemma at_reverse_ready: "at_reverse es i it \<Longrightarrow> \<exists>j. ready es j it"
  by (auto simp: at_reverse_def)

lemma user_cursorE:
  assumes "user_cursor st kvs i"
  obtains it es j where "st = Some it" "kvs = user_view c (di_sequence it) es" "di_sequence it \<le> kMaxSequenceNumber" "ready es j it"
  using assms at_reverse_ready unfolding user_cursor_def by (metis (full_types))

lemma cursor_found_next:
  assumes "found_next es b it it'" "di_direction it = kForward" "di_sequence it \<le> kMaxSequenceNumber" "b \<le> length es"
  shows "user_cursor (Some it') (user_view c (di_sequence it) es) (shown_before c (di_sequence it) es b)"
proof -
  obtain j where j: "ready es j it'" "di_valid it' = (j < length es)" "j < length es \<Longrightarrow> shown c (di_sequence it) es j"
    "shown_before c (di_sequence it) es j = shown_before c (di_sequence it) es b" "di_sequence it' = di_sequence it" "di_direction it' = kForward"
    using assms(1,2) by (auto simp: found_next_def)
  show ?thesis
  proof (cases "j < length es")
    case True
    then have "shown_before c (di_sequence it) es b < length (user_view c (di_sequence it) es)" using user_view_at(1) [OF j(3)] j(4) by simp
    then show ?thesis unfolding user_cursor_def using j assms(3) True by (auto intro!: exI [of _ es] exI [of _ j])
  next
    case False
    have "j \<le> length es" using entries.cursor_le j(1) by (fastforce simp: ready_def mem_kvs_def)
    then have "shown_before c (di_sequence it) es b = length (user_view c (di_sequence it) es)" using False j(4) by (simp add: length_user_view)
    then show ?thesis unfolding user_cursor_def using j assms(3) False by (auto intro!: exI [of _ es])
  qed
qed

lemma cursor_found_prev:
  assumes "ready es (back_at es P) it" "P \<le> length es" "di_direction it = kReverse" "di_sequence it \<le> kMaxSequenceNumber"
    and kvs: "kvs = user_view c (di_sequence it) es" and n: "n = shown_before c (di_sequence it) es P"
  shows "user_cursor (FindPrevUserEntry c I sample it) kvs (if n = 0 then length kvs else n - 1)"
proof -
  obtain it' where it': "FindPrevUserEntry c I sample it = Some it'" "di_sequence it' = di_sequence it"
    "if n = 0 then \<not> di_valid it' \<and> (\<exists>j. ready es j it') else at_reverse es (n - 1) it'"
    using find_prev [OF assms(1-3)] n by blast
  show ?thesis
  proof (cases "n = 0")
    case True
    then show ?thesis unfolding user_cursor_def using it' kvs assms(4) by auto
  next
    case False
    then have r: "at_reverse es (n - 1) it'" using it'(3) by simp
    then obtain m where "shown c (di_sequence it) es m" "m < length es" "n - 1 = shown_before c (di_sequence it) es m"
      using it'(2) by (auto simp: at_reverse_def saved_def)
    then have "n - 1 < length kvs" using user_view_at(1) kvs by simp
    then show ?thesis unfolding user_cursor_def using it' kvs assms(4) False r by auto
  qed
qed

lemma skips_at:
  assumes "ready es i0 it0" "j < length es" "in_snapshot (di_sequence it) (es ! j)" "di_saved_key it = user_key (fst (es ! j))"
    and "p \<le> Suc j" "\<forall>k. p \<le> k \<longrightarrow> k < j \<longrightarrow> \<not> in_snapshot (di_sequence it) (es ! k)" "p \<le> j \<Longrightarrow> ikey_type (fst (es ! j)) = kTypeValue"
  shows "skips es p (Suc j) True it"
proof -
  have "(\<exists>k < Suc j. in_snapshot (di_sequence it) (es ! k) \<and> \<not> key_cmp es k q < 0) \<longleftrightarrow>
      Compare c (user_key (fst (es ! q))) (user_key (fst (es ! j))) \<le> 0"
    if q: "p \<le> q" "q < length es" "in_snapshot (di_sequence it) (es ! q)" for q
  proof (cases "q \<le> j")
    case True
    then show ?thesis using ready_sorted(2) [OF assms(1) True assms(2)] q(3) user.cmp_refl by (metis less_Suc_eq_le less_irrefl)
  next
    case False
    have "\<not> key_cmp es j q < 0" if "k \<le> j" "\<not> key_cmp es k q < 0" for k
      using same_key(1) [OF assms(1), of k j q] that False q(2) by simp
    moreover have "Compare c (user_key (fst (es ! q))) (user_key (fst (es ! j))) \<le> 0 \<longleftrightarrow> \<not> key_cmp es j q < 0"
      using user.cmp_le [of "user_key (fst (es ! q))" "user_key (fst (es ! j))"] by linarith
    ultimately show ?thesis using assms(3) by (auto simp: less_Suc_eq_le)
  qed
  moreover have "ikey_type (fst (es ! q)) = kTypeValue" if "q < Suc j" "p \<le> q" "in_snapshot (di_sequence it) (es ! q)" for q
    using assms(6,7) that by (cases "q = j") auto
  ultimately show ?thesis using assms(4,5) unfolding skips_def by simp
qed

lemma prev_before_key:
  assumes "cursor st (mem_kvs es) q" "q < length es" "\<forall>e \<in> set es. sequence (fst e) \<le> kMaxSequenceNumber"
  shows "\<exists>st' p. prev_before c I u st = Some st' \<and> cursor st' (mem_kvs es) (back_at es p) \<and> p \<le> q \<and>
    (\<forall>k. p \<le> k \<longrightarrow> k < q \<longrightarrow> \<not> Compare c (user_key (fst (es ! k))) u < 0) \<and>
    (0 < p \<longrightarrow> Compare c (user_key (fst (es ! (p - 1)))) u < 0)"
  using assms
proof (induction q arbitrary: st rule: less_induct)
  case (less q)
  let ?st = "it_Prev I st"
  have cur: "cursor ?st (mem_kvs es) (back_at es q)" using cursor_back [OF less.prems(1,2)] .
  have v: "it_Valid I ?st \<longleftrightarrow> 0 < q" using entries.cursor_Valid [OF cur] less.prems(2) by (auto simp: back_at_def mem_kvs_def)
  show ?case
  proof (cases q)
    case 0
    then have "prev_before c I u st = Some ?st" using v by (subst prev_before.simps) (simp add: Let_def)
    then show ?thesis using cur 0 by blast
  next
    case (Suc r)
    have cr: "cursor ?st (mem_kvs es) r" using cur Suc by (simp add: back_at_def)
    have k: "ExtractUserKey (it_key I ?st) = user_key (fst (es ! r))"
      using entries.cursor_key [OF cr] less.prems(2) Suc by (simp add: mem_kvs_def entry_ikey_def ExtractUserKey_Append)
    show ?thesis
    proof (cases "Compare c (user_key (fst (es ! r))) u < 0")
      case True
      then have "prev_before c I u st = Some ?st" using v k Suc by (subst prev_before.simps) (simp add: Let_def)
      then show ?thesis using cur True Suc by (intro exI [of _ ?st] exI [of _ q]) simp
    next
      case False
      then have step: "prev_before c I u st = prev_before c I u ?st" using v k Suc by (subst prev_before.simps) (simp add: Let_def)
      obtain st' p where st': "prev_before c I u ?st = Some st'" "cursor st' (mem_kvs es) (back_at es p)" "p \<le> r"
        "\<forall>k. p \<le> k \<longrightarrow> k < r \<longrightarrow> \<not> Compare c (user_key (fst (es ! k))) u < 0" "0 < p \<longrightarrow> Compare c (user_key (fst (es ! (p - 1)))) u < 0"
        using less.IH [OF _ cr] Suc less.prems(2,3) by auto
      have "\<forall>k. p \<le> k \<longrightarrow> k < q \<longrightarrow> \<not> Compare c (user_key (fst (es ! k))) u < 0" using st'(4) False Suc by (auto simp: less_Suc_eq)
      then show ?thesis using step st' Suc by (intro exI [of _ st'] exI [of _ p]) simp
    qed
  qed
qed

lemma user_Next:
  assumes "user_cursor st kvs i" "i < length kvs"
  shows "user_cursor (Option.bind st (DBIter_Next c I sample)) kvs (Suc i)"
proof -
  obtain it es where it: "st = Some it" "kvs = user_view c (di_sequence it) es" "di_sequence it \<le> kMaxSequenceNumber"
    and pos: "(di_valid it \<and> di_direction it = kForward \<and>
        (\<exists>j < length es. ready es j it \<and> shown c (di_sequence it) es j \<and> i = shown_before c (di_sequence it) es j)) \<or> at_reverse es i it"
    using assms by (auto simp: user_cursor_def)
  have lk: "length (mem_kvs es) = length es" by (simp add: mem_kvs_def)
  obtain it1 p j where n: "DBIter_Next c I sample it = (if \<not> it_Valid I (di_iter it1) then Some (it1\<lparr> di_valid := False, di_saved_key := [] \<rparr>)
      else FindNextUserEntry c I sample True it1)"
    "ready es p it1" "di_sequence it1 = di_sequence it" "di_direction it1 = kForward" "j < length es" "p \<le> Suc j"
    "shown c (di_sequence it) es j" "i = shown_before c (di_sequence it) es j" "skips es p (Suc j) True it1"
    using pos
  proof
    assume "di_valid it \<and> di_direction it = kForward \<and>
        (\<exists>j < length es. ready es j it \<and> shown c (di_sequence it) es j \<and> i = shown_before c (di_sequence it) es j)"
    then obtain j where j: "di_direction it = kForward" "j < length es" "ready es j it" "shown c (di_sequence it) es j"
      "i = shown_before c (di_sequence it) es j" by blast
    have cur: "cursor (di_iter it) (mem_kvs es) j" using j(3) by (simp add: ready_def)
    let ?it = "it\<lparr> di_saved_key := ExtractUserKey (it_key I (di_iter it)), di_iter := it_Next I (di_iter it) \<rparr>"
    have key: "di_saved_key ?it = user_key (fst (es ! j))"
      using entries.cursor_key [OF cur] j(2) by (simp add: mem_kvs_def entry_ikey_def ExtractUserKey_Append)
    have "ready es (Suc j) ?it" using j(3) entries.cursor_Next [OF cur] j(2) lk by (simp add: ready_def)
    moreover have "skips es (Suc j) (Suc j) True ?it"
      by (rule skips_at [OF j(3,2) _ key]) (use j(4) in \<open>simp_all add: shown_def\<close>)
    ultimately show thesis using that [of ?it "Suc j" j] j by (simp add: DBIter_Next_def Let_def)
  next
    assume "at_reverse es i it"
    then obtain p P m where r: "di_direction it = kReverse" "ready es (back_at es p) it" "saved es p P m it" "shown c (di_sequence it) es m"
      "i = shown_before c (di_sequence it) es m" by (auto simp: at_reverse_def)
    have m: "p \<le> m" "m < length es" "di_saved_key it = user_key (fst (es ! m))"
      "\<forall>k. p \<le> k \<longrightarrow> k < m \<longrightarrow> \<not> in_snapshot (di_sequence it) (es ! k)" using r(3) by (auto simp: saved_def)
    have cur: "cursor (di_iter it) (mem_kvs es) (back_at es p)" using r(2) by (simp add: ready_def)
    have v: "it_Valid I (di_iter it) \<longleftrightarrow> 0 < p" using entries.cursor_Valid [OF cur] m lk by (auto simp: back_at_def)
    let ?st = "if \<not> it_Valid I (di_iter it) then it_SeekToFirst I (di_iter it) else it_Next I (di_iter it)"
    let ?it = "it\<lparr> di_direction := kForward, di_iter := ?st \<rparr>"
    have "cursor ?st (mem_kvs es) p"
      using v entries.cursor_SeekToFirst [OF cur] entries.cursor_Next [OF cur] m lk by (auto simp: back_at_def split: if_splits)
    then have "ready es p ?it" using r(2) by (simp add: ready_def)
    moreover have "skips es p (Suc m) True ?it"
      by (rule skips_at [OF r(2) m(2)]) (use m r(4) in \<open>auto simp: shown_def\<close>)
    ultimately show thesis using that [of ?it p m] r m by (simp add: DBIter_Next_def Let_def)
  qed
  have cur: "cursor (di_iter it1) (mem_kvs es) p" using n(2) by (simp add: ready_def)
  have si: "shown_before c (di_sequence it1) es (Suc j) = Suc i" using n(3,7,8) by (simp add: shown_before_Suc)
  show ?thesis
  proof (cases "p < length es")
    case True
    obtain it2 where "FindNextUserEntry c I sample True it1 = Some it2" "found_next es (Suc j) it1 it2"
      using find_next [OF n(2) True _ n(9)] n(5) by auto
    then show ?thesis using cursor_found_next [of es "Suc j" it1 it2] n(1,3,4,5) it si True entries.cursor_Valid [OF cur] lk by simp
  next
    case False
    have p: "p = length es" "Suc j = length es" using False n(5,6) entries.cursor_le [OF cur] lk by auto
    have "Suc i = length kvs" using si p n(3) it(2) by (simp add: length_user_view)
    moreover have "ready es p (it1\<lparr> di_valid := False, di_saved_key := [] \<rparr>)" using n(2) by (simp add: ready_def)
    ultimately show ?thesis using n(1,3) it p entries.cursor_Valid [OF cur] lk by (auto simp: user_cursor_def)
  qed
qed

lemma user_Prev:
  assumes "user_cursor st kvs i" "i < length kvs"
  shows "user_cursor (Option.bind st (DBIter_Prev c I sample)) kvs (if i = 0 then length kvs else i - 1)"
proof -
  obtain it es where it: "st = Some it" "kvs = user_view c (di_sequence it) es" "di_sequence it \<le> kMaxSequenceNumber"
    and pos: "(di_valid it \<and> di_direction it = kForward \<and>
        (\<exists>j < length es. ready es j it \<and> shown c (di_sequence it) es j \<and> i = shown_before c (di_sequence it) es j)) \<or> at_reverse es i it"
    using assms by (auto simp: user_cursor_def)
  let ?s = "di_sequence it"
  from pos show ?thesis
  proof
    assume "at_reverse es i it"
    then obtain p P m where r: "di_direction it = kReverse" "ready es (back_at es p) it" "saved es p P m it" "shown c ?s es m"
      "i = shown_before c ?s es m" by (auto simp: at_reverse_def)
    have "shown_before c ?s es m = shown_before c ?s es p"
      using r(3) by (intro shown_before_gap) (auto simp: saved_def shown_def)
    moreover have "p \<le> length es" using r(3) by (auto simp: saved_def)
    ultimately have "user_cursor (FindPrevUserEntry c I sample it) kvs (if i = 0 then length kvs else i - 1)"
      using cursor_found_prev [OF r(2) _ r(1) it(3,2), of i] r(5) by simp
    then show ?thesis using r(1) it(1) by (simp add: DBIter_Prev_def)
  next
    assume "di_valid it \<and> di_direction it = kForward \<and>
        (\<exists>j < length es. ready es j it \<and> shown c ?s es j \<and> i = shown_before c ?s es j)"
    then obtain j where j: "di_direction it = kForward" "j < length es" "ready es j it" "shown c ?s es j" "i = shown_before c ?s es j" by blast
    have cur: "cursor (di_iter it) (mem_kvs es) j" and seqs: "\<forall>e \<in> set es. sequence (fst e) \<le> kMaxSequenceNumber"
      using j(3) by (auto simp: ready_def)
    let ?u = "user_key (fst (es ! j))"
    have key: "ExtractUserKey (it_key I (di_iter it)) = ?u"
      using entries.cursor_key [OF cur] j(2) by (simp add: mem_kvs_def entry_ikey_def ExtractUserKey_Append)
    obtain st' p where p: "prev_before c I ?u (di_iter it) = Some st'" "cursor st' (mem_kvs es) (back_at es p)" "p \<le> j"
      "\<forall>k. p \<le> k \<longrightarrow> k < j \<longrightarrow> \<not> key_cmp es k j < 0" "0 < p \<longrightarrow> key_cmp es (p - 1) j < 0"
      using prev_before_key [OF cur j(2) seqs] by blast
    have v: "it_Valid I st' \<longleftrightarrow> 0 < p" using entries.cursor_Valid [OF p(2)] p(3) j(2) by (auto simp: back_at_def mem_kvs_def)
    have n: "shown_before c ?s es j = shown_before c ?s es p"
      using p(3,4) j(4) by (intro shown_before_gap) (auto simp: shown_def)
    let ?it = "it\<lparr> di_saved_key := ?u, di_iter := st' \<rparr>"
    show ?thesis
    proof (cases "p = 0")
      case True
      let ?it' = "ClearSavedValue (?it\<lparr> di_valid := False, di_saved_key := [] \<rparr>)"
      have "DBIter_Prev c I sample it = Some ?it'" using j(1) key p(1) v True by (simp add: DBIter_Prev_def)
      moreover have "i = 0" using n j(5) True by simp
      moreover have "ready es (back_at es p) ?it'" using j(3) p(2) by (simp add: ready_def ClearSavedValue_def)
      ultimately show ?thesis using it by (auto simp: user_cursor_def ClearSavedValue_def)
    next
      case False
      let ?it' = "?it\<lparr> di_direction := kReverse \<rparr>"
      have "DBIter_Prev c I sample it = FindPrevUserEntry c I sample ?it'" using j(1) key p(1) v False by (simp add: DBIter_Prev_def)
      moreover have "ready es (back_at es p) ?it'" using j(3) p(2) by (simp add: ready_def)
      moreover have "user_cursor (FindPrevUserEntry c I sample ?it') kvs (if i = 0 then length kvs else i - 1)"
        by (rule cursor_found_prev [OF calculation(2)]) (use p(3) j(2,5) n it in simp_all)
      ultimately show ?thesis using it(1) by simp
    qed
  qed
qed

lemma user_find_first:
  assumes "ready es p it" "di_direction it = kForward" "di_sequence it \<le> kMaxSequenceNumber" "kvs = user_view c (di_sequence it) es"
    and "\<And>k q. k < p \<Longrightarrow> p \<le> q \<Longrightarrow> q < length es \<Longrightarrow> in_snapshot (di_sequence it) (es ! k) \<Longrightarrow> key_cmp es k q < 0"
  shows "user_cursor (find_first c I sample it) kvs (shown_before c (di_sequence it) es p)"
proof -
  have cur: "cursor (di_iter it) (mem_kvs es) p" using assms(1) by (simp add: ready_def)
  have lk: "length (mem_kvs es) = length es" by (simp add: mem_kvs_def)
  have v: "it_Valid I (di_iter it) \<longleftrightarrow> p < length es" using entries.cursor_Valid [OF cur] lk by simp
  show ?thesis
  proof (cases "p < length es")
    case True
    have "skips es p p False it" using assms(5) unfolding skips_def by auto
    then obtain it' where "FindNextUserEntry c I sample False it = Some it'" "found_next es p it it'"
      using find_next [OF assms(1) True, of p False] True by auto
    then show ?thesis using cursor_found_next [of es p it it'] assms(2-4) True v by (simp add: find_first_def)
  next
    case False
    then have p: "p = length es" using entries.cursor_le [OF cur] lk by simp
    have "ready es p (it\<lparr> di_valid := False \<rparr>)" using assms(1) by (simp add: ready_def)
    then show ?thesis using v p assms(3,4) by (auto simp: find_first_def user_cursor_def length_user_view)
  qed
qed

lemma user_SeekToFirst:
  assumes "user_cursor st kvs i"
  shows "user_cursor (Option.bind st (DBIter_SeekToFirst c I sample)) kvs 0"
proof -
  obtain it es j where it: "st = Some it" "kvs = user_view c (di_sequence it) es" "di_sequence it \<le> kMaxSequenceNumber" "ready es j it"
    by (rule user_cursorE [OF assms])
  let ?it = "(ClearSavedValue (it\<lparr> di_direction := kForward \<rparr>))\<lparr> di_iter := it_SeekToFirst I (di_iter it) \<rparr>"
  have "ready es 0 ?it" using it(4) entries.cursor_SeekToFirst by (auto simp: ready_def ClearSavedValue_def)
  then have "user_cursor (find_first c I sample ?it) kvs (shown_before c (di_sequence ?it) es 0)"
    by (rule user_find_first) (use it in \<open>simp_all add: ClearSavedValue_def\<close>)
  then show ?thesis using it(1) by (simp add: DBIter_SeekToFirst_def Let_def ClearSavedValue_def)
qed

lemma user_SeekToLast:
  assumes "user_cursor st kvs i"
  shows "user_cursor (Option.bind st (DBIter_SeekToLast c I sample)) kvs (length kvs - 1)"
proof -
  obtain it es j where it: "st = Some it" "kvs = user_view c (di_sequence it) es" "di_sequence it \<le> kMaxSequenceNumber" "ready es j it"
    by (rule user_cursorE [OF assms])
  let ?it = "(ClearSavedValue (it\<lparr> di_direction := kReverse \<rparr>))\<lparr> di_iter := it_SeekToLast I (di_iter it) \<rparr>"
  have "cursor (it_SeekToLast I (di_iter it)) (mem_kvs es) (length (mem_kvs es) - 1)"
    using it(4) entries.cursor_SeekToLast unfolding ready_def by blast
  then have "ready es (back_at es (length es)) ?it" using it(4) by (auto simp: ready_def ClearSavedValue_def back_at_def mem_kvs_def)
  then have "user_cursor (FindPrevUserEntry c I sample ?it) kvs (if length kvs = 0 then length kvs else length kvs - 1)"
    by (rule cursor_found_prev) (use it in \<open>simp_all add: ClearSavedValue_def length_user_view\<close>)
  then show ?thesis using it(1) by (simp add: DBIter_SeekToLast_def Let_def ClearSavedValue_def split: if_splits)
qed

lemma user_Seek:
  assumes "user_cursor st kvs i"
  shows "user_cursor (Option.bind st (DBIter_Seek c I sample t)) kvs (lower_bound (Compare c) t kvs)"
proof -
  obtain it es j where it: "st = Some it" "kvs = user_view c (di_sequence it) es" "di_sequence it \<le> kMaxSequenceNumber" "ready es j it"
    by (rule user_cursorE [OF assms])
  let ?s = "di_sequence it"
  define k where "k = \<lparr> user_key = t, sequence = ?s, ikey_type = kValueTypeForSeek \<rparr>"
  define p where "p = lower_bound (InternalKey_Compare c) (AppendInternalKey [] k) (mem_kvs es)"
  let ?it = "(ClearSavedValue (it\<lparr> di_direction := kForward \<rparr>))\<lparr> di_saved_key := AppendInternalKey [] k,
     di_iter := it_Seek I (AppendInternalKey [] k) (di_iter it) \<rparr>"
  have cur: "cursor (di_iter it) (mem_kvs es) j" and seqs: "\<forall>e \<in> set es. sequence (fst e) \<le> kMaxSequenceNumber"
    using it(4) by (auto simp: ready_def)
  have lk: "length (mem_kvs es) = length es" by (simp add: mem_kvs_def)
  have pl: "p \<le> length es" using lower_bound_le [of "InternalKey_Compare c" _ "mem_kvs es"] lk by (simp add: p_def)
  have below: "q < p \<longleftrightarrow> InternalKey_Compare c (AppendInternalKey [] (fst (es ! q))) (AppendInternalKey [] k) < 0" if "q < length es" for q
    using entries.lower_bound_le_iff [OF entries.cursor_sorted [OF cur], of q] that lk unfolding p_def by (simp add: mem_kvs_def entry_ikey_def)
  have lt: "Compare c (user_key (fst (es ! q))) t < 0" if "q < p" "in_snapshot ?s (es ! q)" for q
  proof -
    have "InternalKey_Compare c (AppendInternalKey [] (fst (es ! q))) (AppendInternalKey [] k) < 0" using below [of q] that(1) pl by simp
    then show ?thesis using InternalKey_Compare_packed [of "fst (es ! q)" k c] that pl seqs it(3)
      by (auto simp: k_def in_snapshot_def kValueTypeForSeek_def)
  qed
  have ge: "\<not> Compare c (user_key (fst (es ! q))) t < 0" if "p \<le> q" "q < length es" for q
    using below [OF that(2)] InternalKey_Compare_packed [of "fst (es ! q)" k c] that seqs it(3) by (auto simp: k_def)
  have "ready es p ?it" using it(4) entries.cursor_Seek [OF cur] by (auto simp: ready_def ClearSavedValue_def p_def)
  then have "user_cursor (find_first c I sample ?it) kvs (shown_before c (di_sequence ?it) es p)"
  proof (rule user_find_first)
    fix k' q assume a: "k' < p" "p \<le> q" "q < length es" "in_snapshot (di_sequence ?it) (es ! k')"
    have "Compare c (user_key (fst (es ! k'))) t < 0" using lt [OF a(1)] a(4) by (simp add: ClearSavedValue_def)
    moreover have "Compare c t (user_key (fst (es ! q))) \<le> 0" using ge [OF a(2,3)] user.cmp_le by (metis linorder_not_less)
    ultimately show "key_cmp es k' q < 0" by (rule user.cmp_less_le_trans)
  qed (use it in \<open>simp_all add: ClearSavedValue_def\<close>)
  moreover have "lower_bound (Compare c) t kvs = shown_before c ?s es p"
  proof -
    let ?v = "\<lambda>j. (user_key (fst (es ! j)), snd (es ! j))"
    have up: "[0 ..< length es] = [0 ..< p] @ [p ..< length es]" using pl by (metis le_add_diff_inverse upt_add_eq_append zero_le)
    have split: "kvs = map ?v (filter (shown c ?s es) [0 ..< p]) @ map ?v (filter (shown c ?s es) [p ..< length es])"
      unfolding it(2) user_view_def up by simp
    have "\<forall>e \<in> set (map ?v (filter (shown c ?s es) [0 ..< p])). Compare c (fst e) t < 0" using lt by (auto simp: shown_def)
    moreover have "lower_bound (Compare c) t (map ?v (filter (shown c ?s es) [p ..< length es])) = 0"
    proof (cases "filter (shown c ?s es) [p ..< length es]")
      case (Cons a l)
      then have "a \<in> set (filter (shown c ?s es) [p ..< length es])" by simp
      then have "p \<le> a \<and> a < length es" by auto
      then show ?thesis using ge [of a] Cons by (simp add: lower_bound_def)
    qed (simp add: lower_bound_def)
    ultimately show ?thesis unfolding split by (simp add: lower_bound_append_less shown_before_def)
  qed
  ultimately show ?thesis using it(1) by (simp add: DBIter_Seek_def Let_def ClearSavedValue_def k_def)
qed

lemma view_sorted:
  shows "sorted_kvs (Compare c) (user_view c s es)"
  unfolding sorted_kvs_def user_view_def sorted_wrt_map
proof (rule sorted_wrt_mono_rel)
  show "sorted_wrt (<) (filter (shown c s es) [0 ..< length es])" by (rule sorted_wrt_filter) simp
  show "Compare c (fst (user_key (fst (es ! j)), snd (es ! j))) (fst (user_key (fst (es ! k)), snd (es ! k))) < 0"
    if "j \<in> set (filter (shown c s es) [0 ..< length es])" "k \<in> set (filter (shown c s es) [0 ..< length es])" "j < k" for j k
    using that by (auto simp: shown_def)
qed

lemma user_entry:
  assumes "user_cursor (Some it) kvs i" "i < length kvs"
  shows "(DBIter_key I it, DBIter_value I it) = kvs ! i"
proof -
  obtain es where it: "kvs = user_view c (di_sequence it) es"
    and pos: "(di_valid it \<and> di_direction it = kForward \<and>
        (\<exists>j < length es. ready es j it \<and> shown c (di_sequence it) es j \<and> i = shown_before c (di_sequence it) es j)) \<or> at_reverse es i it"
    using assms by (auto simp: user_cursor_def)
  from pos show ?thesis
  proof
    assume "at_reverse es i it"
    then obtain p P m where r: "di_direction it = kReverse" "saved es p P m it" "shown c (di_sequence it) es m"
      "i = shown_before c (di_sequence it) es m" by (auto simp: at_reverse_def)
    then show ?thesis using user_view_at(2) [OF r(3)] it by (simp add: saved_def DBIter_key_def DBIter_value_def)
  next
    assume "di_valid it \<and> di_direction it = kForward \<and>
        (\<exists>j < length es. ready es j it \<and> shown c (di_sequence it) es j \<and> i = shown_before c (di_sequence it) es j)"
    then obtain j where j: "di_direction it = kForward" "j < length es" "cursor (di_iter it) (mem_kvs es) j"
      "shown c (di_sequence it) es j" "i = shown_before c (di_sequence it) es j" by (auto simp: ready_def)
    have "it_key I (di_iter it) = entry_ikey (es ! j)" "it_value I (di_iter it) = snd (es ! j)"
      using entries.cursor_key [OF j(3)] entries.cursor_value [OF j(3)] j(2) by (simp_all add: mem_kvs_def)
    then show ?thesis using user_view_at(2) [OF j(4,2)] j(1,5) it
      by (simp add: DBIter_key_def DBIter_value_def entry_ikey_def ExtractUserKey_Append)
  qed
qed

lemma user_iterator: "iterator (Compare c) (DBIterator c I sample) user_cursor"
proof (intro iterator.intro iterator_axioms.intro, goal_cases)
  case 1
  show ?case by (rule user.three_way_axioms)
next
  case (2 st kvs i)
  then show ?case using view_sorted by (auto simp: user_cursor_def)
next
  case (3 st kvs i)
  then show ?case by (auto simp: user_cursor_def)
next
  case (4 st kvs i)
  then show ?case by (auto simp: user_cursor_def DBIterator_def at_reverse_def split: if_splits)
next
  case (5 st kvs i)
  then obtain it where "st = Some it" by (auto simp: user_cursor_def)
  then show ?case using user_entry 5 by (simp add: DBIterator_def)
next
  case (6 st kvs i)
  then show ?case using user_SeekToFirst by (simp add: DBIterator_def)
next
  case (7 st kvs i)
  then show ?case using user_SeekToLast by (simp add: DBIterator_def)
next
  case (8 st kvs i t)
  then show ?case using user_Seek by (simp add: DBIterator_def)
next
  case (9 st kvs i)
  then show ?case using user_Next by (simp add: DBIterator_def)
next
  case (10 st kvs i)
  then show ?case using user_Prev by (simp add: DBIterator_def)
next
  case (11 st kvs i)
  obtain it es j where "st = Some it" "ready es j it" by (rule user_cursorE [OF 11])
  then show ?case using entries.cursor_status by (auto simp: DBIterator_def DBIter_status_def ready_def)
qed

lemma new_user_cursor:
  assumes "cursor internal (mem_kvs es) j" "\<forall>e \<in> set es. sequence (fst e) \<le> kMaxSequenceNumber" "s \<le> kMaxSequenceNumber"
  shows "user_cursor (Some (NewDBIterator db internal s seed)) (user_view c s es) (length (user_view c s es))"
proof -
  have "ready es j (NewDBIterator db internal s seed) \<and> \<not> di_valid (NewDBIterator db internal s seed) \<and> di_sequence (NewDBIterator db internal s seed) = s"
    using assms(1,2) Random_Next_nat [OF Random_new_ok]
    by (simp add: ready_def NewDBIterator_def RandomCompactionPeriod_def Random_Uniform_def Let_def)
  then show ?thesis using assms(3) by (auto simp: user_cursor_def)
qed

text \<open>The view has exactly the values that lookups at the snapshot find.\<close>

lemma newest_first:
  assumes "sorted_wrt (\<lambda>a b. entry_cmp c a b < 0) es" "\<forall>e \<in> set es. sequence (fst e) \<le> kMaxSequenceNumber"
    and "j < length es" "visible c u s (es ! j)" "\<forall>k < j. \<not> visible c u s (es ! k)"
  shows "newest c u s es None = Some (es ! j)"
proof -
  have es: "es = take j es @ es ! j # drop (Suc j) es" using id_take_nth_drop [OF assms(3)] .
  have "\<not> visible c u s x" if x: "x \<in> set (take j es)" for x
  proof -
    obtain k where "k < j" "x = es ! k" using x assms(3) by (auto simp: in_set_conv_nth)
    then show ?thesis using assms(5) by blast
  qed
  then have "newest c u s (take j es) None = None" unfolding newest_None_iff by blast
  moreover have "newest c u s (drop (Suc j) es) (Some (es ! j)) = Some (es ! j)"
  proof (rule newest_keep, intro ballI impI)
    fix x assume x: "x \<in> set (drop (Suc j) es)" "visible c u s x"
    have "Compare c (user_key (fst (es ! j))) (user_key (fst x)) = 0"
      using x(2) assms(4) user.cmp_zero_trans user.cmp_zero_sym unfolding visible_def by blast
    then have "sequence (fst x) \<le> sequence (fst (es ! j))"
      using sorted_entries(2) [of "take j es" "es ! j" "drop (Suc j) es" x] assms(1,2) x(1) es by metis
    then show "\<not> sequence (fst (es ! j)) < sequence (fst x)" by simp
  qed
  ultimately show ?thesis using assms(4) by (subst es) (simp add: newest_append)
qed

lemma view_lookup:
  assumes "sorted_wrt (\<lambda>a b. entry_cmp c a b < 0) es" "\<forall>e \<in> set es. sequence (fst e) \<le> kMaxSequenceNumber"
  shows "(\<exists>k. (k, v) \<in> set (user_view c s es) \<and> Compare c k u = 0) \<longleftrightarrow> get_result (newest c u s es None) = (OK, Some v)"
proof -
  have le: "Compare c (user_key (fst (es ! k))) (user_key (fst (es ! j))) \<le> 0" if "k < j" "j < length es" for k j
    using sorted_user_keys [OF assms] that by (simp add: sorted_wrt_iff_nth_less)
  have first: "(\<forall>k < j. \<not> visible c u s (es ! k)) \<longleftrightarrow>
      (\<forall>k < j. in_snapshot s (es ! k) \<longrightarrow> Compare c (user_key (fst (es ! k))) (user_key (fst (es ! j))) < 0)"
    if j: "j < length es" "Compare c (user_key (fst (es ! j))) u = 0" for j
  proof -
    have "Compare c (user_key (fst (es ! k))) u = 0 \<longleftrightarrow> \<not> Compare c (user_key (fst (es ! k))) (user_key (fst (es ! j))) < 0" if k: "k < j" for k
      using le [OF k j(1)] user.cmp_zero_right [OF j(2), of "user_key (fst (es ! k))"] user.cmp_zero_trans [OF _ j(2), of "user_key (fst (es ! k))"]
      by linarith
    then show ?thesis by (auto simp: visible_def in_snapshot_def)
  qed
  show ?thesis
  proof
    assume "\<exists>k. (k, v) \<in> set (user_view c s es) \<and> Compare c k u = 0"
    then obtain j where j: "j < length es" "shown c s es j" "v = snd (es ! j)" "Compare c (user_key (fst (es ! j))) u = 0"
      by (auto simp: user_view_def)
    have "newest c u s es None = Some (es ! j)"
      by (rule newest_first [OF assms j(1)]) (use first [OF j(1,4)] j(2,4) in \<open>auto simp: shown_def visible_def in_snapshot_def\<close>)
    then show "get_result (newest c u s es None) = (OK, Some v)" using j(2,3) by (simp add: get_result_def shown_def)
  next
    assume r: "get_result (newest c u s es None) = (OK, Some v)"
    then obtain e where e: "newest c u s es None = Some e" "ikey_type (fst e) = kTypeValue" "v = snd e"
      by (auto simp: get_result_def split: option.splits ValueType.splits)
    have "e \<in> set es" "visible c u s e" using newest_in [OF e(1)] by auto
    then obtain i where i: "i < length es \<and> visible c u s (es ! i)" by (auto simp: in_set_conv_nth)
    define j where "j = (LEAST j. j < length es \<and> visible c u s (es ! j))"
    have j12: "j < length es \<and> visible c u s (es ! j)" unfolding j_def by (rule LeastI [of _ i]) (rule i)
    have j3: "\<not> visible c u s (es ! k)" if "k < j" for k
      using not_less_Least [of k "\<lambda>j. j < length es \<and> visible c u s (es ! j)"] that j12 by (simp add: j_def)
    have j: "j < length es" "visible c u s (es ! j)" "\<forall>k < j. \<not> visible c u s (es ! k)" using j12 j3 by auto
    have "e = es ! j" using newest_first [OF assms j] e(1) by simp
    then have "shown c s es j" using first [OF j(1)] j e(2) by (auto simp: shown_def visible_def in_snapshot_def)
    then show "\<exists>k. (k, v) \<in> set (user_view c s es) \<and> Compare c k u = 0"
      using j e(3) \<open>e = es ! j\<close> by (auto simp: user_view_def visible_def intro!: image_eqI [of _ _ j])
  qed
qed

end

text \<open>Over the blocks of a table of internal keys, sampling reads of a database.\<close>

interpretation db_blocks: db_iter BytewiseComparator BlockIter "block_cursor (InternalKeyComparator BytewiseComparator)" DBImpl_RecordReadSample
proof -
  have "iterator (InternalKey_Compare BytewiseComparator) BlockIter (block_cursor (InternalKeyComparator BytewiseComparator))"
    using block_iterator [of "InternalKeyComparator BytewiseComparator"] bytewise_order.internal_three_way by simp
  then show "db_iter BytewiseComparator BlockIter (block_cursor (InternalKeyComparator BytewiseComparator))"
    by (intro db_iter.intro bytewise_order.internal_order_axioms)
qed

text \<open>A sample: a block with one entry.\<close>

definition sample_block :: Block where
  "sample_block = Block_new (fst (BlockBuilder_Finish (fold (\<lambda>(k, v). BlockBuilder_Add k v) (mem_kvs [sample_put]) (BlockBuilder_new 2))))"

lemma sample_block_cursor:
  "\<exists>internal. Block_NewIterator (InternalKeyComparator BytewiseComparator) sample_block = Inr internal \<and>
     block_cursor (InternalKeyComparator BytewiseComparator) internal (mem_kvs [sample_put]) 1"
proof -
  let ?kvs = "mem_kvs [sample_put]"
  let ?data = "fst (BlockBuilder_Finish (fold (\<lambda>(k, v). BlockBuilder_Add k v) ?kvs (BlockBuilder_new 2)))"
  have kv: "?kvs = [(entry_ikey sample_put, [7])]" by (simp add: mem_kvs_def sample_put_def)
  have len: "length (entry_ikey sample_put) = 9" by (simp add: length_entry_ikey sample_put_def)
  have small: "length ?data < 2 ^ 32" unfolding kv
    by (simp add: CurrentSizeEstimate_Finish CurrentSizeEstimate_def BlockBuilder_Add_def BlockBuilder_new_def
        PutVarint32_def EncodeVarint32_def common_prefix.simps len)
  have "length ?kvs = 1" by (simp add: mem_kvs_def)
  then show ?thesis unfolding sample_block_def
    using built_block [of "InternalKeyComparator BytewiseComparator" ?kvs 2 ?data] small kv by (auto simp: sorted_kvs_def)
qed

section \<open>Properties\<close>

text \<open>
  C7: An iterator of a database at a snapshot, over any iterator on the sorted internal entries, is a cursor over the user keys that
  have a value at the snapshot, each with the value a lookup finds: seeks, steps in both directions and changes of direction
  move it as the contract of iterators says, the status stays OK, and every call returns, the sampling of reads included.
\<close>

theorem db_iterator_view:
  assumes "three_way (Compare c)" "iterator (InternalKey_Compare c) I cursor" "cursor internal (mem_kvs es) j"
    and "\<forall>e \<in> set es. sequence (fst e) \<le> kMaxSequenceNumber" "s \<le> kMaxSequenceNumber"
  shows "\<exists>kvs user_cursor. iterator (Compare c) (DBIterator c I sample) user_cursor \<and>
    user_cursor (Some (NewDBIterator db internal s seed)) kvs (length kvs) \<and>
    (\<forall>u v. (\<exists>k. (k, v) \<in> set kvs \<and> Compare c k u = 0) \<longleftrightarrow> get_result (newest c u s es None) = (OK, Some v)) \<and>
    it_collect (DBIterator c I sample) (length kvs) (DBIter_SeekToFirst c I sample (NewDBIterator db internal s seed)) = kvs"
proof -
  have d: "db_iter c I cursor" using assms(1,2) by (intro db_iter.intro internal_order.intro)
  have "sorted_kvs (InternalKey_Compare c) (mem_kvs es)" using iterator.cursor_sorted [OF assms(2,3)] .
  then have es: "sorted_wrt (\<lambda>a b. entry_cmp c a b < 0) es" by (simp add: sorted_kvs_def mem_kvs_def sorted_wrt_map entry_cmp_def)
  note it = db_iter.user_iterator [OF d, of sample] db_iter.new_user_cursor [OF d assms(3-5), of db seed]
  have "it_collect (DBIterator c I sample) (length (user_view c s es)) (DBIter_SeekToFirst c I sample (NewDBIterator db internal s seed)) = user_view c s es"
    using iterator.scan_all [OF it] by (simp add: DBIterator_def)
  then show ?thesis using it db_iter.view_lookup [OF d es assms(4)] by blast
qed

theorem db_iterator_view_witness:
  "\<exists>internal kvs. Block_NewIterator (InternalKeyComparator BytewiseComparator) sample_block = Inr internal \<and>
     it_collect (DBIterator BytewiseComparator BlockIter (\<lambda>k n. n + 1)) (length kvs)
       (DBIter_SeekToFirst BytewiseComparator BlockIter (\<lambda>k n. n + 1) (NewDBIterator (0 :: nat) internal 9 301)) = kvs \<and>
     (\<exists>k. (k, [7]) \<in> set kvs \<and> Compare BytewiseComparator k [1] = 0)"
proof -
  obtain internal where b: "Block_NewIterator (InternalKeyComparator BytewiseComparator) sample_block = Inr internal"
    "block_cursor (InternalKeyComparator BytewiseComparator) internal (mem_kvs [sample_put]) 1"
    using sample_block_cursor by blast
  have seqs: "\<forall>e \<in> set [sample_put]. sequence (fst e) \<le> kMaxSequenceNumber" "(9 :: SequenceNumber) \<le> kMaxSequenceNumber"
    by (simp_all add: sample_put_def seq_le_max)
  obtain kvs :: "kv list" where kvs: "\<forall>u v. (\<exists>k. (k, v) \<in> set kvs \<and> Compare BytewiseComparator k u = 0) \<longleftrightarrow>
      get_result (newest BytewiseComparator u 9 [sample_put] None) = (OK, Some v)"
    "it_collect (DBIterator BytewiseComparator BlockIter (\<lambda>k n. n + 1)) (length kvs)
       (DBIter_SeekToFirst BytewiseComparator BlockIter (\<lambda>k n. n + 1) (NewDBIterator (0 :: nat) internal 9 301)) = kvs"
    using db_iterator_view [OF bytewise.three_way_axioms db_blocks.entries.iterator_axioms b(2) seqs, of "\<lambda>k n. n + 1" 0 301] by blast
  have "get_result (newest BytewiseComparator [1] 9 [sample_put] None) = (OK, Some [7])"
    by (simp add: sample_put_def visible_def get_result_def)
  then show ?thesis using b(1) kvs by blast
qed

end
