(* ===== verification/VersionIters.thy ===== *)
theory VersionIters
  imports DBIter CompactionRun Merger
begin

text \<open>
  Iterators over whole versions and over the inputs of compactions (\<open>db/version_set.cc\<close>), and the internal iterator
  of a database (\<open>db/db_impl.cc\<close>).  Iterators over single tables come from the table cache: \<open>T\<close> is their class and
  \<open>new_iter\<close> is \<open>TableCache::NewIterator\<close>.  Dynamic dispatch between classes of iterators is \<^const>\<open>either_iterator\<close>.
\<close>

section \<open>Definitions\<close>

type_synonym 't table_iterators = "ReadOptions \<Rightarrow> u64 \<Rightarrow> u64 \<Rightarrow> 't"

text \<open>\<open>LevelFileNumIterator\<close> with its list of files in the state.\<close>

definition LevelFiles :: "Comparator \<Rightarrow> (FileMetaData list \<times> nat) Iterator" where
  "LevelFiles icmp =
     \<lparr> it_Valid = (\<lambda>(fs, i). it_Valid (LevelFileNumIterator icmp fs) i),
       it_SeekToFirst = (\<lambda>(fs, i). (fs, it_SeekToFirst (LevelFileNumIterator icmp fs) i)),
       it_SeekToLast = (\<lambda>(fs, i). (fs, it_SeekToLast (LevelFileNumIterator icmp fs) i)),
       it_Seek = (\<lambda>target (fs, i). (fs, it_Seek (LevelFileNumIterator icmp fs) target i)),
       it_Next = (\<lambda>(fs, i). (fs, it_Next (LevelFileNumIterator icmp fs) i)),
       it_Prev = (\<lambda>(fs, i). (fs, it_Prev (LevelFileNumIterator icmp fs) i)),
       it_key = (\<lambda>(fs, i). it_key (LevelFileNumIterator icmp fs) i),
       it_value = (\<lambda>(fs, i). it_value (LevelFileNumIterator icmp fs) i),
       it_status = (\<lambda>(fs, i). it_status (LevelFileNumIterator icmp fs) i) \<rparr>"

definition GetFileIterator :: "'t table_iterators \<Rightarrow> ReadOptions \<Rightarrow> slice \<Rightarrow> 't + Status" where
  "GetFileIterator new_iter options val =
     (if length val \<noteq> 16 then Inr (NewErrorIterator (Corruption (ascii ''FileReader invoked with unexpected value'') []))
      else Inl (new_iter options (DecodeFixed64 val) (DecodeFixed64 (drop 8 val))))"

text \<open>The class of concatenating iterators, and a new one over a list of files.\<close>

type_synonym 't concat_iter = "(FileMetaData list \<times> nat, 't + Status) TwoLevelIter option"

definition ConcatenatingIterator :: "Comparator \<Rightarrow> 't Iterator \<Rightarrow> 't table_iterators \<Rightarrow> ReadOptions \<Rightarrow> 't concat_iter Iterator" where
  "ConcatenatingIterator icmp T new_iter options =
     TwoLevelIterator (LevelFiles icmp) (either_iterator T EmptyIterator) (GetFileIterator new_iter options)"

definition concat_files :: "Comparator \<Rightarrow> FileMetaData list \<Rightarrow> 't concat_iter" where
  "concat_files icmp files = NewTwoLevelIterator (LevelFiles icmp) (files, LevelFileNumIterator_new files)"

definition NewConcatenatingIterator :: "Comparator \<Rightarrow> Version \<Rightarrow> nat \<Rightarrow> 't concat_iter" where
  "NewConcatenatingIterator icmp v level = concat_files icmp (v_files v ! level)"

text \<open>An iterator over one table or over the tables of a level.\<close>

definition TablesIterator ::
    "Comparator \<Rightarrow> 't Iterator \<Rightarrow> 't table_iterators \<Rightarrow> ReadOptions \<Rightarrow> ('t + 't concat_iter) Iterator" where
  "TablesIterator icmp T new_iter options = either_iterator T (ConcatenatingIterator icmp T new_iter options)"

definition open_files :: "'t table_iterators \<Rightarrow> ReadOptions \<Rightarrow> FileMetaData list \<Rightarrow> ('t + 't concat_iter) list" where
  "open_files new_iter options files = map (\<lambda>f. Inl (new_iter options (f_number f) (f_file_size f))) files"

definition AddIterators :: "Comparator \<Rightarrow> 't table_iterators \<Rightarrow> ReadOptions \<Rightarrow> Version \<Rightarrow> ('t + 't concat_iter) list" where
  "AddIterators icmp new_iter options v =
     open_files new_iter options (v_files v ! 0) @
     map (\<lambda>level. Inr (NewConcatenatingIterator icmp v level)) (filter (\<lambda>level. v_files v ! level \<noteq> []) [1 ..< kNumLevels])"

text \<open>The class of what \<open>NewMergingIterator\<close> returns.\<close>

definition merged_update :: "(Status \<Rightarrow> Status) \<Rightarrow> ('s \<Rightarrow> 's) \<Rightarrow>
    ('s IteratorWrapper MergingIter \<Rightarrow> 's IteratorWrapper MergingIter) \<Rightarrow> 's MergedIter \<Rightarrow> 's MergedIter" where
  "merged_update f g h m = (case m of MergedNone s \<Rightarrow> MergedNone (f s) | MergedOne s \<Rightarrow> MergedOne (g s) | MergedMany s \<Rightarrow> MergedMany (h s))"

definition MergedIterator :: "(slice \<Rightarrow> slice \<Rightarrow> int) \<Rightarrow> 's Iterator \<Rightarrow> 's MergedIter Iterator" where
  "MergedIterator compare I =
     (let E = EmptyIterator; M = MergingIterator compare I
      in \<lparr> it_Valid = case_MergedIter (it_Valid E) (it_Valid I) (it_Valid M),
           it_SeekToFirst = merged_update (it_SeekToFirst E) (it_SeekToFirst I) (it_SeekToFirst M),
           it_SeekToLast = merged_update (it_SeekToLast E) (it_SeekToLast I) (it_SeekToLast M),
           it_Seek = (\<lambda>t. merged_update (it_Seek E t) (it_Seek I t) (it_Seek M t)),
           it_Next = merged_update (it_Next E) (it_Next I) (it_Next M),
           it_Prev = merged_update (it_Prev E) (it_Prev I) (it_Prev M),
           it_key = case_MergedIter (it_key E) (it_key I) (it_key M),
           it_value = case_MergedIter (it_value E) (it_value I) (it_value M),
           it_status = case_MergedIter (it_status E) (it_status I) (it_status M) \<rparr>)"

definition input_iterators :: "Comparator \<Rightarrow> 't table_iterators \<Rightarrow> ReadOptions \<Rightarrow> nat \<Rightarrow> FileMetaData list \<Rightarrow> ('t + 't concat_iter) list" where
  "input_iterators icmp new_iter options level files =
     (if files = [] then []
      else if level = 0 then open_files new_iter options files
      else [Inr (concat_files icmp files)])"

definition input_options :: "Options \<Rightarrow> ReadOptions" where
  "input_options opts = ReadOptions_new\<lparr> verify_checksums := paranoid_checks opts, fill_cache := False \<rparr>"

definition MakeInputIterator ::
    "Comparator \<Rightarrow> Options \<Rightarrow> 't Iterator \<Rightarrow> 't table_iterators \<Rightarrow> Compaction \<Rightarrow> ('t + 't concat_iter) MergedIter" where
  "MakeInputIterator icmp opts T new_iter cp =
     (let options = input_options opts
      in NewMergingIterator (TablesIterator icmp T new_iter options)
           (input_iterators icmp new_iter options (cp_level cp) (cp_inputs0 cp) @
            input_iterators icmp new_iter options (cp_level cp + 1) (cp_inputs1 cp)))"

text \<open>
  The internal iterator of a database: its state, the last sequence number and the seed, and the database with the next seed.  The
  references on memtables and version, which its cleanup drops, are left out.
\<close>

type_synonym 't internal_iter = "((MemTable \<times> sl_iter) option + 't + 't concat_iter) MergedIter"

definition NewInternalIterator ::
    "'t Iterator \<Rightarrow> 't table_iterators \<Rightarrow> ReadOptions \<Rightarrow> 'w DBImpl \<Rightarrow> 't internal_iter \<times> SequenceNumber \<times> u32 \<times> 'w DBImpl" where
  "NewInternalIterator T new_iter options db =
     (let icmp = InternalKeyComparator (db_user_comparator db);
          children = Inl (MemTable_NewIterator (the (db_mem db))) #
            (case db_imm db of None \<Rightarrow> [] | Some imm \<Rightarrow> [Inl (MemTable_NewIterator imm)]) @
            map Inr (AddIterators icmp new_iter options (vs_current (db_versions db)));
          internal_iter = NewMergingIterator (either_iterator MemTableIterator (TablesIterator icmp T new_iter options)) children;
          seed = db_seed db + 1
      in (internal_iter, vs_last_sequence (db_versions db), seed, db\<lparr> db_seed := seed \<rparr>))"

definition DBImpl_NewIterator ::
    "'t Iterator \<Rightarrow> 't table_iterators \<Rightarrow> ReadOptions \<Rightarrow> SnapshotImpl option \<Rightarrow> 'w DBImpl \<Rightarrow> ('t internal_iter, 'w DBImpl) DBIter \<times> 'w DBImpl" where
  "DBImpl_NewIterator T new_iter options snapshot db =
     (case NewInternalIterator T new_iter options db of
        (iter, latest_snapshot, seed, db) \<Rightarrow>
          (NewDBIterator db iter (case snapshot of Some s \<Rightarrow> sequence_number s | None \<Rightarrow> latest_snapshot) seed, db))"

section \<open>Merged iterators\<close>

definition merged_cursor ::
    "(slice \<Rightarrow> slice \<Rightarrow> int) \<Rightarrow> 's Iterator \<Rightarrow> ('s \<Rightarrow> kv list \<Rightarrow> nat \<Rightarrow> bool) \<Rightarrow> 's MergedIter \<Rightarrow> kv list \<Rightarrow> nat \<Rightarrow> bool" where
  "merged_cursor cmp I cursor m kvs i =
     (case m of
        MergedNone s \<Rightarrow> s = OK \<and> kvs = [] \<and> i = 0
      | MergedOne s \<Rightarrow> cursor s kvs i
      | MergedMany s \<Rightarrow> merge_cursor cmp (wrapper_cursor I cursor) s kvs i)"

context iterator
begin

lemma merged_iterator: "iterator cmp (MergedIterator cmp I) (merged_cursor cmp I cursor)"
proof -
  let ?c = "merged_cursor cmp I cursor" and ?M = "MergedIterator cmp I"
  note E = empty_iterator [OF three_way_axioms] and M = MergingIterator_iterator
  note sel = merged_cursor_def MergedIterator_def merged_update_def Let_def
  show ?thesis
  proof (intro iterator.intro iterator_axioms.intro three_way_axioms, goal_cases)
    case (1 s kvs i)
    then show ?case using cursor_sorted iterator.cursor_sorted [OF M] by (cases s) (auto simp: sel sorted_kvs_def)
  next
    case (2 s kvs i)
    then show ?case using cursor_le iterator.cursor_le [OF M] by (cases s) (auto simp: sel)
  next
    case (3 s kvs i)
    then show ?case using cursor_Valid iterator.cursor_Valid [OF M] iterator.cursor_Valid [OF E] by (cases s) (auto simp: sel)
  next
    case (4 s kvs i)
    then show ?case using cursor_entry iterator.cursor_entry [OF M] by (cases s) (auto simp: sel)
  next
    case (5 s kvs i)
    then show ?case using cursor_SeekToFirst iterator.cursor_SeekToFirst [OF M] iterator.cursor_SeekToFirst [OF E] by (cases s) (auto simp: sel)
  next
    case (6 s kvs i)
    then show ?case using cursor_SeekToLast [of _ kvs] iterator.cursor_SeekToLast [OF M, of _ kvs] iterator.cursor_SeekToLast [OF E]
      by (cases s) (auto simp: sel)
  next
    case (7 s kvs i t)
    then show ?case using cursor_Seek [of _ kvs _ t] iterator.cursor_Seek [OF M, of _ kvs _ t] iterator.cursor_Seek [OF E, of _ kvs _ t]
      by (cases s) (auto simp: sel)
  next
    case (8 s kvs i)
    then show ?case using cursor_Next [of _ kvs i] iterator.cursor_Next [OF M, of _ kvs i] by (cases s) (auto simp: sel)
  next
    case (9 s kvs i)
    then show ?case using cursor_Prev [of _ kvs i] iterator.cursor_Prev [OF M, of _ kvs i] by (cases s) (auto simp: sel)
  next
    case (10 s kvs i)
    then show ?case using cursor_status iterator.cursor_status [OF M] iterator.cursor_status [OF E] by (cases s) (auto simp: sel)
  qed
qed

lemma new_merged_cursor:
  assumes "merge_of cmp kvs kvss" "length children = length kvss" "\<forall>l < length kvss. \<exists>p. cursor (children ! l) (kvss ! l) p"
  shows "\<exists>i. merged_cursor cmp I cursor (NewMergingIterator I children) kvs i"
proof (cases children)
  case Nil
  then show ?thesis using assms(1,2) by (simp add: merged_cursor_def NewMergingIterator_def NewEmptyIterator_def merge_of_def)
next
  case (Cons a as)
  show ?thesis
  proof (cases as)
    case Nil
    then obtain xs where xs: "kvss = [xs]" "\<exists>p. cursor a xs p" using assms(2,3) Cons by (cases kvss) auto
    have "kvs = xs"
    proof (rule sorted_wrt_unique)
      show "sorted_wrt (\<lambda>a b. cmp (fst a) (fst b) < 0) kvs" "sorted_wrt (\<lambda>a b. cmp (fst a) (fst b) < 0) xs" "set kvs = set xs"
        using assms(1) xs(1) by (auto simp: merge_of_def sorted_kvs_def)
      show "\<not> cmp (fst b) (fst a) < 0" if "cmp (fst a) (fst b) < 0" for a b :: kv using that cmp_neg [of "fst a" "fst b"] by simp
    qed simp
    then show ?thesis using xs Nil Cons by (auto simp: merged_cursor_def NewMergingIterator_def)
  next
    case (Cons b bs)
    then show ?thesis using MergingIterator_new_cursor [OF assms] \<open>children = a # as\<close> by (auto simp: merged_cursor_def NewMergingIterator_def)
  qed
qed

end

section \<open>Concatenating iterators\<close>

definition level_files_cursor :: "(slice \<Rightarrow> slice \<Rightarrow> int) \<Rightarrow> FileMetaData list \<times> nat \<Rightarrow> kv list \<Rightarrow> nat \<Rightarrow> bool" where
  "level_files_cursor cmp st kvs j = (case st of (fs, i) \<Rightarrow> level_cursor cmp fs i kvs j)"

lemma level_files_iterator:
  assumes "three_way (Compare icmp)"
  shows "iterator (Compare icmp) (LevelFiles icmp) (level_files_cursor (Compare icmp))"
  using iterator.cursor_laws [OF level_iterator [OF assms]] iterator.cursor_Prev_0 [OF level_iterator [OF assms]]
    iterator.cursor_Prev_Suc [OF level_iterator [OF assms]] assms
  by (intro iterator.intro iterator_axioms.intro) (auto simp: LevelFiles_def level_files_cursor_def)

text \<open>
  What the table cache promises: the iterator it opens for a file is a cursor over the entries of the file, which lie between the bounds in
  the metadata.
\<close>

definition table_entries :: "(u64 \<Rightarrow> u64 \<Rightarrow> mem_entry list) \<Rightarrow> FileMetaData \<Rightarrow> mem_entry list" where
  "table_entries entries f = entries (f_number f) (f_file_size f)"

definition table_opens ::
    "Comparator \<Rightarrow> ('t \<Rightarrow> kv list \<Rightarrow> nat \<Rightarrow> bool) \<Rightarrow> 't table_iterators \<Rightarrow> (u64 \<Rightarrow> u64 \<Rightarrow> mem_entry list) \<Rightarrow> ReadOptions \<Rightarrow> FileMetaData \<Rightarrow> bool" where
  "table_opens c ct new_iter entries options f \<longleftrightarrow>
     (\<exists>p. ct (new_iter options (f_number f) (f_file_size f)) (mem_kvs (table_entries entries f)) p) \<and>
     (\<forall>e \<in> set (table_entries entries f). sequence (fst e) \<le> kMaxSequenceNumber \<and>
        InternalKey_Compare c (f_smallest f) (entry_ikey e) \<le> 0 \<and> InternalKey_Compare c (entry_ikey e) (f_largest f) \<le> 0)"

locale table_iters = tables: iterator "InternalKey_Compare c" T ct + internal_order c
  for c :: Comparator and T :: "'t Iterator" and ct +
  fixes new_iter :: "'t table_iterators" and entries :: "u64 \<Rightarrow> u64 \<Rightarrow> mem_entry list"
begin

abbreviation "file_entries \<equiv> table_entries entries"
abbreviation "opens \<equiv> table_opens c ct new_iter entries"

definition file_content :: "slice \<Rightarrow> kv list" where
  "file_content val = mem_kvs (entries (DecodeFixed64 val) (DecodeFixed64 (drop 8 val)))"

lemma file_value_parts: "length (file_value f) = 16" "DecodeFixed64 (file_value f) = f_number f" "DecodeFixed64 (drop 8 (file_value f)) = f_file_size f"
  using DecodeFixed64_append [of "f_file_size f" "[]"] by (simp_all add: file_value_def DecodeFixed64_append)

lemma file_content_value [simp]: "file_content (file_value f) = mem_kvs (file_entries f)"
  by (simp add: file_content_def file_value_parts table_entries_def)

lemma sorted_concat:
  assumes "\<forall>xs \<in> set xss. sorted_kvs (InternalKey_Compare c) xs"
    and "sorted_wrt (\<lambda>xs ys. \<forall>x \<in> set xs. \<forall>y \<in> set ys. InternalKey_Compare c (fst x) (fst y) < 0) xss"
  shows "sorted_kvs (InternalKey_Compare c) (concat xss)"
  using assms by (induction xss) (auto simp: sorted_kvs_def sorted_wrt_append)

lemma across_files:
  assumes "level_sorted c files" "\<forall>f \<in> set files. opens options f" "j < l" "l < length files"
    and "e \<in> set (file_entries (files ! j))" "e' \<in> set (file_entries (files ! l))"
  shows "InternalKey_Compare c (f_largest (files ! j)) (entry_ikey e') < 0" "InternalKey_Compare c (entry_ikey e) (entry_ikey e') < 0"
proof -
  have "InternalKey_Compare c (f_largest (files ! j)) (f_smallest (files ! l)) < 0"
    using assms(1,3,4) by (simp add: level_sorted_def sorted_wrt_iff_nth_less)
  moreover have "InternalKey_Compare c (f_smallest (files ! l)) (entry_ikey e') \<le> 0" "InternalKey_Compare c (entry_ikey e) (f_largest (files ! j)) \<le> 0"
    using assms(2-6) by (auto simp: table_opens_def)
  ultimately show "InternalKey_Compare c (f_largest (files ! j)) (entry_ikey e') < 0" "InternalKey_Compare c (entry_ikey e) (entry_ikey e') < 0"
    using tables.cmp_less_le_trans tables.cmp_le_less_trans by blast+
qed

lemma files_layout:
  assumes "level_sorted c files" "\<forall>f \<in> set files. opens options f"
  shows "tl_layout (InternalKey_Compare c) file_content (file_kvs files) (concat (map (\<lambda>f. mem_kvs (file_entries f)) files))"
proof -
  have b: "blocks_of file_content (file_kvs files) = map (\<lambda>f. mem_kvs (file_entries f)) files"
    by (simp add: blocks_of_def file_kvs_def comp_def)
  have "sorted_kvs (InternalKey_Compare c) (concat (map (\<lambda>f. mem_kvs (file_entries f)) files))"
  proof (rule sorted_concat)
    show "\<forall>xs \<in> set (map (\<lambda>f. mem_kvs (file_entries f)) files). sorted_kvs (InternalKey_Compare c) xs"
      using assms(2) tables.cursor_sorted by (auto simp: table_opens_def)
    show "sorted_wrt (\<lambda>xs ys. \<forall>x \<in> set xs. \<forall>y \<in> set ys. InternalKey_Compare c (fst x) (fst y) < 0) (map (\<lambda>f. mem_kvs (file_entries f)) files)"
      using across_files(2) [OF assms] by (auto simp: sorted_wrt_iff_nth_less mem_kvs_def)
  qed
  moreover have "InternalKey_Compare c (fst e) (fst (file_kvs files ! j)) \<le> 0"
    if "j < length (file_kvs files)" "e \<in> set (file_content (snd (file_kvs files ! j)))" for j e
    using that assms(2) by (auto simp: file_kvs_def mem_kvs_def table_opens_def)
  moreover have "InternalKey_Compare c (fst (file_kvs files ! j)) (fst e) < 0"
    if jl: "j < l" "l < length (file_kvs files)" "e \<in> set (file_content (snd (file_kvs files ! l)))" for j l e
  proof -
    obtain x where x: "x \<in> set (file_entries (files ! l))" "fst e = entry_ikey x" using jl(2,3) by (auto simp: file_kvs_def mem_kvs_def)
    have "InternalKey_Compare c (f_largest (files ! j)) (f_smallest (files ! l)) < 0"
      using assms(1) jl(1,2) by (simp add: level_sorted_def sorted_wrt_iff_nth_less)
    moreover have "InternalKey_Compare c (f_smallest (files ! l)) (entry_ikey x) \<le> 0" using assms(2) jl(2) x(1) by (auto simp: table_opens_def)
    ultimately show ?thesis using tables.cmp_less_le_trans jl(1,2) x(2) by (auto simp: file_kvs_def)
  qed
  ultimately show ?thesis using level_sorted_kvs [OF assms(1)] unfolding tl_layout_def b by blast
qed

abbreviation concat_cursor :: "ReadOptions \<Rightarrow> 't concat_iter \<Rightarrow> kv list \<Rightarrow> nat \<Rightarrow> bool" where
  "concat_cursor options \<equiv> tl_cursor (InternalKey_Compare c) (LevelFiles (InternalKeyComparator c)) (level_files_cursor (InternalKey_Compare c))
     (either_iterator T EmptyIterator) (case_sum ct (\<lambda>s kvs i. s = OK \<and> kvs = [] \<and> i = 0)) (GetFileIterator new_iter options) file_content"

lemma concat_two_level:
  "two_level (InternalKey_Compare c) (LevelFiles (InternalKeyComparator c)) (level_files_cursor (InternalKey_Compare c))
     (either_iterator T EmptyIterator) (case_sum ct (\<lambda>s kvs i. s = OK \<and> kvs = [] \<and> i = 0))"
proof -
  have "iterator (InternalKey_Compare c) (LevelFiles (InternalKeyComparator c)) (level_files_cursor (InternalKey_Compare c))"
    using level_files_iterator [of "InternalKeyComparator c"] internal_three_way by simp
  then show ?thesis by (intro two_level.intro either_iterator tables.iterator_axioms empty_iterator internal_three_way)
qed

lemma concat_iterator: "iterator (InternalKey_Compare c) (ConcatenatingIterator (InternalKeyComparator c) T new_iter options) (concat_cursor options)"
  unfolding ConcatenatingIterator_def by (rule two_level.whole_iterator [OF concat_two_level])

lemma concat_files_cursor:
  assumes "level_sorted c files" "\<forall>f \<in> set files. opens options f"
  shows "concat_cursor options (concat_files (InternalKeyComparator c) files) (concat (map (\<lambda>f. mem_kvs (file_entries f)) files))
    (length (concat (map (\<lambda>f. mem_kvs (file_entries f)) files)))"
  unfolding concat_files_def
proof (rule two_level.new_cursor [OF concat_two_level files_layout [OF assms]])
  show "level_files_cursor (InternalKey_Compare c) (files, LevelFileNumIterator_new files) (file_kvs files) (length files)"
    using level_sorted_kvs [OF assms(1)] by (simp add: level_files_cursor_def level_cursor_def LevelFileNumIterator_new_def)
  show "\<forall>e \<in> set (file_kvs files). \<exists>p. (case GetFileIterator new_iter options (snd e) of Inl s \<Rightarrow> ct s | Inr s \<Rightarrow> \<lambda>kvs i. s = OK \<and> kvs = [] \<and> i = 0)
      (file_content (snd e)) p"
    using assms(2) by (auto simp: file_kvs_def GetFileIterator_def file_value_parts table_opens_def)
qed

section \<open>The inputs of a compaction\<close>

abbreviation tables_cursor :: "ReadOptions \<Rightarrow> 't + 't concat_iter \<Rightarrow> kv list \<Rightarrow> nat \<Rightarrow> bool" where
  "tables_cursor options \<equiv> case_sum ct (concat_cursor options)"

lemma tables_iterator: "iterator (InternalKey_Compare c) (TablesIterator (InternalKeyComparator c) T new_iter options) (tables_cursor options)"
  unfolding TablesIterator_def by (rule either_iterator [OF tables.iterator_axioms concat_iterator])

definition input_parts :: "nat \<Rightarrow> FileMetaData list \<Rightarrow> FileMetaData list list" where
  "input_parts level files = (if files = [] then [] else if level = 0 then map (\<lambda>f. [f]) files else [files])"

definition part_kvs :: "FileMetaData list \<Rightarrow> kv list" where
  "part_kvs files = concat (map (\<lambda>f. mem_kvs (file_entries f)) files)"

lemma concat_input_parts: "concat (input_parts level files) = files"
  by (simp add: input_parts_def)

lemma input_cursors:
  assumes "0 < level \<Longrightarrow> level_sorted c files" "\<forall>f \<in> set files. opens options f"
  shows "list_all2 (\<lambda>child part. \<exists>p. tables_cursor options child (part_kvs part) p)
    (input_iterators (InternalKeyComparator c) new_iter options level files) (input_parts level files)"
proof -
  have "list_all2 (\<lambda>child part. \<exists>p. tables_cursor options child (part_kvs part) p) (open_files new_iter options files) (map (\<lambda>f. [f]) files)"
    using assms(2) by (induction files) (auto simp: open_files_def part_kvs_def table_opens_def)
  moreover have "\<exists>p. concat_cursor options (concat_files (InternalKeyComparator c) files) (part_kvs files) p" if "0 < level"
    using concat_files_cursor [OF assms(1) [OF that] assms(2)] unfolding part_kvs_def by blast
  ultimately show ?thesis by (simp add: input_iterators_def input_parts_def)
qed

lemma sorted_wrt_parts:
  "sorted_wrt R (concat xss) \<Longrightarrow> l < j \<Longrightarrow> j < length xss \<Longrightarrow> x \<in> set (xss ! l) \<Longrightarrow> y \<in> set (xss ! j) \<Longrightarrow> R x y"
proof (induction xss arbitrary: l j)
  case (Cons xs xss)
  then show ?case by (cases l; cases j) (fastforce simp: sorted_wrt_append dest: nth_mem)+
qed simp

lemma different_keys:
  assumes "sequence (fst a) \<le> kMaxSequenceNumber" "sequence (fst b) \<le> kMaxSequenceNumber" "sequence (fst a) \<noteq> sequence (fst b)"
  shows "InternalKey_Compare c (entry_ikey a) (entry_ikey b) \<noteq> 0"
proof
  assume z: "InternalKey_Compare c (entry_ikey a) (entry_ikey b) = 0"
  have "InternalKey_Compare c (entry_ikey b) (entry_ikey a) = 0" using z tables.cmp_zero_sym by blast
  moreover have "Compare c (user_key (fst a)) (user_key (fst b)) = 0" "Compare c (user_key (fst b)) (user_key (fst a)) = 0"
    using z calculation unfolding InternalKey_Compare_iff entry_ikey_def ExtractUserKey_Append by auto
  ultimately show False using z InternalKey_Compare_packed [OF assms(1,2), of c] InternalKey_Compare_packed [OF assms(2,1), of c] assms(3)
    unfolding entry_ikey_def by (metis less_irrefl linorder_neqE)
qed

lemma parts_merge:
  assumes "sorted_wrt (\<lambda>a b. entry_cmp c a b < 0) es" "set es = (\<Union>f \<in> set (concat parts). set (file_entries f))"
    and "\<forall>part \<in> set parts. sorted_kvs (InternalKey_Compare c) (part_kvs part)"
    and "sorted_wrt (\<lambda>f g. \<forall>a \<in> set (file_entries f). \<forall>b \<in> set (file_entries g). sequence (fst a) \<noteq> sequence (fst b)) (concat parts)"
    and "\<forall>e \<in> set es. sequence (fst e) \<le> kMaxSequenceNumber"
  shows "merge_of (InternalKey_Compare c) (mem_kvs es) (map part_kvs parts)"
proof -
  have mem: "e \<in> set (part_kvs part) \<longleftrightarrow> (\<exists>f \<in> set part. \<exists>x \<in> set (file_entries f). e = (entry_ikey x, snd x))" for e part
    by (auto simp: part_kvs_def mem_kvs_def)
  have "InternalKey_Compare c (fst e) (fst e') \<noteq> 0" if lj: "l < length parts" "j < length parts" "l \<noteq> j"
    and e: "e \<in> set (part_kvs (parts ! l))" "e' \<in> set (part_kvs (parts ! j))" for l j e e'
  proof -
    obtain f x where f: "f \<in> set (parts ! l)" "x \<in> set (file_entries f)" "e = (entry_ikey x, snd x)" using e(1) mem by auto
    obtain g y where g: "g \<in> set (parts ! j)" "y \<in> set (file_entries g)" "e' = (entry_ikey y, snd y)" using e(2) mem by auto
    have "sequence (fst x) \<noteq> sequence (fst y)"
      using sorted_wrt_parts [OF assms(4), of l j f g] sorted_wrt_parts [OF assms(4), of j l g f] lj f g by (metis linorder_neqE_nat)
    moreover have "x \<in> set es" "y \<in> set es" using assms(2) f(1,2) g(1,2) nth_mem [OF lj(1)] nth_mem [OF lj(2)] by auto
    ultimately show ?thesis using different_keys assms(5) f(3) g(3) by simp
  qed
  moreover have "set (mem_kvs es) = \<Union> (set ` set (map part_kvs parts))"
  proof (rule set_eqI)
    fix x
    have "x \<in> set (mem_kvs es) \<longleftrightarrow> (\<exists>y \<in> set es. x = (entry_ikey y, snd y))" by (auto simp: mem_kvs_def)
    also have "\<dots> \<longleftrightarrow> (\<exists>part \<in> set parts. \<exists>f \<in> set part. \<exists>y \<in> set (file_entries f). x = (entry_ikey y, snd y))" unfolding assms(2) by simp
    finally show "x \<in> set (mem_kvs es) \<longleftrightarrow> x \<in> \<Union> (set ` set (map part_kvs parts))" by (simp add: mem)
  qed
  ultimately show ?thesis using assms(1,3) mem_kvs_sorted by (auto simp: merge_of_def)
qed

lemma input_merged:
  assumes "0 < cp_level cp \<longrightarrow> level_sorted c (cp_inputs0 cp)" "level_sorted c (cp_inputs1 cp)"
    and files: "files = cp_inputs0 cp @ cp_inputs1 cp" and "\<forall>f \<in> set files. opens (input_options opts) f"
    and "sorted_wrt (\<lambda>f g. \<forall>a \<in> set (file_entries f). \<forall>b \<in> set (file_entries g). sequence (fst a) \<noteq> sequence (fst b)) files"
    and "sorted_wrt (\<lambda>a b. entry_cmp c a b < 0) es" "set es = (\<Union>f \<in> set files. set (file_entries f))"
  shows "\<exists>i. merged_cursor (InternalKey_Compare c) (TablesIterator (InternalKeyComparator c) T new_iter (input_options opts))
    (tables_cursor (input_options opts)) (MakeInputIterator (InternalKeyComparator c) opts T new_iter cp) (mem_kvs es) i"
proof -
  let ?o = "input_options opts"
  define parts where "parts = input_parts (cp_level cp) (cp_inputs0 cp) @ input_parts (cp_level cp + 1) (cp_inputs1 cp)"
  define ch where "ch = input_iterators (InternalKeyComparator c) new_iter ?o (cp_level cp) (cp_inputs0 cp) @
    input_iterators (InternalKeyComparator c) new_iter ?o (cp_level cp + 1) (cp_inputs1 cp)"
  have cp: "concat parts = files" by (simp add: parts_def concat_input_parts files)
  have "list_all2 (\<lambda>child part. \<exists>p. tables_cursor ?o child (part_kvs part) p) ch parts"
    unfolding ch_def parts_def using assms(1,2,4) files by (intro list_all2_appendI input_cursors) auto
  then have cur: "length ch = length parts" "\<And>l. l < length parts \<Longrightarrow> \<exists>p. tables_cursor ?o (ch ! l) (part_kvs (parts ! l)) p"
    by (auto simp: list_all2_conv_all_nth)
  have "\<forall>part \<in> set parts. sorted_kvs (InternalKey_Compare c) (part_kvs part)"
    using cur(2) iterator.cursor_sorted [OF tables_iterator] by (metis in_set_conv_nth)
  moreover have "\<forall>e \<in> set es. sequence (fst e) \<le> kMaxSequenceNumber" using assms(4,7) by (auto simp: table_opens_def)
  ultimately have "merge_of (InternalKey_Compare c) (mem_kvs es) (map part_kvs parts)" using assms(5-7) cp by (intro parts_merge) auto
  then have "\<exists>i. merged_cursor (InternalKey_Compare c) (TablesIterator (InternalKeyComparator c) T new_iter ?o)
      (tables_cursor ?o) (NewMergingIterator (TablesIterator (InternalKeyComparator c) T new_iter ?o) ch) (mem_kvs es) i"
    using cur by (intro iterator.new_merged_cursor [OF tables_iterator]) auto
  then show ?thesis unfolding MakeInputIterator_def Let_def ch_def .
qed

lemma input_iterator:
  assumes I: "I = MergedIterator (InternalKey_Compare c) (TablesIterator (InternalKeyComparator c) T new_iter (input_options opts))"
    and "0 < cp_level cp \<longrightarrow> level_sorted c (cp_inputs0 cp)" "level_sorted c (cp_inputs1 cp)"
    and "files = cp_inputs0 cp @ cp_inputs1 cp" "\<forall>f \<in> set files. opens (input_options opts) f"
    and "sorted_wrt (\<lambda>f g. \<forall>a \<in> set (file_entries f). \<forall>b \<in> set (file_entries g). sequence (fst a) \<noteq> sequence (fst b)) files"
    and "sorted_wrt (\<lambda>a b. entry_cmp c a b < 0) es" "set es = (\<Union>f \<in> set files. set (file_entries f))"
  shows "(\<exists>cursor i. iterator (InternalKey_Compare c) I cursor \<and> cursor (MakeInputIterator (InternalKeyComparator c) opts T new_iter cp) (mem_kvs es) i) \<and>
    it_collect I (length es) (it_SeekToFirst I (MakeInputIterator (InternalKeyComparator c) opts T new_iter cp)) = mem_kvs es"
proof -
  note it = iterator.merged_iterator [OF tables_iterator, of "input_options opts", folded I]
  obtain i where i: "merged_cursor (InternalKey_Compare c) (TablesIterator (InternalKeyComparator c) T new_iter (input_options opts))
      (tables_cursor (input_options opts)) (MakeInputIterator (InternalKeyComparator c) opts T new_iter cp) (mem_kvs es) i"
    using input_merged [OF assms(2-8)] by blast
  have "length (mem_kvs es) = length es" by (simp add: mem_kvs_def)
  then show ?thesis using it i iterator.scan_all [OF it, OF i] by auto
qed

end

text \<open>With the iterators of tables, two-level iterators over blocks.\<close>

interpretation table_files: table_iters BytewiseComparator "TwoLevelIterator BlockIterator BlockIterator block_function"
    "tl_cursor (InternalKey_Compare BytewiseComparator) BlockIterator (bcursor (InternalKeyComparator BytewiseComparator))
       BlockIterator (bcursor (InternalKeyComparator BytewiseComparator)) block_function content"
    new_iter entries for block_function content new_iter entries
proof -
  have "two_level (InternalKey_Compare BytewiseComparator) BlockIterator (bcursor (InternalKeyComparator BytewiseComparator))
      BlockIterator (bcursor (InternalKeyComparator BytewiseComparator))"
    using two_level_blocks [of "InternalKeyComparator BytewiseComparator"] bytewise_order.internal_three_way by simp
  then show "table_iters BytewiseComparator (TwoLevelIterator BlockIterator BlockIterator block_function)
      (tl_cursor (InternalKey_Compare BytewiseComparator) BlockIterator (bcursor (InternalKeyComparator BytewiseComparator))
         BlockIterator (bcursor (InternalKeyComparator BytewiseComparator)) block_function content)"
    by (intro table_iters.intro bytewise_order.internal_order_axioms two_level.whole_iterator)
qed

section \<open>Properties\<close>

text \<open>
  C5: The input iterator of a compaction, which merges the level-0 files and the concatenations of the files of deeper levels, opened as
  they are reached, is a cursor over the sorted entries of all input files; scanning it gives each of them once, in order.
\<close>

theorem compaction_input_iterator:
  fixes c opts T new_iter
  defines "I \<equiv> MergedIterator (InternalKey_Compare c) (TablesIterator (InternalKeyComparator c) T new_iter (input_options opts))"
  assumes "three_way (Compare c)" "iterator (InternalKey_Compare c) T ct"
    and "0 < cp_level cp \<longrightarrow> level_sorted c (cp_inputs0 cp)" "level_sorted c (cp_inputs1 cp)"
    and "files = cp_inputs0 cp @ cp_inputs1 cp" "\<forall>f \<in> set files. table_opens c ct new_iter entries (input_options opts) f"
    and "sorted_wrt (\<lambda>f g. \<forall>a \<in> set (table_entries entries f). \<forall>b \<in> set (table_entries entries g). sequence (fst a) \<noteq> sequence (fst b)) files"
    and "sorted_wrt (\<lambda>a b. entry_cmp c a b < 0) es" "set es = (\<Union>f \<in> set files. set (table_entries entries f))"
  shows "(\<exists>cursor i. iterator (InternalKey_Compare c) I cursor \<and> cursor (MakeInputIterator (InternalKeyComparator c) opts T new_iter cp) (mem_kvs es) i) \<and>
    it_collect I (length es) (it_SeekToFirst I (MakeInputIterator (InternalKeyComparator c) opts T new_iter cp)) = mem_kvs es"
proof -
  have t: "table_iters c T ct" using assms(2,3) by (intro table_iters.intro internal_order.intro)
  show ?thesis by (rule table_iters.input_iterator [OF t I_def [THEN meta_eq_to_obj_eq]]) (fact assms)+
qed

definition sample_inputs :: Compaction where
  "sample_inputs = (Compaction_new mem_options 0)\<lparr> cp_inputs0 := [FileMetaData_new\<lparr> f_number := 7, f_file_size := 100,
     f_smallest := entry_ikey sample_put, f_largest := entry_ikey sample_put \<rparr>] \<rparr>"

theorem compaction_input_iterator_witness:
  "\<exists>internal. Block_NewIterator (InternalKeyComparator BytewiseComparator) sample_block = Inr internal \<and>
    (let new_iter = (\<lambda>_ _ _. internal);
         I = MergedIterator (InternalKey_Compare BytewiseComparator)
               (TablesIterator (InternalKeyComparator BytewiseComparator) BlockIter new_iter (input_options mem_options))
     in it_collect I 1 (it_SeekToFirst I (MakeInputIterator (InternalKeyComparator BytewiseComparator) mem_options BlockIter new_iter sample_inputs))
        = [(entry_ikey sample_put, [7])])"
proof -
  obtain internal where b: "Block_NewIterator (InternalKeyComparator BytewiseComparator) sample_block = Inr internal"
    "block_cursor (InternalKeyComparator BytewiseComparator) internal (mem_kvs [sample_put]) 1"
    using sample_block_cursor by blast
  let ?files = "cp_inputs0 sample_inputs @ cp_inputs1 sample_inputs"
  let ?new = "\<lambda>_ _ _. internal"
  have f: "cp_level sample_inputs = 0" "cp_inputs1 sample_inputs = []" "length (cp_inputs0 sample_inputs) = 1"
    by (simp_all add: sample_inputs_def Compaction_new_def)
  have opens: "\<forall>f \<in> set ?files. table_opens BytewiseComparator (block_cursor (InternalKeyComparator BytewiseComparator)) ?new
      (\<lambda>_ _. [sample_put]) (input_options mem_options) f"
    using b(2) three_way.cmp_refl [OF bytewise_order.internal_three_way, of "entry_ikey sample_put"]
    by (auto simp: table_opens_def table_entries_def sample_inputs_def Compaction_new_def sample_put_def seq_le_max)
  have "level_sorted BytewiseComparator (cp_inputs1 sample_inputs)" by (simp add: f level_sorted_def)
  moreover have "sorted_wrt (\<lambda>f g. \<forall>a \<in> set (table_entries (\<lambda>_ _. [sample_put]) f). \<forall>b \<in> set (table_entries (\<lambda>_ _. [sample_put]) g).
      sequence (fst a) \<noteq> sequence (fst b)) ?files" by (simp add: sample_inputs_def Compaction_new_def)
  moreover have "set [sample_put] = (\<Union>f \<in> set ?files. set (table_entries (\<lambda>_ _. [sample_put]) f))"
    by (simp add: table_entries_def sample_inputs_def Compaction_new_def)
  ultimately show ?thesis
    using b(1) compaction_input_iterator [OF bytewise.three_way_axioms db_blocks.entries.iterator_axioms _ _ refl opens, of "[sample_put]"] f(1)
    by (auto simp: Let_def mem_kvs_def sample_put_def)
qed

end
