(* ===== verification/Spec2Isabelle.thy ===== *)
theory Spec2Isabelle
  imports Log MemTable Merger Table Filename VersionGet VersionRecover Compaction CompactionRun DbOpen TableCache VersionIters
begin

text \<open>
  A verification of LevelDB, a key-value store on log-structured merge trees (\<open>src/db\<close>, \<open>src/table\<close>,
  \<open>src/util\<close>, \<open>src/helpers/memenv\<close>).

  \<^bold>\<open>The program.\<close>  A write is a batch of puts and deletes.  It is appended to a log and then entered into a skip list in
  memory, the memtable.  A full memtable is written to a sorted table file of level 0.  A background thread merges tables
  into deeper levels and drops entries that no snapshot can see.  The set of tables is a version; changes of versions
  are edits, logged in the manifest.  A lookup asks the memtables and then the tables of the current version.  Opening a database
  replays the manifest and then the logs.

  \<^bold>\<open>Theories and code.\<close>  Each theory starts with the definitions that translate its file, in the order of the code.
  \<^item> \<open>LDB_Prelude\<close>: types of machine words, shared list and word lemmas, the collections for automation.  \<open>Slice\<close>, \<open>Coding\<close>,
    \<open>Logging\<close>, \<open>RandomGen\<close>, \<open>Crc32cTables\<close>, \<open>Crc32c\<close>, \<open>Bloom\<close>, \<open>Comparator\<close>, \<open>Arena\<close>, \<open>Options\<close>: \<open>util\<close> and \<open>include/leveldb\<close>.
    \<open>Cache\<close>: \<open>util/cache.cc\<close>; tables have no block cache.
  \<^item> \<open>Env\<close>, \<open>EnvUtil\<close>, \<open>MemEnv\<close>: files and the file system as records of functions over any state, their contracts
    as locales, and the in-memory environment, which interprets them.
  \<^item> \<open>Log\<close>: \<open>db/log_writer.cc\<close> and \<open>db/log_reader.cc\<close>.  \<open>WriteBatch\<close>: \<open>db/write_batch.cc\<close>.
  \<^item> \<open>SkipList\<close>, \<open>DbFormat\<close>, \<open>MemTable\<close>, \<open>MemIter\<close>: \<open>db/skiplist.h\<close>, \<open>db/dbformat.cc\<close>, \<open>db/memtable.cc\<close>.
  \<^item> \<open>Iterator\<close> (interface and contract), \<open>Block\<close>, \<open>FilterBlock\<close>, \<open>Format\<close>, \<open>TableBuilder\<close>, \<open>Table\<close>, \<open>TwoLevel\<close>, \<open>Merger\<close>: \<open>src/table\<close>.
  \<^item> \<open>VersionEdit\<close>, \<open>Filename\<close>, \<open>Version\<close>, \<open>VersionBuilder\<close>, \<open>VersionSet\<close>, \<open>Compaction\<close>: \<open>db/version_edit.cc\<close>, \<open>db/filename.cc\<close> and
    \<open>db/version_set.cc\<close>; \<open>VersionGet\<close> and \<open>VersionRecover\<close> prove lookups and recovery over them.
  \<^item> \<open>DbImpl\<close> (state of a database, snapshots, \<open>db/builder.cc\<close>, flushing, obsolete files), \<open>DbCompaction\<close>, \<open>DbRead\<close>,
    \<open>DbWrite\<close>, \<open>DbOpen\<close>: \<open>db/db_impl.cc\<close>; \<open>DBIter\<close>: \<open>db/db_iter.cc\<close>.
    \<open>VersionIters\<close>: the iterators over versions, over the inputs of a compaction and over a database.  \<open>TableCache\<close>: \<open>db/table_cache.cc\<close>.
    \<open>TableStore\<close> is the contract of the files and the table cache;
    \<open>CompactionReads\<close> and \<open>CompactionRun\<close> prove that compactions preserve what lookups see.

  \<^bold>\<open>How the code is modelled.\<close>  Objects are records, passed through and returned; a pointer to an object that is only read is the
  object; a null pointer is \<^term>\<open>None\<close>.  Integers have their width where they can wrap; sizes of things in memory are
  natural numbers.  A \<open>Status\<close> is a value and every early return a branch.  Classes with virtual functions are records of
  functions (comparator, filter policy, iterator, files, environment), and what the code expects of them is a locale,
  interpreted on the program's own classes.  The mutex makes what runs under it one step; where the code releases
  it, a parameter (\<open>others\<close>, \<open>during\<close>, \<open>waiting\<close>) gives what the other threads do there.

  \<^bold>\<open>Loops.\<close>  Loops that are bounded by their data are recursive functions with termination proofs.  Loops that may run for ever
  (searches in the skip list, empty blocks, reading records, waiting) are partial functions with
  result \<^term>\<open>None\<close> for not returning; the theorems about them prove that they return.  No fuel is used.

  \<^bold>\<open>What is shown.\<close>  Encodings, logs, batches, blocks, tables, edits and file names round-trip, and corrupt or truncated input
  gives errors where the format can tell.  The skip list keeps its order and its searches end; the arena hands out disjoint
  regions.  Memtables, versions and whole databases answer a lookup with the newest entry that the snapshot sees.  Iterators
  over blocks, tables and merged children are cursors over sorted lists, and the iterator of a database is one over the keys and values
  that lookups at its snapshot find.  A log or manifest that a crash cut off anywhere gives back
  exactly the records that were complete.  The input of a compaction is the sorted merge of its files, and compactions copy all entries that some snapshot can see.  The cache
  keeps the handles its clients hold and evicts just the oldest others; reading a table through the table cache is the same as opening its file anew.  A group
  of writes is logged, applied and acknowledged as a whole, and waiting for room ends if background work advances.

  \<^bold>\<open>Bounds.\<close>  Hypotheses restrict sizes where the code relies on them: keys and values below 4 GB (32-bit lengths), tables below
  4 GB, less than \<open>2^56\<close> sequence numbers, batches below \<open>2^31\<close> operations.

  \<^bold>\<open>Simplifications.\<close>  Doubles in compaction scores are rationals.  The destructor of a writable file is the point at which the file
  system has its bytes (\<open>env_delete_WF\<close>).  The info log, the clock and reference counts that only control
  deallocation are left out.  In the model of the database, lookups and iterators of the table cache are parameters with a contract; opening the
  file anew, to which \<open>TableCache\<close> reduces the cached lookup, is the instance of the contract in \<open>TableStore\<close>.

  \<^bold>\<open>Not modelled.\<close>  Repairing a damaged database (\<open>db/repair.cc\<close>) and the properties of a
  database that \<open>GetProperty\<close> formats.  The POSIX and Windows environments, the port layer, the C bindings, the
  command line tools, histograms, benchmarks and tests: system calls, wrappers and printing, without logic of the store.
\<close>

end
